(* ===== verification/Bw_Prelude.thy ===== *)
theory Bw_Prelude
  imports Main "HOL-Library.Word"
begin

text \<open>
  The prelude of the development: the names of the machine types, the result monad in which every
  fallible operation is written, decimal rendering (\<^verbatim>\<open>std::to_string\<close>), the conversion between
  bytes and characters, and the generic facts on lists and words the components share.

  A \<^verbatim>\<open>std::uintN_t\<close> is an \<open>N word\<close>; an \<^verbatim>\<open>std::int64_t\<close> is the \<open>64 word\<close> of its two's
  complement bits, read by \<open>sint\<close>; a \<^verbatim>\<open>std::size_t\<close> that counts bytes of a buffer held in memory is
  a \<open>nat\<close>; a \<^verbatim>\<open>std::vector<std::uint8_t>\<close> is a list of \<open>8 word\<close>; a \<^verbatim>\<open>std::string\<close> is a list of
  HOL characters, which are bytes.
\<close>

unbundle bit_operations_syntax

type_synonym u8 = "8 word"
type_synonym u16 = "16 word"
type_synonym u32 = "32 word"
type_synonym u64 = "64 word"
type_synonym i64 = "64 word"
type_synonym bytes = "8 word list"

named_theorems rd_simps \<open>evaluation of the cursor operations on a cursor of known shape\<close>
named_theorems codec_simps \<open>a reader applied to what the matching writer produced\<close>
named_theorems put_append \<open>a writer operation appends to the buffer it is given\<close>

section \<open>The result monad\<close>

text \<open>
  A throw is \<open>Inl\<close> of the error and a normal return is \<open>Inr\<close> of the value; \<open>bindE\<close> is sequencing,
  which stops at the first throw.
\<close>

definition bindE :: "'e + 'a \<Rightarrow> ('a \<Rightarrow> 'e + 'b) \<Rightarrow> 'e + 'b" where
  "bindE m f = (case m of Inl e \<Rightarrow> Inl e | Inr a \<Rightarrow> f a)"

lemma bindE_Inl [simp]: "bindE (Inl e) f = Inl e"
  by (simp add: bindE_def)

lemma bindE_Inr [simp]: "bindE (Inr a) f = f a"
  by (simp add: bindE_def)

lemma bindE_eq_Inr: "bindE m f = Inr b \<longleftrightarrow> (\<exists>a. m = Inr a \<and> f a = Inr b)"
  by (cases m) auto

lemma bindE_eq_Inl: "bindE m f = Inl e \<longleftrightarrow> m = Inl e \<or> (\<exists>a. m = Inr a \<and> f a = Inl e)"
  by (cases m) auto

lemma bindE_assoc: "bindE (bindE m f) g = bindE m (\<lambda>x. bindE (f x) g)"
  by (cases m) auto

lemma bindE_cong [fundef_cong]:
  "m = m' \<Longrightarrow> (\<And>a. m' = Inr a \<Longrightarrow> f a = f' a) \<Longrightarrow> bindE m f = bindE m' f'"
  by (cases m') auto

section \<open>Bytes and characters\<close>

definition byte_of_char :: "char \<Rightarrow> u8" where
  "byte_of_char c = of_char c"

definition char_of_byte :: "u8 \<Rightarrow> char" where
  "char_of_byte b = char_of (unat b)"

lemma unat_byte_of_char: "unat (byte_of_char c) = (of_char c :: nat)"
proof -
  have "of_char c = (word_of_nat (of_char c) :: u8)"
    by (simp add: of_nat_of_char)
  moreover have "(of_char c :: nat) mod 256 = of_char c"
    by (rule of_char_mod_256)
  ultimately show ?thesis
    by (simp add: byte_of_char_def unat_of_nat del: of_char_mod_256)
qed

lemma char_of_byte_of_char [simp]: "char_of_byte (byte_of_char c) = c"
  by (simp add: char_of_byte_def unat_byte_of_char)

lemma byte_of_char_of_byte [simp]: "byte_of_char (char_of_byte b) = b"
proof -
  have "unat b < 256" using unsigned_less [of b] by simp
  then have "(of_char (char_of (unat b)) :: nat) = unat b" by simp
  then show ?thesis
    by (metis char_of_byte_def unat_byte_of_char word_unat_eq_iff)
qed

definition bytes_of_string :: "string \<Rightarrow> bytes" where
  "bytes_of_string s = map byte_of_char s"

definition string_of_bytes :: "bytes \<Rightarrow> string" where
  "string_of_bytes bs = map char_of_byte bs"

lemma string_of_bytes_of_string [simp]: "string_of_bytes (bytes_of_string s) = s"
  by (simp add: string_of_bytes_def bytes_of_string_def map_idI)

lemma bytes_of_string_of_bytes [simp]: "bytes_of_string (string_of_bytes bs) = bs"
  by (simp add: string_of_bytes_def bytes_of_string_def map_idI)

lemma length_bytes_of_string [simp]: "length (bytes_of_string s) = length s"
  by (simp add: bytes_of_string_def)

lemma length_string_of_bytes [simp]: "length (string_of_bytes bs) = length bs"
  by (simp add: string_of_bytes_def)

section \<open>Decimal rendering\<close>

text \<open>
  \<open>dec_of_nat\<close> is what \<^verbatim>\<open>std::to_string\<close> prints for an unsigned value; \<open>dec_of_int\<close> puts a minus sign
  before the magnitude of a negative one.
\<close>

definition digit_char :: "nat \<Rightarrow> char" where
  "digit_char d = char_of (48 + d)"

lemma digit_char_0 [simp]: "digit_char 0 = CHR ''0''"
  by code_simp

fun dec_of_nat :: "nat \<Rightarrow> string" where
  "dec_of_nat n = (if n < 10 then [digit_char n] else dec_of_nat (n div 10) @ [digit_char (n mod 10)])"

declare dec_of_nat.simps [simp del]

definition dec_of_int :: "int \<Rightarrow> string" where
  "dec_of_int i = (if i < 0 then CHR ''-'' # dec_of_nat (nat (- i)) else dec_of_nat (nat i))"

text \<open>Reading a digit string back is the specification the rendering is checked against.\<close>

definition nat_of_dec :: "string \<Rightarrow> nat" where
  "nat_of_dec s = foldl (\<lambda>n c. 10 * n + (of_char c - 48)) 0 s"

lemma of_char_digit_char: "d < 10 \<Longrightarrow> (of_char (digit_char d) :: nat) = 48 + d"
  by (simp add: digit_char_def)

lemma nat_of_dec_of_nat [simp]: "nat_of_dec (dec_of_nat n) = n"
proof (induction n rule: dec_of_nat.induct)
  case (1 n)
  show ?case
  proof (cases "n < 10")
    case True
    then show ?thesis
      by (simp add: dec_of_nat.simps [of n] nat_of_dec_def of_char_digit_char)
  next
    case False
    with 1 have "nat_of_dec (dec_of_nat (n div 10)) = n div 10" by simp
    with False show ?thesis
      by (simp add: dec_of_nat.simps [of n] nat_of_dec_def of_char_digit_char)
  qed
qed

lemma dec_of_nat_inject [simp]: "dec_of_nat m = dec_of_nat n \<longleftrightarrow> m = n"
  by (metis nat_of_dec_of_nat)

lemma dec_of_nat_nonempty [simp]: "dec_of_nat n \<noteq> []"
  by (subst dec_of_nat.simps) simp

section \<open>Lists\<close>

lemma take_drop_append_mid [simp]:
  "take (length ys) (drop (length xs) (xs @ ys @ zs)) = ys"
  by simp

lemma nth_append_mid: "i < length ys \<Longrightarrow> (xs @ ys @ zs) ! (length xs + i) = ys ! i"
  by (simp add: nth_append)

lemma sorted_wrt_map_less: "sorted_wrt (\<lambda>x y. f x < f y) xs \<longleftrightarrow> sorted_wrt (<) (map f xs)"
  by (simp add: sorted_wrt_map)

section \<open>Words\<close>

lemma ucast_u8_bit: "bit (ucast (b :: u8) :: 'a::len word) n \<longleftrightarrow> n < LENGTH('a) \<and> n < 8 \<and> bit b n"
  by (auto simp: bit_simps dest: bit_imp_le_length)

lemma unat_less_256 [simp]: "unat (b :: u8) < 256"
  using unsigned_less [of b] by simp

lemma bit_masks [simp]:
  "bit (0xFF :: nat) n \<longleftrightarrow> n < 8" "bit (0x7F :: nat) n \<longleftrightarrow> n < 7" "bit (0x80 :: nat) n \<longleftrightarrow> n = 7"
  "bit (0xFF :: int) n \<longleftrightarrow> n < 8" "bit (0x7F :: int) n \<longleftrightarrow> n < 7" "bit (0x80 :: int) n \<longleftrightarrow> n = 7"
proof -
  have n: "(0xFF :: nat) = mask 8" "(0x7F :: nat) = mask 7" "(0x80 :: nat) = 2 ^ 7"
    by (simp_all add: mask_eq_exp_minus_1)
  have i: "(0xFF :: int) = mask 8" "(0x7F :: int) = mask 7" "(0x80 :: int) = 2 ^ 7"
    by (simp_all add: mask_eq_exp_minus_1)
  show "bit (0xFF :: nat) n \<longleftrightarrow> n < 8" "bit (0x7F :: nat) n \<longleftrightarrow> n < 7" "bit (0x80 :: nat) n \<longleftrightarrow> n = 7"
    unfolding n by (simp_all add: bit_mask_iff bit_exp_iff del: power_numeral)
  show "bit (0xFF :: int) n \<longleftrightarrow> n < 8" "bit (0x7F :: int) n \<longleftrightarrow> n < 7" "bit (0x80 :: int) n \<longleftrightarrow> n = 7"
    unfolding i by (auto simp: bit_mask_iff bit_exp_iff simp del: power_numeral)
qed

lemma unat_ucast_u8:
  assumes "8 \<le> LENGTH('a)"
  shows "unat (ucast (b :: u8) :: 'a::len word) = unat b"
proof -
  have "unat b < 2 ^ 8" by simp
  also have "(2 :: nat) ^ 8 \<le> 2 ^ LENGTH('a)" using assms by (intro power_increasing) simp_all
  finally show ?thesis by (simp add: unsigned_ucast_eq take_bit_nat_eq_self)
qed

lemma and_exp_eq_0_bit: "(w :: 'a::len word) AND 2 ^ n = 0 \<longleftrightarrow> \<not> bit w n"
  by (rule and_exp_eq_0_iff_not_bit)

end
