(* ===== verification/Status.thy ===== *)
theory Status
  imports Bw_Prelude
begin

text \<open>
  The shared error model (\<^verbatim>\<open>include/common/status.hpp\<close>, \<^verbatim>\<open>src/common/status.cpp\<close>): the error codes,
  their descriptions, and \<^verbatim>\<open>ParseError\<close>, which carries the code, the byte offset and the text from
  which the exception's message is built.
\<close>

datatype error_code =
    kOk | kShortRead | kBadMagic | kBadVersion | kBadChecksum | kBadLength | kBadType
  | kDepthExceeded | kStateViolation | kUnsupported | kTruncated

fun describe :: "error_code \<Rightarrow> string" where
  "describe kOk = ''ok''"
| "describe kShortRead = ''read past end of buffer''"
| "describe kBadMagic = ''magic mismatch''"
| "describe kBadVersion = ''unsupported version''"
| "describe kBadChecksum = ''checksum mismatch''"
| "describe kBadLength = ''inconsistent length or offset''"
| "describe kBadType = ''unknown type tag''"
| "describe kDepthExceeded = ''nesting depth exceeded''"
| "describe kStateViolation = ''operation invalid in current state''"
| "describe kUnsupported = ''unsupported feature''"
| "describe kTruncated = ''structure truncated''"

datatype parse_error = ParseError (err_code: error_code) (err_offset: nat) (err_text: string)

type_synonym 'a result = "parse_error + 'a"

text \<open>The constructor without a text describes the code.\<close>

definition parse_error_default :: "error_code \<Rightarrow> nat \<Rightarrow> parse_error" where
  "parse_error_default code off = ParseError code off (describe code)"

text \<open>
  \<^verbatim>\<open>build_message\<close> renders the offset by hand: it pushes the digits of the offset, least significant
  first, into a buffer of 24 characters and then pops them.
\<close>

fun offset_digits :: "nat \<Rightarrow> string" where
  "offset_digits v = (if v > 0 then digit_char (v mod 10) # offset_digits (v div 10) else [])"

declare offset_digits.simps [simp del]

definition build_message :: "error_code \<Rightarrow> nat \<Rightarrow> string \<Rightarrow> string" where
  "build_message code off what =
     ''['' @ describe code @ '' @ '' @
     (if off = 0 then ''0'' else rev (offset_digits off)) @ ''] '' @ what"

text \<open>The hand-written loop agrees with \<^verbatim>\<open>std::to_string\<close>, and never overruns its 24 characters.\<close>

lemma rev_offset_digits: "0 < n \<Longrightarrow> rev (offset_digits n) = dec_of_nat n"
proof (induction n rule: less_induct)
  case (less n)
  show ?case
  proof (cases "n < 10")
    case True
    with less.prems show ?thesis
      by (simp add: offset_digits.simps [of n] offset_digits.simps [of 0] dec_of_nat.simps [of n])
  next
    case False
    then have "0 < n div 10" "n div 10 < n" by auto
    with less.IH have "rev (offset_digits (n div 10)) = dec_of_nat (n div 10)" by blast
    with False show ?thesis
      by (simp add: offset_digits.simps [of n] dec_of_nat.simps [of n])
  qed
qed

lemma length_offset_digits: "n < 10 ^ k \<Longrightarrow> length (offset_digits n) \<le> k"
proof (induction k arbitrary: n)
  case 0
  then show ?case by (simp add: offset_digits.simps)
next
  case (Suc k)
  then have "n div 10 < 10 ^ k" by (simp add: less_mult_imp_div_less mult.commute)
  with Suc.IH have "length (offset_digits (n div 10)) \<le> k" by blast
  then show ?case by (simp add: offset_digits.simps [of n])
qed

lemma offset_digits_fit_buffer: "n < 2 ^ 64 \<Longrightarrow> length (offset_digits n) \<le> 24"
  by (rule length_offset_digits) simp

lemma build_message_dec:
  "build_message code off what =
     ''['' @ describe code @ '' @ '' @ dec_of_nat off @ ''] '' @ what"
  by (simp add: build_message_def rev_offset_digits dec_of_nat.simps [of 0])

end
