(* ===== verification/Byte_Reader.thy ===== *)
theory Byte_Reader
  imports Status
begin

text \<open>
  \<^verbatim>\<open>common::ByteReader\<close> (\<^verbatim>\<open>include/common/byte_reader.hpp\<close>, \<^verbatim>\<open>src/common/byte_reader.cpp\<close>): a
  non-owning view of a buffer with a cursor. The buffer is the list \<open>rd_data\<close>, whose length is
  \<^verbatim>\<open>size_\<close>, and \<open>rd_pos\<close> is \<^verbatim>\<open>pos_\<close>. A member function that moves the cursor and may throw is a
  function from the cursor to a result that holds the value and the moved cursor. The theory also
  states the contract every such operation meets (locales \<open>cursor_op\<close>, \<open>progress_op\<close> and
  \<open>fixed_op\<close>) and interprets it for each of them.
\<close>

unbundle bit_operations_syntax

record byte_reader =
  rd_data :: bytes
  rd_pos :: nat

type_synonym 'a rd = "byte_reader \<Rightarrow> ('a \<times> byte_reader) result"

section \<open>Operations\<close>

definition byte_reader_new :: "bytes \<Rightarrow> byte_reader" where
  "byte_reader_new bs = \<lparr>rd_data = bs, rd_pos = 0\<rparr>"

definition rd_size :: "byte_reader \<Rightarrow> nat" where
  "rd_size r = length (rd_data r)"

definition rd_remaining :: "byte_reader \<Rightarrow> nat" where
  "rd_remaining r = (if rd_pos r \<le> rd_size r then rd_size r - rd_pos r else 0)"

definition rd_eof :: "byte_reader \<Rightarrow> bool" where
  "rd_eof r \<longleftrightarrow> rd_size r \<le> rd_pos r"

definition seek :: "nat \<Rightarrow> unit rd" where
  "seek pos r =
     (if rd_size r < pos then Inl (ParseError kBadLength pos ''seek past end of buffer'')
      else Inr ((), r\<lparr>rd_pos := pos\<rparr>))"

definition require :: "nat \<Rightarrow> unit rd" where
  "require n r =
     (if rd_remaining r < n then Inl (parse_error_default kShortRead (rd_pos r)) else Inr ((), r))"

text \<open>Sequencing of cursor operations, and the byte \<^verbatim>\<open>data_[pos_ + i]\<close>.\<close>

definition rd_bind :: "'a rd \<Rightarrow> ('a \<Rightarrow> 'b rd) \<Rightarrow> 'b rd" where
  "rd_bind m f r = bindE (m r) (\<lambda>(v, r'). f v r')"

definition rd_return :: "'a \<Rightarrow> 'a rd" where
  "rd_return v r = Inr (v, r)"

definition rd_throw :: "error_code \<Rightarrow> nat \<Rightarrow> string \<Rightarrow> 'a rd" where
  "rd_throw code off what r = Inl (ParseError code off what)"

definition rd_byte :: "byte_reader \<Rightarrow> nat \<Rightarrow> u8" where
  "rd_byte r i = rd_data r ! (rd_pos r + i)"

definition rd_advance :: "nat \<Rightarrow> byte_reader \<Rightarrow> byte_reader" where
  "rd_advance n r = r\<lparr>rd_pos := rd_pos r + n\<rparr>"

definition skip :: "nat \<Rightarrow> unit rd" where
  "skip n = rd_bind (require n) (\<lambda>_ r. Inr ((), rd_advance n r))"

definition read_u8 :: "u8 rd" where
  "read_u8 = rd_bind (require 1) (\<lambda>_ r. Inr (rd_byte r 0, rd_advance 1 r))"

definition read_u16le :: "u16 rd" where
  "read_u16le = rd_bind (require 2) (\<lambda>_ r.
     Inr (ucast (rd_byte r 0) OR push_bit 8 (ucast (rd_byte r 1)), rd_advance 2 r))"

definition read_u32le :: "u32 rd" where
  "read_u32le = rd_bind (require 4) (\<lambda>_ r.
     Inr (ucast (rd_byte r 0) OR push_bit 8 (ucast (rd_byte r 1)) OR
            push_bit 16 (ucast (rd_byte r 2)) OR push_bit 24 (ucast (rd_byte r 3)),
          rd_advance 4 r))"

text \<open>The loops of the 64-bit readers: \<^verbatim>\<open>v = (v << 8) | byte\<close> over the listed indices.\<close>

definition shift_in :: "byte_reader \<Rightarrow> nat list \<Rightarrow> u64" where
  "shift_in r is = fold (\<lambda>i v. push_bit 8 v OR ucast (rd_byte r i)) is 0"

definition read_u64le :: "u64 rd" where
  "read_u64le = rd_bind (require 8) (\<lambda>_ r. Inr (shift_in r [7, 6, 5, 4, 3, 2, 1, 0], rd_advance 8 r))"

definition read_u16be :: "u16 rd" where
  "read_u16be = rd_bind (require 2) (\<lambda>_ r.
     Inr (push_bit 8 (ucast (rd_byte r 0)) OR ucast (rd_byte r 1), rd_advance 2 r))"

definition read_u32be :: "u32 rd" where
  "read_u32be = rd_bind (require 4) (\<lambda>_ r.
     Inr (push_bit 24 (ucast (rd_byte r 0)) OR push_bit 16 (ucast (rd_byte r 1)) OR
            push_bit 8 (ucast (rd_byte r 2)) OR ucast (rd_byte r 3),
          rd_advance 4 r))"

definition read_u64be :: "u64 rd" where
  "read_u64be = rd_bind (require 8) (\<lambda>_ r. Inr (shift_in r [0, 1, 2, 3, 4, 5, 6, 7], rd_advance 8 r))"

text \<open>
  Unsigned LEB128. The loop is indexed by the iterations it has left (10 at the start), \<open>start\<close> is the
  offset the error names, and the largest shift is \<open>63\<close>, so no shift is out of range.
\<close>

fun read_varint_loop :: "nat \<Rightarrow> nat \<Rightarrow> nat \<Rightarrow> u64 \<Rightarrow> u64 rd" where
  "read_varint_loop 0 start shift acc r = Inl (ParseError kBadLength start ''varint too long'')"
| "read_varint_loop (Suc n) start shift acc r = bindE (read_u8 r) (\<lambda>(b, r').
     let acc' = acc OR push_bit shift (ucast (b AND 0x7F)) in
     if b AND 0x80 = 0 then Inr (acc', r') else read_varint_loop n start (shift + 7) acc' r')"

definition read_varint :: "u64 rd" where
  "read_varint r = read_varint_loop 10 (rd_pos r) 0 0 r"

definition unzigzag :: "u64 \<Rightarrow> i64" where
  "unzigzag u = drop_bit 1 u XOR (NOT (u AND 1) + 1)"

definition read_svarint :: "i64 rd" where
  "read_svarint = rd_bind read_varint (\<lambda>u. rd_return (unzigzag u))"

definition rd_take :: "byte_reader \<Rightarrow> nat \<Rightarrow> bytes" where
  "rd_take r n = take n (drop (rd_pos r) (rd_data r))"

definition read_bytes :: "nat \<Rightarrow> bytes rd" where
  "read_bytes n = rd_bind (require n) (\<lambda>_ r. Inr (rd_take r n, rd_advance n r))"

definition read_string :: "nat \<Rightarrow> string rd" where
  "read_string n = rd_bind (require n) (\<lambda>_ r. Inr (string_of_bytes (rd_take r n), rd_advance n r))"

text \<open>The borrowed span is modelled by its bytes.\<close>

definition read_raw :: "nat \<Rightarrow> bytes rd" where
  "read_raw n = rd_bind (require n) (\<lambda>_ r. Inr (rd_take r n, rd_advance n r))"

definition peek_u8 :: "byte_reader \<Rightarrow> u8 result" where
  "peek_u8 r = bindE (require 1 r) (\<lambda>_. Inr (rd_byte r 0))"

definition rd_match :: "bytes \<Rightarrow> byte_reader \<Rightarrow> bool" where
  "rd_match expected r =
     (if rd_remaining r < length expected then False else rd_take r (length expected) = expected)"

section \<open>The contract of a cursor operation\<close>

definition wf_rd :: "byte_reader \<Rightarrow> bool" where
  "wf_rd r \<longleftrightarrow> rd_pos r \<le> length (rd_data r)"

lemma wf_rd_new [simp]: "wf_rd (byte_reader_new bs)"
  by (simp add: wf_rd_def byte_reader_new_def)

lemma rd_remaining_wf: "wf_rd r \<Longrightarrow> rd_remaining r = length (rd_data r) - rd_pos r"
  by (simp add: wf_rd_def rd_remaining_def rd_size_def)

lemma rd_eof_iff: "rd_eof r \<longleftrightarrow> rd_remaining r = 0"
  by (auto simp: rd_eof_def rd_remaining_def)

text \<open>
  Every operation leaves the buffer alone, keeps the cursor inside it, never moves it back, and reports
  an error at an offset inside the buffer.
\<close>

locale cursor_op =
  fixes oper :: "'a rd"
  assumes data_kept: "oper r = Inr (v, r') \<Longrightarrow> rd_data r' = rd_data r"
    and never_back: "oper r = Inr (v, r') \<Longrightarrow> rd_pos r \<le> rd_pos r'"
    and stays_inside: "wf_rd r \<Longrightarrow> oper r = Inr (v, r') \<Longrightarrow> wf_rd r'"
    and error_inside: "wf_rd r \<Longrightarrow> oper r = Inl e \<Longrightarrow> err_offset e \<le> length (rd_data r)"
begin

lemma remaining_decreases:
  assumes "wf_rd r" and "oper r = Inr (v, r')"
  shows "rd_remaining r' \<le> rd_remaining r"
proof -
  have "wf_rd r'" "rd_data r' = rd_data r" "rd_pos r \<le> rd_pos r'"
    using assms stays_inside data_kept never_back by blast+
  with assms(1) show ?thesis by (simp add: rd_remaining_wf)
qed

end

text \<open>An operation that consumes at least one byte: what the decoding loops need to terminate.\<close>

locale progress_op = cursor_op +
  assumes advances: "oper r = Inr (v, r') \<Longrightarrow> rd_pos r < rd_pos r'"
begin

lemma remaining_shrinks:
  assumes "wf_rd r" and "oper r = Inr (v, r')"
  shows "rd_remaining r' < rd_remaining r"
proof -
  have "wf_rd r'" "rd_data r' = rd_data r" "rd_pos r < rd_pos r'"
    using assms stays_inside data_kept advances by blast+
  with assms(1) show ?thesis by (simp add: rd_remaining_wf wf_rd_def)
qed

lemma eof_fails: "wf_rd r \<Longrightarrow> rd_eof r \<Longrightarrow> \<exists>e. oper r = Inl e"
proof (rule ccontr)
  assume wf: "wf_rd r" and eof: "rd_eof r" and "\<nexists>e. oper r = Inl e"
  then obtain v r' where ok: "oper r = Inr (v, r')" by (cases "oper r") auto
  from remaining_shrinks [OF wf ok] eof show False by (simp add: rd_eof_iff)
qed

end

text \<open>
  An operation of fixed width \<open>n\<close>: it succeeds exactly when \<open>n\<close> bytes remain, then consumes them, and
  otherwise reports \<^verbatim>\<open>kShortRead\<close> at the cursor.
\<close>

locale fixed_op =
  fixes oper :: "'a rd" and width :: nat
  assumes enough: "width \<le> rd_remaining r \<Longrightarrow> \<exists>v. oper r = Inr (v, rd_advance width r)"
    and short: "rd_remaining r < width \<Longrightarrow> oper r = Inl (parse_error_default kShortRead (rd_pos r))"
begin

lemma succeeds_iff: "(\<exists>v r'. oper r = Inr (v, r')) \<longleftrightarrow> width \<le> rd_remaining r"
  using enough [of r] short [of r] by (cases "width \<le> rd_remaining r") auto

lemma success: "oper r = Inr (v, r') \<Longrightarrow> r' = rd_advance width r \<and> width \<le> rd_remaining r"
  using enough [of r] short [of r] by (cases "width \<le> rd_remaining r") auto

end

sublocale fixed_op \<subseteq> cursor_op oper
proof unfold_locales
  fix r v r'
  assume "oper r = Inr (v, r')"
  then have s: "r' = rd_advance width r" "width \<le> rd_remaining r"
    using success by auto
  show "rd_data r' = rd_data r" "rd_pos r \<le> rd_pos r'"
    by (simp_all add: s(1) rd_advance_def)
  show "wf_rd r'" if "wf_rd r"
    using that s(2) by (simp add: s(1) rd_advance_def wf_rd_def rd_remaining_def rd_size_def)
next
  fix r e
  assume wf: "wf_rd r" and "oper r = Inl e"
  then have "rd_remaining r < width" using enough [of r] by (cases "width \<le> rd_remaining r") auto
  with \<open>oper r = Inl e\<close> have "e = parse_error_default kShortRead (rd_pos r)" using short by simp
  with wf show "err_offset e \<le> length (rd_data r)"
    by (simp add: parse_error_default_def wf_rd_def)
qed

context fixed_op
begin

lemma is_cursor_op: "cursor_op oper"
  by (rule cursor_op_axioms)

end

lemma fixed_opI:
  assumes "oper = rd_bind (require n) (\<lambda>_ r. Inr (f r, rd_advance n r))"
  shows "fixed_op oper n"
  by unfold_locales (auto simp: assms rd_bind_def require_def)

text \<open>With a positive width it consumes something.\<close>

locale fixed_pos = fixed_op +
  assumes width_pos: "0 < width"

sublocale fixed_pos \<subseteq> progress_op oper
proof unfold_locales
  fix r v r'
  assume "oper r = Inr (v, r')"
  then have "r' = rd_advance width r" using success by blast
  then show "rd_pos r < rd_pos r'" using width_pos by (simp add: rd_advance_def)
qed

lemma fixed_posI:
  assumes "oper = rd_bind (require n) (\<lambda>_ r. Inr (f r, rd_advance n r))" and "0 < n"
  shows "fixed_pos oper n"
  using assms fixed_opI [OF assms(1)] by (simp add: fixed_pos_def fixed_pos_axioms_def)

named_theorems cursor_intros \<open>which operations meet the cursor contract, and how the contract composes\<close>

lemma cursor_op_return [cursor_intros]: "cursor_op (rd_return v)"
  by unfold_locales (auto simp: rd_return_def)

lemma cursor_op_bind [cursor_intros]:
  assumes m: "cursor_op m" and f: "\<And>v. cursor_op (f v)"
  shows "cursor_op (rd_bind m f)"
proof unfold_locales
  fix r w r'
  assume "rd_bind m f r = Inr (w, r')"
  then obtain v r1 where 1: "m r = Inr (v, r1)" and 2: "f v r1 = Inr (w, r')"
    by (auto simp: rd_bind_def bindE_eq_Inr)
  show "rd_data r' = rd_data r"
    using cursor_op.data_kept [OF m 1] cursor_op.data_kept [OF f 2] by simp
  show "rd_pos r \<le> rd_pos r'"
    using cursor_op.never_back [OF m 1] cursor_op.never_back [OF f 2] by simp
  show "wf_rd r'" if "wf_rd r"
    using cursor_op.stays_inside [OF f cursor_op.stays_inside [OF m that 1] 2] .
next
  fix r e
  assume wf: "wf_rd r" and "rd_bind m f r = Inl e"
  then consider "m r = Inl e" | v r1 where "m r = Inr (v, r1)" "f v r1 = Inl e"
    by (auto simp: rd_bind_def bindE_eq_Inl)
  then show "err_offset e \<le> length (rd_data r)"
  proof cases
    case 1
    then show ?thesis by (rule cursor_op.error_inside [OF m wf])
  next
    case 2
    then show ?thesis
      using cursor_op.error_inside [OF f cursor_op.stays_inside [OF m wf 2(1)] 2(2)]
        cursor_op.data_kept [OF m 2(1)] by simp
  qed
qed

lemma progress_op_bind [cursor_intros]:
  assumes m: "progress_op m" and f: "\<And>v. cursor_op (f v)"
  shows "progress_op (rd_bind m f)"
proof -
  have cm: "cursor_op m" using m by (rule progress_op.axioms)
  have "rd_pos r < rd_pos r'" if "rd_bind m f r = Inr (w, r')" for r w r'
  proof -
    from that obtain v r1 where 1: "m r = Inr (v, r1)" and 2: "f v r1 = Inr (w, r')"
      by (auto simp: rd_bind_def bindE_eq_Inr)
    from progress_op.advances [OF m 1] cursor_op.never_back [OF f 2] show ?thesis by simp
  qed
  with cursor_op_bind [OF cm f] show ?thesis
    by (simp add: progress_op_def progress_op_axioms_def)
qed

section \<open>Every operation meets the contract\<close>

lemma cursor_op_require [cursor_intros]: "cursor_op (require n)"
  by unfold_locales
    (auto simp: require_def parse_error_default_def wf_rd_def split: if_splits)

lemma seek_stays_inside:
  assumes "rd_pos r \<le> pos" and "seek pos r = Inr ((), r')" and "wf_rd r"
  shows "wf_rd r' \<and> rd_pos r \<le> rd_pos r'"
  using assms by (auto simp: seek_def wf_rd_def rd_size_def split: if_splits)

interpretation skip_op: fixed_op "skip n" n for n
  by (rule fixed_opI) (simp add: skip_def)

interpretation u8_op: fixed_pos read_u8 1
  by (rule fixed_posI) (simp_all add: read_u8_def)

interpretation u16le_op: fixed_pos read_u16le 2
  by (rule fixed_posI) (simp_all add: read_u16le_def)

interpretation u32le_op: fixed_pos read_u32le 4
  by (rule fixed_posI) (simp_all add: read_u32le_def)

interpretation u64le_op: fixed_pos read_u64le 8
  by (rule fixed_posI) (simp_all add: read_u64le_def)

interpretation u16be_op: fixed_pos read_u16be 2
  by (rule fixed_posI) (simp_all add: read_u16be_def)

interpretation u32be_op: fixed_pos read_u32be 4
  by (rule fixed_posI) (simp_all add: read_u32be_def)

interpretation u64be_op: fixed_pos read_u64be 8
  by (rule fixed_posI) (simp_all add: read_u64be_def)

interpretation bytes_op: fixed_op "read_bytes n" n for n
  by (rule fixed_opI) (simp add: read_bytes_def)

interpretation string_op: fixed_op "read_string n" n for n
  by (rule fixed_opI) (simp add: read_string_def)

interpretation raw_op: fixed_op "read_raw n" n for n
  by (rule fixed_opI) (simp add: read_raw_def)

text \<open>The varint loop: it moves forward with every byte and its own error names the start.\<close>

lemma varint_loop_ok:
  assumes "read_varint_loop n start shift acc r = Inr (v, r')"
  shows "rd_data r' = rd_data r \<and> rd_pos r < rd_pos r' \<and> rd_pos r' \<le> rd_pos r + n \<and>
         rd_pos r' \<le> rd_size r"
  using assms
proof (induction n arbitrary: shift acc r)
  case 0
  then show ?case by simp
next
  case (Suc n)
  from Suc.prems obtain b r1 where b: "read_u8 r = Inr (b, r1)" and
    rest: "(if b AND 0x80 = 0 then Inr (acc OR push_bit shift (ucast (b AND 0x7F)), r1)
            else read_varint_loop n start (shift + 7) (acc OR push_bit shift (ucast (b AND 0x7F))) r1)
           = Inr (v, r')"
    by (auto simp: bindE_eq_Inr Let_def)
  have r1: "r1 = rd_advance 1 r" "1 \<le> rd_remaining r" using u8_op.success [OF b] by auto
  then have step: "rd_data r1 = rd_data r" "rd_pos r1 = Suc (rd_pos r)" "rd_pos r1 \<le> rd_size r"
    by (auto simp: rd_advance_def rd_remaining_def rd_size_def split: if_splits)
  show ?case
  proof (cases "b AND 0x80 = 0")
    case True
    with rest step show ?thesis by auto
  next
    case False
    with rest have "read_varint_loop n start (shift + 7) (acc OR push_bit shift (ucast (b AND 0x7F))) r1
        = Inr (v, r')" by simp
    from Suc.IH [OF this] step show ?thesis by (auto simp: rd_size_def)
  qed
qed

lemma varint_loop_err:
  assumes "wf_rd r" and "start \<le> rd_pos r" and "read_varint_loop n start shift acc r = Inl e"
  shows "err_offset e \<le> length (rd_data r)"
  using assms
proof (induction n arbitrary: shift acc r)
  case 0
  then show ?case by (auto simp: wf_rd_def)
next
  case (Suc n)
  show ?case
  proof (cases "read_u8 r")
    case (Inl e')
    with Suc.prems show ?thesis using u8_op.error_inside by auto
  next
    case (Inr p)
    then obtain b r1 where b: "read_u8 r = Inr (b, r1)" by (cases p) auto
    have "wf_rd r1" "rd_data r1 = rd_data r" "start \<le> rd_pos r1"
      using u8_op.stays_inside [OF Suc.prems(1) b] u8_op.data_kept [OF b] u8_op.never_back [OF b]
        Suc.prems(2) by auto
    from this(2) Suc.IH [OF this(1,3)] Suc.prems(3) b show ?thesis
      by (auto simp: Let_def split: if_splits)
  qed
qed

interpretation varint_op: progress_op read_varint
proof unfold_locales
  fix r v r'
  assume "read_varint r = Inr (v, r')"
  then have ok: "rd_data r' = rd_data r \<and> rd_pos r < rd_pos r' \<and> rd_pos r' \<le> rd_pos r + 10 \<and>
         rd_pos r' \<le> rd_size r"
    unfolding read_varint_def by (rule varint_loop_ok)
  then show "rd_data r' = rd_data r" "rd_pos r < rd_pos r'" "rd_pos r \<le> rd_pos r'" by auto
  show "wf_rd r'" if "wf_rd r" using ok that by (simp add: wf_rd_def rd_size_def)
next
  fix r e
  assume "wf_rd r" and "read_varint r = Inl e"
  then show "err_offset e \<le> length (rd_data r)"
    unfolding read_varint_def using varint_loop_err by blast
qed

interpretation svarint_op: progress_op read_svarint
  unfolding read_svarint_def
  by (intro cursor_intros varint_op.progress_op_axioms)

lemmas cursor_basics [cursor_intros] =
  skip_op.cursor_op_axioms u8_op.cursor_op_axioms u16le_op.cursor_op_axioms
  u32le_op.cursor_op_axioms u64le_op.cursor_op_axioms u16be_op.cursor_op_axioms
  u32be_op.cursor_op_axioms u64be_op.cursor_op_axioms bytes_op.cursor_op_axioms
  string_op.cursor_op_axioms raw_op.cursor_op_axioms varint_op.cursor_op_axioms
  svarint_op.cursor_op_axioms

lemmas progress_basics [cursor_intros] =
  u8_op.progress_op_axioms u16le_op.progress_op_axioms u32le_op.progress_op_axioms
  u64le_op.progress_op_axioms u16be_op.progress_op_axioms u32be_op.progress_op_axioms
  u64be_op.progress_op_axioms varint_op.progress_op_axioms svarint_op.progress_op_axioms

section \<open>A cursor at a known place\<close>

text \<open>
  \<open>rd_at pre rest\<close> is a cursor that has consumed \<open>pre\<close> and still has \<open>rest\<close> to read; the equations
  below evaluate the operations on it.
\<close>

definition rd_at :: "bytes \<Rightarrow> bytes \<Rightarrow> byte_reader" where
  "rd_at pre rest = \<lparr>rd_data = pre @ rest, rd_pos = length pre\<rparr>"

lemma rd_at_new: "byte_reader_new bs = rd_at [] bs"
  by (simp add: byte_reader_new_def rd_at_def)

lemma rd_at_fields [simp]:
  "rd_data (rd_at pre rest) = pre @ rest" "rd_pos (rd_at pre rest) = length pre"
  "rd_remaining (rd_at pre rest) = length rest" "wf_rd (rd_at pre rest)"
  "rd_eof (rd_at pre rest) \<longleftrightarrow> rest = []" "rd_size (rd_at pre rest) = length pre + length rest"
  by (auto simp: rd_at_def rd_remaining_def rd_size_def wf_rd_def rd_eof_def)

lemma rd_advance_at [simp]:
  "rd_advance (length bs) (rd_at pre (bs @ rest)) = rd_at (pre @ bs) rest"
  by (simp add: rd_advance_def rd_at_def)

lemma rd_advance_at_le:
  "n \<le> length rest \<Longrightarrow> rd_advance n (rd_at pre rest) = rd_at (pre @ take n rest) (drop n rest)"
  by (simp add: rd_advance_def rd_at_def)

lemma rd_byte_at [simp]: "rd_byte (rd_at pre rest) i = rest ! i"
  by (simp add: rd_byte_def)

lemma rd_take_at [simp]: "rd_take (rd_at pre rest) n = take n rest"
  by (simp add: rd_take_def)

lemma rd_at_exists: "wf_rd r \<Longrightarrow> \<exists>pre rest. r = rd_at pre rest \<and> length pre = rd_pos r"
  by (intro exI [of _ "take (rd_pos r) (rd_data r)"] exI [of _ "drop (rd_pos r) (rd_data r)"])
    (auto simp: rd_at_def wf_rd_def)

lemma require_at [rd_simps]: "n \<le> length rest \<Longrightarrow> require n (rd_at pre rest) = Inr ((), rd_at pre rest)"
  by (simp add: require_def)

lemma read_u8_at [rd_simps]: "read_u8 (rd_at pre (b # rest)) = Inr (b, rd_at (pre @ [b]) rest)"
  by (simp add: read_u8_def rd_bind_def require_def rd_advance_def rd_at_def rd_byte_def nth_append
      rd_remaining_def rd_size_def)

lemma read_bytes_at [rd_simps]:
  "n = length bs \<Longrightarrow> read_bytes n (rd_at pre (bs @ rest)) = Inr (bs, rd_at (pre @ bs) rest)"
  by (simp add: read_bytes_def rd_bind_def require_def)

lemma read_string_at [rd_simps]:
  "n = length bs \<Longrightarrow>
     read_string n (rd_at pre (bs @ rest)) = Inr (string_of_bytes bs, rd_at (pre @ bs) rest)"
  by (simp add: read_string_def rd_bind_def require_def)

lemma read_raw_at [rd_simps]:
  "n = length bs \<Longrightarrow> read_raw n (rd_at pre (bs @ rest)) = Inr (bs, rd_at (pre @ bs) rest)"
  by (simp add: read_raw_def rd_bind_def require_def)

lemma skip_at [rd_simps]:
  "n = length bs \<Longrightarrow> skip n (rd_at pre (bs @ rest)) = Inr ((), rd_at (pre @ bs) rest)"
  by (simp add: skip_def rd_bind_def require_def)

end
