(* ===== verification/Byte_Writer.thy ===== *)
theory Byte_Writer
  imports Byte_Reader
begin

text \<open>
  \<^verbatim>\<open>common::ByteWriter\<close> (\<^verbatim>\<open>include/common/byte_writer.hpp\<close>, \<^verbatim>\<open>src/common/byte_writer.cpp\<close>): the
  buffer a sequence of \<^verbatim>\<open>put_*\<close> calls builds. The locale \<open>codec\<close> is the interface every encoder and
  decoder of the repository relies on: a writer that appends and a reader that reads back what the
  writer appended; it is interpreted for every pair of \<^verbatim>\<open>put_*\<close> and \<^verbatim>\<open>read_*\<close>.
\<close>

unbundle bit_operations_syntax

type_synonym byte_writer = bytes

section \<open>Operations\<close>

definition put_u8 :: "byte_writer \<Rightarrow> u8 \<Rightarrow> byte_writer" where
  "put_u8 w v = w @ [v]"

definition put_u16le :: "byte_writer \<Rightarrow> u16 \<Rightarrow> byte_writer" where
  "put_u16le w v = (w @ [ucast (v AND 0xFF)]) @ [ucast (drop_bit 8 v AND 0xFF)]"

definition put_u32le :: "byte_writer \<Rightarrow> u32 \<Rightarrow> byte_writer" where
  "put_u32le w v = fold (\<lambda>i w. w @ [ucast (drop_bit (8 * i) v AND 0xFF)]) [0, 1, 2, 3] w"

definition put_u64le :: "byte_writer \<Rightarrow> u64 \<Rightarrow> byte_writer" where
  "put_u64le w v =
     fold (\<lambda>i w. w @ [ucast (drop_bit (8 * i) v AND 0xFF)]) [0, 1, 2, 3, 4, 5, 6, 7] w"

definition put_u16be :: "byte_writer \<Rightarrow> u16 \<Rightarrow> byte_writer" where
  "put_u16be w v = (w @ [ucast (drop_bit 8 v AND 0xFF)]) @ [ucast (v AND 0xFF)]"

definition put_u32be :: "byte_writer \<Rightarrow> u32 \<Rightarrow> byte_writer" where
  "put_u32be w v = fold (\<lambda>i w. w @ [ucast (drop_bit (8 * i) v AND 0xFF)]) [3, 2, 1, 0] w"

definition put_u64be :: "byte_writer \<Rightarrow> u64 \<Rightarrow> byte_writer" where
  "put_u64be w v =
     fold (\<lambda>i w. w @ [ucast (drop_bit (8 * i) v AND 0xFF)]) [7, 6, 5, 4, 3, 2, 1, 0] w"

text \<open>The \<^verbatim>\<open>while (v >= 0x80)\<close> loop of the LEB128 encoder.\<close>

lemma unat_drop_bit_7_less: "0x80 \<le> (v :: u64) \<Longrightarrow> unat (drop_bit 7 v) < unat v"
proof -
  assume "0x80 \<le> v"
  then have "128 \<le> unat v" by (simp add: word_le_nat_alt)
  then have "unat v div 2 ^ 7 < unat v" by simp
  then show ?thesis by (metis unat_drop_bit_eq drop_bit_eq_div)
qed

function put_varint :: "byte_writer \<Rightarrow> u64 \<Rightarrow> byte_writer" where
  "put_varint w v =
     (if 0x80 \<le> v then put_varint (w @ [ucast ((v AND 0x7F) OR 0x80)]) (drop_bit 7 v)
      else w @ [ucast v])"
  by pat_completeness auto
termination
  by (relation "measure (\<lambda>(w, v). unat v)") (auto simp: unat_drop_bit_7_less)

declare put_varint.simps [simp del]

text \<open>\<^verbatim>\<open>v >> 63\<close> on a signed value is the arithmetic shift.\<close>

definition zigzag :: "i64 \<Rightarrow> u64" where
  "zigzag v = push_bit 1 v XOR signed_drop_bit 63 v"

definition put_svarint :: "byte_writer \<Rightarrow> i64 \<Rightarrow> byte_writer" where
  "put_svarint w v = put_varint w (zigzag v)"

definition put_bytes :: "byte_writer \<Rightarrow> bytes \<Rightarrow> byte_writer" where
  "put_bytes w data = w @ data"

definition put_string :: "byte_writer \<Rightarrow> string \<Rightarrow> byte_writer" where
  "put_string w s = w @ bytes_of_string s"

definition reserve_u32le :: "byte_writer \<Rightarrow> nat \<times> byte_writer" where
  "reserve_u32le w = (length w, w @ replicate 4 0)"

text \<open>Back-patching writes through \<^verbatim>\<open>operator[]\<close>; outside the buffer that is undefined, hence \<open>None\<close>.\<close>

definition patch_u32le :: "byte_writer \<Rightarrow> nat \<Rightarrow> u32 \<Rightarrow> byte_writer option" where
  "patch_u32le w pos v =
     (if pos + 4 \<le> length w
      then Some (fold (\<lambda>i w. w[pos + i := ucast (drop_bit (8 * i) v AND 0xFF)]) [0, 1, 2, 3] w)
      else None)"

section \<open>The codec interface\<close>

locale writer_op =
  fixes put :: "byte_writer \<Rightarrow> 'a \<Rightarrow> byte_writer"
  assumes appends: "put w v = w @ put [] v"
begin

text \<open>The form of the law that terminates as a rewrite rule.\<close>

lemma appends_nonempty: "w \<noteq> [] \<Longrightarrow> put w v = w @ put [] v"
  by (rule appends)

end

locale codec = writer_op put for put :: "byte_writer \<Rightarrow> 'a \<Rightarrow> byte_writer" +
  fixes get :: "'a rd"
  assumes get_put: "get (rd_at pre (put [] v @ rest)) = Inr (v, rd_at (pre @ put [] v) rest)"
begin

lemma get_put_bind:
  "rd_bind get k (rd_at pre (put [] v @ rest)) = k v (rd_at (pre @ put [] v) rest)"
  by (simp add: rd_bind_def get_put)

text \<open>The encodings form a prefix code: a stream of them can be cut in one way only.\<close>

lemma uniquely_decodable:
  assumes "put [] v @ xs = put [] w @ ys"
  shows "v = w \<and> xs = ys"
proof -
  have "get (rd_at [] (put [] v @ xs)) = get (rd_at [] (put [] w @ ys))"
    by (simp add: assms)
  then have "v = w" by (simp add: get_put)
  with assms show ?thesis by simp
qed

lemma put_inject: "put [] v = put [] w \<longleftrightarrow> v = w"
  using uniquely_decodable [of v "[]" w "[]"] by auto

text \<open>A sequence of values written one after the other is read back in order.\<close>

primrec get_many :: "nat \<Rightarrow> 'a list rd" where
  "get_many 0 = rd_return []"
| "get_many (Suc n) = rd_bind get (\<lambda>v. rd_bind (get_many n) (\<lambda>vs. rd_return (v # vs)))"

lemma get_many_put:
  "get_many (length vs) (rd_at pre (concat (map (put []) vs) @ rest)) =
     Inr (vs, rd_at (pre @ concat (map (put []) vs)) rest)"
proof (induction vs arbitrary: pre)
  case Nil
  then show ?case by (simp add: rd_return_def)
next
  case (Cons v vs)
  have "get_many (length vs) (rd_at (pre @ put [] v) (concat (map (put []) vs) @ rest)) =
     Inr (vs, rd_at ((pre @ put [] v) @ concat (map (put []) vs)) rest)"
    by (rule Cons.IH)
  then show ?case by (simp add: get_put_bind) (simp add: rd_bind_def rd_return_def)
qed

end

section \<open>Every writer and reader pair is a codec\<close>

text \<open>Splitting a word into bytes and joining them again.\<close>

lemma join16:
  "ucast (ucast (v AND 0xFF) :: u8) OR push_bit 8 (ucast (ucast (drop_bit 8 v AND 0xFF) :: u8))
     = (v :: u16)"
  by (rule bit_word_eqI) (auto simp: bit_simps)

lemma join32:
  "ucast (ucast (v AND 0xFF) :: u8) OR push_bit 8 (ucast (ucast (drop_bit 8 v AND 0xFF) :: u8)) OR
   push_bit 16 (ucast (ucast (drop_bit 16 v AND 0xFF) :: u8)) OR
   push_bit 24 (ucast (ucast (drop_bit 24 v AND 0xFF) :: u8)) = (v :: u32)" (is "?l = v")
proof (rule bit_word_eqI)
  fix n assume "n < LENGTH(32)"
  then consider "n < 8" | "8 \<le> n" "n < 16" | "16 \<le> n" "n < 24" | "24 \<le> n" "n < 32" by fastforce
  then show "bit ?l n = bit v n" by cases (auto simp: bit_simps)
qed

lemma shift_in_step:
  "drop_bit k v = push_bit 8 (drop_bit (k + 8) v) OR ucast (ucast (drop_bit k v AND 0xFF) :: u8)"
  for v :: u64
proof (rule bit_word_eqI)
  fix n assume "n < LENGTH(64)"
  then consider "n < 8" | "8 \<le> n" "n < 64" by fastforce
  then show "bit (drop_bit k v) n =
      bit (push_bit 8 (drop_bit (k + 8) v) OR ucast (ucast (drop_bit k v AND 0xFF) :: u8)) n"
    by cases (auto simp: bit_simps add.commute)
qed

lemma join64:
  "((((((push_bit 56 (ucast (ucast (drop_bit 56 v AND 0xFF) :: u8)) OR
         push_bit 48 (ucast (ucast (drop_bit 48 v AND 0xFF) :: u8))) OR
        push_bit 40 (ucast (ucast (drop_bit 40 v AND 0xFF) :: u8))) OR
       push_bit 32 (ucast (ucast (drop_bit 32 v AND 0xFF) :: u8))) OR
      push_bit 24 (ucast (ucast (drop_bit 24 v AND 0xFF) :: u8))) OR
     push_bit 16 (ucast (ucast (drop_bit 16 v AND 0xFF) :: u8))) OR
    push_bit 8 (ucast (ucast (drop_bit 8 v AND 0xFF) :: u8))) OR
   ucast (ucast (v AND 0xFF) :: u8) = (v :: u64)"
proof -
  define b where "b k = (ucast (ucast (drop_bit k v AND 0xFF) :: u8) :: u64)" for k
  have step: "drop_bit k v = push_bit 8 (drop_bit (k + 8) v) OR b k" for k
    unfolding b_def by (rule shift_in_step)
  have "drop_bit 64 v = 0" by (rule bit_word_eqI) (auto simp: bit_simps dest: bit_imp_le_length)
  then have "drop_bit 56 v = b 56" using step [of 56] by simp
  then have "drop_bit 48 v = push_bit 8 (b 56) OR b 48" using step [of 48] by simp
  then have "drop_bit 40 v = (push_bit 16 (b 56) OR push_bit 8 (b 48)) OR b 40"
    using step [of 40] by (simp add: push_bit_or)
  then have "drop_bit 32 v = ((push_bit 24 (b 56) OR push_bit 16 (b 48)) OR push_bit 8 (b 40)) OR b 32"
    using step [of 32] by (simp add: push_bit_or)
  then have "drop_bit 24 v = (((push_bit 32 (b 56) OR push_bit 24 (b 48)) OR push_bit 16 (b 40)) OR
      push_bit 8 (b 32)) OR b 24"
    using step [of 24] by (simp add: push_bit_or)
  then have "drop_bit 16 v = ((((push_bit 40 (b 56) OR push_bit 32 (b 48)) OR push_bit 24 (b 40)) OR
      push_bit 16 (b 32)) OR push_bit 8 (b 24)) OR b 16"
    using step [of 16] by (simp add: push_bit_or)
  then have "drop_bit 8 v = (((((push_bit 48 (b 56) OR push_bit 40 (b 48)) OR push_bit 32 (b 40)) OR
      push_bit 24 (b 32)) OR push_bit 16 (b 24)) OR push_bit 8 (b 16)) OR b 8"
    using step [of 8] by (simp add: push_bit_or)
  then have "v = ((((((push_bit 56 (b 56) OR push_bit 48 (b 48)) OR push_bit 40 (b 40)) OR
      push_bit 32 (b 32)) OR push_bit 24 (b 24)) OR push_bit 16 (b 16)) OR push_bit 8 (b 8)) OR b 0"
    using step [of 0] by (simp add: push_bit_or)
  then show ?thesis by (simp add: b_def)
qed

text \<open>A fixed-width operation reads the bytes it is given at the front.\<close>

interpretation u8_codec: codec put_u8 read_u8
  by unfold_locales (auto simp: put_u8_def read_u8_at)

interpretation u16le_codec: codec put_u16le read_u16le
proof unfold_locales
  show "put_u16le w v = w @ put_u16le [] v" for w v
    by (simp add: put_u16le_def)
  show "read_u16le (rd_at pre (put_u16le [] v @ rest)) = Inr (v, rd_at (pre @ put_u16le [] v) rest)"
    for pre v rest
    by (simp add: put_u16le_def read_u16le_def rd_bind_def require_def join16 rd_advance_at_le)
qed

interpretation u32le_codec: codec put_u32le read_u32le
proof unfold_locales
  show "put_u32le w v = w @ put_u32le [] v" for w v
    by (simp add: put_u32le_def)
  show "read_u32le (rd_at pre (put_u32le [] v @ rest)) = Inr (v, rd_at (pre @ put_u32le [] v) rest)"
    for pre v rest
    using join32 [of v]
    by (simp add: put_u32le_def read_u32le_def rd_bind_def require_def rd_advance_at_le
        numeral_2_eq_2 numeral_3_eq_3)
qed

interpretation u16be_codec: codec put_u16be read_u16be
proof unfold_locales
  show "put_u16be w v = w @ put_u16be [] v" for w v
    by (simp add: put_u16be_def)
  show "read_u16be (rd_at pre (put_u16be [] v @ rest)) = Inr (v, rd_at (pre @ put_u16be [] v) rest)"
    for pre v rest
    using join16 [of v]
    by (simp add: put_u16be_def read_u16be_def rd_bind_def require_def rd_advance_at_le or.commute)
qed

interpretation u32be_codec: codec put_u32be read_u32be
proof unfold_locales
  show "put_u32be w v = w @ put_u32be [] v" for w v
    by (simp add: put_u32be_def)
  show "read_u32be (rd_at pre (put_u32be [] v @ rest)) = Inr (v, rd_at (pre @ put_u32be [] v) rest)"
    for pre v rest
    using join32 [of v]
    by (simp add: put_u32be_def read_u32be_def rd_bind_def require_def rd_advance_at_le
        numeral_2_eq_2 numeral_3_eq_3 or.commute or.left_commute)
qed

interpretation u64le_codec: codec put_u64le read_u64le
proof unfold_locales
  show "put_u64le w v = w @ put_u64le [] v" for w v
    by (simp add: put_u64le_def)
  show "read_u64le (rd_at pre (put_u64le [] v @ rest)) = Inr (v, rd_at (pre @ put_u64le [] v) rest)"
    for pre v rest
    by (simp add: put_u64le_def read_u64le_def rd_bind_def require_def rd_advance_at_le shift_in_def
        join64)
qed

interpretation u64be_codec: codec put_u64be read_u64be
proof unfold_locales
  show "put_u64be w v = w @ put_u64be [] v" for w v
    by (simp add: put_u64be_def)
  show "read_u64be (rd_at pre (put_u64be [] v @ rest)) = Inr (v, rd_at (pre @ put_u64be [] v) rest)"
    for pre v rest
    by (simp add: put_u64be_def read_u64be_def rd_bind_def require_def rd_advance_at_le shift_in_def
        join64)
qed

section \<open>The varint codec\<close>

lemma put_varint_small: "v < 0x80 \<Longrightarrow> put_varint w v = w @ [ucast v]"
  by (simp only: put_varint.simps [of w v] not_le [symmetric] if_False)

lemma put_varint_big:
  "0x80 \<le> v \<Longrightarrow> put_varint w v = put_varint (w @ [ucast ((v AND 0x7F) OR 0x80)]) (drop_bit 7 v)"
  by (subst put_varint.simps) simp

lemma put_varint_append: "put_varint w v = w @ put_varint [] v"
proof (induction "unat v" arbitrary: w v rule: less_induct)
  case less
  show ?case
  proof (cases "0x80 \<le> v")
    case True
    then have IH: "put_varint w' (drop_bit 7 v) = w' @ put_varint [] (drop_bit 7 v)" for w'
      by (intro less unat_drop_bit_7_less)
    from True show ?thesis
      by (simp add: put_varint_big IH [of "w @ _"] IH [of "[_]"])
  next
    case False
    then show ?thesis by (simp add: put_varint_small not_le)
  qed
qed

lemma put_varint_Cons:
  "0x80 \<le> v \<Longrightarrow> put_varint [] v = ucast ((v AND 0x7F) OR 0x80) # put_varint [] (drop_bit 7 v)"
  by (simp add: put_varint_big) (subst put_varint_append, simp)

lemma unat_less_0x80: "v < 0x80 \<longleftrightarrow> unat v < 0x80" for v :: u64
  by (simp add: word_less_nat_alt)

lemma small_bits: "v < 0x80 \<Longrightarrow> bit v n \<Longrightarrow> n < 7" for v :: u64
proof (rule ccontr)
  assume "v < 0x80" "bit v n" "\<not> n < 7"
  then have "unat v < 2 ^ 7" "bit (unat v) n" by (simp_all add: unat_less_0x80 bit_unsigned_iff)
  moreover from this(1) have "take_bit 7 (unat v) = unat v" by (rule take_bit_nat_eq_self)
  ultimately show False using \<open>\<not> n < 7\<close> by (metis bit_take_bit_iff)
qed

lemma top_bit_iff: "(b :: u8) AND 0x80 = 0 \<longleftrightarrow> \<not> bit b 7"
  using and_exp_eq_0_bit [of b 7] by simp

lemma last_byte: "v < 0x80 \<Longrightarrow> (ucast v :: u8) AND 0x80 = 0" for v :: u64
  using small_bits [where v = v and n = 7] by (auto simp: top_bit_iff bit_simps)

lemma last_byte_value: "v < 0x80 \<Longrightarrow> ucast ((ucast v :: u8) AND 0x7F) = (v :: u64)"
  by (rule bit_word_eqI) (auto simp: bit_simps dest: small_bits)

lemma more_byte: "(ucast ((v AND 0x7F) OR 0x80 :: u64) :: u8) AND 0x80 \<noteq> 0"
  by (simp add: top_bit_iff bit_simps)

lemma more_byte_value: "ucast ((ucast ((v AND 0x7F) OR 0x80) :: u8) AND 0x7F) = (v :: u64) AND 0x7F"
  by (rule bit_word_eqI) (auto simp: bit_simps)

lemma split_7: "(v AND 0x7F) OR push_bit 7 (drop_bit 7 v) = (v :: u64)"
proof (rule bit_word_eqI)
  fix n assume "n < LENGTH(64)"
  then consider "n < 7" | "7 \<le> n" "n < 64" by fastforce
  then show "bit ((v AND 0x7F) OR push_bit 7 (drop_bit 7 v)) n = bit v n"
    by cases (auto simp: bit_simps)
qed

lemma read_varint_loop_put:
  assumes "unat v < 2 ^ (7 * n)" and "0 < n"
  shows "read_varint_loop n start shift acc (rd_at pre (put_varint [] v @ rest)) =
           Inr (acc OR push_bit shift v, rd_at (pre @ put_varint [] v) rest)"
  using assms
proof (induction n arbitrary: v shift acc pre)
  case 0
  then show ?case by simp
next
  case (Suc n)
  show ?case
  proof (cases "v < 0x80")
    case True
    then show ?thesis
      by (simp add: put_varint_small read_u8_at last_byte last_byte_value Let_def)
  next
    case False
    then have big: "0x80 \<le> v" by simp
    let ?b = "ucast ((v AND 0x7F) OR 0x80) :: u8"
    have small: "unat (drop_bit 7 v) < 2 ^ (7 * n)"
    proof -
      have "unat v < 2 ^ (7 * n) * 2 ^ 7" using Suc.prems(1) by (simp add: power_add)
      then have "unat v div 2 ^ 7 < 2 ^ (7 * n)" by (simp add: less_mult_imp_div_less)
      then show ?thesis by (metis unat_drop_bit_eq drop_bit_eq_div)
    qed
    moreover have "0 < n"
    proof (rule ccontr)
      assume "\<not> 0 < n"
      with Suc.prems(1) False show False by (simp add: unat_less_0x80)
    qed
    ultimately have "read_varint_loop n start (shift + 7) (acc OR push_bit shift (v AND 0x7F))
        (rd_at (pre @ [?b]) (put_varint [] (drop_bit 7 v) @ rest)) =
      Inr ((acc OR push_bit shift (v AND 0x7F)) OR push_bit (shift + 7) (drop_bit 7 v),
           rd_at ((pre @ [?b]) @ put_varint [] (drop_bit 7 v)) rest)"
      by (rule Suc.IH)
    moreover have "push_bit shift (v AND 0x7F) OR push_bit (shift + 7) (drop_bit 7 v) = push_bit shift v"
    proof -
      have "push_bit shift ((v AND 0x7F) OR push_bit 7 (drop_bit 7 v)) = push_bit shift v"
        by (simp only: split_7)
      then show ?thesis by simp
    qed
    ultimately show ?thesis
      using more_byte [of v]
      by (simp add: put_varint_Cons [OF big] read_u8_at more_byte_value Let_def or.assoc
          del: push_bit_and)
  qed
qed

interpretation varint_codec: codec put_varint read_varint
proof unfold_locales
  show "put_varint w v = w @ put_varint [] v" for w v
    by (rule put_varint_append)
  show "read_varint (rd_at pre (put_varint [] v @ rest)) = Inr (v, rd_at (pre @ put_varint [] v) rest)"
    for pre v rest
  proof -
    have "unat v < 2 ^ 64" using unsigned_less [of v] by simp
    then have "unat v < 2 ^ (7 * 10)" by (rule order.strict_trans) simp
    then show ?thesis
      unfolding read_varint_def by (subst read_varint_loop_put) simp_all
  qed
qed

lemma bit_zigzag: "bit (zigzag v) n \<longleftrightarrow> n < 64 \<and> ((0 < n \<and> bit v (n - 1)) \<noteq> bit v 63)"
proof (cases "n < 64")
  case True
  then show ?thesis
    by (cases n)
      (auto simp: zigzag_def bit_xor_iff bit_push_bit_iff bit_signed_drop_bit_iff
        simp del: push_bit_of_1 push_bit_Suc)
next
  case False
  then show ?thesis by (auto dest: bit_imp_le_length)
qed

lemma bit_unzigzag: "bit (unzigzag u) n \<longleftrightarrow> n < 64 \<and> ((n < 63 \<and> bit u (Suc n)) \<noteq> bit u 0)"
proof -
  have "u AND 1 = (if bit u 0 then 1 else 0)"
    by (simp add: and_one_eq odd_iff_mod_2_eq_one bit_0)
  then have "NOT (u AND 1) + 1 = (if bit u 0 then - 1 else 0)" by simp
  then show ?thesis
    by (auto simp: unzigzag_def bit_simps dest: bit_imp_le_length)
qed

lemma unzigzag_zigzag [simp]: "unzigzag (zigzag v) = v"
proof (rule bit_word_eqI)
  fix n assume n: "n < LENGTH(64)"
  show "bit (unzigzag (zigzag v)) n = bit v n"
  proof (cases "n = 63")
    case True
    then show ?thesis by (simp add: bit_unzigzag bit_zigzag)
  next
    case False
    with n have "n < 63" by simp
    then show ?thesis by (auto simp: bit_unzigzag bit_zigzag)
  qed
qed

lemma zigzag_unzigzag [simp]: "zigzag (unzigzag u) = u"
proof (rule bit_word_eqI)
  fix n assume "n < LENGTH(64)"
  then show "bit (zigzag (unzigzag u)) n = bit u n"
    by (cases n) (auto simp: bit_unzigzag bit_zigzag)
qed

interpretation svarint_codec: codec put_svarint read_svarint
proof unfold_locales
  show "put_svarint w v = w @ put_svarint [] v" for w v
    unfolding put_svarint_def by (rule put_varint_append)
  show "read_svarint (rd_at pre (put_svarint [] v @ rest)) = Inr (v, rd_at (pre @ put_svarint [] v) rest)"
    for pre v rest
    by (simp add: read_svarint_def put_svarint_def varint_codec.get_put_bind) (simp add: rd_return_def)
qed

lemmas get_put_simps [codec_simps] =
  u8_codec.get_put u16le_codec.get_put u32le_codec.get_put u64le_codec.get_put u16be_codec.get_put
  u32be_codec.get_put u64be_codec.get_put varint_codec.get_put svarint_codec.get_put
  u8_codec.get_put_bind u16le_codec.get_put_bind u32le_codec.get_put_bind u64le_codec.get_put_bind
  u16be_codec.get_put_bind u32be_codec.get_put_bind u64be_codec.get_put_bind
  varint_codec.get_put_bind svarint_codec.get_put_bind

lemmas put_append_rules [put_append] =
  u8_codec.appends_nonempty u16le_codec.appends_nonempty u32le_codec.appends_nonempty
  u64le_codec.appends_nonempty u16be_codec.appends_nonempty u32be_codec.appends_nonempty
  u64be_codec.appends_nonempty varint_codec.appends_nonempty svarint_codec.appends_nonempty

section \<open>Length of a varint\<close>

text \<open>Seven bits per byte, and no byte more than the value needs.\<close>

lemma varint_length_le: "unat v < 2 ^ (7 * n) \<Longrightarrow> 0 < n \<Longrightarrow> length (put_varint [] v) \<le> n"
proof (induction n arbitrary: v)
  case 0
  then show ?case by simp
next
  case (Suc n)
  show ?case
  proof (cases "v < 0x80")
    case True
    then show ?thesis by (simp add: put_varint_small)
  next
    case False
    then have big: "0x80 \<le> v" by simp
    have "unat v < 2 ^ (7 * n) * 2 ^ 7" using Suc.prems(1) by (simp add: power_add)
    then have "unat v div 2 ^ 7 < 2 ^ (7 * n)" by (simp add: less_mult_imp_div_less)
    then have "unat (drop_bit 7 v) < 2 ^ (7 * n)" by (metis unat_drop_bit_eq drop_bit_eq_div)
    moreover have "0 < n"
    proof (rule ccontr)
      assume "\<not> 0 < n"
      with Suc.prems(1) False show False by (simp add: unat_less_0x80)
    qed
    ultimately have "length (put_varint [] (drop_bit 7 v)) \<le> n" by (rule Suc.IH)
    then show ?thesis by (simp add: put_varint_Cons [OF big])
  qed
qed

lemma varint_length_minimal: "unat v < 2 ^ (7 * length (put_varint [] v))"
proof (induction "unat v" arbitrary: v rule: less_induct)
  case less
  show ?case
  proof (cases "v < 0x80")
    case True
    then show ?thesis by (simp add: put_varint_small unat_less_0x80)
  next
    case False
    then have big: "0x80 \<le> v" by simp
    have "unat (drop_bit 7 v) < 2 ^ (7 * length (put_varint [] (drop_bit 7 v)))"
      by (rule less) (rule unat_drop_bit_7_less [OF big])
    then have "unat v div 2 ^ 7 < 2 ^ (7 * length (put_varint [] (drop_bit 7 v)))"
      by (metis unat_drop_bit_eq drop_bit_eq_div)
    then have "unat v < 2 ^ (7 * length (put_varint [] (drop_bit 7 v))) * 2 ^ 7"
      by (simp add: div_less_iff_less_mult)
    then show ?thesis by (simp add: put_varint_Cons [OF big] power_add)
  qed
qed

lemma varint_length_max: "length (put_varint [] v) \<le> 10"
proof -
  have "unat v < 2 ^ 64" using unsigned_less [of v] by simp
  then have "unat v < 2 ^ (7 * 10)" by (rule order.strict_trans) simp
  then show ?thesis by (rule varint_length_le) simp
qed

lemma varint_nonempty [simp]: "put_varint [] v \<noteq> []"
  by (cases "v < 0x80") (simp_all add: put_varint_small put_varint_Cons not_less)

section \<open>Reserve and back-patch\<close>

lemma patch_reserved:
  "patch_u32le (pre @ replicate 4 0 @ post) (length pre) v = Some (put_u32le pre v @ post)"
  by (simp add: patch_u32le_def put_u32le_def list_update_append numeral_eq_Suc)

lemma reserve_then_patch:
  assumes "reserve_u32le w = (pos, w')"
  shows "patch_u32le (w' @ post) pos v = Some (put_u32le w v @ post)"
  using assms by (auto simp: reserve_u32le_def patch_reserved)

lemma length_put_fixed [simp]:
  "length (put_u16le w v2) = length w + 2" "length (put_u32le w v4) = length w + 4"
  "length (put_u64le w v8) = length w + 8" "length (put_u16be w v2) = length w + 2"
  "length (put_u32be w v4) = length w + 4" "length (put_u64be w v8) = length w + 8"
  by (simp_all add: put_u16le_def put_u32le_def put_u64le_def put_u16be_def put_u32be_def
      put_u64be_def)

lemma put_fixed_nonempty [simp]:
  "put_u8 w v1 \<noteq> []" "put_u16le w v2 \<noteq> []" "put_u32le w v4 \<noteq> []" "put_u64le w v8 \<noteq> []"
  "put_u16be w v2 \<noteq> []" "put_u32be w v4 \<noteq> []" "put_u64be w v8 \<noteq> []"
  by (simp_all add: put_u8_def put_u16le_def put_u32le_def put_u64le_def put_u16be_def put_u32be_def
      put_u64be_def)

end
