(* ===== verification/Checksum.thy ===== *)
theory Checksum
  imports Bw_Prelude
begin

text \<open>
  Integrity primitives and small hashes: CRC-32 and Adler-32 (\<^verbatim>\<open>include/common/checksum.hpp\<close>,
  \<^verbatim>\<open>src/common/checksum.cpp\<close>), FNV-1a and the 64-bit mixer (\<^verbatim>\<open>include/common/hashing.hpp\<close>,
  \<^verbatim>\<open>src/common/hashing.cpp\<close>). The locale \<open>byte_digest\<close> is the interface the incremental digests
  share, interpreted for CRC-32 and for both widths of FNV-1a.
\<close>

unbundle bit_operations_syntax

section \<open>CRC-32\<close>

text \<open>One iteration of the inner loop that builds the table.\<close>

definition crc_shift :: "u32 \<Rightarrow> u32" where
  "crc_shift c = (if c AND 1 \<noteq> 0 then 0xEDB88320 XOR drop_bit 1 c else drop_bit 1 c)"

definition crc_entry :: "u32 \<Rightarrow> u32" where
  "crc_entry n = (crc_shift ^^ 8) n"

definition crc_table :: "u32 list" where
  "crc_table = map (\<lambda>n. crc_entry (of_nat n)) [0..<256]"

definition crc32_init :: u32 where
  "crc32_init = 0xFFFFFFFF"

definition crc32_update :: "u32 \<Rightarrow> bytes \<Rightarrow> u32" where
  "crc32_update state data =
     foldl (\<lambda>state b. crc_table ! unat ((state XOR ucast b) AND 0xFF) XOR drop_bit 8 state) state data"

definition crc32_final :: "u32 \<Rightarrow> u32" where
  "crc32_final state = state XOR 0xFFFFFFFF"

definition crc32 :: "bytes \<Rightarrow> u32" where
  "crc32 data = crc32_final (crc32_update crc32_init data)"

section \<open>Adler-32\<close>

definition kAdlerMod :: u32 where
  "kAdlerMod = 65521"

definition adler32 :: "bytes \<Rightarrow> u32" where
  "adler32 data =
     (case foldl (\<lambda>(a, b) d. let a' = (a + ucast d) mod kAdlerMod in (a', (b + a') mod kAdlerMod))
        (1, 0) data of (a, b) \<Rightarrow> push_bit 16 b OR a)"

section \<open>FNV-1a and the mixer\<close>

definition fnv1a_32_init :: u32 where
  "fnv1a_32_init = 0x811C9DC5"

definition fnv1a_32_update :: "u32 \<Rightarrow> bytes \<Rightarrow> u32" where
  "fnv1a_32_update state data = foldl (\<lambda>state b. (state XOR ucast b) * 0x01000193) state data"

definition fnv1a_32 :: "bytes \<Rightarrow> u32" where
  "fnv1a_32 data = fnv1a_32_update fnv1a_32_init data"

definition fnv1a_64 :: "bytes \<Rightarrow> u64" where
  "fnv1a_64 data = foldl (\<lambda>state b. (state XOR ucast b) * 0x00000100000001B3) 0xCBF29CE484222325 data"

definition fnv1a_32_string :: "string \<Rightarrow> u32" where
  "fnv1a_32_string s = fnv1a_32 (bytes_of_string s)"

definition fnv1a_64_string :: "string \<Rightarrow> u64" where
  "fnv1a_64_string s = fnv1a_64 (bytes_of_string s)"

definition mix64 :: "u64 \<Rightarrow> u64" where
  "mix64 x =
     (let x = x + 0x9E3779B97F4A7C15;
          x = (x XOR drop_bit 30 x) * 0xBF58476D1CE4E5B9;
          x = (x XOR drop_bit 27 x) * 0x94D049BB133111EB
      in x XOR drop_bit 31 x)"

definition hash_combine :: "u64 \<Rightarrow> u64 \<Rightarrow> u64" where
  "hash_combine seed val =
     seed XOR (mix64 val + 0x9E3779B97F4A7C15 + push_bit 6 seed + drop_bit 2 seed)"

section \<open>Digests that consume a byte at a time\<close>

text \<open>
  A digest whose state is folded over the bytes, whose step is injective in the state and in the byte,
  and whose final transformation is injective. Such a digest can be fed in chunks, and it tells apart
  any two inputs that differ in one byte.
\<close>

locale byte_digest =
  fixes step :: "'s \<Rightarrow> u8 \<Rightarrow> 's" and fin :: "'s \<Rightarrow> 'd" and init :: 's
  assumes step_state: "step s b = step t b \<longleftrightarrow> s = t"
    and step_byte: "step s a = step s b \<longleftrightarrow> a = b"
    and fin_inj: "fin s = fin t \<longleftrightarrow> s = t"
begin

definition update :: "'s \<Rightarrow> bytes \<Rightarrow> 's" where
  "update s data = foldl step s data"

definition digest :: "bytes \<Rightarrow> 'd" where
  "digest data = fin (update init data)"

lemma update_append: "update s (xs @ ys) = update (update s xs) ys"
  by (simp add: update_def)

lemma update_chunks: "foldl update s chunks = update s (concat chunks)"
  by (induction chunks arbitrary: s) (simp_all add: update_append, simp add: update_def)

lemma update_inj: "update s xs = update t xs \<longleftrightarrow> s = t"
  by (induction xs arbitrary: s t) (simp_all add: update_def step_state)

lemma detects_byte: "digest (xs @ [a] @ ys) = digest (xs @ [b] @ ys) \<longleftrightarrow> a = b"
proof -
  have "digest (xs @ [c] @ ys) = fin (update (step (update init xs) c) ys)" for c
    by (simp add: digest_def update_def)
  then show ?thesis by (simp add: fin_inj update_inj step_byte)
qed

end

section \<open>The table computes the bit-serial CRC\<close>

text \<open>The bit-serial reference: the byte enters the low end, and eight bits are shifted out.\<close>

definition crc_byte :: "u32 \<Rightarrow> u8 \<Rightarrow> u32" where
  "crc_byte s b = crc_entry (s XOR ucast b)"

lemma and_1_bit: "c AND 1 \<noteq> 0 \<longleftrightarrow> bit c 0" for c :: "'a::len word"
  by (simp add: and_one_eq odd_iff_mod_2_eq_one bit_0)

lemma crc_shift_alt: "crc_shift c = drop_bit 1 c XOR (if bit c 0 then 0xEDB88320 else 0)"
  by (simp add: crc_shift_def and_1_bit xor.commute)

lemma crc_shift_xor: "crc_shift (a XOR b) = crc_shift a XOR crc_shift b"
  by (simp add: crc_shift_alt drop_bit_xor bit_xor_iff) (auto simp: ac_simps)

lemma crc_shift_pow_xor: "(crc_shift ^^ n) (a XOR b) = (crc_shift ^^ n) a XOR (crc_shift ^^ n) b"
  by (induction n) (simp_all add: crc_shift_xor)

lemma crc_shift_pow_high:
  "(\<And>i. i < n \<Longrightarrow> \<not> bit c i) \<Longrightarrow> (crc_shift ^^ n) c = drop_bit n c"
proof (induction n arbitrary: c)
  case 0
  then show ?case by simp
next
  case (Suc n)
  have "crc_shift c = drop_bit 1 c" using Suc.prems [of 0] by (simp add: crc_shift_alt)
  moreover have "\<not> bit (drop_bit 1 c) i" if "i < n" for i
    using Suc.prems [of "Suc i"] that by (simp add: bit_drop_bit_eq)
  ultimately show ?case
    using Suc.IH [of "drop_bit 1 c"] by (simp add: funpow_swap1 [symmetric] del: funpow.simps)
      (simp add: funpow_Suc_right del: funpow.simps)
qed

lemma crc_entry_split: "crc_entry s = crc_entry (s AND 0xFF) XOR drop_bit 8 s"
proof -
  let ?hi = "push_bit 8 (drop_bit 8 s)"
  have "s = (s AND 0xFF) XOR ?hi"
  proof (rule bit_word_eqI)
    fix n assume "n < LENGTH(32)"
    then show "bit s n = bit ((s AND 0xFF) XOR ?hi) n"
      by (cases "n < 8") (auto simp: bit_simps)
  qed
  then have "crc_entry s = crc_entry (s AND 0xFF) XOR crc_entry ?hi"
    unfolding crc_entry_def by (metis crc_shift_pow_xor)
  moreover have "crc_entry ?hi = drop_bit 8 ?hi"
    unfolding crc_entry_def by (rule crc_shift_pow_high) (simp add: bit_push_bit_iff)
  moreover have "drop_bit 8 ?hi = drop_bit 8 s"
    by (rule bit_word_eqI) (auto simp: bit_simps dest: bit_imp_le_length)
  ultimately show ?thesis by simp
qed

lemma crc_table_lookup: "crc_table ! unat (x AND 0xFF) = crc_entry (x AND 0xFF)"
proof -
  have "(0xFF :: u32) = mask 8" by (simp add: mask_eq_exp_minus_1)
  then have "unat (x AND 0xFF) = take_bit 8 (unat x)"
    by (metis take_bit_eq_mask unsigned_take_bit_eq)
  then have "unat (x AND 0xFF) < 256" using take_bit_nat_less_exp [of 8 "unat x"] by simp
  then show ?thesis by (simp add: crc_table_def)
qed

lemma crc_table_step:
  "crc_table ! unat ((s XOR ucast b) AND 0xFF) XOR drop_bit 8 s = crc_byte s b"
proof -
  have "drop_bit 8 (ucast b :: u32) = 0"
    by (rule bit_word_eqI) (auto simp: bit_simps dest: bit_imp_le_length)
  then have "drop_bit 8 (s XOR ucast b) = drop_bit 8 s" by (simp add: drop_bit_xor)
  then show ?thesis
    by (metis crc_byte_def crc_entry_split crc_table_lookup)
qed

lemma crc32_update_bitwise: "crc32_update s data = foldl crc_byte s data"
  by (simp add: crc32_update_def crc_table_step)

lemma xor_cancel: "(a XOR c = b XOR c) = (a = b)" "(c XOR a = c XOR b) = (a = b)"
  for a b c :: "'a::len word"
  by (metis bit.xor_left_self xor.commute xor_self_eq)+

lemma crc_shift_inj: "crc_shift a = crc_shift b \<longleftrightarrow> a = b"
proof
  assume eq: "crc_shift a = crc_shift b"
  have top: "bit (crc_shift c) 31 = bit c 0" for c
    by (auto simp: crc_shift_alt bit_xor_iff bit_drop_bit_eq dest: bit_imp_le_length)
  have low: "bit a 0 = bit b 0" using top eq by metis
  then have "drop_bit 1 a = drop_bit 1 b"
    using eq unfolding crc_shift_alt by (simp only: xor_cancel split: if_splits)
  show "a = b"
  proof (rule bit_word_eqI)
    fix n assume "n < LENGTH(32)"
    show "bit a n = bit b n"
    proof (cases n)
      case 0
      with low show ?thesis by simp
    next
      case (Suc m)
      have "bit (drop_bit 1 a) m = bit (drop_bit 1 b) m" using \<open>drop_bit 1 a = _\<close> by simp
      with Suc show ?thesis by (simp add: bit_drop_bit_eq del: drop_bit_Suc)
    qed
  qed
qed simp

lemma crc_entry_inj: "crc_entry a = crc_entry b \<longleftrightarrow> a = b"
proof -
  have "(crc_shift ^^ n) a = (crc_shift ^^ n) b \<longleftrightarrow> a = b" for n
    by (induction n) (simp_all add: crc_shift_inj)
  then show ?thesis by (simp add: crc_entry_def)
qed

lemma ucast_u8_inj:
  assumes "8 \<le> LENGTH('a)"
  shows "(ucast (a :: u8) :: 'a::len word) = ucast b \<longleftrightarrow> a = b"
proof
  assume eq: "(ucast a :: 'a word) = ucast b"
  show "a = b"
  proof (rule bit_word_eqI)
    fix n assume "n < LENGTH(8)"
    moreover have "bit (ucast a :: 'a word) n = bit (ucast b :: 'a word) n" using eq by simp
    ultimately show "bit a n = bit b n" using assms by (simp add: ucast_u8_bit)
  qed
qed simp

interpretation crc: byte_digest crc_byte crc32_final crc32_init
  rewrites "byte_digest.update crc_byte = crc32_update"
    and "byte_digest.digest crc_byte crc32_final crc32_init = crc32"
proof -
  show d: "byte_digest crc_byte crc32_final"
    by unfold_locales (simp_all add: crc_byte_def crc_entry_inj crc32_final_def xor_cancel ucast_u8_inj)
  show u: "byte_digest.update crc_byte = crc32_update"
    by (intro ext) (simp add: byte_digest.update_def [OF d] crc32_update_bitwise)
  show "byte_digest.digest crc_byte crc32_final crc32_init = crc32"
    by (intro ext) (simp add: byte_digest.digest_def [OF d] crc32_def u)
qed

text \<open>FNV-1a multiplies by an odd constant, which is invertible modulo a power of two.\<close>

definition fnv_step32 :: "u32 \<Rightarrow> u8 \<Rightarrow> u32" where
  "fnv_step32 s b = (s XOR ucast b) * 0x01000193"

definition fnv_step64 :: "u64 \<Rightarrow> u8 \<Rightarrow> u64" where
  "fnv_step64 s b = (s XOR ucast b) * 0x00000100000001B3"

lemma mult_inj_if_inverse: "p * q = 1 \<Longrightarrow> x * p = y * p \<longleftrightarrow> x = y" for p :: "'a::len word"
  by (metis mult.assoc mult.right_neutral)

lemmas fnv_prime_inverses =
  mult_inj_if_inverse [of "0x01000193 :: u32" "0x359C449B"]
  mult_inj_if_inverse [of "0x00000100000001B3 :: u64" "0xCE965057AFF6957B"]

interpretation fnv32: byte_digest fnv_step32 "\<lambda>s. s" fnv1a_32_init
  rewrites "byte_digest.update fnv_step32 = fnv1a_32_update"
    and "byte_digest.digest fnv_step32 (\<lambda>s. s) fnv1a_32_init = fnv1a_32"
proof -
  show d: "byte_digest fnv_step32 (\<lambda>s. s)"
    by unfold_locales (simp_all add: fnv_step32_def fnv_prime_inverses xor_cancel ucast_u8_inj)
  show u: "byte_digest.update fnv_step32 = fnv1a_32_update"
    by (intro ext, subst byte_digest.update_def [OF d])
      (simp add: fnv1a_32_update_def fnv_step32_def [abs_def])
  show "byte_digest.digest fnv_step32 (\<lambda>s. s) fnv1a_32_init = fnv1a_32"
    by (intro ext) (simp add: byte_digest.digest_def [OF d] fnv1a_32_def u)
qed

interpretation fnv64: byte_digest fnv_step64 "\<lambda>s. s" "0xCBF29CE484222325"
  rewrites "byte_digest.digest fnv_step64 (\<lambda>s. s) 0xCBF29CE484222325 = fnv1a_64"
proof -
  show d: "byte_digest fnv_step64 (\<lambda>s. s)"
    by unfold_locales (simp_all add: fnv_step64_def fnv_prime_inverses xor_cancel ucast_u8_inj)
  show "byte_digest.digest fnv_step64 (\<lambda>s. s) 0xCBF29CE484222325 = fnv1a_64"
    by (intro ext, subst byte_digest.digest_def [OF d], subst byte_digest.update_def [OF d])
      (simp add: fnv1a_64_def fnv_step64_def [abs_def])
qed

section \<open>Adler-32 as sums modulo 65521\<close>

lemma adler_fold:
  fixes data :: bytes
  assumes "unat a < 65521" and "unat b < 65521"
    and "foldl (\<lambda>(a, b) d. let a' = (a + ucast d) mod kAdlerMod in (a', (b + a') mod kAdlerMod))
           (a, b) data = (a', b')"
  shows "unat a' = (unat a + (\<Sum>d\<leftarrow>data. unat d)) mod 65521 \<and>
         unat b' = (unat b + length data * unat a +
           (\<Sum>i\<leftarrow>[0..<length data]. (length data - i) * unat (data ! i))) mod 65521"
  using assms
proof (induction data arbitrary: a b)
  case Nil
  then show ?case by simp
next
  case (Cons d data)
  define a1 where "a1 = (a + ucast d) mod kAdlerMod"
  define b1 where "b1 = (b + a1) mod kAdlerMod"
  have d: "unat d < 256" by simp
  have "unat (a + ucast d) = unat a + unat d"
    using Cons.prems(1) d
    by (subst unat_add_lem [THEN iffD1]) (simp_all add: unat_ucast_u8 del: unat_less_256)
  then have a1: "unat a1 = (unat a + unat d) mod 65521"
    by (simp add: a1_def kAdlerMod_def unat_mod)
  then have "unat a1 < 65521" by simp
  then have "unat (b + a1) = unat b + unat a1"
    using Cons.prems(2) by (subst unat_add_lem [THEN iffD1]) simp_all
  then have b1: "unat b1 = (unat b + unat a1) mod 65521"
    by (simp add: b1_def kAdlerMod_def unat_mod)
  then have "unat b1 < 65521" by simp
  moreover have "foldl (\<lambda>(a, b) d. let a' = (a + ucast d) mod kAdlerMod in (a', (b + a') mod kAdlerMod))
           (a1, b1) data = (a', b')"
    using Cons.prems(3) by (simp add: a1_def b1_def Let_def)
  ultimately have IH: "unat a' = (unat a1 + (\<Sum>d\<leftarrow>data. unat d)) mod 65521"
     "unat b' = (unat b1 + length data * unat a1 +
           (\<Sum>i\<leftarrow>[0..<length data]. (length data - i) * unat (data ! i))) mod 65521"
    using Cons.IH \<open>unat a1 < 65521\<close> by blast+
  have shift: "(\<Sum>i\<leftarrow>[0..<length (d # data)]. (length (d # data) - i) * unat ((d # data) ! i)) =
      Suc (length data) * unat d + (\<Sum>i\<leftarrow>[0..<length data]. (length data - i) * unat (data ! i))"
    by (simp add: upt_conv_Cons map_Suc_upt [symmetric] o_def del: upt_Suc)
  let ?S = "\<Sum>i\<leftarrow>[0..<length data]. (length data - i) * unat (data ! i)"
  have "unat b' = (unat b + (unat a1 + length data * unat a1) + ?S) mod 65521"
    unfolding IH(2) b1 by (simp only: add.assoc mod_add_left_eq)
  also have "\<dots> = (unat b + (Suc (length data) * unat a1) + ?S) mod 65521" by simp
  also have "\<dots> = (unat b + (Suc (length data) * (unat a + unat d)) + ?S) mod 65521"
    unfolding a1 by (metis (no_types, lifting) mod_add_cong mod_mult_right_eq)
  finally have "unat b' = (unat b + length (d # data) * unat a +
      (\<Sum>i\<leftarrow>[0..<length (d # data)]. (length (d # data) - i) * unat ((d # data) ! i))) mod 65521"
    unfolding shift by (simp add: algebra_simps)
  moreover have "unat a' = (unat a + (\<Sum>d\<leftarrow>d # data. unat d)) mod 65521"
    unfolding IH(1) a1 by (simp add: mod_add_left_eq add.assoc)
  ultimately show ?case by simp
qed

lemma adler32_spec:
  "unat (adler32 data) =
     65536 * ((length data + (\<Sum>i\<leftarrow>[0..<length data]. (length data - i) * unat (data ! i))) mod 65521) +
     (1 + (\<Sum>d\<leftarrow>data. unat d)) mod 65521"
proof -
  obtain a b where f: "foldl (\<lambda>(a, b) d. let a' = (a + ucast d) mod kAdlerMod in
      (a', (b + a') mod kAdlerMod)) (1, 0) data = (a, b)" by fastforce
  have ab: "unat a = (1 + (\<Sum>d\<leftarrow>data. unat d)) mod 65521"
    "unat b = (length data + (\<Sum>i\<leftarrow>[0..<length data]. (length data - i) * unat (data ! i))) mod 65521"
    using adler_fold [OF _ _ f] by simp_all
  then have lt: "unat a < 2 ^ 16" "unat b < 2 ^ 16" by (simp_all add: order.strict_trans [OF mod_less_divisor])
  have "unat (push_bit 16 b) = push_bit 16 (unat b)"
    unfolding unsigned_push_bit_eq using lt by (intro take_bit_nat_eq_self) (simp add: push_bit_eq_mult)
  then have "unat (push_bit 16 b OR a) = push_bit 16 (unat b) OR unat a"
    by (simp add: unsigned_or_eq)
  also have "\<dots> = push_bit 16 (unat b) + unat a"
    using lt(2) by (intro disjunctive_add [symmetric])
      (metis bit_push_bit_iff bit_take_bit_iff not_le take_bit_nat_eq_self lt(1))
  finally show ?thesis using ab by (simp add: adler32_def f push_bit_eq_mult)
qed

section \<open>The mixer is a permutation\<close>

lemma xorshift_inj:
  fixes x y :: "'a::len word"
  assumes "0 < k" and "x XOR drop_bit k x = y XOR drop_bit k y"
  shows "x = y"
proof -
  have z: "bit x n = bit y n" if "LENGTH('a) - n = m" "n < LENGTH('a)" for n m
    using that
  proof (induction m arbitrary: n rule: less_induct)
    case (less m)
    have "bit (x XOR drop_bit k x) n = bit (y XOR drop_bit k y) n" using assms(2) by simp
    moreover have "bit x (k + n) = bit y (k + n)"
    proof (cases "k + n < LENGTH('a)")
      case True
      then have "LENGTH('a) - (k + n) < m" using less.prems assms(1) by simp
      then show ?thesis using less.IH True by blast
    next
      case False
      then show ?thesis by (auto dest: bit_imp_le_length)
    qed
    ultimately show ?case by (simp add: bit_xor_iff bit_drop_bit_eq) auto
  qed
  show ?thesis by (rule bit_word_eqI) (use z in blast)
qed

lemmas mix_inverses =
  mult_inj_if_inverse [of "0xBF58476D1CE4E5B9 :: u64" "0x96DE1B173F119089"]
  mult_inj_if_inverse [of "0x94D049BB133111EB :: u64" "0x319642B2D24D8EC3"]

definition xorshift :: "nat \<Rightarrow> u64 \<Rightarrow> u64" where
  "xorshift k z = z XOR drop_bit k z"

lemma xorshift_eq: "0 < k \<Longrightarrow> xorshift k x = xorshift k y \<longleftrightarrow> x = y"
  unfolding xorshift_def using xorshift_inj by blast

lemma mix64_alt:
  "mix64 x = xorshift 31 (xorshift 27 (xorshift 30 (x + 0x9E3779B97F4A7C15) * 0xBF58476D1CE4E5B9) *
     0x94D049BB133111EB)"
  by (simp only: mix64_def xorshift_def Let_def)

lemma mix64_inj: "mix64 x = mix64 y \<longleftrightarrow> x = y"
  by (simp add: mix64_alt xorshift_eq mix_inverses)

lemma mix64_bij: "bij mix64"
proof -
  have "inj mix64" by (rule injI) (simp add: mix64_inj)
  then show ?thesis by (simp add: bij_def finite_UNIV_inj_surj)
qed

lemma hash_combine_inj: "hash_combine seed v = hash_combine seed w \<longleftrightarrow> v = w"
  by (simp add: hash_combine_def xor_cancel mix64_inj)

end
