(* ===== verification/Frame.thy ===== *)
theory Frame
  imports Byte_Writer Checksum
begin

text \<open>
  The streamcodec frame: its model (\<^verbatim>\<open>include/streamcodec/frame.hpp\<close>, \<^verbatim>\<open>src/streamcodec/frame.cpp\<close>), the
  frame reader (\<^verbatim>\<open>include/streamcodec/frame_reader.hpp\<close>, \<^verbatim>\<open>src/streamcodec/frame_reader.cpp\<close>) and the
  frame encoder (\<^verbatim>\<open>include/streamcodec/encoder.hpp\<close>, \<^verbatim>\<open>src/streamcodec/encoder.cpp\<close>). The reader is
  shown to consume at least one byte per frame and to read back what the encoder writes.
\<close>

unbundle bit_operations_syntax

section \<open>The frame model\<close>

definition kSync :: u16 where
  "kSync = 0x53C7"

definition kVersion :: u8 where
  "kVersion = 1"

datatype frame_type = kData | kControl | kAck | kReset

fun frame_type_byte :: "frame_type \<Rightarrow> u8" where
  "frame_type_byte kData = 0"
| "frame_type_byte kControl = 1"
| "frame_type_byte kAck = 2"
| "frame_type_byte kReset = 3"

fun frame_type_name :: "frame_type \<Rightarrow> string" where
  "frame_type_name kData = ''DATA''"
| "frame_type_name kControl = ''CONTROL''"
| "frame_type_name kAck = ''ACK''"
| "frame_type_name kReset = ''RESET''"

definition kFlagFin :: u8 where "kFlagFin = 0x01"

definition kFlagFrag :: u8 where "kFlagFrag = 0x02"

definition kFlagCompressed :: u8 where "kFlagCompressed = 0x04"

definition kFlagHasCrc :: u8 where "kFlagHasCrc = 0x08"

definition kHeaderFixedBytes :: nat where
  "kHeaderFixedBytes = 19"

record frame =
  f_type :: frame_type
  f_version :: u8
  f_flags :: u8
  f_stream_id :: u16
  f_msg_id :: u32
  f_seq :: u16
  f_frag_offset :: u32
  f_payload_len :: u16
  f_has_crc :: bool
  f_header_crc :: u16
  f_crc_ok :: bool
  f_header_offset :: nat
  f_payload :: bytes

definition fin :: "frame \<Rightarrow> bool" where
  "fin f \<longleftrightarrow> f_flags f AND kFlagFin \<noteq> 0"

definition frag :: "frame \<Rightarrow> bool" where
  "frag f \<longleftrightarrow> f_flags f AND kFlagFrag \<noteq> 0"

definition compressed :: "frame \<Rightarrow> bool" where
  "compressed f \<longleftrightarrow> f_flags f AND kFlagCompressed \<noteq> 0"

text \<open>CRC-16/CCITT-FALSE, bit by bit.\<close>

definition crc16_bit :: "u16 \<Rightarrow> u16" where
  "crc16_bit crc = (if crc AND 0x8000 \<noteq> 0 then push_bit 1 crc XOR 0x1021 else push_bit 1 crc)"

definition crc16 :: "bytes \<Rightarrow> u16" where
  "crc16 data = foldl (\<lambda>crc b. (crc16_bit ^^ 8) (crc XOR push_bit 8 (ucast b))) 0xFFFF data"

section \<open>The frame reader\<close>

definition kResyncWindow :: nat where
  "kResyncWindow = 4096"

definition at_sync :: "byte_reader \<Rightarrow> bool" where
  "at_sync r \<longleftrightarrow>
     ucast (rd_byte r 0) = drop_bit 8 kSync AND 0xFF \<and> ucast (rd_byte r 1) = kSync AND 0xFF"

text \<open>The scanning loop; the value tells whether it returned on a sync word.\<close>

function resync_scan :: "nat \<Rightarrow> bool rd" where
  "resync_scan scanned r =
     (if 2 \<le> rd_remaining r \<and> scanned < kResyncWindow
      then if at_sync r then Inr (True, r)
           else bindE (skip 1 r) (\<lambda>(_, r'). resync_scan (scanned + 1) r')
      else Inr (False, r))"
  by pat_completeness auto
termination
  by (relation "measure (\<lambda>(scanned, r). kResyncWindow - scanned)") auto

declare resync_scan.simps [simp del]

definition align_to_sync :: "bool \<Rightarrow> unit rd" where
  "align_to_sync first r =
     (if 2 \<le> rd_remaining r \<and> at_sync r then Inr ((), r)
      else if first
      then Inl (ParseError kBadMagic (rd_pos r) ''first frame does not start with sync word'')
      else bindE (resync_scan 0 r) (\<lambda>(found, r').
        if found then Inr ((), r')
        else if rd_remaining r' < 2 then skip (rd_remaining r') r'
        else Inl (ParseError kBadMagic (rd_pos r')
               ''could not resynchronize to a frame within the scan window'')))"

definition frame_type_of_byte :: "u8 \<Rightarrow> frame_type option" where
  "frame_type_of_byte b =
     (if b = 0 then Some kData else if b = 1 then Some kControl
      else if b = 2 then Some kAck else if b = 3 then Some kReset else None)"

text \<open>The fields of the fixed header, decoded from the borrowed span by a reader of its own.\<close>

definition read_fixed_header :: "nat \<Rightarrow> frame rd" where
  "read_fixed_header header_offset =
     rd_bind read_u16be (\<lambda>sync.
     if sync \<noteq> kSync
     then rd_throw kBadMagic header_offset ''frame sync mismatch after alignment'' else
     rd_bind read_u8 (\<lambda>version.
     if version \<noteq> kVersion then rd_throw kBadVersion header_offset ''unsupported frame version'' else
     rd_bind read_u8 (\<lambda>type_byte.
     case frame_type_of_byte type_byte of
       None \<Rightarrow> rd_throw kBadType header_offset ''unknown frame type''
     | Some ty \<Rightarrow>
     rd_bind read_u8 (\<lambda>flags.
     rd_bind read_u16be (\<lambda>stream_id.
     rd_bind read_u32be (\<lambda>msg_id.
     rd_bind read_u16be (\<lambda>seq.
     rd_bind read_u32be (\<lambda>frag_offset.
     rd_bind read_u16be (\<lambda>payload_len.
     rd_return \<lparr>f_type = ty, f_version = version, f_flags = flags, f_stream_id = stream_id,
       f_msg_id = msg_id, f_seq = seq, f_frag_offset = frag_offset, f_payload_len = payload_len,
       f_has_crc = (flags AND kFlagHasCrc \<noteq> 0), f_header_crc = 0, f_crc_ok = False,
       f_header_offset = header_offset, f_payload = []\<rparr>)))))))))"

text \<open>The optional CRC field and the payload, which follow the fixed header \<open>hdr\<close>.\<close>

definition read_frame_tail :: "bytes \<Rightarrow> frame \<Rightarrow> frame rd" where
  "read_frame_tail hdr f =
     rd_bind
       (if f_has_crc f
        then rd_bind read_u16be (\<lambda>crc.
               rd_return (f\<lparr>f_header_crc := crc, f_crc_ok := (crc16 hdr = crc)\<rparr>))
        else rd_return f) (\<lambda>f.
     rd_bind (read_bytes (unat (f_payload_len f))) (\<lambda>payload.
     rd_return (f\<lparr>f_payload := payload\<rparr>)))"

definition read_frame_aligned :: "frame rd" where
  "read_frame_aligned r =
     (if rd_remaining r < 2
      then Inl (ParseError kShortRead (rd_pos r) ''no frame remaining after sync alignment'')
      else bindE (read_raw kHeaderFixedBytes r) (\<lambda>(hdr, r').
           bindE (read_fixed_header (rd_pos r) (byte_reader_new hdr)) (\<lambda>(f, _).
           read_frame_tail hdr f r')))"

definition frame_next :: "bool \<Rightarrow> frame rd" where
  "frame_next first = rd_bind (align_to_sync first) (\<lambda>_. read_frame_aligned)"

section \<open>The frame encoder\<close>

record frame_spec =
  s_type :: frame_type
  s_flags :: u8
  s_stream_id :: u16
  s_msg_id :: u32
  s_seq :: u16
  s_frag_offset :: u32
  s_payload :: bytes
  s_with_crc :: bool

definition kMaxFramePayload :: nat where
  "kMaxFramePayload = 0xFFFF"

definition write_fixed_header :: "byte_writer \<Rightarrow> frame_spec \<Rightarrow> u8 \<Rightarrow> u16 \<Rightarrow> byte_writer" where
  "write_fixed_header hdr spec flags payload_len =
     (let hdr = put_u16be hdr kSync;
          hdr = put_u8 hdr kVersion;
          hdr = put_u8 hdr (frame_type_byte (s_type spec));
          hdr = put_u8 hdr flags;
          hdr = put_u16be hdr (s_stream_id spec);
          hdr = put_u32be hdr (s_msg_id spec);
          hdr = put_u16be hdr (s_seq spec);
          hdr = put_u32be hdr (s_frag_offset spec)
      in put_u16be hdr payload_len)"

definition encode_frame :: "byte_writer \<Rightarrow> frame_spec \<Rightarrow> byte_writer" where
  "encode_frame w spec =
     (let n = min (length (s_payload spec)) kMaxFramePayload;
          payload_len = of_nat n;
          flags = (if s_with_crc spec then s_flags spec OR kFlagHasCrc
                   else s_flags spec AND NOT kFlagHasCrc);
          hb = write_fixed_header [] spec flags payload_len;
          w = put_bytes w hb;
          w = (if s_with_crc spec then put_u16be w (crc16 hb) else w)
      in if n \<noteq> 0 then put_bytes w (take n (s_payload spec)) else w)"

text \<open>The body of the fragment loop, on the state (output, frames emitted, offset, seq).\<close>

definition encode_fragment ::
  "u16 \<Rightarrow> u32 \<Rightarrow> bytes \<Rightarrow> nat \<Rightarrow> bool \<Rightarrow> bool \<Rightarrow> nat \<Rightarrow>
     byte_writer \<times> nat \<times> nat \<times> u16 \<Rightarrow> nat \<Rightarrow> byte_writer \<times> nat \<times> nat \<times> u16" where
  "encode_fragment stream_id msg_id payload max_fragment is_compressed with_crc frag_count =
     (\<lambda>(w, emitted, offset, seq) i.
        let chunk = min max_fragment (length payload - offset);
            last = (i + 1 = frag_count);
            flags = (0 :: u8);
            flags = (if 1 < frag_count then flags OR kFlagFrag else flags);
            flags = (if last then flags OR kFlagFin else flags);
            flags = (if is_compressed then flags OR kFlagCompressed else flags);
            spec = \<lparr>s_type = kData, s_flags = flags, s_stream_id = stream_id, s_msg_id = msg_id,
                    s_seq = seq, s_frag_offset = of_nat offset,
                    s_payload = (if chunk \<noteq> 0 then take chunk (drop offset payload) else []),
                    s_with_crc = with_crc\<rparr>
        in (encode_frame w spec, emitted + 1, offset + chunk, seq + 1))"

definition encode_message ::
  "byte_writer \<Rightarrow> u16 \<Rightarrow> u32 \<Rightarrow> bytes \<Rightarrow> nat \<Rightarrow> u16 \<Rightarrow> bool \<Rightarrow> bool \<Rightarrow> nat \<times> byte_writer" where
  "encode_message w stream_id msg_id payload max_fragment first_seq is_compressed with_crc =
     (let max_fragment = (if max_fragment = 0 then 1 else max_fragment);
          max_fragment = min max_fragment kMaxFramePayload;
          total = length payload;
          frag_count = (if total = 0 then 1 else (total + max_fragment - 1) div max_fragment)
      in case foldl (encode_fragment stream_id msg_id payload max_fragment is_compressed with_crc frag_count)
                (w, 0, 0, first_seq) [0..<frag_count] of
           (w, emitted, offset, seq) \<Rightarrow> (emitted, w))"

section \<open>The reader makes progress and stays in the buffer\<close>

lemma resync_scan_ok:
  assumes "resync_scan scanned r = Inr (found, r')"
  shows "rd_data r' = rd_data r \<and> rd_pos r \<le> rd_pos r' \<and> (wf_rd r \<longrightarrow> wf_rd r') \<and>
         (found \<longrightarrow> 2 \<le> rd_remaining r' \<and> at_sync r')"
  using assms
proof (induction scanned r rule: resync_scan.induct)
  case (1 scanned r)
  show ?case
  proof (cases "2 \<le> rd_remaining r \<and> scanned < kResyncWindow \<and> \<not> at_sync r")
    case True
    then obtain r1 where sk: "skip 1 r = Inr ((), r1)" "r1 = rd_advance 1 r"
      using skip_op.enough [of 1 r] by auto
    with True "1.prems" have "resync_scan (scanned + 1) r1 = Inr (found, r')"
      by (simp add: resync_scan.simps [of scanned r])
    with True sk "1.IH" [of "((), r1)" "()" r1] have
      "rd_data r' = rd_data r1 \<and> rd_pos r1 \<le> rd_pos r' \<and> (wf_rd r1 \<longrightarrow> wf_rd r') \<and>
         (found \<longrightarrow> 2 \<le> rd_remaining r' \<and> at_sync r')" by auto
    with skip_op.data_kept [OF sk(1)] skip_op.never_back [OF sk(1)] skip_op.stays_inside [OF _ sk(1)]
    show ?thesis by auto
  next
    case False
    with "1.prems" show ?thesis
      by (subst (asm) resync_scan.simps) (auto split: if_splits)
  qed
qed

lemma resync_scan_total: "\<exists>v. resync_scan scanned r = Inr v"
proof (induction scanned r rule: resync_scan.induct)
  case (1 scanned r)
  show ?case
  proof (cases "2 \<le> rd_remaining r \<and> scanned < kResyncWindow \<and> \<not> at_sync r")
    case True
    then obtain r1 where sk: "skip 1 r = Inr ((), r1)"
      using skip_op.enough [of 1 r] by auto
    with True "1.IH" [of "((), r1)" "()" r1] show ?thesis by (subst resync_scan.simps) auto
  next
    case False
    then show ?thesis by (subst resync_scan.simps) auto
  qed
qed

interpretation align_op: cursor_op "align_to_sync first" for first
proof unfold_locales
  fix r v r'
  assume a: "align_to_sync first r = Inr (v, r')"
  have "rd_data r' = rd_data r \<and> rd_pos r \<le> rd_pos r' \<and> (wf_rd r \<longrightarrow> wf_rd r')"
  proof (cases "2 \<le> rd_remaining r \<and> at_sync r")
    case True
    with a show ?thesis by (simp add: align_to_sync_def)
  next
    case False
    with a obtain found r1 where s: "resync_scan 0 r = Inr (found, r1)" and
      k: "(if found then Inr ((), r1) else if rd_remaining r1 < 2 then skip (rd_remaining r1) r1
           else Inl (ParseError kBadMagic (rd_pos r1)
             ''could not resynchronize to a frame within the scan window'')) = Inr (v, r')"
      by (auto simp: align_to_sync_def bindE_eq_Inr split: if_splits)
    note s' = resync_scan_ok [OF s]
    show ?thesis
    proof (cases "skip (rd_remaining r1) r1 = Inr (v, r')")
      case True
      with s' skip_op.data_kept [OF True] skip_op.never_back [OF True] skip_op.stays_inside [OF _ True]
      show ?thesis by auto
    next
      case False
      with k s' show ?thesis by (auto split: if_splits)
    qed
  qed
  then show "rd_data r' = rd_data r" "rd_pos r \<le> rd_pos r'" "wf_rd r \<Longrightarrow> wf_rd r'" by auto
next
  fix r e
  assume wf: "wf_rd r" and a: "align_to_sync first r = Inl e"
  obtain found r1 where s: "resync_scan 0 r = Inr (found, r1)"
    using resync_scan_total [of 0 r] by auto
  note s' = resync_scan_ok [OF s]
  have "err_offset e = rd_pos r \<or> err_offset e = rd_pos r1"
    using a s by (auto simp: align_to_sync_def skip_def rd_bind_def require_def split: if_splits)
  with s' wf show "err_offset e \<le> length (rd_data r)" by (auto simp: wf_rd_def)
qed

lemma rd_throw_error [simp]: "rd_throw c off what r = Inl (ParseError c off what)"
  by (simp add: rd_throw_def)

text \<open>Reading from a span that is long enough fails only through an explicit throw.\<close>

lemma fixed_bind_error:
  assumes "fixed_op m n" and "rd_bind m f r = Inl e" and "n \<le> rd_remaining r"
  obtains v where "f v (rd_advance n r) = Inl e"
  using assms fixed_op.enough [OF assms(1,3)] by (auto simp: rd_bind_def)

lemma rd_remaining_advance [simp]: "rd_remaining (rd_advance n r) = rd_remaining r - n"
  by (auto simp: rd_remaining_def rd_advance_def rd_size_def)

lemma fixed_header_error:
  assumes "read_fixed_header off r = Inl e" and "19 \<le> rd_remaining r"
  shows "err_offset e = off"
  using assms unfolding read_fixed_header_def
  by (elim fixed_bind_error [OF u16be_op.fixed_op_axioms] fixed_bind_error [OF u8_op.fixed_op_axioms]
      fixed_bind_error [OF u32be_op.fixed_op_axioms],
    auto simp: rd_return_def split: if_splits option.splits
      elim!: fixed_bind_error [OF u16be_op.fixed_op_axioms] fixed_bind_error [OF u8_op.fixed_op_axioms]
      fixed_bind_error [OF u32be_op.fixed_op_axioms], arith+)

lemma cursor_op_frame_tail: "cursor_op (read_frame_tail hdr f)"
  unfolding read_frame_tail_def
  by (cases "f_has_crc f") (simp_all, (intro cursor_intros)+)

lemma progress_bind_right:
  assumes m: "cursor_op m" and f: "\<And>v. progress_op (f v)"
  shows "progress_op (rd_bind m f)"
proof -
  have "cursor_op (rd_bind m f)"
    by (intro cursor_op_bind m progress_op.axioms(1) f)
  moreover have "rd_pos r < rd_pos r'" if r: "rd_bind m f r = Inr (w, r')" for r w r'
  proof -
    from r obtain v r1 where 1: "m r = Inr (v, r1)" and 2: "f v r1 = Inr (w, r')"
      by (auto simp: rd_bind_def bindE_eq_Inr)
    from cursor_op.never_back [OF m 1] progress_op.advances [OF f 2] show ?thesis by simp
  qed
  ultimately show ?thesis by (simp add: progress_op_def progress_op_axioms_def)
qed

interpretation frame_aligned_op: progress_op read_frame_aligned
proof unfold_locales
  fix r f r'
  assume "read_frame_aligned r = Inr (f, r')"
  then obtain hdr r1 g h where 1: "read_raw kHeaderFixedBytes r = Inr (hdr, r1)"
    and 2: "read_fixed_header (rd_pos r) (byte_reader_new hdr) = Inr (g, h)"
    and 3: "read_frame_tail hdr g r1 = Inr (f, r')"
    by (auto simp: read_frame_aligned_def bindE_eq_Inr split: if_splits)
  have adv: "r1 = rd_advance 19 r" using raw_op.success [OF 1] by (simp add: kHeaderFixedBytes_def)
  show "rd_data r' = rd_data r"
    using raw_op.data_kept [OF 1] cursor_op.data_kept [OF cursor_op_frame_tail 3] by simp
  show "rd_pos r < rd_pos r'" "rd_pos r \<le> rd_pos r'"
    using adv cursor_op.never_back [OF cursor_op_frame_tail 3] by (simp_all add: rd_advance_def)
  show "wf_rd r'" if "wf_rd r"
    using cursor_op.stays_inside [OF cursor_op_frame_tail raw_op.stays_inside [OF that 1] 3] .
next
  fix r e
  assume wf: "wf_rd r" and err: "read_frame_aligned r = Inl e"
  show "err_offset e \<le> length (rd_data r)"
  proof (cases "read_raw kHeaderFixedBytes r")
    case (Inl e')
    then have "err_offset e' \<le> length (rd_data r)" by (rule raw_op.error_inside [OF wf])
    with err Inl wf show ?thesis
      by (auto simp: read_frame_aligned_def wf_rd_def split: if_splits)
  next
    case (Inr p)
    then obtain hdr r1 where 1: "read_raw kHeaderFixedBytes r = Inr (hdr, r1)" by (cases p) auto
    then have "length hdr = 19"
      by (auto simp: read_raw_def rd_bind_def require_def rd_take_def kHeaderFixedBytes_def
          rd_remaining_def rd_size_def split: if_splits)
    then have rem: "19 \<le> rd_remaining (byte_reader_new hdr)"
      by (simp add: rd_at_new)
    from err 1 consider "err_offset e = rd_pos r"
      | "read_fixed_header (rd_pos r) (byte_reader_new hdr) = Inl e"
      | g where "read_frame_tail hdr g r1 = Inl e"
      by (auto simp: read_frame_aligned_def bindE_eq_Inl split: if_splits)
    then show ?thesis
    proof cases
      case 1
      with wf show ?thesis by (simp add: wf_rd_def)
    next
      case 2
      from fixed_header_error [OF this rem] wf show ?thesis by (simp add: wf_rd_def)
    next
      case 3
      from cursor_op.error_inside [OF cursor_op_frame_tail raw_op.stays_inside [OF wf 1] 3]
        raw_op.data_kept [OF 1] show ?thesis by simp
    qed
  qed
qed

interpretation frame_op: progress_op "frame_next first" for first
  unfolding frame_next_def
  by (rule progress_bind_right [OF align_op.cursor_op_axioms frame_aligned_op.progress_op_axioms])

section \<open>Reading back an encoded frame\<close>

text \<open>The frame the reader builds from the bytes of \<open>spec\<close>.\<close>

definition spec_flags :: "frame_spec \<Rightarrow> u8" where
  "spec_flags spec =
     (if s_with_crc spec then s_flags spec OR kFlagHasCrc else s_flags spec AND NOT kFlagHasCrc)"

definition spec_payload :: "frame_spec \<Rightarrow> bytes" where
  "spec_payload spec = take kMaxFramePayload (s_payload spec)"

definition spec_header :: "frame_spec \<Rightarrow> bytes" where
  "spec_header spec =
     write_fixed_header [] spec (spec_flags spec) (of_nat (length (spec_payload spec)))"

definition frame_of_spec :: "nat \<Rightarrow> frame_spec \<Rightarrow> frame" where
  "frame_of_spec off spec =
     \<lparr>f_type = s_type spec, f_version = kVersion, f_flags = spec_flags spec,
      f_stream_id = s_stream_id spec, f_msg_id = s_msg_id spec, f_seq = s_seq spec,
      f_frag_offset = s_frag_offset spec, f_payload_len = of_nat (length (spec_payload spec)),
      f_has_crc = s_with_crc spec,
      f_header_crc = (if s_with_crc spec then crc16 (spec_header spec) else 0),
      f_crc_ok = s_with_crc spec, f_header_offset = off, f_payload = spec_payload spec\<rparr>"

lemma encode_frame_alt:
  "encode_frame w spec = w @ spec_header spec @
     (if s_with_crc spec then put_u16be [] (crc16 (spec_header spec)) else []) @ spec_payload spec"
proof -
  have len: "length (spec_payload spec) = min (length (s_payload spec)) kMaxFramePayload"
    by (simp add: spec_payload_def)
  have pl: "take (min (length (s_payload spec)) kMaxFramePayload) (s_payload spec) = spec_payload spec"
    by (cases "length (s_payload spec) \<le> kMaxFramePayload") (simp_all add: spec_payload_def)
  show ?thesis
    using u16be_codec.appends [of "w @ spec_header spec"] pl
    by (auto simp: encode_frame_def Let_def put_bytes_def spec_header_def spec_flags_def len)
qed

lemma encode_frame_append: "encode_frame w spec = w @ encode_frame [] spec"
  by (simp add: encode_frame_alt [of w] encode_frame_alt [of "[]"])

lemma spec_header_fields:
  "spec_header spec = put_u16be [] kSync @ put_u8 [] kVersion @ put_u8 [] (frame_type_byte (s_type spec)) @
     put_u8 [] (spec_flags spec) @ put_u16be [] (s_stream_id spec) @ put_u32be [] (s_msg_id spec) @
     put_u16be [] (s_seq spec) @ put_u32be [] (s_frag_offset spec) @
     put_u16be [] (of_nat (length (spec_payload spec)))"
  unfolding spec_header_def write_fixed_header_def Let_def by (simp add: put_append)

lemma length_spec_header [simp]: "length (spec_header spec) = 19"
  by (simp add: spec_header_fields put_u8_def)

lemma frame_type_of_type_byte [simp]: "frame_type_of_byte (frame_type_byte t) = Some t"
  by (cases t) (simp_all add: frame_type_of_byte_def)

lemma has_crc_flag: "spec_flags spec AND kFlagHasCrc \<noteq> 0 \<longleftrightarrow> s_with_crc spec"
proof -
  have k: "kFlagHasCrc = 2 ^ 3" by (simp add: kFlagHasCrc_def)
  show ?thesis
    unfolding spec_flags_def k and_exp_eq_0_bit
    by (simp add: bit_or_iff bit_and_iff bit_not_iff bit_exp_iff del: power_numeral)
qed

lemma read_spec_header:
  "read_fixed_header off (byte_reader_new (spec_header spec)) =
     Inr ((frame_of_spec off spec)\<lparr>f_header_crc := 0, f_crc_ok := False, f_payload := []\<rparr>,
       rd_at (spec_header spec) [])"
proof -
  have "read_fixed_header off (rd_at [] (put_u16be [] kSync @ put_u8 [] kVersion @
      put_u8 [] (frame_type_byte (s_type spec)) @ put_u8 [] (spec_flags spec) @
      put_u16be [] (s_stream_id spec) @ put_u32be [] (s_msg_id spec) @
      put_u16be [] (s_seq spec) @ put_u32be [] (s_frag_offset spec) @
      put_u16be [] (of_nat (length (spec_payload spec))) @ [])) =
     Inr ((frame_of_spec off spec)\<lparr>f_header_crc := 0, f_crc_ok := False, f_payload := []\<rparr>,
       rd_at (spec_header spec) [])"
    unfolding read_fixed_header_def
    by (simp only: codec_simps if_False simp_thms frame_type_of_type_byte option.case append_assoc)
      (simp add: rd_return_def frame_of_spec_def has_crc_flag spec_header_fields)
  then show ?thesis by (simp add: rd_at_new spec_header_fields)
qed

lemma sync_bytes: "put_u16be [] kSync = [0x53, 0xC7]"
  by (simp add: put_u16be_def kSync_def)

lemma at_sync_frame: "at_sync (rd_at pre (encode_frame [] spec @ rest))"
proof -
  obtain xs where "encode_frame [] spec = 0x53 # 0xC7 # xs"
    by (simp add: encode_frame_alt spec_header_fields sync_bytes)
  then show ?thesis by (simp add: at_sync_def kSync_def)
qed

lemma read_spec_tail:
  "read_frame_tail (spec_header spec)
       ((frame_of_spec off spec)\<lparr>f_header_crc := 0, f_crc_ok := False, f_payload := []\<rparr>)
       (rd_at pre ((if s_with_crc spec then put_u16be [] (crc16 (spec_header spec)) else []) @
          spec_payload spec @ rest)) =
     Inr (frame_of_spec off spec,
       rd_at (pre @ (if s_with_crc spec then put_u16be [] (crc16 (spec_header spec)) else []) @
          spec_payload spec) rest)"
proof -
  have "length (spec_payload spec) < 2 ^ 16"
    by (simp add: spec_payload_def kMaxFramePayload_def)
  then have "unat (f_payload_len (frame_of_spec off spec)) = length (spec_payload spec)"
    by (simp add: frame_of_spec_def unat_of_nat)
  then have payload: "read_bytes (unat (f_payload_len (frame_of_spec off spec)))
      (rd_at pre (spec_payload spec @ rest)) = Inr (spec_payload spec, rd_at (pre @ spec_payload spec) rest)"
    for pre by (simp add: rd_simps)
  show ?thesis
  proof (cases "s_with_crc spec")
    case True
    with payload show ?thesis
      by (simp add: read_frame_tail_def frame_of_spec_def codec_simps)
        (simp add: rd_bind_def rd_return_def codec_simps)
  next
    case False
    with payload show ?thesis
      by (simp add: read_frame_tail_def frame_of_spec_def rd_bind_def rd_return_def)
  qed
qed

lemma frame_next_encoded:
  "frame_next first (rd_at pre (encode_frame [] spec @ rest)) =
     Inr (frame_of_spec (length pre) spec, rd_at (pre @ encode_frame [] spec) rest)"
proof -
  have align: "align_to_sync first (rd_at pre (encode_frame [] spec @ rest)) =
      Inr ((), rd_at pre (encode_frame [] spec @ rest))"
    using at_sync_frame [of pre spec rest] by (simp add: align_to_sync_def encode_frame_alt)
  let ?tail = "(if s_with_crc spec then put_u16be [] (crc16 (spec_header spec)) else []) @ spec_payload spec"
  have split: "encode_frame [] spec @ rest = spec_header spec @ (?tail @ rest)"
    by (simp add: encode_frame_alt)
  have raw: "read_raw kHeaderFixedBytes (rd_at pre (spec_header spec @ (?tail @ rest))) =
      Inr (spec_header spec, rd_at (pre @ spec_header spec) (?tail @ rest))"
    by (rule read_raw_at) (simp add: kHeaderFixedBytes_def)
  have "read_frame_aligned (rd_at pre (encode_frame [] spec @ rest)) =
      Inr (frame_of_spec (length pre) spec, rd_at (pre @ encode_frame [] spec) rest)"
    unfolding split read_frame_aligned_def
    using raw read_spec_tail [of spec "length pre" "pre @ spec_header spec" rest]
    by (simp add: read_spec_header encode_frame_alt [of "[]"])
  with align show ?thesis by (simp add: frame_next_def rd_bind_def)
qed

section \<open>The fragments of a message\<close>

definition fragment_spec ::
  "u16 \<Rightarrow> u32 \<Rightarrow> bytes \<Rightarrow> nat \<Rightarrow> u16 \<Rightarrow> bool \<Rightarrow> bool \<Rightarrow> nat \<Rightarrow> nat \<Rightarrow> frame_spec" where
  "fragment_spec stream_id msg_id payload m first_seq is_compressed with_crc n i =
     \<lparr>s_type = kData,
      s_flags = (if 1 < n then kFlagFrag else 0) OR (if i + 1 = n then kFlagFin else 0) OR
        (if is_compressed then kFlagCompressed else 0),
      s_stream_id = stream_id, s_msg_id = msg_id, s_seq = first_seq + of_nat i,
      s_frag_offset = of_nat (min (i * m) (length payload)),
      s_payload = take m (drop (i * m) payload), s_with_crc = with_crc\<rparr>"

lemma encode_fragment_eq:
  "encode_fragment stream_id msg_id payload m is_compressed with_crc n
      (w, e, min (i * m) (length payload), first_seq + of_nat i) i =
     (encode_frame w (fragment_spec stream_id msg_id payload m first_seq is_compressed with_crc n i),
      e + 1, min (Suc i * m) (length payload), first_seq + of_nat (Suc i))"
proof -
  have chunk: "min (i * m) (length payload) + min m (length payload - min (i * m) (length payload)) =
      min (Suc i * m) (length payload)" by (auto simp: min_def)
  have data: "(if min m (length payload - min (i * m) (length payload)) \<noteq> 0
      then take (min m (length payload - min (i * m) (length payload)))
        (drop (min (i * m) (length payload)) payload) else []) = take m (drop (i * m) payload)"
    by (cases "i * m \<le> length payload") (auto simp: min_def)
  show ?thesis
    unfolding encode_fragment_def Let_def prod.case chunk data fragment_spec_def
    by (simp add: algebra_simps or.assoc)
qed

lemma encode_fragments_fold:
  "foldl (encode_fragment stream_id msg_id payload m is_compressed with_crc n)
       (w, 0, 0, first_seq) [0..<k] =
     (w @ concat (map (\<lambda>i. encode_frame []
          (fragment_spec stream_id msg_id payload m first_seq is_compressed with_crc n i)) [0..<k]),
      k, min (k * m) (length payload), first_seq + of_nat k)"
proof (induction k)
  case 0
  then show ?case by simp
next
  case (Suc k)
  show ?case
    unfolding upt_Suc_append [of 0 k, OF le0] foldl_append Suc.IH
    using encode_fragment_eq [of stream_id msg_id payload m is_compressed with_crc n _ k k first_seq]
    by (simp add: encode_frame_append [of "_ @ _"] algebra_simps)
qed

text \<open>The fragment size and the number of fragments the encoder settles on.\<close>

definition fragment_size :: "nat \<Rightarrow> nat" where
  "fragment_size max_fragment = min (if max_fragment = 0 then 1 else max_fragment) kMaxFramePayload"

definition fragment_count :: "nat \<Rightarrow> bytes \<Rightarrow> nat" where
  "fragment_count max_fragment payload =
     (if length payload = 0 then 1
      else (length payload + fragment_size max_fragment - 1) div fragment_size max_fragment)"

lemma encode_message_alt:
  "encode_message w stream_id msg_id payload max_fragment first_seq is_compressed with_crc =
     (fragment_count max_fragment payload,
      w @ concat (map (\<lambda>i. encode_frame []
            (fragment_spec stream_id msg_id payload (fragment_size max_fragment) first_seq is_compressed
              with_crc (fragment_count max_fragment payload) i))
          [0..<fragment_count max_fragment payload]))"
  unfolding encode_message_def Let_def fragment_size_def [symmetric] fragment_count_def [symmetric]
    encode_fragments_fold prod.case ..

lemma fragment_size_pos [simp]: "0 < fragment_size max_fragment"
  "fragment_size max_fragment \<le> kMaxFramePayload"
  by (simp_all add: fragment_size_def kMaxFramePayload_def)

lemma fragment_count_pos [simp]: "0 < fragment_count max_fragment payload"
proof (cases "payload = []")
  case True
  then show ?thesis by (simp add: fragment_count_def)
next
  case False
  let ?m = "fragment_size max_fragment"
  have "?m \<le> length payload + ?m - 1" using False by (cases payload) auto
  then have "0 < (length payload + ?m - 1) div ?m" by (simp add: div_greater_zero_iff)
  with False show ?thesis by (simp add: fragment_count_def)
qed

lemma fragment_count_bounds:
  assumes "payload \<noteq> []"
  shows "length payload \<le> fragment_count max_fragment payload * fragment_size max_fragment"
    and "(fragment_count max_fragment payload - 1) * fragment_size max_fragment < length payload"
proof -
  let ?m = "fragment_size max_fragment" and ?n = "fragment_count max_fragment payload"
  let ?t = "length payload + ?m - 1"
  have n: "?n = ?t div ?m" using assms by (simp add: fragment_count_def)
  have m: "0 < ?m" by simp
  have t: "?t = ?n * ?m + ?t mod ?m" unfolding n by simp
  moreover have "?t mod ?m < ?m" by simp
  ultimately have "?t < ?n * ?m + ?m" by linarith
  then show "length payload \<le> ?n * ?m" using m by linarith
  have "(?n - 1) * ?m + ?m = ?n * ?m"
    using fragment_count_pos [of max_fragment payload] by (cases ?n) simp_all
  moreover have "?n * ?m \<le> ?t" using t by linarith
  moreover have "0 < length payload" using assms by simp
  ultimately show "(?n - 1) * ?m < length payload" using m by linarith
qed

section \<open>What the header checksum detects\<close>

definition crc16_step :: "u16 \<Rightarrow> u8 \<Rightarrow> u16" where
  "crc16_step crc b = (crc16_bit ^^ 8) (crc XOR push_bit 8 (ucast b))"

lemma crc16_bit_alt: "crc16_bit c = push_bit 1 c XOR (if bit c 15 then 0x1021 else 0)"
proof -
  have k: "(0x8000 :: u16) = 2 ^ 15" by simp
  show ?thesis unfolding crc16_bit_def k and_exp_eq_0_bit by simp
qed

lemma crc16_bit_inj: "crc16_bit a = crc16_bit b \<longleftrightarrow> a = b"
proof
  assume eq: "crc16_bit a = crc16_bit b"
  have low: "bit (crc16_bit c) 0 = bit c 15" for c
  proof -
    have "\<not> bit (push_bit 1 c) 0" by (subst bit_push_bit_iff) simp
    moreover have "bit (if bit c 15 then 0x1021 else 0 :: u16) 0 = bit c 15" by simp
    ultimately show ?thesis unfolding crc16_bit_alt bit_xor_iff by blast
  qed
  have top: "bit a 15 = bit b 15" using low eq by metis
  have "push_bit 1 a = push_bit 1 b"
    using eq top unfolding crc16_bit_alt by (simp only: xor_cancel split: if_splits)
  then have b: "bit (push_bit 1 a) n = bit (push_bit 1 b) n" for n by simp
  show "a = b"
  proof (rule bit_word_eqI)
    fix n assume n: "n < LENGTH(16)"
    show "bit a n = bit b n"
    proof (cases "n = 15")
      case True
      with top show ?thesis by simp
    next
      case False
      with n b [of "Suc n"] show ?thesis by (simp add: bit_push_bit_iff del: push_bit_Suc push_bit_of_1)
    qed
  qed
qed simp

lemma crc16_pow_inj: "(crc16_bit ^^ n) a = (crc16_bit ^^ n) b \<longleftrightarrow> a = b"
  by (induction n) (simp_all add: crc16_bit_inj)

lemma crc16_byte_inj: "push_bit 8 (ucast (a :: u8) :: u16) = push_bit 8 (ucast b) \<longleftrightarrow> a = b"
proof
  assume eq: "push_bit 8 (ucast a :: u16) = push_bit 8 (ucast b)"
  show "a = b"
  proof (rule bit_word_eqI)
    fix n assume "n < LENGTH(8)"
    moreover have "bit (push_bit 8 (ucast a :: u16)) (8 + n) = bit (push_bit 8 (ucast b :: u16)) (8 + n)"
      by (simp only: eq)
    ultimately show "bit a n = bit b n" by (simp add: bit_push_bit_iff ucast_u8_bit)
  qed
qed simp

interpretation crc16: byte_digest crc16_step "\<lambda>s. s" "0xFFFF"
  rewrites "byte_digest.digest crc16_step (\<lambda>s. s) 0xFFFF = crc16"
proof -
  show d: "byte_digest crc16_step (\<lambda>s. s)"
    by unfold_locales (simp_all add: crc16_step_def crc16_pow_inj xor_cancel crc16_byte_inj)
  show "byte_digest.digest crc16_step (\<lambda>s. s) 0xFFFF = crc16"
    by (intro ext, subst byte_digest.digest_def [OF d], subst byte_digest.update_def [OF d])
      (simp add: crc16_def crc16_step_def [abs_def])
qed

end
