(* ===== verification/Reassembler.thy ===== *)
theory Reassembler
  imports Frame "HOL-Library.Product_Lexorder"
begin

text \<open>
  The message reassembler (\<^verbatim>\<open>include/streamcodec/reassembler.hpp\<close>,
  \<^verbatim>\<open>src/streamcodec/reassembler.cpp\<close>): the partial messages in \<^verbatim>\<open>store_\<close>, found through the map
  \<^verbatim>\<open>index_\<close>. Offsets within a message are \<open>nat\<close>, clamped to \<^verbatim>\<open>0xFFFFFFFF\<close> where the code clamps them.
  An access to \<^verbatim>\<open>store_\<close> outside its bounds has no defined behaviour and is the outcome \<open>None\<close>.
  The theory shows that under the index invariant the pair of store and index implements a map from keys
  to partial messages, that a partial message reproduces the payload whatever the order of its fragments,
  and exactly when a RESET keeps the invariant.
\<close>

unbundle bit_operations_syntax

section \<open>State\<close>

record message =
  m_stream_id :: u16
  m_msg_id :: u32
  m_compressed :: bool
  m_data :: bytes

record partial_message =
  p_stream_id :: u16
  p_msg_id :: u32
  p_buffer :: bytes
  p_ranges :: "(nat \<times> nat) list"
  p_high_water :: nat
  p_total_len :: nat
  p_have_fin :: bool
  p_compressed :: bool

type_synonym msg_key = "u16 \<times> u32"

record reassembler =
  ra_store :: "partial_message list"
  ra_index :: "msg_key \<rightharpoonup> nat"

definition reassembler_new :: reassembler where
  "reassembler_new = \<lparr>ra_store = [], ra_index = Map.empty\<rparr>"

definition in_flight :: "reassembler \<Rightarrow> nat" where
  "in_flight ra = length (ra_store ra)"

definition partial_key :: "partial_message \<Rightarrow> msg_key" where
  "partial_key p = (p_stream_id p, p_msg_id p)"

section \<open>Operations\<close>

definition merge_span :: "(nat \<times> nat) list \<Rightarrow> nat \<times> nat \<Rightarrow> (nat \<times> nat) list" where
  "merge_span merged span =
     (if merged \<noteq> [] \<and> fst span \<le> snd (last merged)
      then butlast merged @ [(fst (last merged), max (snd (last merged)) (snd span))]
      else merged @ [span])"

definition add_range :: "partial_message \<Rightarrow> nat \<Rightarrow> nat \<Rightarrow> partial_message" where
  "add_range p lo hi =
     (if hi \<le> lo then p
      else p\<lparr>p_ranges := foldl merge_span [] (sort (p_ranges p @ [(lo, hi)]))\<rparr>)"

definition is_complete :: "partial_message \<Rightarrow> bool" where
  "is_complete p =
     (if \<not> p_have_fin p then False
      else if p_total_len p = 0 then True
      else length (p_ranges p) = 1 \<and> fst (hd (p_ranges p)) = 0 \<and> p_total_len p \<le> snd (hd (p_ranges p)))"

definition fresh_partial :: "msg_key \<Rightarrow> partial_message" where
  "fresh_partial key =
     \<lparr>p_stream_id = fst key, p_msg_id = snd key, p_buffer = [], p_ranges = [], p_high_water = 0,
      p_total_len = 0, p_have_fin = False, p_compressed = False\<rparr>"

definition slot_for :: "msg_key \<Rightarrow> reassembler \<Rightarrow> nat \<times> reassembler" where
  "slot_for key ra =
     (case ra_index ra key of
        Some i \<Rightarrow> (i, ra)
      | None \<Rightarrow>
          let store = ra_store ra @ [fresh_partial key];
              idx = length store - 1
          in (idx, ra\<lparr>ra_store := store, ra_index := (ra_index ra)(key \<mapsto> idx)\<rparr>))"

definition remove_slot :: "nat \<Rightarrow> msg_key \<Rightarrow> reassembler \<Rightarrow> reassembler" where
  "remove_slot idx key ra =
     (let index = (ra_index ra)(key := None);
          store = ra_store ra;
          last = length store - 1
      in if idx \<noteq> last
         then let store = store[idx := store ! last];
                  index = index(partial_key (store ! idx) \<mapsto> idx)
              in ra\<lparr>ra_store := butlast store, ra_index := index\<rparr>
         else ra\<lparr>ra_store := butlast store, ra_index := index\<rparr>)"

text \<open>What a DATA frame does to its partial message: the flag, the growth of the buffer, the copy, the
  range and the length fixed by FIN.\<close>

definition frag_begin :: "frame \<Rightarrow> nat" where
  "frag_begin f = (if frag f then unat (f_frag_offset f) else 0)"

definition frag_end :: "frame \<Rightarrow> nat" where
  "frag_end f = min (frag_begin f + length (f_payload f)) 0xFFFFFFFF"

definition place_payload :: "frame \<Rightarrow> bytes \<Rightarrow> bytes" where
  "place_payload f buffer =
     (let lo = frag_begin f;
          buffer = (if length buffer < frag_end f then buffer @ replicate (frag_end f - length buffer) 0
                    else buffer)
      in if f_payload f \<noteq> [] \<and> lo < length buffer
         then let n = min (length (f_payload f)) (length buffer - lo)
              in take lo buffer @ take n (f_payload f) @ drop (lo + n) buffer
         else buffer)"

definition accept_fragment :: "frame \<Rightarrow> partial_message \<Rightarrow> partial_message" where
  "accept_fragment f p =
     (let p = (if compressed f then p\<lparr>p_compressed := True\<rparr> else p);
          p = p\<lparr>p_buffer := place_payload f (p_buffer p)\<rparr>;
          p = add_range p (frag_begin f) (frag_end f);
          p = p\<lparr>p_high_water := max (p_high_water p) (frag_end f)\<rparr>
      in if fin f then p\<lparr>p_have_fin := True, p_total_len := p_high_water p\<rparr> else p)"

text \<open>The value is the completed message, if the frame completed one.\<close>

definition accept_data :: "frame \<Rightarrow> reassembler \<Rightarrow> (message option \<times> reassembler) option" where
  "accept_data f ra =
     (let key = (f_stream_id f, f_msg_id f)
      in case slot_for key ra of (idx, ra) \<Rightarrow>
        if length (ra_store ra) \<le> idx then None
        else let p = accept_fragment f (ra_store ra ! idx);
                 ra = ra\<lparr>ra_store := (ra_store ra)[idx := p]\<rparr>
             in if \<not> is_complete p then Some (None, ra)
                else if length (p_buffer p) < p_total_len p then None
                else Some (Some \<lparr>m_stream_id = f_stream_id f, m_msg_id = f_msg_id f,
                                 m_compressed = p_compressed p,
                                 m_data = take (p_total_len p) (p_buffer p)\<rparr>,
                           remove_slot idx key ra))"

text \<open>The compaction loop on (kept, index, dropped, first hole), then the sliding of the index.\<close>

definition reset_step ::
  "u16 \<Rightarrow> partial_message list \<times> (msg_key \<rightharpoonup> nat) \<times> nat \<times> nat option \<Rightarrow> nat \<times> partial_message \<Rightarrow>
     partial_message list \<times> (msg_key \<rightharpoonup> nat) \<times> nat \<times> nat option" where
  "reset_step stream_id =
     (\<lambda>(kept, index, dropped, hole) (i, p).
        if p_stream_id p = stream_id
        then (kept, index(partial_key p := None), dropped + 1,
              case hole of None \<Rightarrow> Some i | Some h \<Rightarrow> Some h)
        else (kept @ [p], index, dropped, hole))"

definition slide_index :: "nat option \<Rightarrow> (msg_key \<rightharpoonup> nat) \<Rightarrow> (msg_key \<rightharpoonup> nat)" where
  "slide_index hole index =
     (case hole of
        None \<Rightarrow> index
      | Some h \<Rightarrow> (\<lambda>k. map_option (\<lambda>i. if h < i then i - 1 else i) (index k)))"

definition reset_stream :: "u16 \<Rightarrow> reassembler \<Rightarrow> nat \<times> reassembler" where
  "reset_stream stream_id ra =
     (case foldl (reset_step stream_id) ([], ra_index ra, 0, None) (enumerate 0 (ra_store ra)) of
        (kept, index, dropped, hole) \<Rightarrow>
          (dropped, ra\<lparr>ra_store := kept, ra_index := slide_index hole index\<rparr>))"

section \<open>Ranges\<close>

definition cover :: "(nat \<times> nat) list \<Rightarrow> nat set" where
  "cover rs = (\<Union>(b, e) \<in> set rs. {b..<e})"

definition ranges_ok :: "(nat \<times> nat) list \<Rightarrow> bool" where
  "ranges_ok rs \<longleftrightarrow> sorted_wrt (\<lambda>r s. snd r < fst s) rs \<and> (\<forall>r \<in> set rs. fst r < snd r)"

lemma cover_simps [simp]:
  "cover [] = {}" "cover (r # rs) = {fst r..<snd r} \<union> cover rs" "cover (rs @ ss) = cover rs \<union> cover ss"
  by (auto simp: cover_def)

lemma cover_set: "set rs = set ss \<Longrightarrow> cover rs = cover ss"
  by (simp add: cover_def)

text \<open>Folding in a span whose start is at or after every start already merged.\<close>

lemma merge_span_ok:
  assumes ok: "ranges_ok m" and pos: "fst s < snd s" and later: "\<forall>r \<in> set m. fst r \<le> fst s"
  shows "ranges_ok (merge_span m s)" and "cover (merge_span m s) = cover m \<union> {fst s..<snd s}"
    and "\<forall>r \<in> set (merge_span m s). fst r \<le> fst s"
proof -
  have "ranges_ok (merge_span m s) \<and> cover (merge_span m s) = cover m \<union> {fst s..<snd s} \<and>
    (\<forall>r \<in> set (merge_span m s). fst r \<le> fst s)"
  proof (cases m rule: rev_cases)
    case Nil
    with pos show ?thesis by (simp add: merge_span_def ranges_ok_def)
  next
    case (snoc m' l)
    show ?thesis
    proof (cases "fst s \<le> snd l")
      case True
      have "{fst l..<snd l} \<union> {fst s..<snd s} = {fst l..<max (snd l) (snd s)}"
        using True later snoc ok by (auto simp: ranges_ok_def)
      with True snoc ok later show ?thesis
        by (auto simp: merge_span_def ranges_ok_def sorted_wrt_append)
    next
      case False
      with snoc ok later pos show ?thesis
        by (fastforce simp: merge_span_def ranges_ok_def sorted_wrt_append)
    qed
  qed
  then show "ranges_ok (merge_span m s)" "cover (merge_span m s) = cover m \<union> {fst s..<snd s}"
    "\<forall>r \<in> set (merge_span m s). fst r \<le> fst s" by auto
qed

lemma merge_fold_ok:
  assumes "ranges_ok m" and "\<forall>s \<in> set ss. fst s < snd s" and "sorted_wrt (\<lambda>r s. fst r \<le> fst s) ss"
    and "\<forall>r \<in> set m. \<forall>s \<in> set ss. fst r \<le> fst s"
  shows "ranges_ok (foldl merge_span m ss) \<and> cover (foldl merge_span m ss) = cover m \<union> cover ss"
  using assms
proof (induction ss arbitrary: m)
  case Nil
  then show ?case by simp
next
  case (Cons s ss)
  have pos: "fst s < snd s" and later: "\<forall>r \<in> set m. fst r \<le> fst s" using Cons.prems by auto
  note step = merge_span_ok [OF Cons.prems(1) pos later]
  have "\<forall>r \<in> set (merge_span m s). \<forall>t \<in> set ss. fst r \<le> fst t"
    using step(3) Cons.prems(3) by fastforce
  then have "ranges_ok (foldl merge_span (merge_span m s) ss) \<and>
      cover (foldl merge_span (merge_span m s) ss) = cover (merge_span m s) \<union> cover ss"
    using Cons.prems step(1) by (intro Cons.IH) auto
  with step(2) show ?case by auto
qed

lemma add_range_ok:
  assumes "ranges_ok (p_ranges p)"
  shows "ranges_ok (p_ranges (add_range p b e))"
    and "cover (p_ranges (add_range p b e)) = cover (p_ranges p) \<union> {b..<e}"
proof -
  have "ranges_ok (p_ranges (add_range p b e)) \<and>
     cover (p_ranges (add_range p b e)) = cover (p_ranges p) \<union> {b..<e}"
  proof (cases "e \<le> b")
    case True
    with assms show ?thesis by (simp add: add_range_def)
  next
    case False
    let ?ss = "sort (p_ranges p @ [(b, e)])"
    have "sorted ?ss" by simp
    then have "sorted_wrt (\<lambda>r s. fst r \<le> fst s) ?ss"
      by (rule sorted_wrt_mono_rel [rotated]) (auto simp: less_eq_prod_def)
    moreover have "\<forall>s \<in> set ?ss. fst s < snd s" using assms False by (auto simp: ranges_ok_def)
    ultimately have "ranges_ok (foldl merge_span [] ?ss) \<and> cover (foldl merge_span [] ?ss) = cover [] \<union> cover ?ss"
      by (intro merge_fold_ok) (auto simp: ranges_ok_def)
    moreover have "cover ?ss = cover (p_ranges p @ [(b, e)])" by (rule cover_set) simp
    ultimately show ?thesis using False by (simp add: add_range_def)
  qed
  then show "ranges_ok (p_ranges (add_range p b e))"
    "cover (p_ranges (add_range p b e)) = cover (p_ranges p) \<union> {b..<e}" by auto
qed

lemma add_range_other [simp]:
  "p_stream_id (add_range p b e) = p_stream_id p" "p_msg_id (add_range p b e) = p_msg_id p"
  "p_buffer (add_range p b e) = p_buffer p" "p_high_water (add_range p b e) = p_high_water p"
  "p_total_len (add_range p b e) = p_total_len p" "p_have_fin (add_range p b e) = p_have_fin p"
  "p_compressed (add_range p b e) = p_compressed p"
  by (simp_all add: add_range_def)

lemma cover_finite_max: "ranges_ok rs \<Longrightarrow> r \<in> set rs \<Longrightarrow> {fst r..<snd r} \<subseteq> cover rs"
  by (auto simp: cover_def split: prod.splits)

text \<open>The single-span test is the coverage test.\<close>

lemma ranges_cover_prefix:
  assumes ok: "ranges_ok rs" and inside: "cover rs \<subseteq> {0..<n}" and "0 < n"
  shows "{0..<n} \<subseteq> cover rs \<longleftrightarrow> length rs = 1 \<and> fst (hd rs) = 0 \<and> n \<le> snd (hd rs)"
proof
  assume all: "{0..<n} \<subseteq> cover rs"
  with \<open>0 < n\<close> have "0 \<in> cover rs" by auto
  then obtain r rs' where rs: "rs = r # rs'" by (cases rs) auto
  have later: "\<forall>s \<in> set rs'. snd r < fst s" using ok rs by (simp add: ranges_ok_def)
  have r: "fst r < snd r" using ok rs by (simp add: ranges_ok_def)
  have gap: "snd r \<notin> cover rs"
    using later r by (auto simp: rs cover_def)
  have zero: "fst r = 0"
  proof -
    have "0 \<notin> cover rs'" using later by (auto simp: cover_def)
    with \<open>0 \<in> cover rs\<close> show ?thesis by (auto simp: rs)
  qed
  have "n \<le> snd r" using gap all by (meson atLeastLessThan_iff not_le subsetD zero_le)
  moreover have "rs' = []"
  proof (rule ccontr)
    assume "rs' \<noteq> []"
    then obtain s where s: "s \<in> set rs'" by (cases rs') auto
    then have "fst s < snd s" "snd r < fst s" using ok rs later by (auto simp: ranges_ok_def)
    moreover have "fst s \<in> cover rs" using s \<open>fst s < snd s\<close> by (auto simp: rs cover_def intro!: bexI [of _ s])
    ultimately show False using inside \<open>n \<le> snd r\<close> by auto
  qed
  ultimately show "length rs = 1 \<and> fst (hd rs) = 0 \<and> n \<le> snd (hd rs)" using rs zero by simp
next
  assume one: "length rs = 1 \<and> fst (hd rs) = 0 \<and> n \<le> snd (hd rs)"
  then obtain r where "rs = [r]" by (cases rs) auto
  with one show "{0..<n} \<subseteq> cover rs" by auto
qed

section \<open>A partial message\<close>

text \<open>What holds of every partial message, and what holds of one whose fragments all come from \<open>P\<close>.\<close>

definition partial_ok :: "partial_message \<Rightarrow> bool" where
  "partial_ok p \<longleftrightarrow> ranges_ok (p_ranges p) \<and> cover (p_ranges p) \<subseteq> {0..<p_high_water p} \<and>
     p_high_water p \<le> length (p_buffer p) \<and> p_high_water p \<le> 0xFFFFFFFF \<and>
     p_total_len p \<le> p_high_water p"

lemma partial_ok_fresh [simp]: "partial_ok (fresh_partial key)"
  by (simp add: partial_ok_def fresh_partial_def ranges_ok_def)

lemma partial_key_fresh [simp]: "partial_key (fresh_partial key) = key"
  by (simp add: partial_key_def fresh_partial_def)

lemma length_place_payload: "length (place_payload f b) = max (length b) (frag_end f)"
  by (auto simp: place_payload_def Let_def)

lemma accept_fragment_fields:
  "p_stream_id (accept_fragment f p) = p_stream_id p" "p_msg_id (accept_fragment f p) = p_msg_id p"
  "p_buffer (accept_fragment f p) = place_payload f (p_buffer p)"
  "p_high_water (accept_fragment f p) = max (p_high_water p) (frag_end f)"
  "p_have_fin (accept_fragment f p) \<longleftrightarrow> p_have_fin p \<or> fin f"
  "p_total_len (accept_fragment f p) = (if fin f then max (p_high_water p) (frag_end f) else p_total_len p)"
  "p_compressed (accept_fragment f p) \<longleftrightarrow> p_compressed p \<or> compressed f"
  by (simp_all add: accept_fragment_def Let_def)

lemma partial_key_accept [simp]: "partial_key (accept_fragment f p) = partial_key p"
  by (simp add: partial_key_def accept_fragment_fields)

lemma accept_fragment_ranges:
  "p_ranges (accept_fragment f p) =
     p_ranges (add_range p (frag_begin f) (frag_end f))"
  by (simp add: accept_fragment_def Let_def add_range_def)

lemma accept_fragment_cover:
  assumes "ranges_ok (p_ranges p)"
  shows "ranges_ok (p_ranges (accept_fragment f p))"
    and "cover (p_ranges (accept_fragment f p)) = cover (p_ranges p) \<union> {frag_begin f..<frag_end f}"
  using add_range_ok [OF assms] by (simp_all add: accept_fragment_ranges)

lemma partial_ok_accept [simp]:
  assumes "partial_ok p"
  shows "partial_ok (accept_fragment f p)"
proof -
  have "frag_end f \<le> 0xFFFFFFFF" by (simp add: frag_end_def)
  with assms show ?thesis
    by (auto simp: partial_ok_def accept_fragment_fields accept_fragment_cover length_place_payload
        less_max_iff_disj)
qed

lemma complete_total:
  assumes "partial_ok p" and "is_complete p"
  shows "p_total_len p \<le> length (p_buffer p)"
  using assms by (simp add: partial_ok_def)

text \<open>A frame that carries a slice of \<open>P\<close>; FIN is on a slice that ends \<open>P\<close>.\<close>

definition slice_of :: "bytes \<Rightarrow> frame \<Rightarrow> bool" where
  "slice_of P f \<longleftrightarrow> frag_begin f + length (f_payload f) \<le> length P \<and>
     f_payload f = take (length (f_payload f)) (drop (frag_begin f) P) \<and>
     (fin f \<longrightarrow> frag_begin f + length (f_payload f) = length P)"

definition agrees :: "bytes \<Rightarrow> partial_message \<Rightarrow> bool" where
  "agrees P p \<longleftrightarrow> partial_ok p \<and> p_high_water p \<le> length P \<and>
     (\<forall>i \<in> cover (p_ranges p). p_buffer p ! i = P ! i) \<and>
     (p_have_fin p \<longrightarrow> p_total_len p = length P)"

lemma place_payload_nth:
  assumes "frag_end f = frag_begin f + length (f_payload f)" and "i < max (length b) (frag_end f)"
  shows "place_payload f b ! i =
     (if frag_begin f \<le> i \<and> i < frag_end f then f_payload f ! (i - frag_begin f)
      else if i < length b then b ! i else 0)"
proof -
  define c where "c = (if length b < frag_end f then b @ replicate (frag_end f - length b) 0 else b)"
  have len: "length c = max (length b) (frag_end f)" by (simp add: c_def)
  have pp: "place_payload f b =
      (if f_payload f \<noteq> [] \<and> frag_begin f < length c
       then take (frag_begin f) c @ take (min (length (f_payload f)) (length c - frag_begin f)) (f_payload f) @
         drop (frag_begin f + min (length (f_payload f)) (length c - frag_begin f)) c
       else c)"
    unfolding place_payload_def Let_def c_def by (rule refl)
  have c: "c ! i = (if i < length b then b ! i else 0)"
    using assms(2) by (auto simp: c_def nth_append)
  show ?thesis
  proof (cases "f_payload f = []")
    case True
    then have "place_payload f b = c" by (simp add: pp)
    with True assms c show ?thesis by auto
  next
    case False
    then have "frag_begin f < length c" using assms(1) len by (simp add: less_max_iff_disj)
    moreover have "min (length (f_payload f)) (length c - frag_begin f) = length (f_payload f)"
    proof -
      have "frag_end f \<le> length c" using len by simp
      then show ?thesis using assms(1) by simp
    qed
    ultimately have "place_payload f b = take (frag_begin f) c @ f_payload f @ drop (frag_end f) c"
      using False by (simp add: pp assms(1))
    with assms c len \<open>frag_begin f < length c\<close> show ?thesis
      by (auto simp: nth_append)
  qed
qed

lemma agrees_accept:
  assumes ag: "agrees P p" and sl: "slice_of P f" and len: "length P \<le> 0xFFFFFFFF"
  shows "agrees P (accept_fragment f p)"
proof -
  have fe: "frag_end f = frag_begin f + length (f_payload f)"
    using sl len by (simp add: frag_end_def slice_of_def)
  have pok: "partial_ok p" using ag by (simp add: agrees_def)
  have "p_buffer (accept_fragment f p) ! i = P ! i" if i: "i \<in> cover (p_ranges (accept_fragment f p))" for i
  proof -
    from i pok have cov: "i \<in> cover (p_ranges p) \<or> frag_begin f \<le> i \<and> i < frag_end f"
      by (auto simp: accept_fragment_cover partial_ok_def)
    then have "i < max (length (p_buffer p)) (frag_end f)"
      using pok by (auto simp: partial_ok_def less_max_iff_disj)
    note nth = place_payload_nth [OF fe this]
    show ?thesis
    proof (cases "frag_begin f \<le> i \<and> i < frag_end f")
      case True
      then obtain k where k: "i = frag_begin f + k" "k < length (f_payload f)"
        using fe by (metis add_less_cancel_left le_add_diff_inverse)
      have "f_payload f ! k = take (length (f_payload f)) (drop (frag_begin f) P) ! k"
        using sl by (simp add: slice_of_def)
      also have "\<dots> = P ! i"
      proof -
        have "frag_begin f + length (f_payload f) \<le> length P" using sl by (simp add: slice_of_def)
        with k show ?thesis by simp
      qed
      finally have "f_payload f ! (i - frag_begin f) = P ! i" using k by simp
      with True show ?thesis by (simp add: accept_fragment_fields nth)
    next
      case False
      with cov have c: "i \<in> cover (p_ranges p)" by blast
      with pok have "i < length (p_buffer p)" by (auto simp: partial_ok_def)
      moreover from c ag have "p_buffer p ! i = P ! i" by (simp add: agrees_def)
      ultimately show ?thesis using False by (auto simp: accept_fragment_fields nth)
    qed
  qed
  with ag sl fe show ?thesis
    by (auto simp: agrees_def accept_fragment_fields slice_of_def)
qed

text \<open>When every fragment came from \<open>P\<close>, completeness is: FIN was seen and \<open>P\<close> is covered.\<close>

lemma agrees_complete:
  assumes "agrees P p"
  shows "is_complete p \<longleftrightarrow> p_have_fin p \<and> {0..<length P} \<subseteq> cover (p_ranges p)"
proof (cases "p_have_fin p \<and> P \<noteq> []")
  case True
  with assms have "p_total_len p = length P" "cover (p_ranges p) \<subseteq> {0..<length P}"
    "ranges_ok (p_ranges p)"
    by (auto simp: agrees_def partial_ok_def)
  with True ranges_cover_prefix [of "p_ranges p" "length P"] show ?thesis
    by (auto simp: is_complete_def)
next
  case False
  with assms show ?thesis by (auto simp: is_complete_def agrees_def)
qed

lemma agrees_data:
  assumes "agrees P p" and "is_complete p"
  shows "take (p_total_len p) (p_buffer p) = P"
proof (rule nth_equalityI)
  from assms have fin: "p_have_fin p" by (simp add: is_complete_def split: if_splits)
  with assms have total: "p_total_len p = length P" by (simp add: agrees_def)
  with assms show len: "length (take (p_total_len p) (p_buffer p)) = length P"
    using complete_total [OF _ assms(2)] by (simp add: agrees_def)
  fix i assume "i < length (take (p_total_len p) (p_buffer p))"
  with len have "i < length P" by simp
  with assms have "i \<in> cover (p_ranges p)" using agrees_complete by auto
  with assms total \<open>i < length P\<close> show "take (p_total_len p) (p_buffer p) ! i = P ! i"
    by (simp add: agrees_def)
qed

text \<open>Whatever the order and the repetitions of the fragments.\<close>

lemma agrees_fold:
  assumes "agrees P p" and "\<forall>f \<in> set fs. slice_of P f" and "length P \<le> 0xFFFFFFFF"
  shows "agrees P (fold accept_fragment fs p)"
    and "cover (p_ranges (fold accept_fragment fs p)) =
      cover (p_ranges p) \<union> (\<Union>f \<in> set fs. {frag_begin f..<frag_begin f + length (f_payload f)})"
    and "p_have_fin (fold accept_fragment fs p) \<longleftrightarrow> p_have_fin p \<or> (\<exists>f \<in> set fs. fin f)"
proof -
  have "agrees P (fold accept_fragment fs p) \<and> cover (p_ranges (fold accept_fragment fs p)) =
      cover (p_ranges p) \<union> (\<Union>f \<in> set fs. {frag_begin f..<frag_begin f + length (f_payload f)}) \<and>
    (p_have_fin (fold accept_fragment fs p) \<longleftrightarrow> p_have_fin p \<or> (\<exists>f \<in> set fs. fin f))"
    using assms(1,2)
  proof (induction fs arbitrary: p)
    case Nil
    then show ?case by simp
  next
    case (Cons f fs)
    have sl: "slice_of P f" using Cons.prems by simp
    have fe: "frag_end f = frag_begin f + length (f_payload f)"
      using sl assms(3) by (simp add: frag_end_def slice_of_def)
    have ag: "agrees P (accept_fragment f p)" by (rule agrees_accept [OF Cons.prems(1) sl assms(3)])
    have "ranges_ok (p_ranges p)" using Cons.prems(1) by (simp add: agrees_def partial_ok_def)
    note cov = accept_fragment_cover(2) [OF this, of f]
    from Cons.IH [OF ag] Cons.prems(2) show ?case
      by (auto simp: cov fe accept_fragment_fields)
  qed
  then show "agrees P (fold accept_fragment fs p)"
    "cover (p_ranges (fold accept_fragment fs p)) =
      cover (p_ranges p) \<union> (\<Union>f \<in> set fs. {frag_begin f..<frag_begin f + length (f_payload f)})"
    "p_have_fin (fold accept_fragment fs p) \<longleftrightarrow> p_have_fin p \<or> (\<exists>f \<in> set fs. fin f)" by auto
qed

lemma agrees_fresh [simp]: "agrees P (fresh_partial key)"
  by (simp add: agrees_def) (simp add: fresh_partial_def)

section \<open>The store and the index as a map\<close>

definition ra_inv :: "reassembler \<Rightarrow> bool" where
  "ra_inv ra \<longleftrightarrow>
     (\<forall>k i. ra_index ra k = Some i \<longleftrightarrow> i < length (ra_store ra) \<and> partial_key (ra_store ra ! i) = k) \<and>
     (\<forall>p \<in> set (ra_store ra). partial_ok p)"

definition ra_abs :: "reassembler \<Rightarrow> (msg_key \<rightharpoonup> partial_message)" where
  "ra_abs ra k = map_option (\<lambda>i. ra_store ra ! i) (ra_index ra k)"

text \<open>The abstract reassembler: a map from keys to partial messages.\<close>

definition accept_abs ::
  "frame \<Rightarrow> (msg_key \<rightharpoonup> partial_message) \<Rightarrow> message option \<times> (msg_key \<rightharpoonup> partial_message)" where
  "accept_abs f m =
     (let key = (f_stream_id f, f_msg_id f);
          p = accept_fragment f (case m key of None \<Rightarrow> fresh_partial key | Some p \<Rightarrow> p)
      in if is_complete p
         then (Some \<lparr>m_stream_id = f_stream_id f, m_msg_id = f_msg_id f, m_compressed = p_compressed p,
                     m_data = take (p_total_len p) (p_buffer p)\<rparr>, m(key := None))
         else (None, m(key \<mapsto> p)))"

declare split_paired_All [simp del]

lemma ra_inv_new [simp]: "ra_inv reassembler_new"
  by (simp add: ra_inv_def reassembler_new_def)

lemma ra_abs_new [simp]: "ra_abs reassembler_new = Map.empty"
  by (rule ext) (simp add: ra_abs_def reassembler_new_def)

lemma ra_invD:
  assumes "ra_inv ra"
  shows "ra_index ra k = Some i \<Longrightarrow> i < length (ra_store ra)"
    and "ra_index ra k = Some i \<Longrightarrow> partial_key (ra_store ra ! i) = k"
    and "i < length (ra_store ra) \<Longrightarrow> ra_index ra (partial_key (ra_store ra ! i)) = Some i"
  using assms by (auto simp: ra_inv_def)

lemma slot_for_ok:
  assumes inv: "ra_inv ra" and slot: "slot_for key ra = (idx, ra')"
  shows "ra_inv ra'" and "idx < length (ra_store ra')" and "ra_index ra' key = Some idx"
    and "ra_store ra' ! idx = (case ra_abs ra key of None \<Rightarrow> fresh_partial key | Some p \<Rightarrow> p)"
    and "ra_abs ra' = (ra_abs ra)(key \<mapsto> ra_store ra' ! idx)"
proof -
  have "ra_inv ra' \<and> idx < length (ra_store ra') \<and> ra_index ra' key = Some idx \<and>
    ra_store ra' ! idx = (case ra_abs ra key of None \<Rightarrow> fresh_partial key | Some p \<Rightarrow> p) \<and>
    ra_abs ra' = (ra_abs ra)(key \<mapsto> ra_store ra' ! idx)"
  proof (cases "ra_index ra key")
    case None
    with slot have r: "idx = length (ra_store ra)" "ra_store ra' = ra_store ra @ [fresh_partial key]"
      "ra_index ra' = (ra_index ra)(key \<mapsto> idx)"
      by (auto simp: slot_for_def Let_def)
    have "partial_key (ra_store ra ! i) \<noteq> key" if "i < length (ra_store ra)" for i
      using ra_invD(3) [OF inv that] None by auto
    then have "ra_inv ra'"
      using inv None by (auto simp: ra_inv_def r nth_append less_Suc_eq)
    moreover have "ra_abs ra' = (ra_abs ra)(key \<mapsto> fresh_partial key)"
    proof
      fix k show "ra_abs ra' k = ((ra_abs ra)(key \<mapsto> fresh_partial key)) k"
        using ra_invD(1) [OF inv, of k]
        by (cases "ra_index ra k") (auto simp: ra_abs_def r nth_append)
    qed
    ultimately show ?thesis using None r by (simp add: ra_abs_def)
  next
    case (Some i)
    with slot have "ra' = ra" "idx = i" by (auto simp: slot_for_def)
    with Some inv ra_invD [OF inv] show ?thesis by (auto simp: ra_abs_def)
  qed
  then show "ra_inv ra'" "idx < length (ra_store ra')" "ra_index ra' key = Some idx"
    "ra_store ra' ! idx = (case ra_abs ra key of None \<Rightarrow> fresh_partial key | Some p \<Rightarrow> p)"
    "ra_abs ra' = (ra_abs ra)(key \<mapsto> ra_store ra' ! idx)" by auto
qed

lemma update_slot_ok:
  assumes inv: "ra_inv ra" and idx: "ra_index ra key = Some idx" and p: "partial_key p = key" "partial_ok p"
  shows "ra_inv (ra\<lparr>ra_store := (ra_store ra)[idx := p]\<rparr>)"
    and "ra_abs (ra\<lparr>ra_store := (ra_store ra)[idx := p]\<rparr>) = (ra_abs ra)(key \<mapsto> p)"
proof -
  let ?ra = "ra\<lparr>ra_store := (ra_store ra)[idx := p]\<rparr>"
  have i: "idx < length (ra_store ra)" "partial_key (ra_store ra ! idx) = key"
    using ra_invD [OF inv] idx by auto
  have same: "partial_key ((ra_store ra)[idx := p] ! j) = partial_key (ra_store ra ! j)"
    if "j < length (ra_store ra)" for j
    using that i p by (cases "j = idx") simp_all
  have "\<forall>q \<in> set ((ra_store ra)[idx := p]). partial_ok q"
    using inv p set_update_subset_insert [of "ra_store ra" idx p] by (auto simp: ra_inv_def)
  then show "ra_inv ?ra" using inv same by (auto simp: ra_inv_def)
  show "ra_abs ?ra = (ra_abs ra)(key \<mapsto> p)"
  proof
    fix k
    show "ra_abs ?ra k = ((ra_abs ra)(key \<mapsto> p)) k"
    proof (cases "k = key")
      case True
      with i idx show ?thesis by (simp add: ra_abs_def)
    next
      case False
      have "j \<noteq> idx" if "ra_index ra k = Some j" for j
        using that False ra_invD(2) [OF inv] idx by blast
      with False show ?thesis by (cases "ra_index ra k") (simp_all add: ra_abs_def)
    qed
  qed
qed

text \<open>Swap-and-pop removes exactly the key it is asked to remove.\<close>

lemma remove_slot_ok:
  assumes inv: "ra_inv ra" and idx: "ra_index ra key = Some idx"
  shows "ra_inv (remove_slot idx key ra)" and "ra_abs (remove_slot idx key ra) = (ra_abs ra)(key := None)"
proof -
  let ?s = "ra_store ra" and ?last = "length (ra_store ra) - 1"
  have i: "idx < length ?s" "partial_key (?s ! idx) = key" using ra_invD [OF inv] idx by auto
  then have last: "?last < length ?s" by simp
  have uniq: "j = j'" if "j < length ?s" "j' < length ?s" "partial_key (?s ! j) = partial_key (?s ! j')" for j j'
    using that ra_invD(3) [OF inv] by (metis option.inject)
  have "ra_inv (remove_slot idx key ra) \<and> ra_abs (remove_slot idx key ra) = (ra_abs ra)(key := None)"
  proof (cases "idx = ?last")
    case True
    let ?ra = "remove_slot idx key ra"
    have r: "ra_store ?ra = butlast ?s" "ra_index ?ra = (ra_index ra)(key := None)"
      using True by (simp_all add: remove_slot_def Let_def)
    have "ra_index ?ra k = Some j \<longleftrightarrow> j < length (ra_store ?ra) \<and> partial_key (ra_store ?ra ! j) = k" for k j
    proof (cases "j < ?last")
      case True
      then have "ra_index ra k = Some j \<longleftrightarrow> partial_key (?s ! j) = k" using inv by (auto simp: ra_inv_def)
      moreover have "partial_key (?s ! j) \<noteq> key" using uniq [of j idx] i True \<open>idx = ?last\<close> by auto
      ultimately show ?thesis using True by (auto simp: r nth_butlast)
    next
      case False
      have "ra_index ?ra k \<noteq> Some j"
      proof
        assume "ra_index ?ra k = Some j"
        then have k: "k \<noteq> key" "ra_index ra k = Some j" by (auto simp: r split: if_splits)
        note j = ra_invD(1,2) [OF inv k(2)]
        have "j = idx" using j(1) False \<open>idx = ?last\<close> by linarith
        with j(2) i(2) k(1) show False by simp
      qed
      with False show ?thesis by (simp add: r)
    qed
    moreover have "\<forall>p \<in> set (ra_store ?ra). partial_ok p"
      using inv by (auto simp: r ra_inv_def dest: in_set_butlastD)
    moreover have "ra_abs ?ra k = ((ra_abs ra)(key := None)) k" for k
    proof (cases "k = key \<or> ra_index ra k = None")
      case True
      then show ?thesis by (auto simp: ra_abs_def r)
    next
      case False
      then obtain j where j: "ra_index ra k = Some j" "k \<noteq> key" by auto
      then have "j < length ?s" "partial_key (?s ! j) = k" using ra_invD [OF inv] by auto
      moreover have "j \<noteq> ?last" using \<open>idx = ?last\<close> i j calculation by metis
      ultimately show ?thesis using j by (simp add: ra_abs_def r nth_butlast)
    qed
    ultimately show ?thesis by (auto simp: ra_inv_def)
  next
    case False
    let ?ra = "remove_slot idx key ra" and ?moved = "partial_key (?s ! ?last)"
    have lt: "idx < ?last" using False i by simp
    have r: "ra_store ?ra = butlast (?s[idx := ?s ! ?last])"
      "ra_index ?ra = (ra_index ra)(key := None, ?moved \<mapsto> idx)"
      using False i by (simp_all add: remove_slot_def Let_def)
    have nth: "ra_store ?ra ! j = (if j = idx then ?s ! ?last else ?s ! j)" if "j < ?last" for j
      using that lt by (simp add: r nth_butlast nth_list_update)
    have len: "length (ra_store ?ra) = ?last" by (simp add: r(1))
    have moved: "?moved \<noteq> key" using uniq [of ?last idx] i last False by auto
    have "ra_index ?ra k = Some j \<longleftrightarrow> j < length (ra_store ?ra) \<and> partial_key (ra_store ?ra ! j) = k" for k j
    proof (cases "k = ?moved")
      case True
      have "partial_key (?s ! j) \<noteq> ?moved" if "j < ?last" for j using uniq [of j ?last] last that by auto
      with True lt nth [of j] show ?thesis unfolding len r(2) by (cases "j < ?last") auto
    next
      case k: False
      show ?thesis
      proof (cases "k = key")
        case True
        have "partial_key (?s ! j) \<noteq> key" if "j < ?last" "j \<noteq> idx" for j
        proof
          assume "partial_key (?s ! j) = key"
          moreover have "j < length ?s" using that(1) by linarith
          ultimately have "j = idx" using uniq i by auto
          with that(2) show False by simp
        qed
        with True moved nth [of j] show ?thesis unfolding len r(2)
          by (cases "j < ?last"; cases "j = idx") auto
      next
        case False
        have "ra_index ra k = Some j \<longleftrightarrow> j < length ?s \<and> partial_key (?s ! j) = k"
          using inv by (auto simp: ra_inv_def)
        also have "\<dots> \<longleftrightarrow> j < ?last \<and> partial_key (ra_store ?ra ! j) = k"
          using False k i nth [of j] by (cases "j < ?last"; cases "j = ?last") auto
        finally show ?thesis using False k unfolding len r(2) by simp
      qed
    qed
    moreover have "\<forall>p \<in> set (ra_store ?ra). partial_ok p"
      using inv last by (auto simp: r ra_inv_def dest!: in_set_butlastD set_update_subset_insert [THEN subsetD])
    moreover have "ra_abs ?ra k = ((ra_abs ra)(key := None)) k" for k
    proof (cases "ra_index ra k")
      case None
      moreover have "k \<noteq> ?moved" using None ra_invD(3) [OF inv last] by auto
      ultimately show ?thesis by (simp add: ra_abs_def r)
    next
      case (Some j)
      note j = ra_invD(1,2) [OF inv Some]
      consider "k = ?moved" | "k = key" | "k \<noteq> ?moved" "k \<noteq> key" by blast
      then show ?thesis
      proof cases
        case 1
        then have "j = ?last" using j uniq [of j ?last] last by auto
        with 1 moved Some lt nth [of idx] show ?thesis by (simp add: ra_abs_def r(2))
      next
        case 2
        with moved show ?thesis by (auto simp: ra_abs_def r)
      next
        case 3
        then have "j < ?last" "j \<noteq> idx" using j i by (metis Suc_pred' last less_SucE less_nat_zero_code not_gr_zero, metis)
        with 3 Some nth [of j] show ?thesis by (simp add: ra_abs_def r(2))
      qed
    qed
    ultimately show ?thesis by (auto simp: ra_inv_def)
  qed
  then show "ra_inv (remove_slot idx key ra)" "ra_abs (remove_slot idx key ra) = (ra_abs ra)(key := None)"
    by auto
qed

text \<open>Accepting a DATA frame refines the abstract operation and never leaves the store's bounds.\<close>

lemma accept_data_refines:
  assumes inv: "ra_inv ra"
  obtains out ra' where "accept_data f ra = Some (out, ra')" and "ra_inv ra'"
    and "accept_abs f (ra_abs ra) = (out, ra_abs ra')"
proof -
  let ?key = "(f_stream_id f, f_msg_id f)"
  obtain idx ra1 where slot: "slot_for ?key ra = (idx, ra1)" by (cases "slot_for ?key ra")
  note s = slot_for_ok [OF inv slot]
  let ?p = "accept_fragment f (ra_store ra1 ! idx)"
  have "partial_ok (ra_store ra1 ! idx)" using s(1,2) by (auto simp: ra_inv_def)
  then have pok: "partial_ok ?p" by simp
  have key: "partial_key ?p = ?key" using ra_invD(2) [OF s(1) s(3)] by simp
  let ?ra2 = "ra1\<lparr>ra_store := (ra_store ra1)[idx := ?p]\<rparr>"
  note u = update_slot_ok [OF s(1) s(3) key pok]
  have p_abs: "accept_fragment f (case ra_abs ra ?key of None \<Rightarrow> fresh_partial ?key | Some p \<Rightarrow> p) = ?p"
    by (simp add: s(4))
  show thesis
  proof (cases "is_complete ?p")
    case False
    show thesis
    proof (rule that)
      show "accept_data f ra = Some (None, ?ra2)"
        using False s(2) by (simp add: accept_data_def slot Let_def)
      show "ra_inv ?ra2" by (rule u(1))
      show "accept_abs f (ra_abs ra) = (None, ra_abs ?ra2)"
        unfolding accept_abs_def Let_def p_abs u(2) s(5) using False by simp
    qed
  next
    case True
    let ?m = "\<lparr>m_stream_id = f_stream_id f, m_msg_id = f_msg_id f, m_compressed = p_compressed ?p,
               m_data = take (p_total_len ?p) (p_buffer ?p)\<rparr>"
    have idx2: "ra_index ?ra2 ?key = Some idx" using s(3) by simp
    note rm = remove_slot_ok [OF u(1) idx2]
    show thesis
    proof (rule that)
      show "accept_data f ra = Some (Some ?m, remove_slot idx ?key ?ra2)"
        using True s(2) complete_total [OF pok True]
        by (simp add: accept_data_def slot Let_def not_less)
      show "ra_inv (remove_slot idx ?key ?ra2)" by (rule rm(1))
      show "accept_abs f (ra_abs ra) = (Some ?m, ra_abs (remove_slot idx ?key ?ra2))"
        unfolding accept_abs_def Let_def p_abs rm(2) u(2) s(5) using True by simp
    qed
  qed
qed

section \<open>RESET\<close>

text \<open>The compaction loop in closed form.\<close>

definition of_stream :: "u16 \<Rightarrow> partial_message \<Rightarrow> bool" where
  "of_stream sid p \<longleftrightarrow> p_stream_id p = sid"

definition first_slot :: "u16 \<Rightarrow> partial_message list \<Rightarrow> nat option" where
  "first_slot sid ps =
     (if \<exists>p \<in> set ps. of_stream sid p then Some (length (takeWhile (\<lambda>p. \<not> of_stream sid p) ps)) else None)"

lemma reset_fold:
  "foldl (reset_step sid) (kept, index, d, hole) (enumerate n ps) =
     (kept @ filter (\<lambda>p. \<not> of_stream sid p) ps,
      (\<lambda>k. if k \<in> partial_key ` set (filter (of_stream sid) ps) then None else index k),
      d + length (filter (of_stream sid) ps),
      case hole of Some h \<Rightarrow> Some h | None \<Rightarrow> map_option ((+) n) (first_slot sid ps))"
proof (induction ps arbitrary: kept index d hole n)
  case Nil
  then show ?case by (simp add: first_slot_def split: option.splits)
next
  case (Cons p ps)
  then show ?case
    by (cases hole) (auto simp: reset_step_def of_stream_def first_slot_def fun_eq_iff)
qed

lemma reset_stream_alt:
  "reset_stream sid ra =
     (length (filter (of_stream sid) (ra_store ra)),
      ra\<lparr>ra_store := filter (\<lambda>p. \<not> of_stream sid p) (ra_store ra),
         ra_index := slide_index (first_slot sid (ra_store ra))
           (\<lambda>k. if k \<in> partial_key ` set (filter (of_stream sid) (ra_store ra)) then None
                else ra_index ra k)\<rparr>)"
proof -
  have "map_option ((+) 0) (first_slot sid ps) = first_slot sid ps" for ps
    by (cases "first_slot sid ps") simp_all
  then show ?thesis by (simp add: reset_stream_def reset_fold)
qed

text \<open>The position of a survivor after the compaction: it moves down by the dropped slots before it.\<close>

definition dropped_before :: "u16 \<Rightarrow> partial_message list \<Rightarrow> nat \<Rightarrow> nat" where
  "dropped_before sid ps j = length (filter (of_stream sid) (take j ps))"

definition new_slot :: "u16 \<Rightarrow> partial_message list \<Rightarrow> nat \<Rightarrow> nat" where
  "new_slot sid ps j = length (filter (\<lambda>p. \<not> of_stream sid p) (take j ps))"

lemma new_slot_plus: "j \<le> length ps \<Longrightarrow> new_slot sid ps j + dropped_before sid ps j = j"
  using sum_length_filter_compl [of "of_stream sid" "take j ps"]
  by (simp add: new_slot_def dropped_before_def o_def)

lemma filter_nth_new_slot:
  assumes "j < length ps" and "\<not> of_stream sid (ps ! j)"
  shows "new_slot sid ps j < length (filter (\<lambda>p. \<not> of_stream sid p) ps) \<and>
         filter (\<lambda>p. \<not> of_stream sid p) ps ! new_slot sid ps j = ps ! j"
proof -
  have "ps = take j ps @ ps ! j # drop (Suc j) ps" using assms(1) by (simp add: id_take_nth_drop [symmetric])
  then have "filter (\<lambda>p. \<not> of_stream sid p) ps =
      filter (\<lambda>p. \<not> of_stream sid p) (take j ps) @ ps ! j # filter (\<lambda>p. \<not> of_stream sid p) (drop (Suc j) ps)"
    using assms(2) by (metis (mono_tags, lifting) filter.simps(2) filter_append)
  then show ?thesis by (simp add: new_slot_def nth_append)
qed

lemma survivors_slots:
  assumes "i < length (filter (\<lambda>p. \<not> of_stream sid p) ps)"
  obtains j where "j < length ps" and "\<not> of_stream sid (ps ! j)" and "new_slot sid ps j = i"
  using assms
proof (induction ps arbitrary: i thesis rule: rev_induct)
  case Nil
  then show ?case by simp
next
  case (snoc p ps)
  show ?case
  proof (cases "i < length (filter (\<lambda>p. \<not> of_stream sid p) ps)")
    case True
    then obtain j where j: "j < length ps" "\<not> of_stream sid (ps ! j)" "new_slot sid ps j = i"
      by (rule snoc.IH [rotated])
    show ?thesis
      by (rule snoc.prems(1) [of j]) (use j in \<open>auto simp: nth_append new_slot_def\<close>)
  next
    case False
    with snoc.prems(2) have "\<not> of_stream sid p" "i = length (filter (\<lambda>p. \<not> of_stream sid p) ps)"
      by (auto split: if_splits)
    then show ?thesis by (intro snoc.prems(1) [of "length ps"]) (auto simp: new_slot_def)
  qed
qed

lemma first_slot_none: "first_slot sid ps = None \<longleftrightarrow> filter (of_stream sid) ps = []"
  by (auto simp: first_slot_def filter_empty_conv)

lemma first_slot_some:
  assumes "first_slot sid ps = Some h"
  shows "h < length ps" and "of_stream sid (ps ! h)"
    and "j \<le> length ps \<Longrightarrow> dropped_before sid ps j = 0 \<longleftrightarrow> j \<le> h"
proof -
  from assms have ex: "\<exists>p \<in> set ps. of_stream sid p" and h: "h = length (takeWhile (\<lambda>p. \<not> of_stream sid p) ps)"
    by (auto simp: first_slot_def split: if_splits)
  show "h < length ps"
  proof (rule ccontr)
    assume "\<not> h < length ps"
    then have "length (takeWhile (\<lambda>p. \<not> of_stream sid p) ps) = length ps"
      using h length_takeWhile_le [of "\<lambda>p. \<not> of_stream sid p" ps] by linarith
    then have "takeWhile (\<lambda>p. \<not> of_stream sid p) ps = ps"
      by (metis length_takeWhile_le takeWhile_eq_take take_all order_refl)
    with ex show False by (metis set_takeWhileD)
  qed
  then show of: "of_stream sid (ps ! h)" using nth_length_takeWhile [of "\<lambda>p. \<not> of_stream sid p" ps] h by simp
  have none: "\<not> of_stream sid (ps ! i)" if "i < h" for i
    using that h by (metis nth_mem set_takeWhileD takeWhile_nth)
  show "dropped_before sid ps j = 0 \<longleftrightarrow> j \<le> h" if "j \<le> length ps"
  proof
    assume zero: "dropped_before sid ps j = 0"
    show "j \<le> h"
    proof (rule ccontr)
      assume "\<not> j \<le> h"
      then have "ps ! h \<in> set (take j ps)" using \<open>h < length ps\<close> by (auto simp: in_set_conv_nth)
      with zero of show False by (auto simp: dropped_before_def filter_empty_conv)
    qed
  next
    assume "j \<le> h"
    then show "dropped_before sid ps j = 0"
      using none \<open>h < length ps\<close> by (auto simp: dropped_before_def filter_empty_conv in_set_conv_nth)
  qed
qed

text \<open>
  The index entry of a survivor slides by one if it sits after the first hole; the survivor itself moves
  by the number of dropped slots before it. The two agree exactly when that number is at most one.
\<close>

definition reset_safe :: "u16 \<Rightarrow> reassembler \<Rightarrow> bool" where
  "reset_safe sid ra \<longleftrightarrow>
     (\<forall>j < length (ra_store ra). of_stream sid (ra_store ra ! j) \<or> dropped_before sid (ra_store ra) j \<le> 1)"

lemma reset_index_survivor:
  assumes inv: "ra_inv ra" and j: "j < length (ra_store ra)" and s: "\<not> of_stream sid (ra_store ra ! j)"
  shows "ra_index (snd (reset_stream sid ra)) (partial_key (ra_store ra ! j)) =
     Some (if dropped_before sid (ra_store ra) j = 0 then j else j - 1)"
proof -
  let ?ps = "ra_store ra" and ?k = "partial_key (ra_store ra ! j)"
  have "?k \<notin> partial_key ` set (filter (of_stream sid) ?ps)"
    using s by (auto simp: of_stream_def partial_key_def)
  moreover have "ra_index ra ?k = Some j" by (rule ra_invD(3) [OF inv j])
  ultimately show ?thesis
  proof (cases "first_slot sid ?ps")
    case None
    then have "filter (of_stream sid) ?ps = []" by (simp add: first_slot_none)
    then have "dropped_before sid ?ps j = 0"
      by (auto simp: dropped_before_def filter_empty_conv dest: in_set_takeD)
    then show ?thesis using \<open>ra_index ra ?k = Some j\<close> \<open>?k \<notin> _\<close> None
      by (simp add: reset_stream_alt slide_index_def)
  next
    case (Some h)
    have "h \<noteq> j" using first_slot_some(2) [OF Some] s by auto
    with first_slot_some(3) [OF Some, of j] j have "h < j \<longleftrightarrow> dropped_before sid ?ps j \<noteq> 0" by auto
    then show ?thesis using \<open>ra_index ra ?k = Some j\<close> \<open>?k \<notin> _\<close> Some
      by (simp add: reset_stream_alt slide_index_def)
  qed
qed

lemma reset_other_keys:
  assumes inv: "ra_inv ra" and k: "ra_index (snd (reset_stream sid ra)) k = Some i"
  obtains j where "j < length (ra_store ra)" "\<not> of_stream sid (ra_store ra ! j)" "partial_key (ra_store ra ! j) = k"
proof -
  from k obtain j where old: "ra_index ra k = Some j"
    and kept: "k \<notin> partial_key ` set (filter (of_stream sid) (ra_store ra))"
    by (auto simp: reset_stream_alt slide_index_def split: option.splits if_splits)
  note j = ra_invD(1,2) [OF inv old]
  have "\<not> of_stream sid (ra_store ra ! j)" using kept j by auto
  then show thesis using that j by blast
qed

text \<open>RESET keeps the store and the index in agreement exactly when it is safe in this sense.\<close>

lemma reset_inv_iff:
  assumes inv: "ra_inv ra"
  shows "ra_inv (snd (reset_stream sid ra)) \<longleftrightarrow> reset_safe sid ra"
proof
  let ?ra = "snd (reset_stream sid ra)" and ?ps = "ra_store ra"
  have store: "ra_store ?ra = filter (\<lambda>p. \<not> of_stream sid p) ?ps" by (simp add: reset_stream_alt)
  {
    assume inv': "ra_inv ?ra"
    show "reset_safe sid ra"
      unfolding reset_safe_def
    proof (intro allI impI)
      fix j assume j: "j < length ?ps"
      show "of_stream sid (?ps ! j) \<or> dropped_before sid ?ps j \<le> 1"
      proof (cases "of_stream sid (?ps ! j)")
        case False
        note n = filter_nth_new_slot [OF j False]
        have "ra_index ?ra (partial_key (?ps ! j)) = Some (new_slot sid ?ps j)"
          using ra_invD(3) [OF inv', of "new_slot sid ?ps j"] n by (simp add: store)
        with reset_index_survivor [OF inv j False] new_slot_plus [of j ?ps sid] j show ?thesis
          by (auto split: if_splits)
      qed simp
    qed
  }
  assume safe: "reset_safe sid ra"
  have idx: "ra_index ?ra (partial_key (?ps ! j)) = Some (new_slot sid ?ps j)"
    if "j < length ?ps" "\<not> of_stream sid (?ps ! j)" for j
  proof -
    have "dropped_before sid ?ps j \<le> 1" using safe that by (auto simp: reset_safe_def)
    with reset_index_survivor [OF inv that] new_slot_plus [of j ?ps sid] that(1) show ?thesis by auto
  qed
  have "ra_index ?ra k = Some i \<longleftrightarrow> i < length (ra_store ?ra) \<and> partial_key (ra_store ?ra ! i) = k" for k i
  proof
    assume a: "ra_index ?ra k = Some i"
    then obtain j where j: "j < length ?ps" "\<not> of_stream sid (?ps ! j)" "partial_key (?ps ! j) = k"
      using reset_other_keys [OF inv] by blast
    with idx a have "i = new_slot sid ?ps j" by auto
    with filter_nth_new_slot [OF j(1,2)] j(3) show "i < length (ra_store ?ra) \<and> partial_key (ra_store ?ra ! i) = k"
      by (simp add: store)
  next
    assume a: "i < length (ra_store ?ra) \<and> partial_key (ra_store ?ra ! i) = k"
    then obtain j where j: "j < length ?ps" "\<not> of_stream sid (?ps ! j)" "new_slot sid ?ps j = i"
      unfolding store using survivors_slots by blast
    with filter_nth_new_slot [OF j(1,2)] a have "partial_key (?ps ! j) = k" by (auto simp: store)
    with idx [OF j(1,2)] j(3) show "ra_index ?ra k = Some i" by simp
  qed
  moreover have "\<forall>p \<in> set (ra_store ?ra). partial_ok p" using inv by (auto simp: store ra_inv_def)
  ultimately show "ra_inv ?ra" by (simp add: ra_inv_def)
qed

lemma reset_abs:
  assumes inv: "ra_inv ra" and safe: "reset_safe sid ra"
  shows "ra_abs (snd (reset_stream sid ra)) = (\<lambda>k. if fst k = sid then None else ra_abs ra k)"
proof
  fix k
  let ?ra = "snd (reset_stream sid ra)" and ?ps = "ra_store ra"
  have inv': "ra_inv ?ra" using safe reset_inv_iff [OF inv] by simp
  have store: "ra_store ?ra = filter (\<lambda>p. \<not> of_stream sid p) ?ps" by (simp add: reset_stream_alt)
  show "ra_abs ?ra k = (if fst k = sid then None else ra_abs ra k)"
  proof (cases "\<exists>j. ra_index ra k = Some j \<and> fst k \<noteq> sid")
    case True
    then obtain j where j: "ra_index ra k = Some j" "fst k \<noteq> sid" by auto
    note jj = ra_invD(1,2) [OF inv j(1)]
    have s: "\<not> of_stream sid (?ps ! j)" using jj(2) j(2) by (auto simp: of_stream_def partial_key_def)
    note n = filter_nth_new_slot [OF jj(1) s]
    have "ra_index ?ra k = Some (new_slot sid ?ps j)"
      using ra_invD(3) [OF inv', of "new_slot sid ?ps j"] n jj(2) by (simp add: store)
    then show ?thesis using n j by (simp add: ra_abs_def store)
  next
    case False
    have "ra_index ?ra k = None"
    proof (rule ccontr)
      assume "ra_index ?ra k \<noteq> None"
      then obtain i where "ra_index ?ra k = Some i" by auto
      then obtain j where "j < length ?ps" "\<not> of_stream sid (?ps ! j)" "partial_key (?ps ! j) = k"
        using reset_other_keys [OF inv] by blast
      with False ra_invD(3) [OF inv, of j] show False
        by (auto simp: of_stream_def partial_key_def)
    qed
    with False show ?thesis by (auto simp: ra_abs_def)
  qed
qed

text \<open>With at most one partial message of the stream in flight RESET is safe.\<close>

lemma reset_safe_single:
  assumes "length (filter (of_stream sid) (ra_store ra)) \<le> 1"
  shows "reset_safe sid ra"
proof -
  have "length (filter P (take j xs)) \<le> length (filter P xs)" for P j and xs :: "partial_message list"
    by (metis append_take_drop_id filter_append le_add1 length_append)
  with assms show ?thesis unfolding reset_safe_def dropped_before_def by (meson le_trans)
qed

text \<open>
  What happens otherwise. A survivor behind two or more dropped slots is no longer where its index says:
  the next fragment for it is looked up past the end of the store, or goes into another message.
\<close>

lemma reset_misdirects:
  assumes inv: "ra_inv ra" and j: "j < length (ra_store ra)" and other: "p_stream_id (ra_store ra ! j) \<noteq> sid"
    and two: "2 \<le> dropped_before sid (ra_store ra) j"
    and key: "(f_stream_id f, f_msg_id f) = partial_key (ra_store ra ! j)"
  defines "ra' \<equiv> snd (reset_stream sid ra)"
  shows "ra_store ra' ! (j - dropped_before sid (ra_store ra) j) = ra_store ra ! j"
    and "ra_index ra' (f_stream_id f, f_msg_id f) = Some (j - 1)"
    and "length (ra_store ra') \<le> j - 1 \<Longrightarrow> accept_data f ra' = None"
    and "j - 1 < length (ra_store ra') \<Longrightarrow> partial_key (ra_store ra' ! (j - 1)) \<noteq> (f_stream_id f, f_msg_id f)"
    and "j - 1 < length (ra_store ra') \<Longrightarrow>
      (case accept_data f ra' of
         None \<Rightarrow> False
       | Some (out, ra'') \<Rightarrow>
           (let q = accept_fragment f (ra_store ra' ! (j - 1)) in
            case out of
              None \<Rightarrow> ra_store ra'' = (ra_store ra')[j - 1 := q]
            | Some m \<Rightarrow> m_stream_id m = f_stream_id f \<and> m_msg_id m = f_msg_id f \<and>
                m_data m = take (p_total_len q) (p_buffer q)))"
proof -
  let ?ps = "ra_store ra"
  have s: "\<not> of_stream sid (?ps ! j)" using other by (simp add: of_stream_def)
  have store: "ra_store ra' = filter (\<lambda>p. \<not> of_stream sid p) ?ps" by (simp add: ra'_def reset_stream_alt)
  note slot = filter_nth_new_slot [OF j s, folded store]
  have n: "j - dropped_before sid ?ps j = new_slot sid ?ps j" "new_slot sid ?ps j < j - 1"
    using new_slot_plus [of j ?ps sid] j two by simp_all
  show "ra_store ra' ! (j - dropped_before sid ?ps j) = ?ps ! j" using slot n by simp
  show idx: "ra_index ra' (f_stream_id f, f_msg_id f) = Some (j - 1)"
    using reset_index_survivor [OF inv j s] two by (simp add: ra'_def key)
  then show "length (ra_store ra') \<le> j - 1 \<Longrightarrow> accept_data f ra' = None"
    by (simp add: accept_data_def slot_for_def)
  assume inside: "j - 1 < length (ra_store ra')"
  then obtain i where i: "i < length ?ps" "\<not> of_stream sid (?ps ! i)" "new_slot sid ?ps i = j - 1"
    unfolding store by (rule survivors_slots)
  note there = filter_nth_new_slot [OF i(1,2), folded store, unfolded i(3)]
  have "i \<noteq> j" using i(3) n by auto
  then show "partial_key (ra_store ra' ! (j - 1)) \<noteq> (f_stream_id f, f_msg_id f)"
    using there ra_invD(3) [OF inv i(1)] ra_invD(3) [OF inv j] key by auto
  have "partial_ok (ra_store ra' ! (j - 1))"
    using inv there i(1) by (simp add: ra_inv_def)
  then have "partial_ok (accept_fragment f (ra_store ra' ! (j - 1)))" by simp
  then show "case accept_data f ra' of
         None \<Rightarrow> False
       | Some (out, ra'') \<Rightarrow>
           (let q = accept_fragment f (ra_store ra' ! (j - 1)) in
            case out of
              None \<Rightarrow> ra_store ra'' = (ra_store ra')[j - 1 := q]
            | Some m \<Rightarrow> m_stream_id m = f_stream_id f \<and> m_msg_id m = f_msg_id f \<and>
                m_data m = take (p_total_len q) (p_buffer q))"
    using idx inside complete_total [of "accept_fragment f (ra_store ra' ! (j - 1))"]
    by (auto simp: accept_data_def slot_for_def Let_def)
qed

end
