(* ===== verification/Ordered_Map.thy ===== *)
theory Ordered_Map
  imports Bw_Prelude
begin

text \<open>
  \<^verbatim>\<open>std::map\<close> as the program uses it: an association list kept sorted by key, so that iteration is in
  ascending key order and \<^verbatim>\<open>begin()\<close> is the least key. The locale \<open>keyed_store\<close> is the interface its
  clients rely on; the second part holds a locale for state machines whose operations keep an invariant.
\<close>

type_synonym ('k, 'v) omap = "('k \<times> 'v) list"

primrec om_insert :: "'k::linorder \<Rightarrow> 'v \<Rightarrow> ('k, 'v) omap \<Rightarrow> ('k, 'v) omap" where
  "om_insert k v [] = [(k, v)]"
| "om_insert k v (e # m) =
     (if k < fst e then (k, v) # e # m
      else if k = fst e then (k, v) # m
      else e # om_insert k v m)"

definition om_erase :: "'k::linorder \<Rightarrow> ('k, 'v) omap \<Rightarrow> ('k, 'v) omap" where
  "om_erase k m = filter (\<lambda>e. fst e \<noteq> k) m"

definition om_lookup :: "('k::linorder, 'v) omap \<Rightarrow> 'k \<Rightarrow> 'v option" where
  "om_lookup m k = map_of m k"

definition om_ok :: "('k::linorder, 'v) omap \<Rightarrow> bool" where
  "om_ok m \<longleftrightarrow> sorted_wrt (<) (map fst m)"

section \<open>The interface\<close>

locale keyed_store =
  fixes lookup :: "'m \<Rightarrow> 'k \<Rightarrow> 'v option"
    and insert :: "'k \<Rightarrow> 'v \<Rightarrow> 'm \<Rightarrow> 'm"
    and erase :: "'k \<Rightarrow> 'm \<Rightarrow> 'm"
    and ok :: "'m \<Rightarrow> bool"
  assumes lookup_insert: "lookup (insert k v m) k' = (if k' = k then Some v else lookup m k')"
    and lookup_erase: "lookup (erase k m) k' = (if k' = k then None else lookup m k')"
    and ok_insert: "ok m \<Longrightarrow> ok (insert k v m)"
    and ok_erase: "ok m \<Longrightarrow> ok (erase k m)"
begin

definition modify :: "'k \<Rightarrow> 'v \<Rightarrow> ('v \<Rightarrow> 'v) \<Rightarrow> 'm \<Rightarrow> 'm" where
  "modify k d f m = insert k (f (case lookup m k of None \<Rightarrow> d | Some v \<Rightarrow> v)) m"

lemma lookup_modify:
  "lookup (modify k d f m) k' =
     (if k' = k then Some (f (case lookup m k of None \<Rightarrow> d | Some v \<Rightarrow> v)) else lookup m k')"
  by (simp add: modify_def lookup_insert)

lemma ok_modify: "ok m \<Longrightarrow> ok (modify k d f m)"
  by (simp add: modify_def ok_insert)

text \<open>A value property that every written value has is had by every stored value.\<close>

definition all_values :: "('v \<Rightarrow> bool) \<Rightarrow> 'm \<Rightarrow> bool" where
  "all_values P m \<longleftrightarrow> (\<forall>k v. lookup m k = Some v \<longrightarrow> P v)"

lemma all_values_insert: "all_values P m \<Longrightarrow> P v \<Longrightarrow> all_values P (insert k v m)"
  by (simp add: all_values_def lookup_insert)

lemma all_values_erase: "all_values P m \<Longrightarrow> all_values P (erase k m)"
  by (simp add: all_values_def lookup_erase)

end

lemma om_lookup_insert [simp]: "om_lookup (om_insert k v m) k' = (if k' = k then Some v else om_lookup m k')"
  by (induction m) (auto simp: om_lookup_def)

lemma om_lookup_erase [simp]: "om_lookup (om_erase k m) k' = (if k' = k then None else om_lookup m k')"
  by (induction m) (auto simp: om_lookup_def om_erase_def)

lemma om_keys_insert: "set (map fst (om_insert k v m)) = insert k (set (map fst m))"
  by (induction m) auto

lemma om_ok_insert [simp]: "om_ok m \<Longrightarrow> om_ok (om_insert k v m)"
proof (induction m)
  case Nil
  then show ?case by (simp add: om_ok_def)
next
  case (Cons e m)
  have "set (map fst (om_insert k v m)) = insert k (set (map fst m))" by (rule om_keys_insert)
  with Cons show ?case by (auto simp: om_ok_def)
qed

lemma om_ok_filter: "om_ok m \<Longrightarrow> om_ok (filter P m)"
  by (induction m) (auto simp: om_ok_def)

lemma om_ok_erase [simp]: "om_ok m \<Longrightarrow> om_ok (om_erase k m)"
  by (simp add: om_erase_def om_ok_filter)

lemma om_ok_Nil [simp]: "om_ok []"
  by (simp add: om_ok_def)

lemma om_lookup_Nil [simp]: "om_lookup [] k = None"
  by (simp add: om_lookup_def)

interpretation om: keyed_store om_lookup om_insert om_erase om_ok
  by unfold_locales simp_all

section \<open>Order\<close>

lemma om_ok_Cons: "om_ok (e # m) \<longleftrightarrow> (\<forall>k \<in> set (map fst m). fst e < k) \<and> om_ok m"
  by (auto simp: om_ok_def)

lemma om_ok_distinct: "om_ok m \<Longrightarrow> distinct (map fst m)"
  by (induction m) (auto simp: om_ok_Cons)

lemma om_mem_iff: "om_ok m \<Longrightarrow> (k, v) \<in> set m \<longleftrightarrow> om_lookup m k = Some v"
  by (simp add: om_lookup_def om_ok_distinct)

lemma om_lookup_dom: "om_lookup m k = None \<longleftrightarrow> k \<notin> set (map fst m)"
  by (simp add: om_lookup_def map_of_eq_None_iff)

text \<open>\<^verbatim>\<open>begin()\<close> is the least key, and erasing it is dropping the head.\<close>

lemma om_head_least: "om_ok (e # m) \<Longrightarrow> om_lookup (e # m) k = Some v \<Longrightarrow> fst e \<le> k"
  by (auto simp: om_lookup_def om_ok_Cons split: if_splits dest!: map_of_SomeD)

lemma om_erase_head: "om_ok (e # m) \<Longrightarrow> om_erase (fst e) (e # m) = m"
  by (auto simp: om_erase_def om_ok_Cons filter_id_conv)

lemma om_insert_length:
  "length (om_insert k v m) = (if om_lookup m k = None then Suc (length m) else length m)" if "om_ok m"
  using that by (induction m) (auto simp: om_lookup_def om_ok_Cons map_of_eq_None_iff image_iff)

section \<open>Machines whose operations keep an invariant\<close>

locale invariant_machine =
  fixes step :: "'op \<Rightarrow> 's \<Rightarrow> 's" and inv :: "'s \<Rightarrow> bool" and start :: 's
  assumes inv_start: "inv start"
    and inv_step: "inv s \<Longrightarrow> inv (step op s)"
begin

lemma inv_run_from: "inv s \<Longrightarrow> inv (fold step ops s)"
  by (induction ops arbitrary: s) (simp_all add: inv_step)

lemma inv_run: "inv (fold step ops start)"
  by (rule inv_run_from [OF inv_start])

text \<open>A quantity no operation decreases is not decreased by a run.\<close>

lemma mono_run:
  assumes "\<And>op s. inv s \<Longrightarrow> (f s :: 'n::preorder) \<le> f (step op s)" and "inv s"
  shows "f s \<le> f (fold step ops s)"
  using assms(2)
proof (induction ops arbitrary: s)
  case Nil
  then show ?case by simp
next
  case (Cons op ops)
  have "f s \<le> f (step op s)" by (rule assms(1) [OF Cons.prems])
  also have "\<dots> \<le> f (fold step ops (step op s))" by (rule Cons.IH) (rule inv_step [OF Cons.prems])
  finally show ?case by simp
qed

end

end
