(* ===== verification/Stream_State.thy ===== *)
theory Stream_State
  imports Ordered_Map
begin

text \<open>
  The rolling per-stream state (\<^verbatim>\<open>include/streamcodec/stream_state.hpp\<close>,
  \<^verbatim>\<open>src/streamcodec/stream_state.cpp\<close>). The counters are \<open>nat\<close>: each counts frames of one input. The
  table is checked against a specification that reads the counters off the history of one stream.
\<close>

record stream_stats =
  ss_stream_id :: u16
  ss_frames :: nat
  ss_gaps :: nat
  ss_duplicates :: nat
  ss_resets :: nat

record rolling =
  ro_stats :: stream_stats
  ro_last_seq :: u16
  ro_seeded :: bool

type_synonym stream_table = "(u16, rolling) omap"

definition rolling_default :: rolling where
  "rolling_default = \<lparr>ro_stats = \<lparr>ss_stream_id = 0, ss_frames = 0, ss_gaps = 0, ss_duplicates = 0, ss_resets = 0\<rparr>,
     ro_last_seq = 0, ro_seeded = False\<rparr>"

text \<open>\<^verbatim>\<open>slot\<close> creates the entry when it is absent and sets its id; here its value, written back by the caller.\<close>

definition st_slot :: "u16 \<Rightarrow> stream_table \<Rightarrow> rolling" where
  "st_slot stream_id streams =
     (let s = (case om_lookup streams stream_id of None \<Rightarrow> rolling_default | Some s \<Rightarrow> s)
      in s\<lparr>ro_stats := (ro_stats s)\<lparr>ss_stream_id := stream_id\<rparr>\<rparr>)"

definition observe_rolling :: "u16 \<Rightarrow> rolling \<Rightarrow> rolling" where
  "observe_rolling seq s =
     (let s = s\<lparr>ro_stats := (ro_stats s)\<lparr>ss_frames := ss_frames (ro_stats s) + 1\<rparr>\<rparr>
      in if \<not> ro_seeded s then s\<lparr>ro_last_seq := seq, ro_seeded := True\<rparr>
         else if seq = ro_last_seq s
         then s\<lparr>ro_stats := (ro_stats s)\<lparr>ss_duplicates := ss_duplicates (ro_stats s) + 1\<rparr>\<rparr>
         else let expected = ro_last_seq s + 1;
                  s = (if seq \<noteq> expected
                       then s\<lparr>ro_stats := (ro_stats s)\<lparr>ss_gaps := ss_gaps (ro_stats s) + 1\<rparr>\<rparr> else s)
              in s\<lparr>ro_last_seq := seq\<rparr>)"

definition st_observe :: "u16 \<Rightarrow> u16 \<Rightarrow> stream_table \<Rightarrow> stream_table" where
  "st_observe stream_id seq streams =
     om_insert stream_id (observe_rolling seq (st_slot stream_id streams)) streams"

definition reset_rolling :: "rolling \<Rightarrow> rolling" where
  "reset_rolling s =
     s\<lparr>ro_stats := (ro_stats s)\<lparr>ss_resets := ss_resets (ro_stats s) + 1\<rparr>, ro_seeded := False, ro_last_seq := 0\<rparr>"

definition note_reset :: "u16 \<Rightarrow> stream_table \<Rightarrow> stream_table" where
  "note_reset stream_id streams = om_insert stream_id (reset_rolling (st_slot stream_id streams)) streams"

definition snapshot :: "stream_table \<Rightarrow> stream_stats list" where
  "snapshot streams = map (\<lambda>kv. ro_stats (snd kv)) streams"

section \<open>The counters as a function of the history\<close>

datatype st_event = Observe u16 u16 | Reset u16

fun st_event_id :: "st_event \<Rightarrow> u16" where
  "st_event_id (Observe sid seq) = sid"
| "st_event_id (Reset sid) = sid"

fun st_apply :: "st_event \<Rightarrow> stream_table \<Rightarrow> stream_table" where
  "st_apply (Observe sid seq) t = st_observe sid seq t"
| "st_apply (Reset sid) t = note_reset sid t"

text \<open>The pairs of consecutive sequence numbers of one stream, a RESET breaking the chain. The first
  argument is the number seen last.\<close>

fun seq_pairs :: "u16 option \<Rightarrow> st_event list \<Rightarrow> (u16 \<times> u16) list" where
  "seq_pairs prev [] = []"
| "seq_pairs prev (Reset sid # es) = seq_pairs None es"
| "seq_pairs None (Observe sid seq # es) = seq_pairs (Some seq) es"
| "seq_pairs (Some l) (Observe sid seq # es) = (l, seq) # seq_pairs (Some seq) es"

definition is_observe :: "st_event \<Rightarrow> bool" where
  "is_observe e = (case e of Observe _ _ \<Rightarrow> True | Reset _ \<Rightarrow> False)"

definition stats_of_history :: "u16 \<Rightarrow> st_event list \<Rightarrow> stream_stats" where
  "stats_of_history sid es =
     \<lparr>ss_stream_id = sid,
      ss_frames = length (filter is_observe es),
      ss_gaps = length (filter (\<lambda>(a, b). b \<noteq> a \<and> b \<noteq> a + 1) (seq_pairs None es)),
      ss_duplicates = length (filter (\<lambda>(a, b). b = a) (seq_pairs None es)),
      ss_resets = length (filter (\<lambda>e. \<not> is_observe e) es)\<rparr>"

definition rolling_apply :: "st_event \<Rightarrow> rolling \<Rightarrow> rolling" where
  "rolling_apply e s = (case e of Observe _ seq \<Rightarrow> observe_rolling seq s | Reset _ \<Rightarrow> reset_rolling s)"

definition rolling_last :: "rolling \<Rightarrow> u16 option" where
  "rolling_last s = (if ro_seeded s then Some (ro_last_seq s) else None)"

lemma rolling_fold:
  "ss_stream_id (ro_stats (fold rolling_apply es s)) = ss_stream_id (ro_stats s) \<and>
   ss_frames (ro_stats (fold rolling_apply es s)) =
     ss_frames (ro_stats s) + length (filter is_observe es) \<and>
   ss_gaps (ro_stats (fold rolling_apply es s)) =
     ss_gaps (ro_stats s) + length (filter (\<lambda>(a, b). b \<noteq> a \<and> b \<noteq> a + 1) (seq_pairs (rolling_last s) es)) \<and>
   ss_duplicates (ro_stats (fold rolling_apply es s)) =
     ss_duplicates (ro_stats s) + length (filter (\<lambda>(a, b). b = a) (seq_pairs (rolling_last s) es)) \<and>
   ss_resets (ro_stats (fold rolling_apply es s)) =
     ss_resets (ro_stats s) + length (filter (\<lambda>e. \<not> is_observe e) es)"
proof (induction es arbitrary: s)
  case Nil
  then show ?case by simp
next
  case (Cons e es)
  show ?case
  proof (cases e)
    case (Observe sid seq)
    have "rolling_last (observe_rolling seq s) = Some seq"
      by (auto simp: rolling_last_def observe_rolling_def Let_def)
    with Cons [of "observe_rolling seq s"] Observe show ?thesis
      by (auto simp: rolling_apply_def is_observe_def rolling_last_def [of s] observe_rolling_def [of _ s] Let_def)
  next
    case (Reset sid)
    have "rolling_last (reset_rolling s) = None" by (simp add: rolling_last_def reset_rolling_def)
    with Cons [of "reset_rolling s"] Reset show ?thesis
      by (simp add: rolling_apply_def is_observe_def reset_rolling_def)
  qed
qed

text \<open>A stream's entry depends on that stream's events only.\<close>

lemma rolling_apply_id [simp]:
  "ss_stream_id (ro_stats (rolling_apply e s)) = ss_stream_id (ro_stats s)"
  by (cases e) (auto simp: rolling_apply_def observe_rolling_def reset_rolling_def Let_def)

definition with_id :: "u16 \<Rightarrow> rolling \<Rightarrow> rolling" where
  "with_id sid s = s\<lparr>ro_stats := (ro_stats s)\<lparr>ss_stream_id := sid\<rparr>\<rparr>"

lemma with_id_same: "ss_stream_id (ro_stats s) = sid \<Longrightarrow> with_id sid s = s"
  by (cases s) (auto simp: with_id_def)

lemma lookup_apply:
  "om_lookup (st_apply e t) sid =
     (if st_event_id e = sid then Some (rolling_apply e (st_slot sid t)) else om_lookup t sid)"
  by (cases e) (auto simp: st_observe_def note_reset_def rolling_apply_def)

lemma fold_lookup_some:
  assumes "om_lookup t sid = Some s" and "ss_stream_id (ro_stats s) = sid"
  shows "om_lookup (fold st_apply es t) sid = Some (fold rolling_apply (filter (\<lambda>e. st_event_id e = sid) es) s)"
  using assms
proof (induction es arbitrary: t s)
  case Nil
  then show ?case by simp
next
  case (Cons e es)
  show ?case
  proof (cases "st_event_id e = sid")
    case True
    have "st_slot sid t = s" using Cons.prems by (simp add: st_slot_def)
    then have "om_lookup (st_apply e t) sid = Some (rolling_apply e s)" using True by (simp add: lookup_apply)
    from Cons.IH [OF this] Cons.prems True show ?thesis by simp
  next
    case False
    then have "om_lookup (st_apply e t) sid = Some s" using Cons.prems by (simp add: lookup_apply)
    from Cons.IH [OF this] Cons.prems False show ?thesis by simp
  qed
qed

lemma fold_lookup_none:
  assumes "om_lookup t sid = None"
  shows "om_lookup (fold st_apply es t) sid =
     (let h = filter (\<lambda>e. st_event_id e = sid) es
      in if h = [] then None else Some (fold rolling_apply h (with_id sid rolling_default)))"
  using assms
proof (induction es arbitrary: t)
  case Nil
  then show ?case by simp
next
  case (Cons e es)
  show ?case
  proof (cases "st_event_id e = sid")
    case True
    have "st_slot sid t = with_id sid rolling_default"
      using Cons.prems by (simp add: st_slot_def with_id_def)
    then have "om_lookup (st_apply e t) sid = Some (rolling_apply e (with_id sid rolling_default))"
      using True by (simp add: lookup_apply)
    from fold_lookup_some [OF this] True show ?thesis by (simp add: with_id_def)
  next
    case False
    then have "om_lookup (st_apply e t) sid = None" using Cons.prems by (simp add: lookup_apply)
    from Cons.IH [OF this] False show ?thesis by simp
  qed
qed

lemma stats_history:
  "map_option ro_stats (om_lookup (fold st_apply es []) sid) =
     (let h = filter (\<lambda>e. st_event_id e = sid) es in if h = [] then None else Some (stats_of_history sid h))"
proof -
  let ?h = "filter (\<lambda>e. st_event_id e = sid) es"
  have "ro_stats (fold rolling_apply ?h (with_id sid rolling_default)) = stats_of_history sid ?h"
    using rolling_fold [of ?h "with_id sid rolling_default"]
    by (intro stream_stats.equality)
      (auto simp: stats_of_history_def with_id_def rolling_default_def rolling_last_def)
  then show ?thesis using fold_lookup_none [of "[]" sid es] by (simp add: Let_def)
qed

interpretation st_machine: invariant_machine st_apply om_ok "[]"
proof unfold_locales
  fix op :: st_event and s :: stream_table
  assume "om_ok s"
  then show "om_ok (st_apply op s)" by (cases op) (simp_all add: st_observe_def note_reset_def)
qed simp

text \<open>The snapshot lists the streams in ascending order of their ids.\<close>

lemma snapshot_sorted:
  assumes "om_ok t" and "\<And>k s. om_lookup t k = Some s \<Longrightarrow> ss_stream_id (ro_stats s) = k"
  shows "map ss_stream_id (snapshot t) = map fst t" and "sorted_wrt (<) (map ss_stream_id (snapshot t))"
proof -
  show eq: "map ss_stream_id (snapshot t) = map fst t"
    using assms by (auto simp: snapshot_def om_mem_iff [symmetric])
  show "sorted_wrt (<) (map ss_stream_id (snapshot t))"
    unfolding eq using assms(1) by (simp add: om_ok_def)
qed

end
