(* ===== verification/Hexdump.thy ===== *)
theory Hexdump
  imports Bw_Prelude
begin

text \<open>
  The text helpers of \<^verbatim>\<open>include/common/hexdump.hpp\<close> and \<^verbatim>\<open>src/common/hexdump.cpp\<close>: hexadecimal
  rendering, single-line escaping and the 16-bytes-per-row dump. Rendering is checked against readers
  of the produced text: the hexadecimal value read back, and an unescape function.
\<close>

unbundle bit_operations_syntax

definition kHexDigits :: string where
  "kHexDigits = ''0123456789abcdef''"

definition append_hex_byte :: "string \<Rightarrow> u8 \<Rightarrow> string" where
  "append_hex_byte out b =
     (out @ [kHexDigits ! unat (drop_bit 4 b AND 0xF)]) @ [kHexDigits ! unat (b AND 0xF)]"

text \<open>The digits are pushed into \<^verbatim>\<open>buf\<close> least significant first, \<open>i\<close> being its length, then padded, then
  popped.\<close>

function to_hex_digits :: "u64 \<Rightarrow> string \<Rightarrow> string" where
  "to_hex_digits v buf =
     (if 0 < v \<and> length buf < 16
      then to_hex_digits (drop_bit 4 v) (buf @ [kHexDigits ! unat (v AND 0xF)]) else buf)"
  by pat_completeness auto
termination
  by (relation "measure (\<lambda>(v, buf). 16 - length buf)") auto

declare to_hex_digits.simps [simp del]

function to_hex_pad :: "int \<Rightarrow> string \<Rightarrow> string" where
  "to_hex_pad min_digits buf =
     (if int (length buf) < min_digits \<and> length buf < 16 then to_hex_pad min_digits (buf @ ''0'')
      else buf)"
  by pat_completeness auto
termination
  by (relation "measure (\<lambda>(m, buf). 16 - length buf)") auto

declare to_hex_pad.simps [simp del]

definition to_hex :: "u64 \<Rightarrow> int \<Rightarrow> string" where
  "to_hex v min_digits =
     ''0x'' @ rev (to_hex_pad min_digits (if v = 0 then ''0'' else to_hex_digits v []))"

definition escape_byte :: "string \<Rightarrow> u8 \<Rightarrow> string" where
  "escape_byte out c =
     (if c = byte_of_char (CHR 0x5C) then out @ [CHR 0x5C, CHR 0x5C]
      else if 0x20 \<le> c \<and> c < 0x7F then out @ [char_of_byte c]
      else append_hex_byte (out @ [CHR 0x5C, CHR ''x'']) c)"

definition escape :: "string \<Rightarrow> string" where
  "escape s = foldl escape_byte [] (bytes_of_string s)"

definition printable_or_dot :: "u8 \<Rightarrow> char" where
  "printable_or_dot b = (if 0x20 \<le> b \<and> b < 0x7F then char_of_byte b else CHR ''.'')"

text \<open>One row: the 16 columns, each a byte or blanks, then the ASCII column.\<close>

definition hexdump_col :: "bytes \<Rightarrow> nat \<Rightarrow> string \<times> string \<Rightarrow> nat \<Rightarrow> string \<times> string" where
  "hexdump_col data row = (\<lambda>(out, ascii) col.
     if row + col < length data
     then (append_hex_byte out (data ! (row + col)) @ '' '', ascii @ [printable_or_dot (data ! (row + col))])
     else (out @ ''   '', ascii))"

definition hexdump_row :: "bytes \<Rightarrow> string \<Rightarrow> nat \<Rightarrow> string" where
  "hexdump_row data out row =
     (case foldl (hexdump_col data row) (out @ to_hex (of_nat row) 8 @ ''  '', []) [0..<16] of
        (out, ascii) \<Rightarrow> out @ '' '' @ ascii @ [CHR 0x0A])"

function hexdump_rows :: "bytes \<Rightarrow> nat \<Rightarrow> string \<Rightarrow> string" where
  "hexdump_rows data row out =
     (if row < length data then hexdump_rows data (row + 16) (hexdump_row data out row) else out)"
  by pat_completeness auto
termination
  by (relation "measure (\<lambda>(data, row, out). length data - row)") auto

declare hexdump_rows.simps [simp del]

definition hexdump :: "bytes \<Rightarrow> string" where
  "hexdump data = hexdump_rows data 0 []"

section \<open>Hexadecimal digits\<close>

fun hex_digit_value :: "char \<Rightarrow> nat" where
  "hex_digit_value c = (let n = of_char c :: nat in if n < 0x3A then n - 0x30 else n - 0x57)"

lemma nibble_cases:
  assumes "n < (16 :: nat)"
  shows "n \<in> {0, 1, 2, 3, 4, 5, 6, 7, 8, 9, 10, 11, 12, 13, 14, 15}"
  using assms by (simp add: eval_nat_numeral less_Suc_eq)

lemma hex_digit_value_digit: "n < 16 \<Longrightarrow> hex_digit_value (kHexDigits ! n) = n"
  by (drule nibble_cases) (auto simp: kHexDigits_def)

lemma hex_digit_printable: "n < 16 \<Longrightarrow> kHexDigits ! n \<noteq> CHR 0x5C"
  by (drule nibble_cases) (auto simp: kHexDigits_def)

lemma nibble_unat: "unat (v AND 0xF) = unat v mod 16" for v :: "'a::len word"
proof -
  have m: "(0xF :: 'a word) = mask 4" by (simp add: mask_eq_exp_minus_1)
  have "unat (take_bit 4 v) = take_bit 4 (unat v)" by (rule unsigned_take_bit_eq)
  also have "\<dots> = unat v mod 16" by (simp add: take_bit_eq_mod)
  finally show ?thesis unfolding m by (simp only: take_bit_eq_mask)
qed

lemma unat_drop_4: "unat (drop_bit 4 v) = unat v div 16" for v :: "'a::len word"
proof -
  have "unat (drop_bit 4 v) = drop_bit 4 (unat v)" by (rule unat_drop_bit_eq)
  then show ?thesis by (simp only: drop_bit_eq_div) simp
qed

text \<open>The value of the little-endian digit buffer, and of a big-endian digit string.\<close>

definition hex_value :: "string \<Rightarrow> nat" where
  "hex_value s = foldl (\<lambda>n c. 16 * n + hex_digit_value c) 0 s"

lemma hex_value_append: "hex_value (s @ [c]) = 16 * hex_value s + hex_digit_value c"
  by (simp add: hex_value_def)

lemma foldl_hex: "foldl (\<lambda>n c. 16 * n + hex_digit_value c) k s = k * 16 ^ length s + hex_value s"
proof (induction s arbitrary: k rule: rev_induct)
  case Nil
  then show ?case by (simp add: hex_value_def)
next
  case (snoc c s)
  then show ?case by (simp add: hex_value_append del: hex_digit_value.simps)
qed

lemma hex_value_Cons: "hex_value (c # s) = hex_digit_value c * 16 ^ length s + hex_value s"
  using foldl_hex [of "hex_digit_value c" s] by (simp add: hex_value_def del: hex_digit_value.simps)

lemma to_hex_digits_spec:
  assumes "unat v < 16 ^ (16 - length buf)" and "length buf \<le> 16"
  shows "hex_value (rev (to_hex_digits v buf)) = unat v * 16 ^ length buf + hex_value (rev buf)"
  using assms
proof (induction v buf rule: to_hex_digits.induct)
  case (1 v buf)
  show ?case
  proof (cases "v = 0")
    case True
    then show ?thesis by (simp add: to_hex_digits.simps [of 0])
  next
    case False
    have len: "length buf < 16"
    proof (rule ccontr)
      assume "\<not> length buf < 16"
      with "1.prems" False show False by (simp add: unat_eq_zero)
    qed
    let ?d = "kHexDigits ! unat (v AND 0xF)"
    have "16 - length buf = Suc (16 - length (buf @ [?d]))" using len by simp
    then have "unat v < 16 ^ (16 - length (buf @ [?d])) * 16" using "1.prems"(1) by simp
    then have "unat v div 16 < 16 ^ (16 - length (buf @ [?d]))"
      by (simp add: less_mult_imp_div_less)
    then have small: "unat (drop_bit 4 v) < 16 ^ (16 - length (buf @ [?d]))"
      by (simp only: unat_drop_4)
    have "hex_value (rev (to_hex_digits (drop_bit 4 v) (buf @ [?d]))) =
        unat (drop_bit 4 v) * 16 ^ length (buf @ [?d]) + hex_value (rev (buf @ [?d]))"
      using False len small by (intro "1.IH") (auto simp: word_gt_0)
    also have "\<dots> = (unat v div 16 * 16 + unat v mod 16) * 16 ^ length buf + hex_value (rev buf)"
      by (simp only: unat_drop_4 nibble_unat rev_append rev.simps append.simps hex_value_Cons
          hex_digit_value_digit mod_less_divisor zero_less_numeral length_rev length_append_singleton
          power_Suc add_mult_distrib mult.assoc add.assoc)
    also have "\<dots> = unat v * 16 ^ length buf + hex_value (rev buf)" by simp
    finally show ?thesis using False len by (simp add: to_hex_digits.simps [of v] word_gt_0)
  qed
qed

lemma hex_value_pad: "hex_value (rev (to_hex_pad m buf)) = hex_value (rev buf)"
proof (induction m buf rule: to_hex_pad.induct)
  case (1 m buf)
  show ?case
  proof (cases "int (length buf) < m \<and> length buf < 16")
    case True
    with 1 show ?thesis by (simp add: to_hex_pad.simps [of m buf] hex_value_Cons)
  next
    case False
    then show ?thesis by (subst to_hex_pad.simps) (simp only: if_False)
  qed
qed

lemma to_hex_value: "take 2 (to_hex v m) = ''0x'' \<and> hex_value (drop 2 (to_hex v m)) = unat v"
proof -
  have "unat v < 2 ^ 64" using unsigned_less [of v] by simp
  then have "unat v < 16 ^ (16 - length ([] :: string))" by simp
  then have "hex_value (rev (to_hex_digits v [])) = unat v"
    using to_hex_digits_spec [of v "[]"] by (simp add: hex_value_def)
  then show ?thesis
    by (simp add: to_hex_def hex_value_pad) (simp add: hex_value_def)
qed

section \<open>Escaping\<close>

fun unescape :: "string \<Rightarrow> bytes" where
  "unescape [] = []"
| "unescape [c] = [byte_of_char c]"
| "unescape (c # d # s) =
     (if c \<noteq> CHR 0x5C then byte_of_char c # unescape (d # s)
      else if d = CHR 0x5C then byte_of_char (CHR 0x5C) # unescape s
      else case s of
        h # l # rest \<Rightarrow> of_nat (16 * hex_digit_value h + hex_digit_value l) # unescape rest
      | _ \<Rightarrow> [])"

definition escape_of :: "u8 \<Rightarrow> string" where
  "escape_of c = escape_byte [] c"

lemma escape_byte_append: "escape_byte out c = out @ escape_of c"
  by (simp add: escape_of_def escape_byte_def append_hex_byte_def)

lemma escape_concat: "escape s = concat (map escape_of (bytes_of_string s))"
proof -
  have "foldl escape_byte out bs = out @ concat (map escape_of bs)" for out bs
    by (induction bs arbitrary: out) (simp_all add: escape_byte_append)
  then show ?thesis by (simp add: escape_def)
qed

lemma unescape_plain: "c \<noteq> CHR 0x5C \<Longrightarrow> unescape (c # s) = byte_of_char c # unescape s"
  by (cases s) simp_all

lemma unescape_escape_of: "unescape (escape_of c @ s) = c # unescape s"
proof -
  consider "c = byte_of_char (CHR 0x5C)" | "c \<noteq> byte_of_char (CHR 0x5C)" "0x20 \<le> c" "c < 0x7F"
    | "c \<noteq> byte_of_char (CHR 0x5C)" "\<not> (0x20 \<le> c \<and> c < 0x7F)" by blast
  then show ?thesis
  proof cases
    case 1
    then show ?thesis by (simp add: escape_of_def escape_byte_def)
  next
    case 2
    then have "char_of_byte c \<noteq> CHR 0x5C" by (metis byte_of_char_of_byte)
    with 2 show ?thesis by (simp add: escape_of_def escape_byte_def unescape_plain)
  next
    case 3
    have hi: "unat c div 16 < 16" by (simp add: less_mult_imp_div_less)
    have "16 * (unat c div 16) + unat c mod 16 = unat c" by simp
    then have "of_nat (16 * (unat c div 16) + unat c mod 16) = c"
      by (simp only: of_nat_unat ucast_id)
    then have "16 * of_nat (unat c div 16) + of_nat (unat c mod 16) = c" by (simp only: of_nat_add of_nat_mult of_nat_numeral)
    moreover have "escape_of c =
        [CHR 0x5C, CHR ''x'', kHexDigits ! (unat c div 16), kHexDigits ! (unat c mod 16)]"
      using 3 by (simp add: escape_of_def escape_byte_def append_hex_byte_def nibble_unat unat_drop_4 hi)
    ultimately show ?thesis
      by (simp add: hex_digit_value_digit hi del: hex_digit_value.simps)
  qed
qed

lemma unescape_escape: "unescape (escape s) = bytes_of_string s"
proof -
  have "unescape (concat (map escape_of bs) @ t) = bs @ unescape t" for bs t
    by (induction bs) (simp_all add: unescape_escape_of)
  from this [of "bytes_of_string s" "[]"] show ?thesis by (simp add: escape_concat)
qed

end
