(* ===== verification/Stream_Decoder.thy ===== *)
theory Stream_Decoder
  imports Reassembler Stream_State Hexdump
begin

text \<open>
  \<^verbatim>\<open>streamcodec::decode\<close> (\<^verbatim>\<open>src/streamcodec/decoder.cpp\<close>) and \<^verbatim>\<open>summarize\<close>
  (\<^verbatim>\<open>src/streamcodec/summarize.cpp\<close>) with the result type of \<^verbatim>\<open>include/streamcodec/streamcodec.hpp\<close>.
  A decode has three outcomes: \<open>Some (Inr result)\<close>, \<open>Some (Inl error)\<close> for a thrown \<^verbatim>\<open>ParseError\<close>, and
  \<open>None\<close> when the reassembler leaves the bounds of its store. The theory shows the round trip with
  the encoder, that a stream without RESET frames always has a defined outcome, and that one with a
  RESET may not.
\<close>

record control_record =
  cr_stream_id :: u16
  cr_ref_msg_id :: u32
  cr_window :: u32

record ack_record =
  ar_stream_id :: u16
  ar_msg_id :: u32

record decode_result =
  dr_messages :: "message list"
  dr_stats :: "stream_stats list"
  dr_controls :: "control_record list"
  dr_acks :: "ack_record list"
  dr_frames_seen :: nat
  dr_control_frames :: nat
  dr_ack_frames :: nat
  dr_reset_frames :: nat
  dr_header_crc_ok :: nat
  dr_header_crc_bad :: nat

definition decode_result_new :: decode_result where
  "decode_result_new =
     \<lparr>dr_messages = [], dr_stats = [], dr_controls = [], dr_acks = [], dr_frames_seen = 0,
      dr_control_frames = 0, dr_ack_frames = 0, dr_reset_frames = 0, dr_header_crc_ok = 0,
      dr_header_crc_bad = 0\<rparr>"

text \<open>The two guarded reads of a CONTROL payload; a guarded read cannot throw.\<close>

definition read_if4 :: "byte_reader \<Rightarrow> u32 \<times> byte_reader" where
  "read_if4 r =
     (if 4 \<le> rd_remaining r
      then case read_u32be r of Inr (v, r') \<Rightarrow> (v, r') | Inl e \<Rightarrow> (0, r)
      else (0, r))"

definition parse_control :: "frame \<Rightarrow> control_record" where
  "parse_control f =
     (let (ref_msg_id, r) = read_if4 (byte_reader_new (f_payload f));
          (window, r) = read_if4 r
      in \<lparr>cr_stream_id = f_stream_id f, cr_ref_msg_id = ref_msg_id, cr_window = window\<rparr>)"

record decoder_state =
  ds_result :: decode_result
  ds_reassembler :: reassembler
  ds_streams :: stream_table

definition decoder_state_new :: decoder_state where
  "decoder_state_new =
     \<lparr>ds_result = decode_result_new, ds_reassembler = reassembler_new, ds_streams = []\<rparr>"

text \<open>The body of the frame loop.\<close>

definition tally_frame :: "frame \<Rightarrow> decode_result \<Rightarrow> decode_result" where
  "tally_frame f res =
     (let res = res\<lparr>dr_frames_seen := dr_frames_seen res + 1\<rparr>
      in if f_has_crc f
         then if f_crc_ok f then res\<lparr>dr_header_crc_ok := dr_header_crc_ok res + 1\<rparr>
              else res\<lparr>dr_header_crc_bad := dr_header_crc_bad res + 1\<rparr>
         else res)"

definition decode_frame :: "frame \<Rightarrow> decoder_state \<Rightarrow> decoder_state option" where
  "decode_frame f st =
     (let res = tally_frame f (ds_result st);
          streams = st_observe (f_stream_id f) (f_seq f) (ds_streams st)
      in case f_type f of
           kData \<Rightarrow>
             (case accept_data f (ds_reassembler st) of
                None \<Rightarrow> None
              | Some (out, ra) \<Rightarrow>
                  Some \<lparr>ds_result =
                          (case out of None \<Rightarrow> res
                           | Some msg \<Rightarrow> res\<lparr>dr_messages := dr_messages res @ [msg]\<rparr>),
                        ds_reassembler = ra, ds_streams = streams\<rparr>)
         | kControl \<Rightarrow>
             Some \<lparr>ds_result = res\<lparr>dr_control_frames := dr_control_frames res + 1,
                                   dr_controls := dr_controls res @ [parse_control f]\<rparr>,
                   ds_reassembler = ds_reassembler st, ds_streams = streams\<rparr>
         | kAck \<Rightarrow>
             Some \<lparr>ds_result = res\<lparr>dr_ack_frames := dr_ack_frames res + 1,
                                   dr_acks := dr_acks res @
                                     [\<lparr>ar_stream_id = f_stream_id f, ar_msg_id = f_msg_id f\<rparr>]\<rparr>,
                   ds_reassembler = ds_reassembler st, ds_streams = streams\<rparr>
         | kReset \<Rightarrow>
             Some \<lparr>ds_result = res\<lparr>dr_reset_frames := dr_reset_frames res + 1\<rparr>,
                   ds_reassembler = snd (reset_stream (f_stream_id f) (ds_reassembler st)),
                   ds_streams = note_reset (f_stream_id f) streams\<rparr>)"

text \<open>The loop ends because every frame consumes at least one byte.\<close>

function decode_loop :: "bool \<Rightarrow> byte_reader \<Rightarrow> decoder_state \<Rightarrow> decoder_state result option" where
  "decode_loop first r st =
     (if rd_eof r then Some (Inr st)
      else case frame_next first r of
        Inl e \<Rightarrow> Some (Inl e)
      | Inr (f, r') \<Rightarrow>
          (case decode_frame f st of
             None \<Rightarrow> None
           | Some st' \<Rightarrow> decode_loop False r' st'))"
  by pat_completeness auto
termination
proof (relation "measure (\<lambda>(first, r, st). rd_size r - rd_pos r)")
  fix first r st p f r' st'
  assume "\<not> rd_eof r" "frame_next first r = Inr p" "(f, r') = p"
  then have ok: "frame_next first r = Inr (f, r')" "rd_pos r < rd_size r" by (auto simp: rd_eof_def)
  have "rd_size r' = rd_size r" using frame_op.data_kept [OF ok(1)] by (simp add: rd_size_def)
  then show "((False, r', st'), (first, r, st)) \<in> measure (\<lambda>(first, r, st). rd_size r - rd_pos r)"
    using frame_op.advances [OF ok(1)] ok(2) by simp
qed simp

declare decode_loop.simps [simp del]

definition decode :: "bytes \<Rightarrow> decode_result result option" where
  "decode data =
     (if data = [] then Some (Inr decode_result_new)
      else map_option
             (map_sum id (\<lambda>st. (ds_result st)\<lparr>dr_stats := snapshot (ds_streams st)\<rparr>))
             (decode_loop True (byte_reader_new data) decoder_state_new))"

section \<open>The summary\<close>

definition preview :: "bytes \<Rightarrow> nat \<Rightarrow> string" where
  "preview data limit =
     (let n = (if length data < limit then length data else limit);
          out = foldl (\<lambda>out i. (if i \<noteq> 0 then out @ '' '' else out) @ to_hex (ucast (data ! i)) 2) [] [0..<n]
      in if limit < length data then out @ '' ...'' else out)"

definition nl :: string where
  "nl = [CHR 0x0A]"

definition summarize_message :: "message \<Rightarrow> string" where
  "summarize_message m =
     ''  stream '' @ dec_of_nat (unat (m_stream_id m)) @ '' msg '' @ dec_of_nat (unat (m_msg_id m)) @
     '' size '' @ dec_of_nat (length (m_data m)) @ (if m_compressed m then '' [compressed]'' else '''') @
     nl @ ''    bytes: '' @ preview (m_data m) 16 @ nl"

definition summarize_stats :: "stream_stats \<Rightarrow> string" where
  "summarize_stats s =
     ''  id '' @ dec_of_nat (unat (ss_stream_id s)) @ '' frames='' @ dec_of_nat (ss_frames s) @
     '' gaps='' @ dec_of_nat (ss_gaps s) @ '' dups='' @ dec_of_nat (ss_duplicates s) @
     '' resets='' @ dec_of_nat (ss_resets s) @ nl"

definition summarize_control :: "control_record \<Rightarrow> string" where
  "summarize_control c =
     ''  stream '' @ dec_of_nat (unat (cr_stream_id c)) @ '' ref_msg='' @ dec_of_nat (unat (cr_ref_msg_id c)) @
     '' window='' @ dec_of_nat (unat (cr_window c)) @ nl"

definition summarize_ack :: "ack_record \<Rightarrow> string" where
  "summarize_ack a =
     ''  stream '' @ dec_of_nat (unat (ar_stream_id a)) @ '' msg '' @ dec_of_nat (unat (ar_msg_id a)) @ nl"

definition summarize_decode :: "decode_result \<Rightarrow> string" where
  "summarize_decode r =
     ''streamcodec decode'' @ nl @
     ''  frames seen      : '' @ dec_of_nat (dr_frames_seen r) @ nl @
     ''  messages emitted : '' @ dec_of_nat (length (dr_messages r)) @ nl @
     ''  control frames   : '' @ dec_of_nat (dr_control_frames r) @ nl @
     ''  ack frames       : '' @ dec_of_nat (dr_ack_frames r) @ nl @
     ''  reset frames     : '' @ dec_of_nat (dr_reset_frames r) @ nl @
     ''  header crc ok    : '' @ dec_of_nat (dr_header_crc_ok r) @ nl @
     ''  header crc bad   : '' @ dec_of_nat (dr_header_crc_bad r) @ nl @
     ''messages:'' @ nl @ concat (map summarize_message (dr_messages r)) @
     ''streams:'' @ nl @ concat (map summarize_stats (dr_stats r)) @
     (if dr_controls r \<noteq> [] then ''controls:'' @ nl @ concat (map summarize_control (dr_controls r)) else []) @
     (if dr_acks r \<noteq> [] then ''acks:'' @ nl @ concat (map summarize_ack (dr_acks r)) else [])"

section \<open>Decoding a sequence of encoded frames\<close>

text \<open>The loop over the frames themselves; \<open>None\<close> is the undefined outcome.\<close>

fun decode_frames :: "frame list \<Rightarrow> decoder_state \<Rightarrow> decoder_state option" where
  "decode_frames [] st = Some st"
| "decode_frames (f # fs) st =
     (case decode_frame f st of None \<Rightarrow> None | Some st' \<Rightarrow> decode_frames fs st')"

lemma decode_frames_append:
  "decode_frames (fs @ gs) st =
     (case decode_frames fs st of None \<Rightarrow> None | Some st' \<Rightarrow> decode_frames gs st')"
  by (induction fs arbitrary: st) (auto split: option.splits)

text \<open>The position of a frame in its buffer plays no part in decoding it.\<close>

lemma offset_irrelevant:
  "frag_begin (f\<lparr>f_header_offset := off\<rparr>) = frag_begin f"
  "frag_end (f\<lparr>f_header_offset := off\<rparr>) = frag_end f"
  "fin (f\<lparr>f_header_offset := off\<rparr>) = fin f"
  "compressed (f\<lparr>f_header_offset := off\<rparr>) = compressed f"
  "f_type (f\<lparr>f_header_offset := off\<rparr>) = f_type f"
  "f_stream_id (f\<lparr>f_header_offset := off\<rparr>) = f_stream_id f"
  "f_msg_id (f\<lparr>f_header_offset := off\<rparr>) = f_msg_id f"
  "f_seq (f\<lparr>f_header_offset := off\<rparr>) = f_seq f"
  "f_has_crc (f\<lparr>f_header_offset := off\<rparr>) = f_has_crc f"
  "f_crc_ok (f\<lparr>f_header_offset := off\<rparr>) = f_crc_ok f"
  "f_payload (f\<lparr>f_header_offset := off\<rparr>) = f_payload f"
  by (simp_all add: frag_begin_def frag_end_def frag_def fin_def compressed_def)

lemma accept_fragment_offset: "accept_fragment (f\<lparr>f_header_offset := off\<rparr>) = accept_fragment f"
  unfolding accept_fragment_def place_payload_def offset_irrelevant ..

lemma accept_data_offset: "accept_data (f\<lparr>f_header_offset := off\<rparr>) = accept_data f"
  unfolding accept_data_def accept_fragment_offset offset_irrelevant ..

lemma decode_frame_offset: "decode_frame (f\<lparr>f_header_offset := off\<rparr>) = decode_frame f"
  unfolding decode_frame_def accept_data_offset tally_frame_def parse_control_def
    offset_irrelevant ..

lemma frame_of_spec_offset: "frame_of_spec off spec = (frame_of_spec 0 spec)\<lparr>f_header_offset := off\<rparr>"
  by (simp add: frame_of_spec_def)

lemma decode_loop_encoded:
  "decode_loop first (rd_at pre (concat (map (encode_frame []) specs))) st =
     map_option Inr (decode_frames (map (frame_of_spec 0) specs) st)"
proof (induction specs arbitrary: first pre st)
  case Nil
  then show ?case by (simp add: decode_loop.simps)
next
  case (Cons spec specs)
  have ne: "encode_frame [] spec \<noteq> []" by (simp add: encode_frame_alt spec_header_fields)
  have "decode_frame (frame_of_spec (length pre) spec) st = decode_frame (frame_of_spec 0 spec) st"
    by (subst frame_of_spec_offset) (simp only: decode_frame_offset)
  then show ?case
    using ne Cons.IH
    by (subst decode_loop.simps) (simp add: frame_next_encoded split: option.splits)
qed

lemma decode_encoded:
  "decode (concat (map (encode_frame []) specs)) =
     map_option (\<lambda>st. Inr ((ds_result st)\<lparr>dr_stats := snapshot (ds_streams st)\<rparr>))
       (decode_frames (map (frame_of_spec 0) specs) decoder_state_new)"
proof (cases specs)
  case Nil
  then show ?thesis by (simp add: decode_def decoder_state_new_def decode_result_new_def snapshot_def)
next
  case (Cons spec specs')
  then have "concat (map (encode_frame []) specs) \<noteq> []"
    by (simp add: encode_frame_alt spec_header_fields)
  then show ?thesis
    by (simp add: decode_def rd_at_new decode_loop_encoded option.map_comp o_def del: concat_eq_Nil_conv)
qed

section \<open>A message sent by the encoder arrives\<close>

definition frame_key :: "frame \<Rightarrow> msg_key" where
  "frame_key f = (f_stream_id f, f_msg_id f)"

definition current :: "msg_key \<Rightarrow> decoder_state \<Rightarrow> partial_message" where
  "current key st =
     (case ra_abs (ds_reassembler st) key of None \<Rightarrow> fresh_partial key | Some p \<Rightarrow> p)"

definition observe_frame :: "frame \<Rightarrow> stream_table \<Rightarrow> stream_table" where
  "observe_frame f = st_observe (f_stream_id f) (f_seq f)"

lemma data_frame_step:
  assumes inv: "ra_inv (ds_reassembler st)" and "f_type f = kData"
  defines "p \<equiv> accept_fragment f (current (frame_key f) st)"
  obtains ra' where "ra_inv ra'"
    and "decode_frame f st =
      Some \<lparr>ds_result =
              (if is_complete p
               then (tally_frame f (ds_result st))\<lparr>dr_messages := dr_messages (tally_frame f (ds_result st)) @
                 [\<lparr>m_stream_id = f_stream_id f, m_msg_id = f_msg_id f, m_compressed = p_compressed p,
                   m_data = take (p_total_len p) (p_buffer p)\<rparr>]\<rparr>
               else tally_frame f (ds_result st)),
            ds_reassembler = ra', ds_streams = observe_frame f (ds_streams st)\<rparr>"
    and "\<not> is_complete p \<Longrightarrow> ra_abs ra' (frame_key f) = Some p"
proof -
  obtain out ra' where r: "accept_data f (ds_reassembler st) = Some (out, ra')" "ra_inv ra'"
    "accept_abs f (ra_abs (ds_reassembler st)) = (out, ra_abs ra')"
    using accept_data_refines [OF inv] by blast
  have p: "accept_fragment f (case ra_abs (ds_reassembler st) (f_stream_id f, f_msg_id f) of
      None \<Rightarrow> fresh_partial (f_stream_id f, f_msg_id f) | Some p \<Rightarrow> p) = p"
    by (simp add: p_def current_def frame_key_def)
  show thesis
  proof (rule that)
    show "ra_inv ra'" by (rule r(2))
    show "decode_frame f st =
      Some \<lparr>ds_result =
              (if is_complete p
               then (tally_frame f (ds_result st))\<lparr>dr_messages := dr_messages (tally_frame f (ds_result st)) @
                 [\<lparr>m_stream_id = f_stream_id f, m_msg_id = f_msg_id f, m_compressed = p_compressed p,
                   m_data = take (p_total_len p) (p_buffer p)\<rparr>]\<rparr>
               else tally_frame f (ds_result st)),
            ds_reassembler = ra', ds_streams = observe_frame f (ds_streams st)\<rparr>"
      using r(1,3) assms(2) unfolding accept_abs_def Let_def p
      by (auto simp: decode_frame_def Let_def observe_frame_def split: if_splits)
    show "ra_abs ra' (frame_key f) = Some p" if "\<not> is_complete p"
    proof -
      have "ra_abs ra' = (ra_abs (ds_reassembler st))(frame_key f \<mapsto> p)"
        using r(3) that unfolding accept_abs_def Let_def p by (auto simp: frame_key_def)
      then show ?thesis by simp
    qed
  qed
qed

lemma data_run_incomplete:
  assumes "ra_inv (ds_reassembler st)"
    and "\<forall>f \<in> set fs. f_type f = kData \<and> frame_key f = key"
    and "\<And>j. 0 < j \<Longrightarrow> j \<le> length fs \<Longrightarrow>
      \<not> is_complete (fold accept_fragment (take j fs) (current key st))"
  shows "\<exists>st'. decode_frames fs st = Some st' \<and> ra_inv (ds_reassembler st') \<and>
     current key st' = fold accept_fragment fs (current key st) \<and>
     ds_result st' = fold tally_frame fs (ds_result st) \<and>
     ds_streams st' = fold observe_frame fs (ds_streams st)"
  using assms
proof (induction fs arbitrary: st)
  case Nil
  then show ?case by simp
next
  case (Cons f fs)
  let ?p = "accept_fragment f (current key st)"
  have f: "f_type f = kData" "frame_key f = key" using Cons.prems(2) by auto
  have inc: "\<not> is_complete ?p" using Cons.prems(3) [of 1] by simp
  obtain ra' where ra: "ra_inv ra'" "ra_abs ra' key = Some ?p"
    "decode_frame f st = Some \<lparr>ds_result = tally_frame f (ds_result st), ds_reassembler = ra',
       ds_streams = observe_frame f (ds_streams st)\<rparr>"
    using data_frame_step [OF Cons.prems(1) f(1)] inc f(2) by auto
  let ?st = "\<lparr>ds_result = tally_frame f (ds_result st), ds_reassembler = ra',
       ds_streams = observe_frame f (ds_streams st)\<rparr>"
  have cur: "current key ?st = ?p" using ra(2) by (simp add: current_def)
  have "\<exists>st'. decode_frames fs ?st = Some st' \<and> ra_inv (ds_reassembler st') \<and>
     current key st' = fold accept_fragment fs (current key ?st) \<and>
     ds_result st' = fold tally_frame fs (ds_result ?st) \<and>
     ds_streams st' = fold observe_frame fs (ds_streams ?st)"
  proof (rule Cons.IH)
    show "ra_inv (ds_reassembler ?st)" using ra(1) by simp
    show "\<forall>f \<in> set fs. f_type f = kData \<and> frame_key f = key" using Cons.prems(2) by simp
    show "\<not> is_complete (fold accept_fragment (take j fs) (current key ?st))"
      if "0 < j" "j \<le> length fs" for j
      using Cons.prems(3) [of "Suc j"] that cur by simp
  qed
  then show ?case using ra(3) cur by auto
qed

text \<open>The fragments the encoder makes of a payload.\<close>

definition enc_frame :: "u16 \<Rightarrow> u32 \<Rightarrow> bytes \<Rightarrow> nat \<Rightarrow> u16 \<Rightarrow> bool \<Rightarrow> bool \<Rightarrow> nat \<Rightarrow> frame" where
  "enc_frame sid mid P mx seq packed crc i =
     frame_of_spec 0 (fragment_spec sid mid P (fragment_size mx) seq packed crc (fragment_count mx P) i)"

lemma flag_powers: "kFlagFin = 2 ^ 0" "kFlagFrag = 2 ^ 1" "kFlagCompressed = 2 ^ 2" "kFlagHasCrc = 2 ^ 3"
  by (simp_all add: kFlagFin_def kFlagFrag_def kFlagCompressed_def kFlagHasCrc_def)

lemma spec_flag_bits:
  "n < 3 \<Longrightarrow> bit (spec_flags spec) n = bit (s_flags spec) n"
  unfolding spec_flags_def flag_powers
  by (auto simp: bit_or_iff bit_and_iff bit_not_iff bit_exp_iff simp del: power_numeral
      dest: bit_imp_le_length)

lemma fragment_spec_bits:
  "bit (s_flags (fragment_spec sid mid P m seq packed crc n i)) 0 \<longleftrightarrow> i + 1 = n"
  "bit (s_flags (fragment_spec sid mid P m seq packed crc n i)) 1 \<longleftrightarrow> 1 < n"
  "bit (s_flags (fragment_spec sid mid P m seq packed crc n i)) 2 \<longleftrightarrow> packed"
  by (simp_all add: fragment_spec_def bit_or_iff kFlagFin_def kFlagFrag_def kFlagCompressed_def)

lemma enc_frame_flags:
  "fin (enc_frame sid mid P mx seq packed crc i) \<longleftrightarrow> i + 1 = fragment_count mx P"
  "frag (enc_frame sid mid P mx seq packed crc i) \<longleftrightarrow> 1 < fragment_count mx P"
  "compressed (enc_frame sid mid P mx seq packed crc i) \<longleftrightarrow> packed"
proof -
  have f: "f_flags (enc_frame sid mid P mx seq packed crc i) =
      spec_flags (fragment_spec sid mid P (fragment_size mx) seq packed crc (fragment_count mx P) i)"
    by (simp add: enc_frame_def frame_of_spec_def)
  show "fin (enc_frame sid mid P mx seq packed crc i) \<longleftrightarrow> i + 1 = fragment_count mx P"
    "frag (enc_frame sid mid P mx seq packed crc i) \<longleftrightarrow> 1 < fragment_count mx P"
    "compressed (enc_frame sid mid P mx seq packed crc i) \<longleftrightarrow> packed"
    unfolding fin_def frag_def compressed_def f flag_powers and_exp_eq_0_bit
    by (simp_all add: spec_flag_bits fragment_spec_bits del: One_nat_def)
qed

lemma enc_frame_fields:
  "f_type (enc_frame sid mid P mx seq packed crc i) = kData"
  "frame_key (enc_frame sid mid P mx seq packed crc i) = (sid, mid)"
  "f_seq (enc_frame sid mid P mx seq packed crc i) = seq + of_nat i"
  "f_has_crc (enc_frame sid mid P mx seq packed crc i) = crc"
  "f_crc_ok (enc_frame sid mid P mx seq packed crc i) = crc"
  by (simp_all add: enc_frame_def frame_of_spec_def fragment_spec_def frame_key_def)

lemma enc_frame_payload:
  "f_payload (enc_frame sid mid P mx seq packed crc i) =
     take (fragment_size mx) (drop (i * fragment_size mx) P)"
  by (simp add: enc_frame_def frame_of_spec_def fragment_spec_def spec_payload_def min_absorb2)

lemma enc_frame_begin:
  assumes "i < fragment_count mx P" and "length P \<le> 0xFFFFFFFF"
  shows "frag_begin (enc_frame sid mid P mx seq packed crc i) = i * fragment_size mx"
    and "i * fragment_size mx \<le> length P"
proof -
  show le: "i * fragment_size mx \<le> length P"
  proof (cases "P = []")
    case True
    with assms(1) show ?thesis by (simp add: fragment_count_def)
  next
    case False
    have "i * fragment_size mx \<le> (fragment_count mx P - 1) * fragment_size mx"
      using assms(1) by (intro mult_le_mono1) simp
    with fragment_count_bounds(2) [OF False, of mx] show ?thesis by linarith
  qed
  show "frag_begin (enc_frame sid mid P mx seq packed crc i) = i * fragment_size mx"
  proof (cases "1 < fragment_count mx P")
    case True
    have "f_frag_offset (enc_frame sid mid P mx seq packed crc i) = of_nat (i * fragment_size mx)"
      using le by (simp add: enc_frame_def frame_of_spec_def fragment_spec_def min_absorb1)
    moreover have "i * fragment_size mx < 2 ^ 32" using le assms(2) by simp
    ultimately show ?thesis using True
      by (simp only: frag_begin_def enc_frame_flags if_True unat_of_nat) simp
  next
    case False
    then have "i = 0" using assms(1) by simp
    with False show ?thesis by (simp add: frag_begin_def enc_frame_flags)
  qed
qed

lemma enc_frame_slice:
  assumes i: "i < fragment_count mx P" and len: "length P \<le> 0xFFFFFFFF"
  shows "slice_of P (enc_frame sid mid P mx seq packed crc i)"
proof -
  let ?m = "fragment_size mx"
  have "i * ?m + ?m \<ge> length P" if "i + 1 = fragment_count mx P"
  proof (cases "P = []")
    case False
    have "(i + 1) * ?m \<ge> length P" using fragment_count_bounds(1) [OF False, of mx] that by simp
    then show ?thesis by simp
  qed simp
  moreover have "take (min (length P - i * ?m) ?m) (drop (i * ?m) P) = take ?m (drop (i * ?m) P)"
    by (cases "?m \<le> length P - i * ?m") simp_all
  ultimately show ?thesis
    using enc_frame_begin(1) [OF i len, of sid mid seq packed crc] enc_frame_begin(2) [OF i len]
    by (auto simp: slice_of_def enc_frame_payload enc_frame_flags)
qed

lemma enc_frames_cover:
  assumes "length P \<le> 0xFFFFFFFF"
  shows "{0..<length P} \<subseteq> (\<Union>i \<in> {0..<fragment_count mx P}.
     {frag_begin (enc_frame sid mid P mx seq packed crc i)..<
      frag_begin (enc_frame sid mid P mx seq packed crc i) +
      length (f_payload (enc_frame sid mid P mx seq packed crc i))})"
proof
  fix x assume "x \<in> {0..<length P}"
  then have x: "x < length P" by simp
  let ?m = "fragment_size mx" and ?i = "x div fragment_size mx"
  have "P \<noteq> []" using x by auto
  then have "x < fragment_count mx P * ?m"
    using fragment_count_bounds(1) [of P mx] x by linarith
  then have i: "?i < fragment_count mx P" by (simp add: less_mult_imp_div_less)
  have "x = ?i * ?m + x mod ?m" "x mod ?m < ?m" by simp_all
  then have "?i * ?m \<le> x" "x < ?i * ?m + ?m" by linarith+
  with i x enc_frame_begin(1) [OF i assms, of sid mid seq packed crc]
  show "x \<in> (\<Union>i \<in> {0..<fragment_count mx P}.
     {frag_begin (enc_frame sid mid P mx seq packed crc i)..<
      frag_begin (enc_frame sid mid P mx seq packed crc i) +
      length (f_payload (enc_frame sid mid P mx seq packed crc i))})"
    by (intro UN_I [of ?i]) (auto simp: enc_frame_payload)
qed

lemma fold_compressed:
  "p_compressed (fold accept_fragment fs p) \<longleftrightarrow> p_compressed p \<or> (\<exists>f \<in> set fs. compressed f)"
  by (induction fs arbitrary: p) (auto simp: accept_fragment_fields)

lemma fold_tally:
  assumes "\<forall>f \<in> set fs. f_has_crc f = c \<and> f_crc_ok f = c"
  shows "fold tally_frame fs res =
     res\<lparr>dr_frames_seen := dr_frames_seen res + length fs,
         dr_header_crc_ok := dr_header_crc_ok res + (if c then length fs else 0)\<rparr>"
  using assms
proof (induction fs arbitrary: res)
  case Nil
  then show ?case by simp
next
  case (Cons f fs)
  then show ?case by (auto simp: tally_frame_def Let_def)
qed

text \<open>The stream table after consecutive sequence numbers: no gap and no duplicate.\<close>

lemma consecutive_pairs:
  "seq_pairs (Some (s + of_nat k)) (map (\<lambda>i. Observe sid (s + of_nat i)) [Suc k..<n]) =
     map (\<lambda>i. (s + of_nat i, s + of_nat i + 1)) [k..<n - 1]"
proof (induction "n - k" arbitrary: k)
  case 0
  then show ?case by simp
next
  case (Suc d)
  show ?case
  proof (cases "Suc k < n")
    case True
    then have "[Suc k..<n] = Suc k # [Suc (Suc k)..<n]" "[k..<n - 1] = k # [Suc k..<n - 1]"
      by (simp_all add: upt_conv_Cons)
    with Suc.hyps(1) [of "Suc k"] Suc.hyps(2) show ?thesis by (simp add: algebra_simps)
  next
    case False
    then show ?thesis by simp
  qed
qed

lemma om_singleton: "om_ok m \<Longrightarrow> fst ` set m = {k} \<Longrightarrow> \<exists>v. m = [(k, v)]"
proof -
  assume ok: "om_ok m" and keys: "fst ` set m = {k}"
  then obtain e m' where m: "m = e # m'" by (cases m) auto
  have "m' = []"
  proof (rule ccontr)
    assume "m' \<noteq> []"
    then obtain e' where e': "e' \<in> set m'" by (cases m') auto
    with ok have "fst e < fst e'" by (auto simp: m om_ok_Cons)
    moreover have "fst e = k" "fst e' = k" using keys e' by (auto simp: m)
    ultimately show False by simp
  qed
  with m keys show "\<exists>v. m = [(k, v)]" by (cases e) auto
qed

lemma observe_fold:
  assumes "0 < n"
  shows "snapshot (fold st_apply (map (\<lambda>i. Observe sid (s + of_nat i)) [0..<n]) []) =
     [\<lparr>ss_stream_id = sid, ss_frames = n, ss_gaps = 0, ss_duplicates = 0, ss_resets = 0\<rparr>]"
proof -
  let ?es = "map (\<lambda>i. Observe sid (s + of_nat i)) [0..<n]"
  let ?t = "fold st_apply ?es []"
  have "?es = Observe sid s # map (\<lambda>i. Observe sid (s + of_nat i)) [Suc 0..<n]"
    using assms by (simp add: upt_conv_Cons)
  then have pairs: "seq_pairs None ?es = map (\<lambda>i. (s + of_nat i, s + of_nat i + 1)) [0..<n - 1]"
    using consecutive_pairs [of s 0 sid n] by simp
  have "fst ` set ?t = {sid}"
  proof -
    have "set (map fst (st_apply e t)) = insert (st_event_id e) (set (map fst t))" for e t
      by (cases e) (simp_all add: st_observe_def note_reset_def om_keys_insert del: set_map)
    then have "set (map fst (fold st_apply es t)) = st_event_id ` set es \<union> set (map fst t)" for es t
      by (induction es arbitrary: t) auto
    from this [of ?es "[]"] have "fst ` set ?t = (\<lambda>i. sid) ` {0..<n}" by (simp add: image_image)
    then show ?thesis using assms by auto
  qed
  moreover have ok: "om_ok ?t" by (rule st_machine.inv_run)
  ultimately obtain r where t: "?t = [(sid, r)]"
    using om_singleton by metis
  have "map_option ro_stats (om_lookup ?t sid) = Some (stats_of_history sid ?es)"
    using stats_history [of ?es sid] assms by (simp add: Let_def)
  then have "ro_stats r = stats_of_history sid ?es" by (simp add: t om_lookup_def)
  also have "\<dots> = \<lparr>ss_stream_id = sid, ss_frames = n, ss_gaps = 0, ss_duplicates = 0, ss_resets = 0\<rparr>"
    by (simp add: stats_of_history_def pairs is_observe_def filter_empty_conv)
  finally show ?thesis by (simp add: t snapshot_def)
qed

lemma decode_encoded_message:
  assumes len: "length P \<le> 0xFFFFFFFF"
  shows "decode (snd (encode_message [] sid mid P mx seq packed crc)) =
     Some (Inr \<lparr>dr_messages = [\<lparr>m_stream_id = sid, m_msg_id = mid, m_compressed = packed, m_data = P\<rparr>],
       dr_stats = [\<lparr>ss_stream_id = sid, ss_frames = fragment_count mx P, ss_gaps = 0, ss_duplicates = 0,
         ss_resets = 0\<rparr>],
       dr_controls = [], dr_acks = [], dr_frames_seen = fragment_count mx P, dr_control_frames = 0,
       dr_ack_frames = 0, dr_reset_frames = 0,
       dr_header_crc_ok = (if crc then fragment_count mx P else 0), dr_header_crc_bad = 0\<rparr>)"
proof -
  define n where "n = fragment_count mx P"
  define F where "F = enc_frame sid mid P mx seq packed crc"
  define key where "key = (sid, mid)"
  have n: "0 < n" by (simp add: n_def)
  let ?st = "decoder_state_new"
  have cur0: "current key ?st = fresh_partial key"
    by (simp add: current_def decoder_state_new_def)
  have inv0: "ra_inv (ds_reassembler ?st)" by (simp add: decoder_state_new_def)
  have slice: "slice_of P (F i)" if "i < n" for i
    using enc_frame_slice [OF _ len] that by (simp add: F_def n_def)
  have kd: "f_type (F i) = kData" "frame_key (F i) = key" "fin (F i) \<longleftrightarrow> i + 1 = n"
      "compressed (F i) \<longleftrightarrow> packed" for i
    by (simp_all add: F_def key_def n_def enc_frame_fields enc_frame_flags)
  have ag: "agrees P (fold accept_fragment (map F [0..<k]) (fresh_partial key))" if "k \<le> n" for k
    by (rule agrees_fold(1) [OF agrees_fresh _ len]) (use slice that in auto)
  have fin: "p_have_fin (fold accept_fragment (map F [0..<k]) (fresh_partial key)) \<longleftrightarrow> k = n" if "k \<le> n" for k
  proof -
    have "p_have_fin (fold accept_fragment (map F [0..<k]) (fresh_partial key)) \<longleftrightarrow>
        p_have_fin (fresh_partial key) \<or> (\<exists>f \<in> set (map F [0..<k]). fin f)"
      by (rule agrees_fold(3) [OF agrees_fresh _ len]) (use slice that in auto)
    moreover have "(\<exists>f \<in> set (map F [0..<k]). fin f) \<longleftrightarrow> k = n"
    proof
      assume "k = n"
      then show "\<exists>f \<in> set (map F [0..<k]). fin f"
        using n by (intro bexI [of _ "F (n - 1)"]) (auto simp: kd)
    qed (use that in \<open>auto simp: kd\<close>)
    ultimately show ?thesis by (simp add: fresh_partial_def)
  qed
  have run: "\<exists>st'. decode_frames (map F [0..<n - 1]) ?st = Some st' \<and> ra_inv (ds_reassembler st') \<and>
     current key st' = fold accept_fragment (map F [0..<n - 1]) (current key ?st) \<and>
     ds_result st' = fold tally_frame (map F [0..<n - 1]) (ds_result ?st) \<and>
     ds_streams st' = fold observe_frame (map F [0..<n - 1]) (ds_streams ?st)"
  proof (rule data_run_incomplete [OF inv0])
    show "\<forall>f \<in> set (map F [0..<n - 1]). f_type f = kData \<and> frame_key f = key" by (auto simp: kd)
    fix j assume j: "0 < j" "j \<le> length (map F [0..<n - 1])"
    then have "take j (map F [0..<n - 1]) = map F [0..<j]" by (simp add: take_map)
    moreover have "\<not> p_have_fin (fold accept_fragment (map F [0..<j]) (fresh_partial key))"
      using fin [of j] j by auto
    ultimately show "\<not> is_complete (fold accept_fragment (take j (map F [0..<n - 1])) (current key ?st))"
      by (simp add: is_complete_def cur0)
  qed
  then obtain st' where st': "decode_frames (map F [0..<n - 1]) ?st = Some st'"
    "ra_inv (ds_reassembler st')"
    "current key st' = fold accept_fragment (map F [0..<n - 1]) (fresh_partial key)"
    "ds_result st' = fold tally_frame (map F [0..<n - 1]) (ds_result ?st)"
    "ds_streams st' = fold observe_frame (map F [0..<n - 1]) (ds_streams ?st)"
    by (auto simp: cur0)
  have upt: "[0..<n] = [0..<n - 1] @ [n - 1]" using n by (metis Suc_diff_1 le0 upt_Suc_append)
  let ?p = "accept_fragment (F (n - 1)) (current key st')"
  have p: "?p = fold accept_fragment (map F [0..<n]) (fresh_partial key)"
    by (simp add: upt st'(3))
  have "cover (p_ranges ?p) = cover (p_ranges (fresh_partial key)) \<union>
      (\<Union>f \<in> set (map F [0..<n]). {frag_begin f..<frag_begin f + length (f_payload f)})"
    unfolding p by (rule agrees_fold(2) [OF agrees_fresh _ len]) (use slice in auto)
  then have cov: "{0..<length P} \<subseteq> cover (p_ranges ?p)"
    using enc_frames_cover [OF len, where mx = mx and sid = sid and mid = mid and seq = seq and
      packed = packed and crc = crc] by (auto simp: F_def n_def)
  have agp: "agrees P ?p" unfolding p by (rule ag) simp
  then have complete: "is_complete ?p"
    using cov fin [of n] agrees_complete [OF agp] p by simp
  have data: "take (p_total_len ?p) (p_buffer ?p) = P" by (rule agrees_data [OF agp complete])
  have cmp: "p_compressed ?p = packed"
    unfolding p using n by (auto simp: fold_compressed kd fresh_partial_def)
  obtain ra' where last: "decode_frame (F (n - 1)) st' =
      Some \<lparr>ds_result = (tally_frame (F (n - 1)) (ds_result st'))\<lparr>dr_messages :=
              dr_messages (tally_frame (F (n - 1)) (ds_result st')) @
              [\<lparr>m_stream_id = sid, m_msg_id = mid, m_compressed = packed, m_data = P\<rparr>]\<rparr>,
            ds_reassembler = ra', ds_streams = observe_frame (F (n - 1)) (ds_streams st')\<rparr>"
    using data_frame_step [OF st'(2) kd(1) [of "n - 1"]] complete data cmp kd(2) [of "n - 1"]
    by (auto simp: key_def frame_key_def)
  have tally: "tally_frame (F (n - 1)) (ds_result st') =
      decode_result_new\<lparr>dr_frames_seen := n, dr_header_crc_ok := (if crc then n else 0)\<rparr>"
  proof -
    have "tally_frame (F (n - 1)) (ds_result st') = fold tally_frame (map F [0..<n]) decode_result_new"
      by (simp add: upt st'(4) decoder_state_new_def)
    also have "\<dots> = decode_result_new\<lparr>dr_frames_seen := dr_frames_seen decode_result_new + length (map F [0..<n]),
        dr_header_crc_ok := dr_header_crc_ok decode_result_new + (if crc then length (map F [0..<n]) else 0)\<rparr>"
      by (rule fold_tally) (auto simp: F_def enc_frame_fields)
    finally show ?thesis by (simp add: decode_result_new_def)
  qed
  have streams: "snapshot (observe_frame (F (n - 1)) (ds_streams st')) =
      [\<lparr>ss_stream_id = sid, ss_frames = n, ss_gaps = 0, ss_duplicates = 0, ss_resets = 0\<rparr>]"
  proof -
    have obs: "observe_frame (F i) = st_apply (Observe sid (seq + of_nat i))" for i
    proof -
      have "f_stream_id (F i) = sid" using kd(2) [of i] by (simp add: frame_key_def key_def)
      then show ?thesis by (intro ext) (simp add: observe_frame_def F_def enc_frame_fields)
    qed
    have "observe_frame (F (n - 1)) (ds_streams st') = fold observe_frame (map F [0..<n]) []"
      by (simp add: upt st'(5) decoder_state_new_def)
    also have "\<dots> = fold st_apply (map (\<lambda>i. Observe sid (seq + of_nat i)) [0..<n]) []"
      by (simp add: fold_map o_def obs)
    finally show ?thesis using observe_fold [OF n] by simp
  qed
  have bytes: "snd (encode_message [] sid mid P mx seq packed crc) = concat (map (encode_frame [])
      (map (fragment_spec sid mid P (fragment_size mx) seq packed crc n) [0..<n]))"
    by (simp add: encode_message_alt n_def o_def)
  have frames: "map (frame_of_spec 0) (map (fragment_spec sid mid P (fragment_size mx) seq packed crc n) [0..<n]) =
      map F [0..<n - 1] @ [F (n - 1)]"
    using upt by (simp add: F_def enc_frame_def [abs_def] n_def)
  show ?thesis
    unfolding n_def [symmetric] bytes decode_encoded frames decode_frames_append st'(1)
      decode_frames.simps option.case last tally
    by (simp only: option.map decoder_state.select_convs streams) (simp add: decode_result_new_def)
qed

section \<open>Defined and undefined outcomes\<close>

text \<open>The frames the reader yields before the end of the input or the first error.\<close>

function frames_of :: "bool \<Rightarrow> byte_reader \<Rightarrow> frame list" where
  "frames_of first r =
     (if rd_eof r then []
      else case frame_next first r of Inl e \<Rightarrow> [] | Inr (f, r') \<Rightarrow> f # frames_of False r')"
  by pat_completeness auto
termination
proof (relation "measure (\<lambda>(first, r). rd_size r - rd_pos r)")
  fix first r p f r'
  assume "\<not> rd_eof r" "frame_next first r = Inr p" "(f, r') = p"
  then have ok: "frame_next first r = Inr (f, r')" "rd_pos r < rd_size r" by (auto simp: rd_eof_def)
  have "rd_size r' = rd_size r" using frame_op.data_kept [OF ok(1)] by (simp add: rd_size_def)
  then show "((False, r'), (first, r)) \<in> measure (\<lambda>(first, r). rd_size r - rd_pos r)"
    using frame_op.advances [OF ok(1)] ok(2) by simp
qed simp

declare frames_of.simps [simp del]

lemma decode_frame_no_reset:
  assumes "ra_inv (ds_reassembler st)" and "f_type f \<noteq> kReset"
  shows "\<exists>st'. decode_frame f st = Some st' \<and> ra_inv (ds_reassembler st')"
proof (cases "f_type f")
  case kData
  obtain out ra' where "accept_data f (ds_reassembler st) = Some (out, ra')" "ra_inv ra'"
    using accept_data_refines [OF assms(1)] by blast
  with kData show ?thesis by (simp add: decode_frame_def Let_def)
qed (use assms in \<open>simp_all add: decode_frame_def Let_def\<close>)

lemma decode_loop_defined:
  assumes "ra_inv (ds_reassembler st)" and "\<forall>f \<in> set (frames_of first r). f_type f \<noteq> kReset"
  shows "decode_loop first r st \<noteq> None"
  using assms
proof (induction first r st rule: decode_loop.induct)
  case (1 first r st)
  show ?case
  proof (cases "rd_eof r")
    case True
    then show ?thesis by (simp add: decode_loop.simps)
  next
    case nonempty: False
    show ?thesis
    proof (cases "frame_next first r")
      case (Inl e)
      with nonempty show ?thesis by (simp add: decode_loop.simps)
    next
      case (Inr p)
      then obtain f r' where f: "frame_next first r = Inr (f, r')" by (cases p) auto
      then have fs: "frames_of first r = f # frames_of False r'"
        using nonempty by (simp add: frames_of.simps [of first r])
      obtain st' where st': "decode_frame f st = Some st'" "ra_inv (ds_reassembler st')"
        using decode_frame_no_reset [OF "1.prems"(1)] "1.prems"(2) fs by auto
      have "decode_loop False r' st' \<noteq> None"
        using "1.IH" [OF nonempty f refl st'(1) st'(2)] "1.prems"(2) fs by auto
      with nonempty f st'(1) show ?thesis by (simp add: decode_loop.simps [of first r])
    qed
  qed
qed

lemma decode_defined:
  assumes "\<forall>f \<in> set (frames_of True (byte_reader_new bs)). f_type f \<noteq> kReset"
  shows "decode bs \<noteq> None"
  using decode_loop_defined [OF _ assms, of decoder_state_new]
  by (auto simp: decode_def decoder_state_new_def)

text \<open>
  Two partial messages of stream 1 in front of one of stream 2, then a RESET of stream 1: the entry of
  stream 2's message is left pointing past the end of the store, and its next fragment is placed there.
\<close>

definition stale_frame :: "frame_type \<Rightarrow> u16 \<Rightarrow> u32 \<Rightarrow> frame_spec" where
  "stale_frame ty sid mid =
     \<lparr>s_type = ty, s_flags = kFlagFrag, s_stream_id = sid, s_msg_id = mid, s_seq = 0, s_frag_offset = 0,
      s_payload = [0x41], s_with_crc = False\<rparr>"

definition stale_index_stream :: "frame_spec list" where
  "stale_index_stream =
     [stale_frame kData 1 1, stale_frame kData 1 2, stale_frame kData 2 1, stale_frame kReset 1 0,
      stale_frame kData 2 1]"

lemma stale_index_undefined:
  "decode (concat (map (encode_frame []) stale_index_stream)) = None"
proof -
  have "decode_frames (map (frame_of_spec 0) stale_index_stream) decoder_state_new = None"
    by (simp add: stale_index_stream_def stale_frame_def frame_of_spec_def spec_flags_def spec_payload_def
        kFlagFrag_def kFlagHasCrc_def kMaxFramePayload_def decoder_state_new_def reassembler_new_def
        decode_frame_def tally_frame_def Let_def accept_data_def slot_for_def fresh_partial_def
        accept_fragment_def place_payload_def frag_begin_def frag_end_def frag_def fin_def compressed_def
        kFlagFin_def kFlagCompressed_def add_range_def merge_span_def is_complete_def reset_stream_def
        reset_step_def slide_index_def partial_key_def decode_result_new_def)
  then show ?thesis by (simp add: decode_encoded)
qed

end
