(* ===== verification/Flow_Control.thy ===== *)
theory Flow_Control
  imports Ordered_Map
begin

text \<open>
  The flow-control state machine (\<^verbatim>\<open>include/streamcodec/control.hpp\<close>,
  \<^verbatim>\<open>src/streamcodec/control.cpp\<close>): per stream the advertised ceiling, the bytes sent and the bytes
  acknowledged, as 64-bit words. Whatever the order of the inputs, the counters never move back and stay
  ordered, and a stream is blocked exactly when it has no credit.
\<close>

record flow_state =
  fl_advertised :: u64
  fl_sent :: u64
  fl_acked :: u64
  fl_blocked :: bool

definition flow_state_new :: flow_state where
  "flow_state_new = \<lparr>fl_advertised = 0, fl_sent = 0, fl_acked = 0, fl_blocked = False\<rparr>"

definition fl_in_flight :: "flow_state \<Rightarrow> u64" where
  "fl_in_flight s = (if fl_acked s \<le> fl_sent s then fl_sent s - fl_acked s else 0)"

definition fl_available :: "flow_state \<Rightarrow> u64" where
  "fl_available s = (if fl_sent s \<le> fl_advertised s then fl_advertised s - fl_sent s else 0)"

type_synonym flow_controller = "(u16, flow_state) omap"

definition fl_refresh :: "flow_state \<Rightarrow> flow_state" where
  "fl_refresh s = s\<lparr>fl_blocked := (fl_advertised s \<le> fl_sent s)\<rparr>"

definition fl_slot :: "u16 \<Rightarrow> flow_controller \<Rightarrow> flow_state" where
  "fl_slot stream_id streams =
     (case om_lookup streams stream_id of None \<Rightarrow> flow_state_new | Some s \<Rightarrow> s)"

definition kUint64Max :: u64 where
  "kUint64Max = 0xFFFFFFFFFFFFFFFF"

definition window_ceiling :: "u64 \<Rightarrow> u64 \<Rightarrow> u64" where
  "window_ceiling ack_point window =
     (if kUint64Max - ack_point < window then kUint64Max else ack_point + window)"

definition on_window_update :: "u16 \<Rightarrow> u64 \<Rightarrow> u64 \<Rightarrow> flow_controller \<Rightarrow> flow_state \<times> flow_controller" where
  "on_window_update stream_id ack_point window streams =
     (let s = fl_slot stream_id streams;
          s = s\<lparr>fl_advertised := max (fl_advertised s) (window_ceiling ack_point window)\<rparr>;
          s = fl_refresh s
      in (s, om_insert stream_id s streams))"

definition on_ack :: "u16 \<Rightarrow> u64 \<Rightarrow> flow_controller \<Rightarrow> flow_state \<times> flow_controller" where
  "on_ack stream_id acked_bytes streams =
     (let s = fl_slot stream_id streams;
          acked = max (fl_acked s) acked_bytes;
          s = s\<lparr>fl_acked := min acked (fl_sent s)\<rparr>;
          s = fl_refresh s
      in (s, om_insert stream_id s streams))"

definition try_send :: "u16 \<Rightarrow> u64 \<Rightarrow> flow_controller \<Rightarrow> u64 \<times> flow_controller" where
  "try_send stream_id n streams =
     (let s = fl_slot stream_id streams;
          room = (if fl_sent s \<le> fl_advertised s then fl_advertised s - fl_sent s else 0);
          admit = min n room;
          s = s\<lparr>fl_sent := fl_sent s + admit\<rparr>;
          s = fl_refresh s
      in (admit, om_insert stream_id s streams))"

definition fl_is_blocked :: "u16 \<Rightarrow> flow_controller \<Rightarrow> bool" where
  "fl_is_blocked stream_id streams =
     (case om_lookup streams stream_id of None \<Rightarrow> True | Some s \<Rightarrow> fl_blocked s)"

definition fl_get_state :: "u16 \<Rightarrow> flow_controller \<Rightarrow> flow_state" where
  "fl_get_state stream_id streams =
     (case om_lookup streams stream_id of
        None \<Rightarrow> flow_state_new\<lparr>fl_blocked := True\<rparr>
      | Some s \<Rightarrow> s)"

definition fl_stream_count :: "flow_controller \<Rightarrow> nat" where
  "fl_stream_count streams = length streams"

section \<open>The machine\<close>

datatype flow_op = WindowUpdate u16 u64 u64 | WindowAck u16 u64 | TrySend u16 u64

fun flow_step :: "flow_op \<Rightarrow> flow_controller \<Rightarrow> flow_controller" where
  "flow_step (WindowUpdate sid ack_point window) c = snd (on_window_update sid ack_point window c)"
| "flow_step (WindowAck sid acked) c = snd (on_ack sid acked c)"
| "flow_step (TrySend sid n) c = snd (try_send sid n c)"

definition counters_ok :: "flow_state \<Rightarrow> bool" where
  "counters_ok s \<longleftrightarrow> fl_acked s \<le> fl_sent s \<and> fl_sent s \<le> fl_advertised s"

definition flow_ok :: "flow_state \<Rightarrow> bool" where
  "flow_ok s \<longleftrightarrow> counters_ok s \<and> (fl_blocked s \<longleftrightarrow> fl_sent s = fl_advertised s)"

definition controller_ok :: "flow_controller \<Rightarrow> bool" where
  "controller_ok c \<longleftrightarrow> om_ok c \<and> om.all_values flow_ok c"

lemma counters_ok_new [simp]: "counters_ok flow_state_new"
  by (simp add: counters_ok_def flow_state_new_def)

lemma flow_ok_refresh [simp]: "counters_ok s \<Longrightarrow> flow_ok (fl_refresh s)"
  by (auto simp: flow_ok_def fl_refresh_def counters_ok_def)

lemma slot_ok: "controller_ok c \<Longrightarrow> counters_ok (fl_slot sid c)"
  by (auto simp: fl_slot_def controller_ok_def om.all_values_def flow_ok_def split: option.splits)

lemma credit_fits:
  fixes sent advertised n :: u64
  assumes "sent \<le> advertised"
  shows "unat (sent + min n (advertised - sent)) = unat sent + unat (min n (advertised - sent))"
    and "sent + min n (advertised - sent) \<le> advertised" and "sent \<le> sent + min n (advertised - sent)"
proof -
  let ?a = "min n (advertised - sent)"
  have "unat (advertised - sent) = unat advertised - unat sent" using assms by (rule unat_sub)
  then have room: "unat ?a \<le> unat advertised - unat sent"
    by (metis min.cobounded2 word_le_nat_alt)
  moreover have "unat sent \<le> unat advertised" using assms by (simp add: word_le_nat_alt)
  moreover have "unat advertised < 2 ^ 64" using unsigned_less [of advertised] by simp
  ultimately have "unat sent + unat ?a < 2 ^ LENGTH(64)" by simp
  then show eq: "unat (sent + ?a) = unat sent + unat ?a" by (simp only: unat_add_lem [THEN iffD1])
  show "sent + ?a \<le> advertised" "sent \<le> sent + ?a"
    using room \<open>unat sent \<le> unat advertised\<close> by (simp_all add: word_le_nat_alt eq)
qed

lemma step_counters:
  assumes ok: "controller_ok c"
  shows "\<exists>s'. flow_step op c = om_insert (case op of WindowUpdate sid a w \<Rightarrow> sid | WindowAck sid a \<Rightarrow> sid
       | TrySend sid n \<Rightarrow> sid) s' c \<and> flow_ok s' \<and>
     (let s = fl_slot (case op of WindowUpdate sid a w \<Rightarrow> sid | WindowAck sid a \<Rightarrow> sid
       | TrySend sid n \<Rightarrow> sid) c
      in fl_advertised s \<le> fl_advertised s' \<and> fl_sent s \<le> fl_sent s' \<and> fl_acked s \<le> fl_acked s')"
proof (cases op)
  case (WindowUpdate sid a w)
  let ?s = "fl_slot sid c"
  let ?s' = "fl_refresh (?s\<lparr>fl_advertised := max (fl_advertised ?s) (window_ceiling a w)\<rparr>)"
  have "flow_ok ?s'"
    using slot_ok [OF ok, of sid] by (intro flow_ok_refresh) (auto simp: counters_ok_def le_max_iff_disj)
  then show ?thesis using WindowUpdate
    by (intro exI [of _ ?s']) (simp add: on_window_update_def Let_def fl_refresh_def)
next
  case (WindowAck sid a)
  let ?s = "fl_slot sid c"
  let ?s' = "fl_refresh (?s\<lparr>fl_acked := min (max (fl_acked ?s) a) (fl_sent ?s)\<rparr>)"
  have "flow_ok ?s'"
    using slot_ok [OF ok, of sid] by (intro flow_ok_refresh) (auto simp: counters_ok_def)
  then show ?thesis using WindowAck slot_ok [OF ok, of sid]
    by (intro exI [of _ ?s']) (simp add: on_ack_def Let_def fl_refresh_def counters_ok_def)
next
  case (TrySend sid n)
  let ?s = "fl_slot sid c"
  let ?s' = "fl_refresh (?s\<lparr>fl_sent := fl_sent ?s + min n (fl_advertised ?s - fl_sent ?s)\<rparr>)"
  have le: "fl_acked ?s \<le> fl_sent ?s" "fl_sent ?s \<le> fl_advertised ?s"
    using slot_ok [OF ok, of sid] by (simp_all add: counters_ok_def)
  note f = credit_fits(2,3) [OF le(2), of n]
  have "flow_ok ?s'" using le f by (intro flow_ok_refresh) (auto simp: counters_ok_def)
  then show ?thesis using TrySend le f
    by (intro exI [of _ ?s']) (simp add: try_send_def Let_def fl_refresh_def)
qed

interpretation flow: invariant_machine flow_step controller_ok "[]"
proof unfold_locales
  show "controller_ok []" by (simp add: controller_ok_def om.all_values_def)
  fix c op assume "controller_ok c"
  with step_counters [of c op] show "controller_ok (flow_step op c)"
    by (auto simp: controller_ok_def intro: om.all_values_insert)
qed

text \<open>No counter of any stream ever moves back.\<close>

lemma step_mono:
  assumes "controller_ok c"
  shows "fl_advertised (fl_slot sid c) \<le> fl_advertised (fl_slot sid (flow_step op c))"
    and "fl_sent (fl_slot sid c) \<le> fl_sent (fl_slot sid (flow_step op c))"
    and "fl_acked (fl_slot sid c) \<le> fl_acked (fl_slot sid (flow_step op c))"
  using step_counters [OF assms, of op] by (auto simp: Let_def fl_slot_def)

lemma run_mono:
  assumes "controller_ok c"
  shows "fl_advertised (fl_slot sid c) \<le> fl_advertised (fl_slot sid (fold flow_step ops c))"
    and "fl_sent (fl_slot sid c) \<le> fl_sent (fl_slot sid (fold flow_step ops c))"
    and "fl_acked (fl_slot sid c) \<le> fl_acked (fl_slot sid (fold flow_step ops c))"
  using flow.mono_run [OF _ assms, of "\<lambda>c. fl_advertised (fl_slot sid c)" ops]
    flow.mono_run [OF _ assms, of "\<lambda>c. fl_sent (fl_slot sid c)" ops]
    flow.mono_run [OF _ assms, of "\<lambda>c. fl_acked (fl_slot sid c)" ops]
  by (simp_all add: step_mono)

section \<open>What the operations answer\<close>

lemma window_ceiling_saturates:
  "unat (window_ceiling a w) = min (unat a + unat w) (2 ^ 64 - 1)"
proof -
  have m: "unat kUint64Max = 2 ^ 64 - 1" by (simp add: kUint64Max_def)
  have "unat a < 2 ^ 64" using unsigned_less [of a] by simp
  then have a: "a \<le> kUint64Max" unfolding word_le_nat_alt m by simp
  then have diff: "unat (kUint64Max - a) = 2 ^ 64 - 1 - unat a" by (simp only: unat_sub m)
  show ?thesis
  proof (cases "kUint64Max - a < w")
    case True
    then have "2 ^ 64 - 1 - unat a < unat w" by (simp add: word_less_nat_alt diff)
    with True m show ?thesis by (simp add: window_ceiling_def)
  next
    case False
    then have "unat w \<le> 2 ^ 64 - 1 - unat a" by (simp add: word_less_nat_alt diff not_less)
    moreover have "unat a < 2 ^ 64" using unsigned_less [of a] by simp
    ultimately have sum: "unat a + unat w \<le> 2 ^ 64 - 1" by simp
    then have "unat (a + w) = unat a + unat w" by (subst unat_add_lem [symmetric]) simp
    with False sum show ?thesis by (simp add: window_ceiling_def)
  qed
qed

lemma try_send_spec:
  assumes ok: "controller_ok c"
  shows "fst (try_send sid n c) = min n (fl_available (fl_slot sid c))"
    and "unat (fl_sent (fl_slot sid (snd (try_send sid n c)))) =
      unat (fl_sent (fl_slot sid c)) + unat (fst (try_send sid n c))"
    and "fst (try_send sid n c) < n \<Longrightarrow> fl_is_blocked sid (snd (try_send sid n c))"
proof -
  let ?s = "fl_slot sid c"
  have le: "fl_sent ?s \<le> fl_advertised ?s" using slot_ok [OF ok, of sid] by (simp add: counters_ok_def)
  show adm: "fst (try_send sid n c) = min n (fl_available ?s)"
    using le by (simp add: try_send_def Let_def fl_available_def)
  show "unat (fl_sent (fl_slot sid (snd (try_send sid n c)))) =
      unat (fl_sent ?s) + unat (fst (try_send sid n c))"
    using le credit_fits(1) [OF le, of n]
    by (simp add: try_send_def Let_def fl_slot_def [of sid "om_insert sid _ c"] fl_refresh_def)
  show "fl_is_blocked sid (snd (try_send sid n c))" if "fst (try_send sid n c) < n"
  proof -
    have "min n (fl_advertised ?s - fl_sent ?s) < n" using that adm le by (simp add: fl_available_def)
    then have "min n (fl_advertised ?s - fl_sent ?s) = fl_advertised ?s - fl_sent ?s" by (auto simp: min_def split: if_splits)
    with le show ?thesis by (simp add: try_send_def Let_def fl_is_blocked_def fl_refresh_def)
  qed
qed

lemma blocked_iff_no_credit:
  assumes "controller_ok c"
  shows "fl_is_blocked sid c \<longleftrightarrow> fl_available (fl_get_state sid c) = 0"
proof (cases "om_lookup c sid")
  case None
  then show ?thesis by (simp add: fl_is_blocked_def fl_get_state_def fl_available_def flow_state_new_def)
next
  case (Some s)
  with assms have "flow_ok s" by (auto simp: controller_ok_def om.all_values_def)
  with Some show ?thesis
    by (auto simp: fl_is_blocked_def fl_get_state_def fl_available_def flow_ok_def counters_ok_def)
qed

end
