(* ===== verification/Rle_Transform.thy ===== *)
theory Rle_Transform
  imports Bw_Prelude
begin

text \<open>
  The run-length transform (\<^verbatim>\<open>include/streamcodec/transform.hpp\<close>, \<^verbatim>\<open>src/streamcodec/transform.cpp\<close>).
  Expanding a compressed buffer gives the buffer back, expansion respects its cap and its input on every
  byte string, and the size bound that the compressor really meets is derived.
\<close>

unbundle bit_operations_syntax

datatype rle_status = kRleOk | kMalformed | kCapExceeded

definition kRleMaxTokenLen :: nat where
  "kRleMaxTokenLen = 128"

section \<open>The compressor\<close>

function run_length_from :: "bytes \<Rightarrow> nat \<Rightarrow> nat \<Rightarrow> nat" where
  "run_length_from input i n =
     (if i + n < length input \<and> input ! (i + n) = input ! i \<and> n < kRleMaxTokenLen
      then run_length_from input i (n + 1) else n)"
  by pat_completeness auto
termination
  by (relation "measure (\<lambda>(input, i, n). kRleMaxTokenLen - n)") auto

declare run_length_from.simps [simp del]

definition run_length :: "bytes \<Rightarrow> nat \<Rightarrow> nat" where
  "run_length input i = run_length_from input i 1"

definition emit_literal :: "bytes \<Rightarrow> bytes \<Rightarrow> nat \<Rightarrow> nat \<Rightarrow> bytes" where
  "emit_literal out input start len = out @ [of_nat (len - 1)] @ map (\<lambda>k. input ! (start + k)) [0..<len]"

definition emit_run :: "bytes \<Rightarrow> u8 \<Rightarrow> nat \<Rightarrow> bytes" where
  "emit_run out v count = out @ [0x80 OR of_nat (count - 1), v]"

text \<open>The lambda \<^verbatim>\<open>flush_literal\<close>; it leaves \<^verbatim>\<open>lit_len\<close> at 0.\<close>

function flush_literal :: "bytes \<Rightarrow> bytes \<Rightarrow> nat \<Rightarrow> nat \<Rightarrow> bytes" where
  "flush_literal out input lit_start lit_len =
     (if 0 < lit_len
      then let n = (if lit_len < kRleMaxTokenLen then lit_len else kRleMaxTokenLen)
           in flush_literal (emit_literal out input lit_start n) input (lit_start + n) (lit_len - n)
      else out)"
  by pat_completeness auto
termination
  by (relation "measure (\<lambda>(out, input, lit_start, lit_len). lit_len)")
    (auto simp: kRleMaxTokenLen_def)

declare flush_literal.simps [simp del]

lemma run_length_from_ge: "n \<le> run_length_from input i n"
proof (induction input i n rule: run_length_from.induct)
  case (1 input i n)
  then show ?case by (subst run_length_from.simps) (auto dest: Suc_leD)
qed

lemma run_length_pos: "1 \<le> run_length input i"
  using run_length_from_ge [of 1] by (simp add: run_length_def)

function rle_compress_loop :: "bytes \<Rightarrow> bytes \<Rightarrow> nat \<Rightarrow> nat \<Rightarrow> nat \<Rightarrow> bytes" where
  "rle_compress_loop input out i lit_start lit_len =
     (if i < length input
      then let run = run_length input i
           in if 2 \<le> run
              then rle_compress_loop input
                     (emit_run (flush_literal out input lit_start lit_len) (input ! i) run)
                     (i + run) (i + run) 0
              else if lit_len = kRleMaxTokenLen
              then rle_compress_loop input (flush_literal out input lit_start lit_len) (i + 1) i 1
              else rle_compress_loop input out (i + 1) lit_start (lit_len + 1)
      else flush_literal out input lit_start lit_len)"
  by pat_completeness auto
termination
  by (relation "measure (\<lambda>(input, out, i, lit_start, lit_len). length input - i)")
    (use run_length_pos in \<open>auto simp: Suc_le_eq\<close>)

declare rle_compress_loop.simps [simp del]

definition rle_compress :: "bytes \<Rightarrow> bytes" where
  "rle_compress input = rle_compress_loop input [] 0 0 0"

section \<open>The decompressor\<close>

text \<open>The argument is the input from \<^verbatim>\<open>pos\<close> on.\<close>

function rle_decompress :: "bytes \<Rightarrow> nat \<Rightarrow> bytes \<Rightarrow> rle_status \<times> bytes" where
  "rle_decompress [] max_output out = (kRleOk, out)"
| "rle_decompress (control # data) max_output out =
     (let count = unat (control AND 0x7F) + 1
      in if control AND 0x80 \<noteq> 0
         then case data of
                [] \<Rightarrow> (kMalformed, out)
              | v # data' \<Rightarrow>
                  if max_output < length out + count then (kCapExceeded, out)
                  else rle_decompress data' max_output (out @ replicate count v)
         else if length data < count then (kMalformed, out)
         else if max_output < length out + count then (kCapExceeded, out)
         else rle_decompress (drop count data) max_output (out @ take count data))"
  by pat_completeness auto
termination
  by (relation "measure (\<lambda>(data, m, out). length data)") auto

section \<open>Tokens\<close>

text \<open>\<open>expands ts d\<close>: the tokens \<open>ts\<close> stand for the bytes \<open>d\<close>, in front of any other tokens.\<close>

definition expands :: "bytes \<Rightarrow> bytes \<Rightarrow> bool" where
  "expands ts d \<longleftrightarrow> (\<forall>rest cap out. length out + length d \<le> cap \<longrightarrow>
     rle_decompress (ts @ rest) cap out = rle_decompress rest cap (out @ d))"

lemma expands_Nil [simp]: "expands [] []"
  by (simp add: expands_def)

lemma expands_append: "expands a d \<Longrightarrow> expands b e \<Longrightarrow> expands (a @ b) (d @ e)"
  by (simp add: expands_def)

lemma control_literal:
  assumes "k < 128"
  shows "(of_nat k :: u8) AND 0x80 = 0" and "unat ((of_nat k :: u8) AND 0x7F) = k"
proof -
  have p: "(0x80 :: u8) = 2 ^ 7" "(0x7F :: u8) = mask 7" by (simp_all add: mask_eq_exp_minus_1)
  have u: "unat (of_nat k :: u8) = k" using assms by (simp add: unat_of_nat)
  have k: "take_bit 7 k = k" using assms by (intro take_bit_nat_eq_self) simp
  have t: "take_bit 7 (of_nat k :: u8) = of_nat k"
    unfolding word_unat_eq_iff unsigned_take_bit_eq u by (rule k)
  show "(of_nat k :: u8) AND 0x80 = 0"
    unfolding p(1) and_exp_eq_0_bit by (metis t bit_take_bit_iff less_irrefl)
  show "unat ((of_nat k :: u8) AND 0x7F) = k"
    unfolding p(2) by (simp only: take_bit_eq_mask [symmetric] t u)
qed

lemma control_run:
  assumes "k < 128"
  shows "(0x80 OR of_nat k :: u8) AND 0x80 \<noteq> 0" and "unat ((0x80 OR of_nat k :: u8) AND 0x7F) = k"
proof -
  have p: "(0x80 :: u8) = 2 ^ 7" by simp
  show "(0x80 OR of_nat k :: u8) AND 0x80 \<noteq> 0"
    unfolding p and_exp_eq_0_bit by (simp add: bit_or_iff bit_exp_iff del: power_numeral)
  have "(0x80 OR of_nat k :: u8) AND 0x7F = of_nat k AND 0x7F"
    by (simp add: bit.conj_disj_distrib2)
  then show "unat ((0x80 OR of_nat k :: u8) AND 0x7F) = k"
    using control_literal [OF assms] by simp
qed

lemma expands_control:
  "c AND 0x80 = 0 \<Longrightarrow> unat (c AND 0x7F) + 1 = length d \<Longrightarrow> expands (c # d) d"
  "c AND 0x80 \<noteq> 0 \<Longrightarrow> unat (c AND 0x7F) + 1 = n \<Longrightarrow> expands [c, v] (replicate n v)"
  by (auto simp: expands_def Let_def simp del: replicate_Suc)

lemma expands_literal:
  assumes "0 < length d" "length d \<le> 128"
  shows "expands (of_nat (length d - 1) # d) d"
proof -
  have "length d - 1 < 128" using assms by linarith
  note c = control_literal [OF this]
  show ?thesis
  proof (rule expands_control(1) [OF c(1)])
    show "unat (of_nat (length d - 1) AND (0x7F :: u8)) + 1 = length d"
      unfolding c(2) using assms by linarith
  qed
qed

lemma expands_run:
  assumes "0 < n" "n \<le> 128"
  shows "expands [0x80 OR of_nat (n - 1), v] (replicate n v)"
proof -
  have "n - 1 < 128" using assms by linarith
  note c = control_run [OF this]
  show ?thesis
  proof (rule expands_control(2) [OF c(1)])
    show "unat ((0x80 OR of_nat (n - 1)) AND (0x7F :: u8)) + 1 = n"
      unfolding c(2) using assms by linarith
  qed
qed

section \<open>The round trip\<close>

definition segment :: "bytes \<Rightarrow> nat \<Rightarrow> nat \<Rightarrow> bytes" where
  "segment input start len = take len (drop start input)"

lemma segment_map:
  "start + len \<le> length input \<Longrightarrow> map (\<lambda>k. input ! (start + k)) [0..<len] = segment input start len"
  by (rule nth_equalityI) (simp_all add: segment_def)

lemma segment_append: "segment input start m @ segment input (start + m) n = segment input start (m + n)"
  by (simp add: segment_def take_add add.commute)

lemma take_segment: "take i input @ segment input i n = take (i + n) input"
  by (simp add: segment_def take_add)

lemma flush_literal_ok:
  assumes "lit_start + lit_len \<le> length input"
  shows "\<exists>ts. flush_literal out input lit_start lit_len = out @ ts \<and>
     expands ts (segment input lit_start lit_len) \<and>
     (lit_len \<le> kRleMaxTokenLen \<longrightarrow> length ts = (if lit_len = 0 then 0 else lit_len + 1))"
  using assms
proof (induction out input lit_start lit_len rule: flush_literal.induct)
  case (1 out input s l)
  show ?case
  proof (cases "l = 0")
    case True
    then show ?thesis by (simp add: flush_literal.simps segment_def)
  next
    case False
    define n where "n = (if l < kRleMaxTokenLen then l else kRleMaxTokenLen)"
    let ?n = n
    let ?t = "of_nat (?n - 1) # segment input s ?n"
    have n: "0 < ?n" "?n \<le> 128" "?n \<le> l" using False by (auto simp: n_def kRleMaxTokenLen_def)
    have n_all: "l \<le> kRleMaxTokenLen \<Longrightarrow> ?n = l" by (simp add: n_def)
    have len: "length (segment input s ?n) = ?n" using n "1.prems" by (simp add: segment_def)
    have emit: "emit_literal out input s ?n = out @ ?t"
      using n "1.prems" by (simp add: emit_literal_def segment_map)
    obtain ts where ts: "flush_literal (out @ ?t) input (s + ?n) (l - ?n) = (out @ ?t) @ ts"
      "expands ts (segment input (s + ?n) (l - ?n))"
      "l - ?n \<le> kRleMaxTokenLen \<longrightarrow> length ts = (if l - ?n = 0 then 0 else l - ?n + 1)"
      using "1.IH" [OF _ n_def] False n "1.prems" emit by auto
    have "expands ?t (segment input s ?n)" using expands_literal [of "segment input s ?n"] n len by simp
    from expands_append [OF this ts(2)] have "expands (?t @ ts) (segment input s l)"
      using n by (simp only: segment_append) simp
    moreover have "flush_literal out input s l = out @ (?t @ ts)"
      using False ts(1) emit by (subst flush_literal.simps) (simp add: n_def [symmetric])
    moreover have "length (?t @ ts) = l + 1" if "l \<le> kRleMaxTokenLen"
      using that ts(3) len n_all by auto
    ultimately show ?thesis using False by (intro exI [of _ "?t @ ts"]) simp
  qed
qed

lemma run_length_from_equal:
  assumes "n \<le> kRleMaxTokenLen" and "i + n \<le> length input" and "\<forall>k < n. input ! (i + k) = v" and "0 < n"
  shows "i + run_length_from input i n \<le> length input \<and> run_length_from input i n \<le> kRleMaxTokenLen \<and>
     (\<forall>k < run_length_from input i n. input ! (i + k) = v)"
  using assms
proof (induction input i n rule: run_length_from.induct)
  case (1 input i n)
  show ?case
  proof (cases "i + n < length input \<and> input ! (i + n) = input ! i \<and> n < kRleMaxTokenLen")
    case True
    have "input ! i = v" using "1.prems"(3,4) by (metis add.right_neutral)
    with True "1.prems" have "\<forall>k < n + 1. input ! (i + k) = v" by (auto simp: less_Suc_eq)
    moreover have "run_length_from input i n = run_length_from input i (n + 1)"
      using True by (subst run_length_from.simps) simp
    ultimately show ?thesis using "1.IH" [OF True] True by simp
  next
    case False
    then have "run_length_from input i n = n" by (subst run_length_from.simps) (simp only: if_False)
    with "1.prems" show ?thesis by simp
  qed
qed

lemma run_length_ok:
  assumes "i < length input"
  shows "i + run_length input i \<le> length input" and "run_length input i \<le> 128"
    and "segment input i (run_length input i) = replicate (run_length input i) (input ! i)"
proof -
  have r: "i + run_length input i \<le> length input \<and> run_length input i \<le> kRleMaxTokenLen \<and>
     (\<forall>k < run_length input i. input ! (i + k) = input ! i)"
    unfolding run_length_def using assms
    by (intro run_length_from_equal) (auto simp: kRleMaxTokenLen_def)
  then show "i + run_length input i \<le> length input" "run_length input i \<le> 128"
    by (auto simp: kRleMaxTokenLen_def)
  show "segment input i (run_length input i) = replicate (run_length input i) (input ! i)"
  proof (rule nth_equalityI)
    have "min (length input - i) (run_length input i) = run_length input i" using r by linarith
    then show len: "length (segment input i (run_length input i)) =
        length (replicate (run_length input i) (input ! i))" by (simp add: segment_def)
    fix k assume "k < length (segment input i (run_length input i))"
    then show "segment input i (run_length input i) ! k = replicate (run_length input i) (input ! i) ! k"
      using r len by (simp add: segment_def)
  qed
qed

text \<open>The loop's invariant: \<open>out\<close> stands for the input up to \<open>lit_start\<close>, and the pending literal run is
  what lies between \<open>lit_start\<close> and \<open>i\<close>.\<close>

lemma rle_compress_loop_ok:
  assumes "expands out (take lit_start input)" and "i = lit_start + lit_len" and "i \<le> length input"
    and "lit_len \<le> kRleMaxTokenLen" and "3 * length out \<le> 4 * lit_start"
  shows "expands (rle_compress_loop input out i lit_start lit_len) input \<and>
     3 * length (rle_compress_loop input out i lit_start lit_len) \<le> 4 * length input + 2"
  using assms
proof (induction input out i lit_start lit_len rule: rle_compress_loop.induct)
  case (1 input out i s l)
  obtain ts where ts: "flush_literal out input s l = out @ ts" "expands ts (segment input s l)"
    "length ts = (if l = 0 then 0 else l + 1)"
    using flush_literal_ok [of s l input out] "1.prems" by auto
  have flushed: "expands (out @ ts) (take i input)"
    using expands_append [OF "1.prems"(1) ts(2)] "1.prems"(2) by (simp add: take_segment)
  show ?case
  proof (cases "i < length input")
    case False
    then have "i = length input" using "1.prems"(3) by simp
    with False flushed ts "1.prems" show ?thesis
      by (subst (1 2) rle_compress_loop.simps) auto
  next
    case lt: True
    let ?r = "run_length input i"
    note r = run_length_ok [OF lt]
    show ?thesis
    proof (cases "2 \<le> ?r")
      case True
      let ?out = "emit_run (flush_literal out input s l) (input ! i) ?r"
      have out: "?out = (out @ ts) @ [0x80 OR of_nat (?r - 1), input ! i]" by (simp add: emit_run_def ts)
      have "expands [0x80 OR of_nat (?r - 1), input ! i] (segment input i ?r)"
        unfolding r(3) by (rule expands_run) (use True r in auto)
      from expands_append [OF flushed this] have "expands ?out (take (i + ?r) input)"
        unfolding out by (simp add: take_segment)
      moreover have "3 * length ?out \<le> 4 * (i + ?r)"
        unfolding out using ts(3) "1.prems"(2,5) True by (auto split: if_splits)
      ultimately have "expands (rle_compress_loop input ?out (i + ?r) (i + ?r) 0) input \<and>
          3 * length (rle_compress_loop input ?out (i + ?r) (i + ?r) 0) \<le> 4 * length input + 2"
        using "1.IH"(1) [OF lt refl True] r by simp
      then show ?thesis using lt True
        by (subst (1 2) rle_compress_loop.simps) (simp add: Let_def)
    next
      case False
      show ?thesis
      proof (cases "l = kRleMaxTokenLen")
        case True
        have "3 * length (out @ ts) \<le> 4 * i"
          using ts(3) "1.prems"(2,5) True by (auto simp: kRleMaxTokenLen_def split: if_splits)
        then have "expands (rle_compress_loop input (out @ ts) (i + 1) i 1) input \<and>
            3 * length (rle_compress_loop input (out @ ts) (i + 1) i 1) \<le> 4 * length input + 2"
          using "1.IH"(2) [OF lt refl False True] flushed lt ts(1) by (simp add: kRleMaxTokenLen_def)
        then show ?thesis using lt False True ts(1)
          by (subst (1 2) rle_compress_loop.simps) (simp add: Let_def)
      next
        case l: False
        have "expands (rle_compress_loop input out (i + 1) s (l + 1)) input \<and>
            3 * length (rle_compress_loop input out (i + 1) s (l + 1)) \<le> 4 * length input + 2"
          using "1.IH"(3) [OF lt refl False l] "1.prems" lt l by simp
        then show ?thesis using lt False l
          by (subst (1 2) rle_compress_loop.simps) (simp add: Let_def)
      qed
    qed
  qed
qed

lemma rle_compress_ok:
  "expands (rle_compress input) input" "3 * length (rle_compress input) \<le> 4 * length input + 2"
  using rle_compress_loop_ok [of "[]" 0 input 0 0] by (simp_all add: rle_compress_def)

lemma rle_round_trip:
  "length out + length input \<le> cap \<Longrightarrow> rle_decompress (rle_compress input) cap out = (kRleOk, out @ input)"
  using rle_compress_ok(1) [of input] by (simp add: expands_def) (metis append_Nil2 rle_decompress.simps(1))

lemma rle_decompress_cap:
  "length out \<le> cap \<Longrightarrow> length (snd (rle_decompress data cap out)) \<le> cap"
proof (induction data cap out rule: rle_decompress.induct)
  case (1 cap out)
  then show ?case by simp
next
  case (2 control data cap out)
  then show ?case by (auto simp: Let_def split: list.splits)
qed

lemma rle_decompress_prefix: "\<exists>d. snd (rle_decompress data cap out) = out @ d"
proof (induction data cap out rule: rle_decompress.induct)
  case (1 cap out)
  then show ?case by simp
next
  case (2 control data cap out)
  show ?case
    using "2.IH" by (auto simp: Let_def split: list.splits) (metis append_assoc)+
qed

end
