(* ===== verification/Delivery.thy ===== *)
theory Delivery
  imports Reassembler Ordered_Map
begin

text \<open>
  Ordered delivery (\<^verbatim>\<open>include/streamcodec/delivery.hpp\<close>, \<^verbatim>\<open>src/streamcodec/delivery.cpp\<close>): per stream a
  cursor \<^verbatim>\<open>next_expected\<close> and a map of messages that arrived ahead of it. The cursor is a 32-bit word
  and wraps. Every offered message is delivered, buffered or counted as a duplicate; the buffer stays
  within the window; and as long as the cursor does not wrap, the messages of a stream leave in
  strictly ascending order of their ids.
\<close>

record stream_order =
  so_started :: bool
  so_next_expected :: u32
  so_pending :: "(u32, message) omap"

definition stream_order_new :: stream_order where
  "stream_order_new = \<lparr>so_started = False, so_next_expected = 0, so_pending = []\<rparr>"

record delivery_queue =
  dq_streams :: "(u16, stream_order) omap"
  dq_window :: nat
  dq_gaps :: nat
  dq_duplicates :: nat

definition delivery_queue_new :: "nat \<Rightarrow> delivery_queue" where
  "delivery_queue_new window =
     \<lparr>dq_streams = [], dq_window = (if window = 0 then 1 else window), dq_gaps = 0, dq_duplicates = 0\<rparr>"

text \<open>\<^verbatim>\<open>drain\<close> on the cursor, the pending map and the output.\<close>

fun drain :: "u32 \<Rightarrow> (u32, message) omap \<Rightarrow> message list \<Rightarrow> u32 \<times> (u32, message) omap \<times> message list" where
  "drain next [] out = (next, [], out)"
| "drain next ((k, m) # pending) out =
     (if k \<noteq> next then (next, (k, m) # pending, out) else drain (next + 1) pending (out @ [m]))"

lemma drain_length: "drain next p out = (n, p', out') \<Longrightarrow> length p' \<le> length p"
  by (induction "next" p out rule: drain.induct) (auto split: if_splits)

lemma drain_lowest_length:
  "w < length p \<Longrightarrow> (n, p', out') = drain (fst (hd p)) p out \<Longrightarrow> length p' < length p"
  by (cases p) (auto, metis drain_length le_imp_less_Suc)

text \<open>The window loop, on the cursor, the pending map, the output and the gap counter.\<close>

function enforce_window ::
  "nat \<Rightarrow> u32 \<Rightarrow> (u32, message) omap \<Rightarrow> message list \<Rightarrow> nat \<Rightarrow>
     u32 \<times> (u32, message) omap \<times> message list \<times> nat" where
  "enforce_window window next pending out gaps =
     (if window < length pending
      then let lowest = fst (hd pending);
               gaps = (if next < lowest then gaps + 1 else gaps)
           in case drain lowest pending out of (next, pending, out) \<Rightarrow>
                enforce_window window next pending out gaps
      else (next, pending, out, gaps))"
  by pat_completeness auto
termination
  by (relation "measure (\<lambda>(w, n, p, out, g). length p)") (auto simp: drain_lowest_length)

declare enforce_window.simps [simp del]

text \<open>\<^verbatim>\<open>offer\<close> on one stream: output, new state, gaps, duplicates.\<close>

definition offer_stream ::
  "nat \<Rightarrow> message \<Rightarrow> stream_order \<Rightarrow> nat \<Rightarrow> nat \<Rightarrow> message list \<times> stream_order \<times> nat \<times> nat" where
  "offer_stream window msg s gaps duplicates =
     (let s = (if so_started s then s
               else s\<lparr>so_started := True, so_next_expected := m_msg_id msg\<rparr>)
      in if m_msg_id msg < so_next_expected s then ([], s, gaps, duplicates + 1)
         else if m_msg_id msg = so_next_expected s
         then case drain (so_next_expected s + 1) (so_pending s) [msg] of
                (next, pending, out) \<Rightarrow>
                  (out, s\<lparr>so_next_expected := next, so_pending := pending\<rparr>, gaps, duplicates)
         else if om_lookup (so_pending s) (m_msg_id msg) \<noteq> None then ([], s, gaps, duplicates + 1)
         else case enforce_window window (so_next_expected s)
                     (om_insert (m_msg_id msg) msg (so_pending s)) [] gaps of
                (next, pending, out, gaps) \<Rightarrow>
                  (out, s\<lparr>so_next_expected := next, so_pending := pending\<rparr>, gaps, duplicates))"

definition dq_slot :: "u16 \<Rightarrow> delivery_queue \<Rightarrow> stream_order" where
  "dq_slot sid q = (case om_lookup (dq_streams q) sid of None \<Rightarrow> stream_order_new | Some s \<Rightarrow> s)"

definition offer :: "message \<Rightarrow> delivery_queue \<Rightarrow> message list \<times> delivery_queue" where
  "offer msg q =
     (case offer_stream (dq_window q) msg (dq_slot (m_stream_id msg) q) (dq_gaps q) (dq_duplicates q) of
        (out, s, gaps, duplicates) \<Rightarrow>
          (out, q\<lparr>dq_streams := om_insert (m_stream_id msg) s (dq_streams q), dq_gaps := gaps,
                   dq_duplicates := duplicates\<rparr>))"

fun flush_pending ::
  "u32 \<Rightarrow> (u32, message) omap \<Rightarrow> message list \<Rightarrow> nat \<Rightarrow> u32 \<times> message list \<times> nat" where
  "flush_pending next [] out gaps = (next, out, gaps)"
| "flush_pending next ((k, m) # pending) out gaps =
     flush_pending (k + 1) pending (out @ [m]) (if next < k then gaps + 1 else gaps)"

definition flush_stream :: "u16 \<Rightarrow> delivery_queue \<Rightarrow> message list \<times> delivery_queue" where
  "flush_stream stream_id q =
     (case om_lookup (dq_streams q) stream_id of
        None \<Rightarrow> ([], q)
      | Some s \<Rightarrow>
          (case flush_pending (so_next_expected s) (so_pending s) [] (dq_gaps q) of
             (next, out, gaps) \<Rightarrow>
               (out, q\<lparr>dq_streams := om_insert stream_id (s\<lparr>so_next_expected := next, so_pending := []\<rparr>)
                                       (dq_streams q), dq_gaps := gaps\<rparr>)))"

definition buffered :: "delivery_queue \<Rightarrow> nat" where
  "buffered q = (\<Sum>kv \<leftarrow> dq_streams q. length (so_pending (snd kv)))"

section \<open>One stream\<close>

text \<open>The invariant of the pending map: sorted, keyed by the message's id.\<close>

definition pending_ok :: "(u32, message) omap \<Rightarrow> bool" where
  "pending_ok p \<longleftrightarrow> om_ok p \<and> (\<forall>(k, m) \<in> set p. m_msg_id m = k)"

lemma pending_ok_Cons [simp]:
  "pending_ok ((k, m) # p) \<longleftrightarrow> (\<forall>k' \<in> fst ` set p. k < k') \<and> m_msg_id m = k \<and> pending_ok p"
  by (auto simp: pending_ok_def om_ok_Cons)

lemma pending_ok_Nil [simp]: "pending_ok []"
  by (simp add: pending_ok_def)

lemma pending_ok_insert:
  assumes "pending_ok p"
  shows "pending_ok (om_insert (m_msg_id m) m p)"
proof -
  have ok: "om_ok p" "om_ok (om_insert (m_msg_id m) m p)" using assms by (simp_all add: pending_ok_def)
  have "m_msg_id m' = k" if "(k, m') \<in> set (om_insert (m_msg_id m) m p)" for k m'
  proof (cases "k = m_msg_id m")
    case True
    with that ok show ?thesis by (simp add: om_mem_iff)
  next
    case False
    with that ok have "(k, m') \<in> set p" by (simp add: om_mem_iff)
    with assms show ?thesis by (auto simp: pending_ok_def)
  qed
  with ok show ?thesis by (auto simp: pending_ok_def)
qed

text \<open>Draining moves messages from the map to the output and loses none.\<close>

lemma drain_conserves:
  "drain next p out = (n, p', out') \<Longrightarrow> out' @ map snd p' = out @ map snd p"
  by (induction "next" p out rule: drain.induct) (auto split: if_splits)

lemma drain_pending_ok: "drain next p out = (n, p', out') \<Longrightarrow> pending_ok p \<Longrightarrow> pending_ok p'"
  by (induction "next" p out rule: drain.induct) (auto split: if_splits)

lemma enforce_window_conserves:
  "enforce_window w next p out g = (n, p', out', g') \<Longrightarrow> out' @ map snd p' = out @ map snd p"
proof (induction w "next" p out g rule: enforce_window.induct)
  case (1 w "next" p out g)
  show ?case
  proof (cases "w < length p")
    case False
    with "1.prems" show ?thesis by (simp add: enforce_window.simps)
  next
    case True
    obtain n1 p1 out1 where d: "drain (fst (hd p)) p out = (n1, p1, out1)" by (metis prod.exhaust)
    let ?g = "if next < fst (hd p) then g + 1 else g"
    have "enforce_window w n1 p1 out1 ?g = (n, p', out', g')"
      using "1.prems" True d by (subst (asm) enforce_window.simps) (simp add: Let_def)
    then have "out' @ map snd p' = out1 @ map snd p1"
      using "1.IH" [OF True refl refl d [symmetric] refl] by blast
    with drain_conserves [OF d] show ?thesis by simp
  qed
qed

lemma enforce_window_bound:
  "enforce_window w next p out g = (n, p', out', g') \<Longrightarrow> pending_ok p \<Longrightarrow> length p' \<le> w \<and> pending_ok p'"
proof (induction w "next" p out g rule: enforce_window.induct)
  case (1 w "next" p out g)
  show ?case
  proof (cases "w < length p")
    case False
    with "1.prems" show ?thesis by (simp add: enforce_window.simps)
  next
    case True
    obtain n1 p1 out1 where d: "drain (fst (hd p)) p out = (n1, p1, out1)" by (metis prod.exhaust)
    let ?g = "if next < fst (hd p) then g + 1 else g"
    have "enforce_window w n1 p1 out1 ?g = (n, p', out', g')"
      using "1.prems"(1) True d by (subst (asm) enforce_window.simps) (simp add: Let_def)
    then show ?thesis
      using "1.IH" [OF True refl refl d [symmetric] refl] drain_pending_ok [OF d "1.prems"(2)] by blast
  qed
qed

text \<open>One offer: the message is delivered, buffered or counted as a duplicate, and the window holds.\<close>

lemma offer_stream_accounts:
  assumes "offer_stream w msg s g d = (out, s', g', d')" and "pending_ok (so_pending s)"
  shows "length out + length (so_pending s') + d' = length (so_pending s) + d + 1"
    and "pending_ok (so_pending s')" and "length (so_pending s) \<le> w \<Longrightarrow> length (so_pending s') \<le> w"
    and "set out \<union> snd ` set (so_pending s') \<subseteq> insert msg (snd ` set (so_pending s))"
proof -
  define t where "t = (if so_started s then s else s\<lparr>so_started := True, so_next_expected := m_msg_id msg\<rparr>)"
  have pt: "so_pending t = so_pending s" by (simp add: t_def)
  have step: "(if m_msg_id msg < so_next_expected t then ([], t, g, d + 1)
         else if m_msg_id msg = so_next_expected t
         then case drain (so_next_expected t + 1) (so_pending t) [msg] of
                (next, pending, out) \<Rightarrow>
                  (out, t\<lparr>so_next_expected := next, so_pending := pending\<rparr>, g, d)
         else if om_lookup (so_pending t) (m_msg_id msg) \<noteq> None then ([], t, g, d + 1)
         else case enforce_window w (so_next_expected t)
                     (om_insert (m_msg_id msg) msg (so_pending t)) [] g of
                (next, pending, out, gaps) \<Rightarrow>
                  (out, t\<lparr>so_next_expected := next, so_pending := pending\<rparr>, gaps, d)) = (out, s', g', d')"
    using assms(1) by (simp only: offer_stream_def Let_def t_def [symmetric])
  have "length out + length (so_pending s') + d' = length (so_pending s) + d + 1 \<and>
    pending_ok (so_pending s') \<and> (length (so_pending s) \<le> w \<longrightarrow> length (so_pending s') \<le> w) \<and>
    set out \<union> snd ` set (so_pending s') \<subseteq> insert msg (snd ` set (so_pending s))"
  proof -
    consider (dup) "out = []" "s' = t" "d' = d + 1"
      | (now) n where "drain (so_next_expected t + 1) (so_pending s) [msg] = (n, so_pending s', out)" "d' = d"
      | (later) n where "om_lookup (so_pending s) (m_msg_id msg) = None"
          "enforce_window w (so_next_expected t) (om_insert (m_msg_id msg) msg (so_pending s)) [] g =
             (n, so_pending s', out, g')" "d' = d"
      using step by (auto simp: pt split: if_splits prod.splits)
    then show ?thesis
    proof cases
      case dup
      then show ?thesis using assms(2) by (auto simp: pt)
    next
      case now
      note c = drain_conserves [OF now(1)]
      have "length (out @ map snd (so_pending s')) = length ([msg] @ map snd (so_pending s))" by (simp only: c)
      moreover have "set (out @ map snd (so_pending s')) = set ([msg] @ map snd (so_pending s))" by (simp only: c)
      ultimately show ?thesis
        using now drain_length [OF now(1)] drain_pending_ok [OF now(1) assms(2)] by auto
    next
      case later
      let ?p = "om_insert (m_msg_id msg) msg (so_pending s)"
      note c = enforce_window_conserves [OF later(2)]
      have ok: "pending_ok ?p" by (rule pending_ok_insert [OF assms(2)])
      have "length (out @ map snd (so_pending s')) = length (map snd ?p)" by (simp only: c) simp
      moreover have "length ?p = Suc (length (so_pending s))"
        using om_insert_length [of "so_pending s" "m_msg_id msg" msg] assms(2) later(1)
        by (simp add: pending_ok_def)
      moreover have "set (out @ map snd (so_pending s')) = set (map snd ?p)" by (simp only: c) simp
      moreover have "snd ` set ?p \<subseteq> insert msg (snd ` set (so_pending s))"
      proof
        fix x assume "x \<in> snd ` set ?p"
        then obtain k where "(k, x) \<in> set ?p" by auto
        then have "om_lookup ?p k = Some x" using ok by (simp add: pending_ok_def om_mem_iff)
        then show "x \<in> insert msg (snd ` set (so_pending s))"
          using assms(2) by (auto simp: pending_ok_def om_mem_iff [symmetric] split: if_splits) force
      qed
      ultimately show ?thesis
        using later(3) enforce_window_bound [OF later(2) ok] by auto
    qed
  qed
  then show "length out + length (so_pending s') + d' = length (so_pending s) + d + 1"
    "pending_ok (so_pending s')" "length (so_pending s) \<le> w \<Longrightarrow> length (so_pending s') \<le> w"
    "set out \<union> snd ` set (so_pending s') \<subseteq> insert msg (snd ` set (so_pending s))" by auto
qed

section \<open>Order\<close>

text \<open>
  While the cursor has not wrapped, every pending id is above it; \<open>ids_below\<close> bounds the ids so that it
  does not.
\<close>

definition ahead :: "u32 \<Rightarrow> (u32, message) omap \<Rightarrow> bool" where
  "ahead next p \<longleftrightarrow> (\<forall>k \<in> fst ` set p. next < k \<and> k < 0xFFFFFFFF)"

lemma succ_above: "k < (0xFFFFFFFF :: u32) \<Longrightarrow> k < k + 1 \<and> (\<forall>j. k < j \<longrightarrow> k + 1 \<le> j)"
proof -
  assume "k < (0xFFFFFFFF :: u32)"
  then have "unat k + 1 < 2 ^ LENGTH(32)" by (simp add: word_less_nat_alt)
  then have "unat (k + 1) = unat k + 1" by (subst unat_add_lem [THEN iffD1]) simp_all
  then show ?thesis by (simp add: word_less_nat_alt word_le_nat_alt Suc_le_eq)
qed

lemma drain_ascends:
  assumes "drain next p out = (n, p', out')" and "pending_ok p"
    and "\<forall>k \<in> fst ` set p. next \<le> k \<and> k < 0xFFFFFFFF"
  shows "\<exists>ms. out' = out @ ms \<and> sorted_wrt (<) (map m_msg_id ms) \<and>
     (\<forall>m \<in> set ms. next \<le> m_msg_id m \<and> m_msg_id m < n) \<and> next \<le> n \<and> ahead n p' \<and>
     (ms = [] \<longrightarrow> n = next)"
  using assms
proof (induction "next" p out rule: drain.induct)
  case (1 "next" out)
  then show ?case by (auto simp: ahead_def)
next
  case (2 "next" k m p out)
  show ?case
  proof (cases "k = next")
    case False
    have "next < k" using False "2.prems"(3) by auto
    moreover have "\<forall>k' \<in> fst ` set p. next < k'"
      using "2.prems"(2) \<open>next < k\<close> by (auto intro: less_trans)
    ultimately show ?thesis using False "2.prems" by (auto simp: ahead_def)
  next
    case True
    have mid: "m_msg_id m = next" using "2.prems"(2) True by simp
    have "next < 0xFFFFFFFF" using "2.prems"(3) True by simp
    note up = succ_above [OF this]
    have "drain (next + 1) p (out @ [m]) = (n, p', out')" using "2.prems"(1) True by simp
    moreover have "\<forall>k \<in> fst ` set p. next + 1 \<le> k \<and> k < 0xFFFFFFFF"
      using "2.prems"(2,3) True up by auto
    ultimately obtain ms where ms: "out' = (out @ [m]) @ ms" "sorted_wrt (<) (map m_msg_id ms)"
      "\<forall>m \<in> set ms. next + 1 \<le> m_msg_id m \<and> m_msg_id m < n" "next + 1 \<le> n" "ahead n p'"
      using "2.IH" True "2.prems"(2) by auto
    have "next < n" using up ms(4) by (auto intro: less_le_trans)
    moreover have "\<forall>x \<in> set ms. next < m_msg_id x" using ms(3) up by (auto intro: less_le_trans)
    ultimately show ?thesis using ms mid by (intro exI [of _ "m # ms"]) (auto simp: less_imp_le)
  qed
qed

lemma enforce_window_ascends:
  assumes "enforce_window w next p out g = (n, p', out', g')" and "pending_ok p" and "ahead next p"
  shows "\<exists>ms. out' = out @ ms \<and> sorted_wrt (<) (map m_msg_id ms) \<and>
     (\<forall>m \<in> set ms. next \<le> m_msg_id m \<and> m_msg_id m < n) \<and> next \<le> n \<and> ahead n p'"
  using assms
proof (induction w "next" p out g rule: enforce_window.induct)
  case (1 w "next" p out g)
  show ?case
  proof (cases "w < length p")
    case False
    with "1.prems" show ?thesis by (simp add: enforce_window.simps)
  next
    case True
    then obtain k m p0 where p: "p = (k, m) # p0" by (cases p) auto
    obtain n1 p1 out1 where d: "drain (fst (hd p)) p out = (n1, p1, out1)" by (metis prod.exhaust)
    let ?g = "if next < fst (hd p) then g + 1 else g"
    have run: "enforce_window w n1 p1 out1 ?g = (n, p', out', g')"
      using "1.prems"(1) True d by (subst (asm) enforce_window.simps) (simp add: Let_def)
    have "\<forall>k' \<in> fst ` set p. fst (hd p) \<le> k' \<and> k' < 0xFFFFFFFF"
      using "1.prems"(2,3) by (auto simp: p ahead_def less_imp_le)
    then obtain ms where ms: "out1 = out @ ms" "sorted_wrt (<) (map m_msg_id ms)"
      "\<forall>m \<in> set ms. fst (hd p) \<le> m_msg_id m \<and> m_msg_id m < n1" "fst (hd p) \<le> n1" "ahead n1 p1"
      using drain_ascends [OF d "1.prems"(2)] by auto
    obtain ms' where ms': "out' = out1 @ ms'" "sorted_wrt (<) (map m_msg_id ms')"
      "\<forall>m \<in> set ms'. n1 \<le> m_msg_id m \<and> m_msg_id m < n" "n1 \<le> n" "ahead n p'"
      using "1.IH" [OF True refl refl d [symmetric] refl run drain_pending_ok [OF d "1.prems"(2)] ms(5)] by auto
    have "next < fst (hd p)" using "1.prems"(3) by (simp add: p ahead_def)
    then have "sorted_wrt (<) (map m_msg_id (ms @ ms'))" "next \<le> n"
      "\<forall>m \<in> set (ms @ ms'). next \<le> m_msg_id m \<and> m_msg_id m < n"
      using ms ms' by (auto simp: sorted_wrt_append intro: less_le_trans le_less_trans order_trans)
    with ms(1) ms'(1,5) show ?thesis by (intro exI [of _ "ms @ ms'"]) simp
  qed
qed

text \<open>The stream invariant, and what one offer adds to the output.\<close>

definition so_ok :: "stream_order \<Rightarrow> bool" where
  "so_ok s \<longleftrightarrow> pending_ok (so_pending s) \<and>
     (if so_started s then ahead (so_next_expected s) (so_pending s) else so_pending s = [])"

lemma so_ok_new [simp]: "so_ok stream_order_new"
  by (simp add: so_ok_def stream_order_new_def)

lemma offer_stream_ascends:
  assumes "offer_stream w msg s g d = (out, s', g', d')" and ok: "so_ok s"
    and id: "m_msg_id msg < 0xFFFFFFFF"
  shows "so_ok s' \<and> so_started s' \<and> sorted_wrt (<) (map m_msg_id out) \<and>
     (so_started s \<longrightarrow> so_next_expected s \<le> so_next_expected s' \<and>
       (\<forall>m \<in> set out. so_next_expected s \<le> m_msg_id m)) \<and>
     (\<forall>m \<in> set out. m_msg_id m < so_next_expected s')"
proof -
  define t where "t = (if so_started s then s else s\<lparr>so_started := True, so_next_expected := m_msg_id msg\<rparr>)"
  have t: "so_started t" "so_pending t = so_pending s" "pending_ok (so_pending t)"
    "ahead (so_next_expected t) (so_pending t)" "so_started s \<longrightarrow> t = s"
    using ok by (cases "so_started s"; simp add: t_def so_ok_def ahead_def)+
  have step: "(if m_msg_id msg < so_next_expected t then ([], t, g, d + 1)
         else if m_msg_id msg = so_next_expected t
         then case drain (so_next_expected t + 1) (so_pending t) [msg] of
                (next, pending, out) \<Rightarrow>
                  (out, t\<lparr>so_next_expected := next, so_pending := pending\<rparr>, g, d)
         else if om_lookup (so_pending t) (m_msg_id msg) \<noteq> None then ([], t, g, d + 1)
         else case enforce_window w (so_next_expected t)
                     (om_insert (m_msg_id msg) msg (so_pending t)) [] g of
                (next, pending, out, gaps) \<Rightarrow>
                  (out, t\<lparr>so_next_expected := next, so_pending := pending\<rparr>, gaps, d)) = (out, s', g', d')"
    using assms(1) by (simp only: offer_stream_def Let_def t_def [symmetric])
  consider (dup) "out = []" "s' = t"
    | (now) n where "m_msg_id msg = so_next_expected t"
        "drain (so_next_expected t + 1) (so_pending t) [msg] = (n, so_pending s', out)"
        "so_next_expected s' = n" "so_started s'"
    | (later) n where "so_next_expected t < m_msg_id msg"
        "enforce_window w (so_next_expected t) (om_insert (m_msg_id msg) msg (so_pending t)) [] g =
           (n, so_pending s', out, g')" "so_next_expected s' = n" "so_started s'"
    using step t(1) by (auto split: if_splits prod.splits)
  then show ?thesis
  proof cases
    case dup
    with t show ?thesis by (auto simp: so_ok_def)
  next
    case now
    have "so_next_expected t < 0xFFFFFFFF" using id now(1) by simp
    note up = succ_above [OF this]
    have "\<forall>k \<in> fst ` set (so_pending t). so_next_expected t + 1 \<le> k \<and> k < 0xFFFFFFFF"
      using t(4) up by (auto simp: ahead_def)
    from drain_ascends [OF now(2) t(3) this] obtain ms where ms: "out = [msg] @ ms"
      "sorted_wrt (<) (map m_msg_id ms)" "\<forall>m \<in> set ms. so_next_expected t + 1 \<le> m_msg_id m \<and> m_msg_id m < n"
      "so_next_expected t + 1 \<le> n" "ahead n (so_pending s')" by auto
    have "so_next_expected t < n" using up ms(4) by (auto intro: less_le_trans)
    moreover have "\<forall>x \<in> set ms. so_next_expected t < m_msg_id x" using ms(3) up by (auto intro: less_le_trans)
    moreover have "pending_ok (so_pending s')" by (rule drain_pending_ok [OF now(2) t(3)])
    ultimately show ?thesis using ms now t(5) by (auto simp: so_ok_def less_imp_le)
  next
    case later
    have pok: "pending_ok (om_insert (m_msg_id msg) msg (so_pending t))" by (rule pending_ok_insert [OF t(3)])
    have "ahead (so_next_expected t) (om_insert (m_msg_id msg) msg (so_pending t))"
      using t(4) later(1) id om_keys_insert [of "m_msg_id msg" msg "so_pending t"] by (auto simp: ahead_def)
    from enforce_window_ascends [OF later(2) pok this] enforce_window_bound [OF later(2) pok] later t(5)
    show ?thesis by (auto simp: so_ok_def)
  qed
qed

section \<open>The queue\<close>

definition dq_ok :: "delivery_queue \<Rightarrow> bool" where
  "dq_ok q \<longleftrightarrow> om_ok (dq_streams q) \<and> om.all_values (\<lambda>s. so_ok s \<and> length (so_pending s) \<le> dq_window q) (dq_streams q)"

lemma dq_ok_new [simp]: "dq_ok (delivery_queue_new w)"
  by (simp add: dq_ok_def delivery_queue_new_def om.all_values_def)

lemma dq_slot_ok: "dq_ok q \<Longrightarrow> so_ok (dq_slot sid q) \<and> length (so_pending (dq_slot sid q)) \<le> dq_window q"
  by (auto simp: dq_slot_def dq_ok_def om.all_values_def stream_order_new_def so_ok_def split: option.splits)

lemma offer_ok:
  assumes ok: "dq_ok q" and id: "m_msg_id msg < 0xFFFFFFFF" and off: "offer msg q = (out, q')"
  shows "dq_ok q'" and "\<forall>m \<in> set out. m_stream_id m = m_stream_id msg \<or> m \<in> snd ` set (so_pending (dq_slot (m_stream_id msg) q))"
    and "sid \<noteq> m_stream_id msg \<Longrightarrow> dq_slot sid q' = dq_slot sid q"
proof -
  let ?s = "dq_slot (m_stream_id msg) q"
  obtain s' g d where r: "offer_stream (dq_window q) msg ?s (dq_gaps q) (dq_duplicates q) = (out, s', g, d)"
    "q' = q\<lparr>dq_streams := om_insert (m_stream_id msg) s' (dq_streams q), dq_gaps := g, dq_duplicates := d\<rparr>"
    using off by (auto simp: offer_def split: prod.splits)
  note s = dq_slot_ok [OF ok, of "m_stream_id msg"]
  have p: "pending_ok (so_pending ?s)" using s by (simp add: so_ok_def)
  note acc = offer_stream_accounts [OF r(1) p] and asc = offer_stream_ascends [OF r(1) _ id]
  show "dq_ok q'"
    using ok s acc(3) asc by (auto simp: dq_ok_def r(2) intro!: om.all_values_insert)
  show "\<forall>m \<in> set out. m_stream_id m = m_stream_id msg \<or> m \<in> snd ` set (so_pending ?s)"
    using acc(4) by auto
  show "dq_slot sid q' = dq_slot sid q" if "sid \<noteq> m_stream_id msg"
    using that by (simp add: dq_slot_def r(2))
qed

section \<open>A run of offers\<close>

fun offers :: "message list \<Rightarrow> delivery_queue \<Rightarrow> message list \<times> delivery_queue" where
  "offers [] q = ([], q)"
| "offers (m # ms) q =
     (case offer m q of (out, q1) \<Rightarrow> case offers ms q1 of (out', q2) \<Rightarrow> (out @ out', q2))"

definition dq_own :: "delivery_queue \<Rightarrow> bool" where
  "dq_own q \<longleftrightarrow> (\<forall>sid. \<forall>m \<in> snd ` set (so_pending (dq_slot sid q)). m_stream_id m = sid)"

lemma dq_own_new [simp]: "dq_own (delivery_queue_new w)"
  by (simp add: dq_own_def dq_slot_def delivery_queue_new_def stream_order_new_def)

lemma offer_parts:
  assumes "offer msg q = (out, q')"
  obtains s' g d where
    "offer_stream (dq_window q) msg (dq_slot (m_stream_id msg) q) (dq_gaps q) (dq_duplicates q) = (out, s', g, d)"
    and "dq_slot (m_stream_id msg) q' = s'" and "dq_duplicates q' = d" and "dq_window q' = dq_window q"
    and "dq_streams q' = om_insert (m_stream_id msg) s' (dq_streams q)"
    and "\<And>sid. sid \<noteq> m_stream_id msg \<Longrightarrow> dq_slot sid q' = dq_slot sid q"
  using assms by (auto simp: offer_def dq_slot_def split: prod.splits)

lemma offer_own:
  assumes own: "dq_own q" and ok: "dq_ok q" and off: "offer msg q = (out, q')"
  shows "dq_own q'" and "\<forall>m \<in> set out. m_stream_id m = m_stream_id msg"
proof -
  obtain s' g d where r: "offer_stream (dq_window q) msg (dq_slot (m_stream_id msg) q) (dq_gaps q)
      (dq_duplicates q) = (out, s', g, d)" "dq_slot (m_stream_id msg) q' = s'"
    "\<And>sid. sid \<noteq> m_stream_id msg \<Longrightarrow> dq_slot sid q' = dq_slot sid q"
    using offer_parts [OF off] by metis
  have "pending_ok (so_pending (dq_slot (m_stream_id msg) q))"
    using dq_slot_ok [OF ok] by (simp add: so_ok_def)
  note sub = offer_stream_accounts(4) [OF r(1) this]
  have mine: "\<forall>m \<in> snd ` set (so_pending (dq_slot (m_stream_id msg) q)). m_stream_id m = m_stream_id msg"
    using own by (simp add: dq_own_def)
  show "\<forall>m \<in> set out. m_stream_id m = m_stream_id msg" using sub mine by blast
  have "\<forall>m \<in> snd ` set (so_pending s'). m_stream_id m = m_stream_id msg" using sub mine by blast
  then show "dq_own q'" using own r(2,3) unfolding dq_own_def by metis
qed

lemma offers_ascend:
  assumes "dq_ok q" and "dq_own q" and "\<forall>m \<in> set ms. m_msg_id m < 0xFFFFFFFF"
    and "offers ms q = (out, q')"
  shows "sorted_wrt (<) (map m_msg_id (filter (\<lambda>m. m_stream_id m = sid) out)) \<and>
     (so_started (dq_slot sid q) \<longrightarrow>
       (\<forall>m \<in> set out. m_stream_id m = sid \<longrightarrow> so_next_expected (dq_slot sid q) \<le> m_msg_id m))"
  using assms
proof (induction ms arbitrary: q out)
  case Nil
  then show ?case by simp
next
  case (Cons msg ms)
  obtain out1 q1 out2 where o: "offer msg q = (out1, q1)" "offers ms q1 = (out2, q')" "out = out1 @ out2"
    using Cons.prems(4) by (auto split: prod.splits)
  have id: "m_msg_id msg < 0xFFFFFFFF" using Cons.prems(3) by simp
  have ok1: "dq_ok q1" by (rule offer_ok(1) [OF Cons.prems(1) id o(1)])
  note own1 = offer_own [OF Cons.prems(2,1) o(1)]
  have IH: "sorted_wrt (<) (map m_msg_id (filter (\<lambda>m. m_stream_id m = sid) out2))"
    "so_started (dq_slot sid q1) \<longrightarrow>
       (\<forall>m \<in> set out2. m_stream_id m = sid \<longrightarrow> so_next_expected (dq_slot sid q1) \<le> m_msg_id m)"
    using Cons.IH [OF ok1 own1(1) _ o(2)] Cons.prems(3) by auto
  show ?case
  proof (cases "m_stream_id msg = sid")
    case False
    then have "dq_slot sid q1 = dq_slot sid q" using offer_ok(3) [OF Cons.prems(1) id o(1)] by simp
    moreover have "filter (\<lambda>m. m_stream_id m = sid) out1 = []"
      using own1(2) False by (auto simp: filter_empty_conv)
    ultimately show ?thesis using IH own1(2) False by (auto simp: o(3))
  next
    case True
    obtain s' g d where r: "offer_stream (dq_window q) msg (dq_slot sid q) (dq_gaps q) (dq_duplicates q) =
        (out1, s', g, d)" "dq_slot sid q1 = s'"
      using offer_parts [OF o(1)] True by metis
    have "so_ok (dq_slot sid q)" using dq_slot_ok [OF Cons.prems(1)] by simp
    note asc = offer_stream_ascends [OF r(1) this id]
    have all1: "filter (\<lambda>m. m_stream_id m = sid) out1 = out1"
      using own1(2) True by (simp add: filter_id_conv)
    have later: "\<forall>m \<in> set out2. m_stream_id m = sid \<longrightarrow> so_next_expected s' \<le> m_msg_id m"
      using IH(2) asc r(2) by simp
    have "\<forall>x \<in> set out1. \<forall>y \<in> set out2. m_stream_id y = sid \<longrightarrow> m_msg_id x < m_msg_id y"
      using asc later by (meson less_le_trans)
    moreover have "so_started (dq_slot sid q) \<longrightarrow> (\<forall>m \<in> set out2. m_stream_id m = sid \<longrightarrow>
        so_next_expected (dq_slot sid q) \<le> m_msg_id m)"
      using asc later by (meson order_trans)
    ultimately show ?thesis using IH(1) asc all1 by (auto simp: o(3) sorted_wrt_append)
  qed
qed

text \<open>Nothing is lost: every offered message is delivered, buffered or counted.\<close>

lemma sum_om_insert:
  "om_ok m \<Longrightarrow> (\<Sum>kv \<leftarrow> om_insert k v m. f (snd kv)) + (case om_lookup m k of None \<Rightarrow> 0 | Some w \<Rightarrow> f w) =
     (\<Sum>kv \<leftarrow> m. f (snd kv)) + (f v :: nat)"
  by (induction m) (auto simp: om_ok_Cons om_lookup_def split: option.splits dest!: map_of_SomeD)

lemma offer_accounts:
  assumes ok: "dq_ok q" and off: "offer msg q = (out, q')"
  shows "length out + buffered q' + dq_duplicates q' = buffered q + dq_duplicates q + 1"
proof -
  obtain s' g d where r: "offer_stream (dq_window q) msg (dq_slot (m_stream_id msg) q) (dq_gaps q)
      (dq_duplicates q) = (out, s', g, d)" "dq_duplicates q' = d"
    "dq_streams q' = om_insert (m_stream_id msg) s' (dq_streams q)"
    using offer_parts [OF off] by metis
  have "pending_ok (so_pending (dq_slot (m_stream_id msg) q))"
    using dq_slot_ok [OF ok] by (simp add: so_ok_def)
  note acc = offer_stream_accounts(1) [OF r(1) this]
  have "om_ok (dq_streams q)" using ok by (simp add: dq_ok_def)
  from sum_om_insert [OF this, where k = "m_stream_id msg" and v = s' and f = "\<lambda>s. length (so_pending s)"]
  have "buffered q' + length (so_pending (dq_slot (m_stream_id msg) q)) = buffered q + length (so_pending s')"
    by (simp add: buffered_def r(3) dq_slot_def stream_order_new_def split: option.splits)
  with acc r(2) show ?thesis by linarith
qed

lemma offers_account:
  assumes "dq_ok q" and "\<forall>m \<in> set ms. m_msg_id m < 0xFFFFFFFF" and "offers ms q = (out, q')"
  shows "length out + buffered q' + dq_duplicates q' = buffered q + dq_duplicates q + length ms"
  using assms
proof (induction ms arbitrary: q out)
  case Nil
  then show ?case by simp
next
  case (Cons msg ms)
  obtain out1 q1 out2 where o: "offer msg q = (out1, q1)" "offers ms q1 = (out2, q')" "out = out1 @ out2"
    using Cons.prems(3) by (auto split: prod.splits)
  have "dq_ok q1" using offer_ok(1) [OF Cons.prems(1) _ o(1)] Cons.prems(2) by simp
  with Cons.IH [OF this _ o(2)] Cons.prems(2) offer_accounts [OF Cons.prems(1) o(1)] show ?case
    by (simp add: o(3))
qed

text \<open>At the largest id the cursor wraps to 0, and a message already delivered is delivered again.\<close>

definition last_id_message :: message where
  "last_id_message = \<lparr>m_stream_id = 1, m_msg_id = 0xFFFFFFFF, m_compressed = False, m_data = []\<rparr>"

lemma wrapped_cursor_redelivers:
  "(case offers [last_id_message, last_id_message] (delivery_queue_new 64) of (out, q) \<Rightarrow>
      (out, dq_duplicates q, fst (flush_stream 1 q))) = ([last_id_message], 0, [last_id_message])"
  by (simp add: offer_def offer_stream_def delivery_queue_new_def dq_slot_def stream_order_new_def
      last_id_message_def Let_def enforce_window.simps flush_stream_def om_lookup_def)

end
