(* ===== verification/Delivery_Progress.thy ===== *)
theory Delivery_Progress
  imports Delivery "HOL-Library.Multiset"
begin

text \<open>
  What ordered delivery achieves. A queue treats every stream on its own: the messages it releases for a
  stream and the state it keeps are those of a run of the stream alone over its own messages. And a
  stream whose messages all arrive, each once, in any order behind the first and within the window, is
  delivered completely and in order.
\<close>

section \<open>Every stream on its own\<close>

text \<open>The run of one stream; the counters of the queue do not matter to it.\<close>

fun stream_run :: "nat \<Rightarrow> message list \<Rightarrow> stream_order \<Rightarrow> message list \<times> stream_order" where
  "stream_run w [] s = ([], s)"
| "stream_run w (m # ms) s =
     (case offer_stream w m s 0 0 of (out, s1, _, _) \<Rightarrow>
      case stream_run w ms s1 of (out', s2) \<Rightarrow> (out @ out', s2))"

definition same_window :: "u32 \<times> (u32, message) omap \<times> message list \<times> nat \<Rightarrow>
    u32 \<times> (u32, message) omap \<times> message list \<times> nat \<Rightarrow> bool" where
  "same_window a b \<longleftrightarrow> (case (a, b) of ((n, p, out, g), (n', p', out', g')) \<Rightarrow> n = n' \<and> p = p' \<and> out = out')"

lemma enforce_window_gaps: "same_window (enforce_window w next p out g) (enforce_window w next p out g')"
proof (induction w "next" p out g arbitrary: g' rule: enforce_window.induct)
  case (1 w "next" p out g)
  show ?case
  proof (cases "w < length p")
    case False
    then show ?thesis by (simp add: enforce_window.simps same_window_def)
  next
    case True
    obtain n1 p1 out1 where d: "drain (fst (hd p)) p out = (n1, p1, out1)" by (metis prod.exhaust)
    have "enforce_window w next p out h =
        enforce_window w n1 p1 out1 (if next < fst (hd p) then h + 1 else h)" for h
      using True d by (subst enforce_window.simps) (simp add: Let_def)
    with "1.IH" [OF True refl refl d [symmetric] refl] show ?thesis by simp
  qed
qed

lemma offer_stream_counters:
  assumes "offer_stream w m s g d = (out, s', g1, d1)"
  obtains g2 d2 where "offer_stream w m s g' d' = (out, s', g2, d2)"
proof -
  have "same_window (enforce_window w n p [] g) (enforce_window w n p [] g')" for n p by (rule enforce_window_gaps)
  with assms that show thesis
    by (fastforce simp: offer_stream_def Let_def same_window_def split: if_splits prod.splits)
qed

lemma offers_stream_run:
  assumes "dq_ok q" "dq_own q" "\<forall>m \<in> set ms. m_msg_id m < 0xFFFFFFFF" "offers ms q = (out, q')"
  shows "stream_run (dq_window q) (filter (\<lambda>m. m_stream_id m = sid) ms) (dq_slot sid q) =
    (filter (\<lambda>m. m_stream_id m = sid) out, dq_slot sid q')"
  using assms
proof (induction ms arbitrary: q out)
  case (Cons msg ms)
  obtain out1 q1 out2 where o: "offer msg q = (out1, q1)" "offers ms q1 = (out2, q')" "out = out1 @ out2"
    using Cons.prems(4) by (auto split: prod.splits)
  have id: "m_msg_id msg < 0xFFFFFFFF" using Cons.prems(3) by simp
  have ok1: "dq_ok q1" by (rule offer_ok(1) [OF Cons.prems(1) id o(1)])
  note own1 = offer_own [OF Cons.prems(2,1) o(1)]
  obtain s' g d where r: "offer_stream (dq_window q) msg (dq_slot (m_stream_id msg) q) (dq_gaps q)
      (dq_duplicates q) = (out1, s', g, d)" "dq_slot (m_stream_id msg) q1 = s'" "dq_window q1 = dq_window q"
    using offer_parts [OF o(1)] by metis
  have IH: "stream_run (dq_window q) (filter (\<lambda>m. m_stream_id m = sid) ms) (dq_slot sid q1) =
      (filter (\<lambda>m. m_stream_id m = sid) out2, dq_slot sid q')"
    using Cons.IH [OF ok1 own1(1) _ o(2)] Cons.prems(3) r(3) by simp
  show ?case
  proof (cases "m_stream_id msg = sid")
    case True
    obtain g2 d2 where "offer_stream (dq_window q) msg (dq_slot sid q) 0 0 = (out1, s', g2, d2)"
      using offer_stream_counters [OF r(1), of 0 0] True by auto
    moreover have "filter (\<lambda>m. m_stream_id m = sid) out1 = out1" using own1(2) True by (simp add: filter_id_conv)
    ultimately show ?thesis using IH r(2) True by (simp add: o(3))
  next
    case False
    then have "dq_slot sid q1 = dq_slot sid q" using offer_ok(3) [OF Cons.prems(1) id o(1)] by simp
    moreover have "filter (\<lambda>m. m_stream_id m = sid) out1 = []" using own1(2) False by (auto simp: filter_empty_conv)
    ultimately show ?thesis using IH False by (simp add: o(3))
  qed
qed simp

section \<open>Complete delivery\<close>

text \<open>What a drain releases has consecutive ids.\<close>

lemma atLeastLessThan_succ: "k < (0xFFFFFFFF :: u32) \<Longrightarrow> k + 1 \<le> n \<Longrightarrow> {k..<n} = insert k {k + 1..<n}"
proof -
  assume k: "k < (0xFFFFFFFF :: u32)" "k + 1 \<le> n"
  note up = succ_above [OF k(1)]
  have "k < n" using up k(2) by (blast intro: less_le_trans)
  moreover have "k \<le> x \<longleftrightarrow> x = k \<or> k + 1 \<le> x" for x
  proof
    assume "k \<le> x"
    then consider "x = k" | "k < x" by (auto simp: order_le_less)
    then show "x = k \<or> k + 1 \<le> x" using up by cases auto
  next
    assume "x = k \<or> k + 1 \<le> x"
    then show "k \<le> x" using up by (auto intro: less_imp_le less_le_trans)
  qed
  ultimately show ?thesis by auto
qed

lemma drain_contiguous:
  assumes "drain next p out = (n, p', out')" "pending_ok p" "\<forall>k \<in> fst ` set p. next \<le> k \<and> k < 0xFFFFFFFF"
  shows "\<exists>ms. out' = out @ ms \<and> m_msg_id ` set ms = {next..<n} \<and> next \<le> n"
  using assms
proof (induction "next" p out rule: drain.induct)
  case (2 "next" k m p out)
  show ?case
  proof (cases "k = next")
    case True
    have mid: "m_msg_id m = next" using "2.prems"(2) True by simp
    have "next < 0xFFFFFFFF" using "2.prems"(3) True by simp
    note up = succ_above [OF this]
    have "\<forall>k \<in> fst ` set p. next + 1 \<le> k \<and> k < 0xFFFFFFFF" using "2.prems"(2,3) True up by auto
    then obtain ms where ms: "out' = (out @ [m]) @ ms" "m_msg_id ` set ms = {next + 1..<n}" "next + 1 \<le> n"
      using "2.IH" "2.prems"(1,2) True by auto
    from atLeastLessThan_succ [OF \<open>next < 0xFFFFFFFF\<close> ms(3)] ms mid up show ?thesis
      by (intro exI [of _ "m # ms"]) (auto simp: less_imp_le intro: order_trans)
  qed (use "2.prems" in auto)
qed auto

text \<open>
  The state of a stream that started with the id \<open>b\<close> and was offered the messages \<open>ms\<close>, of which it released
  \<open>out\<close>: the released ids are an interval from \<open>b\<close>, the others wait behind the hole.
\<close>

definition on_track :: "u32 \<Rightarrow> message list \<Rightarrow> message list \<Rightarrow> stream_order \<Rightarrow> bool" where
  "on_track b ms out s \<longleftrightarrow>
     so_started s \<and> pending_ok (so_pending s) \<and> ahead (so_next_expected s) (so_pending s) \<and>
     b \<le> so_next_expected s \<and> m_msg_id ` set out = {b..<so_next_expected s} \<and>
     mset (out @ map snd (so_pending s)) = mset ms"

lemma on_track_ids:
  assumes "on_track b ms out s"
  shows "m_msg_id ` set ms = {b..<so_next_expected s} \<union> fst ` set (so_pending s)"
proof -
  have "mset ms = mset (out @ map snd (so_pending s))" using assms by (simp add: on_track_def)
  then have "set ms = set (out @ map snd (so_pending s))" by (rule mset_eq_setD)
  moreover have "m_msg_id ` snd ` set (so_pending s) = fst ` set (so_pending s)"
    using assms by (force simp: on_track_def pending_ok_def image_iff)
  ultimately show ?thesis using assms by (simp add: on_track_def image_Un)
qed

lemma om_insert_mset: "om_ok p \<Longrightarrow> om_lookup p k = None \<Longrightarrow> mset (om_insert k v p) = add_mset (k, v) (mset p)"
  by (induction p) (auto simp: om_lookup_def om_ok_Cons split: if_splits)

lemma on_track_first:
  assumes "\<not> so_started s" "so_pending s = []" "m_msg_id m < 0xFFFFFFFF"
  shows "\<exists>out s' g d. offer_stream w m s 0 0 = (out, s', g, d) \<and> on_track (m_msg_id m) [m] out s'"
  using assms succ_above [of "m_msg_id m"] atLeastLessThan_succ [OF assms(3) order_refl]
  by (auto simp: offer_stream_def on_track_def ahead_def less_imp_le)

lemma on_track_step:
  assumes t: "on_track b ms out s" and new: "m_msg_id m \<notin> m_msg_id ` set ms"
    and m: "b \<le> m_msg_id m" "m_msg_id m < 0xFFFFFFFF" and w: "length ms \<le> w" and b: "b \<in> m_msg_id ` set ms"
  shows "\<exists>out' s' g d. offer_stream w m s 0 0 = (out', s', g, d) \<and> on_track b (m # ms) (out @ out') s'"
proof -
  let ?next = "so_next_expected s" and ?p = "so_pending s"
  have st: "so_started s" "pending_ok ?p" "ahead ?next ?p" "b \<le> ?next" "m_msg_id ` set out = {b..<?next}"
    "mset out + mset (map snd ?p) = mset ms" using t by (simp_all add: on_track_def)
  have fresh: "\<not> m_msg_id m < ?next" "m_msg_id m \<notin> fst ` set ?p" using new m(1) by (auto simp: on_track_ids [OF t])
  show ?thesis
  proof (cases "m_msg_id m = ?next")
    case True
    obtain n p1 out1 where d: "drain (?next + 1) ?p [m] = (n, p1, out1)" by (metis prod.exhaust)
    have below: "?next < 0xFFFFFFFF" using m(2) True by simp
    note up = succ_above [OF below]
    have above: "\<forall>k \<in> fst ` set ?p. ?next + 1 \<le> k \<and> k < 0xFFFFFFFF" using st(3) up by (auto simp: ahead_def)
    from drain_contiguous [OF d st(2) above] obtain rel where rel: "out1 = [m] @ rel"
      "m_msg_id ` set rel = {?next + 1..<n}" "?next + 1 \<le> n" by blast
    have released: "m_msg_id ` set (out @ out1) = {b..<n}"
      using atLeastLessThan_succ [OF below rel(3)] rel st(4,5) True up ivl_disj_un_two(3) [OF st(4), of n]
      by (auto simp: image_Un less_imp_le intro: order_trans)
    have "mset (out1 @ map snd p1) = mset ([m] @ map snd ?p)" by (simp only: drain_conserves [OF d])
    then have "mset ((out @ out1) @ map snd p1) = mset (m # ms)" using st(6) by (simp add: ac_simps)
    moreover have "ahead n p1" using drain_ascends [OF d st(2) above] by blast
    moreover have "b \<le> n" using st(4) up rel(3) by (meson less_imp_le order_trans)
    ultimately have "on_track b (m # ms) (out @ out1) (s\<lparr>so_next_expected := n, so_pending := p1\<rparr>)"
      using released st(1) drain_pending_ok [OF d st(2)] by (simp add: on_track_def)
    moreover have "offer_stream w m s 0 0 = (out1, s\<lparr>so_next_expected := n, so_pending := p1\<rparr>, 0, 0)"
      using st(1) True d by (simp add: offer_stream_def)
    ultimately show ?thesis by blast
  next
    case False
    then have later: "?next < m_msg_id m" using fresh(1) by (simp add: order_less_le not_less)
    let ?q = "om_insert (m_msg_id m) m ?p"
    have ok: "om_ok ?p" using st(2) by (simp add: pending_ok_def)
    have none: "om_lookup ?p (m_msg_id m) = None" using fresh(2) ok by (auto simp: om_lookup_dom)
    have len: "length ?q = Suc (length ?p)" using om_insert_length [OF ok, of "m_msg_id m" m] none by simp
    have "out \<noteq> []"
    proof
      assume "out = []"
      then have "?next = b" using st(4,5) by (simp add: order_le_less)
      with b st(3) show False by (auto simp: on_track_ids [OF t] ahead_def)
    qed
    then have "length ?p < length ms" using arg_cong [OF st(6), of size] by (cases out) simp_all
    with len w have fits: "\<not> w < length ?q" by simp
    have offer: "offer_stream w m s 0 0 = ([], s\<lparr>so_next_expected := ?next, so_pending := ?q\<rparr>, 0, 0)"
      using st(1) False fresh(1) none fits by (simp add: offer_stream_def enforce_window.simps)
    have "mset (map snd ?q) = add_mset m (mset (map snd ?p))"
      using om_insert_mset [OF ok none, of m] by simp
    then have "on_track b (m # ms) (out @ []) (s\<lparr>so_next_expected := ?next, so_pending := ?q\<rparr>)"
      using st pending_ok_insert [OF st(2), of m] later m(2) om_keys_insert [of "m_msg_id m" m ?p]
      by (auto simp: on_track_def ahead_def)
    with offer show ?thesis by blast
  qed
qed

lemma run_on_track:
  assumes "on_track b ms out s" "b \<in> m_msg_id ` set ms" "distinct (map m_msg_id rest)"
    and "m_msg_id ` set rest \<inter> m_msg_id ` set ms = {}" "\<forall>m \<in> set rest. b \<le> m_msg_id m \<and> m_msg_id m < 0xFFFFFFFF"
    and "length ms + length rest \<le> Suc w"
  shows "\<exists>out' s'. stream_run w rest s = (out', s') \<and> on_track b (rev rest @ ms) (out @ out') s'"
  using assms
proof (induction rest arbitrary: ms out s)
  case (Cons m rest)
  obtain out1 s1 g d where 1: "offer_stream w m s 0 0 = (out1, s1, g, d)" "on_track b (m # ms) (out @ out1) s1"
    using on_track_step [OF Cons.prems(1), of m w] Cons.prems by force
  obtain out2 s2 where "stream_run w rest s1 = (out2, s2)" "on_track b (rev rest @ m # ms) ((out @ out1) @ out2) s2"
    using Cons.IH [OF 1(2)] Cons.prems by force
  with 1(1) show ?case by auto
qed simp

lemma on_track_complete:
  assumes t: "on_track b ms out s" and ids: "m_msg_id ` set ms = {b..<e}"
  shows "so_pending s = []" "mset out = mset ms"
proof -
  let ?next = "so_next_expected s"
  have ahead: "ahead ?next (so_pending s)" and b: "b \<le> ?next" using t by (simp_all add: on_track_def)
  have "k \<notin> fst ` set (so_pending s)" for k
  proof
    assume k: "k \<in> fst ` set (so_pending s)"
    then have "?next < k" "k < e" using ahead ids on_track_ids [OF t] by (auto simp: ahead_def)
    then have "?next \<in> {b..<e}" using b by auto
    then have "?next \<in> {b..<?next} \<union> fst ` set (so_pending s)" unfolding ids [symmetric] on_track_ids [OF t] .
    then show False using ahead by (auto simp: ahead_def)
  qed
  then show none: "so_pending s = []" by (cases "so_pending s") auto
  show "mset out = mset ms" using t by (simp add: on_track_def none)
qed

theorem complete_stream_delivered:
  assumes run: "offers ms (delivery_queue_new w) = (out, q)" and max: "\<forall>m \<in> set ms. m_msg_id m < 0xFFFFFFFF"
    and my: "filter (\<lambda>m. m_stream_id m = sid) ms = first # rest"
    and ids: "distinct (map m_msg_id (first # rest))" "m_msg_id ` set (first # rest) = {m_msg_id first..<e}"
    and w: "length rest \<le> w"
  shows "mset (filter (\<lambda>m. m_stream_id m = sid) out) = mset (first # rest)"
    "sorted_wrt (<) (map m_msg_id (filter (\<lambda>m. m_stream_id m = sid) out))"
    "so_pending (dq_slot sid q) = []"
proof -
  let ?q = "delivery_queue_new w"
  have slot: "dq_slot sid ?q = stream_order_new" by (simp add: dq_slot_def delivery_queue_new_def)
  have below: "\<forall>m \<in> set (first # rest). m_msg_id m < 0xFFFFFFFF"
    using max arg_cong [OF my, of set] by auto
  obtain out1 s1 g d where 1: "offer_stream (dq_window ?q) first stream_order_new 0 0 = (out1, s1, g, d)"
    "on_track (m_msg_id first) [first] out1 s1"
    using on_track_first [of stream_order_new first "dq_window ?q"] below by (auto simp: stream_order_new_def)
  have range: "\<forall>m \<in> set rest. m_msg_id first \<le> m_msg_id m \<and> m_msg_id m < 0xFFFFFFFF"
  proof
    fix m assume m: "m \<in> set rest"
    then have "m_msg_id m \<in> {m_msg_id first..<e}" unfolding ids(2) [symmetric] by simp
    with m below show "m_msg_id first \<le> m_msg_id m \<and> m_msg_id m < 0xFFFFFFFF" by simp
  qed
  have "length [first] + length rest \<le> Suc (dq_window ?q)" using w by (auto simp: delivery_queue_new_def)
  moreover have "distinct (map m_msg_id rest)" "m_msg_id ` set rest \<inter> m_msg_id ` set [first] = {}" using ids(1) by auto
  ultimately obtain out2 s2 where 2: "stream_run (dq_window ?q) rest s1 = (out2, s2)"
    "on_track (m_msg_id first) (rev rest @ [first]) (out1 @ out2) s2"
    using run_on_track [OF 1(2) _ _ _ range] by (metis image_eqI list.set_intros(1))
  have "stream_run (dq_window ?q) (first # rest) stream_order_new = (out1 @ out2, s2)" using 1 2 by simp
  then have eq: "filter (\<lambda>m. m_stream_id m = sid) out = out1 @ out2" "dq_slot sid q = s2"
    using offers_stream_run [OF dq_ok_new dq_own_new max run, of sid] by (simp_all add: slot my)
  have "m_msg_id ` set (rev rest @ [first]) = {m_msg_id first..<e}" using ids(2) by simp
  from on_track_complete [OF 2(2) this] show "mset (filter (\<lambda>m. m_stream_id m = sid) out) = mset (first # rest)"
    "so_pending (dq_slot sid q) = []" by (simp_all add: eq)
  show "sorted_wrt (<) (map m_msg_id (filter (\<lambda>m. m_stream_id m = sid) out))"
    using offers_ascend [OF dq_ok_new dq_own_new max run] by blast
qed

end
