(* ===== verification/Bit_Reader.thy ===== *)
theory Bit_Reader
  imports Status
begin

text \<open>
  \<^verbatim>\<open>common::BitReader\<close> (\<^verbatim>\<open>include/common/bit_reader.hpp\<close>, \<^verbatim>\<open>src/common/bit_reader.cpp\<close>): bits taken
  most significant first. The reader's two loops, whole bytes while the cursor is aligned and single
  bits otherwise, are shown to compute the number the bits of the stream spell.
\<close>

unbundle bit_operations_syntax

record bit_reader =
  br_data :: bytes
  br_pos :: nat

definition bit_reader_new :: "bytes \<Rightarrow> bit_reader" where
  "bit_reader_new bs = \<lparr>br_data = bs, br_pos = 0\<rparr>"

definition br_size_bits :: "bit_reader \<Rightarrow> nat" where
  "br_size_bits r = length (br_data r) * 8"

definition bits_remaining :: "bit_reader \<Rightarrow> nat" where
  "bits_remaining r = (if br_pos r \<le> br_size_bits r then br_size_bits r - br_pos r else 0)"

definition br_eof :: "bit_reader \<Rightarrow> bool" where
  "br_eof r \<longleftrightarrow> br_size_bits r \<le> br_pos r"

definition read_bit :: "bit_reader \<Rightarrow> (u8 \<times> bit_reader) result" where
  "read_bit r =
     (if br_size_bits r \<le> br_pos r
      then Inl (ParseError kShortRead (br_pos r div 8) ''bit read past end'')
      else Inr (drop_bit (7 - br_pos r mod 8) (br_data r ! (br_pos r div 8)) AND 1,
                r\<lparr>br_pos := br_pos r + 1\<rparr>))"

text \<open>The two loops of \<^verbatim>\<open>read_bits\<close>: the first stops when fewer than eight bits are wanted or the cursor
  is not aligned, the second finishes bit by bit.\<close>

function read_whole_bytes :: "nat \<Rightarrow> u64 \<Rightarrow> bit_reader \<Rightarrow> nat \<times> u64 \<times> bit_reader" where
  "read_whole_bytes count acc r =
     (if 8 \<le> count \<and> br_pos r mod 8 = 0
      then read_whole_bytes (count - 8) (push_bit 8 acc OR ucast (br_data r ! (br_pos r div 8)))
             (r\<lparr>br_pos := br_pos r + 8\<rparr>)
      else (count, acc, r))"
  by pat_completeness auto
termination
  by (relation "measure fst") auto

declare read_whole_bytes.simps [simp del]

fun read_single_bits :: "nat \<Rightarrow> u64 \<Rightarrow> bit_reader \<Rightarrow> (u64 \<times> bit_reader) result" where
  "read_single_bits 0 acc r = Inr (acc, r)"
| "read_single_bits (Suc count) acc r = bindE (read_bit r) (\<lambda>(b, r').
     read_single_bits count (push_bit 1 acc OR ucast b) r')"

definition read_bits :: "nat \<Rightarrow> bit_reader \<Rightarrow> (u64 \<times> bit_reader) result" where
  "read_bits count r =
     (if count = 0 then Inr (0, r)
      else if 64 < count
      then Inl (ParseError kBadLength (br_pos r div 8) ''bit field wider than 64 bits'')
      else if bits_remaining r < count then Inl (parse_error_default kShortRead (br_pos r div 8))
      else case read_whole_bytes count 0 r of (count', acc, r') \<Rightarrow> read_single_bits count' acc r')"

definition skip_bits :: "nat \<Rightarrow> bit_reader \<Rightarrow> (unit \<times> bit_reader) result" where
  "skip_bits count r =
     (if bits_remaining r < count then Inl (parse_error_default kShortRead (br_pos r div 8))
      else Inr ((), r\<lparr>br_pos := br_pos r + count\<rparr>))"

definition align :: "bit_reader \<Rightarrow> bit_reader" where
  "align r = (let m = br_pos r mod 8 in if m \<noteq> 0 then r\<lparr>br_pos := br_pos r + (8 - m)\<rparr> else r)"

section \<open>The bit stream a buffer is\<close>

definition stream_bit :: "bytes \<Rightarrow> nat \<Rightarrow> bool" where
  "stream_bit bs i = bit (bs ! (i div 8)) (7 - i mod 8)"

definition msb_value :: "u64 \<Rightarrow> bool list \<Rightarrow> u64" where
  "msb_value acc bits = foldl (\<lambda>v b. push_bit 1 v OR of_bool b) acc bits"

primrec stream_bits :: "bytes \<Rightarrow> nat \<Rightarrow> nat \<Rightarrow> bool list" where
  "stream_bits bs pos 0 = []"
| "stream_bits bs pos (Suc n) = stream_bit bs pos # stream_bits bs (Suc pos) n"

lemma msb_value_append: "msb_value acc (xs @ ys) = msb_value (msb_value acc xs) ys"
  by (simp add: msb_value_def)

lemma msb_value_Cons: "msb_value acc (b # ys) = msb_value (push_bit 1 acc OR of_bool b) ys"
  by (simp add: msb_value_def)

lemma stream_bits_add: "stream_bits bs pos (m + n) = stream_bits bs pos m @ stream_bits bs (pos + m) n"
  by (induction m arbitrary: pos) simp_all

lemma stream_bits_map: "stream_bits bs pos n = map (\<lambda>i. stream_bit bs (pos + i)) [0..<n]"
proof (induction n arbitrary: pos)
  case 0
  then show ?case by simp
next
  case (Suc n)
  show ?case by (simp add: Suc.IH upt_conv_Cons map_Suc_upt [symmetric] del: upt_Suc)
qed

lemma read_bit_ok:
  assumes "br_pos r < br_size_bits r"
  shows "read_bit r = Inr (of_bool (stream_bit (br_data r) (br_pos r)), r\<lparr>br_pos := Suc (br_pos r)\<rparr>)"
proof -
  have "drop_bit k (b :: u8) AND 1 = of_bool (bit b k)" for k b
    by (simp add: and_one_eq mod_2_eq_odd bit_iff_odd_drop_bit)
  with assms show ?thesis by (simp add: read_bit_def stream_bit_def)
qed

text \<open>A whole byte is its eight bits.\<close>

lemma bit_shift_in:
  "push_bit (Suc m) acc OR ucast (drop_bit k (b :: u8)) =
     push_bit 1 (push_bit m acc OR ucast (drop_bit (Suc k) b)) OR of_bool (bit b k)" for acc :: u64
proof (rule bit_word_eqI)
  fix n assume "n < LENGTH(64)"
  then show "bit (push_bit (Suc m) acc OR ucast (drop_bit k b)) n =
     bit (push_bit 1 (push_bit m acc OR ucast (drop_bit (Suc k) b)) OR of_bool (bit b k) :: u64) n"
    by (cases n)
      (auto simp: bit_or_iff bit_push_bit_iff bit_drop_bit_eq bit_of_bool_iff ucast_u8_bit
        simp del: push_bit_Suc dest: bit_imp_le_length)
qed

lemma byte_shift_in:
  "push_bit 8 acc OR ucast (b :: u8) =
     msb_value acc (map (bit b) [7, 6, 5, 4, 3, 2, 1, 0])"
proof -
  have top: "drop_bit 8 b = 0" by (rule bit_word_eqI) (auto simp: bit_simps dest: bit_imp_le_length)
  have "msb_value acc (map (bit b) (rev [k..<8])) = push_bit (8 - k) acc OR ucast (drop_bit k b)"
    if "k \<le> 8" for k
    using that
  proof (induction k rule: inc_induct)
    case base
    then show ?case by (simp add: msb_value_def top)
  next
    case (step k)
    then have "8 - k = Suc (8 - Suc k)" by simp
    with step show ?case
      by (simp add: upt_conv_Cons msb_value_append msb_value_Cons [of _ _ "[]"] bit_shift_in
          del: push_bit_Suc) (simp add: msb_value_def)
  qed
  from this [of 0] show ?thesis by (simp add: upt_rec numeral_eq_Suc)
qed

lemma stream_bits_aligned:
  assumes "pos mod 8 = 0"
  shows "stream_bits bs pos 8 = map (bit (bs ! (pos div 8))) [7, 6, 5, 4, 3, 2, 1, 0]"
proof -
  from assms obtain q where q: "pos = 8 * q" by (auto simp: mod_eq_0_iff_dvd)
  have "stream_bit bs (8 * q + i) = bit (bs ! q) (7 - i)" if "i < 8" for i
    using that by (simp add: stream_bit_def)
  then have "stream_bits bs pos 8 = map (\<lambda>i. bit (bs ! q) (7 - i)) [0..<8]"
    unfolding stream_bits_map q by (intro map_cong) auto
  moreover have "[0..<8] = [0, 1, 2, 3, 4, 5, 6, 7]" by code_simp
  ultimately show ?thesis by (simp add: q)
qed

lemma read_whole_bytes_spec:
  assumes "read_whole_bytes count acc r = (count', acc', r')"
  shows "count' \<le> count \<and> r' = r\<lparr>br_pos := br_pos r + (count - count')\<rparr> \<and>
         acc' = msb_value acc (stream_bits (br_data r) (br_pos r) (count - count'))"
  using assms
proof (induction count arbitrary: acc r rule: less_induct)
  case (less count)
  show ?case
  proof (cases "8 \<le> count \<and> br_pos r mod 8 = 0")
    case False
    with less.prems have "count' = count" "acc' = acc" "r' = r"
      by (auto simp: read_whole_bytes.simps [of count] split: if_splits)
    then show ?thesis by (simp add: msb_value_def)
  next
    case True
    let ?b = "br_data r ! (br_pos r div 8)"
    let ?acc = "push_bit 8 acc OR ucast ?b" and ?r = "r\<lparr>br_pos := br_pos r + 8\<rparr>"
    from less.prems True have "read_whole_bytes (count - 8) ?acc ?r = (count', acc', r')"
      by (simp add: read_whole_bytes.simps [of count])
    moreover have "count - 8 < count" using True by simp
    ultimately have IH: "count' \<le> count - 8" "r' = ?r\<lparr>br_pos := br_pos ?r + (count - 8 - count')\<rparr>"
        "acc' = msb_value ?acc (stream_bits (br_data ?r) (br_pos ?r) (count - 8 - count'))"
      using less.IH by blast+
    have split: "count - count' = 8 + (count - 8 - count')" using IH(1) True by arith
    have "?acc = msb_value acc (stream_bits (br_data r) (br_pos r) 8)"
      using True by (simp add: byte_shift_in stream_bits_aligned)
    then have "acc' = msb_value acc (stream_bits (br_data r) (br_pos r) (8 + (count - 8 - count')))"
      by (simp add: IH(3) stream_bits_add msb_value_append)
    then have "acc' = msb_value acc (stream_bits (br_data r) (br_pos r) (count - count'))"
      by (simp only: split)
    moreover have "r' = r\<lparr>br_pos := br_pos r + (count - count')\<rparr>"
      unfolding IH(2) split by (simp add: add.assoc)
    ultimately show ?thesis using IH(1) by simp
  qed
qed

lemma read_single_bits_spec:
  assumes "br_pos r + count \<le> br_size_bits r"
  shows "read_single_bits count acc r =
     Inr (msb_value acc (stream_bits (br_data r) (br_pos r) count), r\<lparr>br_pos := br_pos r + count\<rparr>)"
  using assms
proof (induction count arbitrary: acc r)
  case 0
  then show ?case by (simp add: msb_value_def)
next
  case (Suc count)
  then show ?case
    by (simp add: read_bit_ok msb_value_Cons br_size_bits_def)
qed

lemma read_bits_spec:
  assumes "count \<le> 64" and "count \<le> bits_remaining r"
  shows "read_bits count r =
     Inr (msb_value 0 (stream_bits (br_data r) (br_pos r) count), r\<lparr>br_pos := br_pos r + count\<rparr>)"
proof (cases "count = 0")
  case True
  then show ?thesis by (simp add: read_bits_def msb_value_def)
next
  case False
  obtain count' acc' r' where w: "read_whole_bytes count 0 r = (count', acc', r')"
    by (cases "read_whole_bytes count 0 r") auto
  note spec = read_whole_bytes_spec [OF w]
  have "br_pos r + count \<le> br_size_bits r"
    using assms(2) False by (simp add: bits_remaining_def split: if_splits)
  moreover have "stream_bits (br_data r) (br_pos r) count =
      stream_bits (br_data r) (br_pos r) (count - count') @
      stream_bits (br_data r) (br_pos r + (count - count')) count'"
    using spec stream_bits_add [of "br_data r" "br_pos r" "count - count'" count'] by simp
  ultimately have "read_single_bits count' acc' r' =
      Inr (msb_value 0 (stream_bits (br_data r) (br_pos r) count), r\<lparr>br_pos := br_pos r + count\<rparr>)"
    using spec by (subst read_single_bits_spec)
      (auto simp: br_size_bits_def msb_value_append)
  with assms False w show ?thesis by (simp add: read_bits_def)
qed

lemma align_spec:
  assumes "br_pos r \<le> br_size_bits r"
  shows "br_pos (align r) mod 8 = 0 \<and> br_pos r \<le> br_pos (align r) \<and> br_pos (align r) < br_pos r + 8 \<and>
         br_pos (align r) \<le> br_size_bits r"
proof -
  obtain q m where qm: "br_pos r = 8 * q + m" "m < 8"
    by (metis mod_less_divisor mult_div_mod_eq zero_less_numeral)
  show ?thesis
  proof (cases "m = 0")
    case True
    with qm assms show ?thesis by (simp add: align_def Let_def)
  next
    case False
    have "8 * q + m \<le> 8 * length (br_data r)" using assms qm by (simp add: br_size_bits_def)
    with False have "8 * q + 8 \<le> 8 * length (br_data r)" by arith
    moreover from False qm have "br_pos (align r) = 8 * q + 8" by (simp add: align_def Let_def)
    ultimately show ?thesis using qm False by (simp add: br_size_bits_def)
  qed
qed

end
