(* ===== verification/Utf8.thy ===== *)
theory Utf8
  imports Bw_Prelude
begin

text \<open>
  Strict UTF-8 (\<^verbatim>\<open>include/common/utf8.hpp\<close>, \<^verbatim>\<open>src/common/utf8.cpp\<close>). \<^verbatim>\<open>decode\<close> returns \<open>None\<close> where
  the code returns 0 bytes. The abstract specification is the set of Unicode scalar values and the
  concatenation of their encodings: decoding and encoding are inverse, and exactly the encodings of
  scalar values validate.
\<close>

unbundle bit_operations_syntax

definition kMaxCodepoint :: u32 where
  "kMaxCodepoint = 0x10FFFF"

text \<open>The length, the initial bits and the overlong gate that the lead byte selects.\<close>

definition utf8_lead :: "u8 \<Rightarrow> (nat \<times> u32 \<times> u32) option" where
  "utf8_lead b0 =
     (if b0 AND 0xE0 = 0xC0 then Some (2, ucast (b0 AND 0x1F), 0x80)
      else if b0 AND 0xF0 = 0xE0 then Some (3, ucast (b0 AND 0x0F), 0x800)
      else if b0 AND 0xF8 = 0xF0 then Some (4, ucast (b0 AND 0x07), 0x10000)
      else None)"

fun utf8_cont :: "u32 \<Rightarrow> bytes \<Rightarrow> u32 option" where
  "utf8_cont val [] = Some val"
| "utf8_cont val (b # bs) =
     (if b AND 0xC0 \<noteq> 0x80 then None else utf8_cont (push_bit 6 val OR ucast (b AND 0x3F)) bs)"

fun utf8_decode :: "bytes \<Rightarrow> (nat \<times> u32) option" where
  "utf8_decode [] = None"
| "utf8_decode (b0 # bs) =
     (if b0 < 0x80 then Some (1, ucast b0)
      else case utf8_lead b0 of
        None \<Rightarrow> None
      | Some (len, val, min_value) \<Rightarrow>
          if length (b0 # bs) < len then None
          else case utf8_cont val (take (len - 1) bs) of
            None \<Rightarrow> None
          | Some val \<Rightarrow>
              if val < min_value then None
              else if 0xD800 \<le> val \<and> val \<le> 0xDFFF then None
              else if kMaxCodepoint < val then None
              else Some (len, val))"

lemma utf8_decode_pos: "utf8_decode bs = Some (n, cp) \<Longrightarrow> 0 < n \<and> n \<le> length bs"
  by (cases bs) (auto simp: utf8_lead_def Suc_le_eq split: if_splits option.splits)

text \<open>The three loops over a whole buffer; \<^verbatim>\<open>to_codepoints\<close> leaves its partial output behind.\<close>

function utf8_validate :: "bytes \<Rightarrow> bool" where
  "utf8_validate bs =
     (if bs = [] then True
      else case utf8_decode bs of None \<Rightarrow> False | Some (n, cp) \<Rightarrow> utf8_validate (drop n bs))"
  by pat_completeness auto
termination
  by (relation "measure length") (auto dest!: utf8_decode_pos)

declare utf8_validate.simps [simp del]

definition utf8_validate_string :: "string \<Rightarrow> bool" where
  "utf8_validate_string s = utf8_validate (bytes_of_string s)"

function count_codepoints_loop :: "nat \<Rightarrow> bytes \<Rightarrow> nat option" where
  "count_codepoints_loop n_cp bs =
     (if bs = [] then Some n_cp
      else case utf8_decode bs of
        None \<Rightarrow> None
      | Some (n, cp) \<Rightarrow> count_codepoints_loop (n_cp + 1) (drop n bs))"
  by pat_completeness auto
termination
  by (relation "measure (\<lambda>(k, bs). length bs)") (auto dest!: utf8_decode_pos)

declare count_codepoints_loop.simps [simp del]

definition count_codepoints :: "bytes \<Rightarrow> nat option" where
  "count_codepoints bs = count_codepoints_loop 0 bs"

function to_codepoints_loop :: "bytes \<Rightarrow> u32 list \<Rightarrow> bool \<times> u32 list" where
  "to_codepoints_loop bs out =
     (if bs = [] then (True, out)
      else case utf8_decode bs of
        None \<Rightarrow> (False, out)
      | Some (n, cp) \<Rightarrow> to_codepoints_loop (drop n bs) (out @ [cp]))"
  by pat_completeness auto
termination
  by (relation "measure (\<lambda>(bs, out). length bs)") (auto dest!: utf8_decode_pos)

declare to_codepoints_loop.simps [simp del]

definition to_codepoints :: "string \<Rightarrow> u32 list \<Rightarrow> bool \<times> u32 list" where
  "to_codepoints s out = to_codepoints_loop (bytes_of_string s) out"

definition utf8_encode :: "u32 \<Rightarrow> string \<Rightarrow> bool \<times> string" where
  "utf8_encode cp out =
     (if (0xD800 \<le> cp \<and> cp \<le> 0xDFFF) \<or> kMaxCodepoint < cp then (False, out)
      else if cp < 0x80 then (True, out @ [char_of_byte (ucast cp)])
      else if cp < 0x800 then
        (True, out @ [char_of_byte (ucast (0xC0 OR drop_bit 6 cp)),
                      char_of_byte (ucast (0x80 OR (cp AND 0x3F)))])
      else if cp < 0x10000 then
        (True, out @ [char_of_byte (ucast (0xE0 OR drop_bit 12 cp)),
                      char_of_byte (ucast (0x80 OR (drop_bit 6 cp AND 0x3F))),
                      char_of_byte (ucast (0x80 OR (cp AND 0x3F)))])
      else
        (True, out @ [char_of_byte (ucast (0xF0 OR drop_bit 18 cp)),
                      char_of_byte (ucast (0x80 OR (drop_bit 12 cp AND 0x3F))),
                      char_of_byte (ucast (0x80 OR (drop_bit 6 cp AND 0x3F))),
                      char_of_byte (ucast (0x80 OR (cp AND 0x3F)))]))"

section \<open>Scalar values and their encodings\<close>

definition scalar_value :: "u32 \<Rightarrow> bool" where
  "scalar_value cp \<longleftrightarrow> cp \<le> kMaxCodepoint \<and> \<not> (0xD800 \<le> cp \<and> cp \<le> 0xDFFF)"

text \<open>
  The encoding of a scalar value by the ranges of the Unicode standard, in arithmetic: the value in
  base 64, the leading digit on the lead byte. It shares nothing with the encoder.
\<close>

definition utf8_bytes :: "u32 \<Rightarrow> bytes" where
  "utf8_bytes cp =
     (let n = unat cp
      in map of_nat
        (if n < 128 then [n]
         else if n < 2048 then [192 + n div 64, 128 + n mod 64]
         else if n < 65536 then [224 + n div 4096, 128 + n div 64 mod 64, 128 + n mod 64]
         else [240 + n div 262144, 128 + n div 4096 mod 64, 128 + n div 64 mod 64, 128 + n mod 64]))"

lemma utf8_encode_ok: "fst (utf8_encode cp out) \<longleftrightarrow> scalar_value cp"
  by (auto simp: utf8_encode_def scalar_value_def)

text \<open>A tag and the bits below it do not meet, so joining them is adding them.\<close>

lemma tagged_byte:
  fixes a x :: u32
  assumes "a AND x = 0" and "unat a + unat x < 256"
  shows "(ucast (a OR x) :: u8) = of_nat (unat a + unat x)"
proof -
  have "a OR x = a + x" using assms(1) by (simp add: disjunctive_add_eq_or)
  moreover have "unat (a + x) = unat a + unat x" using assms(2) by (simp add: unat_word_ariths)
  ultimately show ?thesis by (metis of_nat_unat)
qed

lemma continuation_value:
  "(ucast (0x80 OR (drop_bit k cp AND 0x3F) :: u32) :: u8) = of_nat (128 + unat cp div 2 ^ k mod 64)"
proof -
  have low: "drop_bit k cp AND 0x3F = take_bit 6 (drop_bit k cp)"
    by (simp add: take_bit_eq_mask mask_eq_exp_minus_1)
  have meet: "0x80 AND take_bit 6 (drop_bit k cp) = 0"
  proof (rule bit_word_eqI)
    fix n show "bit (0x80 AND take_bit 6 (drop_bit k cp)) n = bit (0 :: u32) n"
      by (cases "n < 6") (auto simp: bit_simps)
  qed
  have "unat (take_bit 6 (drop_bit k cp)) = unat (drop_bit k cp) mod 2 ^ 6"
    by (simp only: unsigned_take_bit_eq take_bit_eq_mod [of 6 "unat (drop_bit k cp)"])
  moreover have "unat (drop_bit k cp) = unat cp div 2 ^ k"
    by (simp only: unat_drop_bit_eq drop_bit_eq_div [of k "unat cp"])
  ultimately have "unat (take_bit 6 (drop_bit k cp)) = unat cp div 2 ^ k mod 64" by simp
  moreover note meet
  ultimately show ?thesis
    using tagged_byte [of "0x80" "take_bit 6 (drop_bit k cp)"] by (simp add: low)
qed

lemma lead_value:
  assumes "cp < 2 ^ (k + m)" and "k + m < 32" and "tag AND mask m = 0" and "unat tag + 2 ^ m \<le> 256"
  shows "(ucast (tag OR drop_bit k cp :: u32) :: u8) = of_nat (unat tag + unat cp div 2 ^ k)"
proof -
  have "uint cp < 2 ^ (k + m)" using word_2p_lem [of "k + m" cp] assms(1,2) by (simp add: word_size)
  then have "nat (uint cp) < 2 ^ (k + m)" by (subst nat_less_iff) simp_all
  then have "unat cp < 2 ^ (k + m)" by simp
  then have small: "unat cp div 2 ^ k < 2 ^ m" by (simp add: less_mult_imp_div_less power_add mult.commute)
  have val: "unat (drop_bit k cp) = unat cp div 2 ^ k"
    by (simp only: unat_drop_bit_eq drop_bit_eq_div [of k "unat cp"])
  have "drop_bit k cp = take_bit m (drop_bit k cp)"
    using small val take_bit_nat_eq_self_iff [of m "unat (drop_bit k cp)"]
    by (simp only: word_unat_eq_iff unsigned_take_bit_eq eq_commute [of "unat cp div 2 ^ k"])
  then have low: "drop_bit k cp AND mask m = drop_bit k cp" by (simp only: take_bit_eq_mask)
  have "tag AND (drop_bit k cp AND mask m) = (tag AND mask m) AND drop_bit k cp" by (simp only: ac_simps)
  then have "tag AND drop_bit k cp = 0" unfolding low assms(3) by simp
  with small val assms(4) show ?thesis using tagged_byte [of tag "drop_bit k cp"] by simp
qed

text \<open>The bit patterns of the encoder are the base-64 digits.\<close>

lemma utf8_encode_bytes:
  assumes "scalar_value cp"
  shows "utf8_bytes cp = bytes_of_string (snd (utf8_encode cp []))"
proof -
  have top: "cp < 2 ^ (18 + 3)"
  proof -
    have "cp \<le> 0x10FFFF" using assms by (simp add: scalar_value_def kMaxCodepoint_def)
    also have "\<dots> < (2 ^ (18 + 3) :: u32)" by simp
    finally show ?thesis .
  qed
  have enc: "snd (utf8_encode cp []) =
      (if cp < 0x80 then [char_of_byte (ucast cp)]
       else if cp < 0x800 then map char_of_byte [ucast (0xC0 OR drop_bit 6 cp), ucast (0x80 OR (drop_bit 0 cp AND 0x3F))]
       else if cp < 0x10000 then map char_of_byte
         [ucast (0xE0 OR drop_bit 12 cp), ucast (0x80 OR (drop_bit 6 cp AND 0x3F)), ucast (0x80 OR (drop_bit 0 cp AND 0x3F))]
       else map char_of_byte
         [ucast (0xF0 OR drop_bit 18 cp), ucast (0x80 OR (drop_bit 12 cp AND 0x3F)), ucast (0x80 OR (drop_bit 6 cp AND 0x3F)),
          ucast (0x80 OR (drop_bit 0 cp AND 0x3F))])"
    using assms by (auto simp: utf8_encode_def scalar_value_def)
  have two: "(ucast (0xC0 OR drop_bit 6 cp) :: u8) = of_nat (192 + unat cp div 64)" if "cp < 0x800"
    using lead_value [of cp 6 5 "0xC0"] that by (simp add: mask_eq_exp_minus_1)
  have three: "(ucast (0xE0 OR drop_bit 12 cp) :: u8) = of_nat (224 + unat cp div 4096)" if "cp < 0x10000"
    using lead_value [of cp 12 4 "0xE0"] that by (simp add: mask_eq_exp_minus_1)
  have four: "(ucast (0xF0 OR drop_bit 18 cp) :: u8) = of_nat (240 + unat cp div 262144)"
    using lead_value [of cp 18 3 "0xF0"] top by (simp add: mask_eq_exp_minus_1)
  have nums: "cp < 0x80 \<longleftrightarrow> unat cp < 128" "cp < 0x800 \<longleftrightarrow> unat cp < 2048" "cp < 0x10000 \<longleftrightarrow> unat cp < 65536"
    by (simp_all add: word_less_nat_alt)
  note digits = continuation_value [of 0 cp] continuation_value [of 6 cp] continuation_value [of 12 cp]
  show ?thesis
    unfolding enc utf8_bytes_def Let_def
    using two three four digits by (simp add: bytes_of_string_def nums)
qed

lemma utf8_encode_appends:
  "utf8_encode cp out =
     (scalar_value cp, if scalar_value cp then out @ string_of_bytes (utf8_bytes cp) else out)"
proof -
  have "snd (utf8_encode cp out) = out @ snd (utf8_encode cp [])" by (simp add: utf8_encode_def)
  moreover have "snd (utf8_encode cp []) = string_of_bytes (utf8_bytes cp)" if "scalar_value cp"
    using utf8_encode_bytes [OF that] by simp
  moreover have "snd (utf8_encode cp []) = []" if "\<not> scalar_value cp"
    using that by (auto simp: utf8_encode_def scalar_value_def)
  ultimately show ?thesis using utf8_encode_ok [of cp out] by (auto simp: prod_eq_iff)
qed

section \<open>Bits of the encodings\<close>

lemma word_less_exp_iff: "(v :: 'a::len word) < 2 ^ k \<longleftrightarrow> (\<forall>n \<ge> k. \<not> bit v n)" if "k < LENGTH('a)"
proof -
  have "v < 2 ^ k \<longleftrightarrow> uint v < 2 ^ k"
    using that by (intro word_2p_lem) (simp add: word_size)
  also have "\<dots> \<longleftrightarrow> v AND mask k = v"
    by (simp only: mask_eq_iff)
  also have "\<dots> \<longleftrightarrow> (\<forall>n \<ge> k. \<not> bit v n)"
    by (auto simp: bit_eq_iff bit_and_iff bit_mask_iff not_le dest: bit_imp_le_length)
  finally show ?thesis .
qed

lemma u8_eq_bits:
  "a = b \<longleftrightarrow> bit a 0 = bit b 0 \<and> bit a 1 = bit b 1 \<and> bit a 2 = bit b 2 \<and> bit a 3 = bit b 3 \<and>
     bit a 4 = bit b 4 \<and> bit a 5 = bit b 5 \<and> bit a 6 = bit b 6 \<and> bit a 7 = bit b 7" for a b :: u8
proof (intro iffI)
  assume eq: "bit a 0 = bit b 0 \<and> bit a 1 = bit b 1 \<and> bit a 2 = bit b 2 \<and> bit a 3 = bit b 3 \<and>
     bit a 4 = bit b 4 \<and> bit a 5 = bit b 5 \<and> bit a 6 = bit b 6 \<and> bit a 7 = bit b 7"
  show "a = b"
  proof (rule bit_word_eqI)
    fix n assume "n < LENGTH(8)"
    then consider "n = 0" | "n = 1" | "n = 2" | "n = 3" | "n = 4" | "n = 5" | "n = 6" | "n = 7"
      by fastforce
    then show "bit a n = bit b n" using eq by cases simp_all
  qed
qed simp

lemma small_masks [simp]:
  "bit (0x3F :: int) n \<longleftrightarrow> n < 6" "bit (0x1F :: int) n \<longleftrightarrow> n < 5" "bit (0x0F :: int) n \<longleftrightarrow> n < 4"
  "bit (0x07 :: int) n \<longleftrightarrow> n < 3" "bit (0x3F :: nat) n \<longleftrightarrow> n < 6" "bit (0x1F :: nat) n \<longleftrightarrow> n < 5"
  "bit (0x0F :: nat) n \<longleftrightarrow> n < 4" "bit (0x07 :: nat) n \<longleftrightarrow> n < 3"
proof -
  have i: "(0x3F :: int) = mask 6" "(0x1F :: int) = mask 5" "(0x0F :: int) = mask 4" "(0x07 :: int) = mask 3"
    by (simp_all add: mask_eq_exp_minus_1)
  have n: "(0x3F :: nat) = mask 6" "(0x1F :: nat) = mask 5" "(0x0F :: nat) = mask 4" "(0x07 :: nat) = mask 3"
    by (simp_all add: mask_eq_exp_minus_1)
  show "bit (0x3F :: int) n \<longleftrightarrow> n < 6" "bit (0x1F :: int) n \<longleftrightarrow> n < 5" "bit (0x0F :: int) n \<longleftrightarrow> n < 4"
    "bit (0x07 :: int) n \<longleftrightarrow> n < 3" unfolding i by (simp_all add: bit_mask_iff)
  show "bit (0x3F :: nat) n \<longleftrightarrow> n < 6" "bit (0x1F :: nat) n \<longleftrightarrow> n < 5" "bit (0x0F :: nat) n \<longleftrightarrow> n < 4"
    "bit (0x07 :: nat) n \<longleftrightarrow> n < 3" unfolding n by (simp_all add: bit_mask_iff)
qed

lemma lead_masks [simp]:
  "bit (0xC0 :: int) n \<longleftrightarrow> 6 \<le> n \<and> n < 8" "bit (0xE0 :: int) n \<longleftrightarrow> 5 \<le> n \<and> n < 8"
  "bit (0xF0 :: int) n \<longleftrightarrow> 4 \<le> n \<and> n < 8" "bit (0xC0 :: nat) n \<longleftrightarrow> 6 \<le> n \<and> n < 8"
  "bit (0xE0 :: nat) n \<longleftrightarrow> 5 \<le> n \<and> n < 8" "bit (0xF0 :: nat) n \<longleftrightarrow> 4 \<le> n \<and> n < 8"
proof -
  have i: "(0xC0 :: int) = push_bit 6 (mask 2)" "(0xE0 :: int) = push_bit 5 (mask 3)"
    "(0xF0 :: int) = push_bit 4 (mask 4)" by (simp_all add: mask_eq_exp_minus_1)
  have n: "(0xC0 :: nat) = push_bit 6 (mask 2)" "(0xE0 :: nat) = push_bit 5 (mask 3)"
    "(0xF0 :: nat) = push_bit 4 (mask 4)" by (simp_all add: mask_eq_exp_minus_1)
  show "bit (0xC0 :: int) n \<longleftrightarrow> 6 \<le> n \<and> n < 8" "bit (0xE0 :: int) n \<longleftrightarrow> 5 \<le> n \<and> n < 8"
    "bit (0xF0 :: int) n \<longleftrightarrow> 4 \<le> n \<and> n < 8"
    unfolding i by (auto simp: bit_push_bit_iff bit_mask_iff)
  show "bit (0xC0 :: nat) n \<longleftrightarrow> 6 \<le> n \<and> n < 8" "bit (0xE0 :: nat) n \<longleftrightarrow> 5 \<le> n \<and> n < 8"
    "bit (0xF0 :: nat) n \<longleftrightarrow> 4 \<le> n \<and> n < 8"
    unfolding n by (auto simp: bit_push_bit_iff bit_mask_iff)
qed

lemma scalar_below: "scalar_value cp \<Longrightarrow> cp < 2 ^ 21"
proof -
  assume "scalar_value cp"
  then have "cp \<le> 0x10FFFF" by (simp add: scalar_value_def kMaxCodepoint_def)
  also have "\<dots> < (2 ^ 21 :: u32)" by simp
  finally show ?thesis .
qed

lemma u32_range_bits:
  "(v :: u32) < 0x80 \<longleftrightarrow> (\<forall>n \<ge> 7. \<not> bit v n)" "v < 0x800 \<longleftrightarrow> (\<forall>n \<ge> 11. \<not> bit v n)"
  "v < 0x10000 \<longleftrightarrow> (\<forall>n \<ge> 16. \<not> bit v n)" "v < 0x200000 \<longleftrightarrow> (\<forall>n \<ge> 21. \<not> bit v n)"
  using word_less_exp_iff [of 7 v] word_less_exp_iff [of 11 v] word_less_exp_iff [of 16 v]
    word_less_exp_iff [of 21 v] by simp_all

lemma u8_range_bits: "(b :: u8) < 0x80 \<longleftrightarrow> \<not> bit b 7"
proof -
  have "b < 0x80 \<longleftrightarrow> (\<forall>n \<ge> 7. \<not> bit b n)" using word_less_exp_iff [of 7 b] by simp
  also have "\<dots> \<longleftrightarrow> \<not> bit b 7"
  proof
    assume "\<not> bit b 7"
    show "\<forall>n \<ge> 7. \<not> bit b n"
    proof (intro allI impI notI)
      fix n assume "7 \<le> n" "bit b n"
      moreover from this have "n < 8" using bit_imp_le_length by fastforce
      ultimately have "n = 7" by simp
      with \<open>bit b n\<close> \<open>\<not> bit b 7\<close> show False by simp
    qed
  qed simp
  finally show ?thesis .
qed

section \<open>Decoding an encoding\<close>

lemma continuation_byte:
  "ucast (0x80 OR (x AND 0x3F) :: u32) AND (0xC0 :: u8) = 0x80"
  "ucast ((ucast (0x80 OR (x AND 0x3F) :: u32) :: u8) AND 0x3F) = x AND (0x3F :: u32)"
  by (simp add: u8_eq_bits bit_simps) (rule bit_word_eqI, auto simp: bit_simps)

lemma lead_bytes:
  "cp < 0x800 \<Longrightarrow> utf8_lead (ucast (0xC0 OR drop_bit 6 cp)) = Some (2, drop_bit 6 cp, 0x80)"
  "cp < 0x10000 \<Longrightarrow> utf8_lead (ucast (0xE0 OR drop_bit 12 cp)) = Some (3, drop_bit 12 cp, 0x800)"
  "cp < 0x200000 \<Longrightarrow> utf8_lead (ucast (0xF0 OR drop_bit 18 cp)) = Some (4, drop_bit 18 cp, 0x10000)"
proof -
  show "utf8_lead (ucast (0xC0 OR drop_bit 6 cp)) = Some (2, drop_bit 6 cp, 0x80)" if "cp < 0x800"
  proof -
    have b: "11 \<le> n \<Longrightarrow> \<not> bit cp n" for n using that by (simp add: u32_range_bits)
    have "ucast ((ucast (0xC0 OR drop_bit 6 cp) :: u8) AND 0x1F) = drop_bit 6 cp"
    proof (rule bit_word_eqI)
      fix n show "bit (ucast ((ucast (0xC0 OR drop_bit 6 cp) :: u8) AND 0x1F) :: u32) n = bit (drop_bit 6 cp) n"
        by (cases "n < 5") (auto simp: bit_simps b)
    qed
    moreover have "ucast (0xC0 OR drop_bit 6 cp) AND (0xE0 :: u8) = 0xC0"
      by (simp add: u8_eq_bits bit_simps b)
    ultimately show ?thesis by (simp add: utf8_lead_def)
  qed
  show "utf8_lead (ucast (0xE0 OR drop_bit 12 cp)) = Some (3, drop_bit 12 cp, 0x800)" if "cp < 0x10000"
  proof -
    have b: "16 \<le> n \<Longrightarrow> \<not> bit cp n" for n using that by (simp add: u32_range_bits)
    have "ucast ((ucast (0xE0 OR drop_bit 12 cp) :: u8) AND 0x0F) = drop_bit 12 cp"
    proof (rule bit_word_eqI)
      fix n show "bit (ucast ((ucast (0xE0 OR drop_bit 12 cp) :: u8) AND 0x0F) :: u32) n = bit (drop_bit 12 cp) n"
        by (cases "n < 4") (auto simp: bit_simps b)
    qed
    moreover have "ucast (0xE0 OR drop_bit 12 cp) AND (0xF0 :: u8) = 0xE0"
      by (simp add: u8_eq_bits bit_simps b)
    moreover have "ucast (0xE0 OR drop_bit 12 cp) AND (0xE0 :: u8) \<noteq> 0xC0"
      by (simp add: u8_eq_bits bit_simps)
    ultimately show ?thesis by (simp add: utf8_lead_def)
  qed
  show "utf8_lead (ucast (0xF0 OR drop_bit 18 cp)) = Some (4, drop_bit 18 cp, 0x10000)" if "cp < 0x200000"
  proof -
    have b: "21 \<le> n \<Longrightarrow> \<not> bit cp n" for n using that by (simp add: u32_range_bits)
    have "ucast ((ucast (0xF0 OR drop_bit 18 cp) :: u8) AND 0x07) = drop_bit 18 cp"
    proof (rule bit_word_eqI)
      fix n show "bit (ucast ((ucast (0xF0 OR drop_bit 18 cp) :: u8) AND 0x07) :: u32) n = bit (drop_bit 18 cp) n"
        by (cases "n < 3") (auto simp: bit_simps b)
    qed
    moreover have "ucast (0xF0 OR drop_bit 18 cp) AND (0xF8 :: u8) = 0xF0"
      by (simp add: u8_eq_bits bit_simps b)
    moreover have "ucast (0xF0 OR drop_bit 18 cp) AND (0xE0 :: u8) \<noteq> 0xC0"
      "ucast (0xF0 OR drop_bit 18 cp) AND (0xF0 :: u8) \<noteq> 0xE0"
      by (simp_all add: u8_eq_bits bit_simps)
    ultimately show ?thesis by (simp add: utf8_lead_def)
  qed
qed

lemma join_6:
  "push_bit 6 (drop_bit 6 cp) OR (cp AND 0x3F) = (cp :: u32)"
  "push_bit 6 (drop_bit 12 cp) OR (drop_bit 6 cp AND 0x3F) = drop_bit 6 (cp :: u32)"
  "push_bit 6 (drop_bit 18 cp) OR (drop_bit 12 cp AND 0x3F) = drop_bit 12 (cp :: u32)"
proof -
  have "push_bit 6 (drop_bit (6 + k) cp) OR (drop_bit k cp AND 0x3F) = drop_bit k cp" for k
  proof (rule bit_word_eqI)
    fix n
    show "bit (push_bit 6 (drop_bit (6 + k) cp) OR (drop_bit k cp AND 0x3F)) n = bit (drop_bit k cp) n"
      if "n < LENGTH(32)" using that
      by (cases "n < 6") (auto simp: bit_simps add.assoc add.left_commute)
  qed
  from this [of 0] this [of 6] this [of 12]
  show "push_bit 6 (drop_bit 6 cp) OR (cp AND 0x3F) = cp"
    "push_bit 6 (drop_bit 12 cp) OR (drop_bit 6 cp AND 0x3F) = drop_bit 6 cp"
    "push_bit 6 (drop_bit 18 cp) OR (drop_bit 12 cp AND 0x3F) = drop_bit 12 cp" by simp_all
qed

lemma not_ascii:
  "\<not> ucast (0xC0 OR x :: u32) < (0x80 :: u8)" "\<not> ucast (0xE0 OR x :: u32) < (0x80 :: u8)"
  "\<not> ucast (0xF0 OR x :: u32) < (0x80 :: u8)"
  by (simp_all add: u8_range_bits bit_simps)

lemma ascii_byte: "cp < 0x80 \<Longrightarrow> (ucast cp :: u8) < 0x80" "cp < 0x80 \<Longrightarrow> ucast (ucast cp :: u8) = cp"
  for cp :: u32
proof -
  assume "cp < 0x80"
  then have b: "7 \<le> n \<Longrightarrow> \<not> bit cp n" for n by (simp add: u32_range_bits)
  show "(ucast cp :: u8) < 0x80" by (simp add: u8_range_bits bit_simps b)
  show "ucast (ucast cp :: u8) = cp"
  proof (rule bit_word_eqI)
    fix n show "bit (ucast (ucast cp :: u8) :: u32) n = bit cp n"
      by (cases "n < 7") (auto simp: bit_simps b)
  qed
qed

lemma utf8_decode_bytes:
  assumes "scalar_value cp"
  shows "utf8_decode (utf8_bytes cp @ rest) = Some (length (utf8_bytes cp), cp)"
proof -
  have top: "cp < 0x200000" using scalar_below [OF assms] by simp
  have ok: "\<not> (0xD800 \<le> cp \<and> cp \<le> 0xDFFF)" "\<not> kMaxCodepoint < cp"
    using assms by (auto simp: scalar_value_def)
  consider "cp < 0x80" | "\<not> cp < 0x80" "cp < 0x800" | "\<not> cp < 0x80" "\<not> cp < 0x800" "cp < 0x10000"
    | "\<not> cp < 0x80" "\<not> cp < 0x800" "\<not> cp < 0x10000" by blast
  then show ?thesis
  proof cases
    case 1
    with ok show ?thesis
      by (auto simp: utf8_encode_bytes [OF assms] utf8_encode_def bytes_of_string_def ascii_byte)
  next
    case 2
    with ok show ?thesis
      by (auto simp: utf8_encode_bytes [OF assms] utf8_encode_def bytes_of_string_def lead_bytes not_ascii
          continuation_byte join_6 simp del: push_bit_and push_bit_or)
  next
    case 3
    with ok show ?thesis
      by (auto simp: utf8_encode_bytes [OF assms] utf8_encode_def bytes_of_string_def lead_bytes not_ascii
          continuation_byte join_6 simp del: push_bit_and push_bit_or)
  next
    case 4
    with ok top show ?thesis
      by (auto simp: utf8_encode_bytes [OF assms] utf8_encode_def bytes_of_string_def lead_bytes not_ascii
          continuation_byte join_6 simp del: push_bit_and push_bit_or)
  qed
qed

section \<open>Only encodings decode\<close>

lemma continuation_bits:
  "(b :: u8) AND 0xC0 = 0x80 \<longleftrightarrow> bit b 7 \<and> \<not> bit b 6"
  "(b :: u8) AND 0xE0 = 0xC0 \<longleftrightarrow> bit b 7 \<and> bit b 6 \<and> \<not> bit b 5"
  "(b :: u8) AND 0xF0 = 0xE0 \<longleftrightarrow> bit b 7 \<and> bit b 6 \<and> bit b 5 \<and> \<not> bit b 4"
  "(b :: u8) AND 0xF8 = 0xF0 \<longleftrightarrow> bit b 7 \<and> bit b 6 \<and> bit b 5 \<and> bit b 4 \<and> \<not> bit b 3"
  by (auto simp: u8_eq_bits bit_simps)

definition join2 :: "u8 \<Rightarrow> u8 \<Rightarrow> u32" where
  "join2 b0 b1 = push_bit 6 (ucast (b0 AND 0x1F)) OR ucast (b1 AND 0x3F)"

definition join3 :: "u8 \<Rightarrow> u8 \<Rightarrow> u8 \<Rightarrow> u32" where
  "join3 b0 b1 b2 = push_bit 6 (push_bit 6 (ucast (b0 AND 0x0F)) OR ucast (b1 AND 0x3F)) OR ucast (b2 AND 0x3F)"

definition join4 :: "u8 \<Rightarrow> u8 \<Rightarrow> u8 \<Rightarrow> u8 \<Rightarrow> u32" where
  "join4 b0 b1 b2 b3 =
     push_bit 6 (push_bit 6 (push_bit 6 (ucast (b0 AND 0x07)) OR ucast (b1 AND 0x3F)) OR
       ucast (b2 AND 0x3F)) OR ucast (b3 AND 0x3F)"

lemma bytes2:
  assumes "b0 AND 0xE0 = 0xC0" and "b1 AND 0xC0 = 0x80"
  shows "join2 b0 b1 < 0x800 \<and> ucast (0xC0 OR drop_bit 6 (join2 b0 b1)) = b0 \<and>
    ucast (0x80 OR (join2 b0 b1 AND 0x3F)) = b1"
  using assms by (auto simp: join2_def continuation_bits u32_range_bits u8_eq_bits bit_simps)

lemma bytes3:
  assumes "b0 AND 0xF0 = 0xE0" and "b1 AND 0xC0 = 0x80" and "b2 AND 0xC0 = 0x80"
  shows "join3 b0 b1 b2 < 0x10000 \<and> ucast (0xE0 OR drop_bit 12 (join3 b0 b1 b2)) = b0 \<and>
    ucast (0x80 OR (drop_bit 6 (join3 b0 b1 b2) AND 0x3F)) = b1 \<and>
    ucast (0x80 OR (join3 b0 b1 b2 AND 0x3F)) = b2"
  using assms by (auto simp: join3_def continuation_bits u32_range_bits u8_eq_bits bit_simps)

lemma bytes4:
  assumes "b0 AND 0xF8 = 0xF0" and "b1 AND 0xC0 = 0x80" and "b2 AND 0xC0 = 0x80" and "b3 AND 0xC0 = 0x80"
  shows "ucast (0xF0 OR drop_bit 18 (join4 b0 b1 b2 b3)) = b0 \<and>
    ucast (0x80 OR (drop_bit 12 (join4 b0 b1 b2 b3) AND 0x3F)) = b1 \<and>
    ucast (0x80 OR (drop_bit 6 (join4 b0 b1 b2 b3) AND 0x3F)) = b2 \<and>
    ucast (0x80 OR (join4 b0 b1 b2 b3 AND 0x3F)) = b3"
  using assms by (auto simp: join4_def continuation_bits u8_eq_bits bit_simps)

lemma byte1: "b0 < 0x80 \<Longrightarrow> (ucast b0 :: u32) < 0x80 \<and> ucast (ucast b0 :: u32) = b0" for b0 :: u8
proof -
  assume a: "b0 < 0x80"
  then have "\<not> bit b0 7" by (simp add: u8_range_bits)
  then have "\<not> bit b0 n" if "7 \<le> n" for n
    using that bit_imp_le_length [of b0 n] by (cases "n = 7") auto
  then show ?thesis by (auto simp: u32_range_bits u8_eq_bits bit_simps)
qed

text \<open>The shapes a successful decode can have.\<close>

lemma utf8_decode_cases:
  assumes "utf8_decode bs = Some (n, cp)"
  obtains (one) b0 rest where "bs = b0 # rest" "b0 < 0x80" "n = 1" "cp = ucast b0"
  | (two) b0 b1 rest where "bs = b0 # b1 # rest" "n = 2" "b0 AND 0xE0 = 0xC0" "b1 AND 0xC0 = 0x80"
      "cp = join2 b0 b1" "\<not> cp < 0x80" "scalar_value cp"
  | (three) b0 b1 b2 rest where "bs = b0 # b1 # b2 # rest" "n = 3" "b0 AND 0xF0 = 0xE0"
      "b1 AND 0xC0 = 0x80" "b2 AND 0xC0 = 0x80" "cp = join3 b0 b1 b2" "\<not> cp < 0x800" "scalar_value cp"
  | (four) b0 b1 b2 b3 rest where "bs = b0 # b1 # b2 # b3 # rest" "n = 4" "b0 AND 0xF8 = 0xF0"
      "b1 AND 0xC0 = 0x80" "b2 AND 0xC0 = 0x80" "b3 AND 0xC0 = 0x80" "cp = join4 b0 b1 b2 b3"
      "\<not> cp < 0x10000" "scalar_value cp"
proof -
  obtain b0 bs' where bs: "bs = b0 # bs'" using assms by (cases bs) auto
  show thesis
  proof (cases "b0 < 0x80")
    case True
    with assms bs show thesis by (intro one [of b0 bs']) auto
  next
    case False
    with assms bs obtain len v m where lead: "utf8_lead b0 = Some (len, v, m)"
      by (auto split: option.splits)
    with assms bs False obtain c where c: "utf8_cont v (take (len - 1) bs') = Some c"
      "\<not> c < m" "\<not> (0xD800 \<le> c \<and> c \<le> 0xDFFF)" "\<not> kMaxCodepoint < c" "len = n" "c = cp"
      "len \<le> length bs"
      by (auto split: option.splits if_splits)
    then have sc: "scalar_value cp" by (auto simp: scalar_value_def)
    from lead consider "b0 AND 0xE0 = 0xC0" "len = 2" "v = ucast (b0 AND 0x1F)" "m = 0x80"
      | "b0 AND 0xF0 = 0xE0" "len = 3" "v = ucast (b0 AND 0x0F)" "m = 0x800"
      | "b0 AND 0xF8 = 0xF0" "len = 4" "v = ucast (b0 AND 0x07)" "m = 0x10000"
      by (auto simp: utf8_lead_def split: if_splits)
    then show thesis
    proof cases
      case 1
      with c bs obtain b1 rest where "bs' = b1 # rest" by (cases bs') auto
      with 1 c bs sc show thesis by (intro two [of b0 b1 rest]) (auto simp: join2_def split: if_splits)
    next
      case 2
      with c bs obtain b1 b2 rest where "bs' = b1 # b2 # rest"
        by (auto simp: Suc_le_length_iff numeral_eq_Suc)
      with 2 c bs sc show thesis
        by (intro three [of b0 b1 b2 rest]) (auto simp: join3_def split: if_splits)
    next
      case 3
      with c bs obtain b1 b2 b3 rest where "bs' = b1 # b2 # b3 # rest"
        by (auto simp: Suc_le_length_iff numeral_eq_Suc)
      with 3 c bs sc show thesis
        by (intro four [of b0 b1 b2 b3 rest]) (auto simp: join4_def split: if_splits)
    qed
  qed
qed

lemma small_scalar: "cp < 0x800 \<Longrightarrow> scalar_value cp"
proof -
  assume a: "cp < 0x800"
  then have "cp < 0xD800" "cp < 0x10FFFF" by (rule order.strict_trans, simp)+
  then show ?thesis by (auto simp: scalar_value_def kMaxCodepoint_def)
qed

lemma mono_range: "cp < 0x80 \<Longrightarrow> cp < (0x800 :: u32)" "cp < 0x800 \<Longrightarrow> cp < (0x10000 :: u32)"
  by (rule order.strict_trans, assumption, simp)+

lemma utf8_bytes_ranges:
  assumes "scalar_value cp"
  shows "cp < 0x80 \<Longrightarrow> utf8_bytes cp = [ucast cp]"
    and "\<not> cp < 0x80 \<Longrightarrow> cp < 0x800 \<Longrightarrow>
      utf8_bytes cp = [ucast (0xC0 OR drop_bit 6 cp), ucast (0x80 OR (cp AND 0x3F))]"
    and "\<not> cp < 0x800 \<Longrightarrow> cp < 0x10000 \<Longrightarrow>
      utf8_bytes cp = [ucast (0xE0 OR drop_bit 12 cp), ucast (0x80 OR (drop_bit 6 cp AND 0x3F)),
        ucast (0x80 OR (cp AND 0x3F))]"
    and "\<not> cp < 0x10000 \<Longrightarrow>
      utf8_bytes cp = [ucast (0xF0 OR drop_bit 18 cp), ucast (0x80 OR (drop_bit 12 cp AND 0x3F)),
        ucast (0x80 OR (drop_bit 6 cp AND 0x3F)), ucast (0x80 OR (cp AND 0x3F))]"
  using assms by (auto simp: utf8_encode_bytes [OF assms] utf8_encode_def bytes_of_string_def scalar_value_def
      dest: mono_range)

lemma utf8_decode_canonical:
  assumes "utf8_decode bs = Some (n, cp)"
  shows "scalar_value cp \<and> bs = utf8_bytes cp @ drop n bs \<and> n = length (utf8_bytes cp)"
  using assms
proof (cases rule: utf8_decode_cases)
  case (one b0 rest)
  then have "cp < 0x80" "ucast cp = b0" using byte1 by auto
  moreover from this have "scalar_value cp" by (auto intro: small_scalar dest: mono_range)
  ultimately show ?thesis using one by (simp add: utf8_bytes_ranges)
next
  case (two b0 b1 rest)
  with bytes2 [of b0 b1] show ?thesis by (simp add: utf8_bytes_ranges)
next
  case (three b0 b1 b2 rest)
  with bytes3 [of b0 b1 b2] show ?thesis by (simp add: utf8_bytes_ranges)
next
  case (four b0 b1 b2 b3 rest)
  with bytes4 [of b0 b1 b2 b3] show ?thesis by (simp add: utf8_bytes_ranges)
qed

section \<open>Whole buffers\<close>

lemma utf8_bytes_nonempty: "scalar_value cp \<Longrightarrow> utf8_bytes cp \<noteq> []"
  using utf8_decode_bytes [of cp "[]"] by auto

lemma loops_on_encoding:
  assumes "list_all scalar_value cps"
  shows "to_codepoints_loop (concat (map utf8_bytes cps)) out = (True, out @ cps)"
    and "count_codepoints_loop k (concat (map utf8_bytes cps)) = Some (k + length cps)"
    and "utf8_validate (concat (map utf8_bytes cps))"
  using assms
proof (induction cps arbitrary: out k)
  case Nil
  { case 1 show ?case by (simp add: to_codepoints_loop.simps) }
  { case 2 show ?case by (simp add: count_codepoints_loop.simps) }
  { case 3 show ?case by (simp add: utf8_validate.simps) }
next
  case (Cons cp cps)
  note step = utf8_decode_bytes [of cp "concat (map utf8_bytes cps)"] utf8_bytes_nonempty [of cp]
  { case 1 then show ?case using step Cons.IH(1) by (subst to_codepoints_loop.simps) simp }
  { case 2 then show ?case using step Cons.IH(2) by (subst count_codepoints_loop.simps) simp }
  { case 3 then show ?case using step Cons.IH(3) by (subst utf8_validate.simps) simp }
qed

lemma utf8_validate_iff:
  "utf8_validate bs \<longleftrightarrow> (\<exists>cps. list_all scalar_value cps \<and> bs = concat (map utf8_bytes cps))"
proof
  assume "utf8_validate bs"
  then show "\<exists>cps. list_all scalar_value cps \<and> bs = concat (map utf8_bytes cps)"
  proof (induction bs rule: utf8_validate.induct)
    case (1 bs)
    show ?case
    proof (cases "bs = []")
      case True
      then show ?thesis by (intro exI [of _ "[]"]) simp
    next
      case False
      with "1.prems" obtain n cp where d: "utf8_decode bs = Some (n, cp)" "utf8_validate (drop n bs)"
        by (subst (asm) utf8_validate.simps) (auto split: option.splits)
      with 1 False obtain cps where "list_all scalar_value cps" "drop n bs = concat (map utf8_bytes cps)"
        by blast
      with utf8_decode_canonical [OF d(1)] show ?thesis
        by (intro exI [of _ "cp # cps"]) simp
    qed
  qed
next
  assume "\<exists>cps. list_all scalar_value cps \<and> bs = concat (map utf8_bytes cps)"
  then show "utf8_validate bs" using loops_on_encoding(3) by blast
qed

end
