(* ===== verification/Reader_Laws.thy ===== *)
theory Reader_Laws
  imports Byte_Writer
begin

text \<open>
  Laws of the cursor operations that several decoders use: which reads do not depend on the bytes
  behind them (the locale \<open>stable_op\<close>, interpreted for every read), which error codes an operation can
  throw, the length-prefixed layout, and the evaluation of the first steps on a cursor of known shape.
\<close>

unbundle bit_operations_syntax

section \<open>First steps\<close>

lemma require_bind_at:
  "n \<le> length rest \<Longrightarrow> rd_bind (require n) k (rd_at pre rest) = k () (rd_at pre rest)"
  by (simp add: rd_bind_def require_at)

lemma read_u8_bind_at: "rd_bind read_u8 k (rd_at pre (b # rest)) = k b (rd_at (pre @ [b]) rest)"
  by (simp add: rd_bind_def read_u8_at)

lemma unat_of_nat_u64: "n < 2 ^ 64 \<Longrightarrow> unat (of_nat n :: u64) = n"
  by (simp add: unat_of_nat)

definition lenprefixed :: "bytes \<Rightarrow> bytes" where
  "lenprefixed bs = put_varint [] (of_nat (length bs)) @ bs"

section \<open>Reading more bytes\<close>

text \<open>
  A read that succeeds does not depend on the bytes behind it: appending bytes to the buffer changes
  neither its value nor where it stops.
\<close>

definition rd_extend :: "bytes \<Rightarrow> byte_reader \<Rightarrow> byte_reader" where
  "rd_extend xs r = r\<lparr>rd_data := rd_data r @ xs\<rparr>"

lemma rd_extend_at [simp]: "rd_extend xs (rd_at pre rest) = rd_at pre (rest @ xs)"
  by (simp add: rd_extend_def rd_at_def)

lemma wf_rd_extend [simp]: "wf_rd r \<Longrightarrow> wf_rd (rd_extend xs r)"
  by (simp add: wf_rd_def rd_extend_def)

lemma rd_extend_pos [simp]: "rd_pos (rd_extend xs r) = rd_pos r"
  by (simp add: rd_extend_def)

locale stable_op = cursor_op oper for oper :: "'a rd" +
  assumes extends: "wf_rd r \<Longrightarrow> oper r = Inr (v, r') \<Longrightarrow> oper (rd_extend xs r) = Inr (v, rd_extend xs r')"

lemma stable_op_fixed:
  assumes "oper = rd_bind (require n) (\<lambda>_ r. Inr (f r, rd_advance n r))"
    and "\<And>r xs. wf_rd r \<Longrightarrow> n \<le> rd_remaining r \<Longrightarrow> f (rd_extend xs r) = f r"
  shows "stable_op oper"
proof -
  have "cursor_op oper" using fixed_opI [OF assms(1)] by (rule fixed_op.is_cursor_op)
  moreover have "stable_op_axioms oper"
  proof
    fix r v r' xs
    assume wf: "wf_rd r" and ok: "oper r = Inr (v, r')"
    then have n: "n \<le> rd_remaining r" and v: "v = f r" and r': "r' = rd_advance n r"
      by (auto simp: assms(1) rd_bind_def require_def split: if_splits)
    have "n \<le> rd_remaining (rd_extend xs r)"
      using n wf by (simp add: rd_remaining_wf) (simp add: rd_extend_def)
    then show "oper (rd_extend xs r) = Inr (v, rd_extend xs r')"
      using assms(2) [OF wf n, of xs]
      by (simp add: assms(1) rd_bind_def require_def v r' rd_advance_def rd_extend_def)
  qed
  ultimately show ?thesis by (rule stable_op.intro)
qed

lemma stable_op_return: "stable_op (rd_return v)"
  by (rule stable_op.intro [OF cursor_op_return stable_op_axioms.intro]) (simp add: rd_return_def)

lemma stable_op_require: "stable_op (require n)"
  by (rule stable_op.intro [OF cursor_op_require stable_op_axioms.intro])
    (auto simp: require_def rd_remaining_wf rd_extend_def wf_rd_def rd_remaining_def rd_size_def
      split: if_splits)

lemma stable_op_bind:
  assumes "stable_op m" and "\<And>v. stable_op (k v)"
  shows "stable_op (rd_bind m k)"
proof -
  have m_op: "cursor_op m" and k_op: "cursor_op (k v)" for v
    using assms by (simp_all add: stable_op_def)
  have "stable_op_axioms (rd_bind m k)"
  proof
    fix r w r' xs
    assume wf: "wf_rd r" and "rd_bind m k r = Inr (w, r')"
    then obtain v r1 where m: "m r = Inr (v, r1)" and k: "k v r1 = Inr (w, r')"
      by (auto simp: rd_bind_def bindE_eq_Inr)
    have "wf_rd r1" using wf m by (rule cursor_op.stays_inside [OF m_op])
    with wf m k show "rd_bind m k (rd_extend xs r) = Inr (w, rd_extend xs r')"
      by (simp add: rd_bind_def stable_op.extends [OF assms(1)] stable_op.extends [OF assms(2)])
  qed
  with cursor_op_bind [OF m_op k_op] show ?thesis by (rule stable_op.intro)
qed

lemma rd_byte_extend:
  "wf_rd r \<Longrightarrow> i < rd_remaining r \<Longrightarrow> rd_byte (rd_extend xs r) i = rd_byte r i"
  by (auto simp: rd_byte_def rd_extend_def rd_remaining_wf nth_append wf_rd_def)

lemma rd_take_extend:
  "wf_rd r \<Longrightarrow> n \<le> rd_remaining r \<Longrightarrow> rd_take (rd_extend xs r) n = rd_take r n"
  by (simp add: rd_take_def rd_extend_def rd_remaining_wf)

interpretation u8_stable: stable_op read_u8
  by (rule stable_op_fixed [OF read_u8_def]) (simp add: rd_byte_extend)

interpretation u16le_stable: stable_op read_u16le
  by (rule stable_op_fixed [OF read_u16le_def]) (simp add: rd_byte_extend)

interpretation u32le_stable: stable_op read_u32le
  by (rule stable_op_fixed [OF read_u32le_def]) (simp add: rd_byte_extend)

interpretation bytes_stable: stable_op "read_bytes n" for n
  by (rule stable_op_fixed [OF read_bytes_def]) (simp add: rd_take_extend)

interpretation string_stable: stable_op "read_string n" for n
  by (rule stable_op_fixed [OF read_string_def]) (simp add: rd_take_extend)

lemma varint_loop_stable:
  "wf_rd r \<Longrightarrow> read_varint_loop n start shift acc r = Inr (v, r') \<Longrightarrow>
     read_varint_loop n start shift acc (rd_extend xs r) = Inr (v, rd_extend xs r')"
proof (induction n start shift acc r rule: read_varint_loop.induct)
  case (2 n start shift acc r)
  obtain b r1 where b: "read_u8 r = Inr (b, r1)"
    using 2(3) by (auto simp: bindE_eq_Inr)
  have wf1: "wf_rd r1" using 2(2) b by (rule u8_op.stays_inside)
  have ext: "read_u8 (rd_extend xs r) = Inr (b, rd_extend xs r1)"
    using 2(2) b by (rule u8_stable.extends)
  show ?case
    using 2(1) [OF b refl refl _ wf1] 2(3) by (auto simp: b ext Let_def split: if_splits)
qed simp

interpretation varint_stable: stable_op read_varint
  by unfold_locales (simp add: read_varint_def varint_loop_stable)

lemmas stable_basics =
  stable_op_return stable_op_require stable_op_bind u8_stable.stable_op_axioms
  u16le_stable.stable_op_axioms u32le_stable.stable_op_axioms bytes_stable.stable_op_axioms
  string_stable.stable_op_axioms varint_stable.stable_op_axioms

section \<open>Errors\<close>

text \<open>The codes an operation can throw.\<close>

definition throws_only :: "error_code set \<Rightarrow> 'a rd \<Rightarrow> bool" where
  "throws_only C m \<longleftrightarrow> (\<forall>r e. m r = Inl e \<longrightarrow> err_code e \<in> C)"

definition read_errors :: "error_code set" where
  "read_errors = {kShortRead, kBadLength, kBadType}"

lemma throws_only_bind: "throws_only C m \<Longrightarrow> (\<And>v. throws_only C (k v)) \<Longrightarrow> throws_only C (rd_bind m k)"
  by (auto simp: throws_only_def rd_bind_def bindE_eq_Inl)

lemma throws_only_return: "throws_only C (rd_return v)"
  by (simp add: throws_only_def rd_return_def)

lemma throws_only_require: "throws_only read_errors (require n)"
  by (simp add: throws_only_def require_def parse_error_default_def read_errors_def)

lemma throws_only_advance: "throws_only C (\<lambda>r. Inr (f r, rd_advance n r))"
  by (simp add: throws_only_def)

lemma throws_only_throw: "c \<in> C \<Longrightarrow> throws_only C (rd_throw c off w)"
  by (simp add: throws_only_def rd_throw_def)

lemma throws_only_fixed: 
  "oper = rd_bind (require n) (\<lambda>_ r. Inr (f r, rd_advance n r)) \<Longrightarrow> throws_only read_errors oper"
  by (simp add: throws_only_bind throws_only_require throws_only_advance)

lemma throws_only_varint: "throws_only read_errors read_varint"
proof -
  have u8: "throws_only read_errors read_u8" by (rule throws_only_fixed [OF read_u8_def])
  have "err_code e \<in> read_errors" if "read_varint_loop n start shift acc r = Inl e" for n start shift acc r e
    using that
  proof (induction n start shift acc r rule: read_varint_loop.induct)
    case (2 n start shift acc r)
    show ?case
    proof (cases "read_u8 r")
      case (Inl e')
      then show ?thesis using 2(2) u8 by (auto simp: throws_only_def)
    next
      case (Inr br)
      obtain b r1 where br: "br = (b, r1)" by (cases br)
      show ?thesis
        using 2(1) [OF Inr br [symmetric] refl] 2(2) by (auto simp: Inr br Let_def split: if_splits)
    qed
  qed (auto simp: read_errors_def)
  then show ?thesis by (simp add: throws_only_def read_varint_def)
qed

lemmas throws_basics =
  throws_only_bind throws_only_return throws_only_require throws_only_varint
  throws_only_fixed [OF read_u8_def] throws_only_fixed [OF read_u16le_def]
  throws_only_fixed [OF read_u32le_def] throws_only_fixed [OF read_u64le_def]
  throws_only_fixed [OF read_bytes_def] throws_only_fixed [OF read_string_def]

lemma bad_type_read_error: "kBadType \<in> read_errors"
  by (simp add: read_errors_def)

end
