(* ===== verification/Db_Model.thy ===== *)
theory Db_Model
  imports Ordered_Map Reader_Laws "HOL-Library.Product_Lexorder"
begin

text \<open>
  The data model of minidb (\<^verbatim>\<open>include/minidb/model.hpp\<close>, \<^verbatim>\<open>include/minidb/format.hpp\<close>,
  \<^verbatim>\<open>PageSpan\<close> of \<^verbatim>\<open>include/minidb/decoder.hpp\<close>) and the enum names (\<^verbatim>\<open>src/minidb/names.cpp\<close>). The
  C++ enums have type \<^verbatim>\<open>std::uint8_t\<close> and are cast from a raw byte, so each datatype has one
  constructor for the bytes outside the enumerators. A \<^verbatim>\<open>double\<close> is kept as its 64-bit pattern, which
  is how the decoder obtains it.
\<close>

section \<open>Enumerations\<close>

datatype page_type = PtFree | PtData | PtStrings | PtIndex | PtOverflow | PtOther u8

definition page_type_of_byte :: "u8 \<Rightarrow> page_type" where
  "page_type_of_byte b =
     (if b = 0 then PtFree else if b = 1 then PtData else if b = 2 then PtStrings
      else if b = 3 then PtIndex else if b = 4 then PtOverflow else PtOther b)"

fun page_type_byte :: "page_type \<Rightarrow> u8" where
  "page_type_byte PtFree = 0"
| "page_type_byte PtData = 1"
| "page_type_byte PtStrings = 2"
| "page_type_byte PtIndex = 3"
| "page_type_byte PtOverflow = 4"
| "page_type_byte (PtOther b) = b"

fun page_type_name :: "page_type \<Rightarrow> string" where
  "page_type_name PtFree = ''FREE''"
| "page_type_name PtData = ''DATA''"
| "page_type_name PtStrings = ''STRINGS''"
| "page_type_name PtIndex = ''INDEX''"
| "page_type_name PtOverflow = ''OVERFLOW''"
| "page_type_name (PtOther b) = ''UNKNOWN''"

datatype field_type =
    FtNull | FtBool | FtInt | FtUint | FtFloat | FtStringRef | FtInlineString | FtBlob | FtOther u8

definition field_type_of_byte :: "u8 \<Rightarrow> field_type" where
  "field_type_of_byte b =
     (if b = 0 then FtNull else if b = 1 then FtBool else if b = 2 then FtInt
      else if b = 3 then FtUint else if b = 4 then FtFloat else if b = 5 then FtStringRef
      else if b = 6 then FtInlineString else if b = 7 then FtBlob else FtOther b)"

fun field_type_byte :: "field_type \<Rightarrow> u8" where
  "field_type_byte FtNull = 0"
| "field_type_byte FtBool = 1"
| "field_type_byte FtInt = 2"
| "field_type_byte FtUint = 3"
| "field_type_byte FtFloat = 4"
| "field_type_byte FtStringRef = 5"
| "field_type_byte FtInlineString = 6"
| "field_type_byte FtBlob = 7"
| "field_type_byte (FtOther b) = b"

fun field_type_name :: "field_type \<Rightarrow> string" where
  "field_type_name FtNull = ''NULL''"
| "field_type_name FtBool = ''BOOL''"
| "field_type_name FtInt = ''INT''"
| "field_type_name FtUint = ''UINT''"
| "field_type_name FtFloat = ''FLOAT''"
| "field_type_name FtStringRef = ''STRING_REF''"
| "field_type_name FtInlineString = ''INLINE_STRING''"
| "field_type_name FtBlob = ''BLOB''"
| "field_type_name (FtOther b) = ''UNKNOWN''"

datatype journal_op = JBegin | JInsert | JUpdate | JDelete | JCommit | JRollback | JOther u8

definition journal_op_of_byte :: "u8 \<Rightarrow> journal_op" where
  "journal_op_of_byte b =
     (if b = 1 then JBegin else if b = 2 then JInsert else if b = 3 then JUpdate
      else if b = 4 then JDelete else if b = 5 then JCommit else if b = 6 then JRollback
      else JOther b)"

fun journal_op_byte :: "journal_op \<Rightarrow> u8" where
  "journal_op_byte JBegin = 1"
| "journal_op_byte JInsert = 2"
| "journal_op_byte JUpdate = 3"
| "journal_op_byte JDelete = 4"
| "journal_op_byte JCommit = 5"
| "journal_op_byte JRollback = 6"
| "journal_op_byte (JOther b) = b"

fun journal_op_name :: "journal_op \<Rightarrow> string" where
  "journal_op_name JBegin = ''BEGIN''"
| "journal_op_name JInsert = ''INSERT''"
| "journal_op_name JUpdate = ''UPDATE''"
| "journal_op_name JDelete = ''DELETE''"
| "journal_op_name JCommit = ''COMMIT''"
| "journal_op_name JRollback = ''ROLLBACK''"
| "journal_op_name (JOther b) = ''UNKNOWN''"

lemma page_type_byte_of [simp]: "page_type_byte (page_type_of_byte b) = b"
  by (simp add: page_type_of_byte_def)

lemma field_type_byte_of [simp]: "field_type_byte (field_type_of_byte b) = b"
  by (simp add: field_type_of_byte_def)

lemma journal_op_byte_of [simp]: "journal_op_byte (journal_op_of_byte b) = b"
  by (simp add: journal_op_of_byte_def)

lemma page_type_known [simp]:
  "page_type_of_byte 0 = PtFree" "page_type_of_byte 1 = PtData" "page_type_of_byte 2 = PtStrings"
  "page_type_of_byte 3 = PtIndex" "page_type_of_byte 4 = PtOverflow"
  by (simp_all add: page_type_of_byte_def)

lemma field_type_known [simp]:
  "field_type_of_byte 0 = FtNull" "field_type_of_byte 1 = FtBool" "field_type_of_byte 2 = FtInt"
  "field_type_of_byte 3 = FtUint" "field_type_of_byte 4 = FtFloat" "field_type_of_byte 5 = FtStringRef"
  "field_type_of_byte 6 = FtInlineString" "field_type_of_byte 7 = FtBlob"
  by (simp_all add: field_type_of_byte_def)

lemma journal_op_known [simp]:
  "journal_op_of_byte 1 = JBegin" "journal_op_of_byte 2 = JInsert" "journal_op_of_byte 3 = JUpdate"
  "journal_op_of_byte 4 = JDelete" "journal_op_of_byte 5 = JCommit" "journal_op_of_byte 6 = JRollback"
  by (simp_all add: journal_op_of_byte_def)

section \<open>Constants\<close>

definition kMagic :: bytes where "kMagic = [0x4D, 0x44, 0x42, 0x31]"

definition kSupportedVersion :: u16 where "kSupportedVersion = 1"

definition kHeaderSize :: nat where "kHeaderSize = 32"

definition kHeaderCrcCovered :: nat where "kHeaderCrcCovered = 28"

definition kMinPageSize :: u16 where "kMinPageSize = 64"

definition kMaxPageSize :: u16 where "kMaxPageSize = 8192"

definition kPageSizeAlign :: u16 where "kPageSizeAlign = 16"

definition kPageHeaderSize :: nat where "kPageHeaderSize = 8"

definition kSlotEntrySize :: nat where "kSlotEntrySize = 4"

definition kNoOverflow :: u16 where "kNoOverflow = 0xFFFF"

definition kNoStringTable :: u32 where "kNoStringTable = 0xFFFFFFFF"

section \<open>Structures\<close>

record file_header =
  h_version :: u16
  h_page_size :: u16
  h_page_count :: u32
  h_root_page :: u32
  h_string_table_page :: u32
  h_journal_offset :: u32
  h_flags :: u32
  h_header_crc32 :: u32
  h_checksum_ok :: bool

record slot =
  sl_rec_offset :: u16
  sl_rec_length :: u16
  sl_in_bounds :: bool

record page =
  pg_index :: u32
  pg_type :: page_type
  pg_flags :: u8
  pg_slot_count :: u16
  pg_free_start :: u16
  pg_overflow_next :: u16
  pg_truncated :: bool
  pg_slots :: "slot list"

definition page_new :: "u32 \<Rightarrow> page" where
  "page_new i =
     \<lparr>pg_index = i, pg_type = PtFree, pg_flags = 0, pg_slot_count = 0, pg_free_start = 0,
      pg_overflow_next = 0xFFFF, pg_truncated = False, pg_slots = []\<rparr>"

record page_span =
  ps_file_offset :: nat
  ps_length :: nat

record field =
  fd_type :: field_type
  fd_b :: bool
  fd_i64 :: i64
  fd_u64 :: u64
  fd_f64 :: u64
  fd_str :: string
  fd_ref_id :: u64
  fd_ref_resolved :: bool
  fd_blob :: bytes

definition field_new :: "field_type \<Rightarrow> field" where
  "field_new t =
     \<lparr>fd_type = t, fd_b = False, fd_i64 = 0, fd_u64 = 0, fd_f64 = 0, fd_str = [], fd_ref_id = 0,
      fd_ref_resolved = False, fd_blob = []\<rparr>"

record db_record =
  r_fields :: "field list"

type_synonym record_key = "u32 \<times> u16"

record database =
  db_version :: u16
  db_page_size :: u16
  db_page_count :: u32
  db_root_page :: u32
  db_string_table_page :: u32
  db_journal_offset :: u32
  db_flags :: u32
  db_checksum_ok :: bool
  db_has_journal :: bool
  db_string_table :: "string list"
  db_pages :: "page list"
  db_committed_ops :: u32
  db_rolled_back_ops :: u32
  db_records :: "(record_key, db_record) omap"

definition database_new :: database where
  "database_new =
     \<lparr>db_version = 0, db_page_size = 0, db_page_count = 0, db_root_page = 0,
      db_string_table_page = 0xFFFFFFFF, db_journal_offset = 0, db_flags = 0, db_checksum_ok = True,
      db_has_journal = False, db_string_table = [], db_pages = [], db_committed_ops = 0,
      db_rolled_back_ops = 0, db_records = []\<rparr>"

lemmas db_consts =
  kSupportedVersion_def kHeaderSize_def kHeaderCrcCovered_def kMinPageSize_def kMaxPageSize_def
  kPageSizeAlign_def kPageHeaderSize_def kSlotEntrySize_def kNoOverflow_def kNoStringTable_def

end
