(* ===== verification/Db_Header.thy ===== *)
theory Db_Header
  imports Db_Model Checksum
begin

text \<open>
  Stage 1 of \<^verbatim>\<open>minidb::open\<close> (\<^verbatim>\<open>src/minidb/header.cpp\<close>): the fixed 32-byte file header. The theory shows
  which buffers pass the gate and with which error the others are refused, the round trip with the
  on-wire layout of \<^verbatim>\<open>include/minidb/format.hpp\<close>, and that the header CRC notices any change of a
  single covered byte.
\<close>

definition parse_header :: "bool \<Rightarrow> file_header rd" where
  "parse_header strict r0 =
     (let header_off = rd_pos r0 in
      rd_bind (require kHeaderSize) (\<lambda>_ r.
        if \<not> rd_match kMagic r
        then rd_throw kBadMagic header_off ''expected MDB1 magic'' r
        else rd_bind (skip (length kMagic)) (\<lambda>_.
          rd_bind read_u16le (\<lambda>version.
          if version \<noteq> kSupportedVersion
          then rd_throw kBadVersion (header_off + 4) ''unsupported MDB1 version''
          else rd_bind read_u16le (\<lambda>page_size.
          if page_size < kMinPageSize \<or> page_size > kMaxPageSize \<or> page_size mod kPageSizeAlign \<noteq> 0
          then rd_throw kBadLength (header_off + 6) ''page_size out of range or misaligned''
          else rd_bind read_u32le (\<lambda>page_count.
          rd_bind read_u32le (\<lambda>root_page.
          rd_bind read_u32le (\<lambda>string_table_page.
          rd_bind read_u32le (\<lambda>journal_offset.
          rd_bind read_u32le (\<lambda>flags.
          rd_bind read_u32le (\<lambda>header_crc32.
          let computed = crc32 (take kHeaderCrcCovered (drop header_off (rd_data r0)));
              checksum_ok = (computed = header_crc32)
          in if \<not> checksum_ok \<and> strict
             then rd_throw kBadChecksum (header_off + 28) ''header CRC mismatch''
             else rd_return
               \<lparr>h_version = version, h_page_size = page_size, h_page_count = page_count,
                h_root_page = root_page, h_string_table_page = string_table_page,
                h_journal_offset = journal_offset, h_flags = flags,
                h_header_crc32 = header_crc32, h_checksum_ok = checksum_ok\<rparr>))))))))) r) r0)"

section \<open>The gate\<close>

definition page_size_ok :: "u16 \<Rightarrow> bool" where
  "page_size_ok ps \<longleftrightarrow> 64 \<le> ps \<and> ps \<le> 8192 \<and> ps mod 16 = 0"

text \<open>The layout of the first 28 bytes and of the whole header.\<close>

definition header_prefix :: "file_header \<Rightarrow> bytes" where
  "header_prefix h =
     put_u32le (put_u32le (put_u32le (put_u32le (put_u32le (put_u16le (put_u16le kMagic
       (h_version h)) (h_page_size h)) (h_page_count h)) (h_root_page h)) (h_string_table_page h))
       (h_journal_offset h)) (h_flags h)"

definition header_bytes :: "file_header \<Rightarrow> bytes" where
  "header_bytes h = put_u32le (header_prefix h) (h_header_crc32 h)"

lemma length_header_prefix [simp]: "length (header_prefix h) = 28"
  by (simp add: header_prefix_def kMagic_def put_u32le_def put_u16le_def)

lemma length_header_bytes [simp]: "length (header_bytes h) = 32"
  by (simp add: header_bytes_def put_u32le_def)

definition header_tail :: "file_header \<Rightarrow> bytes" where
  "header_tail h =
     put_u32le [] (h_page_count h) @ put_u32le [] (h_root_page h) @ put_u32le [] (h_string_table_page h) @
     put_u32le [] (h_journal_offset h) @ put_u32le [] (h_flags h)"

lemma kMagic_nonempty [simp]: "kMagic \<noteq> []" "length kMagic = 4"
  by (simp_all add: kMagic_def)

lemma header_prefix_alt:
  "header_prefix h = kMagic @ put_u16le [] (h_version h) @ put_u16le [] (h_page_size h) @ header_tail h"
  by (simp add: header_prefix_def header_tail_def put_append)

lemma header_bytes_alt: "header_bytes h = header_prefix h @ put_u32le [] (h_header_crc32 h)"
proof -
  have "header_prefix h \<noteq> []" by (simp add: header_prefix_alt)
  then show ?thesis by (simp add: header_bytes_def put_append)
qed

lemma length_header_tail [simp]: "length (header_tail h) = 20"
  by (simp add: header_tail_def)

lemma page_size_gate:
  "ps < kMinPageSize \<or> ps > kMaxPageSize \<or> ps mod kPageSizeAlign \<noteq> 0 \<longleftrightarrow> \<not> page_size_ok ps"
  unfolding page_size_ok_def db_consts linorder_not_less [symmetric]
  by (simp only: de_Morgan_conj not_not)

text \<open>What \<open>parse_header\<close> makes of 32 bytes laid out as the format says, whatever the fields hold.\<close>

definition header_verdict :: "bool \<Rightarrow> bytes \<Rightarrow> nat \<Rightarrow> file_header \<Rightarrow> file_header result" where
  "header_verdict strict magic off h =
     (if magic \<noteq> kMagic then Inl (ParseError kBadMagic off ''expected MDB1 magic'')
      else if h_version h \<noteq> 1 then Inl (ParseError kBadVersion (off + 4) ''unsupported MDB1 version'')
      else if \<not> page_size_ok (h_page_size h)
           then Inl (ParseError kBadLength (off + 6) ''page_size out of range or misaligned'')
      else let ok = crc32 (header_prefix h) = h_header_crc32 h
           in if strict \<and> \<not> ok then Inl (ParseError kBadChecksum (off + 28) ''header CRC mismatch'')
              else Inr (h\<lparr>h_checksum_ok := ok\<rparr>))"

lemma parse_header_layout:
  assumes "length magic = 4"
  shows "parse_header strict (rd_at pre (magic @ put_u16le [] (h_version h) @ put_u16le [] (h_page_size h) @
      header_tail h @ put_u32le [] (h_header_crc32 h) @ rest)) =
    bindE (header_verdict strict magic (length pre) h)
      (\<lambda>h'. Inr (h', rd_at (pre @ header_bytes h) rest))"
proof (cases "magic = kMagic")
  case False
  with assms show ?thesis
    by (simp add: parse_header_def rd_bind_def require_at kHeaderSize_def rd_match_def header_verdict_def
        rd_throw_def)
next
  case magic: True
  let ?bytes = "kMagic @ put_u16le [] (h_version h) @ put_u16le [] (h_page_size h) @
      header_tail h @ put_u32le [] (h_header_crc32 h) @ rest"
  have req: "rd_bind (require kHeaderSize) k (rd_at pre ?bytes) = k () (rd_at pre ?bytes)"
    for k :: "unit \<Rightarrow> file_header rd"
    by (rule require_bind_at) (simp add: kHeaderSize_def)
  have mat: "rd_match kMagic (rd_at pre ?bytes)"
    by (simp add: rd_match_def)
  have crc: "take kHeaderCrcCovered (drop (length pre) (rd_data (rd_at pre ?bytes))) = header_prefix h"
    by (simp add: kHeaderCrcCovered_def header_prefix_alt)
  have skip: "rd_bind (skip (length kMagic)) k (rd_at pre (kMagic @ xs)) = k () (rd_at (pre @ kMagic) xs)"
    for k :: "unit \<Rightarrow> file_header rd" and xs
    by (simp add: rd_bind_def rd_simps del: kMagic_nonempty)
  have version: "(h_version h \<noteq> kSupportedVersion) = (h_version h \<noteq> 1)"
    by (simp add: kSupportedVersion_def)
  note flat = req [unfolded header_tail_def append_assoc] mat [unfolded header_tail_def append_assoc]
    crc [unfolded header_tail_def append_assoc]
  show ?thesis
    unfolding parse_header_def Let_def magic header_verdict_def header_tail_def append_assoc
    apply (simp only: flat rd_at_fields(2) not_True_eq_False if_False skip codec_simps
        page_size_gate version header_tail_def append_assoc rd_at_fields)
    apply (cases "h_version h = 1"; cases "page_size_ok (h_page_size h)";
        cases "crc32 (header_prefix h) = h_header_crc32 h"; cases strict)
    apply (simp_all only: simp_thms if_True if_False codec_simps append_assoc)
    apply (simp_all add: rd_throw_def rd_return_def header_bytes_alt header_prefix_alt header_tail_def
        kHeaderCrcCovered_def)
    done
qed

lemma parse_header_short:
  "length rest < 32 \<Longrightarrow>
     parse_header strict (rd_at pre rest) = Inl (parse_error_default kShortRead (length pre))"
  by (simp add: parse_header_def rd_bind_def require_def kHeaderSize_def)

text \<open>Every 32 bytes are laid out this way.\<close>

lemma bytes_u16le: "length bs = 2 \<Longrightarrow> \<exists>v. bs = put_u16le [] v"
proof -
  assume "length bs = 2"
  then obtain a b where bs: "bs = [a, b]"
    by (auto simp: numeral_2_eq_2 length_Suc_conv)
  show ?thesis
    unfolding bs
    by (rule exI [of _ "ucast a OR push_bit 8 (ucast b)"])
      (auto simp: put_u16le_def bit_eq_iff bit_simps dest: bit_imp_le_length)
qed

lemma bytes_u32le: "length bs = 4 \<Longrightarrow> \<exists>v. bs = put_u32le [] v"
proof -
  assume "length bs = 4"
  then obtain a b c d where bs: "bs = [a, b, c, d]"
    by (auto simp: eval_nat_numeral length_Suc_conv)
  show ?thesis
    unfolding bs
    by (rule exI [of _ "ucast a OR push_bit 8 (ucast b) OR push_bit 16 (ucast c) OR push_bit 24 (ucast d)"])
      (auto simp: put_u32le_def bit_eq_iff bit_simps dest: bit_imp_le_length)
qed


lemma header_layout_exists:
  assumes "32 \<le> length bs"
  obtains h rest where
    "bs = take 4 bs @ put_u16le [] (h_version h) @ put_u16le [] (h_page_size h) @ header_tail h @
      put_u32le [] (h_header_crc32 h) @ rest"
proof -
  define piece where "piece i n = take n (drop i bs)" for i n
  have w16: "\<exists>v. piece i 2 = put_u16le [] v" if "i + 2 \<le> 32" for i
    using that assms by (intro bytes_u16le) (simp add: piece_def)
  have w32: "\<exists>v. piece i 4 = put_u32le [] v" if "i + 4 \<le> 32" for i
    using that assms by (intro bytes_u32le) (simp add: piece_def)
  have chain: "drop i bs = piece i n @ drop (i + n) bs" for i n
    using append_take_drop_id [of n "drop i bs"] by (simp add: piece_def add.commute)
  obtain v where v: "piece 4 2 = put_u16le [] v" using w16 [of 4] by auto
  obtain ps where ps: "piece 6 2 = put_u16le [] ps" using w16 [of 6] by auto
  obtain a where a: "piece 8 4 = put_u32le [] a" using w32 [of 8] by auto
  obtain b where b: "piece 12 4 = put_u32le [] b" using w32 [of 12] by auto
  obtain c where c: "piece 16 4 = put_u32le [] c" using w32 [of 16] by auto
  obtain d where d: "piece 20 4 = put_u32le [] d" using w32 [of 20] by auto
  obtain e where e: "piece 24 4 = put_u32le [] e" using w32 [of 24] by auto
  obtain f where f: "piece 28 4 = put_u32le [] f" using w32 [of 28] by auto
  have "bs = take 4 bs @ piece 4 2 @ piece 6 2 @ piece 8 4 @ piece 12 4 @ piece 16 4 @ piece 20 4 @
      piece 24 4 @ piece 28 4 @ drop 32 bs"
    using chain [of 4 2] chain [of 6 2] chain [of 8 4] chain [of 12 4] chain [of 16 4] chain [of 20 4]
      chain [of 24 4] chain [of 28 4] append_take_drop_id [of 4 bs]
    by (simp only: numeral_plus_numeral add_num_simps)
  then show thesis
    by (intro that [of "\<lparr>h_version = v, h_page_size = ps, h_page_count = a, h_root_page = b,
        h_string_table_page = c, h_journal_offset = d, h_flags = e, h_header_crc32 = f,
        h_checksum_ok = True\<rparr>" "drop 32 bs"])
      (simp only: v ps a b c d e f header_tail_def file_header.simps append_assoc)
qed

text \<open>The gate as a condition on the bytes, and the round trip.\<close>

definition le16 :: "bytes \<Rightarrow> nat \<Rightarrow> nat" where
  "le16 bs i = unat (bs ! i) + 256 * unat (bs ! (i + 1))"

lemma le16_put: "le16 (pre @ put_u16le [] v @ rest) (length pre) = unat v"
proof -
  have "unat v < 65536" using unsigned_less [of v, where ?'a = nat] by simp
  moreover have low: "(ucast (w AND 0xFF) :: u8) = ucast w" for w :: u16
    by (rule bit_word_eqI) (auto simp: bit_simps)
  have "unat (ucast w :: u8) = unat w mod 256" for w :: u16
    by (simp add: unsigned_ucast_eq take_bit_eq_mod)
  moreover have "unat (drop_bit 8 v) = unat v div 2 ^ 8"
    by (metis unat_drop_bit_eq drop_bit_eq_div)
  ultimately show ?thesis
    by (simp add: le16_def put_u16le_def nth_append low)
qed

lemma parse_header_accepts:
  "(\<exists>h r. parse_header strict (byte_reader_new bs) = Inr (h, r)) \<longleftrightarrow>
     32 \<le> length bs \<and> take 4 bs = kMagic \<and> le16 bs 4 = 1 \<and>
     le16 bs 6 \<in> {64..8192} \<and> le16 bs 6 mod 16 = 0 \<and>
     (strict \<longrightarrow> put_u32le [] (crc32 (take 28 bs)) = take 4 (drop 28 bs))"
proof (cases "32 \<le> length bs")
  case False
  then show ?thesis by (simp add: rd_at_new parse_header_short)
next
  case True
  then obtain h rest where lay:
    "bs = take 4 bs @ put_u16le [] (h_version h) @ put_u16le [] (h_page_size h) @ header_tail h @
      put_u32le [] (h_header_crc32 h) @ rest"
    by (rule header_layout_exists)
  define m where "m = take 4 bs"
  have m4: "length m = 4" using True by (simp add: m_def)
  have bs: "bs = m @ put_u16le [] (h_version h) @ put_u16le [] (h_page_size h) @ header_tail h @
      put_u32le [] (h_header_crc32 h) @ rest"
    using lay by (simp add: m_def)
  have version: "le16 bs 4 = unat (h_version h)"
    using le16_put [of m "h_version h"] by (simp add: bs m4)
  have size: "le16 bs 6 = unat (h_page_size h)"
    using le16_put [of "m @ put_u16le [] (h_version h)" "h_page_size h"] by (simp add: bs m4)
  have crc: "take 4 (drop 28 bs) = put_u32le [] (h_header_crc32 h)"
    and pre: "take 28 bs = m @ put_u16le [] (h_version h) @ put_u16le [] (h_page_size h) @ header_tail h"
    by (simp_all add: bs m4)
  have ok: "page_size_ok (h_page_size h) \<longleftrightarrow>
      unat (h_page_size h) \<in> {64..8192} \<and> unat (h_page_size h) mod 16 = 0"
    by (simp add: page_size_ok_def word_le_nat_alt word_unat_eq_iff unat_mod_distrib)
  have one: "h_version h = 1 \<longleftrightarrow> unat (h_version h) = 1"
    by (simp add: word_unat_eq_iff)
  show ?thesis
    unfolding version size crc pre rd_at_new
    using True m4 parse_header_layout [OF m4, of strict "[]" h rest]
    by (auto simp: bs [symmetric] m_def [symmetric] header_verdict_def header_prefix_alt ok one
        u32le_codec.put_inject Let_def split: if_splits)
qed

lemma parse_header_round_trip:
  assumes "h_version h = 1" and "page_size_ok (h_page_size h)"
    and "h_header_crc32 h = crc32 (header_prefix h)" and "h_checksum_ok h"
  shows "parse_header strict (rd_at pre (header_bytes h @ rest)) = Inr (h, rd_at (pre @ header_bytes h) rest)"
proof -
  have "header_verdict strict kMagic (length pre) h = Inr h"
    using assms by (simp add: header_verdict_def)
  moreover have "header_bytes h @ rest = kMagic @ put_u16le [] (h_version h) @ put_u16le [] (h_page_size h) @
      header_tail h @ put_u32le [] (h_header_crc32 h) @ rest"
    by (simp add: header_bytes_alt header_prefix_alt)
  ultimately show ?thesis
    using parse_header_layout [of kMagic strict pre h rest] by simp
qed

text \<open>
  The lenient checksum: when two accepted buffers differ in exactly one of the 28 covered bytes, at
  most one of them is marked intact.
\<close>

lemma parse_header_checksum:
  assumes "parse_header strict (byte_reader_new bs) = Inr (h, r)"
  shows "h_checksum_ok h \<longleftrightarrow> put_u32le [] (crc32 (take 28 bs)) = take 4 (drop 28 bs)"
    and "r = rd_at (take 32 bs) (drop 32 bs)"
proof -
  from assms have len: "32 \<le> length bs"
    using parse_header_accepts [of strict bs] by auto
  then obtain h0 rest where lay:
    "bs = take 4 bs @ put_u16le [] (h_version h0) @ put_u16le [] (h_page_size h0) @ header_tail h0 @
      put_u32le [] (h_header_crc32 h0) @ rest"
    by (rule header_layout_exists)
  from assms have magic: "take 4 bs = kMagic"
    using parse_header_accepts [of strict bs] by auto
  have bs: "bs = header_bytes h0 @ rest"
    using lay by (simp add: magic header_bytes_alt header_prefix_alt)
  have "parse_header strict (byte_reader_new bs) =
      bindE (header_verdict strict kMagic 0 h0) (\<lambda>h'. Inr (h', rd_at (header_bytes h0) rest))"
    using parse_header_layout [of kMagic strict "[]" h0 rest]
    by (simp add: bs rd_at_new header_bytes_alt header_prefix_alt)
  with assms have "h_checksum_ok h \<longleftrightarrow> crc32 (header_prefix h0) = h_header_crc32 h0"
    and r: "r = rd_at (header_bytes h0) rest"
    by (auto simp: header_verdict_def Let_def split: if_splits)
  then show "h_checksum_ok h \<longleftrightarrow> put_u32le [] (crc32 (take 28 bs)) = take 4 (drop 28 bs)"
    by (simp add: bs header_bytes_alt u32le_codec.put_inject)
  show "r = rd_at (take 32 bs) (drop 32 bs)"
    using r by (simp add: bs)
qed

lemma header_crc_detects:
  assumes "parse_header False (byte_reader_new (xs @ [a] @ ys)) = Inr (h, r)"
    and "parse_header False (byte_reader_new (xs @ [b] @ ys)) = Inr (h', r')"
    and "a \<noteq> b" and "length xs < 28"
  shows "\<not> (h_checksum_ok h \<and> h_checksum_ok h')"
proof
  assume ok: "h_checksum_ok h \<and> h_checksum_ok h'"
  let ?zs = "take (27 - length xs) ys"
  have take: "take 28 (xs @ [c] @ ys) = xs @ [c] @ ?zs" for c
    using assms(4) by (simp add: take_Cons' Suc_diff_le)
  have drop: "drop 28 (xs @ [c] @ ys) = drop (27 - length xs) ys" for c
    using assms(4) by (simp add: drop_Cons') 
  have "put_u32le [] (crc32 (xs @ [a] @ ?zs)) = put_u32le [] (crc32 (xs @ [b] @ ?zs))"
    using ok parse_header_checksum(1) [OF assms(1)] parse_header_checksum(1) [OF assms(2)]
    by (simp only: take drop)
  then have "crc32 (xs @ [a] @ ?zs) = crc32 (xs @ [b] @ ?zs)"
    by (simp only: u32le_codec.put_inject)
  with assms(3) show False
    by (simp only: crc.detects_byte)
qed

end
