(* ===== verification/Db_Pages.thy ===== *)
theory Db_Pages
  imports Db_Header
begin

text \<open>
  Stage 2 of \<^verbatim>\<open>minidb::open\<close> (\<^verbatim>\<open>src/minidb/pages.cpp\<close>): the page array with its slot directories, and
  \<^verbatim>\<open>derive_spans\<close> of \<^verbatim>\<open>src/minidb/overflow.cpp\<close>, which recomputes the page geometry. The theory shows
  that the walk cannot throw, that every span lies inside the buffer and starts at its page's place,
  that a slot is in bounds exactly when it lies in the declared page behind the page header, and that
  the recomputed spans are the parsed ones.
\<close>

section \<open>The walk\<close>

definition read_page_header :: "page \<Rightarrow> page rd" where
  "read_page_header pg =
     rd_bind read_u8 (\<lambda>type_byte.
     rd_bind read_u8 (\<lambda>flags.
     rd_bind read_u16le (\<lambda>slot_count.
     rd_bind read_u16le (\<lambda>free_start.
     rd_bind read_u16le (\<lambda>overflow_next.
       rd_return (pg\<lparr>pg_type := page_type_of_byte type_byte, pg_flags := flags,
         pg_slot_count := slot_count, pg_free_start := free_start,
         pg_overflow_next := overflow_next\<rparr>))))))"

definition make_slot :: "nat \<Rightarrow> u16 \<Rightarrow> u16 \<Rightarrow> slot" where
  "make_slot page_size rec_offset rec_length =
     (let end = unat rec_offset + unat rec_length
      in \<lparr>sl_rec_offset = rec_offset, sl_rec_length = rec_length,
          sl_in_bounds = kPageHeaderSize \<le> unat rec_offset \<and> end \<le> page_size \<and> unat rec_offset \<le> end\<rparr>)"

primrec read_slots :: "nat \<Rightarrow> nat \<Rightarrow> slot list rd" where
  "read_slots page_size 0 = rd_return []"
| "read_slots page_size (Suc n) =
     rd_bind read_u16le (\<lambda>rec_offset.
     rd_bind read_u16le (\<lambda>rec_length.
     rd_bind (read_slots page_size n) (\<lambda>slots.
       rd_return (make_slot page_size rec_offset rec_length # slots))))"

text \<open>The directory entries that fit, and whether the directory had to be clamped.\<close>

definition fit_entries :: "nat \<Rightarrow> u16 \<Rightarrow> nat \<times> bool" where
  "fit_entries page_len slot_count =
     (let dir_off = kPageHeaderSize; dir_bytes = unat slot_count * kSlotEntrySize
      in if page_len < dir_off + dir_bytes
         then ((if dir_off < page_len then page_len - dir_off else 0) div kSlotEntrySize, True)
         else (unat slot_count, False))"

text \<open>The body of the page loop, for a page that starts inside the buffer.\<close>

definition parse_page :: "bytes \<Rightarrow> nat \<Rightarrow> nat \<Rightarrow> (page_span \<times> page) result" where
  "parse_page data page_size i =
     (let page_off = kHeaderSize + i * page_size;
          avail = length data - page_off;
          page_len = (if avail < page_size then avail else page_size);
          span = \<lparr>ps_file_offset = page_off, ps_length = page_len\<rparr>;
          pg = page_new (of_nat i)
      in if page_len < kPageHeaderSize then Inr (span, pg\<lparr>pg_truncated := True\<rparr>)
         else bindE
           (rd_bind (read_page_header pg) (\<lambda>pg.
              let (n, clamped) = fit_entries page_len (pg_slot_count pg)
              in rd_bind (read_slots page_size n) (\<lambda>slots.
                   rd_return (pg\<lparr>pg_truncated := page_len < page_size \<or> clamped, pg_slots := slots\<rparr>)))
             (byte_reader_new (take page_len (drop page_off data))))
           (\<lambda>(pg, _). Inr (span, pg)))"

function parse_pages_loop ::
  "bytes \<Rightarrow> nat \<Rightarrow> nat \<Rightarrow> nat \<Rightarrow> page_span list \<Rightarrow> page list \<Rightarrow> (page_span list \<times> page list) result"
where
  "parse_pages_loop data page_size page_count i spans pages =
     (if i < page_count
      then if length data \<le> kHeaderSize + i * page_size then Inr (spans, pages)
           else case parse_page data page_size i of
                  Inl e \<Rightarrow> Inl e
                | Inr (span, pg) \<Rightarrow>
                    parse_pages_loop data page_size page_count (i + 1) (spans @ [span]) (pages @ [pg])
      else Inr (spans, pages))"
  by pat_completeness auto
termination
  by (relation "measure (\<lambda>(data, page_size, page_count, i, spans, pages). page_count - i)") auto

declare parse_pages_loop.simps [simp del]

definition parse_pages :: "bytes \<Rightarrow> file_header \<Rightarrow> database \<Rightarrow> (page_span list \<times> database) result" where
  "parse_pages data hdr db =
     bindE (parse_pages_loop data (unat (h_page_size hdr)) (unat (h_page_count hdr)) 0 [] (db_pages db))
       (\<lambda>(spans, pages). Inr (spans, db\<lparr>db_pages := pages\<rparr>))"

definition derive_span :: "nat \<Rightarrow> nat \<Rightarrow> nat \<Rightarrow> page_span" where
  "derive_span sz page_size i =
     (let off = kHeaderSize + i * page_size
      in if sz \<le> off \<or> page_size = 0 then \<lparr>ps_file_offset = off, ps_length = 0\<rparr>
         else let avail = sz - off
              in \<lparr>ps_file_offset = off, ps_length = (if avail < page_size then avail else page_size)\<rparr>)"

definition derive_spans :: "nat \<Rightarrow> database \<Rightarrow> page_span list" where
  "derive_spans sz db =
     map (derive_span sz (unat (db_page_size db))) [0..<length (db_pages db)]"

section \<open>A page parses in every case\<close>

text \<open>The layout of a page header and of a slot directory.\<close>

definition page_header_bytes :: "page \<Rightarrow> bytes" where
  "page_header_bytes pg =
     put_u8 [] (page_type_byte (pg_type pg)) @ put_u8 [] (pg_flags pg) @ put_u16le [] (pg_slot_count pg) @
     put_u16le [] (pg_free_start pg) @ put_u16le [] (pg_overflow_next pg)"

definition slot_bytes :: "(u16 \<times> u16) list \<Rightarrow> bytes" where
  "slot_bytes es = concat (map (\<lambda>(off, len). put_u16le [] off @ put_u16le [] len) es)"

lemma slot_bytes_simps [simp]:
  "slot_bytes [] = []"
  "slot_bytes ((off, len) # es) = put_u16le [] off @ put_u16le [] len @ slot_bytes es"
  by (simp_all add: slot_bytes_def)

lemma length_page_header_bytes [simp]: "length (page_header_bytes pg) = 8"
  by (simp add: page_header_bytes_def put_u8_def)

lemma read_page_header_at:
  assumes "page_type_of_byte (page_type_byte (pg_type h)) = pg_type h"
  shows "read_page_header pg (rd_at pre (page_header_bytes h @ rest)) =
     Inr (pg\<lparr>pg_type := pg_type h, pg_flags := pg_flags h, pg_slot_count := pg_slot_count h,
         pg_free_start := pg_free_start h, pg_overflow_next := pg_overflow_next h\<rparr>,
       rd_at (pre @ page_header_bytes h) rest)"
  unfolding read_page_header_def page_header_bytes_def
  by (simp only: codec_simps append_assoc) (simp add: rd_return_def assms)

lemma read_slots_at:
  "read_slots page_size (length es) (rd_at pre (slot_bytes es @ rest)) =
     Inr (map (\<lambda>(off, len). make_slot page_size off len) es, rd_at (pre @ slot_bytes es) rest)"
proof (induction es arbitrary: pre)
  case Nil
  then show ?case by (simp add: rd_return_def)
next
  case (Cons e es)
  obtain off len where e: "e = (off, len)" by (cases e)
  show ?case
    unfolding e
    by (simp only: list.size add_0_right add_Suc_right read_slots.simps slot_bytes_simps append_assoc
        codec_simps)
      (simp add: rd_bind_def Cons.IH [of "pre @ put_u16le [] off @ put_u16le [] len", simplified]
        rd_return_def)
qed

text \<open>Every sequence of bytes that is long enough has this layout.\<close>

lemma page_header_layout:
  assumes "8 \<le> length bs"
  obtains h where "take 8 bs = page_header_bytes h"
    and "page_type_of_byte (page_type_byte (pg_type h)) = pg_type h"
proof -
  obtain t bs1 where 1: "bs = t # bs1" using assms by (cases bs) auto
  with assms obtain fl bs2 where 2: "bs1 = fl # bs2" by (cases bs1) auto
  obtain sc where sc: "take 2 bs2 = put_u16le [] sc"
    using bytes_u16le [of "take 2 bs2"] assms 1 2 by auto
  obtain fs where fs: "take 2 (drop 2 bs2) = put_u16le [] fs"
    using bytes_u16le [of "take 2 (drop 2 bs2)"] assms 1 2 by auto
  obtain ov where ov: "take 2 (drop 4 bs2) = put_u16le [] ov"
    using bytes_u16le [of "take 2 (drop 4 bs2)"] assms 1 2 by auto
  have "take 6 bs2 = take 2 bs2 @ take 2 (drop 2 bs2) @ take 2 (drop 4 bs2)"
    using take_add [of 2 4 bs2] take_add [of 2 2 "drop 2 bs2"] by simp
  then have "take 8 bs = page_header_bytes ((page_new 0)\<lparr>pg_type := page_type_of_byte t,
      pg_flags := fl, pg_slot_count := sc, pg_free_start := fs, pg_overflow_next := ov\<rparr>)"
    by (simp add: 1 2 sc fs ov page_header_bytes_def put_u8_def)
  then show thesis by (rule that) simp
qed

lemma slot_layout:
  assumes "4 * n \<le> length bs"
  obtains es where "length es = n" and "take (4 * n) bs = slot_bytes es"
proof -
  have "\<exists>es. length es = n \<and> take (4 * n) bs = slot_bytes es"
    using assms
  proof (induction n arbitrary: bs)
    case (Suc n)
    obtain off where off: "take 2 bs = put_u16le [] off"
      using bytes_u16le [of "take 2 bs"] Suc.prems by auto
    obtain len where len: "take 2 (drop 2 bs) = put_u16le [] len"
      using bytes_u16le [of "take 2 (drop 2 bs)"] Suc.prems by auto
    obtain es where "length es = n" "take (4 * n) (drop 4 bs) = slot_bytes es"
      using Suc.IH [of "drop 4 bs"] Suc.prems by fastforce
    moreover have "take (4 * Suc n) bs = take 2 bs @ take 2 (drop 2 bs) @ take (4 * n) (drop 4 bs)"
      using take_add [of 4 "4 * n" bs] take_add [of 2 2 bs] by simp
    ultimately show ?case
      by (intro exI [of _ "(off, len) # es"]) (simp add: off len)
  qed simp
  with that show thesis by blast
qed

text \<open>The bytes of page \<open>i\<close>, and what the walk makes of them.\<close>

definition page_bytes :: "bytes \<Rightarrow> nat \<Rightarrow> nat \<Rightarrow> bytes" where
  "page_bytes data page_size i = take page_size (drop (kHeaderSize + i * page_size) data)"

lemma fit_entries_fit: "fst (fit_entries page_len n) * 4 + 8 \<le> page_len" if "8 \<le> page_len"
  using that by (auto simp: fit_entries_def Let_def kPageHeaderSize_def kSlotEntrySize_def)

lemma parse_page_spec:
  assumes "kHeaderSize + i * page_size < length data"
  obtains (short) "length (page_bytes data page_size i) < 8"
      and "parse_page data page_size i =
        Inr (derive_span (length data) page_size i, (page_new (of_nat i))\<lparr>pg_truncated := True\<rparr>)"
  | (full) h es body where "page_bytes data page_size i = page_header_bytes h @ slot_bytes es @ body"
      and "length es = fst (fit_entries (length (page_bytes data page_size i)) (pg_slot_count h))"
      and "page_type_of_byte (page_type_byte (pg_type h)) = pg_type h"
      and "parse_page data page_size i =
        Inr (derive_span (length data) page_size i,
          h\<lparr>pg_index := of_nat i,
            pg_truncated := length (page_bytes data page_size i) < page_size \<or>
              snd (fit_entries (length (page_bytes data page_size i)) (pg_slot_count h)),
            pg_slots := map (\<lambda>(off, len). make_slot page_size off len) es\<rparr>)"
proof -
  let ?bs = "page_bytes data page_size i"
  define plen where "plen = (if length data - (kHeaderSize + i * page_size) < page_size
    then length data - (kHeaderSize + i * page_size) else page_size)"
  have plen: "length ?bs = plen" "take plen (drop (kHeaderSize + i * page_size) data) = ?bs"
    by (auto simp: plen_def page_bytes_def)
  have span: "derive_span (length data) page_size i =
      \<lparr>ps_file_offset = kHeaderSize + i * page_size, ps_length = plen\<rparr>"
    using assms by (simp add: derive_span_def plen_def Let_def)
  show thesis
  proof (cases "plen < 8")
    case True
    then show thesis
      using assms by (intro short) (simp_all add: plen span parse_page_def Let_def plen_def [symmetric]
          kPageHeaderSize_def)
  next
    case False
    then obtain h where h: "take 8 ?bs = page_header_bytes h"
      and known: "page_type_of_byte (page_type_byte (pg_type h)) = pg_type h"
      using page_header_layout [of ?bs] plen(1) by auto
    let ?n = "fst (fit_entries plen (pg_slot_count h))"
    have "4 * ?n \<le> length (drop 8 ?bs)"
      using fit_entries_fit [of plen "pg_slot_count h"] False plen(1) by simp
    then obtain es where es: "length es = ?n" "take (4 * ?n) (drop 8 ?bs) = slot_bytes es"
      by (rule slot_layout)
    define body where "body = drop (4 * ?n) (drop 8 ?bs)"
    have bs: "?bs = page_header_bytes h @ slot_bytes es @ body"
      unfolding body_def h [symmetric] es(2) [symmetric] by (simp only: append_take_drop_id)
    have "parse_page data page_size i =
        Inr (derive_span (length data) page_size i,
          h\<lparr>pg_index := of_nat i,
            pg_truncated := plen < page_size \<or> snd (fit_entries plen (pg_slot_count h)),
            pg_slots := map (\<lambda>(off, len). make_slot page_size off len) es\<rparr>)"
      using False read_slots_at [of page_size es "page_header_bytes h" body]
      by (simp add: parse_page_def Let_def plen_def [symmetric] plen(2) kPageHeaderSize_def rd_at_new bs
          rd_bind_def read_page_header_at [OF known, of _ "[]", simplified] page_new_def span
          split_beta es(1) rd_return_def)
    with bs es(1) plen(1) known show thesis by (intro full [of h es body]) simp_all
  qed
qed

lemma parse_page_total:
  assumes "kHeaderSize + i * page_size < length data"
  obtains pg where "parse_page data page_size i = Inr (derive_span (length data) page_size i, pg)"
    and "pg_index pg = of_nat i"
    and "length (pg_slots pg) \<le> unat (pg_slot_count pg)"
    and "\<forall>s \<in> set (pg_slots pg). sl_in_bounds s \<longleftrightarrow>
      8 \<le> unat (sl_rec_offset s) \<and> unat (sl_rec_offset s) + unat (sl_rec_length s) \<le> page_size"
    and "8 + 4 * length (pg_slots pg) \<le> max 8 (length (page_bytes data page_size i))"
    and "page_type_of_byte (page_type_byte (pg_type pg)) = pg_type pg"
proof (cases rule: parse_page_spec [OF assms])
  case 1
  show thesis by (rule that [OF 1(2)]) (simp_all add: page_new_def)
next
  case (2 h es body)
  have "length es \<le> unat (pg_slot_count h)"
    unfolding 2(2) by (auto simp: fit_entries_def Let_def kPageHeaderSize_def kSlotEntrySize_def)
  moreover have "length (page_bytes data page_size i) = 8 + length (slot_bytes es) + length body"
    by (simp add: 2(1))
  moreover have "length (slot_bytes es) = 4 * length es"
    by (induction es) auto
  ultimately show thesis
    using 2(3) by (intro that [OF 2(4)])
      (auto simp: make_slot_def Let_def kPageHeaderSize_def)
qed

text \<open>
  The whole walk: it never throws; it visits the pages that start before the end of the buffer, in
  order; and its spans are the recomputed ones.
\<close>

definition page_at :: "bytes \<Rightarrow> nat \<Rightarrow> nat \<Rightarrow> page" where
  "page_at data page_size i = (case parse_page data page_size i of Inr (span, pg) \<Rightarrow> pg | Inl e \<Rightarrow> page_new 0)"

definition pages_present :: "bytes \<Rightarrow> nat \<Rightarrow> nat \<Rightarrow> nat" where
  "pages_present data page_size page_count =
     length (takeWhile (\<lambda>i. kHeaderSize + i * page_size < length data) [0..<page_count])"

lemma parse_page_at:
  "kHeaderSize + i * page_size < length data \<Longrightarrow>
     parse_page data page_size i = Inr (derive_span (length data) page_size i, page_at data page_size i)"
  by (rule parse_page_total) (auto simp: page_at_def)

lemma parse_pages_loop_walk:
  "i \<le> page_count \<Longrightarrow> parse_pages_loop data page_size page_count i spans pages =
     (let is = takeWhile (\<lambda>i. kHeaderSize + i * page_size < length data) [i..<page_count]
      in Inr (spans @ map (derive_span (length data) page_size) is, pages @ map (page_at data page_size) is))"
proof (induction data page_size page_count i spans pages rule: parse_pages_loop.induct)
  case (1 data page_size page_count i spans pages)
  show ?case
  proof (cases "i < page_count \<and> kHeaderSize + i * page_size < length data")
    case True
    have split: "[i..<page_count] = i # [Suc i..<page_count]"
      using True by (simp add: upt_conv_Cons)
    show ?thesis
      using True 1 parse_page_at [of i page_size data]
      by (subst parse_pages_loop.simps) (simp add: split Let_def)
  next
    case False
    then show ?thesis
      using 1(2) by (subst parse_pages_loop.simps) (auto simp: Let_def upt_conv_Cons)
  qed
qed

lemma pages_present_upt:
  "takeWhile (\<lambda>i. kHeaderSize + i * page_size < length data) [0..<page_count] =
     [0..<pages_present data page_size page_count]"
proof -
  let ?P = "\<lambda>i. kHeaderSize + i * page_size < length data"
  have "takeWhile ?P [0..<page_count] = take (length (takeWhile ?P [0..<page_count])) [0..<page_count]"
    by (rule takeWhile_eq_take)
  moreover have "length (takeWhile ?P [0..<page_count]) \<le> page_count"
    using length_takeWhile_le [of ?P "[0..<page_count]"] by simp
  ultimately show ?thesis by (simp add: pages_present_def take_upt)
qed

lemma pages_present_bounds:
  "pages_present data page_size page_count \<le> page_count"
  "i < pages_present data page_size page_count \<Longrightarrow> kHeaderSize + i * page_size < length data"
  "pages_present data page_size page_count < page_count \<Longrightarrow>
     length data \<le> kHeaderSize + pages_present data page_size page_count * page_size"
proof -
  let ?P = "\<lambda>i. kHeaderSize + i * page_size < length data"
  show "pages_present data page_size page_count \<le> page_count"
    unfolding pages_present_def using length_takeWhile_le [of ?P "[0..<page_count]"] by simp
  show "?P i" if "i < pages_present data page_size page_count"
  proof -
    have "i \<in> set (takeWhile ?P [0..<page_count])" using that by (simp add: pages_present_upt)
    then show ?thesis by (blast dest: set_takeWhileD)
  qed
  show "length data \<le> kHeaderSize + pages_present data page_size page_count * page_size"
    if "pages_present data page_size page_count < page_count"
    using that nth_length_takeWhile [of ?P "[0..<page_count]"]
    by (simp add: pages_present_def not_less)
qed

lemma parse_pages_ok:
  fixes data :: bytes and hdr :: file_header
  assumes "db_pages db = []"
  defines "n \<equiv> pages_present data (unat (h_page_size hdr)) (unat (h_page_count hdr))"
  shows "parse_pages data hdr db =
     Inr (map (derive_span (length data) (unat (h_page_size hdr))) [0..<n],
       db\<lparr>db_pages := map (page_at data (unat (h_page_size hdr))) [0..<n]\<rparr>)"
  using assms(1) by (simp add: parse_pages_def parse_pages_loop_walk Let_def pages_present_upt n_def)

lemma page_at_facts:
  assumes "kHeaderSize + i * page_size < length data"
  shows "pg_index (page_at data page_size i) = of_nat i"
    and "page_type_of_byte (page_type_byte (pg_type (page_at data page_size i))) = pg_type (page_at data page_size i)"
    and "s \<in> set (pg_slots (page_at data page_size i)) \<Longrightarrow> sl_in_bounds s \<longleftrightarrow>
      8 \<le> unat (sl_rec_offset s) \<and> unat (sl_rec_offset s) + unat (sl_rec_length s) \<le> page_size"
    and "length (pg_slots (page_at data page_size i)) \<le> unat (pg_slot_count (page_at data page_size i))"
proof -
  obtain pg where pg: "parse_page data page_size i = Inr (derive_span (length data) page_size i, pg)"
    and facts: "pg_index pg = of_nat i" "length (pg_slots pg) \<le> unat (pg_slot_count pg)"
      "\<forall>s \<in> set (pg_slots pg). sl_in_bounds s \<longleftrightarrow>
        8 \<le> unat (sl_rec_offset s) \<and> unat (sl_rec_offset s) + unat (sl_rec_length s) \<le> page_size"
      "page_type_of_byte (page_type_byte (pg_type pg)) = pg_type pg"
    using parse_page_total [OF assms] by blast
  have "page_at data page_size i = pg" by (simp add: page_at_def pg)
  with facts show "pg_index (page_at data page_size i) = of_nat i"
    and "page_type_of_byte (page_type_byte (pg_type (page_at data page_size i))) = pg_type (page_at data page_size i)"
    and "s \<in> set (pg_slots (page_at data page_size i)) \<Longrightarrow> sl_in_bounds s \<longleftrightarrow>
      8 \<le> unat (sl_rec_offset s) \<and> unat (sl_rec_offset s) + unat (sl_rec_length s) \<le> page_size"
    and "length (pg_slots (page_at data page_size i)) \<le> unat (pg_slot_count (page_at data page_size i))"
    by simp_all
qed

lemma derive_span_inside:
  "off + ps_length (derive_span sz page_size i) \<le> sz \<or> ps_length (derive_span sz page_size i) = 0"
  if "off = ps_file_offset (derive_span sz page_size i)"
  using that by (auto simp: derive_span_def Let_def)

lemma derive_spans_parsed:
  assumes "db_pages db = []" and "parse_pages data hdr db = Inr (spans, db')"
    and "db_page_size db = h_page_size hdr"
  shows "derive_spans (length data) db' = spans"
  using assms by (auto simp: parse_pages_ok derive_spans_def)

end
