(* ===== verification/Db_Record.thy ===== *)
theory Db_Record
  imports Db_Pages
begin

text \<open>
  Stage 3 and the record decoder of minidb (\<^verbatim>\<open>src/minidb/strings.cpp\<close>, \<^verbatim>\<open>src/minidb/record.cpp\<close>): the
  string table and the typed fields of a record, whose string references are resolved against the
  table. The theory shows that both decoders invert the on-wire layout, that a shorter string page
  yields a prefix of the table, and which errors a record can raise. A length read from the wire is a
  64-bit word that is cast to \<^verbatim>\<open>std::size_t\<close>, so its value is kept.
\<close>

section \<open>The string table\<close>

definition read_string_entry :: "string rd" where
  "read_string_entry =
     rd_bind read_varint (\<lambda>len.
     rd_bind (require (unat len)) (\<lambda>_.
       read_string (unat len)))"

text \<open>The entry loop inside the \<^verbatim>\<open>try\<close> block: a thrown error ends it and keeps the entries.\<close>

fun read_string_entries :: "nat \<Rightarrow> string list \<Rightarrow> byte_reader \<Rightarrow> string list" where
  "read_string_entries 0 table r = table"
| "read_string_entries (Suc n) table r =
     (case read_string_entry r of
        Inl e \<Rightarrow> table
      | Inr (s, r') \<Rightarrow> read_string_entries n (table @ [s]) r')"

definition read_string_table :: "string list \<Rightarrow> byte_reader \<Rightarrow> string list" where
  "read_string_table table r =
     (case read_varint r of
        Inl e \<Rightarrow> table
      | Inr (entry_count, r') \<Rightarrow> read_string_entries (unat entry_count) table r')"

definition parse_string_table :: "bytes \<Rightarrow> file_header \<Rightarrow> page_span list \<Rightarrow> database \<Rightarrow> database" where
  "parse_string_table data hdr spans db =
     (let p = h_string_table_page hdr in
      if p = kNoStringTable then db
      else if length spans \<le> unat p \<or> length (db_pages db) \<le> unat p then db
      else if pg_type (db_pages db ! unat p) \<noteq> PtStrings then db
      else let span = spans ! unat p in
        if ps_length span \<le> kPageHeaderSize then db
        else let body = take (ps_length span - kPageHeaderSize)
                          (drop (ps_file_offset span + kPageHeaderSize) data)
             in db\<lparr>db_string_table := read_string_table (db_string_table db) (byte_reader_new body)\<rparr>)"

section \<open>Records\<close>

definition read_lenprefixed :: "bytes rd" where
  "read_lenprefixed =
     rd_bind read_varint (\<lambda>len.
     rd_bind (require (unat len)) (\<lambda>_.
       read_bytes (unat len)))"

text \<open>The payload of a field; \<open>field_off\<close> is the offset an unknown tag is reported at.\<close>

definition resolve_ref :: "string list \<Rightarrow> u64 \<Rightarrow> field" where
  "resolve_ref string_table ref_id =
     (let fd = (field_new FtStringRef)\<lparr>fd_ref_id := ref_id\<rparr>
      in if unat ref_id < length string_table
         then fd\<lparr>fd_str := string_table ! unat ref_id, fd_ref_resolved := True\<rparr>
         else fd\<lparr>fd_ref_resolved := False\<rparr>)"

definition read_field_value :: "string list \<Rightarrow> nat \<Rightarrow> field_type \<Rightarrow> field rd" where
  "read_field_value string_table field_off t =
     (case t of
        FtNull \<Rightarrow> rd_return (field_new t)
      | FtBool \<Rightarrow> rd_bind read_u8 (\<lambda>b. rd_return ((field_new t)\<lparr>fd_b := (b \<noteq> 0)\<rparr>))
      | FtInt \<Rightarrow> rd_bind read_svarint (\<lambda>i. rd_return ((field_new t)\<lparr>fd_i64 := i\<rparr>))
      | FtUint \<Rightarrow> rd_bind read_varint (\<lambda>u. rd_return ((field_new t)\<lparr>fd_u64 := u\<rparr>))
      | FtFloat \<Rightarrow> rd_bind read_u64le (\<lambda>bits. rd_return ((field_new t)\<lparr>fd_f64 := bits\<rparr>))
      | FtStringRef \<Rightarrow> rd_bind read_varint (\<lambda>ref_id. rd_return (resolve_ref string_table ref_id))
      | FtInlineString \<Rightarrow>
          rd_bind read_lenprefixed (\<lambda>bs. rd_return ((field_new t)\<lparr>fd_str := string_of_bytes bs\<rparr>))
      | FtBlob \<Rightarrow> rd_bind read_lenprefixed (\<lambda>bs. rd_return ((field_new t)\<lparr>fd_blob := bs\<rparr>))
      | FtOther b \<Rightarrow> rd_throw kBadType field_off ''unknown minidb field type'')"

definition read_field :: "string list \<Rightarrow> field rd" where
  "read_field string_table r =
     rd_bind read_u8 (\<lambda>tag. read_field_value string_table (rd_pos r) (field_type_of_byte tag)) r"

primrec read_fields :: "string list \<Rightarrow> nat \<Rightarrow> field list rd" where
  "read_fields string_table 0 = rd_return []"
| "read_fields string_table (Suc n) =
     rd_bind (read_field string_table) (\<lambda>fd.
     rd_bind (read_fields string_table n) (\<lambda>fds. rd_return (fd # fds)))"

definition read_record :: "string list \<Rightarrow> db_record rd" where
  "read_record string_table =
     rd_bind read_varint (\<lambda>field_count.
     rd_bind (read_fields string_table (unat field_count)) (\<lambda>fds. rd_return \<lparr>r_fields = fds\<rparr>))"

definition decode_record :: "bytes \<Rightarrow> string list \<Rightarrow> db_record result" where
  "decode_record rec string_table =
     bindE (read_record string_table (byte_reader_new rec)) (\<lambda>(out, _). Inr out)"

section \<open>Shorter string pages\<close>

interpretation string_entry_stable: stable_op read_string_entry
  unfolding read_string_entry_def by (intro stable_basics)

lemma read_string_entries_append: "\<exists>ss. read_string_entries n table r = table @ ss"
proof (induction n table r rule: read_string_entries.induct)
  case (2 n table r)
  show ?case
  proof (cases "read_string_entry r")
    case (Inr sr)
    obtain s r' where sr: "sr = (s, r')" by (cases sr)
    show ?thesis using 2 [OF Inr [unfolded sr] refl] by (auto simp: Inr sr)
  qed simp
qed simp

lemma read_string_entries_extend:
  "wf_rd r \<Longrightarrow> \<exists>ss. read_string_entries n table (rd_extend xs r) = read_string_entries n table r @ ss"
proof (induction n table r rule: read_string_entries.induct)
  case (2 n table r)
  show ?case
  proof (cases "read_string_entry r")
    case (Inl e)
    then show ?thesis using read_string_entries_append [of "Suc n" table "rd_extend xs r"] by simp
  next
    case (Inr sr)
    obtain s r' where sr: "sr = (s, r')" by (cases sr)
    have "read_string_entry (rd_extend xs r) = Inr (s, rd_extend xs r')"
      using 2(2) Inr sr by (intro string_entry_stable.extends) simp_all
    moreover have "wf_rd r'"
      using string_entry_stable.stays_inside [of r s r'] 2(2) Inr sr by simp
    ultimately show ?thesis
      using 2(1) [OF Inr [unfolded sr] refl] by (simp add: Inr sr)
  qed
qed simp

lemma read_string_table_extend:
  "\<exists>ss. read_string_table table (byte_reader_new (body @ xs)) =
     read_string_table table (byte_reader_new body) @ ss"
proof -
  have new: "byte_reader_new (body @ xs) = rd_extend xs (byte_reader_new body)"
    by (simp add: rd_at_new)
  show ?thesis
  proof (cases "read_varint (byte_reader_new body)")
    case (Inl e)
    show ?thesis
    proof (cases "read_varint (byte_reader_new (body @ xs))")
      case (Inr cr)
      obtain n r where cr: "cr = (n, r)" by (cases cr)
      obtain ss where "read_string_entries (unat n) table r = table @ ss"
        using read_string_entries_append by blast
      then have "read_string_table table (byte_reader_new (body @ xs)) = table @ ss"
        by (simp only: read_string_table_def Inr cr sum.case prod.case)
      then show ?thesis by (simp only: read_string_table_def Inl sum.case) blast
    next
      case (Inl e')
      then show ?thesis
        by (simp only: read_string_table_def Inl \<open>read_varint (byte_reader_new body) = Inl e\<close> sum.case) simp
    qed
  next
    case (Inr cr)
    obtain n r where cr: "cr = (n, r)" by (cases cr)
    have "read_varint (byte_reader_new (body @ xs)) = Inr (n, rd_extend xs r)"
      unfolding new using Inr cr by (intro varint_stable.extends) simp_all
    moreover have "wf_rd r"
      using varint_op.stays_inside [of "byte_reader_new body" n r] Inr cr by simp
    ultimately show ?thesis
      using read_string_entries_extend [of r "unat n" table xs]
      by (simp add: read_string_table_def Inr cr)
  qed
qed

section \<open>Round trips\<close>

definition string_table_bytes :: "string list \<Rightarrow> bytes" where
  "string_table_bytes ss =
     put_varint [] (of_nat (length ss)) @ concat (map (\<lambda>s. lenprefixed (bytes_of_string s)) ss)"

lemma read_string_entry_at:
  assumes "length s < 2 ^ 64"
  shows "read_string_entry (rd_at pre (lenprefixed (bytes_of_string s) @ rest)) =
     Inr (s, rd_at (pre @ lenprefixed (bytes_of_string s)) rest)"
proof -
  have len: "unat (of_nat (length s) :: u64) = length s" using assms by (rule unat_of_nat_u64)
  show ?thesis
    by (simp add: read_string_entry_def lenprefixed_def codec_simps len require_bind_at read_string_at)
qed

lemma read_string_entries_at:
  assumes "\<forall>s \<in> set ss. length s < 2 ^ 64"
  shows "read_string_entries (length ss) table
      (rd_at pre (concat (map (\<lambda>s. lenprefixed (bytes_of_string s)) ss) @ rest)) = table @ ss"
  using assms
proof (induction ss arbitrary: table pre)
  case (Cons s ss)
  then show ?case by (simp add: read_string_entry_at)
qed simp

lemma read_string_table_round_trip:
  assumes "length ss < 2 ^ 64" and "\<forall>s \<in> set ss. length s < 2 ^ 64"
  shows "read_string_table [] (byte_reader_new (string_table_bytes ss @ rest)) = ss"
  using assms unat_of_nat_u64 [OF assms(1)]
  by (simp add: read_string_table_def rd_at_new string_table_bytes_def codec_simps
      read_string_entries_at)

text \<open>A field as the format writes it, and the fields a reader can deliver for a given table.\<close>

fun field_bytes :: "field \<Rightarrow> bytes" where
  "field_bytes fd = put_u8 [] (field_type_byte (fd_type fd)) @
     (case fd_type fd of
        FtBool \<Rightarrow> put_u8 [] (of_bool (fd_b fd))
      | FtInt \<Rightarrow> put_svarint [] (fd_i64 fd)
      | FtUint \<Rightarrow> put_varint [] (fd_u64 fd)
      | FtFloat \<Rightarrow> put_u64le [] (fd_f64 fd)
      | FtStringRef \<Rightarrow> put_varint [] (fd_ref_id fd)
      | FtInlineString \<Rightarrow> lenprefixed (bytes_of_string (fd_str fd))
      | FtBlob \<Rightarrow> lenprefixed (fd_blob fd)
      | _ \<Rightarrow> [])"

definition field_ok :: "string list \<Rightarrow> field \<Rightarrow> bool" where
  "field_ok table fd \<longleftrightarrow>
     (case fd_type fd of
        FtNull \<Rightarrow> fd = field_new FtNull
      | FtBool \<Rightarrow> fd = (field_new FtBool)\<lparr>fd_b := fd_b fd\<rparr>
      | FtInt \<Rightarrow> fd = (field_new FtInt)\<lparr>fd_i64 := fd_i64 fd\<rparr>
      | FtUint \<Rightarrow> fd = (field_new FtUint)\<lparr>fd_u64 := fd_u64 fd\<rparr>
      | FtFloat \<Rightarrow> fd = (field_new FtFloat)\<lparr>fd_f64 := fd_f64 fd\<rparr>
      | FtStringRef \<Rightarrow> fd = resolve_ref table (fd_ref_id fd)
      | FtInlineString \<Rightarrow> fd = (field_new FtInlineString)\<lparr>fd_str := fd_str fd\<rparr>
      | FtBlob \<Rightarrow> fd = (field_new FtBlob)\<lparr>fd_blob := fd_blob fd\<rparr>
      | FtOther b \<Rightarrow> False)"

definition field_fits :: "field \<Rightarrow> bool" where
  "field_fits fd \<longleftrightarrow> length (fd_str fd) < 2 ^ 64 \<and> length (fd_blob fd) < 2 ^ 64"

definition record_bytes :: "db_record \<Rightarrow> bytes" where
  "record_bytes rec = put_varint [] (of_nat (length (r_fields rec))) @ concat (map field_bytes (r_fields rec))"

lemma read_lenprefixed_at:
  assumes "length bs < 2 ^ 64"
  shows "rd_bind read_lenprefixed k (rd_at pre (lenprefixed bs @ rest)) = k bs (rd_at (pre @ lenprefixed bs) rest)"
proof -
  have len: "unat (of_nat (length bs) :: u64) = length bs" using assms by (rule unat_of_nat_u64)
  have "read_lenprefixed (rd_at pre (lenprefixed bs @ rest)) = Inr (bs, rd_at (pre @ lenprefixed bs) rest)"
    by (simp add: read_lenprefixed_def lenprefixed_def codec_simps len require_bind_at read_bytes_at)
  then show ?thesis by (simp add: rd_bind_def)
qed

lemma read_field_at:
  assumes "field_ok table fd" and "field_fits fd"
  shows "read_field table (rd_at pre (field_bytes fd @ rest)) = Inr (fd, rd_at (pre @ field_bytes fd) rest)"
proof -
  have "read_field table (rd_at pre (field_bytes fd @ rest)) =
      read_field_value table (length pre) (fd_type fd)
        (rd_at (pre @ put_u8 [] (field_type_byte (fd_type fd))) (drop 1 (field_bytes fd) @ rest))"
    using assms(1)
    by (cases "fd_type fd") (simp_all add: read_field_def codec_simps field_ok_def put_u8_def
        rd_bind_def read_u8_at)
  also have "\<dots> = Inr (fd, rd_at (pre @ field_bytes fd) rest)"
    using assms by (cases "fd_type fd") (auto simp: read_field_value_def field_ok_def field_fits_def
        codec_simps put_u8_def rd_return_def read_u8_bind_at read_lenprefixed_at field_new_def)
  finally show ?thesis .
qed

lemma read_fields_at:
  assumes "\<forall>fd \<in> set fds. field_ok table fd \<and> field_fits fd"
  shows "read_fields table (length fds) (rd_at pre (concat (map field_bytes fds) @ rest)) =
     Inr (fds, rd_at (pre @ concat (map field_bytes fds)) rest)"
  using assms
proof (induction fds arbitrary: pre)
  case Nil
  then show ?case by (simp add: rd_return_def)
next
  case (Cons fd fds)
  then show ?case
    using read_field_at [of table fd pre "concat (map field_bytes fds) @ rest"]
    by (simp add: rd_bind_def rd_return_def del: field_bytes.simps)
qed

lemma decode_record_round_trip:
  assumes "\<forall>fd \<in> set (r_fields rec). field_ok table fd \<and> field_fits fd"
    and "length (r_fields rec) < 2 ^ 64"
  shows "decode_record (record_bytes rec @ rest) table = Inr rec"
  using read_fields_at [OF assms(1), of "put_varint [] (of_nat (length (r_fields rec)))" rest]
    unat_of_nat_u64 [OF assms(2)]
  by (simp add: decode_record_def read_record_def record_bytes_def rd_at_new codec_simps)
    (simp add: rd_bind_def rd_return_def)

section \<open>What a decoded record looks like\<close>

lemma read_field_ok:
  assumes "read_field table r = Inr (fd, r')"
  shows "field_ok table fd"
proof -
  obtain tag r1 where "read_field_value table (rd_pos r) (field_type_of_byte tag) r1 = Inr (fd, r')"
    using assms by (auto simp: read_field_def rd_bind_def bindE_eq_Inr)
  then show ?thesis
    by (cases "field_type_of_byte tag")
      (auto simp: read_field_value_def field_ok_def rd_bind_def bindE_eq_Inr rd_return_def field_new_def
        resolve_ref_def Let_def rd_throw_def split: if_splits)
qed

lemma read_fields_ok:
  "read_fields table n r = Inr (fds, r') \<Longrightarrow> length fds = n \<and> (\<forall>fd \<in> set fds. field_ok table fd)"
  by (induction n arbitrary: r fds) (auto simp: rd_return_def rd_bind_def bindE_eq_Inr read_field_ok)

lemma decode_record_ok:
  assumes "decode_record bs table = Inr rec"
  shows "\<forall>fd \<in> set (r_fields rec). field_ok table fd"
  using assms
  by (auto simp: decode_record_def read_record_def rd_bind_def bindE_eq_Inr rd_return_def dest: read_fields_ok)

section \<open>Errors\<close>

lemma throws_only_lenprefixed: "throws_only read_errors read_lenprefixed"
  unfolding read_lenprefixed_def by (intro throws_basics)

lemma throws_only_field: "throws_only read_errors (read_field table)"
proof -
  have "throws_only read_errors (read_field_value table off t)" for off t
    by (cases t) (auto simp: read_field_value_def read_svarint_def bad_type_read_error
        intro!: throws_basics throws_only_lenprefixed throws_only_throw)
  then show ?thesis
    using throws_basics(5)
    by (auto simp: throws_only_def read_field_def rd_bind_def bindE_eq_Inl)
qed

lemma throws_only_fields: "throws_only read_errors (read_fields table n)"
  by (induction n) (simp_all add: throws_basics throws_only_field)

lemma decode_record_errors:
  assumes "decode_record bs table = Inl e"
  shows "err_code e \<in> read_errors"
proof -
  have "throws_only read_errors (read_record table)"
    unfolding read_record_def by (intro throws_basics throws_only_fields)
  with assms show ?thesis by (auto simp: throws_only_def decode_record_def bindE_eq_Inl)
qed

end
