(* ===== verification/Db_Btree.thy ===== *)
theory Db_Btree
  imports Db_Record "HOL-Library.List_Lexorder" "HOL-Library.Multiset"
begin

text \<open>
  INDEX pages of minidb (\<^verbatim>\<open>include/minidb/btree.hpp\<close>, \<^verbatim>\<open>src/minidb/btree.cpp\<close>): decoding the entries,
  the unsigned key order, the binary search and the range scan. The theory shows that the key
  comparison is the lexicographic order on bytes, that a decoded page is a stably sorted permutation
  of the entries read, that the binary search finds the first entry with the key, and that the range
  scan selects exactly the keys in the window. A returned pointer is modelled by its index.
\<close>

record index_entry =
  ie_key :: string
  ie_page :: u32
  ie_slot :: u16

record index_page =
  ix_page_index :: u32
  ix_truncated :: bool
  ix_entries :: "index_entry list"

section \<open>Operations\<close>

text \<open>The comparison loop, from index \<open>i\<close>.\<close>

function key_compare_from :: "string \<Rightarrow> string \<Rightarrow> nat \<Rightarrow> int" where
  "key_compare_from a b i =
     (if i < (if length a < length b then length a else length b)
      then let ca = byte_of_char (a ! i); cb = byte_of_char (b ! i)
           in if ca \<noteq> cb then (if ca < cb then -1 else 1) else key_compare_from a b (i + 1)
      else if length a = length b then 0
      else if length a < length b then -1 else 1)"
  by pat_completeness auto
termination by (relation "measure (\<lambda>(a, b, i). length a - i)") (auto split: if_splits)

declare key_compare_from.simps [simp del]

definition key_compare :: "string \<Rightarrow> string \<Rightarrow> int" where
  "key_compare a b = key_compare_from a b 0"

definition key_less :: "string \<Rightarrow> string \<Rightarrow> bool" where
  "key_less a b \<longleftrightarrow> key_compare a b < 0"

function lower_bound :: "index_entry list \<Rightarrow> string \<Rightarrow> nat \<Rightarrow> nat \<Rightarrow> nat" where
  "lower_bound entries key lo hi =
     (if lo < hi
      then let mid = lo + (hi - lo) div 2
           in if key_compare (ie_key (entries ! mid)) key < 0
              then lower_bound entries key (mid + 1) hi
              else lower_bound entries key lo mid
      else lo)"
  by pat_completeness auto
termination by (relation "measure (\<lambda>(entries, key, lo, hi). hi - lo)") (auto simp: Let_def)

declare lower_bound.simps [simp del]

definition ix_lookup :: "index_page \<Rightarrow> string \<Rightarrow> nat option" where
  "ix_lookup ix key =
     (let lo = lower_bound (ix_entries ix) key 0 (length (ix_entries ix))
      in if lo < length (ix_entries ix) \<and> key_compare (ie_key (ix_entries ix ! lo)) key = 0
         then Some lo else None)"

fun range_scan :: "string \<Rightarrow> string \<Rightarrow> index_entry list \<Rightarrow> index_entry list \<Rightarrow> index_entry list" where
  "range_scan lo hi [] out = out"
| "range_scan lo hi (e # es) out =
     (if key_compare (ie_key e) lo < 0 then range_scan lo hi es out
      else if key_compare (ie_key e) hi > 0 then out
      else range_scan lo hi es (out @ [e]))"

definition ix_range :: "index_page \<Rightarrow> string \<Rightarrow> string \<Rightarrow> index_entry list" where
  "ix_range ix lo hi = (if key_compare lo hi > 0 then [] else range_scan lo hi (ix_entries ix) [])"

definition read_index_entry :: "index_entry rd" where
  "read_index_entry =
     rd_bind read_varint (\<lambda>key_len.
     rd_bind (require (unat key_len)) (\<lambda>_.
     rd_bind (read_string (unat key_len)) (\<lambda>key.
     rd_bind read_u32le (\<lambda>page.
     rd_bind read_u16le (\<lambda>slot.
       rd_return \<lparr>ie_key = key, ie_page = page, ie_slot = slot\<rparr>)))))"

text \<open>The \<^verbatim>\<open>try\<close> block: the entries decoded before an error, and whether one occurred.\<close>

fun read_index_entries :: "nat \<Rightarrow> index_entry list \<Rightarrow> byte_reader \<Rightarrow> index_entry list \<times> bool" where
  "read_index_entries 0 entries r = (entries, False)"
| "read_index_entries (Suc n) entries r =
     (case read_index_entry r of
        Inl e \<Rightarrow> (entries, True)
      | Inr (e, r') \<Rightarrow> read_index_entries n (entries @ [e]) r')"

definition read_index_body :: "byte_reader \<Rightarrow> index_entry list \<times> bool" where
  "read_index_body r =
     (case read_varint r of
        Inl e \<Rightarrow> ([], True)
      | Inr (entry_count, r') \<Rightarrow> read_index_entries (unat entry_count) [] r')"

text \<open>\<^verbatim>\<open>std::stable_sort\<close> with \<^verbatim>\<open>key_less\<close>, as an insertion sort.\<close>

primrec insert_entry :: "index_entry \<Rightarrow> index_entry list \<Rightarrow> index_entry list" where
  "insert_entry e [] = [e]"
| "insert_entry e (x # xs) =
     (if key_less (ie_key x) (ie_key e) then x # insert_entry e xs else e # x # xs)"

definition stable_sort :: "index_entry list \<Rightarrow> index_entry list" where
  "stable_sort es = foldr insert_entry es []"

definition decode_index_page :: "bytes \<Rightarrow> u32 \<Rightarrow> index_page" where
  "decode_index_page pbytes page_index =
     (if length pbytes < kPageHeaderSize
      then \<lparr>ix_page_index = page_index, ix_truncated = True, ix_entries = []\<rparr>
      else if page_type_of_byte (pbytes ! 0) \<noteq> PtIndex
      then \<lparr>ix_page_index = page_index, ix_truncated = False, ix_entries = []\<rparr>
      else let (entries, cut) = read_index_body (byte_reader_new (drop kPageHeaderSize pbytes))
           in \<lparr>ix_page_index = page_index, ix_truncated = cut, ix_entries = stable_sort entries\<rparr>)"

section \<open>The key order\<close>

abbreviation key_of :: "string \<Rightarrow> bytes" where "key_of \<equiv> bytes_of_string"

lemma key_of_inject [simp]: "key_of a = key_of b \<longleftrightarrow> a = b"
  by (metis string_of_bytes_of_string)

lemma key_compare_from_drop:
  "i \<le> length a \<Longrightarrow> i \<le> length b \<Longrightarrow> key_compare_from a b i =
     (if key_of (drop i a) < key_of (drop i b) then -1 else if drop i a = drop i b then 0 else 1)"
proof (induction a b i rule: key_compare_from.induct)
  case (1 a b i)
  show ?case
  proof (cases "i < length a \<and> i < length b")
    case True
    then have d: "drop i a = a ! i # drop (Suc i) a" "drop i b = b ! i # drop (Suc i) b"
      by (simp_all add: Cons_nth_drop_Suc)
    have inj: "byte_of_char (a ! i) = byte_of_char (b ! i) \<longleftrightarrow> a ! i = b ! i"
      by (metis char_of_byte_of_char)
    show ?thesis
      using True 1 by (subst key_compare_from.simps) (auto simp: Let_def d inj bytes_of_string_def)
  next
    case False
    then have stop: "key_compare_from a b i =
        (if length a = length b then 0 else if length a < length b then -1 else 1)"
      by (subst key_compare_from.simps) (auto split: if_splits)
    have nil: "[] < ys \<longleftrightarrow> ys \<noteq> []" for ys :: bytes by (cases ys) simp_all
    consider "i = length a" | "i = length b" using False 1(2,3) by linarith
    then show ?thesis
    proof cases
      case 1
      with \<open>i \<le> length b\<close> show ?thesis
        unfolding stop by (auto simp: bytes_of_string_def nil)
    next
      case 2
      with \<open>i \<le> length a\<close> show ?thesis
        unfolding stop by (auto simp: bytes_of_string_def)
    qed
  qed
qed

lemma key_compare_spec:
  "key_compare a b = (if key_of a < key_of b then -1 else if a = b then 0 else 1)"
  using key_compare_from_drop [of 0 a b] by (simp add: key_compare_def)

lemma key_compare_signs [simp]:
  "key_compare a b < 0 \<longleftrightarrow> key_of a < key_of b"
  "key_compare a b = 0 \<longleftrightarrow> a = b"
  "0 < key_compare a b \<longleftrightarrow> key_of b < key_of a"
  "key_less a b \<longleftrightarrow> key_of a < key_of b"
  by (auto simp: key_compare_spec key_less_def not_less_iff_gr_or_eq)

section \<open>Sorting\<close>

abbreviation entry_key :: "index_entry \<Rightarrow> bytes" where "entry_key e \<equiv> key_of (ie_key e)"

lemma insert_entry_insort: "insert_entry e xs = insort_key entry_key e xs"
  by (induction xs) (auto simp: not_less)

lemma stable_sort_sort_key: "stable_sort es = sort_key entry_key es"
  by (simp add: stable_sort_def sort_key_def insert_entry_insort [abs_def])

lemma stable_sort_facts:
  "mset (stable_sort es) = mset es" "sorted (map entry_key (stable_sort es))"
  "filter (\<lambda>e. ie_key e = k) (stable_sort es) = filter (\<lambda>e. ie_key e = k) es"
  using sort_key_stable [of entry_key "key_of k" es]
  by (simp_all add: stable_sort_sort_key)

section \<open>Search\<close>

lemma sorted_keys_nth:
  "sorted (map entry_key es) \<Longrightarrow> i \<le> j \<Longrightarrow> j < length es \<Longrightarrow> entry_key (es ! i) \<le> entry_key (es ! j)"
  using sorted_nth_mono [of "map entry_key es" i j] by simp

lemma lower_bound_spec:
  assumes "sorted (map entry_key es)" and "lo \<le> hi" and "hi \<le> length es"
    and "\<forall>i < lo. entry_key (es ! i) < key_of key"
    and "\<forall>i. hi \<le> i \<and> i < length es \<longrightarrow> key_of key \<le> entry_key (es ! i)"
  shows "lo \<le> lower_bound es key lo hi \<and> lower_bound es key lo hi \<le> hi \<and>
    (\<forall>i < lower_bound es key lo hi. entry_key (es ! i) < key_of key) \<and>
    (\<forall>i. lower_bound es key lo hi \<le> i \<and> i < length es \<longrightarrow> key_of key \<le> entry_key (es ! i))"
  using assms
proof (induction es key lo hi rule: lower_bound.induct)
  case (1 es key lo hi)
  show ?case
  proof (cases "lo < hi")
    case True
    define mid where "mid = lo + (hi - lo) div 2"
    have mid: "lo \<le> mid" "mid < hi" using True by (simp_all add: mid_def)
    show ?thesis
    proof (cases "key_compare (ie_key (es ! mid)) key < 0")
      case less: True
      have step: "lower_bound es key lo hi = lower_bound es key (mid + 1) hi"
        using True less by (subst lower_bound.simps) (simp add: mid_def Let_def)
      have "\<forall>i < mid + 1. entry_key (es ! i) < key_of key"
      proof (intro allI impI)
        fix i assume "i < mid + 1"
        then have "entry_key (es ! i) \<le> entry_key (es ! mid)"
          using 1(3,5) mid by (intro sorted_keys_nth) auto
        also have "\<dots> < key_of key" using less by simp
        finally show "entry_key (es ! i) < key_of key" .
      qed
      then show ?thesis
        using 1(1) [OF True mid_def less 1(3) _ 1(5) _ 1(7)] mid by (auto simp: step)
    next
      case geq: False
      have step: "lower_bound es key lo hi = lower_bound es key lo mid"
        using True geq by (subst lower_bound.simps) (simp add: mid_def Let_def)
      have "\<forall>i. mid \<le> i \<and> i < length es \<longrightarrow> key_of key \<le> entry_key (es ! i)"
      proof (intro allI impI)
        fix i assume "mid \<le> i \<and> i < length es"
        then have "entry_key (es ! mid) \<le> entry_key (es ! i)"
          using 1(3) by (intro sorted_keys_nth) auto
        moreover have "key_of key \<le> entry_key (es ! mid)" using geq by simp
        ultimately show "key_of key \<le> entry_key (es ! i)" by simp
      qed
      then show ?thesis
        using 1(2) [OF True mid_def geq 1(3) mid(1) _ 1(6)] mid 1(5) by (auto simp: step)
    qed
  next
    case False
    then have "lower_bound es key lo hi = lo" by (simp add: lower_bound.simps)
    with False 1(3-7) show ?thesis by auto
  qed
qed

lemma ix_lookup_first:
  assumes "sorted (map entry_key (ix_entries ix))"
  shows "ix_lookup ix key = Some i \<longleftrightarrow>
    i < length (ix_entries ix) \<and> ie_key (ix_entries ix ! i) = key \<and>
    (\<forall>j < i. ie_key (ix_entries ix ! j) \<noteq> key)"
proof -
  let ?es = "ix_entries ix" and ?lo = "lower_bound (ix_entries ix) key 0 (length (ix_entries ix))"
  have "0 \<le> ?lo \<and> ?lo \<le> length ?es \<and> (\<forall>i < ?lo. entry_key (?es ! i) < key_of key) \<and>
      (\<forall>i. ?lo \<le> i \<and> i < length ?es \<longrightarrow> key_of key \<le> entry_key (?es ! i))"
    by (rule lower_bound_spec [OF assms]) auto
  then have lb: "\<forall>i < ?lo. entry_key (?es ! i) < key_of key"
    "\<forall>i. ?lo \<le> i \<and> i < length ?es \<longrightarrow> key_of key \<le> entry_key (?es ! i)"
    by blast+
  show ?thesis
  proof
    assume "ix_lookup ix key = Some i"
    then have "i = ?lo" "i < length ?es" "ie_key (?es ! i) = key"
      by (auto simp: ix_lookup_def Let_def split: if_splits)
    with lb(1) show "i < length ?es \<and> ie_key (?es ! i) = key \<and> (\<forall>j < i. ie_key (?es ! j) \<noteq> key)"
      by (metis order_less_irrefl)
  next
    assume i: "i < length ?es \<and> ie_key (?es ! i) = key \<and> (\<forall>j < i. ie_key (?es ! j) \<noteq> key)"
    have "\<not> i < ?lo" using lb(1) i by (metis order_less_irrefl)
    moreover have "\<not> ?lo < i"
    proof
      assume "?lo < i"
      then have "entry_key (?es ! ?lo) \<le> entry_key (?es ! i)"
        using assms i by (intro sorted_keys_nth) auto
      with lb(2) \<open>?lo < i\<close> i have "entry_key (?es ! ?lo) = key_of key"
        by (metis order_antisym order_less_trans order_refl)
      with i \<open>?lo < i\<close> show False by simp
    qed
    ultimately have "?lo = i" by simp
    with i show "ix_lookup ix key = Some i" by (simp add: ix_lookup_def)
  qed
qed

lemma ix_lookup_none:
  assumes "sorted (map entry_key (ix_entries ix))"
  shows "ix_lookup ix key = None \<longleftrightarrow> key \<notin> ie_key ` set (ix_entries ix)"
proof -
  have "(\<exists>i. ix_lookup ix key = Some i) \<longleftrightarrow> key \<in> ie_key ` set (ix_entries ix)"
  proof
    assume "key \<in> ie_key ` set (ix_entries ix)"
    then have ex: "\<exists>n. n < length (ix_entries ix) \<and> ie_key (ix_entries ix ! n) = key"
      by (auto simp: in_set_conv_nth)
    define i where "i = (LEAST n. n < length (ix_entries ix) \<and> ie_key (ix_entries ix ! n) = key)"
    have i: "i < length (ix_entries ix) \<and> ie_key (ix_entries ix ! i) = key"
      unfolding i_def using ex by (rule LeastI_ex)
    have "ie_key (ix_entries ix ! j) \<noteq> key" if "j < i" for j
      using not_less_Least [OF that [unfolded i_def]] that i by simp
    with i show "\<exists>i. ix_lookup ix key = Some i"
      unfolding ix_lookup_first [OF assms] by blast
  qed (auto simp: ix_lookup_first [OF assms])
  then show ?thesis by (metis not_None_eq)
qed

lemma range_scan_filter:
  "sorted (map entry_key es) \<Longrightarrow>
     range_scan lo hi es out = out @ filter (\<lambda>e. key_of lo \<le> entry_key e \<and> entry_key e \<le> key_of hi) es"
proof (induction lo hi es out rule: range_scan.induct)
  case (2 lo hi e es out)
  show ?case
  proof (cases "key_of hi < entry_key e")
    case True
    then have "\<forall>x \<in> set es. key_of hi < entry_key x" using 2(3) by (auto intro: order_less_le_trans)
    then have none: "filter (\<lambda>e. key_of lo \<le> entry_key e \<and> entry_key e \<le> key_of hi) es = []"
      by (auto simp: filter_empty_conv not_le)
    show ?thesis
    proof (cases "entry_key e < key_of lo")
      case less: True
      then show ?thesis using 2 True none by auto
    qed (use True none in auto)
  qed (use 2 in \<open>auto simp: not_less not_le\<close>)
qed simp

lemma ix_range_spec:
  assumes "sorted (map entry_key (ix_entries ix))"
  shows "ix_range ix lo hi =
    filter (\<lambda>e. key_of lo \<le> entry_key e \<and> entry_key e \<le> key_of hi) (ix_entries ix)"
proof (cases "key_of hi < key_of lo")
  case True
  then have "filter (\<lambda>e. key_of lo \<le> entry_key e \<and> entry_key e \<le> key_of hi) (ix_entries ix) = []"
    by (metis (no_types, lifting) filter_False not_le order_trans)
  with True show ?thesis by (simp add: ix_range_def)
qed (simp add: ix_range_def range_scan_filter [OF assms])

section \<open>Decoding\<close>

definition index_entry_bytes :: "index_entry \<Rightarrow> bytes" where
  "index_entry_bytes e =
     lenprefixed (bytes_of_string (ie_key e)) @ put_u32le [] (ie_page e) @ put_u16le [] (ie_slot e)"

definition index_body_bytes :: "index_entry list \<Rightarrow> bytes" where
  "index_body_bytes es = put_varint [] (of_nat (length es)) @ concat (map index_entry_bytes es)"

lemma read_index_entry_at:
  assumes "length (ie_key e) < 2 ^ 64"
  shows "read_index_entry (rd_at pre (index_entry_bytes e @ rest)) = Inr (e, rd_at (pre @ index_entry_bytes e) rest)"
proof -
  have len: "unat (of_nat (length (ie_key e)) :: u64) = length (ie_key e)"
    using assms by (rule unat_of_nat_u64)
  have rs: "rd_bind (read_string (length (ie_key e))) k (rd_at pre (bytes_of_string (ie_key e) @ rest)) =
      k (ie_key e) (rd_at (pre @ bytes_of_string (ie_key e)) rest)"
    for k :: "string \<Rightarrow> index_entry rd" and pre rest
    by (simp add: rd_bind_def read_string_at)
  show ?thesis
    by (simp add: read_index_entry_def index_entry_bytes_def lenprefixed_def codec_simps len require_bind_at
        rs rd_return_def)
qed

lemma read_index_entries_at:
  "\<forall>e \<in> set es. length (ie_key e) < 2 ^ 64 \<Longrightarrow>
     read_index_entries (length es) entries (rd_at pre (concat (map index_entry_bytes es) @ rest)) =
     (entries @ es, False)"
  by (induction es arbitrary: entries pre) (simp_all add: read_index_entry_at)

lemma decode_index_page_round_trip:
  assumes "length es < 2 ^ 64" and "\<forall>e \<in> set es. length (ie_key e) < 2 ^ 64"
    and "length header = 8" and "header ! 0 = page_type_byte PtIndex"
  shows "decode_index_page (header @ index_body_bytes es @ rest) i =
     \<lparr>ix_page_index = i, ix_truncated = False, ix_entries = stable_sort es\<rparr>"
proof -
  have "read_index_body (byte_reader_new (index_body_bytes es @ rest)) = (es, False)"
    using read_index_entries_at [OF assms(2), of "[]" "put_varint [] (of_nat (length es))" rest]
      unat_of_nat_u64 [OF assms(1)]
    by (simp add: read_index_body_def rd_at_new index_body_bytes_def codec_simps)
  then show ?thesis
    using assms(3,4) by (simp add: decode_index_page_def kPageHeaderSize_def nth_append)
qed

lemma decode_index_page_sorted: "sorted (map entry_key (ix_entries (decode_index_page bs i)))"
  by (simp add: decode_index_page_def Let_def split_beta stable_sort_facts)

end
