(* ===== verification/Db_Journal.thy ===== *)
theory Db_Journal
  imports Db_Record
begin

text \<open>
  Stage 4 of \<^verbatim>\<open>minidb::open\<close> (\<^verbatim>\<open>src/minidb/journal.cpp\<close>): seeding the store from the DATA pages and
  replaying the journal on top of it. The theory relates the replay, which buffers staged operations,
  to an abstract transactional map that works on a shadow copy, and shows the atomicity of
  transactions, what the two counters count, and what a cut or a garbled journal leads to.
\<close>

section \<open>Seeding\<close>

type_synonym record_store = "(record_key, bytes) omap"

definition seed_slot :: "bytes \<Rightarrow> page_span \<Rightarrow> page \<Rightarrow> nat \<times> slot \<Rightarrow> record_store \<Rightarrow> record_store" where
  "seed_slot data span pg s_slot store =
     (let (s, slot) = s_slot in
      if \<not> sl_in_bounds slot \<or> sl_rec_length slot = 0 then store
      else let begin = ps_file_offset span + unat (sl_rec_offset slot);
               fin = begin + unat (sl_rec_length slot)
           in if length data \<le> begin \<or> length data < fin \<or> fin < begin then store
              else om_insert (pg_index pg, of_nat s) (take (fin - begin) (drop begin data)) store)"

definition seed_page :: "bytes \<Rightarrow> page_span list \<Rightarrow> page \<Rightarrow> record_store \<Rightarrow> record_store" where
  "seed_page data spans pg store =
     (if pg_type pg \<noteq> PtData then store
      else if length spans \<le> unat (pg_index pg) then store
      else fold (seed_slot data (spans ! unat (pg_index pg)) pg) (enumerate 0 (pg_slots pg)) store)"

definition seed_from_pages :: "bytes \<Rightarrow> page_span list \<Rightarrow> database \<Rightarrow> record_store \<Rightarrow> record_store" where
  "seed_from_pages data spans db store = fold (seed_page data spans) (db_pages db) store"

section \<open>Replay\<close>

record staged_op =
  op_key :: record_key
  op_tombstone :: bool
  op_bytes :: bytes

record journal_state =
  js_committed :: record_store
  js_in_txn :: bool
  js_staged :: "staged_op list"
  js_committed_ops :: u32
  js_rolled_back_ops :: u32

definition read_key :: "record_key rd" where
  "read_key = rd_bind read_u32le (\<lambda>page. rd_bind read_u16le (\<lambda>slot. rd_return (page, slot)))"

definition apply_committed :: "staged_op \<Rightarrow> record_store \<Rightarrow> record_store" where
  "apply_committed op committed =
     (if op_tombstone op then om_erase (op_key op) committed
      else om_insert (op_key op) (op_bytes op) committed)"

definition route :: "staged_op \<Rightarrow> journal_state \<Rightarrow> journal_state" where
  "route op js =
     (if js_in_txn js then js\<lparr>js_staged := js_staged js @ [op]\<rparr>
      else js\<lparr>js_committed := apply_committed op (js_committed js),
              js_committed_ops := js_committed_ops js + 1\<rparr>)"

definition begin_txn :: "journal_state \<Rightarrow> journal_state" where
  "begin_txn js = js\<lparr>js_staged := [], js_in_txn := True\<rparr>"

definition commit_staged :: "staged_op \<Rightarrow> journal_state \<Rightarrow> journal_state" where
  "commit_staged op js =
     js\<lparr>js_committed := apply_committed op (js_committed js), js_committed_ops := js_committed_ops js + 1\<rparr>"

definition commit_txn :: "journal_state \<Rightarrow> journal_state" where
  "commit_txn js =
     (if js_in_txn js
      then (fold commit_staged (js_staged js) js)\<lparr>js_staged := [], js_in_txn := False\<rparr>
      else js)"

definition rollback_txn :: "journal_state \<Rightarrow> journal_state" where
  "rollback_txn js =
     (if js_in_txn js
      then js\<lparr>js_rolled_back_ops := js_rolled_back_ops js + of_nat (length (js_staged js)),
              js_staged := [], js_in_txn := False\<rparr>
      else js)"

text \<open>The switch of the replay loop; the boolean is \<^verbatim>\<open>stop\<close>.\<close>

definition read_put :: "journal_state \<Rightarrow> (bool \<times> journal_state) rd" where
  "read_put js =
     rd_bind read_key (\<lambda>key.
     rd_bind read_varint (\<lambda>rec_len.
     rd_bind (require (unat rec_len)) (\<lambda>_.
     rd_bind (read_bytes (unat rec_len)) (\<lambda>bs.
       rd_return (False, route \<lparr>op_key = key, op_tombstone = False, op_bytes = bs\<rparr> js)))))"

definition journal_switch :: "journal_state \<Rightarrow> journal_op \<Rightarrow> (bool \<times> journal_state) rd" where
  "journal_switch js op =
     (case op of
        JBegin \<Rightarrow> rd_return (False, begin_txn js)
      | JInsert \<Rightarrow> read_put js
      | JUpdate \<Rightarrow> read_put js
      | JDelete \<Rightarrow> rd_bind read_key (\<lambda>key.
          rd_return (False, route \<lparr>op_key = key, op_tombstone = True, op_bytes = []\<rparr> js))
      | JCommit \<Rightarrow> rd_return (False, commit_txn js)
      | JRollback \<Rightarrow> rd_return (False, rollback_txn js)
      | JOther b \<Rightarrow> rd_return (True, js))"

definition journal_step :: "journal_state \<Rightarrow> (bool \<times> journal_state) rd" where
  "journal_step js = rd_bind read_u8 (\<lambda>op_byte. journal_switch js (journal_op_of_byte op_byte))"

lemma progress_op_journal_step: "progress_op (journal_step js)"
proof -
  have key: "cursor_op read_key"
    unfolding read_key_def by (intro cursor_op_bind cursor_op_return cursor_intros)
  have put: "cursor_op (read_put js)"
    unfolding read_put_def by (intro cursor_op_bind key cursor_intros)
  have "cursor_op (journal_switch js op)" for op
    by (cases op) (auto simp: journal_switch_def intro!: put cursor_op_bind key cursor_op_return)
  then show ?thesis
    unfolding journal_step_def by (intro progress_op_bind cursor_intros)
qed

interpretation step_op: progress_op "journal_step js" for js
  by (rule progress_op_journal_step)

text \<open>The loop ends because every entry consumes at least its tag.\<close>

function journal_loop :: "byte_reader \<Rightarrow> journal_state \<Rightarrow> journal_state result" where
  "journal_loop r js =
     (if rd_eof r then Inr js
      else case journal_step js r of
        Inl e \<Rightarrow> Inl e
      | Inr ((stop, js'), r') \<Rightarrow> if stop then Inr js' else journal_loop r' js')"
  by pat_completeness auto
termination
proof (relation "measure (\<lambda>(r, js). rd_remaining r)")
  fix r :: byte_reader and js p p' r' q stop js'
  assume "\<not> rd_eof r" and "journal_step js r = Inr p" and "(p', r') = p"
  then have "wf_rd r" and "journal_step js r = Inr (p', r')"
    by (auto simp: rd_eof_def wf_rd_def rd_size_def)
  then show "((r', js'), (r, js)) \<in> measure (\<lambda>(r, js). rd_remaining r)"
    using step_op.remaining_shrinks by simp
qed simp

declare journal_loop.simps [simp del]

text \<open>A transaction still open at the end is rolled back.\<close>

definition end_of_journal :: "journal_state \<Rightarrow> journal_state" where
  "end_of_journal js =
     (if js_in_txn js
      then js\<lparr>js_rolled_back_ops := js_rolled_back_ops js + of_nat (length (js_staged js)), js_staged := []\<rparr>
      else js)"

text \<open>\<^verbatim>\<open>std::map::emplace\<close> keeps an entry that is already there.\<close>

definition om_emplace :: "'k::linorder \<Rightarrow> 'v \<Rightarrow> ('k, 'v) omap \<Rightarrow> ('k, 'v) omap" where
  "om_emplace k v m = (if om_lookup m k = None then om_insert k v m else m)"

fun decode_committed ::
  "string list \<Rightarrow> record_store \<Rightarrow> (record_key, db_record) omap \<Rightarrow> (record_key, db_record) omap result"
where
  "decode_committed table [] records = Inr records"
| "decode_committed table ((key, bs) # committed) records =
     bindE (decode_record bs table) (\<lambda>rec. decode_committed table committed (om_emplace key rec records))"

definition replay_journal :: "bytes \<Rightarrow> file_header \<Rightarrow> page_span list \<Rightarrow> database \<Rightarrow> database result" where
  "replay_journal data hdr spans db =
     (let js = \<lparr>js_committed = seed_from_pages data spans db [], js_in_txn = False, js_staged = [],
                js_committed_ops = db_committed_ops db, js_rolled_back_ops = db_rolled_back_ops db\<rparr>;
          jo = unat (h_journal_offset hdr);
          have_journal = h_journal_offset hdr \<noteq> 0 \<and> jo < length data;
          db = (if h_journal_offset hdr \<noteq> 0 then db\<lparr>db_has_journal := True\<rparr> else db)
      in bindE (if have_journal then journal_loop (byte_reader_new (drop jo data)) js else Inr js)
           (\<lambda>js. let js = end_of_journal js in
              bindE (decode_committed (db_string_table db) (js_committed js) (db_records db))
                (\<lambda>records. Inr (db\<lparr>db_committed_ops := js_committed_ops js,
                                   db_rolled_back_ops := js_rolled_back_ops js,
                                   db_records := records\<rparr>))))"

section \<open>Journal entries\<close>

text \<open>The entries of the format, their bytes, and what each does to the state.\<close>

datatype journal_entry =
    EBegin | EInsert record_key bytes | EUpdate record_key bytes | EDelete record_key | ECommit | ERollback

definition key_bytes :: "record_key \<Rightarrow> bytes" where
  "key_bytes key = put_u32le [] (fst key) @ put_u16le [] (snd key)"

fun entry_bytes :: "journal_entry \<Rightarrow> bytes" where
  "entry_bytes EBegin = put_u8 [] 1"
| "entry_bytes (EInsert key bs) = put_u8 [] 2 @ key_bytes key @ lenprefixed bs"
| "entry_bytes (EUpdate key bs) = put_u8 [] 3 @ key_bytes key @ lenprefixed bs"
| "entry_bytes (EDelete key) = put_u8 [] 4 @ key_bytes key"
| "entry_bytes ECommit = put_u8 [] 5"
| "entry_bytes ERollback = put_u8 [] 6"

fun entry_fits :: "journal_entry \<Rightarrow> bool" where
  "entry_fits (EInsert key bs) \<longleftrightarrow> length bs < 2 ^ 64"
| "entry_fits (EUpdate key bs) \<longleftrightarrow> length bs < 2 ^ 64"
| "entry_fits e \<longleftrightarrow> True"

fun journal_apply :: "journal_entry \<Rightarrow> journal_state \<Rightarrow> journal_state" where
  "journal_apply EBegin js = begin_txn js"
| "journal_apply (EInsert key bs) js = route \<lparr>op_key = key, op_tombstone = False, op_bytes = bs\<rparr> js"
| "journal_apply (EUpdate key bs) js = route \<lparr>op_key = key, op_tombstone = False, op_bytes = bs\<rparr> js"
| "journal_apply (EDelete key) js = route \<lparr>op_key = key, op_tombstone = True, op_bytes = []\<rparr> js"
| "journal_apply ECommit js = commit_txn js"
| "journal_apply ERollback js = rollback_txn js"

lemma read_key_bind_at:
  "rd_bind read_key k (rd_at pre (key_bytes key @ rest)) = k key (rd_at (pre @ key_bytes key) rest)"
  by (simp add: read_key_def key_bytes_def rd_bind_def codec_simps rd_return_def)

lemma read_put_at:
  assumes "length bs < 2 ^ 64"
  shows "read_put js (rd_at pre (key_bytes key @ lenprefixed bs @ rest)) =
     Inr ((False, route \<lparr>op_key = key, op_tombstone = False, op_bytes = bs\<rparr> js),
       rd_at (pre @ key_bytes key @ lenprefixed bs) rest)"
proof -
  have len: "unat (of_nat (length bs) :: u64) = length bs" using assms by (rule unat_of_nat_u64)
  have rb: "rd_bind (read_bytes (length bs)) k (rd_at pre (bs @ rest)) = k bs (rd_at (pre @ bs) rest)"
    for k :: "bytes \<Rightarrow> (bool \<times> journal_state) rd" and pre
    by (simp add: rd_bind_def read_bytes_at)
  show ?thesis
    by (simp add: read_put_def read_key_bind_at lenprefixed_def codec_simps len require_bind_at rb rd_return_def)
qed

lemma journal_step_at:
  assumes "entry_fits e"
  shows "journal_step js (rd_at pre (entry_bytes e @ rest)) =
     Inr ((False, journal_apply e js), rd_at (pre @ entry_bytes e) rest)"
  using assms
  by (cases e)
    (simp_all add: journal_step_def put_u8_def read_u8_bind_at journal_switch_def read_put_at
      read_key_bind_at rd_return_def)

lemma entry_bytes_nonempty [simp]: "entry_bytes e \<noteq> []"
  by (cases e) (simp_all add: put_u8_def)

lemma journal_loop_at:
  assumes "\<forall>e \<in> set es. entry_fits e"
  shows "journal_loop (rd_at pre (concat (map entry_bytes es) @ rest)) js =
     journal_loop (rd_at (pre @ concat (map entry_bytes es)) rest) (fold journal_apply es js)"
  using assms
proof (induction es arbitrary: pre js)
  case (Cons e es)
  then show ?case
    by (subst journal_loop.simps) (simp add: journal_step_at)
qed simp

lemma journal_loop_entries:
  assumes "\<forall>e \<in> set es. entry_fits e"
  shows "journal_loop (byte_reader_new (concat (map entry_bytes es))) js = Inr (fold journal_apply es js)"
  using journal_loop_at [OF assms, of "[]" "[]" js] journal_loop.simps
  by (simp add: rd_at_new)

text \<open>An unknown tag ends the replay and keeps what has been applied.\<close>

lemma journal_loop_unknown:
  assumes "\<forall>e \<in> set es. entry_fits e" and "b = 0 \<or> 6 < b"
  shows "journal_loop (byte_reader_new (concat (map entry_bytes es) @ b # rest)) js =
     Inr (fold journal_apply es js)"
proof -
  have "journal_op_of_byte b = JOther b"
    using assms(2) by (auto simp: journal_op_of_byte_def)
  then show ?thesis
    using journal_loop_at [OF assms(1), of "[]" "b # rest" js]
    by (simp add: rd_at_new journal_loop.simps [of "rd_at _ (b # rest)"] journal_step_def read_u8_bind_at
        journal_switch_def rd_return_def)
qed

text \<open>A journal cut inside an entry makes the replay throw.\<close>

lemma stable_op_journal_step: "stable_op (journal_step js)"
proof -
  have key: "stable_op read_key"
    unfolding read_key_def by (intro stable_basics)
  have put: "stable_op (read_put js)"
    unfolding read_put_def by (intro stable_basics key)
  have "stable_op (journal_switch js op)" for op
    by (cases op) (auto simp: journal_switch_def intro!: put stable_op_bind key stable_op_return)
  then show ?thesis
    unfolding journal_step_def by (intro stable_basics)
qed

interpretation step_stable: stable_op "journal_step js" for js
  by (rule stable_op_journal_step)

lemma journal_step_cut:
  assumes "entry_fits e" and "entry_bytes e = part @ missing" and "missing \<noteq> []"
  shows "\<exists>err. journal_step js (rd_at pre part) = Inl err"
proof (rule ccontr)
  assume "\<nexists>err. journal_step js (rd_at pre part) = Inl err"
  then obtain v r where ok: "journal_step js (rd_at pre part) = Inr (v, r)"
    by (cases "journal_step js (rd_at pre part)") auto
  have "journal_step js (rd_extend missing (rd_at pre part)) = Inr (v, rd_extend missing r)"
    using ok by (intro step_stable.extends) simp_all
  moreover have "journal_step js (rd_at pre (entry_bytes e @ [])) =
      Inr ((False, journal_apply e js), rd_at (pre @ entry_bytes e) [])"
    using assms(1) by (rule journal_step_at)
  ultimately have "rd_extend missing r = rd_at (pre @ entry_bytes e) []"
    by (simp add: assms(2))
  then have "rd_pos r = length pre + length (entry_bytes e)"
    by (metis rd_extend_pos rd_at_fields(2) length_append)
  moreover have "wf_rd r" "rd_data r = pre @ part"
    using step_op.stays_inside [OF _ ok] step_op.data_kept [OF ok] by simp_all
  ultimately show False
    using assms(2,3) by (simp add: wf_rd_def)
qed

lemma journal_loop_cut:
  assumes "\<forall>e \<in> set es. entry_fits e" and "entry_fits e" and "entry_bytes e = part @ missing"
    and "part \<noteq> []" and "missing \<noteq> []"
  shows "\<exists>err. journal_loop (byte_reader_new (concat (map entry_bytes es) @ part)) js = Inl err"
proof -
  obtain err where "journal_step (fold journal_apply es js) (rd_at (concat (map entry_bytes es)) part) = Inl err"
    using journal_step_cut [OF assms(2,3,5)] by blast
  then show ?thesis
    using journal_loop_at [OF assms(1), of "[]" part js] assms(4)
    by (simp add: rd_at_new journal_loop.simps [of "rd_at _ part"])
qed

text \<open>A replay that does not throw is the replay of some sequence of entries.\<close>

lemma read_put_ok:
  assumes "read_put js r = Inr ((stop, js'), r')"
  obtains key bs where "js' = route \<lparr>op_key = key, op_tombstone = False, op_bytes = bs\<rparr> js"
  using assms by (auto simp: read_put_def rd_bind_def bindE_eq_Inr rd_return_def)

lemma journal_step_ok:
  assumes "journal_step js r = Inr ((stop, js'), r')"
  shows "js' = js \<or> (\<exists>e. js' = journal_apply e js)"
proof -
  obtain op r1 where "journal_switch js op r1 = Inr ((stop, js'), r')"
    using assms by (auto simp: journal_step_def rd_bind_def bindE_eq_Inr)
  then show ?thesis
  proof (cases op)
    case JInsert
    then show ?thesis
      using \<open>journal_switch js op r1 = _\<close> by (auto simp: journal_switch_def elim!: read_put_ok intro: exI [of _ "EInsert _ _"])
  next
    case JUpdate
    then show ?thesis
      using \<open>journal_switch js op r1 = _\<close> by (auto simp: journal_switch_def elim!: read_put_ok intro: exI [of _ "EInsert _ _"])
  qed (auto simp: journal_switch_def rd_return_def rd_bind_def bindE_eq_Inr
      intro: exI [of _ EBegin] exI [of _ ECommit] exI [of _ ERollback] exI [of _ "EDelete _"])
qed

lemma journal_loop_ok:
  "journal_loop r js = Inr js' \<Longrightarrow> \<exists>es. js' = fold journal_apply es js"
proof (induction r js rule: journal_loop.induct)
  case (1 r js)
  show ?case
  proof (cases "rd_eof r")
    case True
    then have "js' = fold journal_apply [] js" using 1(2) by (simp add: journal_loop.simps [of r])
    then show ?thesis by blast
  next
    case False
    with 1(2) obtain stop js1 r1 where step: "journal_step js r = Inr ((stop, js1), r1)"
      by (auto simp: journal_loop.simps [of r] split: sum.splits)
    have "\<exists>es. js1 = fold journal_apply es js"
      using journal_step_ok [OF step]
      by (auto intro: exI [of _ "[]"] exI [of _ "[_]"])
    then obtain es1 where es1: "js1 = fold journal_apply es1 js" by blast
    show ?thesis
    proof (cases stop)
      case True
      then show ?thesis using 1(2) False step es1 by (auto simp: journal_loop.simps [of r])
    next
      case run: False
      then have "journal_loop r1 js1 = Inr js'"
        using 1(2) False step by (simp add: journal_loop.simps [of r])
      with 1(1) [OF False step refl refl] run obtain es2 where "js' = fold journal_apply es2 js1"
        by blast
      then have "js' = fold journal_apply (es1 @ es2) js" by (simp add: es1)
      then show ?thesis by blast
    qed
  qed
qed

section \<open>The transactional map\<close>

text \<open>
  The abstract store: a durable map and, inside a transaction, a shadow copy that takes the changes.
  BEGIN copies the durable map, COMMIT installs the shadow, ROLLBACK drops it.
\<close>

type_synonym record_map = "record_key \<rightharpoonup> bytes"

record txn_map =
  tm_durable :: record_map
  tm_shadow :: "record_map option"

definition tm_write :: "(record_map \<Rightarrow> record_map) \<Rightarrow> txn_map \<Rightarrow> txn_map" where
  "tm_write f t =
     (case tm_shadow t of
        None \<Rightarrow> t\<lparr>tm_durable := f (tm_durable t)\<rparr>
      | Some m \<Rightarrow> t\<lparr>tm_shadow := Some (f m)\<rparr>)"

fun tm_apply :: "journal_entry \<Rightarrow> txn_map \<Rightarrow> txn_map" where
  "tm_apply EBegin t = t\<lparr>tm_shadow := Some (tm_durable t)\<rparr>"
| "tm_apply (EInsert key bs) t = tm_write (\<lambda>m. m(key \<mapsto> bs)) t"
| "tm_apply (EUpdate key bs) t = tm_write (\<lambda>m. m(key \<mapsto> bs)) t"
| "tm_apply (EDelete key) t = tm_write (\<lambda>m. m(key := None)) t"
| "tm_apply ECommit t =
     (case tm_shadow t of None \<Rightarrow> t | Some m \<Rightarrow> \<lparr>tm_durable = m, tm_shadow = None\<rparr>)"
| "tm_apply ERollback t = t\<lparr>tm_shadow := None\<rparr>"

definition apply_map :: "staged_op \<Rightarrow> record_map \<Rightarrow> record_map" where
  "apply_map op m = m(op_key op := (if op_tombstone op then None else Some (op_bytes op)))"

definition js_abs :: "journal_state \<Rightarrow> txn_map" where
  "js_abs js =
     \<lparr>tm_durable = om_lookup (js_committed js),
      tm_shadow = (if js_in_txn js then Some (fold apply_map (js_staged js) (om_lookup (js_committed js)))
                   else None)\<rparr>"

definition js_inv :: "journal_state \<Rightarrow> bool" where
  "js_inv js \<longleftrightarrow> om_ok (js_committed js) \<and> (\<not> js_in_txn js \<longrightarrow> js_staged js = [])"

lemma om_lookup_apply_committed: "om_lookup (apply_committed op m) = apply_map op (om_lookup m)"
  by (rule ext) (simp add: apply_committed_def apply_map_def)

lemma om_ok_apply_committed [simp]: "om_ok m \<Longrightarrow> om_ok (apply_committed op m)"
  by (simp add: apply_committed_def)

lemma fold_commit_staged:
  "js_committed (fold commit_staged ops js) = fold apply_committed ops (js_committed js)"
  "js_committed_ops (fold commit_staged ops js) = js_committed_ops js + of_nat (length ops)"
  "js_rolled_back_ops (fold commit_staged ops js) = js_rolled_back_ops js"
  by (induction ops arbitrary: js) (simp_all add: commit_staged_def)

lemma fold_apply_committed:
  "om_lookup (fold apply_committed ops m) = fold apply_map ops (om_lookup m)"
  "om_ok m \<Longrightarrow> om_ok (fold apply_committed ops m)"
  by (induction ops arbitrary: m) (simp_all add: om_lookup_apply_committed)

lemma commit_txn_fields:
  "js_committed (commit_txn js) =
     (if js_in_txn js then fold apply_committed (js_staged js) (js_committed js) else js_committed js)"
  "js_in_txn (commit_txn js) = False"
  "js_staged (commit_txn js) = (if js_in_txn js then [] else js_staged js)"
  "js_committed_ops (commit_txn js) =
     (if js_in_txn js then js_committed_ops js + of_nat (length (js_staged js)) else js_committed_ops js)"
  "js_rolled_back_ops (commit_txn js) = js_rolled_back_ops js"
  by (simp_all add: commit_txn_def fold_commit_staged)

lemma js_inv_apply: "js_inv js \<Longrightarrow> js_inv (journal_apply e js)"
  by (cases e) (auto simp: js_inv_def begin_txn_def route_def commit_txn_fields rollback_txn_def
      fold_apply_committed)

lemma js_abs_apply: "js_inv js \<Longrightarrow> js_abs (journal_apply e js) = tm_apply e (js_abs js)"
  by (cases e) (auto simp: js_inv_def js_abs_def begin_txn_def route_def commit_txn_fields rollback_txn_def
      fold_apply_committed om_lookup_apply_committed tm_write_def apply_map_def)

definition journal_start :: "record_store \<Rightarrow> journal_state" where
  "journal_start store =
     \<lparr>js_committed = store, js_in_txn = False, js_staged = [], js_committed_ops = 0, js_rolled_back_ops = 0\<rparr>"

interpretation journal: invariant_machine journal_apply js_inv "journal_start []"
  by unfold_locales (simp add: js_inv_def journal_start_def, rule js_inv_apply)

lemma js_abs_run: "js_inv js \<Longrightarrow> js_abs (fold journal_apply es js) = fold tm_apply es (js_abs js)"
  by (induction es arbitrary: js) (simp_all add: js_abs_apply js_inv_apply)

section \<open>Atomicity\<close>

fun mutation :: "journal_entry \<Rightarrow> bool" where
  "mutation (EInsert key bs) \<longleftrightarrow> True"
| "mutation (EUpdate key bs) \<longleftrightarrow> True"
| "mutation (EDelete key) \<longleftrightarrow> True"
| "mutation e \<longleftrightarrow> False"

fun mutate :: "journal_entry \<Rightarrow> record_map \<Rightarrow> record_map" where
  "mutate (EInsert key bs) m = m(key \<mapsto> bs)"
| "mutate (EUpdate key bs) m = m(key \<mapsto> bs)"
| "mutate (EDelete key) m = m(key := None)"
| "mutate e m = m"

lemma tm_apply_mutation: "mutation e \<Longrightarrow> tm_apply e t = tm_write (mutate e) t"
  by (cases e) (simp_all add: tm_write_def split: option.split)

lemma tm_run_mutations:
  "\<forall>e \<in> set es. mutation e \<Longrightarrow> tm_shadow t = Some m \<Longrightarrow>
     fold tm_apply es t = t\<lparr>tm_shadow := Some (fold mutate es m)\<rparr>"
  by (induction es arbitrary: t m) (simp_all add: tm_apply_mutation tm_write_def)

lemma transaction_commits:
  assumes "js_inv js" and "\<forall>e \<in> set es. mutation e"
  shows "om_lookup (js_committed (fold journal_apply (EBegin # es @ [ECommit]) js)) =
     fold mutate es (om_lookup (js_committed js))"
proof -
  have "tm_durable (js_abs (fold journal_apply (EBegin # es @ [ECommit]) js)) =
      fold mutate es (tm_durable (js_abs js))"
    using js_abs_run [OF assms(1), of "EBegin # es @ [ECommit]"]
      tm_run_mutations [OF assms(2), of "(js_abs js)\<lparr>tm_shadow := Some (tm_durable (js_abs js))\<rparr>"
        "tm_durable (js_abs js)"]
    by simp
  then show ?thesis by (simp add: js_abs_def)
qed

text \<open>Without a COMMIT a transaction has no effect on the durable records.\<close>

lemma tm_uncommitted:
  "tm_shadow t \<noteq> None \<Longrightarrow> ECommit \<notin> set es \<Longrightarrow> ERollback \<notin> set es \<Longrightarrow>
     tm_durable (fold tm_apply es t) = tm_durable t \<and> tm_shadow (fold tm_apply es t) \<noteq> None"
proof (induction es arbitrary: t)
  case (Cons e es)
  have "tm_durable (tm_apply e t) = tm_durable t \<and> tm_shadow (tm_apply e t) \<noteq> None"
    using Cons.prems by (cases e) (auto simp: tm_write_def)
  with Cons show ?case by simp
qed simp

lemma transaction_aborts:
  assumes "js_inv js" and "ECommit \<notin> set es" and "ERollback \<notin> set es" and "ends \<in> {[], [ERollback]}"
  shows "om_lookup (js_committed (fold journal_apply (EBegin # es @ ends) js)) = om_lookup (js_committed js)"
proof -
  let ?t = "(js_abs js)\<lparr>tm_shadow := Some (tm_durable (js_abs js))\<rparr>"
  have "tm_durable (fold tm_apply es ?t) = tm_durable (js_abs js)"
    using tm_uncommitted [of ?t es] assms(2,3) by simp
  then have "tm_durable (js_abs (fold journal_apply (EBegin # es @ ends) js)) = tm_durable (js_abs js)"
    using js_abs_run [OF assms(1), of "EBegin # es @ ends"] assms(4) by auto
  then show ?thesis by (simp add: js_abs_def)
qed

section \<open>What the counters count\<close>

primrec discarded :: "journal_entry list \<Rightarrow> journal_state \<Rightarrow> nat" where
  "discarded [] js = 0"
| "discarded (e # es) js =
     (if e = EBegin then length (js_staged js) else 0) + discarded es (journal_apply e js)"

lemma counters_step:
  "js_inv js \<Longrightarrow>
     js_committed_ops (journal_apply e js) + js_rolled_back_ops (journal_apply e js) +
       of_nat (length (js_staged (journal_apply e js))) + of_nat (if e = EBegin then length (js_staged js) else 0) =
     js_committed_ops js + js_rolled_back_ops js + of_nat (length (js_staged js)) + of_bool (mutation e)"
  by (cases e) (auto simp: js_inv_def begin_txn_def route_def commit_txn_fields rollback_txn_def
      algebra_simps)

lemma counters_run:
  "js_inv js \<Longrightarrow>
     js_committed_ops (fold journal_apply es js) + js_rolled_back_ops (fold journal_apply es js) +
       of_nat (length (js_staged (fold journal_apply es js))) + of_nat (discarded es js) =
     js_committed_ops js + js_rolled_back_ops js + of_nat (length (js_staged js)) +
       of_nat (length (filter mutation es))"
proof (induction es arbitrary: js)
  case (Cons e es)
  show ?case
    using Cons.IH [OF js_inv_apply [OF Cons.prems, of e]] counters_step [OF Cons.prems, of e]
    by (simp add: algebra_simps split: if_splits)
qed simp

section \<open>The seeded store\<close>

definition slot_value :: "bytes \<Rightarrow> page_span \<Rightarrow> slot \<Rightarrow> bytes option" where
  "slot_value data span sl =
     (let b = ps_file_offset span + unat (sl_rec_offset sl); n = unat (sl_rec_length sl)
      in if sl_in_bounds sl \<and> 0 < n \<and> b + n \<le> length data then Some (take n (drop b data)) else None)"

lemma seed_slot_alt:
  "seed_slot data span pg (s, sl) store =
     (case slot_value data span sl of None \<Rightarrow> store | Some bs \<Rightarrow> om_insert (pg_index pg, of_nat s) bs store)"
  by (auto simp: seed_slot_def slot_value_def Let_def word_unat_eq_iff)

lemma seed_slots_lookup:
  "n + length sls \<le> 2 ^ 16 \<Longrightarrow>
     om_lookup (fold (seed_slot data span pg) (enumerate n sls) store) (p, s) =
       (case (if p = pg_index pg \<and> n \<le> unat s \<and> unat s < n + length sls
              then slot_value data span (sls ! (unat s - n)) else None) of
          Some bs \<Rightarrow> Some bs
        | None \<Rightarrow> om_lookup store (p, s))"
proof (induction sls arbitrary: n store)
  case (Cons sl sls)
  have fits: "n < 2 ^ 16" using Cons.prems by simp
  have key: "s = of_nat n \<longleftrightarrow> unat s = n" for s :: u16
    using fits by (auto simp: unat_of_nat word_unat_eq_iff)
  show ?case
    using Cons.IH [of "Suc n" "seed_slot data span pg (n, sl) store"] Cons.prems
    by (cases "unat s = n") (auto simp: seed_slot_alt key nth_Cons' Suc_le_eq split: option.split)
qed auto

lemma seed_page_lookup:
  assumes "length (pg_slots pg) \<le> 2 ^ 16" and "unat (pg_index pg) < length spans"
  shows "om_lookup (seed_page data spans pg store) (p, s) =
    (case (if pg_type pg = PtData \<and> p = pg_index pg \<and> unat s < length (pg_slots pg)
           then slot_value data (spans ! unat (pg_index pg)) (pg_slots pg ! unat s) else None) of
       Some bs \<Rightarrow> Some bs
     | None \<Rightarrow> om_lookup store (p, s))"
  using seed_slots_lookup [of 0 "pg_slots pg"] assms by (auto simp: seed_page_def)

text \<open>What a key holds after seeding from parsed pages.\<close>

definition resident :: "bytes \<Rightarrow> page_span list \<Rightarrow> page list \<Rightarrow> record_key \<Rightarrow> bytes option" where
  "resident data spans pages key =
     (let (p, s) = key in
      if unat p < length pages \<and> pg_type (pages ! unat p) = PtData \<and> unat s < length (pg_slots (pages ! unat p))
      then slot_value data (spans ! unat p) (pg_slots (pages ! unat p) ! unat s) else None)"

lemma seed_pages_lookup:
  assumes "\<forall>i < length pages. pg_index (pages ! i) = of_nat i \<and> length (pg_slots (pages ! i)) \<le> 2 ^ 16"
    and "length pages \<le> 2 ^ 32" and "length spans = length pages" and "k \<le> length pages"
  shows "om_lookup (fold (seed_page data spans) (take k pages) []) (p, s) =
     (if unat p < k then resident data spans pages (p, s) else None)"
  using assms(4)
proof (induction k)
  case (Suc k)
  have k: "k < length pages" using Suc.prems by simp
  then have idx: "pg_index (pages ! k) = of_nat k" "length (pg_slots (pages ! k)) \<le> 2 ^ 16"
    using assms(1) by auto
  have num: "unat (of_nat k :: u32) = k" using k assms(2) by (simp add: unat_of_nat)
  have key: "p = of_nat k \<longleftrightarrow> unat p = k"
    using k assms(2) by (auto simp: unat_of_nat word_unat_eq_iff)
  have "fold (seed_page data spans) (take (Suc k) pages) [] =
      seed_page data spans (pages ! k) (fold (seed_page data spans) (take k pages) [])"
    using k by (simp add: take_Suc_conv_app_nth)
  then show ?case
    using seed_page_lookup [of "pages ! k" spans data "fold (seed_page data spans) (take k pages) []" p s]
      Suc k idx num assms(3)
    by (auto simp: key resident_def less_Suc_eq split: option.split if_splits)
qed simp

lemma seed_from_pages_lookup:
  assumes "\<forall>i < length (db_pages db). pg_index (db_pages db ! i) = of_nat i \<and>
      length (pg_slots (db_pages db ! i)) \<le> 2 ^ 16"
    and "length (db_pages db) \<le> 2 ^ 32" and "length spans = length (db_pages db)"
  shows "om_lookup (seed_from_pages data spans db []) = resident data spans (db_pages db)"
proof
  fix key :: record_key
  obtain p s where key: "key = (p, s)" by (cases key)
  show "om_lookup (seed_from_pages data spans db []) key = resident data spans (db_pages db) key"
    using seed_pages_lookup [OF assms, of "length (db_pages db)" data p s]
    by (auto simp: seed_from_pages_def key resident_def)
qed

lemma om_ok_seed: "om_ok store \<Longrightarrow> om_ok (seed_from_pages data spans db store)"
proof -
  have slot: "om_ok m \<Longrightarrow> om_ok (seed_slot data span pg sl m)" for span pg sl m
    by (cases sl) (auto simp: seed_slot_alt split: option.split)
  have slots: "om_ok m \<Longrightarrow> om_ok (fold (seed_slot data span pg) sls m)" for span pg sls m
    by (induction sls arbitrary: m) (simp_all add: slot)
  have page: "om_ok m \<Longrightarrow> om_ok (seed_page data spans pg m)" for pg m
    by (simp add: seed_page_def slots)
  have "om_ok m \<Longrightarrow> om_ok (fold (seed_page data spans) pgs m)" for pgs m
    by (induction pgs arbitrary: m) (simp_all add: page)
  then show "om_ok store \<Longrightarrow> om_ok (seed_from_pages data spans db store)"
    by (simp add: seed_from_pages_def)
qed

section \<open>The records after the replay\<close>

lemma om_lookup_Cons: "om_lookup ((k, v) # m) k' = (if k' = k then Some v else om_lookup m k')"
  by (simp add: om_lookup_def)

lemma decode_committed_ok:
  assumes "om_ok committed" and "om_ok records"
    and "\<forall>key \<in> fst ` set committed. om_lookup records key = None"
    and "decode_committed table committed records = Inr out"
  shows "om_ok out \<and> (\<forall>key. om_lookup out key =
     (case om_lookup committed key of
        None \<Rightarrow> om_lookup records key
      | Some bs \<Rightarrow> (case decode_record bs table of Inr rec \<Rightarrow> Some rec | Inl e \<Rightarrow> None)))"
  using assms
proof (induction table committed records rule: decode_committed.induct)
  case (2 table key bs committed records)
  obtain rec where rec: "decode_record bs table = Inr rec"
    and rest: "decode_committed table committed (om_emplace key rec records) = Inr out"
    using 2(5) by (auto simp: bindE_eq_Inr)
  have key: "om_lookup records key = None" using 2(4) by simp
  have ok: "om_ok committed" "\<forall>k \<in> fst ` set committed. key < k"
    using 2(2) by (auto simp: om_ok_Cons)
  then have fresh: "om_lookup committed key = None"
    by (auto simp: om_lookup_dom)
  have "\<forall>k \<in> fst ` set committed. om_lookup (om_emplace key rec records) k = None"
    using 2(4) ok(2) key by (auto simp: om_emplace_def)
  moreover have "om_ok (om_emplace key rec records)"
    using 2(3) by (simp add: om_emplace_def)
  ultimately have "om_ok out \<and> (\<forall>k. om_lookup out k =
      (case om_lookup committed k of
         None \<Rightarrow> om_lookup (om_emplace key rec records) k
       | Some bs \<Rightarrow> (case decode_record bs table of Inr rec \<Rightarrow> Some rec | Inl e \<Rightarrow> None)))"
    using 2(1) [OF rec ok(1) _ _ rest] by blast
  then show ?case
    using rec key fresh by (auto simp: om_lookup_Cons om_emplace_def split: option.split)
qed simp

lemma decode_committed_fails:
  "(\<exists>e. decode_committed table committed records = Inl e) \<longleftrightarrow>
     (\<exists>bs \<in> snd ` set committed. \<exists>e. decode_record bs table = Inl e)"
proof (induction table committed records rule: decode_committed.induct)
  case (2 table key bs committed records)
  show ?case
  proof (cases "decode_record bs table")
    case (Inr rec)
    then show ?thesis using 2 [of rec] by auto
  qed auto
qed simp

end
