(* ===== verification/Minidb.thy ===== *)
theory Minidb
  imports Db_Journal Hexdump
begin

text \<open>
  \<^verbatim>\<open>minidb::open\<close> and \<^verbatim>\<open>minidb::summarize\<close> (\<^verbatim>\<open>src/minidb/minidb.cpp\<close>). The theory states which
  buffers open, that the opened records are those of the abstract transactional map started from the
  page-resident records, and the errors \<^verbatim>\<open>open\<close> can throw. The rendering of a \<^verbatim>\<open>double\<close> by
  \<^verbatim>\<open>snprintf("%g")\<close> is the parameter \<open>fmt_g\<close>.
\<close>

definition set_header :: "file_header \<Rightarrow> database \<Rightarrow> database" where
  "set_header hdr db =
     db\<lparr>db_version := h_version hdr, db_page_size := h_page_size hdr, db_page_count := h_page_count hdr,
        db_root_page := h_root_page hdr, db_string_table_page := h_string_table_page hdr,
        db_journal_offset := h_journal_offset hdr, db_flags := h_flags hdr,
        db_checksum_ok := h_checksum_ok hdr\<rparr>"

definition open_db :: "bytes \<Rightarrow> bool \<Rightarrow> database result" where
  "open_db data strict =
     bindE (parse_header strict (byte_reader_new data)) (\<lambda>(hdr, _).
     let db = set_header hdr database_new in
     bindE (parse_pages data hdr db) (\<lambda>(spans, db).
     let db = parse_string_table data hdr spans db in
     replay_journal data hdr spans db))"

definition open_default :: "bytes \<Rightarrow> database result" where
  "open_default data = open_db data False"

section \<open>The dump\<close>

definition quoted :: "string \<Rightarrow> string" where
  "quoted s = [CHR 0x22] @ escape s @ [CHR 0x22]"

definition field_value :: "(u64 \<Rightarrow> string) \<Rightarrow> field \<Rightarrow> string" where
  "field_value fmt_g f =
     (case fd_type f of
        FtNull \<Rightarrow> ''null''
      | FtBool \<Rightarrow> (if fd_b f then ''true'' else ''false'')
      | FtInt \<Rightarrow> dec_of_int (sint (fd_i64 f))
      | FtUint \<Rightarrow> dec_of_nat (unat (fd_u64 f))
      | FtFloat \<Rightarrow> fmt_g (fd_f64 f)
      | FtStringRef \<Rightarrow>
          (if fd_ref_resolved f
           then ''#'' @ dec_of_nat (unat (fd_ref_id f)) @ '' '' @ quoted (fd_str f)
           else ''#'' @ dec_of_nat (unat (fd_ref_id f)) @ '' <unresolved>'')
      | FtInlineString \<Rightarrow> quoted (fd_str f)
      | FtBlob \<Rightarrow> ''blob['' @ dec_of_nat (length (fd_blob f)) @ '']''
      | FtOther b \<Rightarrow> ''?'')"

abbreviation nl :: string where "nl \<equiv> [CHR 0x0A]"

definition summary_header :: "database \<Rightarrow> string" where
  "summary_header db =
     ''minidb MDB1 store'' @ nl @
     ''  version       : '' @ dec_of_nat (unat (db_version db)) @ nl @
     ''  page_size     : '' @ dec_of_nat (unat (db_page_size db)) @ nl @
     ''  page_count    : '' @ dec_of_nat (unat (db_page_count db)) @ nl @
     ''  root_page     : '' @ dec_of_nat (unat (db_root_page db)) @ nl @
     (if db_string_table_page db = kNoStringTable
      then ''  string_table  : (none)'' @ nl
      else ''  string_table  : page '' @ dec_of_nat (unat (db_string_table_page db)) @ nl) @
     ''  journal       : '' @
     (if \<not> db_has_journal db then ''(none)'' @ nl
      else ''offset '' @ dec_of_nat (unat (db_journal_offset db)) @ '', '' @
           dec_of_nat (unat (db_committed_ops db)) @ '' committed, '' @
           dec_of_nat (unat (db_rolled_back_ops db)) @ '' rolled back'' @ nl) @
     ''  flags         : '' @ to_hex (ucast (db_flags db)) 8 @ nl @
     ''  checksum_ok   : '' @ (if db_checksum_ok db then ''yes'' @ nl else ''no'' @ nl)"

definition summary_strings :: "database \<Rightarrow> string" where
  "summary_strings db =
     ''string table ('' @ dec_of_nat (length (db_string_table db)) @ '' entries)'' @ nl @
     concat (map (\<lambda>(i, s). ''  ['' @ dec_of_nat i @ ''] '' @ quoted s @ nl)
       (enumerate 0 (db_string_table db)))"

definition summary_page :: "page \<Rightarrow> string" where
  "summary_page p =
     ''  page '' @ dec_of_nat (unat (pg_index p)) @ '': '' @ page_type_name (pg_type p) @ '', slots='' @
     dec_of_nat (unat (pg_slot_count p)) @
     (if pg_overflow_next p \<noteq> kNoOverflow
      then '', overflow_next='' @ dec_of_nat (unat (pg_overflow_next p)) else []) @
     (if pg_truncated p then '', truncated'' else []) @ nl"

definition summary_field :: "(u64 \<Rightarrow> string) \<Rightarrow> nat \<times> field \<Rightarrow> string" where
  "summary_field fmt_g i_f =
     (let (i, f) = i_f
      in (if i \<noteq> 0 then '', '' else []) @ field_type_name (fd_type f) @ ''='' @ field_value fmt_g f)"

definition summary_record :: "(u64 \<Rightarrow> string) \<Rightarrow> record_key \<times> db_record \<Rightarrow> string" where
  "summary_record fmt_g kv =
     ''  (page '' @ dec_of_nat (unat (fst (fst kv))) @ '', slot '' @ dec_of_nat (unat (snd (fst kv))) @
     ''): '' @ concat (map (summary_field fmt_g) (enumerate 0 (r_fields (snd kv)))) @ nl"

definition summarize_db :: "(u64 \<Rightarrow> string) \<Rightarrow> database \<Rightarrow> string" where
  "summarize_db fmt_g db =
     summary_header db @ summary_strings db @
     ''pages ('' @ dec_of_nat (length (db_pages db)) @ '')'' @ nl @
     concat (map summary_page (db_pages db)) @
     ''committed records ('' @ dec_of_nat (length (db_records db)) @ '')'' @ nl @
     concat (map (summary_record fmt_g) (db_records db))"

section \<open>What open returns\<close>

definition open_pages :: "bytes \<Rightarrow> file_header \<Rightarrow> page list" where
  "open_pages data hdr =
     map (page_at data (unat (h_page_size hdr)))
       [0..<pages_present data (unat (h_page_size hdr)) (unat (h_page_count hdr))]"

definition open_spans :: "bytes \<Rightarrow> file_header \<Rightarrow> page_span list" where
  "open_spans data hdr =
     map (derive_span (length data) (unat (h_page_size hdr)))
       [0..<pages_present data (unat (h_page_size hdr)) (unat (h_page_count hdr))]"

definition open_static :: "bytes \<Rightarrow> file_header \<Rightarrow> database" where
  "open_static data hdr =
     parse_string_table data hdr (open_spans data hdr)
       ((set_header hdr database_new)\<lparr>db_pages := open_pages data hdr\<rparr>)"

lemma open_db_alt:
  "open_db data strict =
     bindE (parse_header strict (byte_reader_new data))
       (\<lambda>(hdr, _). replay_journal data hdr (open_spans data hdr) (open_static data hdr))"
proof -
  have "parse_pages data hdr (set_header hdr database_new) =
      Inr (open_spans data hdr, (set_header hdr database_new)\<lparr>db_pages := open_pages data hdr\<rparr>)" for hdr
    using parse_pages_ok [of "set_header hdr database_new" data hdr]
    by (simp add: open_spans_def open_pages_def set_header_def database_new_def)
  then show ?thesis by (simp add: open_db_def open_static_def Let_def)
qed

lemma parse_string_table_fields [simp]:
  "db_pages (parse_string_table data hdr spans db) = db_pages db"
  "db_records (parse_string_table data hdr spans db) = db_records db"
  "db_committed_ops (parse_string_table data hdr spans db) = db_committed_ops db"
  "db_rolled_back_ops (parse_string_table data hdr spans db) = db_rolled_back_ops db"
  by (simp_all add: parse_string_table_def Let_def)

lemma open_static_fields [simp]:
  "db_pages (open_static data hdr) = open_pages data hdr" "db_records (open_static data hdr) = []"
  "db_committed_ops (open_static data hdr) = 0" "db_rolled_back_ops (open_static data hdr) = 0"
  by (simp_all add: open_static_def set_header_def database_new_def)

lemma open_pages_facts:
  assumes "i < length (open_pages data hdr)"
  shows "pg_index (open_pages data hdr ! i) = of_nat i"
    and "length (pg_slots (open_pages data hdr ! i)) \<le> 2 ^ 16"
    and "kHeaderSize + i * unat (h_page_size hdr) < length data"
    and "sl \<in> set (pg_slots (open_pages data hdr ! i)) \<Longrightarrow> sl_in_bounds sl \<longleftrightarrow>
      8 \<le> unat (sl_rec_offset sl) \<and>
      unat (sl_rec_offset sl) + unat (sl_rec_length sl) \<le> unat (h_page_size hdr)"
proof -
  have i: "i < pages_present data (unat (h_page_size hdr)) (unat (h_page_count hdr))"
    using assms by (simp add: open_pages_def)
  then show there: "kHeaderSize + i * unat (h_page_size hdr) < length data"
    by (rule pages_present_bounds)
  have pg: "open_pages data hdr ! i = page_at data (unat (h_page_size hdr)) i"
    using i by (simp add: open_pages_def)
  have "unat (pg_slot_count (open_pages data hdr ! i)) < 2 ^ 16"
    using unsigned_less [of "pg_slot_count (open_pages data hdr ! i)", where ?'a = nat] by simp
  then show "length (pg_slots (open_pages data hdr ! i)) \<le> 2 ^ 16"
    using page_at_facts(4) [OF there] by (simp add: pg)
  show "pg_index (open_pages data hdr ! i) = of_nat i"
    using page_at_facts(1) [OF there] by (simp add: pg)
  show "sl \<in> set (pg_slots (open_pages data hdr ! i)) \<Longrightarrow> sl_in_bounds sl \<longleftrightarrow>
      8 \<le> unat (sl_rec_offset sl) \<and>
      unat (sl_rec_offset sl) + unat (sl_rec_length sl) \<le> unat (h_page_size hdr)"
    using page_at_facts(3) [OF there] by (simp add: pg)
qed

lemma open_pages_types:
  assumes "pg \<in> set (open_pages data hdr)"
  shows "page_type_of_byte (page_type_byte (pg_type pg)) = pg_type pg"
proof -
  obtain i where "i < pages_present data (unat (h_page_size hdr)) (unat (h_page_count hdr))"
    and pg: "pg = page_at data (unat (h_page_size hdr)) i"
    using assms by (auto simp: open_pages_def)
  then show ?thesis using page_at_facts(2) [OF pages_present_bounds(2)] by simp
qed

lemma length_open_pages: "length (open_pages data hdr) \<le> 2 ^ 32"
  using pages_present_bounds(1) [of data "unat (h_page_size hdr)" "unat (h_page_count hdr)"]
    unsigned_less [of "h_page_count hdr", where ?'a = nat]
  by (simp add: open_pages_def)

definition open_seed :: "bytes \<Rightarrow> file_header \<Rightarrow> record_store" where
  "open_seed data hdr = seed_from_pages data (open_spans data hdr) (open_static data hdr) []"

lemma open_seed_lookup:
  "om_lookup (open_seed data hdr) = resident data (open_spans data hdr) (open_pages data hdr)"
proof -
  have "length (open_spans data hdr) = length (open_pages data hdr)"
    by (simp add: open_spans_def open_pages_def)
  then show ?thesis
    using seed_from_pages_lookup [of "open_static data hdr" "open_spans data hdr" data]
      open_pages_facts(2) [of _ data hdr] length_open_pages [of data hdr]
    by (simp add: open_seed_def open_pages_facts(1))
qed

lemma om_ok_open_seed: "om_ok (open_seed data hdr)"
  by (simp add: open_seed_def om_ok_seed)

definition open_journal :: "bytes \<Rightarrow> file_header \<Rightarrow> journal_state result" where
  "open_journal data hdr =
     (if h_journal_offset hdr \<noteq> 0 \<and> unat (h_journal_offset hdr) < length data
      then journal_loop (byte_reader_new (drop (unat (h_journal_offset hdr)) data)) (journal_start (open_seed data hdr))
      else Inr (journal_start (open_seed data hdr)))"

lemma replay_open:
  "replay_journal data hdr (open_spans data hdr) (open_static data hdr) =
     bindE (open_journal data hdr) (\<lambda>js.
       bindE (decode_committed (db_string_table (open_static data hdr)) (js_committed js) []) (\<lambda>records.
         Inr ((open_static data hdr)\<lparr>
           db_has_journal := (h_journal_offset hdr \<noteq> 0 \<or> db_has_journal (open_static data hdr)),
           db_committed_ops := js_committed_ops (end_of_journal js),
           db_rolled_back_ops := js_rolled_back_ops (end_of_journal js), db_records := records\<rparr>)))"
proof -
  have "js_committed (end_of_journal js) = js_committed js" for js
    by (simp add: end_of_journal_def)
  then show ?thesis
    by (simp add: replay_journal_def open_journal_def journal_start_def open_seed_def Let_def
        cong: if_cong) 
qed

lemma open_static_not_journal: "db_has_journal (open_static data hdr) = False"
  by (simp add: open_static_def parse_string_table_def set_header_def database_new_def Let_def)

text \<open>The records of an opened store, key by key.\<close>

definition txn_start :: "record_map \<Rightarrow> txn_map" where
  "txn_start m = \<lparr>tm_durable = m, tm_shadow = None\<rparr>"

lemma open_db_parts:
  assumes "parse_header strict (byte_reader_new data) = Inr (hdr, r)" and "open_db data strict = Inr db"
  obtains js where "open_journal data hdr = Inr js" and "om_ok (db_records db)"
    and "db_string_table db = db_string_table (open_static data hdr)" and "db_pages db = open_pages data hdr"
    and "db_committed_ops db = js_committed_ops (end_of_journal js)"
    and "db_rolled_back_ops db = js_rolled_back_ops (end_of_journal js)"
    and "\<And>es. js = fold journal_apply es (journal_start (open_seed data hdr)) \<Longrightarrow>
      om_lookup (db_records db) key =
        (case tm_durable (fold tm_apply es
            (txn_start (resident data (open_spans data hdr) (open_pages data hdr)))) key of
           None \<Rightarrow> None
         | Some bs \<Rightarrow> (case decode_record bs (db_string_table db) of Inr rec \<Rightarrow> Some rec | Inl e \<Rightarrow> None))"
proof -
  from assms obtain js records where js: "open_journal data hdr = Inr js"
    and dec: "decode_committed (db_string_table (open_static data hdr)) (js_committed js) [] = Inr records"
    and db: "db = (open_static data hdr)\<lparr>
      db_has_journal := (h_journal_offset hdr \<noteq> 0 \<or> db_has_journal (open_static data hdr)),
      db_committed_ops := js_committed_ops (end_of_journal js),
      db_rolled_back_ops := js_rolled_back_ops (end_of_journal js), db_records := records\<rparr>"
    by (auto simp: open_db_alt replay_open bindE_eq_Inr)
  have start: "js_inv (journal_start (open_seed data hdr))"
    by (simp add: js_inv_def journal_start_def om_ok_open_seed)
  have "\<exists>es. js = fold journal_apply es (journal_start (open_seed data hdr))"
  proof (cases "h_journal_offset hdr \<noteq> 0 \<and> unat (h_journal_offset hdr) < length data")
    case True
    then show ?thesis using js journal_loop_ok by (auto simp: open_journal_def)
  next
    case False
    then have "js = fold journal_apply [] (journal_start (open_seed data hdr))"
      using js by (auto simp: open_journal_def)
    then show ?thesis by blast
  qed
  then have "js_inv js" using journal.inv_run_from [OF start] by blast
  then have ok: "om_ok (js_committed js)" by (simp add: js_inv_def)
  have recs: "om_ok records \<and> (\<forall>key. om_lookup records key =
      (case om_lookup (js_committed js) key of None \<Rightarrow> om_lookup [] key
       | Some bs \<Rightarrow> (case decode_record bs (db_string_table (open_static data hdr)) of
           Inr rec \<Rightarrow> Some rec | Inl e \<Rightarrow> None)))"
    using decode_committed_ok [OF ok _ _ dec] by simp
  have table: "db_string_table db = db_string_table (open_static data hdr)"
    and records: "db_records db = records"
    by (simp_all add: db)
  show thesis
  proof (rule that [OF js])
    fix es
    assume es: "js = fold journal_apply es (journal_start (open_seed data hdr))"
    have "js_abs (journal_start (open_seed data hdr)) =
        txn_start (resident data (open_spans data hdr) (open_pages data hdr))"
      by (simp add: js_abs_def journal_start_def txn_start_def open_seed_lookup)
    with js_abs_run [OF start, of es] have "om_lookup (js_committed js) =
        tm_durable (fold tm_apply es (txn_start (resident data (open_spans data hdr) (open_pages data hdr))))"
      unfolding es js_abs_def by (metis txn_map.select_convs(1))
    then show "om_lookup (db_records db) key =
        (case tm_durable (fold tm_apply es
            (txn_start (resident data (open_spans data hdr) (open_pages data hdr)))) key of
           None \<Rightarrow> None
         | Some bs \<Rightarrow> (case decode_record bs (db_string_table db) of Inr rec \<Rightarrow> Some rec | Inl e \<Rightarrow> None))"
      using recs [THEN conjunct2, THEN spec, of key, folded table records] by (simp only: om_lookup_Nil)
  qed (simp_all add: db recs)
qed

lemma open_db_refines:
  assumes "parse_header strict (byte_reader_new data) = Inr (hdr, r)" and "open_db data strict = Inr db"
    and "h_journal_offset hdr \<noteq> 0" and "unat (h_journal_offset hdr) < length data"
    and "drop (unat (h_journal_offset hdr)) data = concat (map entry_bytes es)"
    and "\<forall>e \<in> set es. entry_fits e"
  shows "om_lookup (db_records db) key =
    (case tm_durable (fold tm_apply es
        (txn_start (resident data (open_spans data hdr) (open_pages data hdr)))) key of
       None \<Rightarrow> None
     | Some bs \<Rightarrow> (case decode_record bs (db_string_table db) of Inr rec \<Rightarrow> Some rec | Inl e \<Rightarrow> None))"
proof -
  have "open_journal data hdr = Inr (fold journal_apply es (journal_start (open_seed data hdr)))"
    using assms(3-6) journal_loop_entries by (simp add: open_journal_def)
  then show ?thesis
    using open_db_parts [OF assms(1,2), of key] by (metis sum.inject(2))
qed

text \<open>Without a journal the records are the resident ones.\<close>

lemma open_db_no_journal:
  assumes "parse_header strict (byte_reader_new data) = Inr (hdr, r)" and "open_db data strict = Inr db"
    and "h_journal_offset hdr = 0 \<or> length data \<le> unat (h_journal_offset hdr)"
  shows "om_lookup (db_records db) key =
    (case resident data (open_spans data hdr) (open_pages data hdr) key of
       None \<Rightarrow> None
     | Some bs \<Rightarrow> (case decode_record bs (db_string_table db) of Inr rec \<Rightarrow> Some rec | Inl e \<Rightarrow> None))"
proof -
  have "open_journal data hdr = Inr (fold journal_apply [] (journal_start (open_seed data hdr)))"
    using assms(3) by (auto simp: open_journal_def)
  then show ?thesis
    using open_db_parts [OF assms(1,2), of key]
    by (metis sum.inject(2) fold_simps(1) txn_map.select_convs(1) txn_start_def)
qed

section \<open>When open throws\<close>

lemma open_db_throws_iff:
  "(\<exists>e. open_db data strict = Inl e) \<longleftrightarrow>
     (\<exists>e. parse_header strict (byte_reader_new data) = Inl e) \<or>
     (\<exists>hdr r. parse_header strict (byte_reader_new data) = Inr (hdr, r) \<and>
        ((\<exists>e. open_journal data hdr = Inl e) \<or>
         (\<exists>js. open_journal data hdr = Inr js \<and>
            (\<exists>bs \<in> snd ` set (js_committed js). \<exists>e.
               decode_record bs (db_string_table (open_static data hdr)) = Inl e))))"
proof (cases "parse_header strict (byte_reader_new data)")
  case (Inr hr)
  obtain hdr r where hr: "hr = (hdr, r)" by (cases hr)
  show ?thesis
  proof (cases "open_journal data hdr")
    case (Inr js)
    have "(\<exists>e. open_db data strict = Inl e) \<longleftrightarrow>
        (\<exists>e. decode_committed (db_string_table (open_static data hdr)) (js_committed js) [] = Inl e)"
      by (simp add: open_db_alt replay_open \<open>parse_header strict (byte_reader_new data) = Inr hr\<close> hr
          Inr bindE_eq_Inl)
    then show ?thesis
      unfolding decode_committed_fails
      by (simp add: \<open>parse_header strict (byte_reader_new data) = Inr hr\<close> hr Inr)
  qed (simp add: open_db_alt replay_open Inr hr)
qed (simp add: open_db_alt)

text \<open>With a journal of complete entries: the opened records, or the record that does not decode.\<close>

lemma open_db_replay:
  assumes "parse_header strict (byte_reader_new data) = Inr (hdr, r)"
    and "h_journal_offset hdr \<noteq> 0" and "unat (h_journal_offset hdr) < length data"
    and "drop (unat (h_journal_offset hdr)) data = concat (map entry_bytes es)"
    and "\<forall>e \<in> set es. entry_fits e"
  defines "final \<equiv> tm_durable (fold tm_apply es
      (txn_start (resident data (open_spans data hdr) (open_pages data hdr))))"
  shows "case open_db data strict of
      Inl e \<Rightarrow> \<exists>key bs e'. final key = Some bs \<and>
        decode_record bs (db_string_table (open_static data hdr)) = Inl e'
    | Inr db \<Rightarrow> \<forall>key. om_lookup (db_records db) key =
        (case final key of
           None \<Rightarrow> None
         | Some bs \<Rightarrow> (case decode_record bs (db_string_table db) of Inr rec \<Rightarrow> Some rec | Inl e \<Rightarrow> None))"
proof (cases "open_db data strict")
  case (Inr db)
  show ?thesis
    unfolding Inr sum.case final_def using open_db_refines [OF assms(1) Inr assms(2-5)] by blast
next
  case (Inl e)
  define js where "js = fold journal_apply es (journal_start (open_seed data hdr))"
  have js: "open_journal data hdr = Inr js"
    using assms(2-5) journal_loop_entries by (simp add: open_journal_def js_def)
  have "\<exists>bs \<in> snd ` set (js_committed js). \<exists>e.
      decode_record bs (db_string_table (open_static data hdr)) = Inl e"
    using open_db_throws_iff [of data strict] Inl by (simp add: assms(1) js)
  then obtain bs e' where bs: "bs \<in> snd ` set (js_committed js)"
    "decode_record bs (db_string_table (open_static data hdr)) = Inl e'"
    by blast
  have start: "js_inv (journal_start (open_seed data hdr))"
    by (simp add: js_inv_def journal_start_def om_ok_open_seed)
  then have ok: "om_ok (js_committed js)"
    using journal.inv_run_from [OF start, of es] by (simp add: js_inv_def js_def)
  obtain kb where "bs = snd kb" "kb \<in> set (js_committed js)" using bs(1) by (rule imageE)
  moreover obtain key b where "kb = (key, b)" by (cases kb)
  ultimately have "(key, bs) \<in> set (js_committed js)" by simp
  then have "om_lookup (js_committed js) key = Some bs" using om_mem_iff [OF ok] by simp
  moreover have "om_lookup (js_committed js) = final"
  proof -
    have "js_abs (journal_start (open_seed data hdr)) =
        txn_start (resident data (open_spans data hdr) (open_pages data hdr))"
      by (simp add: js_abs_def journal_start_def txn_start_def open_seed_lookup)
    with js_abs_run [OF start, of es] show ?thesis
      unfolding js_def js_abs_def final_def by (metis txn_map.select_convs(1))
  qed
  ultimately have "final key = Some bs" by simp
  with bs(2) show ?thesis unfolding Inl sum.case by blast
qed

lemma throws_only_header:
  "throws_only (read_errors \<union> {kBadMagic, kBadVersion, kBadChecksum}) (parse_header strict)"
proof -
  let ?C = "read_errors \<union> {kBadMagic, kBadVersion, kBadChecksum}"
  have "err_code e \<in> ?C" if e: "parse_header strict r = Inl e" for r e
  proof (cases "32 \<le> length (drop (rd_pos r) (rd_data r)) \<and> wf_rd r")
    case True
    then obtain h rest where lay: "drop (rd_pos r) (rd_data r) = take 4 (drop (rd_pos r) (rd_data r)) @
        put_u16le [] (h_version h) @ put_u16le [] (h_page_size h) @ header_tail h @
        put_u32le [] (h_header_crc32 h) @ rest"
      using header_layout_exists by blast
    have len: "length (take 4 (drop (rd_pos r) (rd_data r))) = 4" using True by simp
    have "r = rd_at (take (rd_pos r) (rd_data r)) (drop (rd_pos r) (rd_data r))"
      using True by (simp add: rd_at_def wf_rd_def)
    then show ?thesis
      using e parse_header_layout [OF len, of strict "take (rd_pos r) (rd_data r)" h rest, folded lay]
      by (auto simp: header_verdict_def Let_def read_errors_def bindE_eq_Inl split: if_splits)
  next
    case False
    then have "rd_remaining r < 32" by (auto simp: rd_remaining_def rd_size_def wf_rd_def)
    then show ?thesis
      using e by (auto simp: parse_header_def rd_bind_def require_def kHeaderSize_def Let_def
          parse_error_default_def read_errors_def)
  qed
  then show ?thesis by (simp add: throws_only_def)
qed

lemma throws_only_journal_step: "throws_only read_errors (journal_step js)"
proof -
  have key: "throws_only read_errors read_key"
    unfolding read_key_def by (intro throws_basics)
  have put: "throws_only read_errors (read_put js)"
    unfolding read_put_def by (intro throws_basics key)
  have "throws_only read_errors (journal_switch js op)" for op
    by (cases op) (auto simp: journal_switch_def intro!: put throws_basics key)
  then show ?thesis
    unfolding journal_step_def by (intro throws_basics)
qed

lemma journal_loop_errors: "journal_loop r js = Inl e \<Longrightarrow> err_code e \<in> read_errors"
proof (induction r js rule: journal_loop.induct)
  case (1 r js)
  show ?case
  proof (cases "rd_eof r")
    case False
    show ?thesis
    proof (cases "journal_step js r")
      case (Inl e')
      then show ?thesis
        using 1(2) False throws_only_journal_step
        by (auto simp: journal_loop.simps [of r] throws_only_def)
    next
      case (Inr p)
      obtain stop js1 r1 where p: "p = ((stop, js1), r1)" by (metis prod.exhaust)
      show ?thesis
        using 1(1) [OF False Inr [unfolded p] refl refl] 1(2) False Inr p
        by (auto simp: journal_loop.simps [of r] split: if_splits)
    qed
  qed (use 1(2) in \<open>simp add: journal_loop.simps [of r]\<close>)
qed

lemma open_db_errors:
  assumes "open_db data strict = Inl e"
  shows "err_code e \<in> {kShortRead, kBadLength, kBadType, kBadMagic, kBadVersion, kBadChecksum}"
proof -
  have dec: "decode_committed table committed records = Inl e \<Longrightarrow> err_code e \<in> read_errors"
    for table committed records
    by (induction table committed records rule: decode_committed.induct)
      (auto simp: bindE_eq_Inl dest: decode_record_errors)
  from assms consider "parse_header strict (byte_reader_new data) = Inl e"
    | hdr where "open_journal data hdr = Inl e"
    | table committed where "decode_committed table committed [] = Inl e"
    by (auto simp: open_db_alt replay_open bindE_eq_Inl)
  then show ?thesis
  proof cases
    case 1
    then show ?thesis using throws_only_header by (auto simp: throws_only_def read_errors_def)
  next
    case 2
    then show ?thesis
      using journal_loop_errors by (auto simp: open_journal_def read_errors_def split: if_splits)
  qed (use dec in \<open>auto simp: read_errors_def\<close>)
qed

end
