(* ===== verification/Db_Cursor.thy ===== *)
theory Db_Cursor
  imports Minidb
begin

text \<open>
  The record cursor (\<^verbatim>\<open>include/minidb/cursor.hpp\<close>, \<^verbatim>\<open>src/minidb/cursor.cpp\<close>). The iterator into
  \<^verbatim>\<open>Database::records\<close> is its index in key order, with the number of records for \<^verbatim>\<open>end()\<close>. The
  theory shows that repeated \<open>cu_next\<close> visits every record once in ascending key order and then stays
  exhausted, and that \<open>cu_seek\<close> lands on the least key that is not smaller.
\<close>

record cursor =
  cu_db :: database
  cu_it :: nat
  cu_started :: bool

definition cursor_new :: "database \<Rightarrow> cursor" where
  "cursor_new db = \<lparr>cu_db = db, cu_it = length (db_records db), cu_started = False\<rparr>"

definition cu_end :: "cursor \<Rightarrow> nat" where
  "cu_end c = length (db_records (cu_db c))"

definition cu_next :: "cursor \<Rightarrow> bool \<times> cursor" where
  "cu_next c =
     (if \<not> cu_started c
      then let c = c\<lparr>cu_it := 0, cu_started := True\<rparr> in (cu_it c \<noteq> cu_end c, c)
      else if cu_it c = cu_end c then (False, c)
      else let c = c\<lparr>cu_it := cu_it c + 1\<rparr> in (cu_it c \<noteq> cu_end c, c))"

definition cu_valid :: "cursor \<Rightarrow> bool" where
  "cu_valid c \<longleftrightarrow> cu_started c \<and> cu_it c \<noteq> cu_end c"

text \<open>\<^verbatim>\<open>std::map::lower_bound\<close>: the first entry whose key is not less than the given one.\<close>

primrec om_lower_bound :: "'k::linorder \<Rightarrow> ('k, 'v) omap \<Rightarrow> nat" where
  "om_lower_bound k [] = 0"
| "om_lower_bound k (e # m) = (if fst e < k then Suc (om_lower_bound k m) else 0)"

definition cu_seek :: "u32 \<Rightarrow> u16 \<Rightarrow> cursor \<Rightarrow> bool \<times> cursor" where
  "cu_seek page slot c =
     (let c = c\<lparr>cu_it := om_lower_bound (page, slot) (db_records (cu_db c)), cu_started := True\<rparr>
      in (cu_it c \<noteq> cu_end c, c))"

definition cu_key :: "cursor \<Rightarrow> record_key" where
  "cu_key c = fst (db_records (cu_db c) ! cu_it c)"

definition cu_page :: "cursor \<Rightarrow> u32" where
  "cu_page c = fst (cu_key c)"

definition cu_slot :: "cursor \<Rightarrow> u16" where
  "cu_slot c = snd (cu_key c)"

definition cu_record :: "cursor \<Rightarrow> db_record" where
  "cu_record c = snd (db_records (cu_db c) ! cu_it c)"

definition cu_field :: "nat \<Rightarrow> cursor \<Rightarrow> field option" where
  "cu_field index c =
     (if \<not> cu_valid c then None
      else let rec = cu_record c
           in if length (r_fields rec) \<le> index then None else Some (r_fields rec ! index))"

definition field_to_string :: "(u64 \<Rightarrow> string) \<Rightarrow> field \<Rightarrow> string" where
  "field_to_string fmt_g f =
     (case fd_type f of
        FtNull \<Rightarrow> ''null''
      | FtBool \<Rightarrow> (if fd_b f then ''true'' else ''false'')
      | FtInt \<Rightarrow> dec_of_int (sint (fd_i64 f))
      | FtUint \<Rightarrow> dec_of_nat (unat (fd_u64 f))
      | FtFloat \<Rightarrow> fmt_g (fd_f64 f)
      | FtStringRef \<Rightarrow>
          (if fd_ref_resolved f then fd_str f else ''#'' @ dec_of_nat (unat (fd_ref_id f)))
      | FtInlineString \<Rightarrow> fd_str f
      | FtBlob \<Rightarrow> ''blob['' @ dec_of_nat (length (fd_blob f)) @ '']''
      | FtOther b \<Rightarrow> ''?'')"

definition project_row :: "(u64 \<Rightarrow> string) \<Rightarrow> db_record \<Rightarrow> string list" where
  "project_row fmt_g rec = map (field_to_string fmt_g) (r_fields rec)"

section \<open>Scanning\<close>

text \<open>A scan as its caller writes it: the keys and records seen by \<^verbatim>\<open>while (c.next())\<close>, with fuel.\<close>

fun cu_scan :: "nat \<Rightarrow> cursor \<Rightarrow> (record_key \<times> db_record) list \<times> cursor" where
  "cu_scan 0 c = ([], c)"
| "cu_scan (Suc n) c =
     (case cu_next c of
        (False, c') \<Rightarrow> ([], c')
      | (True, c') \<Rightarrow> (case cu_scan n c' of (rs, c'') \<Rightarrow> ((cu_key c', cu_record c') # rs, c'')))"

lemma cu_next_valid: "fst (cu_next c) \<longleftrightarrow> cu_valid (snd (cu_next c))"
  by (simp add: cu_next_def cu_valid_def cu_end_def Let_def)

lemma cu_next_exhausted: "\<not> fst (cu_next c) \<Longrightarrow> cu_next (snd (cu_next c)) = (False, snd (cu_next c))"
  by (auto simp: cu_next_def cu_end_def Let_def)

lemma cu_scan_from:
  assumes "cu_started c" and "cu_it c \<le> cu_end c" and "cu_end c - cu_it c \<le> n"
  shows "cu_scan n c = (drop (Suc (cu_it c)) (db_records (cu_db c)), c\<lparr>cu_it := cu_end c\<rparr>)"
  using assms
proof (induction n arbitrary: c)
  case 0
  then show ?case by (cases c) (simp add: cu_end_def)
next
  case (Suc n)
  show ?case
  proof (cases "cu_it c = cu_end c")
    case True
    then show ?thesis using Suc.prems by (cases c) (simp add: cu_next_def cu_end_def)
  next
    case False
    let ?c = "c\<lparr>cu_it := cu_it c + 1\<rparr>"
    have nxt: "cu_next c = (cu_it c + 1 \<noteq> cu_end c, ?c)"
      using Suc.prems False by (simp add: cu_next_def cu_end_def Let_def)
    show ?thesis
    proof (cases "cu_it c + 1 = cu_end c")
      case True
      then show ?thesis using Suc.prems nxt by (simp add: cu_end_def)
    next
      case more: False
      have "cu_scan n ?c = (drop (Suc (cu_it ?c)) (db_records (cu_db ?c)), ?c\<lparr>cu_it := cu_end ?c\<rparr>)"
        using Suc.prems False by (intro Suc.IH) (simp_all add: cu_end_def)
      moreover have "drop (Suc (cu_it c)) (db_records (cu_db c)) =
          (cu_key ?c, cu_record ?c) # drop (Suc (Suc (cu_it c))) (db_records (cu_db c))"
        using Suc.prems False more
        by (simp add: cu_key_def cu_record_def cu_end_def Cons_nth_drop_Suc [symmetric])
      ultimately show ?thesis using nxt more by (simp add: cu_end_def)
    qed
  qed
qed

lemma cu_scan_all:
  assumes "length (db_records db) < n"
  shows "fst (cu_scan n (cursor_new db)) = db_records db"
    and "cu_next (snd (cu_scan n (cursor_new db))) = (False, snd (cu_scan n (cursor_new db)))"
proof -
  let ?c = "(cursor_new db)\<lparr>cu_it := 0, cu_started := True\<rparr>"
  obtain k where n: "n = Suc k" using assms by (cases n) auto
  have nxt: "cu_next (cursor_new db) = (0 \<noteq> length (db_records db), ?c)"
    by (simp add: cu_next_def cursor_new_def cu_end_def Let_def)
  have scan: "cu_scan k ?c = (drop 1 (db_records db), ?c\<lparr>cu_it := length (db_records db)\<rparr>)"
    using cu_scan_from [of ?c k] assms n by (simp add: cu_end_def cursor_new_def)
  show "fst (cu_scan n (cursor_new db)) = db_records db"
  proof (cases "db_records db")
    case (Cons e m)
    then show ?thesis
      using nxt scan by (simp add: n cu_key_def cu_record_def cursor_new_def)
  qed (use nxt in \<open>simp add: n\<close>)
  show "cu_next (snd (cu_scan n (cursor_new db))) = (False, snd (cu_scan n (cursor_new db)))"
    using nxt scan
    by (cases "db_records db") (simp_all add: n cu_next_def cu_end_def cursor_new_def)
qed

section \<open>Seeking\<close>

lemma om_lower_bound_spec:
  assumes "om_ok m"
  shows "om_lower_bound k m \<le> length m"
    and "i < om_lower_bound k m \<Longrightarrow> fst (m ! i) < k"
    and "om_lower_bound k m \<le> i \<Longrightarrow> i < length m \<Longrightarrow> k \<le> fst (m ! i)"
  using assms
proof (induction m arbitrary: i)
  case (Cons e m)
  {
    case 1
    then show ?case using Cons by (simp add: om_ok_Cons)
  next
    case 2
    then show ?case using Cons by (auto simp: om_ok_Cons nth_Cons' split: if_splits)
  next
    case 3
    have later: "fst e < fst (m ! j)" if "j < length m" for j
      using 3 that by (simp add: om_ok_Cons)
    show ?case
    proof (cases i)
      case (Suc j)
      then have "fst e < fst (m ! j)" using 3 later by simp
      then have "k \<le> fst (m ! j)" if "\<not> fst e < k" using that by (metis not_le order_trans order_less_imp_le)
      with 3 Suc Cons.IH(3) [of j] show ?thesis by (cases "fst e < k") (simp_all add: om_ok_Cons)
    qed (use 3 in \<open>auto split: if_splits\<close>)
  }
qed simp_all

lemma cu_seek_spec:
  assumes "om_ok (db_records (cu_db c))"
  shows "cu_seek page slot c = (True, c') \<Longrightarrow> cu_valid c' \<and> (page, slot) \<le> cu_key c' \<and>
      om_lookup (db_records (cu_db c)) (cu_key c') = Some (cu_record c') \<and>
      (\<forall>key \<in> fst ` set (db_records (cu_db c)). (page, slot) \<le> key \<longrightarrow> cu_key c' \<le> key)"
    and "cu_seek page slot c = (False, c') \<Longrightarrow> \<not> cu_valid c' \<and>
      (\<forall>key \<in> fst ` set (db_records (cu_db c)). key < (page, slot))"
proof -
  let ?m = "db_records (cu_db c)" and ?i = "om_lower_bound (page, slot) (db_records (cu_db c))"
  note lb = om_lower_bound_spec [OF assms, where k = "(page, slot)"]
  show "cu_valid c' \<and> (page, slot) \<le> cu_key c' \<and>
      om_lookup ?m (cu_key c') = Some (cu_record c') \<and>
      (\<forall>key \<in> fst ` set ?m. (page, slot) \<le> key \<longrightarrow> cu_key c' \<le> key)"
    if "cu_seek page slot c = (True, c')"
  proof -
    have i: "?i < length ?m" and c': "c' = c\<lparr>cu_it := ?i, cu_started := True\<rparr>"
      using that lb(1) by (auto simp: cu_seek_def cu_end_def Let_def)
    have "(cu_key c', cu_record c') \<in> set ?m"
      using i by (simp add: c' cu_key_def cu_record_def)
    then have "om_lookup ?m (cu_key c') = Some (cu_record c')"
      using om_mem_iff [OF assms] by blast
    moreover have "cu_key c' \<le> key" if key: "key \<in> fst ` set ?m" "(page, slot) \<le> key" for key
    proof -
      obtain j where j: "j < length ?m" "key = fst (?m ! j)"
        using key(1) by (auto simp: in_set_conv_nth)
      have "?i \<le> j" using lb(2) [of j] j(2) key(2) by (meson not_le)
      moreover have "sorted_wrt (<) (map fst ?m)" using assms by (simp add: om_ok_def)
      ultimately show ?thesis
        using j i by (cases "?i = j")
          (auto simp: c' cu_key_def sorted_wrt_iff_nth_less less_eq_Suc_le intro!: order_less_imp_le)
    qed
    ultimately show ?thesis
      using i lb(3) [of ?i] by (simp add: c' cu_valid_def cu_end_def cu_key_def)
  qed
  show "\<not> cu_valid c' \<and> (\<forall>key \<in> fst ` set ?m. key < (page, slot))" if "cu_seek page slot c = (False, c')"
  proof -
    have i: "?i = length ?m" and c': "c' = c\<lparr>cu_it := ?i, cu_started := True\<rparr>"
      using that by (auto simp: cu_seek_def cu_end_def Let_def)
    have "key < (page, slot)" if key: "key \<in> fst ` set ?m" for key
    proof -
      obtain e where "e \<in> set ?m" "key = fst e" using key by blast
      then obtain j where "j < length ?m" "key = fst (?m ! j)" by (metis in_set_conv_nth)
      with lb(2) [of j] i show ?thesis by (simp only:)
    qed
    with i show ?thesis by (simp add: c' cu_valid_def cu_end_def)
  qed
qed

end
