(* ===== verification/Db_Overflow.thy ===== *)
theory Db_Overflow
  imports Minidb
begin

text \<open>
  Overflow chains (\<^verbatim>\<open>include/minidb/overflow.hpp\<close>, \<^verbatim>\<open>src/minidb/overflow.cpp\<close>). The theory shows that
  the walk always ends with a status that describes why it stopped, that the pages visited are
  distinct, inside the page array and linked by \<^verbatim>\<open>overflow_next\<close>, that the bytes are the payloads of
  the visited pages, and that both caps hold.
\<close>

datatype overflow_status =
    kComplete | kCycle | kPageLimit | kLengthLimit | kDanglingPage | kBadStart

fun overflow_status_name :: "overflow_status \<Rightarrow> string" where
  "overflow_status_name kComplete = ''COMPLETE''"
| "overflow_status_name kCycle = ''CYCLE''"
| "overflow_status_name kPageLimit = ''PAGE_LIMIT''"
| "overflow_status_name kLengthLimit = ''LENGTH_LIMIT''"
| "overflow_status_name kDanglingPage = ''DANGLING_PAGE''"
| "overflow_status_name kBadStart = ''BAD_START''"

record overflow_result =
  or_status :: overflow_status
  or_bytes :: bytes
  or_visited :: "u32 list"

record overflow_limits =
  ol_max_pages :: nat
  ol_max_bytes :: nat

definition default_limits :: overflow_limits where
  "default_limits = \<lparr>ol_max_pages = 1024, ol_max_bytes = 16 * 1024 * 1024\<rparr>"

text \<open>The payload a page contributes, \<open>None\<close> when it contributes nothing.\<close>

definition overflow_payload :: "bytes \<Rightarrow> page_span \<Rightarrow> page \<Rightarrow> bytes option" where
  "overflow_payload data span pg =
     (let payload_end = (if ps_length span < unat (pg_free_start pg) then ps_length span
                         else unat (pg_free_start pg))
      in if kPageHeaderSize < payload_end \<and> kPageHeaderSize < ps_length span
         then let abs_start = ps_file_offset span + kPageHeaderSize;
                  abs_end = ps_file_offset span + payload_end
              in if abs_start < length data \<and> abs_end \<le> length data \<and> abs_start \<le> abs_end
                 then Some (take (abs_end - abs_start) (drop abs_start data)) else None
         else None)"

text \<open>The walk; \<open>seen\<close> is the visited set.\<close>

function overflow_walk ::
  "bytes \<Rightarrow> page_span list \<Rightarrow> page list \<Rightarrow> overflow_limits \<Rightarrow> u32 set \<Rightarrow> u32 \<Rightarrow> u32 list \<Rightarrow> bytes \<Rightarrow> overflow_result"
where
  "overflow_walk data spans pages limits seen current visited out =
     (if current \<in> seen then \<lparr>or_status = kCycle, or_bytes = out, or_visited = visited\<rparr>
      else if ol_max_pages limits \<le> length visited
      then \<lparr>or_status = kPageLimit, or_bytes = out, or_visited = visited\<rparr>
      else let seen = insert current seen; visited = visited @ [current];
               pg = pages ! unat current; span = spans ! unat current;
               add = overflow_payload data span pg
           in if (case add of None \<Rightarrow> False | Some bs \<Rightarrow> ol_max_bytes limits < length out + length bs)
              then \<lparr>or_status = kLengthLimit, or_bytes = out, or_visited = visited\<rparr>
              else let out = (case add of None \<Rightarrow> out | Some bs \<Rightarrow> out @ bs);
                       nxt = pg_overflow_next pg
                   in if nxt = kNoOverflow
                      then \<lparr>or_status = kComplete, or_bytes = out, or_visited = visited\<rparr>
                      else if length pages \<le> unat (ucast nxt :: u32) \<or> length spans \<le> unat (ucast nxt :: u32)
                      then \<lparr>or_status = kDanglingPage, or_bytes = out, or_visited = visited\<rparr>
                      else overflow_walk data spans pages limits seen (ucast nxt) visited out)"
  by pat_completeness auto
termination
  by (relation "measure (\<lambda>(data, spans, pages, limits, seen, current, visited, out).
      ol_max_pages limits - length visited)") auto

declare overflow_walk.simps [simp del]

definition reconstruct_overflow ::
  "bytes \<Rightarrow> page_span list \<Rightarrow> database \<Rightarrow> u32 \<Rightarrow> overflow_limits \<Rightarrow> overflow_result" where
  "reconstruct_overflow data spans db start_page limits =
     (if length (db_pages db) \<le> unat start_page \<or> length spans \<le> unat start_page
      then \<lparr>or_status = kBadStart, or_bytes = [], or_visited = []\<rparr>
      else overflow_walk data spans (db_pages db) limits {} start_page [] [])"

definition reconstruct_overflow_default ::
  "bytes \<Rightarrow> page_span list \<Rightarrow> database \<Rightarrow> u32 \<Rightarrow> overflow_result" where
  "reconstruct_overflow_default data spans db start_page =
     reconstruct_overflow data spans db start_page default_limits"

definition reconstruct_overflow_db ::
  "bytes \<Rightarrow> database \<Rightarrow> u32 \<Rightarrow> overflow_limits \<Rightarrow> overflow_result" where
  "reconstruct_overflow_db data db start_page limits =
     reconstruct_overflow data (derive_spans (length data) db) db start_page limits"

definition reconstruct_overflow_db_default :: "bytes \<Rightarrow> database \<Rightarrow> u32 \<Rightarrow> overflow_result" where
  "reconstruct_overflow_db_default data db start_page =
     reconstruct_overflow_db data db start_page default_limits"

section \<open>What a walk yields\<close>

definition payload_bytes :: "bytes \<Rightarrow> page_span list \<Rightarrow> page list \<Rightarrow> u32 \<Rightarrow> bytes" where
  "payload_bytes data spans pages i =
     (case overflow_payload data (spans ! unat i) (pages ! unat i) of None \<Rightarrow> [] | Some bs \<Rightarrow> bs)"

definition next_page :: "page list \<Rightarrow> u32 \<Rightarrow> u32" where
  "next_page pages i = ucast (pg_overflow_next (pages ! unat i))"

text \<open>A chain: distinct pages of the array, each linked to the next one.\<close>

definition chain :: "page list \<Rightarrow> u32 list \<Rightarrow> bool" where
  "chain pages is \<longleftrightarrow> distinct is \<and> (\<forall>i \<in> set is. unat i < length pages) \<and>
     (\<forall>k. Suc k < length is \<longrightarrow>
        pg_overflow_next (pages ! unat (is ! k)) \<noteq> kNoOverflow \<and> is ! Suc k = next_page pages (is ! k))"

lemma chain_snoc:
  assumes "chain pages is" and "i \<notin> set is" and "unat i < length pages"
    and "is \<noteq> [] \<Longrightarrow> pg_overflow_next (pages ! unat (last is)) \<noteq> kNoOverflow \<and> i = next_page pages (last is)"
  shows "chain pages (is @ [i])"
proof -
  have "pg_overflow_next (pages ! unat ((is @ [i]) ! k)) \<noteq> kNoOverflow \<and>
      (is @ [i]) ! Suc k = next_page pages ((is @ [i]) ! k)" if k: "Suc k < length (is @ [i])" for k
  proof (cases "Suc k < length is")
    case True
    then show ?thesis using assms(1) by (simp add: chain_def nth_append)
  next
    case False
    then have "length is = Suc k" using k by simp
    then have "is \<noteq> []" by auto
    then have "last is = is ! k" using \<open>length is = Suc k\<close> by (simp add: last_conv_nth)
    then show ?thesis using assms(4) \<open>length is = Suc k\<close> \<open>is \<noteq> []\<close> by (simp add: nth_append)
  qed
  then show ?thesis using assms(1-3) by (auto simp: chain_def)
qed

text \<open>Why the walk stopped, read off the pages visited.\<close>

definition stop_reason ::
  "bytes \<Rightarrow> page_span list \<Rightarrow> page list \<Rightarrow> overflow_limits \<Rightarrow> overflow_result \<Rightarrow> bool" where
  "stop_reason data spans pages limits r \<longleftrightarrow>
     (let vs = or_visited r; lst = last vs; nxt = pg_overflow_next (pages ! unat lst) in
      case or_status r of
        kComplete \<Rightarrow> vs \<noteq> [] \<and> nxt = kNoOverflow
      | kCycle \<Rightarrow> vs \<noteq> [] \<and> nxt \<noteq> kNoOverflow \<and> next_page pages lst \<in> set vs
      | kPageLimit \<Rightarrow> length vs = ol_max_pages limits
      | kLengthLimit \<Rightarrow> vs \<noteq> [] \<and>
          ol_max_bytes limits < length (or_bytes r) + length (payload_bytes data spans pages lst)
      | kDanglingPage \<Rightarrow> vs \<noteq> [] \<and> nxt \<noteq> kNoOverflow \<and> length pages \<le> unat (next_page pages lst)
      | kBadStart \<Rightarrow> False)"

lemma overflow_walk_ok:
  assumes "length spans = length pages" and "seen = set visited" and "chain pages visited"
    and "length visited \<le> ol_max_pages limits" and "length out \<le> ol_max_bytes limits"
    and "out = concat (map (payload_bytes data spans pages) visited)"
    and "unat current < length pages"
    and "visited \<noteq> [] \<Longrightarrow> pg_overflow_next (pages ! unat (last visited)) \<noteq> kNoOverflow \<and>
      current = next_page pages (last visited)"
    and "r = overflow_walk data spans pages limits seen current visited out"
  shows "chain pages (or_visited r) \<and> length (or_visited r) \<le> ol_max_pages limits \<and>
    length (or_bytes r) \<le> ol_max_bytes limits \<and> stop_reason data spans pages limits r \<and>
    or_bytes r = concat (map (payload_bytes data spans pages)
      (if or_status r = kLengthLimit then butlast (or_visited r) else or_visited r)) \<and>
    take (length visited) (or_visited r) = visited"
  using assms
proof (induction data spans pages limits seen current visited out arbitrary: r rule: overflow_walk.induct)
  case (1 data spans pages limits seen current visited out)
  let ?vs = "visited @ [current]"
  let ?bs = "payload_bytes data spans pages current"
  show ?case
  proof (cases "current \<in> seen \<or> ol_max_pages limits \<le> length visited")
    case True
    then have r: "r = \<lparr>or_status = (if current \<in> seen then kCycle else kPageLimit), or_bytes = out, or_visited = visited\<rparr>"
      using 1(10) by (subst (asm) overflow_walk.simps) auto
    have "visited \<noteq> []" if "current \<in> seen" using that 1(3) by auto
    then have "stop_reason data spans pages limits r"
      using True 1(3,5) 1(9) by (auto simp: r stop_reason_def Let_def)
    with 1(4-7) show ?thesis by (simp add: r)
  next
    case False
    then have chain: "chain pages ?vs"
      using 1(3,4,8,9) by (intro chain_snoc) auto
    have add: "(case overflow_payload data (spans ! unat current) (pages ! unat current) of
        None \<Rightarrow> False | Some bs \<Rightarrow> ol_max_bytes limits < length out + length bs) \<longleftrightarrow>
        ol_max_bytes limits < length out + length ?bs"
      and out: "(case overflow_payload data (spans ! unat current) (pages ! unat current) of
        None \<Rightarrow> out | Some bs \<Rightarrow> out @ bs) = out @ ?bs"
      using 1(6) by (auto simp: payload_bytes_def split: option.split)
    show ?thesis
    proof (cases "ol_max_bytes limits < length out + length ?bs")
      case True
      then have "r = \<lparr>or_status = kLengthLimit, or_bytes = out, or_visited = ?vs\<rparr>"
        using 1(10) False add by (subst (asm) overflow_walk.simps) (simp add: Let_def)
      with True False 1(2-9) chain show ?thesis by (auto simp: stop_reason_def Let_def)
    next
      case fits: False
      let ?nxt = "pg_overflow_next (pages ! unat current)"
      show ?thesis
      proof (cases "?nxt = kNoOverflow \<or> length pages \<le> unat (next_page pages current)")
        case True
        then have "r = \<lparr>or_status = (if ?nxt = kNoOverflow then kComplete else kDanglingPage),
            or_bytes = out @ ?bs, or_visited = ?vs\<rparr>"
          using 1(2,10) False add out fits
          by (subst (asm) overflow_walk.simps) (auto simp: Let_def next_page_def)
        with True False fits 1(2-9) chain show ?thesis by (auto simp: stop_reason_def Let_def)
      next
        case go: False
        then have r: "r = overflow_walk data spans pages limits (insert current seen) (ucast ?nxt) ?vs (out @ ?bs)"
          using 1(2,10) False add out fits
          by (subst (asm) overflow_walk.simps) (auto simp: Let_def next_page_def)
        have "chain pages (or_visited r) \<and> length (or_visited r) \<le> ol_max_pages limits \<and>
            length (or_bytes r) \<le> ol_max_bytes limits \<and> stop_reason data spans pages limits r \<and>
            or_bytes r = concat (map (payload_bytes data spans pages)
              (if or_status r = kLengthLimit then butlast (or_visited r) else or_visited r)) \<and>
            take (length ?vs) (or_visited r) = ?vs"
          using 1(2,3,7) False fits go chain r
          by (intro 1(1)) (auto simp: add [unfolded 1(7)] out [unfolded 1(7)] next_page_def)
        moreover from this have "take (length visited) (or_visited r) = visited"
          by (metis append_eq_conv_conj append_take_drop_id append.assoc)
        ultimately show ?thesis by blast
      qed
    qed
  qed
qed

lemma overflow_walk_prefix:
  "\<exists>vs. or_visited (overflow_walk data spans pages limits seen current visited out) = visited @ vs"
proof (induction data spans pages limits seen current visited out rule: overflow_walk.induct)
  case (1 data spans pages limits seen current visited out)
  show ?case
    using 1 [OF _ _ refl refl refl refl refl _ refl refl]
    by (subst overflow_walk.simps) (auto simp: Let_def split: option.splits)
qed

lemma reconstruct_overflow_ok:
  assumes "length spans = length (db_pages db)" and "unat start < length (db_pages db)"
    and "r = reconstruct_overflow data spans db start limits"
  shows "chain (db_pages db) (or_visited r) \<and> length (or_visited r) \<le> ol_max_pages limits \<and>
    length (or_bytes r) \<le> ol_max_bytes limits \<and> stop_reason data spans (db_pages db) limits r \<and>
    or_bytes r = concat (map (payload_bytes data spans (db_pages db))
      (if or_status r = kLengthLimit then butlast (or_visited r) else or_visited r)) \<and>
    (0 < ol_max_pages limits \<longrightarrow> or_visited r \<noteq> [] \<and> hd (or_visited r) = start)"
proof -
  have r: "r = overflow_walk data spans (db_pages db) limits {} start [] []"
    using assms by (simp add: reconstruct_overflow_def)
  have "or_visited r \<noteq> [] \<and> hd (or_visited r) = start" if "0 < ol_max_pages limits"
  proof -
    have more: "take 1 (or_visited
        (overflow_walk data spans (db_pages db) limits seen c [start] out)) = [start]" for seen c out
      using overflow_walk_prefix [of data spans "db_pages db" limits _ _ "[start]"] by (metis append_Cons append_Nil
          take_Suc_Cons take0 One_nat_def)
    have "take 1 (or_visited r) = [start]"
      unfolding r using more that
      by (subst overflow_walk.simps) (auto simp: Let_def split: option.splits)
    then show ?thesis by (cases "or_visited r") auto
  qed
  moreover have "chain (db_pages db) (or_visited r) \<and> length (or_visited r) \<le> ol_max_pages limits \<and>
      length (or_bytes r) \<le> ol_max_bytes limits \<and> stop_reason data spans (db_pages db) limits r \<and>
      or_bytes r = concat (map (payload_bytes data spans (db_pages db))
        (if or_status r = kLengthLimit then butlast (or_visited r) else or_visited r)) \<and>
      take (length ([] :: u32 list)) (or_visited r) = []"
    by (rule overflow_walk_ok [OF assms(1) _ _ _ _ _ assms(2) _ r]) (simp_all add: chain_def)
  ultimately show ?thesis by blast
qed

end
