(* ===== verification/Db_Catalog.thy ===== *)
theory Db_Catalog
  imports Minidb
begin

text \<open>
  The catalog of a decoded database (\<^verbatim>\<open>include/minidb/catalog.hpp\<close>, \<^verbatim>\<open>src/minidb/catalog.cpp\<close>): page
  histogram, slot utilisation and string statistics. The theory shows that every figure of the
  roll-up is the count, sum or maximum it stands for, and that the totals agree with the table.
\<close>

record page_stats =
  pst_index :: u32
  pst_type :: page_type
  pst_total_slots :: nat
  pst_used_slots :: nat
  pst_dead_slots :: nat
  pst_truncated :: bool

record string_stats =
  ss_count :: nat
  ss_total_bytes :: nat
  ss_max_bytes :: nat
  ss_empty_count :: nat

record catalog =
  cat_page_type_counts :: "nat list"
  cat_total_pages :: nat
  cat_total_live_records :: nat
  cat_total_used_slots :: nat
  cat_total_dead_slots :: nat
  cat_strings :: string_stats
  cat_pages :: "page_stats list"

definition kPageTypeSlots :: nat where
  "kPageTypeSlots = unat (page_type_byte PtOverflow) + 1"

definition count_of :: "catalog \<Rightarrow> page_type \<Rightarrow> nat" where
  "count_of cat t =
     (let idx = unat (page_type_byte t)
      in if length (cat_page_type_counts cat) \<le> idx then 0 else cat_page_type_counts cat ! idx)"

section \<open>Building\<close>

definition tally_slot :: "slot \<Rightarrow> page_stats \<Rightarrow> page_stats" where
  "tally_slot s ps =
     (if sl_in_bounds s \<and> sl_rec_length s > 0 then ps\<lparr>pst_used_slots := pst_used_slots ps + 1\<rparr>
      else ps\<lparr>pst_dead_slots := pst_dead_slots ps + 1\<rparr>)"

definition page_stats_of :: "page \<Rightarrow> page_stats" where
  "page_stats_of p =
     fold tally_slot (pg_slots p)
       \<lparr>pst_index = pg_index p, pst_type = pg_type p, pst_total_slots = length (pg_slots p),
        pst_used_slots = 0, pst_dead_slots = 0, pst_truncated = pg_truncated p\<rparr>"

definition tally_page :: "page \<Rightarrow> catalog \<Rightarrow> catalog" where
  "tally_page p cat =
     (let type_idx = unat (page_type_byte (pg_type p));
          cat = (if type_idx < length (cat_page_type_counts cat)
                 then cat\<lparr>cat_page_type_counts :=
                        (cat_page_type_counts cat)[type_idx := cat_page_type_counts cat ! type_idx + 1]\<rparr>
                 else cat);
          ps = page_stats_of p
      in cat\<lparr>cat_total_used_slots := cat_total_used_slots cat + pst_used_slots ps,
             cat_total_dead_slots := cat_total_dead_slots cat + pst_dead_slots ps,
             cat_pages := cat_pages cat @ [ps]\<rparr>)"

definition tally_string :: "string \<Rightarrow> string_stats \<Rightarrow> string_stats" where
  "tally_string s st =
     (let st = st\<lparr>ss_total_bytes := ss_total_bytes st + length s\<rparr>;
          st = (if length s > ss_max_bytes st then st\<lparr>ss_max_bytes := length s\<rparr> else st)
      in if s = [] then st\<lparr>ss_empty_count := ss_empty_count st + 1\<rparr> else st)"

definition build_catalog :: "database \<Rightarrow> catalog" where
  "build_catalog db =
     (let cat = \<lparr>cat_page_type_counts = replicate kPageTypeSlots 0,
                 cat_total_pages = length (db_pages db), cat_total_live_records = length (db_records db),
                 cat_total_used_slots = 0, cat_total_dead_slots = 0,
                 cat_strings = \<lparr>ss_count = 0, ss_total_bytes = 0, ss_max_bytes = 0, ss_empty_count = 0\<rparr>,
                 cat_pages = []\<rparr>;
          cat = fold tally_page (db_pages db) cat
      in cat\<lparr>cat_strings := fold tally_string (db_string_table db)
           ((cat_strings cat)\<lparr>ss_count := length (db_string_table db)\<rparr>)\<rparr>)"

section \<open>Rendering\<close>

text \<open>The histogram line: one token for each known type with a count, and \<^verbatim>\<open>any\<close>.\<close>

definition histogram_token :: "nat \<times> nat \<Rightarrow> string" where
  "histogram_token t_n =
     (let (t, n) = t_n
      in if n = 0 then []
         else '' '' @ page_type_name (page_type_of_byte (of_nat t)) @ ''='' @ dec_of_nat n)"

definition format_page_stats :: "page_stats \<Rightarrow> string" where
  "format_page_stats ps =
     ''    page '' @ dec_of_nat (unat (pst_index ps)) @ '': '' @ page_type_name (pst_type ps) @
     '', slots '' @ dec_of_nat (pst_used_slots ps) @ ''/'' @ dec_of_nat (pst_total_slots ps) @ '' used'' @
     (if pst_dead_slots ps \<noteq> 0 then '', '' @ dec_of_nat (pst_dead_slots ps) @ '' dead'' else []) @
     (if pst_truncated ps then '', truncated'' else []) @ nl"

definition format_catalog :: "catalog \<Rightarrow> string" where
  "format_catalog cat =
     ''minidb catalog'' @ nl @
     ''  pages          : '' @ dec_of_nat (cat_total_pages cat) @ nl @
     ''  page types     :'' @
     concat (map histogram_token (enumerate 0 (cat_page_type_counts cat))) @
     (if \<forall>n \<in> set (cat_page_type_counts cat). n = 0 then '' (none)'' else []) @ nl @
     ''  live records   : '' @ dec_of_nat (cat_total_live_records cat) @ nl @
     ''  slots used/dead: '' @ dec_of_nat (cat_total_used_slots cat) @ ''/'' @
       dec_of_nat (cat_total_dead_slots cat) @ nl @
     ''  strings        : '' @ dec_of_nat (ss_count (cat_strings cat)) @ '' entries, '' @
       dec_of_nat (ss_total_bytes (cat_strings cat)) @ '' bytes, max '' @
       dec_of_nat (ss_max_bytes (cat_strings cat)) @ '', '' @
       dec_of_nat (ss_empty_count (cat_strings cat)) @ '' empty'' @ nl @
     ''  per-page:'' @ nl @ concat (map format_page_stats (cat_pages cat))"

section \<open>The figures\<close>

definition live_slot :: "slot \<Rightarrow> bool" where
  "live_slot s \<longleftrightarrow> sl_in_bounds s \<and> sl_rec_length s > 0"

lemma fold_tally_slot:
  "pst_used_slots (fold tally_slot ss ps) = pst_used_slots ps + length (filter live_slot ss)"
  "pst_dead_slots (fold tally_slot ss ps) = pst_dead_slots ps + length (filter (\<lambda>s. \<not> live_slot s) ss)"
  "pst_index (fold tally_slot ss ps) = pst_index ps" "pst_type (fold tally_slot ss ps) = pst_type ps"
  "pst_total_slots (fold tally_slot ss ps) = pst_total_slots ps"
  "pst_truncated (fold tally_slot ss ps) = pst_truncated ps"
  by (induction ss arbitrary: ps) (simp_all add: tally_slot_def live_slot_def)

lemma page_stats_of_fields [simp]:
  "pst_used_slots (page_stats_of p) = length (filter live_slot (pg_slots p))"
  "pst_dead_slots (page_stats_of p) = length (filter (\<lambda>s. \<not> live_slot s) (pg_slots p))"
  "pst_index (page_stats_of p) = pg_index p" "pst_type (page_stats_of p) = pg_type p"
  "pst_total_slots (page_stats_of p) = length (pg_slots p)"
  "pst_truncated (page_stats_of p) = pg_truncated p"
  by (simp_all add: page_stats_of_def fold_tally_slot)

lemma fold_tally_page:
  "cat_pages (fold tally_page ps cat) = cat_pages cat @ map page_stats_of ps"
  "cat_total_used_slots (fold tally_page ps cat) =
     cat_total_used_slots cat + sum_list (map (pst_used_slots \<circ> page_stats_of) ps)"
  "cat_total_dead_slots (fold tally_page ps cat) =
     cat_total_dead_slots cat + sum_list (map (pst_dead_slots \<circ> page_stats_of) ps)"
  "cat_strings (fold tally_page ps cat) = cat_strings cat"
  "cat_total_pages (fold tally_page ps cat) = cat_total_pages cat"
  "cat_total_live_records (fold tally_page ps cat) = cat_total_live_records cat"
  "length (cat_page_type_counts (fold tally_page ps cat)) = length (cat_page_type_counts cat)"
  by (induction ps arbitrary: cat) (simp_all add: tally_page_def Let_def del: page_stats_of_fields)

lemma fold_tally_counts:
  "i < length (cat_page_type_counts cat) \<Longrightarrow>
     cat_page_type_counts (fold tally_page ps cat) ! i =
       cat_page_type_counts cat ! i + length (filter (\<lambda>p. unat (page_type_byte (pg_type p)) = i) ps)"
  by (induction ps arbitrary: cat) (auto simp: tally_page_def Let_def nth_list_update)

lemma fold_tally_string:
  "ss_count (fold tally_string ss st) = ss_count st"
  "ss_total_bytes (fold tally_string ss st) = ss_total_bytes st + sum_list (map length ss)"
  "ss_max_bytes (fold tally_string ss st) = fold max (map length ss) (ss_max_bytes st)"
  "ss_empty_count (fold tally_string ss st) = ss_empty_count st + length (filter (\<lambda>s. s = []) ss)"
  by (induction ss arbitrary: st) (simp_all add: tally_string_def Let_def max_def)

lemma build_catalog_fields:
  "cat_total_pages (build_catalog db) = length (db_pages db)"
  "cat_total_live_records (build_catalog db) = length (db_records db)"
  "cat_pages (build_catalog db) = map page_stats_of (db_pages db)"
  "cat_total_used_slots (build_catalog db) = sum_list (map pst_used_slots (cat_pages (build_catalog db)))"
  "cat_total_dead_slots (build_catalog db) = sum_list (map pst_dead_slots (cat_pages (build_catalog db)))"
  "ss_count (cat_strings (build_catalog db)) = length (db_string_table db)"
  "ss_total_bytes (cat_strings (build_catalog db)) = sum_list (map length (db_string_table db))"
  "ss_max_bytes (cat_strings (build_catalog db)) = Max (set (0 # map length (db_string_table db)))"
  "ss_empty_count (cat_strings (build_catalog db)) = length (filter (\<lambda>s. s = []) (db_string_table db))"
  by (simp_all add: build_catalog_def Let_def fold_tally_page fold_tally_string o_def
      Max.set_eq_fold del: list.set)

lemma used_plus_dead:
  "cat_total_used_slots (build_catalog db) + cat_total_dead_slots (build_catalog db) =
     sum_list (map (length \<circ> pg_slots) (db_pages db))"
proof -
  have "length (filter live_slot ss) + length (filter (\<lambda>s. \<not> live_slot s) ss) = length ss" for ss
    by (simp add: sum_length_filter_compl)
  then show ?thesis
    unfolding build_catalog_fields(4,5) by (simp add: build_catalog_fields(3) o_def sum_list_addf [symmetric])
qed

lemma count_of_known:
  assumes "t \<in> {PtFree, PtData, PtStrings, PtIndex, PtOverflow}"
    and "\<forall>p \<in> set (db_pages db). page_type_of_byte (page_type_byte (pg_type p)) = pg_type p"
  shows "count_of (build_catalog db) t = length (filter (\<lambda>p. pg_type p = t) (db_pages db))"
proof -
  have eq: "unat (page_type_byte (pg_type p)) = unat (page_type_byte t) \<longleftrightarrow> pg_type p = t"
    if "p \<in> set (db_pages db)" for p
    using assms(1) assms(2) that by (metis empty_iff insert_iff page_type_byte.simps(1-5) page_type_known word_unat_eq_iff)
  have "unat (page_type_byte t) < kPageTypeSlots"
    using assms(1) by (auto simp: kPageTypeSlots_def)
  then have "count_of (build_catalog db) t =
      length (filter (\<lambda>p. unat (page_type_byte (pg_type p)) = unat (page_type_byte t)) (db_pages db))"
    by (simp add: count_of_def build_catalog_def Let_def fold_tally_page fold_tally_counts)
  also have "\<dots> = length (filter (\<lambda>p. pg_type p = t) (db_pages db))"
    using eq by (metis (mono_tags, lifting) filter_cong)
  finally show ?thesis .
qed

end
