(* ===== verification/Bp_Model.thy ===== *)
theory Bp_Model
  imports Reader_Laws
begin

text \<open>
  The data model of \<^verbatim>\<open>binpack\<close> (\<^verbatim>\<open>include/binpack/model.hpp\<close>, \<^verbatim>\<open>src/binpack/names.cpp\<close>): the
  record tags and section types with their wire values, the record tree, and the containers that
  \<^verbatim>\<open>parse\<close> delivers. A decoded record is a struct that holds a vector of itself, so it is a datatype
  with a selector for each member; a double is the 64 bits the format stores.
\<close>

section \<open>Tags and section types\<close>

datatype record_tag =
  TagInt | TagUint | TagFloat | TagString | TagBlob | TagArray | TagGroup | TagKeyval

fun record_tag_byte :: "record_tag \<Rightarrow> u8" where
  "record_tag_byte TagInt = 0x01"
| "record_tag_byte TagUint = 0x02"
| "record_tag_byte TagFloat = 0x03"
| "record_tag_byte TagString = 0x04"
| "record_tag_byte TagBlob = 0x05"
| "record_tag_byte TagArray = 0x06"
| "record_tag_byte TagGroup = 0x07"
| "record_tag_byte TagKeyval = 0x08"

definition record_tag_of_byte :: "u8 \<Rightarrow> record_tag option" where
  "record_tag_of_byte b =
     (if b = 0x01 then Some TagInt else if b = 0x02 then Some TagUint
      else if b = 0x03 then Some TagFloat else if b = 0x04 then Some TagString
      else if b = 0x05 then Some TagBlob else if b = 0x06 then Some TagArray
      else if b = 0x07 then Some TagGroup else if b = 0x08 then Some TagKeyval
      else None)"

fun tag_name :: "record_tag \<Rightarrow> string" where
  "tag_name TagInt = ''INT''"
| "tag_name TagUint = ''UINT''"
| "tag_name TagFloat = ''FLOAT''"
| "tag_name TagString = ''STRING''"
| "tag_name TagBlob = ''BLOB''"
| "tag_name TagArray = ''ARRAY''"
| "tag_name TagGroup = ''GROUP''"
| "tag_name TagKeyval = ''KEYVAL''"

datatype section_type = SecFree | SecData | SecMetadata | SecIndex | SecStrings

fun section_type_value :: "section_type \<Rightarrow> u16" where
  "section_type_value SecFree = 0"
| "section_type_value SecData = 1"
| "section_type_value SecMetadata = 2"
| "section_type_value SecIndex = 3"
| "section_type_value SecStrings = 4"

definition section_type_of :: "u16 \<Rightarrow> section_type option" where
  "section_type_of raw =
     (if raw = 0 then Some SecFree else if raw = 1 then Some SecData
      else if raw = 2 then Some SecMetadata else if raw = 3 then Some SecIndex
      else if raw = 4 then Some SecStrings else None)"

fun section_type_name :: "section_type \<Rightarrow> string" where
  "section_type_name SecFree = ''FREE''"
| "section_type_name SecData = ''DATA''"
| "section_type_name SecMetadata = ''METADATA''"
| "section_type_name SecIndex = ''INDEX''"
| "section_type_name SecStrings = ''STRINGS''"

section \<open>Records, sections, containers\<close>

datatype bp_record = BpRecord
  (rc_tag: record_tag) (rc_group: bool) (rc_i64: i64) (rc_u64: u64) (rc_f64: u64)
  (rc_str: string) (rc_blob: bytes) (rc_children: "bp_record list") (rc_key: string)

record bp_section =
  bs_type :: section_type
  bs_id :: u16
  bs_flags :: u16
  bs_offset :: u32
  bs_length :: u32
  bs_item_count :: u32
  bs_crc32_stored :: u32
  bs_body_checksum_ok :: bool
  bs_records :: "bp_record list"

record bp_container =
  bc_version :: u16
  bc_flags :: u16
  bc_section_count :: u16
  bc_has_metadata :: bool
  bc_has_trailer_crc :: bool
  bc_header_checksum_ok :: bool
  bc_trailer_checksum_ok :: bool
  bc_checksum_ok :: bool
  bc_sections :: "bp_section list"
  bc_metadata :: "(string \<times> bp_record) list"

record bp_options =
  bo_strict :: bool
  bo_max_depth :: nat

definition bp_default_options :: bp_options where
  "bp_default_options = \<lparr>bo_strict = False, bo_max_depth = 32\<rparr>"

section \<open>Wire values\<close>

lemma record_tag_of_tag_byte [simp]: "record_tag_of_byte (record_tag_byte t) = Some t"
  by (cases t) (simp_all add: record_tag_of_byte_def)

lemma record_tag_of_byte_Some: "record_tag_of_byte b = Some t \<longleftrightarrow> b = record_tag_byte t"
  by (cases t) (auto simp: record_tag_of_byte_def)

lemma section_type_of_value [simp]: "section_type_of (section_type_value t) = Some t"
  by (cases t) (simp_all add: section_type_of_def)

lemma section_type_of_Some: "section_type_of v = Some t \<longleftrightarrow> v = section_type_value t"
  by (cases t) (auto simp: section_type_of_def)

end
