(* ===== verification/Bp_Record.thy ===== *)
theory Bp_Record
  imports Bp_Model
begin

text \<open>
  \<^verbatim>\<open>RecordParser\<close> (\<^verbatim>\<open>include/binpack/record_parser.hpp\<close>, \<^verbatim>\<open>src/binpack/record_parser.cpp\<close>). A
  parser object is its depth limit and the absolute offset of its reader, so \<^verbatim>\<open>parse_record\<close> takes
  both; the recursion of \<^verbatim>\<open>parse_record\<close> and \<^verbatim>\<open>parse_payload\<close> is the recursion of \<open>bp_parse_record\<close>
  through \<open>parse_payload\<close>, whose argument is the parser of the children. The locale \<open>advancing_op\<close>
  states what the loop over a stream needs of the operation it repeats.
\<close>

unbundle bit_operations_syntax

section \<open>Loops\<close>

text \<open>
  \<^verbatim>\<open>parse_stream\<close>: records until the reader is empty. The loop is indexed by the bytes that remain,
  which bound its iterations since every record consumes some (lemma \<open>stream_unfold\<close>).
\<close>

fun read_until_eof :: "nat \<Rightarrow> 'a rd \<Rightarrow> 'a list rd" where
  "read_until_eof 0 oper r = Inr ([], r)"
| "read_until_eof (Suc n) oper r =
     (if rd_eof r then Inr ([], r)
      else rd_bind oper (\<lambda>x. rd_bind (read_until_eof n oper) (\<lambda>xs. rd_return (x # xs))) r)"

definition parse_stream :: "'a rd \<Rightarrow> 'a list rd" where
  "parse_stream oper r = read_until_eof (rd_remaining r) oper r"

text \<open>The loop of an array: exactly as many records as were announced.\<close>

fun read_times :: "nat \<Rightarrow> 'a rd \<Rightarrow> 'a list rd" where
  "read_times 0 oper = rd_return []"
| "read_times (Suc n) oper =
     rd_bind oper (\<lambda>x. rd_bind (read_times n oper) (\<lambda>xs. rd_return (x # xs)))"

section \<open>Records\<close>

definition f64_bits :: "bytes \<Rightarrow> u64" where
  "f64_bits p = fold (\<lambda>i bits. bits OR push_bit (8 * i) (ucast (p ! i))) [0..<8] 0"

definition parse_payload :: "bp_record rd \<Rightarrow> nat \<Rightarrow> record_tag \<Rightarrow> bool \<Rightarrow> bp_record rd" where
  "parse_payload child base tag grp =
     (case tag of
        TagInt \<Rightarrow> rd_bind read_svarint (\<lambda>v. rd_return (BpRecord tag grp v 0 0 [] [] [] []))
      | TagUint \<Rightarrow> rd_bind read_varint (\<lambda>v. rd_return (BpRecord tag grp 0 v 0 [] [] [] []))
      | TagFloat \<Rightarrow> rd_bind (read_raw 8) (\<lambda>p.
          rd_return (BpRecord tag grp 0 0 (f64_bits p) [] [] [] []))
      | TagString \<Rightarrow> (\<lambda>r. rd_bind (read_string (rd_remaining r)) (\<lambda>s.
          rd_return (BpRecord tag grp 0 0 0 s [] [] [])) r)
      | TagBlob \<Rightarrow> (\<lambda>r. rd_bind (read_bytes (rd_remaining r)) (\<lambda>bs.
          rd_return (BpRecord tag grp 0 0 0 [] bs [] [])) r)
      | TagArray \<Rightarrow> rd_bind read_varint (\<lambda>count.
          rd_bind (read_times (unat count) child) (\<lambda>cs.
          rd_return (BpRecord tag grp 0 0 0 [] [] cs [])))
      | TagGroup \<Rightarrow> rd_bind (parse_stream child) (\<lambda>cs.
          rd_return (BpRecord tag grp 0 0 0 [] [] cs []))
      | TagKeyval \<Rightarrow> rd_bind read_varint (\<lambda>key_len.
          rd_bind (read_string (unat key_len)) (\<lambda>key.
          rd_bind child (\<lambda>v r.
            if rd_eof r then Inr (BpRecord tag grp 0 0 0 [] [] [v] key, r)
            else rd_throw kBadLength (base + rd_pos r) ''trailing bytes after keyval value'' r))))"

function bp_parse_record :: "nat \<Rightarrow> nat \<Rightarrow> nat \<Rightarrow> bp_record rd" where
  "bp_parse_record max_depth base depth =
     (if max_depth < depth
      then (\<lambda>r. rd_throw kDepthExceeded (base + rd_pos r) ''record nesting exceeded max depth'' r)
      else (\<lambda>r0. rd_bind read_u8 (\<lambda>tag_byte. rd_bind read_u8 (\<lambda>flags.
        case record_tag_of_byte tag_byte of
          None \<Rightarrow> rd_throw kBadType (base + rd_pos r0) ''unknown record tag''
        | Some tag \<Rightarrow> rd_bind read_varint (\<lambda>len r.
            let payload_off = rd_pos r in
            rd_bind (read_raw (unat len)) (\<lambda>payload r'.
              bindE (parse_payload (bp_parse_record max_depth (base + payload_off) (depth + 1))
                       (base + payload_off) tag (flags AND 1 \<noteq> 0) (byte_reader_new payload))
                (\<lambda>(rec, _). Inr (rec, r'))) r))) r0))"
  by pat_completeness auto
termination
  by (relation "measure (\<lambda>(m, b, d). Suc m - d)") auto

declare bp_parse_record.simps [simp del]

section \<open>The repeated operation\<close>

text \<open>
  What the loops need of the operation they repeat: it keeps the buffer, consumes at least one byte,
  stays inside, and reports errors inside the span that starts at \<open>base\<close>.
\<close>

locale advancing_op =
  fixes oper :: "'a rd" and base :: nat
  assumes kept: "oper r = Inr (v, r') \<Longrightarrow> rd_data r' = rd_data r"
    and moves: "oper r = Inr (v, r') \<Longrightarrow> rd_pos r < rd_pos r'"
    and stays: "wf_rd r \<Longrightarrow> oper r = Inr (v, r') \<Longrightarrow> wf_rd r'"
    and error_at: "wf_rd r \<Longrightarrow> oper r = Inl e \<Longrightarrow> err_offset e \<le> base + length (rd_data r)"
begin

lemma shrinks: "wf_rd r \<Longrightarrow> oper r = Inr (v, r') \<Longrightarrow> rd_remaining r' < rd_remaining r"
  using kept [of r v r'] moves [of r v r'] stays [of r v r'] by (simp add: rd_remaining_wf wf_rd_def)

lemma enough_fuel:
  "wf_rd r \<Longrightarrow> rd_remaining r \<le> n \<Longrightarrow> read_until_eof n oper r = read_until_eof (rd_remaining r) oper r"
proof (induction n arbitrary: r rule: less_induct)
  case (less n)
  show ?case
  proof (cases "rd_eof r")
    case True
    then show ?thesis by (cases n) (simp_all add: rd_eof_iff)
  next
    case False
    then obtain k m where km: "n = Suc k" "rd_remaining r = Suc m"
      using less.prems(2) by (cases n; cases "rd_remaining r") (auto simp: rd_eof_iff)
    show ?thesis
    proof (cases "oper r")
      case (Inl e)
      then show ?thesis using False by (simp add: km rd_bind_def)
    next
      case (Inr xr)
      obtain x r1 where xr: "xr = (x, r1)" by (cases xr)
      have wf: "wf_rd r1" using stays less.prems(1) Inr xr by blast
      have "rd_remaining r1 \<le> m" using shrinks [OF less.prems(1)] Inr xr km(2) by fastforce
      then have "read_until_eof m oper r1 = read_until_eof k oper r1"
        using less.IH [of k r1] less.IH [of m r1] wf less.prems(2) km by simp
      then show ?thesis using False Inr xr by (simp add: km rd_bind_def)
    qed
  qed
qed

text \<open>The loop as the code has it: it ends because \<open>oper\<close> advances, and no iteration is cut off.\<close>

lemma stream_unfold:
  assumes "wf_rd r"
  shows "parse_stream oper r =
     (if rd_eof r then Inr ([], r)
      else rd_bind oper (\<lambda>x. rd_bind (parse_stream oper) (\<lambda>xs. rd_return (x # xs))) r)"
proof (cases "rd_eof r")
  case True
  then show ?thesis by (simp add: parse_stream_def rd_eof_iff)
next
  case False
  then obtain m where m: "rd_remaining r = Suc m" by (cases "rd_remaining r") (auto simp: rd_eof_iff)
  show ?thesis
  proof (cases "oper r")
    case (Inl e)
    then show ?thesis using False by (simp add: parse_stream_def m rd_bind_def)
  next
    case (Inr xr)
    obtain x r1 where xr: "xr = (x, r1)" by (cases xr)
    have "read_until_eof m oper r1 = parse_stream oper r1"
      using enough_fuel [of r1 m] stays [OF assms] shrinks [OF assms] Inr xr m
      by (fastforce simp: parse_stream_def)
    then show ?thesis using False Inr xr by (simp add: parse_stream_def [of oper r] m rd_bind_def)
  qed
qed

lemma until_eof_ok:
  "wf_rd r \<Longrightarrow> read_until_eof n oper r = Inr (xs, r') \<Longrightarrow> wf_rd r' \<and> rd_data r' = rd_data r"
proof (induction n arbitrary: r xs)
  case (Suc n)
  then show ?case
    using stays kept by (fastforce simp: rd_bind_def bindE_eq_Inr rd_return_def split: if_splits)
qed simp

lemma until_eof_error:
  "wf_rd r \<Longrightarrow> read_until_eof n oper r = Inl e \<Longrightarrow> err_offset e \<le> base + length (rd_data r)"
proof (induction n arbitrary: r)
  case (Suc n)
  show ?case
  proof (cases "oper r")
    case (Inl e')
    then show ?thesis using Suc.prems error_at by (auto simp: rd_bind_def split: if_splits)
  next
    case (Inr xr)
    obtain x r1 where xr: "xr = (x, r1)" by (cases xr)
    have "read_until_eof n oper r1 = Inl e"
      using Suc.prems(2) Inr xr by (auto simp: rd_bind_def bindE_eq_Inl rd_return_def split: if_splits)
    then show ?thesis using Suc.IH [of r1] stays [OF Suc.prems(1)] kept Inr xr by fastforce
  qed
qed simp

lemma times_ok:
  "wf_rd r \<Longrightarrow> read_times n oper r = Inr (xs, r') \<Longrightarrow> wf_rd r' \<and> rd_data r' = rd_data r \<and> length xs = n"
proof (induction n arbitrary: r xs)
  case 0
  then show ?case by (simp add: rd_return_def)
next
  case (Suc n)
  then show ?case
    using stays kept by (fastforce simp: rd_bind_def bindE_eq_Inr rd_return_def)
qed

lemma times_error:
  "wf_rd r \<Longrightarrow> read_times n oper r = Inl e \<Longrightarrow> err_offset e \<le> base + length (rd_data r)"
proof (induction n arbitrary: r)
  case 0
  then show ?case by (simp add: rd_return_def)
next
  case (Suc n)
  show ?case
  proof (cases "oper r")
    case (Inl e')
    then show ?thesis using Suc.prems error_at by (auto simp: rd_bind_def)
  next
    case (Inr xr)
    obtain x r1 where xr: "xr = (x, r1)" by (cases xr)
    have "read_times n oper r1 = Inl e"
      using Suc.prems(2) Inr xr by (auto simp: rd_bind_def bindE_eq_Inl rd_return_def)
    then show ?thesis using Suc.IH [of r1] stays [OF Suc.prems(1)] kept Inr xr by fastforce
  qed
qed

end

section \<open>One record\<close>

lemma read_raw_ok:
  assumes "wf_rd r" and "read_raw n r = Inr (bs, r')"
  shows "length bs = n" and "rd_pos r + n \<le> length (rd_data r)" and "rd_pos r' = rd_pos r + n"
  using assms
  by (auto simp: read_raw_def rd_bind_def require_def rd_take_def rd_advance_def rd_remaining_wf wf_rd_def
      split: if_splits)

text \<open>How a record is read: its header, and the payload inside exactly the announced bytes.\<close>

lemma bp_parse_record_ok:
  assumes "bp_parse_record m b d r = Inr (rec, r')"
  obtains tag r1 flags r2 len r3 payload r4 where
    "d \<le> m" and "read_u8 r = Inr (record_tag_byte tag, r1)" and "read_u8 r1 = Inr (flags, r2)"
    and "read_varint r2 = Inr (len, r3)" and "read_raw (unat len) r3 = Inr (payload, r')"
    and "parse_payload (bp_parse_record m (b + rd_pos r3) (d + 1)) (b + rd_pos r3) tag (flags AND 1 \<noteq> 0)
           (byte_reader_new payload) = Inr (rec, r4)"
  using assms
  by (auto simp: bp_parse_record.simps [of m b d] rd_bind_def bindE_eq_Inr rd_throw_def Let_def
      record_tag_of_byte_Some split: if_splits option.splits)

lemma bp_parse_record_error:
  assumes "bp_parse_record m b d r = Inl e"
  obtains (depth) "m < d" and "e = ParseError kDepthExceeded (b + rd_pos r) ''record nesting exceeded max depth''"
  | (tag) "read_u8 r = Inl e"
  | (flags) x r1 where "read_u8 r = Inr (x, r1)" and "read_u8 r1 = Inl e"
  | (kind) x r1 where "read_u8 r = Inr (x, r1)" and "e = ParseError kBadType (b + rd_pos r) ''unknown record tag''"
  | (len) x r1 y r2 where "read_u8 r = Inr (x, r1)" and "read_u8 r1 = Inr (y, r2)" and "read_varint r2 = Inl e"
  | (raw) x r1 y r2 n r3 where "read_u8 r = Inr (x, r1)" and "read_u8 r1 = Inr (y, r2)"
      and "read_varint r2 = Inr (n, r3)" and "read_raw (unat n) r3 = Inl e"
  | (payload) tag r1 y r2 n r3 bs r4 where "d \<le> m" and "read_u8 r = Inr (record_tag_byte tag, r1)"
      and "read_u8 r1 = Inr (y, r2)" and "read_varint r2 = Inr (n, r3)" and "read_raw (unat n) r3 = Inr (bs, r4)"
      and "parse_payload (bp_parse_record m (b + rd_pos r3) (d + 1)) (b + rd_pos r3) tag (y AND 1 \<noteq> 0)
             (byte_reader_new bs) = Inl e"
proof (cases "m < d")
  case True
  with assms show ?thesis by (intro that(1)) (simp_all add: bp_parse_record.simps [of m b d] rd_throw_def)
next
  case False
  note unfolded = assms [unfolded bp_parse_record.simps [of m b d] if_not_P [OF False]]
  show ?thesis
  proof (cases "read_u8 r")
    case (Inl e')
    with unfolded show ?thesis by (intro that(2)) (simp add: rd_bind_def)
  next
    case (Inr p1)
    obtain x r1 where 1: "read_u8 r = Inr (x, r1)" using Inr by (cases p1) simp
    show ?thesis
    proof (cases "read_u8 r1")
      case (Inl e')
      with unfolded 1 show ?thesis by (intro that(3) [OF 1]) (simp add: rd_bind_def)
    next
      case (Inr p2)
      then obtain y r2 where 2: "read_u8 r1 = Inr (y, r2)" by (cases p2) simp
      show ?thesis
      proof (cases "record_tag_of_byte x")
        case None
        with unfolded 1 2 show ?thesis by (intro that(4) [OF 1]) (simp add: rd_bind_def rd_throw_def)
      next
        case (Some tag)
        then have x: "x = record_tag_byte tag" by (simp add: record_tag_of_byte_Some)
        show ?thesis
        proof (cases "read_varint r2")
          case (Inl e')
          with unfolded 1 2 Some show ?thesis by (intro that(5) [OF 1 2]) (simp add: rd_bind_def)
        next
          case (Inr p3)
          then obtain n r3 where 3: "read_varint r2 = Inr (n, r3)" by (cases p3) simp
          show ?thesis
          proof (cases "read_raw (unat n) r3")
            case (Inl e')
            with unfolded 1 2 3 Some show ?thesis
              by (intro that(6) [OF 1 2 3]) (simp add: rd_bind_def Let_def)
          next
            case (Inr p4)
            then obtain bs r4 where 4: "read_raw (unat n) r3 = Inr (bs, r4)" by (cases p4) simp
            show ?thesis
              using unfolded 1 2 3 4 Some False
              by (intro that(7) [OF _ 1 [unfolded x] 2 3 4]) (auto simp: rd_bind_def Let_def bindE_eq_Inl)
          qed
        qed
      qed
    qed
  qed
qed

lemma parse_payload_error:
  assumes child: "advancing_op child base" and wf: "wf_rd r"
    and e: "parse_payload child base tag grp r = Inl e"
  shows "err_offset e \<le> base + length (rd_data r)"
proof (cases tag)
  case TagInt
  then show ?thesis using e svarint_op.error_inside [OF wf]
    by (fastforce simp: parse_payload_def rd_bind_def bindE_eq_Inl rd_return_def)
next
  case TagUint
  then show ?thesis using e varint_op.error_inside [OF wf]
    by (fastforce simp: parse_payload_def rd_bind_def bindE_eq_Inl rd_return_def)
next
  case TagFloat
  then show ?thesis using e raw_op.error_inside [OF wf]
    by (fastforce simp: parse_payload_def rd_bind_def bindE_eq_Inl rd_return_def)
next
  case TagString
  then show ?thesis using e string_op.error_inside [OF wf]
    by (fastforce simp: parse_payload_def rd_bind_def bindE_eq_Inl rd_return_def)
next
  case TagBlob
  then show ?thesis using e bytes_op.error_inside [OF wf]
    by (fastforce simp: parse_payload_def rd_bind_def bindE_eq_Inl rd_return_def)
next
  case TagArray
  show ?thesis
  proof (cases "read_varint r")
    case (Inl e')
    then show ?thesis using TagArray e varint_op.error_inside [OF wf Inl]
      by (simp add: parse_payload_def rd_bind_def)
  next
    case (Inr p)
    then obtain n r1 where 1: "read_varint r = Inr (n, r1)" by (cases p) simp
    then have "read_times (unat n) child r1 = Inl e"
      using TagArray e by (auto simp: parse_payload_def rd_bind_def bindE_eq_Inl rd_return_def)
    then show ?thesis
      using advancing_op.times_error [OF child varint_op.stays_inside [OF wf 1]]
        varint_op.data_kept [OF 1] by fastforce
  qed
next
  case TagGroup
  then have "parse_stream child r = Inl e"
    using e by (auto simp: parse_payload_def rd_bind_def bindE_eq_Inl rd_return_def)
  then show ?thesis using advancing_op.until_eof_error [OF child wf] by (simp add: parse_stream_def)
next
  case TagKeyval
  show ?thesis
  proof (cases "read_varint r")
    case (Inl e')
    then show ?thesis using TagKeyval e varint_op.error_inside [OF wf Inl]
      by (simp add: parse_payload_def rd_bind_def)
  next
    case (Inr p)
    then obtain n r1 where 1: "read_varint r = Inr (n, r1)" by (cases p) simp
    note wf1 = varint_op.stays_inside [OF wf 1] and d1 = varint_op.data_kept [OF 1]
    show ?thesis
    proof (cases "read_string (unat n) r1")
      case (Inl e')
      then show ?thesis using TagKeyval e string_op.error_inside [OF wf1 Inl] 1 d1
        by (simp add: parse_payload_def rd_bind_def)
    next
      case (Inr p2)
      then obtain k r2 where 2: "read_string (unat n) r1 = Inr (k, r2)" by (cases p2) simp
      note wf2 = string_op.stays_inside [OF wf1 2] and d2 = string_op.data_kept [OF 2]
      show ?thesis
      proof (cases "child r2")
        case (Inl e')
        then show ?thesis using TagKeyval e advancing_op.error_at [OF child wf2 Inl] 1 2 d1 d2
          by (simp add: parse_payload_def rd_bind_def)
      next
        case (Inr p3)
        then obtain v r3 where 3: "child r2 = Inr (v, r3)" by (cases p3) simp
        show ?thesis
          using TagKeyval e 1 2 3 d1 d2 advancing_op.stays [OF child wf2 3] advancing_op.kept [OF child 3]
          by (auto simp: parse_payload_def rd_bind_def rd_throw_def wf_rd_def split: if_splits)
      qed
    qed
  qed
qed

lemma bp_parse_record_advances: "advancing_op (bp_parse_record m b d) b"
proof (induction "Suc m - d" arbitrary: b d rule: less_induct)
  case less
  show ?case
  proof
    fix r rec r'
    assume "bp_parse_record m b d r = Inr (rec, r')"
    then obtain tag r1 flags r2 len r3 payload r4 where
      steps: "read_u8 r = Inr (record_tag_byte tag, r1)" "read_u8 r1 = Inr (flags, r2)"
        "read_varint r2 = Inr (len, r3)" "read_raw (unat len) r3 = Inr (payload, r')"
      by (rule bp_parse_record_ok)
    show "rd_data r' = rd_data r"
      using u8_op.data_kept [OF steps(1)] u8_op.data_kept [OF steps(2)] varint_op.data_kept [OF steps(3)]
        raw_op.data_kept [OF steps(4)] by simp
    show "rd_pos r < rd_pos r'"
      using u8_op.advances [OF steps(1)] u8_op.advances [OF steps(2)] varint_op.advances [OF steps(3)]
        raw_op.never_back [OF steps(4)] by simp
    show "wf_rd r'" if "wf_rd r"
      using that steps u8_op.stays_inside varint_op.stays_inside raw_op.stays_inside by blast
  next
    fix r e
    assume wf: "wf_rd r" and fails: "bp_parse_record m b d r = Inl e"
    from fails show "err_offset e \<le> b + length (rd_data r)"
    proof (cases rule: bp_parse_record_error)
      case depth
      then show ?thesis using wf by (simp add: wf_rd_def)
    next
      case tag
      then show ?thesis using u8_op.error_inside [OF wf] by fastforce
    next
      case (flags x r1)
      then show ?thesis
        using u8_op.error_inside [OF u8_op.stays_inside [OF wf flags(1)] flags(2)] u8_op.data_kept [OF flags(1)]
        by simp
    next
      case (kind x r1)
      then show ?thesis using wf by (simp add: wf_rd_def)
    next
      case (len x r1 y r2)
      then show ?thesis
        using varint_op.error_inside [OF u8_op.stays_inside [OF u8_op.stays_inside [OF wf len(1)] len(2)] len(3)]
          u8_op.data_kept [OF len(1)] u8_op.data_kept [OF len(2)] by simp
    next
      case (raw x r1 y r2 n r3)
      then have "wf_rd r3" "rd_data r3 = rd_data r"
        using wf u8_op.stays_inside varint_op.stays_inside u8_op.data_kept varint_op.data_kept by metis+
      then show ?thesis using raw_op.error_inside [OF _ raw(4)] by simp
    next
      case (payload tag r1 y r2 n r3 bs r4)
      then have r3: "wf_rd r3" "rd_data r3 = rd_data r"
        using wf u8_op.stays_inside varint_op.stays_inside u8_op.data_kept varint_op.data_kept by metis+
      have child: "advancing_op (bp_parse_record m (b + rd_pos r3) (d + 1)) (b + rd_pos r3)"
        using payload(1) by (intro less) simp
      have "err_offset e \<le> b + rd_pos r3 + length bs"
        using parse_payload_error [OF child _ payload(6)] by (simp add: byte_reader_new_def wf_rd_def)
      then show ?thesis using read_raw_ok [OF r3(1) payload(5)] r3(2) by simp
    qed
  qed
qed

interpretation record_op: advancing_op "bp_parse_record m b d" b for m b d
  by (rule bp_parse_record_advances)

end
