(* ===== verification/Bp_Shape.thy ===== *)
theory Bp_Shape
  imports Bp_Record
begin

text \<open>
  What the record decoder delivers: a decoded record uses exactly the members its tag selects, a
  key/value record has exactly one child, and no record is nested deeper than the limit allows; and
  which errors decoding can throw.
\<close>

section \<open>Decoded records\<close>

text \<open>\<open>rec_ok n rec\<close>: \<open>rec\<close> is shaped as its tag says and at most \<open>n\<close> levels are nested in it.\<close>

fun rec_ok :: "nat \<Rightarrow> bp_record \<Rightarrow> bool" where
  "rec_ok n (BpRecord t g i u f s bs cs k) \<longleftrightarrow>
     (case t of
        TagInt \<Rightarrow> u = 0 \<and> f = 0 \<and> s = [] \<and> bs = [] \<and> cs = [] \<and> k = []
      | TagUint \<Rightarrow> i = 0 \<and> f = 0 \<and> s = [] \<and> bs = [] \<and> cs = [] \<and> k = []
      | TagFloat \<Rightarrow> i = 0 \<and> u = 0 \<and> s = [] \<and> bs = [] \<and> cs = [] \<and> k = []
      | TagString \<Rightarrow> i = 0 \<and> u = 0 \<and> f = 0 \<and> bs = [] \<and> cs = [] \<and> k = []
      | TagBlob \<Rightarrow> i = 0 \<and> u = 0 \<and> f = 0 \<and> s = [] \<and> cs = [] \<and> k = []
      | TagArray \<Rightarrow> i = 0 \<and> u = 0 \<and> f = 0 \<and> s = [] \<and> bs = [] \<and> k = []
      | TagGroup \<Rightarrow> i = 0 \<and> u = 0 \<and> f = 0 \<and> s = [] \<and> bs = [] \<and> k = []
      | TagKeyval \<Rightarrow> i = 0 \<and> u = 0 \<and> f = 0 \<and> s = [] \<and> bs = [] \<and> length cs = 1) \<and>
     (\<forall>c \<in> set cs. 0 < n \<and> rec_ok (n - 1) c)"

lemma until_eof_all:
  assumes "\<forall>a x b. oper a = Inr (x, b) \<longrightarrow> P x"
  shows "read_until_eof n oper r = Inr (xs, r') \<Longrightarrow> x \<in> set xs \<Longrightarrow> P x"
  by (induction n arbitrary: r xs)
    (auto simp: rd_bind_def bindE_eq_Inr rd_return_def assms split: if_splits)

lemma times_all:
  assumes "\<forall>a x b. oper a = Inr (x, b) \<longrightarrow> P x"
  shows "read_times n oper r = Inr (xs, r') \<Longrightarrow> x \<in> set xs \<Longrightarrow> P x"
  by (induction n arbitrary: r xs) (auto simp: rd_bind_def bindE_eq_Inr rd_return_def assms)

lemma parse_payload_shape:
  assumes p: "parse_payload child base t g r = Inr (rec, r')"
    and c: "\<And>a x b. child a = Inr (x, b) \<Longrightarrow> 0 < n \<and> rec_ok (n - 1) x"
  shows "rec_ok n rec"
proof -
  let ?P = "\<lambda>x. 0 < n \<and> rec_ok (n - 1) x"
  show ?thesis
  proof (cases t)
    case TagArray
    then obtain cs k r1 where rec: "rec = BpRecord t g 0 0 0 [] [] cs []" and "read_times k child r1 = Inr (cs, r')"
      using p by (auto simp: parse_payload_def rd_bind_def bindE_eq_Inr rd_return_def)
    then have "\<forall>x \<in> set cs. ?P x" using times_all [where oper = child and P = ?P] c by blast
    then show ?thesis using TagArray rec by simp
  next
    case TagGroup
    then obtain cs k where rec: "rec = BpRecord t g 0 0 0 [] [] cs []" and "read_until_eof k child r = Inr (cs, r')"
      using p by (auto simp: parse_payload_def rd_bind_def bindE_eq_Inr rd_return_def parse_stream_def)
    then have "\<forall>x \<in> set cs. ?P x" using until_eof_all [where oper = child and P = ?P] c by blast
    then show ?thesis using TagGroup rec by simp
  next
    case TagKeyval
    then obtain v k where "rec = BpRecord t g 0 0 0 [] [] [v] k" and "0 < n \<and> rec_ok (n - 1) v"
      using p c by (auto simp: parse_payload_def rd_bind_def bindE_eq_Inr rd_throw_def split: if_splits)
    then show ?thesis using TagKeyval by simp
  qed (use p in \<open>auto simp: parse_payload_def rd_bind_def bindE_eq_Inr rd_return_def\<close>)
qed

lemma bp_parse_record_shape: "bp_parse_record m b d r = Inr (rec, r') \<Longrightarrow> rec_ok (m - d) rec"
proof (induction "Suc m - d" arbitrary: b d r rec r' rule: less_induct)
  case less
  from less.prems obtain tag r1 flags r2 len r3 payload r4 where d: "d \<le> m"
    and "read_u8 r = Inr (record_tag_byte tag, r1)" and "read_u8 r1 = Inr (flags, r2)"
    and "read_varint r2 = Inr (len, r3)" and "read_raw (unat len) r3 = Inr (payload, r')"
    and p: "parse_payload (bp_parse_record m (b + rd_pos r3) (d + 1)) (b + rd_pos r3) tag (flags AND 1 \<noteq> 0)
      (byte_reader_new payload) = Inr (rec, r4)"
    by (rule bp_parse_record_ok)
  show ?case
  proof (rule parse_payload_shape [OF p])
    fix c x y
    assume c: "bp_parse_record m (b + rd_pos r3) (d + 1) x = Inr (c, y)"
    then have "d + 1 \<le> m" by (auto elim: bp_parse_record_ok)
    then show "0 < m - d \<and> rec_ok (m - d - 1) c" using less.hyps [OF _ c] d by simp
  qed
qed

lemma parse_stream_shape:
  "parse_stream (bp_parse_record m b 0) r = Inr (recs, r') \<Longrightarrow> rec \<in> set recs \<Longrightarrow> rec_ok m rec"
  unfolding parse_stream_def
  by (rule until_eof_all [where P = "rec_ok m"]) (auto dest: bp_parse_record_shape)

section \<open>Errors\<close>

definition record_errors :: "error_code set" where
  "record_errors = {kShortRead, kBadLength, kBadType, kDepthExceeded}"

lemma throws_only_mono: "throws_only C m \<Longrightarrow> C \<subseteq> D \<Longrightarrow> throws_only D m"
  by (auto simp: throws_only_def)

lemma record_errors_read: "throws_only read_errors m \<Longrightarrow> throws_only record_errors m"
  by (rule throws_only_mono) (auto simp: read_errors_def record_errors_def)

lemma throws_only_until_eof: "throws_only C oper \<Longrightarrow> throws_only C (read_until_eof n oper)"
proof (induction n)
  case (Suc n)
  then have "throws_only C (rd_bind oper (\<lambda>x. rd_bind (read_until_eof n oper) (\<lambda>xs. rd_return (x # xs))))"
    by (intro throws_basics) simp_all
  then show ?case by (simp add: throws_only_def)
qed (simp add: throws_only_def)

lemma throws_only_times: "throws_only C oper \<Longrightarrow> throws_only C (read_times n oper)"
  by (induction n) (simp_all add: throws_basics)

lemmas record_throws =
  throws_basics throws_only_throw throws_only_fixed [OF read_raw_def] throws_only_varint

lemma throws_only_at: "(\<And>r. throws_only C (m r)) \<Longrightarrow> throws_only C (\<lambda>r. m r r)"
  by (auto simp: throws_only_def)

lemma throws_only_payload:
  assumes "throws_only record_errors child"
  shows "throws_only record_errors (parse_payload child base t g)"
proof -
  have stream: "throws_only record_errors (parse_stream child)"
    using throws_only_until_eof [OF assms] by (simp add: throws_only_def parse_stream_def)
  have keyval: "throws_only record_errors (\<lambda>r. if rd_eof r then Inr (x, r)
      else rd_throw kBadLength (base + rd_pos r) w r)" for x :: bp_record and w
    by (simp add: throws_only_def rd_throw_def record_errors_def)
  have reads: "throws_only record_errors read_varint" "throws_only record_errors (read_raw n)"
    "throws_only record_errors (read_string n)" "throws_only record_errors (read_bytes n)" for n
    by (intro record_errors_read throws_only_varint throws_only_fixed [OF read_raw_def]
        throws_only_fixed [OF read_string_def] throws_only_fixed [OF read_bytes_def])+
  have whole: "throws_only record_errors (\<lambda>r. rd_bind (read_string (rd_remaining r)) k r)"
    "throws_only record_errors (\<lambda>r. rd_bind (read_bytes (rd_remaining r)) k' r)"
    if "\<And>v. throws_only record_errors (k v)" "\<And>v. throws_only record_errors (k' v)"
    for k :: "string \<Rightarrow> bp_record rd" and k' :: "bytes \<Rightarrow> bp_record rd"
    by (rule throws_only_at, intro throws_only_bind reads that)+
  show ?thesis
  proof (cases t)
    case TagString
    then show ?thesis by (simp add: parse_payload_def whole(1) [OF throws_only_return throws_only_return])
  next
    case TagBlob
    then show ?thesis by (simp add: parse_payload_def whole(2) [OF throws_only_return throws_only_return])
  qed (simp_all add: parse_payload_def read_svarint_def throws_only_bind throws_only_return reads
      throws_only_times assms stream keyval)
qed

lemma throws_only_parse_record: "throws_only record_errors (bp_parse_record m b d)"
proof (induction "Suc m - d" arbitrary: b d rule: less_induct)
  case less
  have codes: "kDepthExceeded \<in> record_errors" "kBadType \<in> record_errors" by (simp_all add: record_errors_def)
  show ?case
    unfolding throws_only_def
  proof (intro allI impI)
    fix r e
    assume "bp_parse_record m b d r = Inl e"
    then show "err_code e \<in> record_errors"
    proof (cases rule: bp_parse_record_error)
      case (payload t r1 y r2 n r3 bs r4)
      have "throws_only record_errors (bp_parse_record m (b + rd_pos r3) (d + 1))"
        using payload(1) by (intro less) simp
      from throws_only_payload [OF this] payload(6) show ?thesis by (auto simp: throws_only_def)
    next
      case (raw x r1 y r2 n r3)
      then show ?thesis
        using record_errors_read [OF throws_only_fixed [OF read_raw_def]] by (auto simp: throws_only_def)
    next
      case (len x r1 y r2)
      then show ?thesis using record_errors_read [OF throws_only_varint] by (auto simp: throws_only_def)
    qed (use codes record_errors_read [OF throws_only_fixed [OF read_u8_def]] in \<open>auto simp: throws_only_def\<close>)
  qed
qed

end
