(* ===== verification/Bp_Builder.thy ===== *)
theory Bp_Builder
  imports Bp_Shape Checksum
begin

text \<open>
  The encoding side of \<^verbatim>\<open>binpack\<close> (\<^verbatim>\<open>include/binpack/builder.hpp\<close>, \<^verbatim>\<open>src/binpack/builder.cpp\<close>):
  the record specifications with their factories, the record encoder, and the \<^verbatim>\<open>Builder\<close> with every
  call that changes it and \<^verbatim>\<open>build\<close>. The parallel vectors of the builder are kept the same length by
  its calls (\<open>builder_ok\<close>), so the loops over an index are loops over the zipped lists.
\<close>

unbundle bit_operations_syntax

section \<open>Record specifications\<close>

datatype record_spec = RecordSpec
  (sp_tag: record_tag) (sp_group: bool) (sp_i64: i64) (sp_u64: u64) (sp_f64: u64)
  (sp_str: string) (sp_blob: bytes) (sp_key: string) (sp_children: "record_spec list")

definition spec_Int :: "i64 \<Rightarrow> record_spec" where
  "spec_Int v = RecordSpec TagInt False v 0 0 [] [] [] []"

definition spec_Uint :: "u64 \<Rightarrow> record_spec" where
  "spec_Uint v = RecordSpec TagUint False 0 v 0 [] [] [] []"

definition spec_Float :: "u64 \<Rightarrow> record_spec" where
  "spec_Float v = RecordSpec TagFloat False 0 0 v [] [] [] []"

definition spec_String :: "string \<Rightarrow> record_spec" where
  "spec_String v = RecordSpec TagString False 0 0 0 v [] [] []"

definition spec_Blob :: "bytes \<Rightarrow> record_spec" where
  "spec_Blob v = RecordSpec TagBlob False 0 0 0 [] v [] []"

definition spec_Array :: "record_spec list \<Rightarrow> record_spec" where
  "spec_Array elems = RecordSpec TagArray False 0 0 0 [] [] [] elems"

definition spec_Group :: "record_spec list \<Rightarrow> record_spec" where
  "spec_Group recs = RecordSpec TagGroup True 0 0 0 [] [] [] recs"

definition spec_Keyval :: "string \<Rightarrow> record_spec \<Rightarrow> record_spec" where
  "spec_Keyval key v = RecordSpec TagKeyval False 0 0 0 [] [] key [v]"

section \<open>The record encoder\<close>

fun tag_byte :: "record_tag \<Rightarrow> u8" where
  "tag_byte TagInt = 0x01"
| "tag_byte TagUint = 0x02"
| "tag_byte TagFloat = 0x03"
| "tag_byte TagString = 0x04"
| "tag_byte TagBlob = 0x05"
| "tag_byte TagArray = 0x06"
| "tag_byte TagGroup = 0x07"
| "tag_byte TagKeyval = 0x08"

text \<open>The five lines that write a record around its payload, which the source repeats at each use.\<close>

definition put_record :: "byte_writer \<Rightarrow> record_tag \<Rightarrow> bool \<Rightarrow> bytes \<Rightarrow> byte_writer" where
  "put_record w t g payload =
     (let w = put_u8 w (tag_byte t);
          w = put_u8 w (if g then 0x01 else 0x00);
          w = put_varint w (of_nat (length payload))
      in put_bytes w payload)"

definition put_f64 :: "byte_writer \<Rightarrow> u64 \<Rightarrow> byte_writer" where
  "put_f64 w bits = fold (\<lambda>i w. put_u8 w (ucast (drop_bit (8 * i) bits))) [0..<8] w"

fun encode_payload_into :: "byte_writer \<Rightarrow> record_spec \<Rightarrow> byte_writer" where
  "encode_payload_into w (RecordSpec t g i u f s bs key cs) =
     (case t of
        TagInt \<Rightarrow> put_svarint w i
      | TagUint \<Rightarrow> put_varint w u
      | TagFloat \<Rightarrow> put_f64 w f
      | TagString \<Rightarrow> put_string w s
      | TagBlob \<Rightarrow> put_bytes w bs
      | TagArray \<Rightarrow>
          foldl (\<lambda>w c. put_record w (sp_tag c) (sp_group c) (encode_payload_into [] c))
            (put_varint w (of_nat (length cs))) cs
      | TagGroup \<Rightarrow>
          foldl (\<lambda>w c. put_record w (sp_tag c) (sp_group c) (encode_payload_into [] c)) w cs
      | TagKeyval \<Rightarrow>
          (let w = put_string (put_varint w (of_nat (length key))) key
           in case cs of
                [] \<Rightarrow> w
              | v # _ \<Rightarrow> put_record w (sp_tag v) (sp_group v) (encode_payload_into [] v)))"

definition encode_record_payload :: "record_spec \<Rightarrow> bytes" where
  "encode_record_payload rec = encode_payload_into [] rec"

definition encode_record :: "record_spec \<Rightarrow> bytes" where
  "encode_record rec = put_record [] (sp_tag rec) (sp_group rec) (encode_record_payload rec)"

section \<open>The builder\<close>

record section_spec =
  sc_type :: section_type
  sc_id :: u16
  sc_flags :: u16
  sc_item_count :: u32
  sc_records :: "record_spec list"

record builder =
  bb_version :: u16
  bb_has_metadata :: bool
  bb_has_trailer_crc :: bool
  bb_sections :: "section_spec list"
  bb_item_count_explicit :: "bool list"

definition builder_new :: builder where
  "builder_new = \<lparr>bb_version = 1, bb_has_metadata = False, bb_has_trailer_crc = False,
     bb_sections = [], bb_item_count_explicit = []\<rparr>"

definition set_version :: "u16 \<Rightarrow> builder \<Rightarrow> builder" where
  "set_version v b = b\<lparr>bb_version := v\<rparr>"

definition set_has_metadata :: "bool \<Rightarrow> builder \<Rightarrow> builder" where
  "set_has_metadata on b = b\<lparr>bb_has_metadata := on\<rparr>"

definition set_has_trailer_crc :: "bool \<Rightarrow> builder \<Rightarrow> builder" where
  "set_has_trailer_crc on b = b\<lparr>bb_has_trailer_crc := on\<rparr>"

definition add_section :: "section_type \<Rightarrow> u16 \<Rightarrow> u16 \<Rightarrow> builder \<Rightarrow> builder" where
  "add_section t sid flags b =
     (let s = \<lparr>sc_type = t, sc_id = sid, sc_flags = flags, sc_item_count = 0, sc_records = []\<rparr>
      in b\<lparr>bb_sections := bb_sections b @ [s],
           bb_item_count_explicit := bb_item_count_explicit b @ [False]\<rparr>)"

definition add_record :: "record_spec \<Rightarrow> builder \<Rightarrow> builder" where
  "add_record rec b =
     (if bb_sections b \<noteq> []
      then b\<lparr>bb_sections := butlast (bb_sections b) @
               [(last (bb_sections b))\<lparr>sc_records := sc_records (last (bb_sections b)) @ [rec]\<rparr>]\<rparr>
      else b)"

definition set_item_count :: "u32 \<Rightarrow> builder \<Rightarrow> builder" where
  "set_item_count n b =
     (if bb_sections b \<noteq> []
      then b\<lparr>bb_sections := butlast (bb_sections b) @ [(last (bb_sections b))\<lparr>sc_item_count := n\<rparr>],
             bb_item_count_explicit := butlast (bb_item_count_explicit b) @ [True]\<rparr>
      else b)"

definition builder_section_count :: "builder \<Rightarrow> nat" where
  "builder_section_count b = length (bb_sections b)"

text \<open>The body of a section, and its entry in the table with the offset still open.\<close>

definition section_body :: "section_spec \<Rightarrow> bytes" where
  "section_body s =
     (if sc_type s \<noteq> SecFree
      then foldl (\<lambda>body rec. put_record body (sp_tag rec) (sp_group rec) (encode_record_payload rec))
             [] (sc_records s)
      else [])"

definition put_entry ::
  "byte_writer \<times> nat list \<Rightarrow> (section_spec \<times> bool) \<times> bytes \<Rightarrow> byte_writer \<times> nat list" where
  "put_entry = (\<lambda>(w, offset_slots) ((s, explicit), body).
     let w = put_u16le w (section_type_value (sc_type s));
         w = put_u16le w (sc_id s);
         w = put_u16le w (sc_flags s);
         w = put_u16le w 0
     in case reserve_u32le w of (slot, w) \<Rightarrow>
        let offset_slots = offset_slots @ [slot];
            w = put_u32le w (of_nat (length body));
            item_count = (if explicit then sc_item_count s else of_nat (length (sc_records s)));
            w = put_u32le w item_count;
            w = put_u32le w (crc32 body)
        in (w, offset_slots))"

text \<open>Appending a body and patching its offset; \<open>None\<close> stands for a patch outside the buffer.\<close>

definition put_body :: "byte_writer option \<Rightarrow> nat \<times> bytes \<Rightarrow> byte_writer option" where
  "put_body w = (\<lambda>(slot, body). Option.bind w (\<lambda>w.
     Option.bind (patch_u32le w slot (of_nat (length w))) (\<lambda>w. Some (put_bytes w body))))"

definition build_header :: "builder \<Rightarrow> byte_writer" where
  "build_header b =
     (let flags = (0 :: u16);
          flags = (if bb_has_metadata b then flags OR 0x01 else flags);
          flags = (if bb_has_trailer_crc b then flags OR 0x02 else flags);
          w = put_u8 (put_u8 (put_u8 (put_u8 [] 0x42) 0x50) 0x4B) 0x31;
          w = put_u16le w (bb_version b);
          w = put_u16le w flags;
          w = put_u16le w (of_nat (length (bb_sections b)));
          w = put_u16le w 0
      in put_u32le w (crc32 (take 12 w)))"

definition build :: "builder \<Rightarrow> bytes option" where
  "build b =
     (let bodies = map section_body (bb_sections b)
      in case foldl put_entry (build_header b, [])
                (zip (zip (bb_sections b) (bb_item_count_explicit b)) bodies) of
           (w, offset_slots) \<Rightarrow>
             map_option (\<lambda>w. if bb_has_trailer_crc b then put_u32le w (crc32 w) else w)
               (foldl put_body (Some w) (zip offset_slots bodies)))"

section \<open>Layout of the encoding\<close>

lemma tag_byte_eq: "tag_byte t = record_tag_byte t"
  by (cases t) simp_all

interpretation record_writer: writer_op "\<lambda>w. put_record w t g" for t g
  by unfold_locales (simp add: put_record_def Let_def put_append put_bytes_def put_u8_def)

lemma encode_record_alt:
  "encode_record rec = [record_tag_byte (sp_tag rec), of_bool (sp_group rec)] @
     put_varint [] (of_nat (length (encode_record_payload rec))) @ encode_record_payload rec"
  by (simp add: encode_record_def put_record_def Let_def put_append put_bytes_def put_u8_def tag_byte_eq)

lemma put_record_encode:
  "put_record w (sp_tag rec) (sp_group rec) (encode_payload_into [] rec) = w @ encode_record rec"
  unfolding encode_record_def encode_record_payload_def by (rule record_writer.appends)

lemma put_records_encode:
  "foldl (\<lambda>w c. put_record w (sp_tag c) (sp_group c) (encode_payload_into [] c)) w cs =
     w @ concat (map encode_record cs)"
  by (induction cs arbitrary: w) (simp_all add: put_record_encode)

lemma foldl_append_map: "foldl (\<lambda>w c. w @ f c) w cs = w @ concat (map f cs)"
  by (induction cs arbitrary: w) simp_all

lemma ucast_low_byte: "(ucast (x AND 0xFF) :: u8) = ucast (x :: u64)"
  by (rule bit_word_eqI) (auto simp: bit_simps)

lemma put_f64_alt: "put_f64 w v = w @ put_u64le [] v"
  by (simp add: put_f64_def put_u64le_def put_u8_def upt_rec ucast_low_byte)

lemma encode_payload_alt:
  "encode_record_payload (RecordSpec t g i u f s bs key cs) =
     (case t of
        TagInt \<Rightarrow> put_svarint [] i
      | TagUint \<Rightarrow> put_varint [] u
      | TagFloat \<Rightarrow> put_u64le [] f
      | TagString \<Rightarrow> bytes_of_string s
      | TagBlob \<Rightarrow> bs
      | TagArray \<Rightarrow> put_varint [] (of_nat (length cs)) @ concat (map encode_record cs)
      | TagGroup \<Rightarrow> concat (map encode_record cs)
      | TagKeyval \<Rightarrow> lenprefixed (bytes_of_string key) @
          (case cs of [] \<Rightarrow> [] | v # _ \<Rightarrow> encode_record v))"
  by (cases t) (simp_all add: encode_record_payload_def put_records_encode put_record_encode put_f64_alt
      put_string_def put_bytes_def lenprefixed_def Let_def foldl_append_map put_append split: list.split)

lemma section_body_alt:
  "section_body s = (if sc_type s = SecFree then [] else concat (map encode_record (sc_records s)))"
  by (simp add: section_body_def encode_record_payload_def put_records_encode)

lemma encode_record_nonempty [simp]: "encode_record rec \<noteq> []"
  by (simp add: encode_record_alt)

end
