(* ===== verification/Bp_Codec.thy ===== *)
theory Bp_Codec
  imports Bp_Builder
begin

text \<open>
  The record encoder and the record decoder are inverse to each other: decoding an encoded record
  yields the record its specification describes when its nesting fits the depth limit, and
  \<^verbatim>\<open>kDepthExceeded\<close> otherwise.
\<close>

unbundle bit_operations_syntax

section \<open>The record a specification describes\<close>

fun record_of_spec :: "record_spec \<Rightarrow> bp_record" where
  "record_of_spec (RecordSpec t g i u f s bs key cs) =
     (case t of
        TagInt \<Rightarrow> BpRecord t g i 0 0 [] [] [] []
      | TagUint \<Rightarrow> BpRecord t g 0 u 0 [] [] [] []
      | TagFloat \<Rightarrow> BpRecord t g 0 0 f [] [] [] []
      | TagString \<Rightarrow> BpRecord t g 0 0 0 s [] [] []
      | TagBlob \<Rightarrow> BpRecord t g 0 0 0 [] bs [] []
      | TagArray \<Rightarrow> BpRecord t g 0 0 0 [] [] (map record_of_spec cs) []
      | TagGroup \<Rightarrow> BpRecord t g 0 0 0 [] [] (map record_of_spec cs) []
      | TagKeyval \<Rightarrow> BpRecord t g 0 0 0 [] [] (map record_of_spec cs) key)"

text \<open>
  Specifications as the factories build them, within the ranges of the lengths: only a container has
  children, and a key/value pair has exactly one.
\<close>

fun spec_ok :: "record_spec \<Rightarrow> bool" where
  "spec_ok (RecordSpec t g i u f s bs key cs) \<longleftrightarrow>
     length (encode_record_payload (RecordSpec t g i u f s bs key cs)) < 2 ^ 64 \<and>
     length cs < 2 ^ 64 \<and> length key < 2 ^ 64 \<and>
     (t \<notin> {TagArray, TagGroup, TagKeyval} \<longrightarrow> cs = []) \<and> (t = TagKeyval \<longrightarrow> length cs = 1) \<and>
     (\<forall>c \<in> set cs. spec_ok c)"

fun spec_height :: "record_spec \<Rightarrow> nat" where
  "spec_height (RecordSpec t g i u f s bs key cs) = foldr (\<lambda>c n. max (Suc (spec_height c)) n) cs 0"

lemma foldr_max_le: "foldr (\<lambda>c n. max (h c) n) cs 0 \<le> (k :: nat) \<longleftrightarrow> (\<forall>c \<in> set cs. h c \<le> k)"
  by (induction cs) auto

lemma f64_bits_put: "f64_bits (put_u64le [] v) = v"
proof -
  have "f64_bits (put_u64le [] v) =
      ((((((push_bit 56 (ucast (ucast (drop_bit 56 v AND 0xFF) :: u8)) OR
         push_bit 48 (ucast (ucast (drop_bit 48 v AND 0xFF) :: u8))) OR
        push_bit 40 (ucast (ucast (drop_bit 40 v AND 0xFF) :: u8))) OR
       push_bit 32 (ucast (ucast (drop_bit 32 v AND 0xFF) :: u8))) OR
      push_bit 24 (ucast (ucast (drop_bit 24 v AND 0xFF) :: u8))) OR
     push_bit 16 (ucast (ucast (drop_bit 16 v AND 0xFF) :: u8))) OR
    push_bit 8 (ucast (ucast (drop_bit 8 v AND 0xFF) :: u8))) OR
   ucast (ucast (v AND 0xFF) :: u8)"
    by (simp add: f64_bits_def put_u64le_def upt_rec or.commute or.left_commute)
  then show ?thesis by (simp only: join64)
qed

section \<open>Decoding an encoded record\<close>

text \<open>\<open>decodes child c\<close>: wherever the encoding of \<open>c\<close> stands, \<open>child\<close> reads the record of \<open>c\<close>.\<close>

definition decodes :: "bp_record rd \<Rightarrow> record_spec \<Rightarrow> bool" where
  "decodes child c \<longleftrightarrow> (\<forall>pre rest. child (rd_at pre (encode_record c @ rest)) =
     Inr (record_of_spec c, rd_at (pre @ encode_record c) rest))"

lemma read_times_at:
  assumes "\<forall>c \<in> set cs. decodes child c"
  shows "read_times (length cs) child (rd_at pre (concat (map encode_record cs) @ rest)) =
     Inr (map record_of_spec cs, rd_at (pre @ concat (map encode_record cs)) rest)"
  using assms
  by (induction cs arbitrary: pre) (simp_all add: rd_bind_def rd_return_def decodes_def)

lemma read_until_eof_at:
  assumes "\<forall>c \<in> set cs. decodes child c" and "length (concat (map encode_record cs)) \<le> n"
  shows "read_until_eof n child (rd_at pre (concat (map encode_record cs))) =
     Inr (map record_of_spec cs, rd_at (pre @ concat (map encode_record cs)) [])"
  using assms
proof (induction cs arbitrary: pre n)
  case Nil
  then show ?case by (cases n) simp_all
next
  case (Cons c cs)
  have "0 < length (encode_record c)" by simp
  then obtain k where k: "n = Suc k" using Cons.prems(2) by (cases n) auto
  have "length (concat (map encode_record cs)) \<le> k"
    using Cons.prems(2) \<open>0 < length (encode_record c)\<close>
    unfolding k list.map concat.simps length_append by linarith
  then show ?case using Cons.IH [of k] Cons.prems(1) by (simp add: k rd_bind_def rd_return_def decodes_def)
qed

lemma parse_payload_at:
  assumes "spec_ok (RecordSpec t g i u f s bs key cs)" and "\<forall>c \<in> set cs. decodes child c"
  shows "\<exists>r'. parse_payload child base t g
      (rd_at [] (encode_record_payload (RecordSpec t g i u f s bs key cs))) =
    Inr (record_of_spec (RecordSpec t g i u f s bs key cs), r')"
proof (cases t)
  case TagInt
  then show ?thesis
    using svarint_codec.get_put [of "[]" i "[]"] by (simp add: encode_payload_alt parse_payload_def rd_bind_def rd_return_def)
next
  case TagUint
  then show ?thesis
    using varint_codec.get_put [of "[]" u "[]"] by (simp add: encode_payload_alt parse_payload_def rd_bind_def rd_return_def)
next
  case TagFloat
  then show ?thesis
    using read_raw_at [of 8 "put_u64le [] f" "[]" "[]"]
    by (simp add: encode_payload_alt parse_payload_def rd_bind_def rd_return_def f64_bits_put length_put_fixed)
next
  case TagString
  then show ?thesis
    using read_string_at [of "length s" "bytes_of_string s" "[]" "[]"]
    by (simp add: encode_payload_alt parse_payload_def rd_bind_def rd_return_def)
next
  case TagBlob
  then show ?thesis
    using read_bytes_at [of "length bs" "bs" "[]" "[]"]
    by (simp add: encode_payload_alt parse_payload_def rd_bind_def rd_return_def)
next
  case TagArray
  have len: "unat (of_nat (length cs) :: u64) = length cs" using assms(1) by (intro unat_of_nat_u64) simp
  show ?thesis
    using read_times_at [OF assms(2), of "put_varint [] (of_nat (length cs))" "[]"] TagArray
    by (simp add: encode_payload_alt parse_payload_def codec_simps len) (simp add: rd_bind_def rd_return_def)
next
  case TagGroup
  then show ?thesis
    using read_until_eof_at [OF assms(2) order_refl, of "[]"]
    by (simp add: encode_payload_alt parse_payload_def parse_stream_def rd_bind_def rd_return_def)
next
  case TagKeyval
  then obtain v where v: "cs = [v]" using assms(1) by (auto simp: length_Suc_conv)
  have len: "unat (of_nat (length key) :: u64) = length key" using assms(1) by (intro unat_of_nat_u64) simp
  let ?pre = "put_varint [] (of_nat (length key)) @ bytes_of_string key"
  have child: "child (rd_at ?pre (encode_record v)) = Inr (record_of_spec v, rd_at (?pre @ encode_record v) [])"
    using assms(2) unfolding v decodes_def by (metis append_Nil2 list.set_intros(1))
  show ?thesis
    using TagKeyval child
    by (simp add: encode_payload_alt parse_payload_def lenprefixed_def codec_simps len v)
      (simp add: rd_bind_def read_string_at)
qed

lemma bp_parse_record_at:
  assumes d: "d \<le> m" and ok: "spec_ok spec"
  shows "bp_parse_record m b d (rd_at pre (encode_record spec @ rest)) =
     bindE (parse_payload
         (bp_parse_record m (b + (length pre + 2 + length (put_varint [] (of_nat (length (encode_record_payload spec))))))
            (d + 1))
         (b + (length pre + 2 + length (put_varint [] (of_nat (length (encode_record_payload spec))))))
         (sp_tag spec) (sp_group spec) (rd_at [] (encode_record_payload spec)))
       (\<lambda>(rec, _). Inr (rec, rd_at (pre @ encode_record spec) rest))"
proof -
  have len: "unat (of_nat (length (encode_record_payload spec)) :: u64) = length (encode_record_payload spec)"
    using ok by (intro unat_of_nat_u64) (cases spec, simp)
  have grp: "(of_bool (sp_group spec) AND 1 \<noteq> (0 :: u8)) = sp_group spec" by simp
  show ?thesis
    using d unfolding bp_parse_record.simps [of m b d] encode_record_alt
    by (simp add: read_u8_bind_at codec_simps len Let_def grp del: One_nat_def)
      (simp add: rd_bind_def read_raw_at rd_at_new)
qed

lemma record_decodes:
  "spec_ok spec \<Longrightarrow> d + spec_height spec \<le> m \<Longrightarrow> decodes (bp_parse_record m b d) spec"
proof (induction spec arbitrary: b d)
  case (RecordSpec t g i u f s bs key cs)
  let ?spec = "RecordSpec t g i u f s bs key cs"
  have children: "\<forall>c \<in> set cs. decodes (bp_parse_record m b' (d + 1)) c" for b'
  proof
    fix c assume c: "c \<in> set cs"
    have "spec_height ?spec \<le> m - d" using RecordSpec.prems(2) by simp
    then have "d + 1 + spec_height c \<le> m" using c RecordSpec.prems(2) by (fastforce simp: foldr_max_le)
    then show "decodes (bp_parse_record m b' (d + 1)) c"
      using RecordSpec.IH c RecordSpec.prems(1) by simp
  qed
  have "d \<le> m" using RecordSpec.prems(2) by simp
  show ?case
    unfolding decodes_def
  proof (intro allI)
    fix pre rest :: bytes
    let ?off = "b + (length pre + 2 + length (put_varint [] (of_nat (length (encode_record_payload ?spec)) :: u64)))"
    obtain r' where "parse_payload (bp_parse_record m ?off (d + 1)) ?off t g (rd_at [] (encode_record_payload ?spec)) =
        Inr (record_of_spec ?spec, r')"
      using parse_payload_at [OF RecordSpec.prems(1) children] by blast
    then show "bp_parse_record m b d (rd_at pre (encode_record ?spec @ rest)) =
        Inr (record_of_spec ?spec, rd_at (pre @ encode_record ?spec) rest)"
      unfolding bp_parse_record_at [OF \<open>d \<le> m\<close> RecordSpec.prems(1)] record_spec.sel by simp
  qed
qed

section \<open>The depth limit\<close>

definition fails_deep :: "'a result \<Rightarrow> bool" where
  "fails_deep v \<longleftrightarrow> (\<exists>off. v = Inl (ParseError kDepthExceeded off ''record nesting exceeded max depth''))"

definition too_deep :: "bp_record rd \<Rightarrow> record_spec \<Rightarrow> bool" where
  "too_deep child c \<longleftrightarrow> (\<forall>pre rest. fails_deep (child (rd_at pre (encode_record c @ rest))))"

lemma fails_deep_bind [simp]: "fails_deep v \<Longrightarrow> fails_deep (bindE v k)"
  by (auto simp: fails_deep_def)

lemma read_times_deep:
  assumes "\<forall>c \<in> set cs. decodes child c \<or> too_deep child c" and "\<exists>c \<in> set cs. too_deep child c"
  shows "fails_deep (read_times (length cs) child (rd_at pre (concat (map encode_record cs) @ rest)))"
  using assms
proof (induction cs arbitrary: pre)
  case (Cons c cs)
  show ?case
  proof (cases "too_deep child c")
    case True
    then show ?thesis by (simp add: too_deep_def rd_bind_def)
  next
    case False
    then show ?thesis using Cons by (simp add: decodes_def rd_bind_def)
  qed
qed simp

lemma read_until_eof_deep:
  assumes "\<forall>c \<in> set cs. decodes child c \<or> too_deep child c" and "\<exists>c \<in> set cs. too_deep child c"
    and "length (concat (map encode_record cs)) \<le> n"
  shows "fails_deep (read_until_eof n child (rd_at pre (concat (map encode_record cs))))"
  using assms
proof (induction cs arbitrary: pre n)
  case (Cons c cs)
  have "0 < length (encode_record c)" by simp
  then obtain k where k: "n = Suc k" using Cons.prems(3) by (cases n) auto
  have fit: "length (concat (map encode_record cs)) \<le> k"
    using Cons.prems(3) \<open>0 < length (encode_record c)\<close>
    unfolding k list.map concat.simps length_append by linarith
  show ?case
  proof (cases "too_deep child c")
    case True
    then show ?thesis by (simp add: k too_deep_def rd_bind_def)
  next
    case False
    then show ?thesis using Cons.IH [OF _ _ fit] Cons.prems by (simp add: k decodes_def rd_bind_def)
  qed
qed simp

lemma parse_payload_deep:
  assumes ok: "spec_ok (RecordSpec t g i u f s bs key cs)"
    and all: "\<forall>c \<in> set cs. decodes child c \<or> too_deep child c" and ex: "\<exists>c \<in> set cs. too_deep child c"
  shows "fails_deep (parse_payload child base t g
      (rd_at [] (encode_record_payload (RecordSpec t g i u f s bs key cs))))"
proof -
  have "cs \<noteq> []" using ex by auto
  then consider "t = TagArray" | "t = TagGroup" | "t = TagKeyval" using ok by auto
  then show ?thesis
  proof cases
    case 1
    have len: "unat (of_nat (length cs) :: u64) = length cs" using ok by (intro unat_of_nat_u64) simp
    show ?thesis
      using read_times_deep [OF all ex, of "put_varint [] (of_nat (length cs))" "[]"] 1
      by (simp add: encode_payload_alt parse_payload_def codec_simps len) (simp add: rd_bind_def)
  next
    case 2
    then show ?thesis
      using read_until_eof_deep [OF all ex order_refl, of "[]"]
      by (simp add: encode_payload_alt parse_payload_def parse_stream_def rd_bind_def)
  next
    case 3
    then obtain v where v: "cs = [v]" using ok by (auto simp: length_Suc_conv)
    have len: "unat (of_nat (length key) :: u64) = length key" using ok by (intro unat_of_nat_u64) simp
    have child: "fails_deep (child (rd_at (put_varint [] (of_nat (length key)) @ bytes_of_string key) (encode_record v)))"
      using ex unfolding v too_deep_def by (metis append_Nil2 empty_iff empty_set set_ConsD)
    show ?thesis
      using 3 child
      by (simp add: encode_payload_alt parse_payload_def lenprefixed_def codec_simps len v)
        (simp add: rd_bind_def read_string_at)
  qed
qed

lemma record_too_deep:
  "spec_ok spec \<Longrightarrow> m < d + spec_height spec \<Longrightarrow> too_deep (bp_parse_record m b d) spec"
proof (induction spec arbitrary: b d)
  case (RecordSpec t g i u f s bs key cs)
  let ?spec = "RecordSpec t g i u f s bs key cs"
  show ?case
  proof (cases "d \<le> m")
    case False
    then show ?thesis
      by (simp add: too_deep_def fails_deep_def bp_parse_record.simps [of m b d] rd_throw_def)
  next
    case True
    have each: "decodes (bp_parse_record m b' (d + 1)) c \<or> too_deep (bp_parse_record m b' (d + 1)) c"
      if "c \<in> set cs" for b' c
      using record_decodes [of c "d + 1" m b'] RecordSpec.IH [OF that, of "d + 1" b'] RecordSpec.prems(1) that
      by (cases "d + 1 + spec_height c \<le> m") auto
    have "\<not> spec_height ?spec \<le> m - d" using RecordSpec.prems(2) True by linarith
    then obtain c where c: "c \<in> set cs" "\<not> Suc (spec_height c) \<le> m - d"
      by (auto simp: foldr_max_le)
    have deep: "too_deep (bp_parse_record m b' (d + 1)) c" for b'
      using RecordSpec.IH [OF c(1), of "d + 1" b'] RecordSpec.prems(1) c True by auto
    show ?thesis
      unfolding too_deep_def
    proof (intro allI)
      fix pre rest :: bytes
      let ?off = "b + (length pre + 2 + length (put_varint [] (of_nat (length (encode_record_payload ?spec)) :: u64)))"
      have "fails_deep (parse_payload (bp_parse_record m ?off (d + 1)) ?off t g
          (rd_at [] (encode_record_payload ?spec)))"
        using each deep c(1) by (intro parse_payload_deep [OF RecordSpec.prems(1)]) blast+
      then show "fails_deep (bp_parse_record m b d (rd_at pre (encode_record ?spec @ rest)))"
        unfolding bp_parse_record_at [OF True RecordSpec.prems(1)] record_spec.sel by simp
    qed
  qed
qed

end
