(* ===== verification/Bp_Parser.thy ===== *)
theory Bp_Parser
  imports Bp_Shape Checksum
begin

text \<open>
  \<^verbatim>\<open>parse\<close> of \<^verbatim>\<open>binpack\<close> (\<^verbatim>\<open>include/binpack/binpack.hpp\<close>, \<^verbatim>\<open>src/binpack/parser.cpp\<close>): header,
  section table, section bodies with the collected metadata, trailer, and the folding of the checksum
  results. The buffer is a list, so the check for a null pointer has no counterpart.
\<close>

unbundle bit_operations_syntax

definition bp_magic :: bytes where "bp_magic = [0x42, 0x50, 0x4B, 0x31]"
definition bp_header_bytes :: nat where "bp_header_bytes = 12"
definition bp_header_total :: nat where "bp_header_total = 16"
definition bp_section_entry_bytes :: nat where "bp_section_entry_bytes = 24"
definition bp_trailer_bytes :: nat where "bp_trailer_bytes = 4"

lemmas bp_sizes = bp_header_bytes_def bp_header_total_def bp_section_entry_bytes_def bp_trailer_bytes_def

definition verify_crc :: "u32 \<Rightarrow> u32 \<Rightarrow> bool \<Rightarrow> nat \<Rightarrow> string \<Rightarrow> bool result" where
  "verify_crc computed stored strict off what =
     (if computed = stored then Inr True
      else if strict then Inl (ParseError kBadChecksum off what)
      else Inr False)"

definition bp_container_new :: bp_container where
  "bp_container_new = \<lparr>bc_version = 0, bc_flags = 0, bc_section_count = 0, bc_has_metadata = False,
     bc_has_trailer_crc = False, bc_header_checksum_ok = True, bc_trailer_checksum_ok = True,
     bc_checksum_ok = True, bc_sections = [], bc_metadata = []\<rparr>"

section \<open>Header and section table\<close>

definition bp_parse_header :: "bytes \<Rightarrow> bool \<Rightarrow> bp_container rd" where
  "bp_parse_header data strict =
     rd_bind (read_raw 4) (\<lambda>magic.
     if magic \<noteq> bp_magic then rd_throw kBadMagic 0 ''not a BPK1 container''
     else rd_bind read_u16le (\<lambda>version.
     if version \<noteq> 1 then rd_throw kBadVersion 4 ''unsupported binpack version''
     else rd_bind read_u16le (\<lambda>flags.
     rd_bind read_u16le (\<lambda>section_count.
     rd_bind read_u16le (\<lambda>reserved.
     rd_bind read_u32le (\<lambda>header_crc_stored r.
       bindE (verify_crc (crc32 (take bp_header_bytes data)) header_crc_stored strict 0 ''header crc mismatch'')
         (\<lambda>ok. Inr (bp_container_new\<lparr>bc_version := version, bc_flags := flags,
            bc_section_count := section_count, bc_has_metadata := (flags AND 0x01 \<noteq> 0),
            bc_has_trailer_crc := (flags AND 0x02 \<noteq> 0), bc_header_checksum_ok := ok\<rparr>, r))))))))"

record bp_entry =
  en_type :: section_type
  en_id :: u16
  en_flags :: u16
  en_offset :: u32
  en_length :: u32
  en_item_count :: u32
  en_crc32_stored :: u32

definition read_entry :: "bp_entry rd" where
  "read_entry =
     rd_bind read_u16le (\<lambda>raw_type.
     case section_type_of raw_type of
       None \<Rightarrow> (\<lambda>r. rd_throw kBadType (rd_pos r - 2) ''unknown section type'' r)
     | Some t \<Rightarrow> rd_bind read_u16le (\<lambda>eid. rd_bind read_u16le (\<lambda>flags. rd_bind read_u16le (\<lambda>reserved.
         rd_bind read_u32le (\<lambda>off. rd_bind read_u32le (\<lambda>len. rd_bind read_u32le (\<lambda>item_count.
         rd_bind read_u32le (\<lambda>crc.
           rd_return \<lparr>en_type = t, en_id = eid, en_flags = flags, en_offset = off, en_length = len,
             en_item_count = item_count, en_crc32_stored = crc\<rparr>))))))))"

definition read_table :: "bytes \<Rightarrow> u16 \<Rightarrow> bp_entry list rd" where
  "read_table data section_count r =
     (let table_bytes = unat section_count * bp_section_entry_bytes
      in if length data < bp_header_total + table_bytes
         then rd_throw kBadLength bp_header_total ''section table exceeds file size'' r
         else read_times (unat section_count) read_entry r)"

section \<open>Section bodies\<close>

definition collect_metadata :: "bp_record list \<Rightarrow> (string \<times> bp_record) list" where
  "collect_metadata recs =
     map (\<lambda>rec. (rc_key rec, hd (rc_children rec)))
       (filter (\<lambda>rec. rc_tag rec = TagKeyval \<and> rc_children rec \<noteq> []) recs)"

definition parse_body :: "bp_options \<Rightarrow> bp_entry \<Rightarrow> bytes \<Rightarrow> bp_record list result" where
  "parse_body opts e body =
     (if en_type e \<noteq> SecFree
      then bindE (parse_stream (bp_parse_record (bo_max_depth opts) (unat (en_offset e)) 0)
                    (byte_reader_new body)) (\<lambda>(recs, _). Inr recs)
      else Inr [])"

definition append_section :: "bp_container \<Rightarrow> bp_entry \<Rightarrow> bool \<Rightarrow> bp_record list \<Rightarrow> bp_container" where
  "append_section c e ok recs =
     c\<lparr>bc_metadata := bc_metadata c @ (if en_type e = SecMetadata then collect_metadata recs else []),
       bc_sections := bc_sections c @
         [\<lparr>bs_type = en_type e, bs_id = en_id e, bs_flags = en_flags e, bs_offset = en_offset e,
           bs_length = en_length e, bs_item_count = en_item_count e,
           bs_crc32_stored = en_crc32_stored e, bs_body_checksum_ok = ok, bs_records = recs\<rparr>]\<rparr>"

definition parse_section :: "bp_options \<Rightarrow> bytes \<Rightarrow> bp_container \<Rightarrow> bp_entry \<Rightarrow> bp_container result" where
  "parse_section opts data c e =
     (let start = unat (en_offset e); end = unat (en_offset e) + unat (en_length e)
      in if length data < start \<or> length data < end \<or> end < start
         then Inl (ParseError kBadLength (unat (en_offset e)) ''section body out of range'')
         else let body = take (unat (en_length e)) (drop start data)
              in bindE (verify_crc (crc32 body) (en_crc32_stored e) (bo_strict opts) (unat (en_offset e))
                          ''section crc mismatch'') (\<lambda>ok.
                 bindE (parse_body opts e body) (\<lambda>recs. Inr (append_section c e ok recs))))"

fun parse_sections :: "bp_options \<Rightarrow> bytes \<Rightarrow> bp_container \<Rightarrow> bp_entry list \<Rightarrow> bp_container result" where
  "parse_sections opts data c [] = Inr c"
| "parse_sections opts data c (e # es) =
     bindE (parse_section opts data c e) (\<lambda>c. parse_sections opts data c es)"

section \<open>Trailer and the whole container\<close>

definition parse_trailer :: "bytes \<Rightarrow> bool \<Rightarrow> bp_container \<Rightarrow> bp_container result" where
  "parse_trailer data strict c =
     (if bc_has_trailer_crc c
      then if length data < bp_header_total + bp_trailer_bytes
           then Inl (ParseError kTruncated (length data) ''trailer crc flagged but file too small'')
           else let trailer_off = length data - bp_trailer_bytes
                in bindE (read_u32le (byte_reader_new (drop trailer_off data))) (\<lambda>(trailer_stored, _).
                   bindE (verify_crc (crc32 (take trailer_off data)) trailer_stored strict trailer_off
                            ''trailer crc mismatch'') (\<lambda>ok.
                   Inr (c\<lparr>bc_trailer_checksum_ok := ok\<rparr>)))
      else Inr c)"

definition fold_checksums :: "bp_container \<Rightarrow> bp_container" where
  "fold_checksums c = c\<lparr>bc_checksum_ok :=
     fold (\<lambda>s ok. ok \<and> bs_body_checksum_ok s) (bc_sections c)
       (bc_header_checksum_ok c \<and> bc_trailer_checksum_ok c)\<rparr>"

definition bp_parse :: "bp_options \<Rightarrow> bytes \<Rightarrow> bp_container result" where
  "bp_parse opts data =
     bindE (bp_parse_header data (bo_strict opts) (byte_reader_new data)) (\<lambda>(c, r).
     bindE (read_table data (bc_section_count c) r) (\<lambda>(entries, r).
     bindE (parse_sections opts data c entries) (\<lambda>c.
     bindE (parse_trailer data (bo_strict opts) c) (\<lambda>c.
     Inr (fold_checksums c)))))"

definition bp_parse_default :: "bytes \<Rightarrow> bp_container result" where
  "bp_parse_default data = bp_parse bp_default_options data"

end
