(* ===== verification/Bp_Container.thy ===== *)
theory Bp_Container
  imports Bp_Parser
begin

text \<open>
  What \<^verbatim>\<open>parse\<close> of \<^verbatim>\<open>binpack\<close> promises of the container it returns, how the strict mode relates to
  the lenient one, and which errors it throws.
\<close>

unbundle bit_operations_syntax

section \<open>Strict and lenient mode\<close>

lemma verify_crc_lenient [simp]: "verify_crc x y False off what = Inr (x = y)"
  by (simp add: verify_crc_def)

lemma verify_crc_strict: "verify_crc x y True off what = Inr ok \<longleftrightarrow> x = y \<and> ok"
  by (auto simp: verify_crc_def)

lemma bp_parse_header_strict:
  "bp_parse_header data True r = Inr (c, r') \<longleftrightarrow>
     bp_parse_header data False r = Inr (c, r') \<and> bc_header_checksum_ok c"
  by (auto simp: bp_parse_header_def rd_bind_def bindE_eq_Inr verify_crc_strict rd_throw_def
      split: if_splits)

definition bodies_ok :: "bp_container \<Rightarrow> bool" where
  "bodies_ok c \<longleftrightarrow> list_all bs_body_checksum_ok (bc_sections c)"

lemma append_section_fields [simp]:
  "bc_sections (append_section c e ok recs) = bc_sections c @
     [\<lparr>bs_type = en_type e, bs_id = en_id e, bs_flags = en_flags e, bs_offset = en_offset e,
       bs_length = en_length e, bs_item_count = en_item_count e,
       bs_crc32_stored = en_crc32_stored e, bs_body_checksum_ok = ok, bs_records = recs\<rparr>]"
  "bc_metadata (append_section c e ok recs) =
     bc_metadata c @ (if en_type e = SecMetadata then collect_metadata recs else [])"
  "bc_trailer_checksum_ok (append_section c e ok recs) = bc_trailer_checksum_ok c"
  "bc_header_checksum_ok (append_section c e ok recs) = bc_header_checksum_ok c"
  "bc_section_count (append_section c e ok recs) = bc_section_count c"
  "bc_has_trailer_crc (append_section c e ok recs) = bc_has_trailer_crc c"
  by (simp_all add: append_section_def)

lemma bodies_ok_append [simp]: "bodies_ok (append_section c e ok recs) \<longleftrightarrow> bodies_ok c \<and> ok"
  by (simp add: bodies_ok_def)

text \<open>When a section is accepted, and what is appended for it.\<close>

lemma parse_section_ok:
  "parse_section opts data c e = Inr c' \<longleftrightarrow>
     unat (en_offset e) + unat (en_length e) \<le> length data \<and>
     (\<exists>ok recs. verify_crc (crc32 (take (unat (en_length e)) (drop (unat (en_offset e)) data)))
          (en_crc32_stored e) (bo_strict opts) (unat (en_offset e)) ''section crc mismatch'' = Inr ok \<and>
        parse_body opts e (take (unat (en_length e)) (drop (unat (en_offset e)) data)) = Inr recs \<and>
        c' = append_section c e ok recs)"
proof (cases "unat (en_offset e) + unat (en_length e) \<le> length data")
  case True
  then have "\<not> (length data < unat (en_offset e) \<or> length data < unat (en_offset e) + unat (en_length e) \<or>
      unat (en_offset e) + unat (en_length e) < unat (en_offset e))" by linarith
  with True show ?thesis by (simp only: parse_section_def Let_def if_False bindE_eq_Inr) auto
qed (simp add: parse_section_def Let_def)

lemma parse_body_strict [simp]: "parse_body (opts\<lparr>bo_strict := b\<rparr>) e body = parse_body opts e body"
  by (simp add: parse_body_def)

lemma parse_section_strict:
  assumes "bodies_ok c"
  shows "parse_section (opts\<lparr>bo_strict := True\<rparr>) data c e = Inr c' \<longleftrightarrow>
     parse_section (opts\<lparr>bo_strict := False\<rparr>) data c e = Inr c' \<and> bodies_ok c'"
  using assms unfolding parse_section_ok by (auto simp: verify_crc_strict)

lemma parse_section_keeps:
  assumes "parse_section opts data c e = Inr c'"
  shows "\<exists>s. bc_sections c' = bc_sections c @ [s]"
  using assms by (auto simp: parse_section_ok)

lemma parse_sections_keeps:
  "parse_sections opts data c es = Inr c' \<Longrightarrow> \<exists>ss. bc_sections c' = bc_sections c @ ss \<and> length ss = length es"
proof (induction es arbitrary: c)
  case (Cons e es)
  then obtain c1 where 1: "parse_section opts data c e = Inr c1" and 2: "parse_sections opts data c1 es = Inr c'"
    by (auto simp: bindE_eq_Inr)
  show ?case using parse_section_keeps [OF 1] Cons.IH [OF 2] by auto
qed simp

lemma parse_sections_strict:
  "bodies_ok c \<Longrightarrow>
     parse_sections (opts\<lparr>bo_strict := True\<rparr>) data c es = Inr c' \<longleftrightarrow>
     parse_sections (opts\<lparr>bo_strict := False\<rparr>) data c es = Inr c' \<and> bodies_ok c'"
proof (induction es arbitrary: c)
  case (Cons e es)
  have before: "bodies_ok c1" if "parse_sections (opts\<lparr>bo_strict := False\<rparr>) data c1 es = Inr c'" "bodies_ok c'" for c1
    using parse_sections_keeps [OF that(1)] that(2) by (auto simp: bodies_ok_def)
  show ?case
    using Cons.IH parse_section_strict [OF Cons.prems, of opts data e] before
    by (auto simp: bindE_eq_Inr)
qed auto

lemma parse_trailer_strict:
  assumes "bc_trailer_checksum_ok c"
  shows "parse_trailer data True c = Inr c' \<longleftrightarrow>
    parse_trailer data False c = Inr c' \<and> bc_trailer_checksum_ok c'"
proof (cases "bc_has_trailer_crc c \<and> bp_header_total + bp_trailer_bytes \<le> length data")
  case True
  show ?thesis
  proof (cases "read_u32le (byte_reader_new (drop (length data - bp_trailer_bytes) data))")
    case (Inr p)
    then show ?thesis using True by (cases p) (auto simp: parse_trailer_def Let_def verify_crc_def)
  qed (use True in \<open>simp add: parse_trailer_def Let_def\<close>)
qed (use assms in \<open>auto simp: parse_trailer_def\<close>)

lemma fold_checksums_ok:
  "bc_checksum_ok (fold_checksums c) \<longleftrightarrow> bc_header_checksum_ok c \<and> bc_trailer_checksum_ok c \<and> bodies_ok c"
proof -
  have "fold (\<lambda>s ok. ok \<and> bs_body_checksum_ok s) ss ok0 \<longleftrightarrow> ok0 \<and> list_all bs_body_checksum_ok ss"
    for ss :: "bp_section list" and ok0
    by (induction ss arbitrary: ok0) auto
  then show ?thesis by (simp add: fold_checksums_def bodies_ok_def)
qed

text \<open>The parts of a container that a stage leaves alone.\<close>

lemma bp_parse_header_fields:
  "bp_parse_header data strict r = Inr (c, r') \<Longrightarrow>
     bc_sections c = [] \<and> bc_metadata c = [] \<and> bc_trailer_checksum_ok c"
  by (auto simp: bp_parse_header_def rd_bind_def bindE_eq_Inr rd_throw_def bp_container_new_def
      split: if_splits)

lemma parse_section_fields:
  assumes "parse_section opts data c e = Inr c'"
  shows "bc_trailer_checksum_ok c' = bc_trailer_checksum_ok c"
    and "bc_header_checksum_ok c' = bc_header_checksum_ok c"
    and "bc_section_count c' = bc_section_count c" and "bc_has_trailer_crc c' = bc_has_trailer_crc c"
  using assms by (auto simp: parse_section_ok)

lemma parse_sections_fields:
  "parse_sections opts data c es = Inr c' \<Longrightarrow>
     bc_trailer_checksum_ok c' = bc_trailer_checksum_ok c \<and> bc_header_checksum_ok c' = bc_header_checksum_ok c \<and>
     bc_section_count c' = bc_section_count c \<and> bc_has_trailer_crc c' = bc_has_trailer_crc c"
proof (induction es arbitrary: c)
  case (Cons e es)
  then obtain c1 where 1: "parse_section opts data c e = Inr c1" and 2: "parse_sections opts data c1 es = Inr c'"
    by (auto simp: bindE_eq_Inr)
  show ?case using parse_section_fields [OF 1] Cons.IH [OF 2] by simp
qed simp

lemma parse_trailer_fields:
  assumes "parse_trailer data strict c = Inr c'"
  shows "c' = c\<lparr>bc_trailer_checksum_ok := bc_trailer_checksum_ok c'\<rparr>"
proof (cases "c' = c")
  case False
  then obtain ok where "c' = c\<lparr>bc_trailer_checksum_ok := ok\<rparr>"
    using assms by (auto simp: parse_trailer_def bindE_eq_Inr Let_def split: if_splits)
  then show ?thesis by simp
qed simp

lemma parse_trailer_same:
  assumes "parse_trailer data strict c = Inr c'"
  shows "bc_sections c' = bc_sections c" "bc_metadata c' = bc_metadata c"
    "bc_header_checksum_ok c' = bc_header_checksum_ok c" "bc_section_count c' = bc_section_count c"
  by (subst parse_trailer_fields [OF assms], simp)+

lemma bp_parse_ok:
  "bp_parse opts data = Inr c \<longleftrightarrow>
     (\<exists>c0 r0 es r1 c1 c2. bp_parse_header data (bo_strict opts) (byte_reader_new data) = Inr (c0, r0) \<and>
        read_table data (bc_section_count c0) r0 = Inr (es, r1) \<and>
        parse_sections opts data c0 es = Inr c1 \<and> parse_trailer data (bo_strict opts) c1 = Inr c2 \<and>
        c = fold_checksums c2)"
  by (auto simp: bp_parse_def bindE_eq_Inr)

lemma bp_parse_strict:
  "bp_parse (opts\<lparr>bo_strict := True\<rparr>) data = Inr c \<longleftrightarrow>
   bp_parse (opts\<lparr>bo_strict := False\<rparr>) data = Inr c \<and> bc_checksum_ok c"
proof -
  have stage: "parse_sections (opts\<lparr>bo_strict := True\<rparr>) data c0 es = Inr c1 \<and>
        parse_trailer data True c1 = Inr c2 \<and> bc_header_checksum_ok c0 \<longleftrightarrow>
      parse_sections (opts\<lparr>bo_strict := False\<rparr>) data c0 es = Inr c1 \<and>
        parse_trailer data False c1 = Inr c2 \<and> bc_checksum_ok (fold_checksums c2)"
    if "bp_parse_header data False (byte_reader_new data) = Inr (c0, r0)" for c0 r0 es c1 c2
  proof -
    have c0: "bodies_ok c0" "bc_trailer_checksum_ok c0"
      using bp_parse_header_fields [OF that] by (simp_all add: bodies_ok_def)
    show ?thesis
    proof (cases "parse_sections (opts\<lparr>bo_strict := False\<rparr>) data c0 es = Inr c1")
      case True
      then have t: "bc_trailer_checksum_ok c1" "bc_header_checksum_ok c1 = bc_header_checksum_ok c0"
        using parse_sections_fields c0(2) by blast+
      have "bc_checksum_ok (fold_checksums c2) \<longleftrightarrow>
          bc_header_checksum_ok c0 \<and> bc_trailer_checksum_ok c2 \<and> bodies_ok c1"
        if "parse_trailer data False c1 = Inr c2"
        using parse_trailer_same [OF that] t(2) by (simp add: fold_checksums_ok bodies_ok_def)
      then show ?thesis
        using True parse_sections_strict [OF c0(1), of opts data es c1] parse_trailer_strict [OF t(1), of data c2]
        by blast
    next
      case False
      then show ?thesis using parse_sections_strict [OF c0(1), of opts data es c1] by blast
    qed
  qed
  let ?h = "\<lambda>c0 r0. bp_parse_header data False (byte_reader_new data) = Inr (c0, r0)"
  let ?t = "\<lambda>c0 r0 es r1. read_table data (bc_section_count c0) r0 = Inr (es, r1)"
  have "bp_parse (opts\<lparr>bo_strict := True\<rparr>) data = Inr c \<longleftrightarrow>
      (\<exists>c0 r0 es r1 c1 c2. ?h c0 r0 \<and> ?t c0 r0 es r1 \<and>
        (parse_sections (opts\<lparr>bo_strict := True\<rparr>) data c0 es = Inr c1 \<and>
         parse_trailer data True c1 = Inr c2 \<and> bc_header_checksum_ok c0) \<and> c = fold_checksums c2)"
    unfolding bp_parse_ok by (simp add: bp_parse_header_strict) blast
  also have "\<dots> \<longleftrightarrow>
      (\<exists>c0 r0 es r1 c1 c2. ?h c0 r0 \<and> ?t c0 r0 es r1 \<and>
        (parse_sections (opts\<lparr>bo_strict := False\<rparr>) data c0 es = Inr c1 \<and>
         parse_trailer data False c1 = Inr c2 \<and> bc_checksum_ok (fold_checksums c2)) \<and> c = fold_checksums c2)"
    by ((rule iff_exI)+, rule conj_cong [OF refl], rule conj_cong [OF refl], rule conj_cong [OF stage refl])
  also have "\<dots> \<longleftrightarrow> bp_parse (opts\<lparr>bo_strict := False\<rparr>) data = Inr c \<and> bc_checksum_ok c"
    unfolding bp_parse_ok by auto
  finally show ?thesis .
qed

section \<open>The container\<close>

text \<open>A section as the parser delivers it: inside the file, its checksum judged, its records shaped.\<close>

definition section_ok :: "nat \<Rightarrow> bytes \<Rightarrow> bp_section \<Rightarrow> bool" where
  "section_ok max_depth data s \<longleftrightarrow>
     unat (bs_offset s) + unat (bs_length s) \<le> length data \<and>
     (bs_body_checksum_ok s \<longleftrightarrow>
        crc32 (take (unat (bs_length s)) (drop (unat (bs_offset s)) data)) = bs_crc32_stored s) \<and>
     (bs_type s = SecFree \<longrightarrow> bs_records s = []) \<and>
     (\<forall>rec \<in> set (bs_records s). rec_ok max_depth rec)"

definition metadata_of :: "bp_section list \<Rightarrow> (string \<times> bp_record) list" where
  "metadata_of ss =
     concat (map (\<lambda>s. if bs_type s = SecMetadata then collect_metadata (bs_records s) else []) ss)"

lemma verify_crc_Inr: "verify_crc x y strict off what = Inr ok \<Longrightarrow> ok \<longleftrightarrow> x = y"
  by (auto simp: verify_crc_def split: if_splits)

lemma parse_body_shape:
  assumes "parse_body opts e body = Inr recs"
  shows "en_type e = SecFree \<longrightarrow> recs = []" and "rec \<in> set recs \<Longrightarrow> rec_ok (bo_max_depth opts) rec"
  using assms by (auto simp: parse_body_def bindE_eq_Inr dest: parse_stream_shape split: if_splits)

lemma parse_section_adds:
  assumes "parse_section opts data c e = Inr c'"
  obtains s where "bc_sections c' = bc_sections c @ [s]" and "section_ok (bo_max_depth opts) data s"
    and "bc_metadata c' = bc_metadata c @ metadata_of [s]"
proof -
  obtain ok recs where range: "unat (en_offset e) + unat (en_length e) \<le> length data"
    and crc: "verify_crc (crc32 (take (unat (en_length e)) (drop (unat (en_offset e)) data)))
          (en_crc32_stored e) (bo_strict opts) (unat (en_offset e)) ''section crc mismatch'' = Inr ok"
    and body: "parse_body opts e (take (unat (en_length e)) (drop (unat (en_offset e)) data)) = Inr recs"
    and c': "c' = append_section c e ok recs"
    using assms unfolding parse_section_ok by blast
  show ?thesis
    using range verify_crc_Inr [OF crc] parse_body_shape [OF body]
    by (intro that) (auto simp: c' section_ok_def metadata_of_def)
qed

lemma parse_sections_adds:
  assumes "parse_sections opts data c es = Inr c'"
  shows "\<exists>ss. bc_sections c' = bc_sections c @ ss \<and> length ss = length es \<and>
    (\<forall>s \<in> set ss. section_ok (bo_max_depth opts) data s) \<and> bc_metadata c' = bc_metadata c @ metadata_of ss"
  using assms
proof (induction es arbitrary: c)
  case Nil
  then show ?case by (intro exI [of _ "[]"]) (simp add: metadata_of_def)
next
  case (Cons e es)
  then obtain c1 where 1: "parse_section opts data c e = Inr c1" and 2: "parse_sections opts data c1 es = Inr c'"
    by (auto simp: bindE_eq_Inr)
  obtain s where s: "bc_sections c1 = bc_sections c @ [s]" "section_ok (bo_max_depth opts) data s"
      "bc_metadata c1 = bc_metadata c @ metadata_of [s]"
    using 1 by (rule parse_section_adds)
  obtain ss where "bc_sections c' = bc_sections c1 @ ss" "length ss = length es"
      "\<forall>s \<in> set ss. section_ok (bo_max_depth opts) data s" "bc_metadata c' = bc_metadata c1 @ metadata_of ss"
    using Cons.IH [OF 2] by blast
  with s show ?case by (intro exI [of _ "s # ss"]) (simp add: metadata_of_def)
qed

lemma read_entry_advances: "progress_op read_u16le" "progress_op read_u32le"
  by (rule u16le_op.progress_op_axioms u32le_op.progress_op_axioms)+

lemma read_times_length: "read_times n oper r = Inr (xs, r') \<Longrightarrow> length xs = n"
  by (induction n arbitrary: r xs) (auto simp: rd_return_def rd_bind_def bindE_eq_Inr)

lemma read_table_length:
  "read_table data n r = Inr (es, r') \<Longrightarrow> length es = unat n \<and> 16 + 24 * unat n \<le> length data"
  by (auto simp: read_table_def Let_def rd_throw_def bp_sizes dest: read_times_length split: if_splits)

lemma bp_parse_facts:
  assumes "bp_parse opts data = Inr c"
  shows "length (bc_sections c) = unat (bc_section_count c)"
    and "16 + 24 * unat (bc_section_count c) \<le> length data"
    and "\<forall>s \<in> set (bc_sections c). section_ok (bo_max_depth opts) data s"
    and "bc_metadata c = metadata_of (bc_sections c)"
    and "bc_checksum_ok c \<longleftrightarrow>
      bc_header_checksum_ok c \<and> bc_trailer_checksum_ok c \<and> list_all bs_body_checksum_ok (bc_sections c)"
proof -
  obtain c0 r0 es r1 c1 c2 where h: "bp_parse_header data (bo_strict opts) (byte_reader_new data) = Inr (c0, r0)"
    and t: "read_table data (bc_section_count c0) r0 = Inr (es, r1)"
    and ss: "parse_sections opts data c0 es = Inr c1" and tr: "parse_trailer data (bo_strict opts) c1 = Inr c2"
    and c: "c = fold_checksums c2"
    using assms unfolding bp_parse_ok by blast
  note h0 = bp_parse_header_fields [OF h] and same = parse_trailer_same [OF tr]
  have folded: "bc_sections c = bc_sections c2" "bc_metadata c = bc_metadata c2"
      "bc_section_count c = bc_section_count c2" "bc_header_checksum_ok c = bc_header_checksum_ok c2"
      "bc_trailer_checksum_ok c = bc_trailer_checksum_ok c2"
    by (simp_all add: c fold_checksums_def)
  obtain ss' where adds: "bc_sections c1 = ss'" "length ss' = length es"
      "\<forall>s \<in> set ss'. section_ok (bo_max_depth opts) data s" "bc_metadata c1 = metadata_of ss'"
    using parse_sections_adds [OF ss] h0 by auto
  show "length (bc_sections c) = unat (bc_section_count c)"
    and "16 + 24 * unat (bc_section_count c) \<le> length data"
    and "\<forall>s \<in> set (bc_sections c). section_ok (bo_max_depth opts) data s"
    and "bc_metadata c = metadata_of (bc_sections c)"
    using adds read_table_length [OF t] parse_sections_fields [OF ss] same folded by simp_all
  show "bc_checksum_ok c \<longleftrightarrow>
      bc_header_checksum_ok c \<and> bc_trailer_checksum_ok c \<and> list_all bs_body_checksum_ok (bc_sections c)"
    using fold_checksums_ok [of c2] folded by (simp add: c [symmetric] bodies_ok_def)
qed

section \<open>Errors\<close>

definition parse_errors :: "error_code set" where
  "parse_errors = record_errors \<union> {kBadMagic, kBadVersion, kBadChecksum, kTruncated}"

lemma in_parse_errors [simp]:
  "kShortRead \<in> parse_errors" "kBadLength \<in> parse_errors" "kBadType \<in> parse_errors"
  "kDepthExceeded \<in> parse_errors" "kBadMagic \<in> parse_errors" "kBadVersion \<in> parse_errors"
  "kBadChecksum \<in> parse_errors" "kTruncated \<in> parse_errors"
  by (simp_all add: parse_errors_def record_errors_def)

lemma read_errors_parse: "read_errors \<subseteq> parse_errors"
  by (simp add: read_errors_def)

lemma throws_only_fixed_reads:
  "throws_only parse_errors (read_raw n)" "throws_only parse_errors read_u16le"
  "throws_only parse_errors read_u32le"
  by (rule throws_only_mono [OF throws_only_fixed [OF read_raw_def] read_errors_parse]
      throws_only_mono [OF throws_only_fixed [OF read_u16le_def] read_errors_parse]
      throws_only_mono [OF throws_only_fixed [OF read_u32le_def] read_errors_parse])+

lemma verify_crc_errors: "verify_crc x y strict off what = Inl e \<Longrightarrow> err_code e \<in> parse_errors"
  by (auto simp: verify_crc_def split: if_splits)

lemma throws_only_bp_header: "throws_only parse_errors (bp_parse_header data strict)"
proof -
  have crc: "throws_only parse_errors (\<lambda>r. bindE (verify_crc x y strict off w) (\<lambda>ok. Inr (f ok, r)))"
    for x y off w and f :: "bool \<Rightarrow> bp_container"
    using verify_crc_errors by (auto simp: throws_only_def bindE_eq_Inl)
  show ?thesis
    unfolding bp_parse_header_def
    by (intro throws_only_bind throws_only_fixed_reads crc)
      (auto intro!: throws_only_throw throws_only_bind throws_only_fixed_reads crc)
qed

lemma throws_only_entry: "throws_only parse_errors read_entry"
proof -
  have bad: "throws_only parse_errors (\<lambda>r. rd_throw kBadType (rd_pos r - 2) w r)" for w :: string
    by (simp add: throws_only_def rd_throw_def)
  show ?thesis
    unfolding read_entry_def
    by (intro throws_only_bind throws_only_fixed_reads)
      (auto intro!: throws_only_bind throws_only_fixed_reads throws_only_return bad split: option.split)
qed

lemma read_table_errors: "read_table data n r = Inl e \<Longrightarrow> err_code e \<in> parse_errors"
  using throws_only_times [OF throws_only_entry, of "unat n"]
  by (auto simp: read_table_def Let_def rd_throw_def throws_only_def split: if_splits)

lemma parse_section_errors:
  assumes "parse_section opts data c e = Inl err"
  shows "err_code err \<in> parse_errors"
proof -
  have "throws_only record_errors (parse_stream (bp_parse_record m b 0))" for m b
    using throws_only_until_eof [OF throws_only_parse_record] by (simp add: throws_only_def parse_stream_def)
  then have "throws_only parse_errors (parse_stream (bp_parse_record m b 0))" for m b
    by (rule throws_only_mono) (auto simp: parse_errors_def)
  then have body: "err_code err' \<in> parse_errors" if "parse_body opts e bs = Inl err'" for bs err'
    using that by (auto simp: parse_body_def bindE_eq_Inl throws_only_def split: if_splits)
  show ?thesis
    using assms by (auto simp: parse_section_def Let_def bindE_eq_Inl split: if_splits
        dest: verify_crc_errors body)
qed

lemma parse_sections_errors:
  "parse_sections opts data c es = Inl err \<Longrightarrow> err_code err \<in> parse_errors"
  by (induction es arbitrary: c) (auto simp: bindE_eq_Inl parse_section_errors)

lemma parse_trailer_errors:
  assumes "parse_trailer data strict c = Inl err"
  shows "err_code err \<in> parse_errors"
  using assms throws_only_fixed_reads(3) verify_crc_errors
  by (auto simp: parse_trailer_def Let_def bindE_eq_Inl throws_only_def split: if_splits)

lemma bp_parse_errors:
  assumes "bp_parse opts data = Inl e"
  shows "err_code e \<in> parse_errors"
  using assms throws_only_bp_header
  by (auto simp: bp_parse_def bindE_eq_Inl throws_only_def read_table_errors parse_sections_errors
      parse_trailer_errors)

end
