(* ===== verification/Bp_Build.thy ===== *)
theory Bp_Build
  imports Bp_Codec Bp_Container
begin

text \<open>
  The bytes \<^verbatim>\<open>Builder::build\<close> produces, and the round trip through \<^verbatim>\<open>parse\<close>: the offsets that are
  patched into the section table, the checksums of header, bodies and trailer, and the decoded
  sections with their metadata.
\<close>

unbundle bit_operations_syntax

section \<open>The builder invariant\<close>

definition builder_ok :: "builder \<Rightarrow> bool" where
  "builder_ok b \<longleftrightarrow> length (bb_item_count_explicit b) = length (bb_sections b)"

lemma builder_ok_calls:
  "builder_ok builder_new"
  "builder_ok b \<Longrightarrow> builder_ok (set_version v b)"
  "builder_ok b \<Longrightarrow> builder_ok (set_has_metadata on b)"
  "builder_ok b \<Longrightarrow> builder_ok (set_has_trailer_crc on b)"
  "builder_ok b \<Longrightarrow> builder_ok (add_section t sid flags b)"
  "builder_ok b \<Longrightarrow> builder_ok (add_record rec b)"
  "builder_ok b \<Longrightarrow> builder_ok (set_item_count n b)"
  by (auto simp: builder_ok_def builder_new_def set_version_def set_has_metadata_def Let_def
      set_has_trailer_crc_def add_section_def add_record_def set_item_count_def)

section \<open>Layout\<close>

type_synonym table_item = "(section_spec \<times> bool) \<times> bytes"

definition item_count_of :: "table_item \<Rightarrow> u32" where
  "item_count_of = (\<lambda>((s, explicit), body).
     if explicit then sc_item_count s else of_nat (length (sc_records s)))"

definition entry_front :: "table_item \<Rightarrow> bytes" where
  "entry_front = (\<lambda>((s, explicit), body).
     put_u16le [] (section_type_value (sc_type s)) @ put_u16le [] (sc_id s) @ put_u16le [] (sc_flags s) @ put_u16le [] 0)"

definition entry_back :: "table_item \<Rightarrow> bytes" where
  "entry_back x = put_u32le [] (of_nat (length (snd x))) @ put_u32le [] (item_count_of x) @
     put_u32le [] (crc32 (snd x))"

definition open_entry :: "table_item \<Rightarrow> bytes" where
  "open_entry x = entry_front x @ replicate 4 0 @ entry_back x"

definition table_entry :: "table_item \<Rightarrow> nat \<Rightarrow> bytes" where
  "table_entry x off = entry_front x @ put_u32le [] (of_nat off) @ entry_back x"

lemma entry_lengths [simp]:
  "length (entry_front x) = 8" "length (entry_back x) = 12" "length (open_entry x) = 24"
  "length (table_entry x off) = 24"
  by (simp_all add: entry_front_def entry_back_def open_entry_def table_entry_def length_put_fixed
      split: prod.split)

fun slots_from :: "nat \<Rightarrow> table_item list \<Rightarrow> nat list" where
  "slots_from p [] = []"
| "slots_from p (x # xs) = (p + 8) # slots_from (p + 24) xs"

fun placed :: "nat \<Rightarrow> table_item list \<Rightarrow> (table_item \<times> nat) list" where
  "placed off [] = []"
| "placed off (x # xs) = (x, off) # placed (off + length (snd x)) xs"

lemma length_placed [simp]: "length (placed off xs) = length xs"
  by (induction xs arbitrary: off) simp_all

lemma map_fst_placed [simp]: "map fst (placed off xs) = xs"
  by (induction xs arbitrary: off) simp_all

lemma put_entry_alt: "put_entry (w, slots) x = (w @ open_entry x, slots @ [length w + 8])"
  by (simp add: put_entry_def Let_def reserve_u32le_def open_entry_def entry_front_def entry_back_def
      item_count_of_def length_put_fixed split: prod.split)
    (simp add: put_append u16le_codec.appends [of w] length_put_fixed)

lemma put_entries:
  "foldl put_entry (w, slots) xs = (w @ concat (map open_entry xs), slots @ slots_from (length w) xs)"
proof (induction xs arbitrary: w slots)
  case (Cons x xs)
  then show ?case by (simp add: put_entry_alt)
qed simp

lemma put_bodies:
  "foldl put_body (Some (pre @ concat (map open_entry xs) @ tail)) (zip (slots_from (length pre) xs) (map snd xs)) =
     Some (pre @ concat (map (\<lambda>(x, off). table_entry x off)
             (placed (length pre + 24 * length xs + length tail) xs)) @ tail @ concat (map snd xs))"
proof (induction xs arbitrary: pre tail)
  case (Cons x xs)
  let ?w = "pre @ open_entry x @ concat (map open_entry xs) @ tail"
  have len: "length (concat (map open_entry xs)) = 24 * length xs" by (induction xs) simp_all
  have slot: "length pre + 8 = length (pre @ entry_front x)" by simp
  have patch: "patch_u32le ?w (length pre + 8) v =
      Some (pre @ (entry_front x @ put_u32le [] v @ entry_back x) @ concat (map open_entry xs) @ tail)" for v
    using patch_reserved [of "pre @ entry_front x" "entry_back x @ concat (map open_entry xs) @ tail" v]
    unfolding slot by (simp add: open_entry_def u32le_codec.appends [of "pre @ entry_front x"])
  have step: "put_body (Some ?w) (length pre + 8, snd x) =
      Some ((pre @ table_entry x (length ?w)) @ concat (map open_entry xs) @ (tail @ snd x))"
    by (simp add: put_body_def patch table_entry_def put_bytes_def del: length_append)
  have "length ?w = length pre + 24 * length (x # xs) + length tail" by (simp add: len)
  with Cons.IH [of "pre @ table_entry x (length ?w)" "tail @ snd x"] show ?case
    by (simp add: step [simplified] algebra_simps)
qed simp

text \<open>The items of the section table, and the bytes of a built file.\<close>

definition table_items :: "builder \<Rightarrow> table_item list" where
  "table_items b = zip (zip (bb_sections b) (bb_item_count_explicit b)) (map section_body (bb_sections b))"

definition header_flags :: "builder \<Rightarrow> u16" where
  "header_flags b = (if bb_has_metadata b then 1 else 0) OR (if bb_has_trailer_crc b then 2 else 0)"

definition header_front :: "builder \<Rightarrow> bytes" where
  "header_front b = bp_magic @ put_u16le [] (bb_version b) @ put_u16le [] (header_flags b) @
     put_u16le [] (of_nat (length (bb_sections b))) @ put_u16le [] 0"

definition built_front :: "builder \<Rightarrow> bytes" where
  "built_front b = header_front b @ put_u32le [] (crc32 (header_front b))"

definition built_table :: "builder \<Rightarrow> bytes" where
  "built_table b = concat (map (\<lambda>(x, off). table_entry x off)
     (placed (16 + 24 * length (table_items b)) (table_items b)))"

definition built_bodies :: "builder \<Rightarrow> bytes" where
  "built_bodies b = concat (map snd (table_items b))"

definition built_trailer :: "builder \<Rightarrow> bytes" where
  "built_trailer b = (if bb_has_trailer_crc b
     then put_u32le [] (crc32 (built_front b @ built_table b @ built_bodies b)) else [])"

lemma length_header_front [simp]: "length (header_front b) = 12"
  by (simp add: header_front_def bp_magic_def length_put_fixed)

lemma length_built_front [simp]: "length (built_front b) = 16"
  by (simp add: built_front_def length_put_fixed)

lemma length_table_items [simp]: "builder_ok b \<Longrightarrow> length (table_items b) = length (bb_sections b)"
  by (simp add: table_items_def builder_ok_def)

lemma length_built_table [simp]: "builder_ok b \<Longrightarrow> length (built_table b) = 24 * length (bb_sections b)"
proof -
  assume ok: "builder_ok b"
  have "length (concat (map (\<lambda>(x, off). table_entry x off) ps)) = 24 * length ps" for ps
    by (induction ps) (simp_all split: prod.split)
  then show ?thesis using ok by (simp add: built_table_def)
qed

lemma build_header_alt: "build_header b = built_front b"
proof -
  have "put_u16le (put_u16le (put_u16le (put_u16le (put_u8 (put_u8 (put_u8 (put_u8 [] 0x42) 0x50) 0x4B) 0x31)
      (bb_version b)) (header_flags b)) (of_nat (length (bb_sections b)))) 0 = header_front b"
    by (simp add: header_front_def bp_magic_def put_u8_def put_append)
  moreover have "(let flags = (0 :: u16); flags = (if bb_has_metadata b then flags OR 1 else flags)
      in if bb_has_trailer_crc b then flags OR 2 else flags) = header_flags b"
    by (simp add: header_flags_def)
  ultimately show ?thesis
    by (simp add: build_header_def built_front_def Let_def u32le_codec.appends [of "header_front b"])
qed

lemma build_alt:
  assumes "builder_ok b"
  shows "build b = Some (built_front b @ built_table b @ built_bodies b @ built_trailer b)"
proof -
  let ?xs = "table_items b"
  have entries: "foldl put_entry (build_header b, []) ?xs =
      (built_front b @ concat (map open_entry ?xs), slots_from 16 ?xs)"
    by (simp add: put_entries build_header_alt)
  have snd: "map snd ?xs = map section_body (bb_sections b)"
    using assms by (simp add: table_items_def builder_ok_def)
  have bodies: "foldl put_body (Some (built_front b @ concat (map open_entry ?xs))) (zip (slots_from 16 ?xs) (map snd ?xs)) =
      Some (built_front b @ built_table b @ built_bodies b)"
    using put_bodies [of "built_front b" ?xs "[]"] by (simp add: built_table_def built_bodies_def)
  show ?thesis
    using entries bodies unfolding snd
    by (simp add: build_def Let_def table_items_def [symmetric] built_trailer_def
        u32le_codec.appends [of "built_front b @ built_table b @ built_bodies b"])
qed

section \<open>Reading it back\<close>

definition built_header :: "builder \<Rightarrow> bp_container" where
  "built_header b = bp_container_new\<lparr>bc_version := 1, bc_flags := header_flags b,
     bc_section_count := of_nat (length (bb_sections b)), bc_has_metadata := bb_has_metadata b,
     bc_has_trailer_crc := bb_has_trailer_crc b, bc_header_checksum_ok := True\<rparr>"

lemma verify_crc_same [simp]: "verify_crc x x strict off what = Inr True"
  by (simp add: verify_crc_def)

lemma header_flag_bits:
  "(header_flags b AND 1 \<noteq> 0) = bb_has_metadata b" "(header_flags b AND 2 \<noteq> 0) = bb_has_trailer_crc b"
  by (simp_all add: header_flags_def)

lemma bp_parse_header_built:
  assumes "bb_version b = 1"
  shows "bp_parse_header (built_front b @ rest) strict (byte_reader_new (built_front b @ rest)) =
     Inr (built_header b, rd_at (built_front b) rest)"
proof -
  have magic: "rd_bind (read_raw 4) k (rd_at [] (bp_magic @ xs)) = k bp_magic (rd_at bp_magic xs)"
    for k :: "bytes \<Rightarrow> bp_container rd" and xs
    using read_raw_at [of 4 bp_magic "[]" xs] by (simp add: rd_bind_def bp_magic_def)
  have crc: "crc32 (take bp_header_bytes (built_front b @ rest)) = crc32 (header_front b)"
    by (simp add: built_front_def bp_header_bytes_def)
  have bytes: "built_front b @ rest = bp_magic @ put_u16le [] (bb_version b) @ put_u16le [] (header_flags b) @
      put_u16le [] (of_nat (length (bb_sections b))) @ put_u16le [] 0 @ put_u32le [] (crc32 (header_front b)) @ rest"
    by (simp add: built_front_def header_front_def)
  have "bp_parse_header (built_front b @ rest) strict (rd_at [] (built_front b @ rest)) =
      Inr (built_header b, rd_at (bp_magic @ put_u16le [] (bb_version b) @ put_u16le [] (header_flags b) @
      put_u16le [] (of_nat (length (bb_sections b))) @ put_u16le [] 0 @ put_u32le [] (crc32 (header_front b))) rest)"
    unfolding bp_parse_header_def crc
    by (subst (1) bytes) (simp add: magic codec_simps assms built_header_def header_flag_bits)
  then show ?thesis by (simp add: rd_at_new built_front_def header_front_def)
qed

definition entry_of :: "table_item \<Rightarrow> nat \<Rightarrow> bp_entry" where
  "entry_of x off = (case x of ((s, explicit), body) \<Rightarrow>
     \<lparr>en_type = sc_type s, en_id = sc_id s, en_flags = sc_flags s, en_offset = of_nat off,
      en_length = of_nat (length body), en_item_count = item_count_of x, en_crc32_stored = crc32 body\<rparr>)"

lemma read_entry_at:
  "read_entry (rd_at pre (table_entry x off @ rest)) = Inr (entry_of x off, rd_at (pre @ table_entry x off) rest)"
  by (cases x) (auto simp: read_entry_def table_entry_def entry_front_def entry_back_def codec_simps
      rd_return_def entry_of_def)

lemma read_entries_at:
  "read_times (length ps) read_entry (rd_at pre (concat (map (\<lambda>(x, off). table_entry x off) ps) @ rest)) =
     Inr (map (\<lambda>(x, off). entry_of x off) ps, rd_at (pre @ concat (map (\<lambda>(x, off). table_entry x off) ps)) rest)"
proof (induction ps arbitrary: pre)
  case (Cons p ps)
  obtain x off where p: "p = (x, off)" by (cases p)
  show ?case by (simp add: p rd_bind_def read_entry_at Cons.IH rd_return_def)
qed (simp add: rd_return_def)

definition decoded_records :: "section_spec \<Rightarrow> bp_record list" where
  "decoded_records s = (if sc_type s = SecFree then [] else map record_of_spec (sc_records s))"

definition item_ok :: "nat \<Rightarrow> table_item \<Rightarrow> bool" where
  "item_ok m = (\<lambda>((s, explicit), body). body = section_body s \<and>
     (\<forall>rec \<in> set (sc_records s). spec_ok rec \<and> spec_height rec \<le> m))"

lemma parse_body_built:
  assumes "item_ok (bo_max_depth opts) ((s, explicit), body)"
  shows "parse_body opts (entry_of ((s, explicit), body) off) body = Inr (decoded_records s)"
proof (cases "sc_type s = SecFree")
  case True
  then show ?thesis by (simp add: parse_body_def entry_of_def decoded_records_def)
next
  case False
  have "\<forall>rec \<in> set (sc_records s). decodes (bp_parse_record (bo_max_depth opts) (unat (of_nat off :: u32)) 0) rec"
    using assms by (auto simp: item_ok_def intro: record_decodes)
  from read_until_eof_at [OF this order_refl, of "[]"] False assms show ?thesis
    by (simp add: parse_body_def entry_of_def decoded_records_def parse_stream_def rd_at_new section_body_alt
        item_ok_def)
qed

definition add_item :: "bp_container \<Rightarrow> table_item \<times> nat \<Rightarrow> bp_container" where
  "add_item c = (\<lambda>(x, off). append_section c (entry_of x off) True (decoded_records (fst (fst x))))"

lemma parse_sections_built:
  assumes "length (pre @ concat (map snd xs) @ post) < 2 ^ 32" and "\<forall>x \<in> set xs. item_ok (bo_max_depth opts) x"
  shows "parse_sections opts (pre @ concat (map snd xs) @ post) c
      (map (\<lambda>(x, off). entry_of x off) (placed (length pre) xs)) =
    Inr (foldl add_item c (placed (length pre) xs))"
  using assms
proof (induction xs arbitrary: pre c)
  case (Cons x xs)
  obtain s ex body where x: "x = ((s, ex), body)" by (metis prod.exhaust)
  let ?rest = "concat (map snd xs) @ post" and ?e = "entry_of x (length pre)"
  have small: "length pre < 2 ^ 32" "length body < 2 ^ 32" using Cons.prems(1) by (simp_all add: x)
  have fields: "unat (en_offset ?e) = length pre" "unat (en_length ?e) = length body"
      "en_crc32_stored ?e = crc32 body"
    using small by (simp_all add: entry_of_def x unat_of_nat)
  have "parse_section opts (pre @ body @ ?rest) c ?e = Inr (append_section c ?e True (decoded_records s))"
    using parse_body_built [of opts s ex body "length pre"] Cons.prems(2)
    unfolding parse_section_ok fields by (intro conjI exI [of _ True] exI [of _ "decoded_records s"]) (simp_all add: x)
  then show ?case
    using Cons.IH [of "pre @ body" "add_item c (x, length pre)"] Cons.prems
    by (simp add: x add_item_def)
qed simp

lemma foldl_add_item:
  "bc_sections (foldl add_item c ps) = bc_sections c @ map (\<lambda>(x, off).
     \<lparr>bs_type = sc_type (fst (fst x)), bs_id = sc_id (fst (fst x)), bs_flags = sc_flags (fst (fst x)),
      bs_offset = of_nat off, bs_length = of_nat (length (snd x)), bs_item_count = item_count_of x,
      bs_crc32_stored = crc32 (snd x), bs_body_checksum_ok = True,
      bs_records = decoded_records (fst (fst x))\<rparr>) ps"
  "bc_metadata (foldl add_item c ps) = bc_metadata c @ concat (map (\<lambda>(x, off).
     if sc_type (fst (fst x)) = SecMetadata then collect_metadata (decoded_records (fst (fst x))) else []) ps)"
  "bc_header_checksum_ok (foldl add_item c ps) = bc_header_checksum_ok c"
  "bc_trailer_checksum_ok (foldl add_item c ps) = bc_trailer_checksum_ok c"
  "bc_has_trailer_crc (foldl add_item c ps) = bc_has_trailer_crc c"
  "bc_has_metadata (foldl add_item c ps) = bc_has_metadata c"
  "bc_version (foldl add_item c ps) = bc_version c"
  by (induction ps arbitrary: c) (auto simp: add_item_def entry_of_def append_section_def split: prod.splits)

text \<open>A builder whose content the format can hold: the ranges of counts, sizes and nesting.\<close>

definition builder_fits :: "nat \<Rightarrow> builder \<Rightarrow> bool" where
  "builder_fits m b \<longleftrightarrow>
     builder_ok b \<and> bb_version b = 1 \<and> length (bb_sections b) < 2 ^ 16 \<and>
     (\<forall>s \<in> set (bb_sections b). \<forall>rec \<in> set (sc_records s). spec_ok rec \<and> spec_height rec \<le> m) \<and>
     20 + 24 * length (bb_sections b) + length (concat (map section_body (bb_sections b))) < 2 ^ 32"

lemma table_items_ok:
  assumes "builder_fits m b"
  shows "\<forall>x \<in> set (table_items b). item_ok m x"
proof
  fix x assume "x \<in> set (table_items b)"
  then obtain i where "i < length (bb_sections b)" and "x = ((bb_sections b ! i, bb_item_count_explicit b ! i),
      section_body (bb_sections b ! i))"
    by (auto simp: table_items_def set_zip)
  moreover have "\<forall>rec \<in> set (sc_records (bb_sections b ! i)). spec_ok rec \<and> spec_height rec \<le> m"
    using assms \<open>i < length (bb_sections b)\<close> nth_mem unfolding builder_fits_def by blast
  ultimately show "item_ok m x" by (simp add: item_ok_def)
qed

lemma parse_trailer_built:
  assumes "bc_has_trailer_crc c = trailer" and "bc_trailer_checksum_ok c" and "16 \<le> length w"
  shows "parse_trailer (w @ (if trailer then put_u32le [] (crc32 w) else [])) strict c = Inr c"
proof (cases trailer)
  case True
  have "read_u32le (byte_reader_new (put_u32le [] (crc32 w))) = Inr (crc32 w, rd_at (put_u32le [] (crc32 w)) [])"
    using u32le_codec.get_put [of "[]" "crc32 w" "[]"] by (simp add: rd_at_new)
  then show ?thesis
    using assms True by (simp add: parse_trailer_def bp_sizes length_put_fixed Let_def)
qed (use assms in \<open>simp add: parse_trailer_def\<close>)

lemma build_parse:
  assumes fits: "builder_fits (bo_max_depth opts) b"
  shows "\<exists>data. build b = Some data \<and> bp_parse opts data = Inr (fold_checksums
      (foldl add_item (built_header b) (placed (16 + 24 * length (bb_sections b)) (table_items b))))"
proof -
  have ok: "builder_ok b" and v: "bb_version b = 1" and n: "length (bb_sections b) < 2 ^ 16"
    using fits by (simp_all add: builder_fits_def)
  let ?xs = "table_items b" and ?t = "built_trailer b"
  let ?data = "built_front b @ built_table b @ built_bodies b @ ?t"
  let ?c = "foldl add_item (built_header b) (placed (16 + 24 * length (bb_sections b)) ?xs)"
  have snds: "map snd ?xs = map section_body (bb_sections b)"
    using ok by (simp add: table_items_def builder_ok_def)
  have small: "length ?data < 2 ^ 32"
    using fits by (simp add: builder_fits_def built_bodies_def snds built_trailer_def length_put_fixed)
  have count: "unat (of_nat (length (bb_sections b)) :: u16) = length (bb_sections b)"
    using n by (simp add: unat_of_nat)
  have header: "bp_parse_header ?data (bo_strict opts) (byte_reader_new ?data) =
      Inr (built_header b, rd_at (built_front b) (built_table b @ built_bodies b @ ?t))"
    by (rule bp_parse_header_built [OF v])
  have table: "read_table ?data (bc_section_count (built_header b))
      (rd_at (built_front b) (built_table b @ built_bodies b @ ?t)) =
    Inr (map (\<lambda>(x, off). entry_of x off) (placed (16 + 24 * length (bb_sections b)) ?xs),
      rd_at (built_front b @ built_table b) (built_bodies b @ ?t))"
    using read_entries_at [of "placed (16 + 24 * length (bb_sections b)) ?xs" "built_front b" "built_bodies b @ ?t"]
      ok count
    by (simp add: read_table_def built_header_def bp_sizes built_table_def [symmetric])
      (simp add: built_table_def)
  have sections: "parse_sections opts ?data (built_header b)
      (map (\<lambda>(x, off). entry_of x off) (placed (16 + 24 * length (bb_sections b)) ?xs)) = Inr ?c"
    using parse_sections_built [of "built_front b @ built_table b" ?xs ?t opts "built_header b"] small
      table_items_ok [OF fits] ok
    by (simp add: built_bodies_def)
  have trailer: "parse_trailer ?data (bo_strict opts) ?c = Inr ?c"
    using parse_trailer_built [of ?c "bb_has_trailer_crc b" "built_front b @ built_table b @ built_bodies b"]
    by (simp add: built_trailer_def foldl_add_item built_header_def bp_container_new_def)
  have "bp_parse opts ?data = Inr (fold_checksums ?c)"
    by (simp only: bp_parse_def header table sections trailer bindE_Inr prod.case)
  then show ?thesis using build_alt [OF ok] by blast
qed

lemma placed_parts:
  "map (\<lambda>(x, off). f x) (placed off xs) = map f xs"
  by (induction xs arbitrary: off) simp_all

lemma build_parse_content:
  assumes fits: "builder_fits (bo_max_depth opts) b"
  obtains data c where "build b = Some data" and "bp_parse opts data = Inr c" and "bc_checksum_ok c"
    and "bc_has_metadata c = bb_has_metadata b" and "bc_has_trailer_crc c = bb_has_trailer_crc b"
    and "map (\<lambda>s. (bs_type s, bs_id s, bs_flags s, bs_records s)) (bc_sections c) =
      map (\<lambda>s. (sc_type s, sc_id s, sc_flags s, decoded_records s)) (bb_sections b)"
    and "map bs_item_count (bc_sections c) =
      map (\<lambda>(s, explicit). if explicit then sc_item_count s else of_nat (length (sc_records s)))
        (zip (bb_sections b) (bb_item_count_explicit b))"
proof -
  let ?ps = "placed (16 + 24 * length (bb_sections b)) (table_items b)"
  let ?c = "foldl add_item (built_header b) ?ps"
  obtain data where data: "build b = Some data" "bp_parse opts data = Inr (fold_checksums ?c)"
    using build_parse [OF fits] by blast
  have ok: "builder_ok b" using fits by (simp add: builder_fits_def)
  have secs: "bc_sections (fold_checksums ?c) = bc_sections ?c" by (simp add: fold_checksums_def)
  have items: "map (fst \<circ> fst) (table_items b) = bb_sections b"
      "map fst (table_items b) = zip (bb_sections b) (bb_item_count_explicit b)"
    using ok by (simp_all add: table_items_def builder_ok_def map_fst_zip flip: map_map)
  have none: "bc_sections (built_header b) = []" by (simp add: built_header_def bp_container_new_def)
  show ?thesis
  proof (rule that [OF data])
    have "list_all bs_body_checksum_ok (bc_sections ?c)"
      by (auto simp: foldl_add_item none list_all_iff)
    then show "bc_checksum_ok (fold_checksums ?c)"
      by (simp add: fold_checksums_ok bodies_ok_def foldl_add_item)
        (simp add: built_header_def bp_container_new_def)
    show "bc_has_metadata (fold_checksums ?c) = bb_has_metadata b"
      "bc_has_trailer_crc (fold_checksums ?c) = bb_has_trailer_crc b"
      by (simp_all add: fold_checksums_def foldl_add_item built_header_def)
    have "map (\<lambda>s. (bs_type s, bs_id s, bs_flags s, bs_records s)) (bc_sections ?c) =
        map (\<lambda>(x, off). (\<lambda>x. (sc_type (fst (fst x)), sc_id (fst (fst x)), sc_flags (fst (fst x)),
          decoded_records (fst (fst x)))) x) ?ps"
      by (auto simp: foldl_add_item none)
    also have "\<dots> = map (\<lambda>s. (sc_type s, sc_id s, sc_flags s, decoded_records s)) (map (fst \<circ> fst) (table_items b))"
      unfolding placed_parts by simp
    finally show "map (\<lambda>s. (bs_type s, bs_id s, bs_flags s, bs_records s)) (bc_sections (fold_checksums ?c)) =
        map (\<lambda>s. (sc_type s, sc_id s, sc_flags s, decoded_records s)) (bb_sections b)"
      unfolding secs items .
    have "map bs_item_count (bc_sections ?c) = map (\<lambda>(x, off). item_count_of x) ?ps"
      by (auto simp: foldl_add_item none)
    also have "\<dots> = map (\<lambda>(s, explicit). if explicit then sc_item_count s else of_nat (length (sc_records s)))
        (map fst (table_items b))"
      unfolding placed_parts by (auto simp: item_count_of_def split: prod.split)
    finally show "map bs_item_count (bc_sections (fold_checksums ?c)) =
        map (\<lambda>(s, explicit). if explicit then sc_item_count s else of_nat (length (sc_records s)))
          (zip (bb_sections b) (bb_item_count_explicit b))"
      unfolding secs items .
  qed
qed

end
