(* ===== verification/Bp_Visit.thy ===== *)
theory Bp_Visit
  imports Bp_Container
begin

text \<open>
  The read-only facilities of \<^verbatim>\<open>binpack\<close> over a decoded container: the visitor and its traversal
  (\<^verbatim>\<open>include/binpack/visitor.hpp\<close>, \<^verbatim>\<open>src/binpack/visitor.cpp\<close>) and the queries
  (\<^verbatim>\<open>src/binpack/query.cpp\<close>). A visitor is the record of its callbacks, each of which transforms the
  state of the visitor; a query that returns a pointer into the container returns the node as an option.
\<close>

section \<open>Visitor\<close>

record 's record_visitor =
  v_enter_section :: "bp_section \<Rightarrow> nat \<Rightarrow> 's \<Rightarrow> 's"
  v_leave_section :: "bp_section \<Rightarrow> nat \<Rightarrow> 's \<Rightarrow> 's"
  v_visit_scalar :: "bp_record \<Rightarrow> nat \<Rightarrow> nat \<Rightarrow> 's \<Rightarrow> 's"
  v_enter_array :: "bp_record \<Rightarrow> nat \<Rightarrow> nat \<Rightarrow> 's \<Rightarrow> 's"
  v_leave_array :: "bp_record \<Rightarrow> nat \<Rightarrow> nat \<Rightarrow> 's \<Rightarrow> 's"
  v_enter_group :: "bp_record \<Rightarrow> nat \<Rightarrow> nat \<Rightarrow> 's \<Rightarrow> 's"
  v_leave_group :: "bp_record \<Rightarrow> nat \<Rightarrow> nat \<Rightarrow> 's \<Rightarrow> 's"
  v_enter_keyval :: "bp_record \<Rightarrow> nat \<Rightarrow> nat \<Rightarrow> 's \<Rightarrow> 's"
  v_leave_keyval :: "bp_record \<Rightarrow> nat \<Rightarrow> nat \<Rightarrow> 's \<Rightarrow> 's"

definition default_visitor :: "'s record_visitor" where
  "default_visitor = \<lparr>v_enter_section = \<lambda>s i st. st, v_leave_section = \<lambda>s i st. st,
     v_visit_scalar = \<lambda>r d i st. st, v_enter_array = \<lambda>r d i st. st, v_leave_array = \<lambda>r d i st. st,
     v_enter_group = \<lambda>r d i st. st, v_leave_group = \<lambda>r d i st. st,
     v_enter_keyval = \<lambda>r d i st. st, v_leave_keyval = \<lambda>r d i st. st\<rparr>"

lemma size_child: "c \<in> set (rc_children rec) \<Longrightarrow> size c < size rec"
  by (cases rec) (simp add: size_list_estimation' less_Suc_eq_le trans_le_add1 trans_le_add2)

lemma enumerate_child: "(i, c) \<in> set (enumerate n cs) \<Longrightarrow> c \<in> set cs"
  by (auto simp: in_set_enumerate_eq)

function walk_record :: "'s record_visitor \<Rightarrow> bp_record \<Rightarrow> nat \<Rightarrow> nat \<Rightarrow> 's \<Rightarrow> 's" where
  "walk_record v rec depth index st =
     (case rc_tag rec of
        TagArray \<Rightarrow> v_leave_array v rec depth index
          (fold (\<lambda>(i, c) st. walk_record v c (depth + 1) i st) (enumerate 0 (rc_children rec))
            (v_enter_array v rec depth index st))
      | TagGroup \<Rightarrow> v_leave_group v rec depth index
          (fold (\<lambda>(i, c) st. walk_record v c (depth + 1) i st) (enumerate 0 (rc_children rec))
            (v_enter_group v rec depth index st))
      | TagKeyval \<Rightarrow> v_leave_keyval v rec depth index
          (fold (\<lambda>(i, c) st. walk_record v c (depth + 1) i st) (enumerate 0 (rc_children rec))
            (v_enter_keyval v rec depth index st))
      | _ \<Rightarrow> v_visit_scalar v rec depth index st)"
  by pat_completeness auto
termination
  by (relation "measure (\<lambda>(v, rec, d, i, st). size rec)") (auto dest!: enumerate_child size_child)

declare walk_record.simps [simp del]

definition walk :: "'s record_visitor \<Rightarrow> bp_container \<Rightarrow> 's \<Rightarrow> 's" where
  "walk v c =
     fold (\<lambda>(si, s) st. v_leave_section v s si
       (fold (\<lambda>(i, rec) st. walk_record v rec 0 i st) (enumerate 0 (bs_records s)) (v_enter_section v s si st)))
     (enumerate 0 (bc_sections c))"

section \<open>Queries\<close>

definition find_section :: "bp_container \<Rightarrow> section_type \<Rightarrow> bp_section option" where
  "find_section c t = find (\<lambda>s. bs_type s = t) (bc_sections c)"

definition find_section_by_id :: "bp_container \<Rightarrow> u16 \<Rightarrow> bp_section option" where
  "find_section_by_id c sid = find (\<lambda>s. bs_id s = sid) (bc_sections c)"

definition find_sections :: "bp_container \<Rightarrow> section_type \<Rightarrow> bp_section list" where
  "find_sections c t = filter (\<lambda>s. bs_type s = t) (bc_sections c)"

definition metadata_value :: "bp_container \<Rightarrow> string \<Rightarrow> bp_record option" where
  "metadata_value c key = map_option snd (find (\<lambda>kv. fst kv = key) (bc_metadata c))"

definition metadata_string :: "bp_container \<Rightarrow> string \<Rightarrow> string option" where
  "metadata_string c key =
     (case metadata_value c key of
        Some v \<Rightarrow> if rc_tag v = TagString then Some (rc_str v) else None
      | None \<Rightarrow> None)"

definition metadata_uint :: "bp_container \<Rightarrow> string \<Rightarrow> u64 option" where
  "metadata_uint c key =
     (case metadata_value c key of
        Some v \<Rightarrow> if rc_tag v = TagUint then Some (rc_u64 v) else None
      | None \<Rightarrow> None)"

definition metadata_int :: "bp_container \<Rightarrow> string \<Rightarrow> i64 option" where
  "metadata_int c key =
     (case metadata_value c key of
        Some v \<Rightarrow> if rc_tag v = TagInt then Some (rc_i64 v) else None
      | None \<Rightarrow> None)"

function collect_one :: "record_tag \<Rightarrow> bool \<Rightarrow> bp_record \<Rightarrow> bp_record list \<Rightarrow> bp_record list" where
  "collect_one tag recursive rec out =
     (let out = (if rc_tag rec = tag then out @ [rec] else out)
      in if recursive \<and> rc_children rec \<noteq> []
         then fold (\<lambda>c out. collect_one tag recursive c out) (rc_children rec) out
         else out)"
  by pat_completeness auto
termination
  by (relation "measure (\<lambda>(t, b, rec, out). size rec)") (auto dest: size_child)

declare collect_one.simps [simp del]

definition collect_into :: "bp_record list \<Rightarrow> record_tag \<Rightarrow> bool \<Rightarrow> bp_record list \<Rightarrow> bp_record list" where
  "collect_into recs tag recursive out = fold (\<lambda>c out. collect_one tag recursive c out) recs out"

definition collect_records :: "bp_container \<Rightarrow> record_tag \<Rightarrow> bool \<Rightarrow> bp_record list" where
  "collect_records c tag recursive =
     fold (\<lambda>s out. collect_into (bs_records s) tag recursive out) (bc_sections c) []"

definition collect_section_records :: "bp_section \<Rightarrow> record_tag \<Rightarrow> bool \<Rightarrow> bp_record list" where
  "collect_section_records s tag recursive = collect_into (bs_records s) tag recursive []"

section \<open>The traversal visits the tree in preorder\<close>

text \<open>A record with everything below it, parents first.\<close>

function preorder :: "bp_record \<Rightarrow> bp_record list" where
  "preorder rec = rec # concat (map preorder (rc_children rec))"
  by pat_completeness auto
termination
  by (relation "measure size") (auto dest: size_child)

declare preorder.simps [simp del]

lemma collect_one_recursive: "collect_one tag True rec out = out @ filter (\<lambda>r. rc_tag r = tag) (preorder rec)"
proof (induction rec arbitrary: out rule: preorder.induct)
  case (1 rec)
  have "fold (\<lambda>c out. collect_one tag True c out) cs out =
      out @ filter (\<lambda>r. rc_tag r = tag) (concat (map preorder cs))" if "set cs \<subseteq> set (rc_children rec)" for cs out
    using that by (induction cs arbitrary: out) (simp_all add: 1)
  then show ?case
    by (simp add: collect_one.simps [of tag True rec] preorder.simps [of rec] Let_def)
qed

lemma collect_into_recursive:
  "collect_into recs tag True out = out @ filter (\<lambda>r. rc_tag r = tag) (concat (map preorder recs))"
  by (induction recs arbitrary: out) (simp_all add: collect_into_def collect_one_recursive)

lemma collect_into_flat: "collect_into recs tag False out = out @ filter (\<lambda>r. rc_tag r = tag) recs"
  by (induction recs arbitrary: out) (simp_all add: collect_into_def collect_one.simps)

lemma collect_records_spec:
  "collect_records c tag recursive = filter (\<lambda>r. rc_tag r = tag)
     (concat (map (\<lambda>s. if recursive then concat (map preorder (bs_records s)) else bs_records s) (bc_sections c)))"
proof -
  have "fold (\<lambda>s out. collect_into (bs_records s) tag recursive out) ss out = out @ filter (\<lambda>r. rc_tag r = tag)
      (concat (map (\<lambda>s. if recursive then concat (map preorder (bs_records s)) else bs_records s) ss))"
    for ss :: "bp_section list" and out
    by (induction ss arbitrary: out) (cases recursive; simp add: collect_into_recursive collect_into_flat)+
  then show ?thesis by (simp add: collect_records_def)
qed

text \<open>
  A visitor whose scalar and enter callbacks all do \<open>f\<close> and whose leave callbacks do nothing folds \<open>f\<close>
  over the preorder of a tree whose scalars have no children.
\<close>

definition entering_visitor :: "(bp_record \<Rightarrow> 's \<Rightarrow> 's) \<Rightarrow> 's record_visitor" where
  "entering_visitor f = default_visitor\<lparr>v_visit_scalar := \<lambda>r d i. f r, v_enter_array := \<lambda>r d i. f r,
     v_enter_group := \<lambda>r d i. f r, v_enter_keyval := \<lambda>r d i. f r\<rparr>"

lemma entering_fields [simp]:
  "v_visit_scalar (entering_visitor f) r d i = f r" "v_enter_array (entering_visitor f) r d i = f r"
  "v_enter_group (entering_visitor f) r d i = f r" "v_enter_keyval (entering_visitor f) r d i = f r"
  "v_leave_array (entering_visitor f) r d i st = st" "v_leave_group (entering_visitor f) r d i st = st"
  "v_leave_keyval (entering_visitor f) r d i st = st" "v_enter_section (entering_visitor f) s i st = st"
  "v_leave_section (entering_visitor f) s i st = st"
  by (simp_all add: entering_visitor_def default_visitor_def)

lemma rec_ok_children:
  assumes "rec_ok n rec"
  shows "rc_tag rec \<in> {TagArray, TagGroup, TagKeyval} \<or> rc_children rec = []"
    and "c \<in> set (rc_children rec) \<Longrightarrow> 0 < n \<and> rec_ok (n - 1) c"
    and "rc_tag rec = TagKeyval \<Longrightarrow> length (rc_children rec) = 1"
  using assms by (cases rec; cases "rc_tag rec"; auto)+

lemma walk_record_entering:
  "rec_ok n rec \<Longrightarrow> walk_record (entering_visitor f) rec d i st = fold f (preorder rec) st"
proof (induction rec arbitrary: n d i st rule: preorder.induct)
  case (1 rec)
  have children: "fold (\<lambda>(i, c) st. walk_record (entering_visitor f) c (d + 1) i st) (enumerate k cs) st =
      fold f (concat (map preorder cs)) st" if "set cs \<subseteq> set (rc_children rec)" for k cs st
    using that
  proof (induction cs arbitrary: k st)
    case (Cons c cs)
    then show ?case using "1.IH" [of c "n - 1" "d + 1" k] rec_ok_children(2) [OF 1(2), of c] by simp
  qed simp
  show ?case
    using rec_ok_children(1) [OF 1(2)] children [OF subset_refl]
    by (cases "rc_tag rec") (simp_all add: walk_record.simps [of _ rec] preorder.simps [of rec])
qed

lemma walk_entering:
  assumes "\<forall>s \<in> set (bc_sections c). \<forall>rec \<in> set (bs_records s). rec_ok n rec"
  shows "walk (entering_visitor f) c st = fold f (concat (map (\<lambda>s. concat (map preorder (bs_records s))) (bc_sections c))) st"
proof -
  have records: "fold (\<lambda>(i, rec) st. walk_record (entering_visitor f) rec 0 i st) (enumerate k recs) st =
      fold f (concat (map preorder recs)) st" if "\<forall>rec \<in> set recs. rec_ok n rec" for k recs st
    using that by (induction recs arbitrary: k st) (simp_all add: walk_record_entering [of n])
  have "fold (\<lambda>(si, s) st. v_leave_section (entering_visitor f) s si
       (fold (\<lambda>(i, rec) st. walk_record (entering_visitor f) rec 0 i st) (enumerate 0 (bs_records s))
         (v_enter_section (entering_visitor f) s si st))) (enumerate k ss) st =
      fold f (concat (map (\<lambda>s. concat (map preorder (bs_records s))) ss)) st"
    if "\<forall>s \<in> set ss. \<forall>rec \<in> set (bs_records s). rec_ok n rec" for k st and ss :: "bp_section list"
    using that by (induction ss arbitrary: k st) (simp_all add: records)
  then show ?thesis using assms by (simp add: walk_def)
qed

end
