(* ===== verification/Bp_Validate.thy ===== *)
theory Bp_Validate
  imports Bp_Visit Hexdump
begin

text \<open>
  \<^verbatim>\<open>validate\<close> (\<^verbatim>\<open>include/binpack/visitor.hpp\<close>, \<^verbatim>\<open>src/binpack/validate.cpp\<close>): the report is the
  list of issues, to which every check appends. On a parsed container the report is decided by the
  declared item counts and the uniqueness of the metadata keys.
\<close>

section \<open>Reports\<close>

datatype issue_severity = SevWarning | SevError

datatype issue_kind =
  EmptyGroup | EmptyArray | DuplicateMetadataKey | OversizedBlob | ItemCountMismatch
| MalformedKeyval | DepthExceeded | EmptyMetadataKey

fun issue_kind_name :: "issue_kind \<Rightarrow> string" where
  "issue_kind_name EmptyGroup = ''empty_group''"
| "issue_kind_name EmptyArray = ''empty_array''"
| "issue_kind_name DuplicateMetadataKey = ''duplicate_metadata_key''"
| "issue_kind_name OversizedBlob = ''oversized_blob''"
| "issue_kind_name ItemCountMismatch = ''item_count_mismatch''"
| "issue_kind_name MalformedKeyval = ''malformed_keyval''"
| "issue_kind_name DepthExceeded = ''depth_exceeded''"
| "issue_kind_name EmptyMetadataKey = ''empty_metadata_key''"

record issue =
  is_severity :: issue_severity
  is_kind :: issue_kind
  is_section_index :: nat
  is_path :: string
  is_detail :: string

record validate_options =
  vo_max_blob_bytes :: nat
  vo_max_depth :: nat
  vo_check_item_count :: bool

definition default_validate_options :: validate_options where
  "default_validate_options = \<lparr>vo_max_blob_bytes = 1048576, vo_max_depth = 32, vo_check_item_count = True\<rparr>"

definition report_ok :: "issue list \<Rightarrow> bool" where
  "report_ok issues \<longleftrightarrow> list_all (\<lambda>i. is_severity i \<noteq> SevError) issues"

definition error_count :: "issue list \<Rightarrow> nat" where
  "error_count issues = length (filter (\<lambda>i. is_severity i = SevError) issues)"

definition warning_count :: "issue list \<Rightarrow> nat" where
  "warning_count issues = length (filter (\<lambda>i. is_severity i = SevWarning) issues)"

section \<open>Checks\<close>

definition component :: "string \<Rightarrow> nat \<Rightarrow> string" where
  "component kind index = kind @ ''['' @ dec_of_nat index @ '']''"

definition add_issue ::
  "issue_severity \<Rightarrow> issue_kind \<Rightarrow> nat \<Rightarrow> string \<Rightarrow> string \<Rightarrow> issue list \<Rightarrow> issue list" where
  "add_issue sev kind section_index path detail report =
     report @ [\<lparr>is_severity = sev, is_kind = kind, is_section_index = section_index, is_path = path,
       is_detail = detail\<rparr>]"

function validate_record ::
  "validate_options \<Rightarrow> nat \<Rightarrow> bp_record \<Rightarrow> string \<Rightarrow> nat \<Rightarrow> issue list \<Rightarrow> issue list" where
  "validate_record opts section_index rec path depth report =
     (if vo_max_depth opts < depth
      then add_issue SevError DepthExceeded section_index path
             (''nesting depth '' @ dec_of_nat depth @ '' exceeds limit '' @ dec_of_nat (vo_max_depth opts)) report
      else case rc_tag rec of
        TagBlob \<Rightarrow>
          (if vo_max_blob_bytes opts < length (rc_blob rec)
           then add_issue SevWarning OversizedBlob section_index path
                  (''blob of '' @ dec_of_nat (length (rc_blob rec)) @ '' bytes exceeds limit '' @
                   dec_of_nat (vo_max_blob_bytes opts)) report
           else report)
      | TagArray \<Rightarrow>
          (let report = (if rc_children rec = []
                 then add_issue SevWarning EmptyArray section_index path ''array has no elements'' report
                 else report)
           in fold (\<lambda>(i, c) report. validate_record opts section_index c (path @ ''/'' @ component ''array'' i)
                 (depth + 1) report) (enumerate 0 (rc_children rec)) report)
      | TagGroup \<Rightarrow>
          (let report = (if rc_children rec = []
                 then add_issue SevWarning EmptyGroup section_index path ''group has no records'' report
                 else report)
           in fold (\<lambda>(i, c) report. validate_record opts section_index c (path @ ''/'' @ component ''group'' i)
                 (depth + 1) report) (enumerate 0 (rc_children rec)) report)
      | TagKeyval \<Rightarrow>
          (let report = (if length (rc_children rec) \<noteq> 1
                 then add_issue SevError MalformedKeyval section_index path
                        (''keyval has '' @ dec_of_nat (length (rc_children rec)) @ '' children (expected 1)'') report
                 else report);
               report = (if rc_key rec = []
                 then add_issue SevWarning EmptyMetadataKey section_index path ''keyval has an empty key'' report
                 else report)
           in fold (\<lambda>(i, c) report. validate_record opts section_index c (path @ ''/'' @ component ''keyval'' i)
                 (depth + 1) report) (enumerate 0 (rc_children rec)) report)
      | _ \<Rightarrow> report)"
  by pat_completeness auto
termination
  by (relation "measure (\<lambda>(opts, si, rec, path, d, report). size rec)") (auto dest!: enumerate_child size_child)

declare validate_record.simps [simp del]

definition validate_section :: "validate_options \<Rightarrow> nat \<times> bp_section \<Rightarrow> issue list \<Rightarrow> issue list" where
  "validate_section opts si_s report =
     (let (si, s) = si_s;
          base = component ''section'' si;
          report = (if vo_check_item_count opts \<and> bs_type s \<noteq> SecFree \<and>
                        unat (bs_item_count s) \<noteq> length (bs_records s)
             then add_issue SevError ItemCountMismatch si base
                    (''declared item_count '' @ dec_of_nat (unat (bs_item_count s)) @
                     '' != actual record count '' @ dec_of_nat (length (bs_records s))) report
             else report)
      in fold (\<lambda>(i, rec) report. validate_record opts si rec (base @ ''/'' @ component ''record'' i) 0 report)
           (enumerate 0 (bs_records s)) report)"

definition check_key :: "nat \<times> string \<times> bp_record \<Rightarrow> (string \<rightharpoonup> nat) \<times> issue list \<Rightarrow> (string \<rightharpoonup> nat) \<times> issue list" where
  "check_key = (\<lambda>(i, key, v) (seen, report).
     case seen key of
       Some first \<Rightarrow>
         (seen, add_issue SevError DuplicateMetadataKey 0 (''metadata['' @ dec_of_nat i @ '']'')
            (''metadata key '' @ [CHR 0x22] @ key @ [CHR 0x22] @ '' first seen at index '' @ dec_of_nat first) report)
     | None \<Rightarrow> (seen(key \<mapsto> i), report))"

definition validate :: "bp_container \<Rightarrow> validate_options \<Rightarrow> issue list" where
  "validate c opts =
     (let report = fold (validate_section opts) (enumerate 0 (bc_sections c)) []
      in snd (fold check_key (enumerate 0 (bc_metadata c)) (Map.empty, report)))"

definition validate_default :: "bp_container \<Rightarrow> issue list" where
  "validate_default c = validate c default_validate_options"

section \<open>The errors of a parsed container\<close>

lemma report_ok_iff: "report_ok report \<longleftrightarrow> error_count report = 0"
  by (simp add: report_ok_def error_count_def filter_empty_conv list_all_iff)

lemma error_count_simps [simp]:
  "error_count [] = 0" "error_count (xs @ ys) = error_count xs + error_count ys"
  "error_count (add_issue SevWarning kind si path detail report) = error_count report"
  "error_count (add_issue SevError kind si path detail report) = Suc (error_count report)"
  by (simp_all add: error_count_def add_issue_def)

lemma fold_same_count:
  assumes "\<And>i c report. (i, c) \<in> set ics \<Longrightarrow> error_count (step i c report) = error_count report"
  shows "error_count (fold (\<lambda>(i, c). step i c) ics report) = error_count report"
  using assms by (induction ics arbitrary: report) auto

lemma validate_record_no_error:
  "rec_ok n rec \<Longrightarrow> depth + n \<le> vo_max_depth opts \<Longrightarrow>
     error_count (validate_record opts si rec path depth report) = error_count report"
proof (induction rec arbitrary: n path depth report rule: preorder.induct)
  case (1 rec)
  have children: "error_count (fold (\<lambda>(i, c). validate_record opts si c (p i) (Suc depth))
      (enumerate 0 (rc_children rec)) report') = error_count report'" for p report'
  proof (rule fold_same_count)
    fix i c report assume c: "(i, c) \<in> set (enumerate 0 (rc_children rec))"
    then have mem: "c \<in> set (rc_children rec)" by (rule enumerate_child)
    with rec_ok_children(2) [OF 1(2)] have "0 < n" "rec_ok (n - 1) c" by blast+
    then show "error_count (validate_record opts si c (p i) (Suc depth) report) = error_count report"
      using "1.IH" [OF mem, of "n - 1"] 1(3) by simp
  qed
  have keyval: "length (rc_children rec) = 1" if "rc_tag rec = TagKeyval"
    using rec_ok_children(3) [OF 1(2) that] .
  show ?case
    using 1(3) keyval
    by (cases "rc_tag rec") (simp_all add: validate_record.simps [of opts si rec] children Let_def)
qed

definition count_mismatch :: "bp_section \<Rightarrow> bool" where
  "count_mismatch s \<longleftrightarrow> bs_type s \<noteq> SecFree \<and> unat (bs_item_count s) \<noteq> length (bs_records s)"

lemma validate_section_errors:
  assumes "\<forall>rec \<in> set (bs_records s). rec_ok n rec" and "n \<le> vo_max_depth opts"
  shows "error_count (validate_section opts (si, s) report) =
     error_count report + of_bool (vo_check_item_count opts \<and> count_mismatch s)"
proof -
  have "error_count (fold (\<lambda>(i, rec). validate_record opts si rec (p i) 0) (enumerate 0 (bs_records s)) report') =
      error_count report'" for p report'
    by (rule fold_same_count)
      (use assms in \<open>auto dest!: enumerate_child intro: validate_record_no_error\<close>)
  then show ?thesis by (simp add: validate_section_def Let_def count_mismatch_def)
qed

lemma validate_sections_errors:
  assumes "\<forall>s \<in> set ss. \<forall>rec \<in> set (bs_records s). rec_ok n rec" and "n \<le> vo_max_depth opts"
  shows "error_count (fold (validate_section opts) (enumerate k ss) report) =
     error_count report + (if vo_check_item_count opts then length (filter count_mismatch ss) else 0)"
  using assms(1)
proof (induction ss arbitrary: k report)
  case (Cons s ss)
  then show ?case using validate_section_errors [OF _ assms(2), of s k report] by simp
qed simp

text \<open>The pass over the metadata reports one error for each occurrence of a key after its first.\<close>

lemma check_keys_errors:
  "finite (dom seen) \<Longrightarrow>
     error_count (snd (fold check_key (enumerate k md) (seen, report))) + card (dom seen \<union> set (map fst md)) =
     error_count report + length md + card (dom seen)"
proof (induction md arbitrary: k seen report)
  case (Cons kv md)
  obtain key v where kv: "kv = (key, v)" by (cases kv)
  show ?case
  proof (cases "seen key")
    case None
    let ?seen = "seen(key \<mapsto> k)"
    have dom: "dom ?seen = insert key (dom seen)" by simp
    have card: "card (dom ?seen) = Suc (card (dom seen))"
      unfolding dom using None Cons.prems by (intro card_insert_disjoint) (auto simp: domIff)
    have "check_key (k, key, v) (seen, report) = (?seen, report)" by (simp add: check_key_def None)
    moreover have "dom ?seen \<union> set (map fst md) = dom seen \<union> set (map fst (kv # md))"
      unfolding dom by (auto simp: kv)
    ultimately show ?thesis
      using Cons.IH [of ?seen "Suc k" report] Cons.prems card by (simp add: kv del: fun_upd_apply)
  next
    case (Some i)
    then have "insert key (dom seen \<union> fst ` set md) = dom seen \<union> fst ` set md" by auto
    then show ?thesis
      using Cons.IH [of seen "Suc k"] Cons.prems by (simp add: kv check_key_def Some)
  qed
qed simp

lemma validate_errors:
  assumes "\<forall>s \<in> set (bc_sections c). \<forall>rec \<in> set (bs_records s). rec_ok n rec" and "n \<le> vo_max_depth opts"
  shows "error_count (validate c opts) + card (set (map fst (bc_metadata c))) =
     (if vo_check_item_count opts then length (filter count_mismatch (bc_sections c)) else 0) +
     length (bc_metadata c)"
  using check_keys_errors [of Map.empty 0 "bc_metadata c"] validate_sections_errors [OF assms]
  by (simp add: validate_def Let_def)

lemma validate_ok_iff:
  assumes "\<forall>s \<in> set (bc_sections c). \<forall>rec \<in> set (bs_records s). rec_ok n rec" and "n \<le> vo_max_depth opts"
  shows "report_ok (validate c opts) \<longleftrightarrow>
     (vo_check_item_count opts \<longrightarrow> (\<forall>s \<in> set (bc_sections c). \<not> count_mismatch s)) \<and>
     distinct (map fst (bc_metadata c))"
proof -
  let ?keys = "map fst (bc_metadata c)"
  have "card (set ?keys) \<le> length ?keys" by (rule card_length)
  moreover have "distinct ?keys \<longleftrightarrow> card (set ?keys) = length ?keys"
    by (metis card_distinct distinct_card)
  ultimately show ?thesis
    using validate_errors [OF assms] unfolding report_ok_iff by (auto simp: filter_empty_conv)
qed

end
