(* ===== verification/Bp_Summary.thy ===== *)
theory Bp_Summary
  imports Bp_Visit Hexdump
begin

text \<open>
  \<^verbatim>\<open>summarize\<close> (\<^verbatim>\<open>src/binpack/summarize.cpp\<close>): the text of a container, one line for each record.
  Each function is the text it writes to the stream. The rendering of a double,
  \<^verbatim>\<open>snprintf("%g")\<close>, is the parameter \<open>fmt_g\<close>. The theorem counts lines: whatever the strings, keys and
  blobs of a container hold, they cannot break the layout.
\<close>

abbreviation nl :: string where "nl \<equiv> [CHR 0x0A]"

abbreviation quote :: string where "quote \<equiv> [CHR 0x22]"

definition indent :: "nat \<Rightarrow> string" where
  "indent depth = concat (replicate depth ''  '')"

definition bool_text :: "bool \<Rightarrow> string" where
  "bool_text b = (if b then ''true'' else ''false'')"

definition blob_preview :: "bytes \<Rightarrow> string" where
  "blob_preview blob =
     (let preview = (if length blob < 8 then length blob else 8)
      in if 0 < preview
         then '' ['' @
           concat (map (\<lambda>i. (if i \<noteq> 0 then '' '' else []) @ to_hex (ucast (blob ! i)) 2) [0..<preview]) @
           (if preview < length blob then '' ...'' else []) @ '']''
         else [])"

function dump_record :: "(u64 \<Rightarrow> string) \<Rightarrow> bp_record \<Rightarrow> nat \<Rightarrow> string" where
  "dump_record fmt_g rec depth =
     indent depth @ ''- '' @ tag_name (rc_tag rec) @ (if rc_group rec then '' (group)'' else []) @
     (case rc_tag rec of
        TagInt \<Rightarrow> '': '' @ dec_of_int (sint (rc_i64 rec)) @ nl
      | TagUint \<Rightarrow> '': '' @ dec_of_nat (unat (rc_u64 rec)) @ nl
      | TagFloat \<Rightarrow> '': '' @ fmt_g (rc_f64 rec) @ nl
      | TagString \<Rightarrow> '': '' @ quote @ escape (rc_str rec) @ quote @ nl
      | TagBlob \<Rightarrow> '': '' @ dec_of_nat (length (rc_blob rec)) @ '' bytes'' @ blob_preview (rc_blob rec) @ nl
      | TagArray \<Rightarrow> '': '' @ dec_of_nat (length (rc_children rec)) @ '' elements'' @ nl @
          concat (map (\<lambda>child. dump_record fmt_g child (depth + 1)) (rc_children rec))
      | TagGroup \<Rightarrow> '': '' @ dec_of_nat (length (rc_children rec)) @ '' records'' @ nl @
          concat (map (\<lambda>child. dump_record fmt_g child (depth + 1)) (rc_children rec))
      | TagKeyval \<Rightarrow> '': key='' @ quote @ escape (rc_key rec) @ quote @ nl @
          concat (map (\<lambda>child. dump_record fmt_g child (depth + 1)) (rc_children rec)))"
  by pat_completeness auto
termination
  by (relation "measure (\<lambda>(fmt, rec, d). size rec)") (auto dest: size_child)

declare dump_record.simps [simp del]

definition summary_head :: "bp_container \<Rightarrow> string" where
  "summary_head c =
     ''BPK1 container'' @ nl @
     ''  version       : '' @ dec_of_nat (unat (bc_version c)) @ nl @
     ''  flags         : '' @ to_hex (ucast (bc_flags c)) 4 @
       (if bc_has_metadata c then '' has_metadata'' else []) @
       (if bc_has_trailer_crc c then '' has_trailer_crc'' else []) @ nl @
     ''  checksum_ok   : '' @ bool_text (bc_checksum_ok c) @ nl @
     ''  header_crc_ok : '' @ bool_text (bc_header_checksum_ok c) @ nl @
     (if bc_has_trailer_crc c
      then ''  trailer_crc_ok: '' @ bool_text (bc_trailer_checksum_ok c) @ nl else []) @
     ''  sections      : '' @ dec_of_nat (length (bc_sections c)) @ nl"

definition summary_section :: "(u64 \<Rightarrow> string) \<Rightarrow> nat \<times> bp_section \<Rightarrow> string" where
  "summary_section fmt_g i_s =
     (let (i, s) = i_s
      in nl @ ''section['' @ dec_of_nat i @ ''] '' @ section_type_name (bs_type s) @
         '' id='' @ dec_of_nat (unat (bs_id s)) @ '' flags='' @ to_hex (ucast (bs_flags s)) 4 @
         '' item_count='' @ dec_of_nat (unat (bs_item_count s)) @
         '' records='' @ dec_of_nat (length (bs_records s)) @
         '' body_crc_ok='' @ bool_text (bs_body_checksum_ok s) @ nl @
         concat (map (\<lambda>rec. dump_record fmt_g rec 1) (bs_records s)))"

definition metadata_text :: "(u64 \<Rightarrow> string) \<Rightarrow> bp_record \<Rightarrow> string" where
  "metadata_text fmt_g v =
     (case rc_tag v of
        TagInt \<Rightarrow> dec_of_int (sint (rc_i64 v))
      | TagUint \<Rightarrow> dec_of_nat (unat (rc_u64 v))
      | TagFloat \<Rightarrow> fmt_g (rc_f64 v)
      | TagString \<Rightarrow> quote @ escape (rc_str v) @ quote
      | TagBlob \<Rightarrow> ''<blob '' @ dec_of_nat (length (rc_blob v)) @ ''>''
      | _ \<Rightarrow> ''<'' @ tag_name (rc_tag v) @ ''>'')"

definition summary_metadata :: "(u64 \<Rightarrow> string) \<Rightarrow> bp_container \<Rightarrow> string" where
  "summary_metadata fmt_g c =
     (if bc_metadata c \<noteq> []
      then nl @ ''metadata ('' @ dec_of_nat (length (bc_metadata c)) @ '' entries)'' @ nl @
        concat (map (\<lambda>kv. ''  '' @ escape (fst kv) @ '' = '' @ metadata_text fmt_g (snd kv) @ nl) (bc_metadata c))
      else [])"

definition bp_summarize :: "(u64 \<Rightarrow> string) \<Rightarrow> bp_container \<Rightarrow> string" where
  "bp_summarize fmt_g c =
     summary_head c @ concat (map (summary_section fmt_g) (enumerate 0 (bc_sections c))) @
     summary_metadata fmt_g c"

section \<open>Line counts\<close>

definition line_count :: "string \<Rightarrow> nat" where
  "line_count s = length (filter (\<lambda>c. c = CHR 0x0A) s)"

lemma line_count_simps [simp]:
  "line_count [] = 0" "line_count (c # s) = (if c = CHR 0x0A then Suc (line_count s) else line_count s)"
  "line_count (s @ t) = line_count s + line_count t"
  by (simp_all add: line_count_def)

lemma line_count_concat: "line_count (concat ss) = sum_list (map line_count ss)"
  by (induction ss) simp_all

lemma line_count_digit [simp]: "d < 10 \<Longrightarrow> digit_char d \<noteq> CHR 0x0A"
proof
  assume "d < 10" "digit_char d = CHR 0x0A"
  then have "(of_char (digit_char d) :: nat) = 10" by simp
  with \<open>d < 10\<close> show False by (simp add: of_char_digit_char)
qed

lemma line_count_dec [simp]: "line_count (dec_of_nat n) = 0"
proof (induction n rule: dec_of_nat.induct)
  case (1 n)
  then show ?case by (subst dec_of_nat.simps) simp
qed

lemma line_count_dec_int [simp]: "line_count (dec_of_int i) = 0"
  by (simp add: dec_of_int_def)

lemma line_count_hex_digit: "n < 16 \<Longrightarrow> kHexDigits ! n \<noteq> CHR 0x0A"
  by (drule nibble_cases) (auto simp: kHexDigits_def)

lemma line_count_hex_byte: "line_count (append_hex_byte out b) = line_count out"
  by (simp add: append_hex_byte_def nibble_unat line_count_hex_digit)

lemma line_count_hex_digits: "line_count (to_hex_digits v buf) = line_count buf"
proof (induction v buf rule: to_hex_digits.induct)
  case (1 v buf)
  then show ?case
    by (subst to_hex_digits.simps) (simp add: nibble_unat line_count_hex_digit)
qed

lemma line_count_hex_pad: "line_count (to_hex_pad m buf) = line_count buf"
proof (induction m buf rule: to_hex_pad.induct)
  case (1 m buf)
  then show ?case by (subst to_hex_pad.simps) simp
qed

lemma line_count_rev [simp]: "line_count (rev s) = line_count s"
  by (induction s) simp_all

lemma line_count_to_hex [simp]: "line_count (to_hex v m) = 0"
  by (simp add: to_hex_def line_count_hex_pad line_count_hex_digits)

lemma line_count_escape_byte: "line_count (escape_byte out c) = line_count out"
proof -
  have "char_of_byte c \<noteq> CHR 0x0A" if "0x20 \<le> c"
  proof
    assume "char_of_byte c = CHR 0x0A"
    then have "c = byte_of_char (CHR 0x0A)" by (metis byte_of_char_of_byte)
    then have "c = 0x0A" by (simp add: byte_of_char_def)
    with that show False by simp
  qed
  then show ?thesis by (simp add: escape_byte_def line_count_hex_byte)
qed

lemma line_count_escape [simp]: "line_count (escape s) = 0"
proof -
  have "line_count (foldl escape_byte out bs) = line_count out" for out bs
    by (induction bs arbitrary: out) (simp_all add: line_count_escape_byte)
  then show ?thesis by (simp add: escape_def)
qed

lemma line_count_tag_name [simp]: "line_count (tag_name t) = 0"
  by (cases t) simp_all

lemma line_count_section_type_name [simp]: "line_count (section_type_name t) = 0"
  by (cases t) simp_all

lemma line_count_bool [simp]: "line_count (bool_text b) = 0"
  by (simp add: bool_text_def)

lemma line_count_indent [simp]: "line_count (indent depth) = 0"
  by (induction depth) (simp_all add: indent_def)

lemma line_count_map_zero: "(\<And>x. x \<in> set xs \<Longrightarrow> line_count (f x) = 0) \<Longrightarrow> line_count (concat (map f xs)) = 0"
  by (induction xs) simp_all

lemma line_count_preview [simp]: "line_count (blob_preview blob) = 0"
  by (simp add: blob_preview_def Let_def line_count_map_zero)

lemma line_count_dump:
  assumes "\<And>d. line_count (fmt_g d) = 0"
  shows "rec_ok n rec \<Longrightarrow> line_count (dump_record fmt_g rec depth) = length (preorder rec)"
proof (induction rec arbitrary: n depth rule: preorder.induct)
  case (1 rec)
  have children: "line_count (concat (map (\<lambda>child. dump_record fmt_g child (Suc depth)) cs)) =
      length (concat (map preorder cs))" if "set cs \<subseteq> set (rc_children rec)" for cs
    using that
  proof (induction cs)
    case (Cons c cs)
    then show ?case using "1.IH" [of c "n - 1" "Suc depth"] rec_ok_children(2) [OF 1(2), of c] by simp
  qed simp
  show ?case
    using rec_ok_children(1) [OF 1(2)] children [OF subset_refl]
    by (cases "rc_tag rec") (simp_all add: dump_record.simps [of fmt_g rec] preorder.simps [of rec] assms)
qed

lemma line_count_dumps:
  assumes "\<And>d. line_count (fmt_g d) = 0" and "\<forall>rec \<in> set recs. rec_ok n rec"
  shows "line_count (concat (map (\<lambda>rec. dump_record fmt_g rec depth) recs)) = length (concat (map preorder recs))"
  using assms(2) by (induction recs) (simp_all add: line_count_dump [OF assms(1), where n = n])

lemma line_count_metadata_text:
  "(\<And>d. line_count (fmt_g d) = 0) \<Longrightarrow> line_count (metadata_text fmt_g v) = 0"
  by (cases "rc_tag v") (simp_all add: metadata_text_def)

lemma line_count_metadata:
  assumes "\<And>d. line_count (fmt_g d) = 0"
  shows "line_count (summary_metadata fmt_g c) = (if bc_metadata c = [] then 0 else 2 + length (bc_metadata c))"
proof -
  have "line_count (concat (map (\<lambda>kv. ''  '' @ escape (fst kv) @ '' = '' @ metadata_text fmt_g (snd kv) @ nl) kvs)) =
      length kvs" for kvs
    by (induction kvs) (simp_all add: line_count_metadata_text [OF assms])
  then show ?thesis by (simp add: summary_metadata_def)
qed

lemma line_count_sections:
  assumes "\<And>d. line_count (fmt_g d) = 0" and "\<forall>s \<in> set ss. \<forall>rec \<in> set (bs_records s). rec_ok n rec"
  shows "line_count (concat (map (summary_section fmt_g) (enumerate k ss))) =
     2 * length ss + length (concat (map (\<lambda>s. concat (map preorder (bs_records s))) ss))"
  using assms(2)
proof (induction ss arbitrary: k)
  case (Cons s ss)
  then show ?case
    using line_count_dumps [OF assms(1), where recs = "bs_records s" and n = n and depth = 1] by (simp add: summary_section_def)
qed simp

lemma line_count_summary:
  assumes "\<And>d. line_count (fmt_g d) = 0"
    and "\<forall>s \<in> set (bc_sections c). \<forall>rec \<in> set (bs_records s). rec_ok n rec"
  shows "line_count (bp_summarize fmt_g c) =
     6 + of_bool (bc_has_trailer_crc c) + 2 * length (bc_sections c) +
     length (concat (map (\<lambda>s. concat (map preorder (bs_records s))) (bc_sections c))) +
     (if bc_metadata c = [] then 0 else 2 + length (bc_metadata c))"
  using line_count_sections [OF assms, where k = 0] line_count_metadata [OF assms(1), where c = c]
  by (simp add: bp_summarize_def summary_head_def)

end
