(* ===== verification/Binary64.thy ===== *)
theory Binary64
  imports Bw_Prelude
begin

text \<open>
  What \<^verbatim>\<open>cfgscript\<close> uses of \<^verbatim>\<open>double\<close>: IEEE 754 binary64 in round-to-nearest-even, given by the 64
  bits of a value. An operation computes the exact result as a ratio of naturals and rounds it once
  (\<open>dbl_round\<close>). The sign and payload of a NaN that an operation produces are not fixed by the
  standard; the model takes the quiet NaN with a clear sign bit.
\<close>

unbundle bit_operations_syntax

section \<open>Fields\<close>

definition dbl_sign :: "u64 \<Rightarrow> bool" where
  "dbl_sign b \<longleftrightarrow> 2 ^ 63 \<le> unat b"

definition dbl_biased :: "u64 \<Rightarrow> nat" where
  "dbl_biased b = unat b div 2 ^ 52 mod 2 ^ 11"

definition dbl_fraction :: "u64 \<Rightarrow> nat" where
  "dbl_fraction b = unat b mod 2 ^ 52"

definition dbl_is_nan :: "u64 \<Rightarrow> bool" where
  "dbl_is_nan b \<longleftrightarrow> dbl_biased b = 2047 \<and> dbl_fraction b \<noteq> 0"

definition dbl_is_inf :: "u64 \<Rightarrow> bool" where
  "dbl_is_inf b \<longleftrightarrow> dbl_biased b = 2047 \<and> dbl_fraction b = 0"

text \<open>A finite value is \<open>\<plusminus> dbl_mant b * 2 ^ dbl_exp b\<close>.\<close>

definition dbl_mant :: "u64 \<Rightarrow> nat" where
  "dbl_mant b = (if dbl_biased b = 0 then dbl_fraction b else 2 ^ 52 + dbl_fraction b)"

definition dbl_exp :: "u64 \<Rightarrow> int" where
  "dbl_exp b = (if dbl_biased b = 0 then 1 else int (dbl_biased b)) - 1075"

definition dbl_bits :: "bool \<Rightarrow> nat \<Rightarrow> u64" where
  "dbl_bits neg n = of_nat ((if neg then 2 ^ 63 else 0) + n)"

definition dbl_zero :: "bool \<Rightarrow> u64" where
  "dbl_zero neg = dbl_bits neg 0"

definition dbl_inf :: "bool \<Rightarrow> u64" where
  "dbl_inf neg = dbl_bits neg (2047 * 2 ^ 52)"

definition dbl_nan :: u64 where
  "dbl_nan = 0x7FF8000000000000"

section \<open>Rounding\<close>

fun bit_length :: "nat \<Rightarrow> nat" where
  "bit_length n = (if n = 0 then 0 else Suc (bit_length (n div 2)))"

declare bit_length.simps [simp del]

text \<open>The ratio \<open>n / d\<close> divided by \<open>2 ^ e\<close>, as numerator and denominator.\<close>

definition ratio_shift :: "nat \<Rightarrow> nat \<Rightarrow> int \<Rightarrow> nat \<times> nat" where
  "ratio_shift n d e = (if 0 \<le> e then (n, d * 2 ^ nat e) else (n * 2 ^ nat (- e), d))"

definition ratio_log2 :: "nat \<Rightarrow> nat \<Rightarrow> int" where
  "ratio_log2 n d =
     (let k = int (bit_length n) - int (bit_length d)
      in case ratio_shift n d k of (n', d') \<Rightarrow> if d' \<le> n' then k else k - 1)"

text \<open>The quotient rounded to the nearest natural, ties to even.\<close>

definition round_half_even :: "nat \<Rightarrow> nat \<Rightarrow> nat" where
  "round_half_even n d =
     (let q = n div d; r = n mod d in if d < 2 * r \<or> (d = 2 * r \<and> odd q) then q + 1 else q)"

text \<open>
  The significand is rounded to 53 bits, or fewer below the smallest normal number; a carry out of it
  moves into the exponent field, and a result beyond the largest finite number is an infinity.
\<close>

definition dbl_round :: "bool \<Rightarrow> nat \<Rightarrow> nat \<Rightarrow> u64" where
  "dbl_round neg n d =
     (if n = 0 then dbl_zero neg
      else let e = max (- 1074) (ratio_log2 n d - 52);
               m = (case ratio_shift n d e of (n', d') \<Rightarrow> round_half_even n' d');
               bits = nat (e + 1074) * 2 ^ 52 + m
           in if 2047 * 2 ^ 52 \<le> bits then dbl_inf neg else dbl_bits neg bits)"

definition dbl_scale :: "bool \<Rightarrow> nat \<Rightarrow> int \<Rightarrow> u64" where
  "dbl_scale neg n e = (if 0 \<le> e then dbl_round neg (n * 2 ^ nat e) 1 else dbl_round neg n (2 ^ nat (- e)))"

section \<open>Arithmetic\<close>

definition dbl_of_int :: "i64 \<Rightarrow> u64" where
  "dbl_of_int i = dbl_round (sint i < 0) (nat \<bar>sint i\<bar>) 1"

definition dbl_negate :: "u64 \<Rightarrow> u64" where
  "dbl_negate b = b XOR push_bit 63 1"

definition dbl_signed :: "u64 \<Rightarrow> int \<Rightarrow> int" where
  "dbl_signed b e = (if dbl_sign b then - 1 else 1) * int (dbl_mant b) * 2 ^ nat (dbl_exp b - e)"

definition dbl_add :: "u64 \<Rightarrow> u64 \<Rightarrow> u64" where
  "dbl_add a b =
     (if dbl_is_nan a \<or> dbl_is_nan b then dbl_nan
      else if dbl_is_inf a then (if dbl_is_inf b \<and> dbl_sign a \<noteq> dbl_sign b then dbl_nan else a)
      else if dbl_is_inf b then b
      else let e = min (dbl_exp a) (dbl_exp b); s = dbl_signed a e + dbl_signed b e
           in if s = 0 then dbl_zero (dbl_sign a \<and> dbl_sign b) else dbl_scale (s < 0) (nat \<bar>s\<bar>) e)"

definition dbl_sub :: "u64 \<Rightarrow> u64 \<Rightarrow> u64" where
  "dbl_sub a b = (if dbl_is_nan a \<or> dbl_is_nan b then dbl_nan else dbl_add a (dbl_negate b))"

definition dbl_is_zero :: "u64 \<Rightarrow> bool" where
  "dbl_is_zero b \<longleftrightarrow> unat b mod 2 ^ 63 = 0"

definition dbl_mul :: "u64 \<Rightarrow> u64 \<Rightarrow> u64" where
  "dbl_mul a b =
     (let neg = (dbl_sign a \<noteq> dbl_sign b)
      in if dbl_is_nan a \<or> dbl_is_nan b then dbl_nan
         else if dbl_is_inf a \<or> dbl_is_inf b
         then (if dbl_is_zero a \<or> dbl_is_zero b then dbl_nan else dbl_inf neg)
         else dbl_scale neg (dbl_mant a * dbl_mant b) (dbl_exp a + dbl_exp b))"

definition dbl_div :: "u64 \<Rightarrow> u64 \<Rightarrow> u64" where
  "dbl_div a b =
     (let neg = (dbl_sign a \<noteq> dbl_sign b); e = dbl_exp a - dbl_exp b
      in if dbl_is_nan a \<or> dbl_is_nan b then dbl_nan
         else if dbl_is_inf a then (if dbl_is_inf b then dbl_nan else dbl_inf neg)
         else if dbl_is_inf b then dbl_zero neg
         else if dbl_is_zero b then (if dbl_is_zero a then dbl_nan else dbl_inf neg)
         else if 0 \<le> e then dbl_round neg (dbl_mant a * 2 ^ nat e) (dbl_mant b)
         else dbl_round neg (dbl_mant a) (dbl_mant b * 2 ^ nat (- e)))"

section \<open>Comparison\<close>

definition dbl_key :: "u64 \<Rightarrow> int" where
  "dbl_key b = (if dbl_sign b then - 1 else 1) * int (unat b mod 2 ^ 63)"

definition dbl_less :: "u64 \<Rightarrow> u64 \<Rightarrow> bool" where
  "dbl_less a b \<longleftrightarrow> \<not> dbl_is_nan a \<and> \<not> dbl_is_nan b \<and> dbl_key a < dbl_key b"

section \<open>Conversions\<close>

text \<open>
  \<^verbatim>\<open>static_cast<std::int64_t>\<close> truncates; it is undefined (\<open>None\<close>) for a NaN and for a value whose
  integer part is out of range.
\<close>

definition dbl_truncate :: "u64 \<Rightarrow> i64 option" where
  "dbl_truncate b =
     (if dbl_is_nan b \<or> dbl_is_inf b then None
      else let n = (if 0 \<le> dbl_exp b then dbl_mant b * 2 ^ nat (dbl_exp b)
                    else dbl_mant b div 2 ^ nat (- dbl_exp b));
               i = (if dbl_sign b then - int n else int n)
           in if - (2 ^ 63) \<le> i \<and> i < 2 ^ 63 then Some (word_of_int i) else None)"

text \<open>\<^verbatim>\<open>std::to_string(double)\<close> prints with \<^verbatim>\<open>%f\<close>: six decimals, exactly rounded.\<close>

definition dbl_to_text :: "u64 \<Rightarrow> string" where
  "dbl_to_text b =
     (if dbl_sign b then ''-'' else []) @
     (if dbl_is_nan b then ''nan'' else if dbl_is_inf b then ''inf''
      else let q = (case ratio_shift (dbl_mant b * 1000000) 1 (- dbl_exp b) of (n, d) \<Rightarrow> round_half_even n d);
               frac = dec_of_nat (q mod 1000000)
           in dec_of_nat (q div 1000000) @ ''.'' @ replicate (6 - length frac) CHR ''0'' @ frac)"

definition is_digit_char :: "char \<Rightarrow> bool" where
  "is_digit_char c \<longleftrightarrow> 48 \<le> (of_char c :: nat) \<and> (of_char c :: nat) \<le> 57"

text \<open>
  \<^verbatim>\<open>std::stod\<close> on the lexemes of the lexer, digits with an optional fraction and exponent. It throws
  \<^verbatim>\<open>std::out_of_range\<close> (\<open>None\<close>) when the result overflows, or is below the smallest normal number
  and not exact.
\<close>

definition scan_exponent :: "string \<Rightarrow> int" where
  "scan_exponent s =
     (case s of
        [] \<Rightarrow> 0
      | e # t \<Rightarrow>
          (case t of
             [] \<Rightarrow> 0
           | c # u \<Rightarrow> if c = CHR ''-'' then - int (nat_of_dec u)
                      else if c = CHR ''+'' then int (nat_of_dec u) else int (nat_of_dec t)))"

definition dbl_scan_ratio :: "string \<Rightarrow> nat \<times> nat" where
  "dbl_scan_ratio s =
     (let ip = takeWhile is_digit_char s;
          s1 = dropWhile is_digit_char s;
          fp = (case s1 of c # t \<Rightarrow> if c = CHR ''.'' then takeWhile is_digit_char t else [] | [] \<Rightarrow> []);
          s2 = (case s1 of c # t \<Rightarrow> if c = CHR ''.'' then dropWhile is_digit_char t else s1 | [] \<Rightarrow> []);
          n = nat_of_dec (ip @ fp);
          e = scan_exponent s2 - int (length fp)
      in if 0 \<le> e then (n * 10 ^ nat e, 1) else (n, 10 ^ nat (- e)))"

definition dbl_scan :: "string \<Rightarrow> u64 option" where
  "dbl_scan s =
     (case dbl_scan_ratio s of (n, d) \<Rightarrow>
        let b = dbl_round False n d
        in if dbl_is_inf b then None
           else if n \<noteq> 0 \<and> n * 2 ^ 1022 < d \<and> \<not> (d dvd n * 2 ^ 1074) then None
           else Some b)"

end
