(* ===== verification/Cs_Model.thy ===== *)
theory Cs_Model
  imports Status Binary64
begin

text \<open>
  The data of \<^verbatim>\<open>cfgscript\<close>: tokens (\<^verbatim>\<open>include/cfgscript/token.hpp\<close>, \<^verbatim>\<open>src/cfgscript/token.cpp\<close>),
  expression trees (\<^verbatim>\<open>ast.hpp\<close>), runtime values (\<^verbatim>\<open>value.hpp\<close>, \<^verbatim>\<open>value.cpp\<close>), parsed statements
  (\<^verbatim>\<open>parser.hpp\<close>) and documents (\<^verbatim>\<open>model.hpp\<close>). A struct with a kind of which only the matching
  members are meaningful is a datatype with one constructor for each kind; a double is its 64 bits
  (theory \<open>Binary64\<close>).
\<close>

section \<open>Tokens\<close>

datatype token_kind =
    TkEof
  | TkIdent | TkInt | TkFloat | TkString
  | TkTrue | TkFalse | TkNull | TkInclude
  | TkLBrace | TkRBrace | TkLBracket | TkRBracket | TkLParen | TkRParen
  | TkSemicolon | TkComma | TkAssign | TkDot | TkQuestion | TkColon
  | TkPlus | TkMinus | TkStar | TkSlash | TkPercent | TkShl | TkShr
  | TkLt | TkLe | TkGt | TkGe | TkEq | TkNe
  | TkAmp | TkCaret | TkPipe | TkAndAnd | TkOrOr | TkBang | TkTilde

fun token_kind_name :: "token_kind \<Rightarrow> string" where
  "token_kind_name TkEof = ''end of input''"
| "token_kind_name TkIdent = ''identifier''"
| "token_kind_name TkInt = ''integer''"
| "token_kind_name TkFloat = ''float''"
| "token_kind_name TkString = ''string''"
| "token_kind_name TkTrue = [CHR 0x27] @ ''true'' @ [CHR 0x27]"
| "token_kind_name TkFalse = [CHR 0x27] @ ''false'' @ [CHR 0x27]"
| "token_kind_name TkNull = [CHR 0x27] @ ''null'' @ [CHR 0x27]"
| "token_kind_name TkInclude = [CHR 0x27] @ ''include'' @ [CHR 0x27]"
| "token_kind_name TkLBrace = [CHR 0x27] @ ''{'' @ [CHR 0x27]"
| "token_kind_name TkRBrace = [CHR 0x27] @ ''}'' @ [CHR 0x27]"
| "token_kind_name TkLBracket = [CHR 0x27] @ ''['' @ [CHR 0x27]"
| "token_kind_name TkRBracket = [CHR 0x27] @ '']'' @ [CHR 0x27]"
| "token_kind_name TkLParen = [CHR 0x27] @ ''('' @ [CHR 0x27]"
| "token_kind_name TkRParen = [CHR 0x27] @ '')'' @ [CHR 0x27]"
| "token_kind_name TkSemicolon = [CHR 0x27] @ '';'' @ [CHR 0x27]"
| "token_kind_name TkComma = [CHR 0x27] @ '','' @ [CHR 0x27]"
| "token_kind_name TkAssign = [CHR 0x27] @ ''='' @ [CHR 0x27]"
| "token_kind_name TkDot = [CHR 0x27] @ ''.'' @ [CHR 0x27]"
| "token_kind_name TkQuestion = [CHR 0x27] @ ''?'' @ [CHR 0x27]"
| "token_kind_name TkColon = [CHR 0x27] @ '':'' @ [CHR 0x27]"
| "token_kind_name TkPlus = [CHR 0x27] @ ''+'' @ [CHR 0x27]"
| "token_kind_name TkMinus = [CHR 0x27] @ ''-'' @ [CHR 0x27]"
| "token_kind_name TkStar = [CHR 0x27] @ ''*'' @ [CHR 0x27]"
| "token_kind_name TkSlash = [CHR 0x27] @ ''/'' @ [CHR 0x27]"
| "token_kind_name TkPercent = [CHR 0x27] @ ''%'' @ [CHR 0x27]"
| "token_kind_name TkShl = [CHR 0x27] @ ''<<'' @ [CHR 0x27]"
| "token_kind_name TkShr = [CHR 0x27] @ ''>>'' @ [CHR 0x27]"
| "token_kind_name TkLt = [CHR 0x27] @ ''<'' @ [CHR 0x27]"
| "token_kind_name TkLe = [CHR 0x27] @ ''<='' @ [CHR 0x27]"
| "token_kind_name TkGt = [CHR 0x27] @ ''>'' @ [CHR 0x27]"
| "token_kind_name TkGe = [CHR 0x27] @ ''>='' @ [CHR 0x27]"
| "token_kind_name TkEq = [CHR 0x27] @ ''=='' @ [CHR 0x27]"
| "token_kind_name TkNe = [CHR 0x27] @ ''!='' @ [CHR 0x27]"
| "token_kind_name TkAmp = [CHR 0x27] @ ''&'' @ [CHR 0x27]"
| "token_kind_name TkCaret = [CHR 0x27] @ ''^'' @ [CHR 0x27]"
| "token_kind_name TkPipe = [CHR 0x27] @ ''|'' @ [CHR 0x27]"
| "token_kind_name TkAndAnd = [CHR 0x27] @ ''&&'' @ [CHR 0x27]"
| "token_kind_name TkOrOr = [CHR 0x27] @ ''||'' @ [CHR 0x27]"
| "token_kind_name TkBang = [CHR 0x27] @ ''!'' @ [CHR 0x27]"
| "token_kind_name TkTilde = [CHR 0x27] @ ''~'' @ [CHR 0x27]"

record token =
  tk_kind :: token_kind
  tk_offset :: nat
  tk_text :: string
  tk_int_value :: i64
  tk_float_value :: u64

definition token_new :: "nat \<Rightarrow> token" where
  "token_new off = \<lparr>tk_kind = TkEof, tk_offset = off, tk_text = [], tk_int_value = 0, tk_float_value = 0\<rparr>"

section \<open>Expressions\<close>

datatype expr =
    ENull nat
  | EBool nat bool
  | EInt nat i64
  | EFloat nat u64
  | EStr nat string
  | EIdent nat string
  | EArray nat "expr list"
  | EObject nat "(string \<times> expr) list"
  | EUnary nat token_kind expr
  | EBinary nat token_kind expr expr
  | ETernary nat expr expr expr

fun expr_offset :: "expr \<Rightarrow> nat" where
  "expr_offset (ENull off) = off"
| "expr_offset (EBool off _) = off"
| "expr_offset (EInt off _) = off"
| "expr_offset (EFloat off _) = off"
| "expr_offset (EStr off _) = off"
| "expr_offset (EIdent off _) = off"
| "expr_offset (EArray off _) = off"
| "expr_offset (EObject off _) = off"
| "expr_offset (EUnary off _ _) = off"
| "expr_offset (EBinary off _ _ _) = off"
| "expr_offset (ETernary off _ _ _) = off"

section \<open>Values\<close>

datatype value_type = TyNull | TyBool | TyInt | TyFloat | TyStr | TyArray | TyObject

fun value_type_name :: "value_type \<Rightarrow> string" where
  "value_type_name TyNull = ''null''"
| "value_type_name TyBool = ''bool''"
| "value_type_name TyInt = ''int''"
| "value_type_name TyFloat = ''float''"
| "value_type_name TyStr = ''string''"
| "value_type_name TyArray = ''array''"
| "value_type_name TyObject = ''object''"

datatype cvalue =
    VNull
  | VBool bool
  | VInt i64
  | VFloat u64
  | VStr string
  | VArray "cvalue list"
  | VObject "(string \<times> cvalue) list"

fun value_type_of :: "cvalue \<Rightarrow> value_type" where
  "value_type_of VNull = TyNull"
| "value_type_of (VBool _) = TyBool"
| "value_type_of (VInt _) = TyInt"
| "value_type_of (VFloat _) = TyFloat"
| "value_type_of (VStr _) = TyStr"
| "value_type_of (VArray _) = TyArray"
| "value_type_of (VObject _) = TyObject"

definition is_number :: "cvalue \<Rightarrow> bool" where
  "is_number v \<longleftrightarrow> value_type_of v = TyInt \<or> value_type_of v = TyFloat"

text \<open>\<^verbatim>\<open>as_double\<close> reads the member \<^verbatim>\<open>i\<close> of a value that is no float, which is 0 unless it is an integer.\<close>

fun as_double :: "cvalue \<Rightarrow> u64" where
  "as_double (VFloat f) = f"
| "as_double (VInt i) = dbl_of_int i"
| "as_double _ = dbl_of_int 0"

fun truthy :: "cvalue \<Rightarrow> bool" where
  "truthy VNull \<longleftrightarrow> False"
| "truthy (VBool b) \<longleftrightarrow> b"
| "truthy (VInt i) \<longleftrightarrow> i \<noteq> 0"
| "truthy (VFloat f) \<longleftrightarrow> \<not> dbl_is_zero f"
| "truthy (VStr s) \<longleftrightarrow> s \<noteq> []"
| "truthy (VArray vs) \<longleftrightarrow> vs \<noteq> []"
| "truthy (VObject fs) \<longleftrightarrow> fs \<noteq> []"

section \<open>Statements and documents\<close>

datatype statement =
    StAssignment nat "string list" expr
  | StBlock nat string "string option" "statement list"
  | StInclude nat string

datatype cnode =
    NdAssignment "string list" cvalue
  | NdBlock string "string option" "cnode list"
  | NdInclude string

type_synonym document = "cnode list"

end
