(* ===== verification/Cs_Serialize.thy ===== *)
theory Cs_Serialize
  imports Cs_Model Hexdump
begin

text \<open>
  The canonical serializer (\<^verbatim>\<open>include/cfgscript/serializer.hpp\<close>, \<^verbatim>\<open>src/cfgscript/serializer.cpp\<close>). A
  routine that appends to \<^verbatim>\<open>out\<close> is the function that gives the appended text.
\<close>

record ser_options =
  so_indent_width :: int
  so_inline_threshold :: nat

definition ser_default :: ser_options where
  "ser_default = \<lparr>so_indent_width = 2, so_inline_threshold = 4\<rparr>"

section \<open>Strings\<close>

definition ser_hex_byte :: "u8 \<Rightarrow> string" where
  "ser_hex_byte c =
     [CHR 0x5C, CHR ''x'', kHexDigits ! unat (drop_bit 4 c AND 0xF), kHexDigits ! unat (c AND 0xF)]"

definition escape_char :: "char \<Rightarrow> string" where
  "escape_char ch =
     (let c = byte_of_char ch
      in if c = 0x5C then [CHR 0x5C, CHR 0x5C]
         else if c = 0x22 then [CHR 0x5C, CHR 0x22]
         else if c = 0x0A then [CHR 0x5C, CHR ''n'']
         else if c = 0x0D then [CHR 0x5C, CHR ''r'']
         else if c = 0x09 then [CHR 0x5C, CHR ''t'']
         else if c < 0x20 \<or> 0x7F \<le> c then ser_hex_byte c
         else [ch])"

fun escape_string :: "string \<Rightarrow> string" where
  "escape_string [] = []"
| "escape_string (ch # s) = escape_char ch @ escape_string s"

definition ser_quoted :: "string \<Rightarrow> string" where
  "ser_quoted s = [CHR 0x22] @ escape_string s @ [CHR 0x22]"

definition ser_indent :: "int \<Rightarrow> int \<Rightarrow> string" where
  "ser_indent depth width = concat (replicate (nat depth) (replicate (nat width) CHR '' ''))"

section \<open>Values\<close>

definition render_inline :: "nat \<Rightarrow> ser_options \<Rightarrow> bool" where
  "render_inline n opts \<longleftrightarrow> n \<le> so_inline_threshold opts"

fun ser_value :: "ser_options \<Rightarrow> int \<Rightarrow> cvalue \<Rightarrow> string"
  and ser_inline_array :: "ser_options \<Rightarrow> int \<Rightarrow> nat \<Rightarrow> cvalue list \<Rightarrow> string"
  and ser_split_array :: "ser_options \<Rightarrow> int \<Rightarrow> cvalue list \<Rightarrow> string"
  and ser_inline_object :: "ser_options \<Rightarrow> int \<Rightarrow> nat \<Rightarrow> (string \<times> cvalue) list \<Rightarrow> string"
  and ser_split_object :: "ser_options \<Rightarrow> int \<Rightarrow> (string \<times> cvalue) list \<Rightarrow> string" where
  "ser_value opts depth VNull = ''null''"
| "ser_value opts depth (VBool b) = (if b then ''true'' else ''false'')"
| "ser_value opts depth (VInt i) = dec_of_int (sint i)"
| "ser_value opts depth (VFloat f) = dbl_to_text f"
| "ser_value opts depth (VStr s) = ser_quoted s"
| "ser_value opts depth (VArray arr) =
     (if arr = [] then ''[]''
      else if render_inline (length arr) opts then ''['' @ ser_inline_array opts depth 0 arr @ '']''
      else ''['' @ [CHR 0x0A] @ ser_split_array opts depth arr @ ser_indent depth (so_indent_width opts) @ '']'')"
| "ser_value opts depth (VObject obj) =
     (if obj = [] then ''{}''
      else if render_inline (length obj) opts then ''{ '' @ ser_inline_object opts depth 0 obj @ '' }''
      else ''{'' @ [CHR 0x0A] @ ser_split_object opts depth obj @ ser_indent depth (so_indent_width opts) @ ''}'')"
| "ser_inline_array opts depth k [] = []"
| "ser_inline_array opts depth k (v # vs) =
     (if k \<noteq> 0 then '', '' else []) @ ser_value opts depth v @ ser_inline_array opts depth (Suc k) vs"
| "ser_split_array opts depth [] = []"
| "ser_split_array opts depth (v # vs) =
     ser_indent (depth + 1) (so_indent_width opts) @ ser_value opts (depth + 1) v @ '','' @ [CHR 0x0A] @
     ser_split_array opts depth vs"
| "ser_inline_object opts depth k [] = []"
| "ser_inline_object opts depth k ((key, v) # fs) =
     (if k \<noteq> 0 then '' '' else []) @ key @ '' = '' @ ser_value opts depth v @ '';'' @
     ser_inline_object opts depth (Suc k) fs"
| "ser_split_object opts depth [] = []"
| "ser_split_object opts depth ((key, v) # fs) =
     ser_indent (depth + 1) (so_indent_width opts) @ key @ '' = '' @ ser_value opts (depth + 1) v @ '';'' @
     [CHR 0x0A] @ ser_split_object opts depth fs"

section \<open>Nodes\<close>

fun ser_path :: "nat \<Rightarrow> string list \<Rightarrow> string" where
  "ser_path k [] = []"
| "ser_path k (c # cs) = (if k \<noteq> 0 then ''.'' else []) @ c @ ser_path (Suc k) cs"

fun ser_nodes :: "ser_options \<Rightarrow> int \<Rightarrow> cnode list \<Rightarrow> string" where
  "ser_nodes opts depth [] = []"
| "ser_nodes opts depth (NdAssignment path v # ns) =
     ser_indent depth (so_indent_width opts) @ ser_path 0 path @ '' = '' @ ser_value opts depth v @ '';'' @
     [CHR 0x0A] @ ser_nodes opts depth ns"
| "ser_nodes opts depth (NdBlock name label children # ns) =
     ser_indent depth (so_indent_width opts) @ name @
     (case label of Some l \<Rightarrow> '' '' @ ser_quoted l | None \<Rightarrow> []) @
     (if children = [] then '' {}'' @ [CHR 0x0A]
      else '' {'' @ [CHR 0x0A] @ ser_nodes opts (depth + 1) children @
           ser_indent depth (so_indent_width opts) @ ''}'' @ [CHR 0x0A]) @
     ser_nodes opts depth ns"
| "ser_nodes opts depth (NdInclude path # ns) =
     ser_indent depth (so_indent_width opts) @ ''include '' @ ser_quoted path @ '';'' @ [CHR 0x0A] @
     ser_nodes opts depth ns"

definition serialize_value :: "cvalue \<Rightarrow> ser_options \<Rightarrow> string" where
  "serialize_value v opts = ser_value opts 0 v"

definition serialize :: "document \<Rightarrow> ser_options \<Rightarrow> string" where
  "serialize doc opts = ser_nodes opts 0 doc"

end
