(* ===== verification/Cs_Lexer.thy ===== *)
theory Cs_Lexer
  imports Cs_Model
begin

text \<open>
  The tokenizer (\<^verbatim>\<open>include/cfgscript/lexer.hpp\<close>, \<^verbatim>\<open>src/cfgscript/lexer.cpp\<close>). The lexer object is
  a record of the buffer, the position and the line and column that decorate error messages. Bytes are
  compared with their ASCII codes. A loop \<^verbatim>\<open>while (!at_end() && P(peek())) advance()\<close> is
  \<open>lx_skip_while P\<close>.
\<close>

unbundle bit_operations_syntax

section \<open>The lexer object\<close>

record lexer =
  lx_data :: bytes
  lx_pos :: nat
  lx_line :: nat
  lx_column :: nat

definition lexer_new :: "bytes \<Rightarrow> lexer" where
  "lexer_new data = \<lparr>lx_data = data, lx_pos = 0, lx_line = 1, lx_column = 1\<rparr>"

definition is_ident_start :: "u8 \<Rightarrow> bool" where
  "is_ident_start c \<longleftrightarrow> (0x41 \<le> c \<and> c \<le> 0x5A) \<or> (0x61 \<le> c \<and> c \<le> 0x7A) \<or> c = 0x5F"

definition is_digit :: "u8 \<Rightarrow> bool" where
  "is_digit c \<longleftrightarrow> 0x30 \<le> c \<and> c \<le> 0x39"

definition is_ident_part :: "u8 \<Rightarrow> bool" where
  "is_ident_part c \<longleftrightarrow> is_ident_start c \<or> is_digit c"

definition is_hex_digit :: "u8 \<Rightarrow> bool" where
  "is_hex_digit c \<longleftrightarrow> is_digit c \<or> (0x61 \<le> c \<and> c \<le> 0x66) \<or> (0x41 \<le> c \<and> c \<le> 0x46)"

definition hex_digit_int :: "u8 \<Rightarrow> int" where
  "hex_digit_int c =
     (if 0x30 \<le> c \<and> c \<le> 0x39 then uint c - 0x30
      else if 0x61 \<le> c \<and> c \<le> 0x66 then uint c - 0x61 + 10
      else if 0x41 \<le> c \<and> c \<le> 0x46 then uint c - 0x41 + 10
      else - 1)"

definition lx_peek :: "nat \<Rightarrow> lexer \<Rightarrow> u8" where
  "lx_peek ahead lx = (let at = lx_pos lx + ahead in if at < length (lx_data lx) then lx_data lx ! at else 0)"

definition lx_at_end :: "lexer \<Rightarrow> bool" where
  "lx_at_end lx \<longleftrightarrow> length (lx_data lx) \<le> lx_pos lx"

text \<open>
  \<^verbatim>\<open>advance\<close> without the byte it returns, which is \<open>lx_peek 0\<close>: no caller is at the end of the buffer
  (theory \<open>Cs_Lex_Laws\<close> shows that every position reached is inside it).
\<close>

definition lx_step :: "lexer \<Rightarrow> lexer" where
  "lx_step lx =
     (let c = lx_data lx ! lx_pos lx; lx = lx\<lparr>lx_pos := lx_pos lx + 1\<rparr>
      in if c = 0x0A then lx\<lparr>lx_line := lx_line lx + 1, lx_column := 1\<rparr>
         else lx\<lparr>lx_column := lx_column lx + 1\<rparr>)"

definition lx_error :: "nat \<Rightarrow> string \<Rightarrow> lexer \<Rightarrow> 'a result" where
  "lx_error at msg lx =
     Inl (ParseError kBadType at (msg @ '' (line '' @ dec_of_nat (lx_line lx) @ '', column '' @
       dec_of_nat (lx_column lx) @ '')''))"

lemma lx_step_fields [simp]:
  "lx_data (lx_step lx) = lx_data lx" "lx_pos (lx_step lx) = Suc (lx_pos lx)"
  by (simp_all add: lx_step_def Let_def)

function lx_skip_while :: "(u8 \<Rightarrow> bool) \<Rightarrow> lexer \<Rightarrow> lexer" where
  "lx_skip_while P lx =
     (if \<not> lx_at_end lx \<and> P (lx_peek 0 lx) then lx_skip_while P (lx_step lx) else lx)"
  by pat_completeness auto
termination
  by (relation "measure (\<lambda>(P, lx). length (lx_data lx) - lx_pos lx)") (auto simp: lx_at_end_def)

declare lx_skip_while.simps [simp del]

section \<open>Trivia\<close>

text \<open>The body of a block comment; the result says whether it was closed.\<close>

function skip_block_comment :: "lexer \<Rightarrow> bool \<times> lexer" where
  "skip_block_comment lx =
     (if lx_at_end lx then (False, lx)
      else if lx_peek 0 lx = 0x2A \<and> lx_peek 1 lx = 0x2F then (True, lx_step (lx_step lx))
      else skip_block_comment (lx_step lx))"
  by pat_completeness auto
termination
  by (relation "measure (\<lambda>lx. length (lx_data lx) - lx_pos lx)") (auto simp: lx_at_end_def)

declare skip_block_comment.simps [simp del]

definition is_space :: "u8 \<Rightarrow> bool" where
  "is_space c \<longleftrightarrow> c = 0x20 \<or> c = 0x09 \<or> c = 0x0D \<or> c = 0x0A \<or> c = 0x0C \<or> c = 0x0B"

lemma lx_skip_while_ge: "lx_data (lx_skip_while P lx) = lx_data lx \<and> lx_pos lx \<le> lx_pos (lx_skip_while P lx)"
proof (induction P lx rule: lx_skip_while.induct)
  case (1 P lx)
  then show ?case by (subst (1 2) lx_skip_while.simps) auto
qed

lemma lx_skip_while_gt: "\<not> lx_at_end lx \<Longrightarrow> P (lx_peek 0 lx) \<Longrightarrow> lx_pos lx < lx_pos (lx_skip_while P lx)"
  using lx_skip_while_ge [of P "lx_step lx"] by (subst lx_skip_while.simps) simp

lemma skip_block_comment_ge:
  "skip_block_comment lx = (ok, lx') \<Longrightarrow> lx_data lx' = lx_data lx \<and> lx_pos lx \<le> lx_pos lx'"
proof (induction lx rule: skip_block_comment.induct)
  case (1 lx)
  from "1.prems" show ?case
    by (subst (asm) skip_block_comment.simps) (auto split: if_splits dest: "1.IH")
qed

function skip_trivia :: "lexer \<Rightarrow> lexer result" where
  "skip_trivia lx =
     (if lx_at_end lx then Inr lx
      else if is_space (lx_peek 0 lx) then skip_trivia (lx_step lx)
      else if lx_peek 0 lx = 0x23 then skip_trivia (lx_skip_while (\<lambda>c. c \<noteq> 0x0A) lx)
      else if lx_peek 0 lx = 0x2F \<and> lx_peek 1 lx = 0x2F
      then skip_trivia (lx_skip_while (\<lambda>c. c \<noteq> 0x0A) (lx_step (lx_step lx)))
      else if lx_peek 0 lx = 0x2F \<and> lx_peek 1 lx = 0x2A
      then (case skip_block_comment (lx_step (lx_step lx)) of (closed, lx') \<Rightarrow>
              if \<not> closed then lx_error (lx_pos lx) ''unterminated block comment'' lx' else skip_trivia lx')
      else Inr lx)"
  by pat_completeness auto
termination
proof (relation "measure (\<lambda>lx. length (lx_data lx) - lx_pos lx)", goal_cases)
  case (3 lx)
  then show ?case
    using lx_skip_while_ge [of "\<lambda>c. c \<noteq> 0x0A" lx] lx_skip_while_gt [of lx "\<lambda>c. c \<noteq> 0x0A"]
    by (auto simp: lx_at_end_def)
next
  case (4 lx)
  then show ?case
    using lx_skip_while_ge [of "\<lambda>c. c \<noteq> 0x0A" "lx_step (lx_step lx)"] by (auto simp: lx_at_end_def)
next
  case (5 lx closed lx')
  then show ?case
    using skip_block_comment_ge [of "lx_step (lx_step lx)" closed lx'] by (auto simp: lx_at_end_def)
qed (auto simp: lx_at_end_def)

declare skip_trivia.simps [simp del]

section \<open>Identifiers and numbers\<close>

definition lexeme :: "nat \<Rightarrow> lexer \<Rightarrow> string" where
  "lexeme start lx = string_of_bytes (take (lx_pos lx - start) (drop start (lx_data lx)))"

definition keyword_kind :: "string \<Rightarrow> token_kind" where
  "keyword_kind word =
     (if word = ''true'' then TkTrue else if word = ''false'' then TkFalse
      else if word = ''null'' then TkNull else if word = ''include'' then TkInclude
      else TkIdent)"

definition lex_ident_or_keyword :: "lexer \<Rightarrow> (token \<times> lexer) result" where
  "lex_ident_or_keyword lx =
     (let tok = token_new (lx_pos lx);
          start = lx_pos lx;
          lx = lx_skip_while is_ident_part lx;
          word = lexeme start lx
      in Inr (tok\<lparr>tk_kind := keyword_kind word, tk_text := word\<rparr>, lx))"

function lex_hex_loop :: "u64 \<Rightarrow> lexer \<Rightarrow> u64 \<times> lexer" where
  "lex_hex_loop acc lx =
     (if \<not> lx_at_end lx \<and> is_hex_digit (lx_peek 0 lx)
      then lex_hex_loop (acc * 16 + word_of_int (hex_digit_int (lx_peek 0 lx))) (lx_step lx)
      else (acc, lx))"
  by pat_completeness auto
termination
  by (relation "measure (\<lambda>(acc, lx). length (lx_data lx) - lx_pos lx)") (auto simp: lx_at_end_def)

declare lex_hex_loop.simps [simp del]

text \<open>\<^verbatim>\<open>std::stoll\<close> on a string of digits; it throws \<^verbatim>\<open>std::out_of_range\<close> beyond \<open>2 ^ 63 - 1\<close>.\<close>

definition stoll :: "string \<Rightarrow> i64 option" where
  "stoll s = (let n = nat_of_dec s in if n < 2 ^ 63 then Some (of_nat n) else None)"

definition lex_fraction :: "bool \<times> lexer \<Rightarrow> bool \<times> lexer" where
  "lex_fraction = (\<lambda>(is_float, lx).
     if \<not> lx_at_end lx \<and> lx_peek 0 lx = 0x2E \<and> is_digit (lx_peek 1 lx)
     then (True, lx_skip_while is_digit (lx_step lx)) else (is_float, lx))"

definition lex_exponent :: "bool \<times> lexer \<Rightarrow> bool \<times> lexer" where
  "lex_exponent = (\<lambda>(is_float, lx).
     if \<not> lx_at_end lx \<and> (lx_peek 0 lx = 0x65 \<or> lx_peek 0 lx = 0x45)
     then (let look = 1;
               look = (if lx_peek look lx = 0x2B \<or> lx_peek look lx = 0x2D then look + 1 else look)
           in if is_digit (lx_peek look lx)
              then (let lx = lx_step lx;
                        lx = (if lx_peek 0 lx = 0x2B \<or> lx_peek 0 lx = 0x2D then lx_step lx else lx)
                    in (True, lx_skip_while is_digit lx))
              else (is_float, lx))
     else (is_float, lx))"

definition lex_number :: "lexer \<Rightarrow> (token \<times> lexer) result" where
  "lex_number lx =
     (let tok = token_new (lx_pos lx); start = lx_pos lx
      in if lx_peek 0 lx = 0x30 \<and> (lx_peek 1 lx = 0x78 \<or> lx_peek 1 lx = 0x58)
         then (let lx = lx_step (lx_step lx); digits_start = lx_pos lx
               in case lex_hex_loop 0 lx of (acc, lx) \<Rightarrow>
                    if lx_pos lx = digits_start then lx_error start ''hex literal has no digits'' lx
                    else Inr (tok\<lparr>tk_kind := TkInt, tk_int_value := acc\<rparr>, lx))
         else (case lex_exponent (lex_fraction (False, lx_skip_while is_digit lx)) of (is_float, lx) \<Rightarrow>
                 let word = lexeme start lx;
                     out_of_range = Inl (ParseError kBadLength start ''numeric literal out of range'')
                 in if is_float
                    then (case dbl_scan word of
                            None \<Rightarrow> out_of_range
                          | Some d \<Rightarrow> Inr (tok\<lparr>tk_kind := TkFloat, tk_float_value := d\<rparr>, lx))
                    else (case stoll word of
                            None \<Rightarrow> out_of_range
                          | Some i \<Rightarrow> Inr (tok\<lparr>tk_kind := TkInt, tk_int_value := i\<rparr>, lx))))"

section \<open>Strings\<close>

definition push_byte :: "string \<Rightarrow> u32 \<Rightarrow> string" where
  "push_byte out b = out @ [char_of_byte (ucast b)]"

definition append_utf8 :: "string \<Rightarrow> u32 \<Rightarrow> nat \<Rightarrow> lexer \<Rightarrow> string result" where
  "append_utf8 out cp off lx =
     (if 0x10FFFF < cp \<or> (0xD800 \<le> cp \<and> cp \<le> 0xDFFF) then lx_error off ''invalid Unicode code point'' lx
      else if cp \<le> 0x7F then Inr (push_byte out cp)
      else if cp \<le> 0x7FF
      then Inr (push_byte (push_byte out (0xC0 OR drop_bit 6 cp)) (0x80 OR (cp AND 0x3F)))
      else if cp \<le> 0xFFFF
      then Inr (push_byte (push_byte (push_byte out (0xE0 OR drop_bit 12 cp)) (0x80 OR (drop_bit 6 cp AND 0x3F)))
             (0x80 OR (cp AND 0x3F)))
      else Inr (push_byte (push_byte (push_byte (push_byte out (0xF0 OR drop_bit 18 cp))
             (0x80 OR (drop_bit 12 cp AND 0x3F))) (0x80 OR (drop_bit 6 cp AND 0x3F))) (0x80 OR (cp AND 0x3F))))"

function lex_unicode_digits :: "nat \<Rightarrow> u32 \<Rightarrow> nat \<Rightarrow> lexer \<Rightarrow> (u32 \<times> nat \<times> lexer) result" where
  "lex_unicode_digits esc cp count lx =
     (if \<not> lx_at_end lx \<and> is_hex_digit (lx_peek 0 lx)
      then (let cp = cp * 16 + word_of_int (hex_digit_int (lx_peek 0 lx)); lx = lx_step lx; count = count + 1
            in if 6 < count then lx_error esc ([CHR 0x5C] @ ''u escape has too many digits'') lx
               else lex_unicode_digits esc cp count lx)
      else Inr (cp, count, lx))"
  by pat_completeness auto
termination
  by (relation "measure (\<lambda>(esc, cp, count, lx). length (lx_data lx) - lx_pos lx)") (auto simp: lx_at_end_def)

declare lex_unicode_digits.simps [simp del]

definition lex_unicode_escape :: "nat \<Rightarrow> string \<Rightarrow> lexer \<Rightarrow> (string \<times> lexer) result" where
  "lex_unicode_escape esc out lx =
     (if lx_peek 0 lx \<noteq> 0x7B then lx_error esc ([CHR 0x5C] @ ''u escape needs '' @ [CHR 0x27] @ ''{'' @ [CHR 0x27]) lx
      else bindE (lex_unicode_digits esc 0 0 (lx_step lx)) (\<lambda>(cp, count, lx).
        if count = 0 then lx_error esc ([CHR 0x5C] @ ''u escape needs at least one hex digit'') lx
        else if lx_at_end lx \<or> lx_peek 0 lx \<noteq> 0x7D
        then lx_error esc ([CHR 0x5C] @ ''u escape needs '' @ [CHR 0x27] @ ''}'' @ [CHR 0x27]) lx
        else bindE (append_utf8 out cp esc (lx_step lx)) (\<lambda>out. Inr (out, lx_step lx))))"

text \<open>One escape sequence behind its backslash, which stands at \<open>esc\<close>.\<close>

definition lex_escape :: "nat \<Rightarrow> string \<Rightarrow> lexer \<Rightarrow> (string \<times> lexer) result" where
  "lex_escape esc out lx =
     (if lx_at_end lx then lx_error esc ''unterminated escape sequence'' lx
      else let e = lx_peek 0 lx; lx = lx_step lx
           in if e = 0x6E then Inr (out @ [CHR 0x0A], lx)
              else if e = 0x74 then Inr (out @ [CHR 0x09], lx)
              else if e = 0x72 then Inr (out @ [CHR 0x0D], lx)
              else if e = 0x30 then Inr (out @ [CHR 0x00], lx)
              else if e = 0x5C then Inr (out @ [CHR 0x5C], lx)
              else if e = 0x22 then Inr (out @ [CHR 0x22], lx)
              else if e = 0x78
              then (if \<not> is_hex_digit (lx_peek 0 lx) \<or> \<not> is_hex_digit (lx_peek 1 lx)
                    then lx_error esc ([CHR 0x5C] @ ''x escape needs two hex digits'') lx
                    else let hi = hex_digit_int (lx_peek 0 lx); lx = lx_step lx;
                             lo = hex_digit_int (lx_peek 0 lx); lx = lx_step lx
                         in Inr (push_byte out (push_bit 4 (word_of_int hi) OR word_of_int lo), lx))
              else if e = 0x75 then lex_unicode_escape esc out lx
              else lx_error esc ''unknown escape sequence'' lx)"

lemma lex_unicode_digits_ge:
  "lex_unicode_digits esc cp count lx = Inr (cp', count', lx') \<Longrightarrow>
     lx_data lx' = lx_data lx \<and> lx_pos lx \<le> lx_pos lx'"
proof (induction esc cp count lx rule: lex_unicode_digits.induct)
  case (1 esc cp count lx)
  show ?case
  proof (cases "\<not> lx_at_end lx \<and> is_hex_digit (lx_peek 0 lx)")
    case True
    from "1.prems" have "\<not> 6 < count + 1"
      by (subst (asm) lex_unicode_digits.simps) (simp add: True Let_def lx_error_def split: if_splits)
    moreover from this "1.prems" have "lex_unicode_digits esc
        (cp * 16 + word_of_int (hex_digit_int (lx_peek 0 lx))) (count + 1) (lx_step lx) = Inr (cp', count', lx')"
      by (subst (asm) lex_unicode_digits.simps) (simp add: True Let_def)
    ultimately show ?thesis using "1.IH" [OF True refl refl refl] by simp
  next
    case False
    with "1.prems" show ?thesis by (subst (asm) lex_unicode_digits.simps) simp
  qed
qed

lemma lex_escape_ge:
  "lex_escape esc out lx = Inr (out', lx') \<Longrightarrow> lx_data lx' = lx_data lx \<and> lx_pos lx \<le> lx_pos lx'"
  by (auto simp: lex_escape_def lex_unicode_escape_def Let_def lx_error_def bindE_eq_Inr split: if_splits
      dest!: lex_unicode_digits_ge)

function lex_string_loop :: "nat \<Rightarrow> string \<Rightarrow> lexer \<Rightarrow> (string \<times> lexer) result" where
  "lex_string_loop open out lx =
     (if lx_at_end lx then lx_error open ''unterminated string literal'' lx
      else if lx_peek 0 lx = 0x22 then Inr (out, lx_step lx)
      else if lx_peek 0 lx = 0x0A
      then lx_error (lx_pos lx) ''unterminated string literal (newline in string)'' lx
      else if lx_peek 0 lx \<noteq> 0x5C
      then lex_string_loop open (out @ [char_of_byte (lx_peek 0 lx)]) (lx_step lx)
      else bindE (lex_escape (lx_pos lx) out (lx_step lx)) (\<lambda>(out, lx). lex_string_loop open out lx))"
  by pat_completeness auto
termination
  by (relation "measure (\<lambda>(open, out, lx). length (lx_data lx) - lx_pos lx)")
    (auto simp: lx_at_end_def dest!: lex_escape_ge)

declare lex_string_loop.simps [simp del]

definition lex_string :: "lexer \<Rightarrow> (token \<times> lexer) result" where
  "lex_string lx =
     (let tok = token_new (lx_pos lx)
      in bindE (lex_string_loop (lx_pos lx) [] (lx_step lx)) (\<lambda>(out, lx).
           Inr (tok\<lparr>tk_kind := TkString, tk_text := out\<rparr>, lx)))"

section \<open>The next token\<close>

text \<open>The characters that are a token on their own whatever follows.\<close>

definition simple_token :: "u8 \<Rightarrow> token_kind option" where
  "simple_token c = map_of
     [(0x7B, TkLBrace), (0x7D, TkRBrace), (0x5B, TkLBracket), (0x5D, TkRBracket), (0x28, TkLParen),
      (0x29, TkRParen), (0x3B, TkSemicolon), (0x2C, TkComma), (0x2E, TkDot), (0x3F, TkQuestion),
      (0x3A, TkColon), (0x2B, TkPlus), (0x2D, TkMinus), (0x2A, TkStar), (0x2F, TkSlash),
      (0x25, TkPercent), (0x5E, TkCaret), (0x7E, TkTilde)] c"

text \<open>The operators that depend on the next character, \<open>lx\<close> being behind the first.\<close>

definition longer_token :: "u8 \<Rightarrow> lexer \<Rightarrow> (token_kind \<times> lexer) option" where
  "longer_token c lx =
     (if c = 0x3D then Some (if lx_peek 0 lx = 0x3D then (TkEq, lx_step lx) else (TkAssign, lx))
      else if c = 0x21 then Some (if lx_peek 0 lx = 0x3D then (TkNe, lx_step lx) else (TkBang, lx))
      else if c = 0x3C
      then Some (if lx_peek 0 lx = 0x3C then (TkShl, lx_step lx)
                 else if lx_peek 0 lx = 0x3D then (TkLe, lx_step lx) else (TkLt, lx))
      else if c = 0x3E
      then Some (if lx_peek 0 lx = 0x3E then (TkShr, lx_step lx)
                 else if lx_peek 0 lx = 0x3D then (TkGe, lx_step lx) else (TkGt, lx))
      else if c = 0x26 then Some (if lx_peek 0 lx = 0x26 then (TkAndAnd, lx_step lx) else (TkAmp, lx))
      else if c = 0x7C then Some (if lx_peek 0 lx = 0x7C then (TkOrOr, lx_step lx) else (TkPipe, lx))
      else None)"

definition lex_operator :: "u8 \<Rightarrow> token \<Rightarrow> lexer \<Rightarrow> (token \<times> lexer) result" where
  "lex_operator c tok lx =
     (let start = lx_pos lx; lx = lx_step lx
      in case simple_token c of
           Some kind \<Rightarrow> Inr (tok\<lparr>tk_kind := kind\<rparr>, lx)
         | None \<Rightarrow>
             (case longer_token c lx of
                Some (kind, lx) \<Rightarrow> Inr (tok\<lparr>tk_kind := kind\<rparr>, lx)
              | None \<Rightarrow> lx_error start ''unexpected character'' lx))"

text \<open>\<^verbatim>\<open>next\<close> is this behind the trivia.\<close>

definition lex_token :: "lexer \<Rightarrow> (token \<times> lexer) result" where
  "lex_token lx =
     (let tok = token_new (lx_pos lx); c = lx_peek 0 lx
      in if lx_at_end lx then Inr (tok\<lparr>tk_kind := TkEof\<rparr>, lx)
         else if is_ident_start c then lex_ident_or_keyword lx
         else if is_digit c then lex_number lx
         else if c = 0x22 then lex_string lx
         else lex_operator c tok lx)"

definition lexer_next :: "lexer \<Rightarrow> (token \<times> lexer) result" where
  "lexer_next lx = bindE (skip_trivia lx) lex_token"

end
