(* ===== verification/Cs_Lex_Laws.thy ===== *)
theory Cs_Lex_Laws
  imports Cs_Lexer
begin

text \<open>
  What the tokenizer guarantees: it stays inside its buffer, every token but the end of input consumes
  bytes, and only two error codes occur, at offsets inside the buffer.
\<close>

section \<open>Staying inside the buffer\<close>

text \<open>\<open>lx'\<close> is reached from \<open>lx\<close>: the same buffer, not further back, not past the end.\<close>

definition lx_reaches :: "lexer \<Rightarrow> lexer \<Rightarrow> bool" where
  "lx_reaches lx lx' \<longleftrightarrow> lx_data lx' = lx_data lx \<and> lx_pos lx \<le> lx_pos lx' \<and> lx_pos lx' \<le> length (lx_data lx)"

lemma reaches_trans [trans]: "lx_reaches a b \<Longrightarrow> lx_reaches b c \<Longrightarrow> lx_reaches a c"
  by (auto simp: lx_reaches_def)

lemma reaches_refl: "lx_reaches a b \<Longrightarrow> lx_reaches b b"
  by (auto simp: lx_reaches_def)

lemma reaches_step: "lx_reaches a b \<Longrightarrow> \<not> lx_at_end b \<Longrightarrow> lx_reaches a (lx_step b)"
  by (auto simp: lx_reaches_def lx_at_end_def)

lemma peek_not_end: "lx_peek n lx \<noteq> 0 \<Longrightarrow> lx_pos lx + n < length (lx_data lx)"
  by (auto simp: lx_peek_def Let_def split: if_splits)

lemma peek_end [simp]: "lx_at_end lx \<Longrightarrow> lx_peek n lx = 0"
  by (simp add: lx_peek_def lx_at_end_def)

lemma peek_step [simp]: "lx_peek n (lx_step lx) = lx_peek (Suc n) lx"
  by (simp add: lx_peek_def)

lemma reaches_peek: "lx_reaches a b \<Longrightarrow> lx_peek 0 b \<noteq> 0 \<Longrightarrow> lx_reaches a (lx_step b)"
  using peek_not_end [of 0 b] by (auto simp: lx_reaches_def)

lemma reaches_peek2: "lx_reaches a b \<Longrightarrow> lx_peek 1 b \<noteq> 0 \<Longrightarrow> lx_reaches a (lx_step (lx_step b))"
  using peek_not_end [of 1 b] by (auto simp: lx_reaches_def)

lemma end_step:
  "lx_at_end (lx_step b) \<Longrightarrow> lx_peek (Suc 0) b = 0 \<and> lx_peek (Suc (Suc 0)) b = 0"
  "lx_at_end (lx_step (lx_step b)) \<Longrightarrow> lx_peek (Suc (Suc 0)) b = 0"
  using peek_end [of "lx_step b"] peek_end [of "lx_step (lx_step b)" 0] by simp_all

lemma hex_not_zero: "is_hex_digit c \<Longrightarrow> c \<noteq> 0"
  by (auto simp: is_hex_digit_def is_digit_def)

lemma digit_not_zero: "is_digit c \<Longrightarrow> c \<noteq> 0"
  by (auto simp: is_digit_def)

lemma reaches_skip_while: "lx_reaches a b \<Longrightarrow> lx_reaches a (lx_skip_while P b)"
proof (induction P b rule: lx_skip_while.induct)
  case (1 P b)
  then show ?case by (subst lx_skip_while.simps) (auto intro: reaches_step)
qed

lemma reaches_block_comment: "skip_block_comment b = (ok, b') \<Longrightarrow> lx_reaches a b \<Longrightarrow> lx_reaches a b'"
proof (induction b rule: skip_block_comment.induct)
  case (1 b)
  show ?case
  proof (cases "lx_at_end b \<or> (lx_peek 0 b = 0x2A \<and> lx_peek 1 b = 0x2F)")
    case True
    with "1.prems" show ?thesis
      by (subst (asm) skip_block_comment.simps) (auto split: if_splits intro: reaches_peek2)
  next
    case False
    with "1.prems" have "skip_block_comment (lx_step b) = (ok, b')"
      by (subst (asm) skip_block_comment.simps) (auto split: if_splits)
    with False show ?thesis using "1.IH" "1.prems"(2) by (auto intro: reaches_step)
  qed
qed

lemma reaches_trivia: "skip_trivia b = Inr b' \<Longrightarrow> lx_reaches a b \<Longrightarrow> lx_reaches a b'"
proof (induction b rule: skip_trivia.induct)
  case (1 b)
  consider "lx_at_end b" | "\<not> lx_at_end b" "is_space (lx_peek 0 b)"
    | "\<not> lx_at_end b" "\<not> is_space (lx_peek 0 b)" "lx_peek 0 b = 0x23"
    | "\<not> lx_at_end b" "\<not> is_space (lx_peek 0 b)" "lx_peek 0 b \<noteq> 0x23" "lx_peek 0 b = 0x2F" "lx_peek 1 b = 0x2F"
    | "\<not> lx_at_end b" "\<not> is_space (lx_peek 0 b)" "lx_peek 0 b \<noteq> 0x23" "lx_peek 0 b = 0x2F" "lx_peek 1 b = 0x2A"
    | "\<not> lx_at_end b" "\<not> is_space (lx_peek 0 b)" "lx_peek 0 b \<noteq> 0x23"
      "\<not> (lx_peek 0 b = 0x2F \<and> (lx_peek 1 b = 0x2F \<or> lx_peek 1 b = 0x2A))" by blast
  then show ?case
  proof cases
    case 1 with "1.prems" show ?thesis by (subst (asm) skip_trivia.simps) simp
  next
    case 2
    with "1.prems" show ?thesis
      by (subst (asm) skip_trivia.simps) (auto intro: "1.IH"(1) reaches_step)
  next
    case 3
    with "1.prems" show ?thesis
      by (subst (asm) skip_trivia.simps) (auto intro: "1.IH"(2) reaches_skip_while)
  next
    case 4
    with "1.prems" have rest: "skip_trivia (lx_skip_while (\<lambda>c. c \<noteq> 0x0A) (lx_step (lx_step b))) = Inr b'"
      by (subst (asm) skip_trivia.simps) simp
    have "lx_reaches a (lx_skip_while (\<lambda>c. c \<noteq> 0x0A) (lx_step (lx_step b)))"
      using 4 "1.prems"(2) by (intro reaches_skip_while reaches_peek2) auto
    with rest 4 show ?thesis by (intro "1.IH"(3)) auto
  next
    case 5
    then obtain closed b1 where b1: "skip_block_comment (lx_step (lx_step b)) = (closed, b1)" by fastforce
    from 5 "1.prems" b1 have closed: "closed" and rest: "skip_trivia b1 = Inr b'"
      by (subst (asm) skip_trivia.simps; auto simp: lx_error_def split: if_splits)+
    have "lx_reaches a b1" using b1 "1.prems"(2) 5 by (intro reaches_block_comment [OF b1] reaches_peek2) auto
    with closed 5 b1 rest show ?thesis by (intro "1.IH"(4)) auto
  next
    case 6 with "1.prems" show ?thesis by (subst (asm) skip_trivia.simps) auto
  qed
qed

section \<open>Tokens\<close>

lemma reaches_hex_loop: "lex_hex_loop acc b = (acc', b') \<Longrightarrow> lx_reaches a b \<Longrightarrow> lx_reaches a b'"
proof (induction acc b rule: lex_hex_loop.induct)
  case (1 acc b)
  show ?case
  proof (cases "\<not> lx_at_end b \<and> is_hex_digit (lx_peek 0 b)")
    case True
    with "1.prems" "1.IH" show ?thesis
      by (subst (asm) lex_hex_loop.simps) (auto intro: reaches_step)
  next
    case False
    with "1.prems" show ?thesis by (subst (asm) lex_hex_loop.simps) auto
  qed
qed

lemma reaches_unicode_digits:
  "lex_unicode_digits esc cp count b = Inr (cp', count', b') \<Longrightarrow> lx_reaches a b \<Longrightarrow> lx_reaches a b'"
proof (induction esc cp count b rule: lex_unicode_digits.induct)
  case (1 esc cp count b)
  show ?case
  proof (cases "\<not> lx_at_end b \<and> is_hex_digit (lx_peek 0 b)")
    case True
    from "1.prems"(1) have "\<not> 6 < count + 1"
      by (subst (asm) lex_unicode_digits.simps) (simp add: True Let_def lx_error_def split: if_splits)
    moreover from this "1.prems"(1) have "lex_unicode_digits esc
        (cp * 16 + word_of_int (hex_digit_int (lx_peek 0 b))) (count + 1) (lx_step b) = Inr (cp', count', b')"
      by (subst (asm) lex_unicode_digits.simps) (simp add: True Let_def)
    ultimately show ?thesis
      using "1.IH" [OF True refl refl refl] "1.prems"(2) True by (auto intro: reaches_step)
  next
    case False
    with "1.prems" show ?thesis by (subst (asm) lex_unicode_digits.simps) simp
  qed
qed

lemma reaches_unicode_escape:
  "lex_unicode_escape esc out b = Inr (out', b') \<Longrightarrow> lx_reaches a b \<Longrightarrow> lx_reaches a b'"
  by (auto simp: lex_unicode_escape_def lx_error_def bindE_eq_Inr split: if_splits
      intro!: reaches_step dest!: reaches_unicode_digits [where a = a])

lemma reaches_escape: "lex_escape esc out b = Inr (out', b') \<Longrightarrow> lx_reaches a b \<Longrightarrow> lx_reaches a b'"
  by (auto simp: lex_escape_def lx_error_def Let_def split: if_splits
      intro!: reaches_step dest!: hex_not_zero end_step dest: reaches_unicode_escape [where a = a])

lemma reaches_string_loop: "lex_string_loop open out b = Inr (out', b') \<Longrightarrow> lx_reaches a b \<Longrightarrow> lx_reaches a b'"
proof (induction "open" out b rule: lex_string_loop.induct)
  case (1 opn out b)
  show ?case
  proof (cases "lx_at_end b \<or> lx_peek 0 b \<in> {0x22, 0x0A}")
    case True
    with "1.prems" show ?thesis
      by (subst (asm) lex_string_loop.simps) (auto simp: lx_error_def split: if_splits intro: reaches_step)
  next
    case False
    show ?thesis
    proof (cases "lx_peek 0 b = 0x5C")
      case True
      with False "1.prems"(1) obtain out1 b1 where b1: "lex_escape (lx_pos b) out (lx_step b) = Inr (out1, b1)"
        and rest: "lex_string_loop opn out1 b1 = Inr (out', b')"
        by (subst (asm) lex_string_loop.simps) (auto simp: bindE_eq_Inr)
      have "lx_reaches a b1" using reaches_escape [OF b1] "1.prems"(2) False by (auto intro: reaches_step)
      with "1.IH"(2) [of "(out1, b1)" out1 b1] b1 rest False True show ?thesis by auto
    next
      case no: False
      with False "1.prems"(1) have "lex_string_loop opn (out @ [char_of_byte (lx_peek 0 b)]) (lx_step b) = Inr (out', b')"
        by (subst (asm) lex_string_loop.simps) auto
      with "1.IH"(1) "1.prems"(2) False no show ?thesis by (auto intro: reaches_step)
    qed
  qed
qed

lemma reaches_fraction: "lex_fraction (fl, b) = (fl', b') \<Longrightarrow> lx_reaches a b \<Longrightarrow> lx_reaches a b'"
  by (auto simp: lex_fraction_def split: if_splits intro: reaches_skip_while reaches_step)

lemma reaches_exponent: "lex_exponent (fl, b) = (fl', b') \<Longrightarrow> lx_reaches a b \<Longrightarrow> lx_reaches a b'"
  by (auto simp: lex_exponent_def Let_def split: if_splits
      intro!: reaches_skip_while reaches_peek intro: reaches_step)

text \<open>Each kind of token consumes, starts where it says, and is not the end of input.\<close>

definition consumes :: "lexer \<Rightarrow> token \<Rightarrow> lexer \<Rightarrow> bool" where
  "consumes lx tok lx' \<longleftrightarrow>
     lx_reaches lx lx' \<and> lx_pos lx < lx_pos lx' \<and> tk_offset tok = lx_pos lx \<and> tk_kind tok \<noteq> TkEof"

lemma keyword_kind_not_eof [simp]: "keyword_kind w \<noteq> TkEof"
  by (simp add: keyword_kind_def)

lemma ident_consumes:
  assumes "lex_ident_or_keyword lx = Inr (tok, lx')" and "is_ident_start (lx_peek 0 lx)" "lx_reaches lx lx"
    and "\<not> lx_at_end lx"
  shows "consumes lx tok lx'"
  using assms reaches_skip_while [of lx lx is_ident_part] lx_skip_while_gt [of lx is_ident_part]
  by (auto simp: lex_ident_or_keyword_def consumes_def token_new_def Let_def is_ident_part_def)

lemma fraction_forward: "lex_fraction (fl, b) = (fl', b') \<Longrightarrow> lx_pos b \<le> lx_pos b'"
  using lx_skip_while_ge [of is_digit "lx_step b"] by (auto simp: lex_fraction_def split: if_splits)

lemma exponent_forward: "lex_exponent (fl, b) = (fl', b') \<Longrightarrow> lx_pos b \<le> lx_pos b'"
  using lx_skip_while_ge [of is_digit "lx_step b"] lx_skip_while_ge [of is_digit "lx_step (lx_step b)"]
  by (auto simp: lex_exponent_def Let_def split: if_splits)

lemma number_consumes:
  assumes lex: "lex_number lx = Inr (tok, lx')" and digit: "is_digit (lx_peek 0 lx)" and r: "lx_reaches lx lx"
    and e: "\<not> lx_at_end lx"
  shows "consumes lx tok lx'"
proof (cases "lx_peek 0 lx = 0x30 \<and> (lx_peek 1 lx = 0x78 \<or> lx_peek 1 lx = 0x58)")
  case True
  obtain acc b where b: "lex_hex_loop 0 (lx_step (lx_step lx)) = (acc, b)" by fastforce
  have "lx_reaches lx b"
    by (rule reaches_hex_loop [OF b]) (rule reaches_peek2 [OF r], use True in auto)
  moreover have "lx_reaches (lx_step (lx_step lx)) b"
    by (rule reaches_hex_loop [OF b])
      (rule reaches_refl [of lx], rule reaches_peek2 [OF r], use True in auto)
  ultimately show ?thesis
    using lex True b
    by (auto simp: lex_number_def Let_def lx_error_def consumes_def token_new_def lx_reaches_def split: if_splits)
next
  case False
  let ?b = "lx_skip_while is_digit lx"
  obtain f1 b1 where b1: "lex_fraction (False, ?b) = (f1, b1)" by fastforce
  obtain f2 b2 where b2: "lex_exponent (f1, b1) = (f2, b2)" by fastforce
  have "lx_reaches lx b2" using r by (intro reaches_exponent [OF b2] reaches_fraction [OF b1] reaches_skip_while)
  moreover have "lx_pos lx < lx_pos b2"
    using lx_skip_while_gt [of lx is_digit, OF e digit] fraction_forward [OF b1] exponent_forward [OF b2] by simp
  moreover have "lx' = b2 \<and> tk_offset tok = lx_pos lx \<and> tk_kind tok \<in> {TkFloat, TkInt}"
    using lex unfolding lex_number_def Let_def if_not_P [OF False] b1 b2
    by (auto simp: token_new_def split: if_splits option.splits)
  ultimately show ?thesis by (auto simp: consumes_def)
qed

lemma string_consumes:
  assumes lex: "lex_string lx = Inr (tok, lx')" and r: "lx_reaches lx lx" and e: "\<not> lx_at_end lx"
  shows "consumes lx tok lx'"
proof -
  obtain out where loop: "lex_string_loop (lx_pos lx) [] (lx_step lx) = Inr (out, lx')"
    and tok: "tk_offset tok = lx_pos lx" "tk_kind tok = TkString"
    using lex by (auto simp: lex_string_def Let_def bindE_eq_Inr token_new_def)
  have "lx_reaches (lx_step lx) lx'"
    by (rule reaches_string_loop [OF loop]) (rule reaches_refl [OF reaches_step [OF r e]])
  with reaches_string_loop [OF loop reaches_step [OF r e]] tok show ?thesis
    by (simp add: consumes_def lx_reaches_def)
qed

lemma simple_token_kind: "simple_token c = Some k \<Longrightarrow> k \<noteq> TkEof"
  by (auto simp: simple_token_def split: if_splits)

lemma longer_token_reaches:
  "longer_token c b = Some (k, b') \<Longrightarrow> lx_reaches a b \<Longrightarrow> k \<noteq> TkEof \<and> lx_reaches a b' \<and> lx_pos b \<le> lx_pos b'"
  by (auto simp: longer_token_def split: if_splits intro: reaches_peek)

lemma operator_consumes:
  assumes "lex_operator c (token_new (lx_pos lx)) lx = Inr (tok, lx')" and r: "lx_reaches lx lx" and e: "\<not> lx_at_end lx"
  shows "consumes lx tok lx'"
  using assms(1) simple_token_kind reaches_step [OF r e] longer_token_reaches [of c "lx_step lx"]
  by (fastforce simp: lex_operator_def Let_def consumes_def token_new_def lx_error_def split: option.splits)

lemma token_consumes:
  assumes "lex_token lx = Inr (tok, lx')" and r: "lx_reaches lx lx"
  shows "if lx_at_end lx then lx' = lx \<and> tk_kind tok = TkEof \<and> tk_offset tok = lx_pos lx else consumes lx tok lx'"
  using assms ident_consumes [OF _ _ r, of tok lx'] number_consumes [OF _ _ r, of tok lx']
    string_consumes [OF _ r, of tok lx'] operator_consumes [OF _ r, of _ tok lx']
  by (auto simp: lex_token_def Let_def token_new_def split: if_splits)

lemma next_inside:
  assumes "lexer_next lx = Inr (tok, lx')" and "lx_pos lx \<le> length (lx_data lx)"
  shows "lx_reaches lx lx'" and "lx_pos lx \<le> tk_offset tok" and "tk_offset tok \<le> lx_pos lx'"
    and "tk_kind tok = TkEof \<longleftrightarrow> tk_offset tok = lx_pos lx'"
    and "tk_kind tok = TkEof \<Longrightarrow> lx_at_end lx'"
proof -
  obtain b where trivia: "skip_trivia lx = Inr b" and rest: "lex_token b = Inr (tok, lx')"
    using assms(1) by (auto simp: lexer_next_def bindE_eq_Inr)
  have b: "lx_reaches lx b"
    by (rule reaches_trivia [OF trivia]) (use assms(2) in \<open>simp add: lx_reaches_def\<close>)
  note tok = token_consumes [OF rest reaches_refl [OF b]]
  show "lx_reaches lx lx'" "lx_pos lx \<le> tk_offset tok" "tk_offset tok \<le> lx_pos lx'"
    "tk_kind tok = TkEof \<longleftrightarrow> tk_offset tok = lx_pos lx'" "tk_kind tok = TkEof \<Longrightarrow> lx_at_end lx'"
    using b tok by (auto intro: reaches_trans simp: consumes_def lx_reaches_def split: if_splits)
qed

section \<open>Errors\<close>

text \<open>An error of the tokenizer started at \<open>lx\<close>: one of two codes, at an offset inside the buffer.\<close>

definition lex_fails :: "lexer \<Rightarrow> parse_error \<Rightarrow> bool" where
  "lex_fails lx e \<longleftrightarrow>
     err_code e \<in> {kBadType, kBadLength} \<and> lx_pos lx \<le> err_offset e \<and> err_offset e \<le> length (lx_data lx)"

lemma error_fails: "lx_reaches a b \<Longrightarrow> lx_error (lx_pos b) msg c = Inl e \<Longrightarrow> lex_fails a e"
  by (auto simp: lx_error_def lex_fails_def lx_reaches_def)

lemma trivia_fails: "skip_trivia b = Inl e \<Longrightarrow> lx_reaches a b \<Longrightarrow> lex_fails a e"
proof (induction b rule: skip_trivia.induct)
  case (1 b)
  consider "lx_at_end b" | "\<not> lx_at_end b" "is_space (lx_peek 0 b)"
    | "\<not> lx_at_end b" "\<not> is_space (lx_peek 0 b)" "lx_peek 0 b = 0x23"
    | "\<not> lx_at_end b" "\<not> is_space (lx_peek 0 b)" "lx_peek 0 b \<noteq> 0x23" "lx_peek 0 b = 0x2F" "lx_peek 1 b = 0x2F"
    | "\<not> lx_at_end b" "\<not> is_space (lx_peek 0 b)" "lx_peek 0 b \<noteq> 0x23" "lx_peek 0 b = 0x2F" "lx_peek 1 b = 0x2A"
    | "\<not> lx_at_end b" "\<not> is_space (lx_peek 0 b)" "lx_peek 0 b \<noteq> 0x23"
      "\<not> (lx_peek 0 b = 0x2F \<and> (lx_peek 1 b = 0x2F \<or> lx_peek 1 b = 0x2A))" by blast
  then show ?case
  proof cases
    case 1 with "1.prems" show ?thesis by (subst (asm) skip_trivia.simps) simp
  next
    case 2
    with "1.prems" show ?thesis
      by (subst (asm) skip_trivia.simps) (auto intro: "1.IH"(1) reaches_step)
  next
    case 3
    with "1.prems" show ?thesis
      by (subst (asm) skip_trivia.simps) (auto intro: "1.IH"(2) reaches_skip_while)
  next
    case 4
    with "1.prems" have rest: "skip_trivia (lx_skip_while (\<lambda>c. c \<noteq> 0x0A) (lx_step (lx_step b))) = Inl e"
      by (subst (asm) skip_trivia.simps) simp
    have "lx_reaches a (lx_skip_while (\<lambda>c. c \<noteq> 0x0A) (lx_step (lx_step b)))"
      using 4 "1.prems"(2) by (intro reaches_skip_while reaches_peek2) auto
    with rest 4 show ?thesis by (intro "1.IH"(3)) auto
  next
    case 5
    then obtain closed b1 where b1: "skip_block_comment (lx_step (lx_step b)) = (closed, b1)" by fastforce
    from 5 "1.prems" b1 have cases: "if closed then skip_trivia b1 = Inl e
        else (lx_error (lx_pos b) ''unterminated block comment'' b1 :: lexer result) = Inl e"
      by (subst (asm) skip_trivia.simps) (simp split: if_splits)
    have "lx_reaches a b1" using b1 "1.prems"(2) 5 by (intro reaches_block_comment [OF b1] reaches_peek2) auto
    with cases 5 b1 "1.prems"(2) show ?thesis
      by (cases closed) (auto intro: "1.IH"(4) error_fails)
  next
    case 6 with "1.prems" show ?thesis by (subst (asm) skip_trivia.simps) auto
  qed
qed

lemma unicode_digits_fails:
  "lex_unicode_digits esc cp count b = Inl e \<Longrightarrow> err_code e = kBadType \<and> err_offset e = esc"
proof (induction esc cp count b rule: lex_unicode_digits.induct)
  case (1 esc cp count b)
  show ?case
  proof (cases "(\<not> lx_at_end b \<and> is_hex_digit (lx_peek 0 b)) \<and> \<not> 6 < count + 1")
    case True
    with "1.prems" have "lex_unicode_digits esc
        (cp * 16 + word_of_int (hex_digit_int (lx_peek 0 b))) (count + 1) (lx_step b) = Inl e"
      by (subst (asm) lex_unicode_digits.simps) (simp add: Let_def)
    with "1.IH" [OF _ refl refl refl] True show ?thesis by simp
  next
    case False
    with "1.prems" show ?thesis
      by (subst (asm) lex_unicode_digits.simps) (auto simp: Let_def lx_error_def split: if_splits)
  qed
qed

lemma escape_fails: "lex_escape esc out b = Inl e \<Longrightarrow> err_code e = kBadType \<and> err_offset e = esc"
  by (auto simp: lex_escape_def lex_unicode_escape_def append_utf8_def Let_def lx_error_def bindE_eq_Inl
      split: if_splits dest: unicode_digits_fails)

lemma string_loop_fails:
  "lex_string_loop opn out b = Inl e \<Longrightarrow> lx_reaches a b \<Longrightarrow> lx_pos a \<le> opn \<Longrightarrow> opn \<le> lx_pos b \<Longrightarrow> lex_fails a e"
proof (induction opn out b rule: lex_string_loop.induct)
  case (1 opn out b)
  show ?case
  proof (cases "lx_at_end b \<or> lx_peek 0 b \<in> {0x22, 0x0A}")
    case True
    with "1.prems" show ?thesis
      by (subst (asm) lex_string_loop.simps)
        (auto simp: lx_error_def lex_fails_def lx_reaches_def split: if_splits)
  next
    case False
    note step = reaches_step [OF "1.prems"(2)]
    show ?thesis
    proof (cases "lx_peek 0 b = 0x5C")
      case True
      with False "1.prems"(1) have "bindE (lex_escape (lx_pos b) out (lx_step b))
          (\<lambda>(out, lx). lex_string_loop opn out lx) = Inl e"
        by (subst (asm) lex_string_loop.simps) auto
      then consider "lex_escape (lx_pos b) out (lx_step b) = Inl e"
        | out1 b1 where "lex_escape (lx_pos b) out (lx_step b) = Inr (out1, b1)" "lex_string_loop opn out1 b1 = Inl e"
        by (auto simp: bindE_eq_Inl)
      then show ?thesis
      proof cases
        case 1
        with escape_fails [OF 1] "1.prems"(2) show ?thesis by (simp add: lex_fails_def lx_reaches_def)
      next
        case (2 out1 b1)
        have r: "lx_reaches a b1" using reaches_escape [OF 2(1)] step False by auto
        have "opn \<le> lx_pos b1" using lex_escape_ge [OF 2(1)] "1.prems"(4) by simp
        with "1.IH"(2) [of "(out1, b1)" out1 b1] 2 r "1.prems"(3) False True show ?thesis by auto
      qed
    next
      case no: False
      with False "1.prems"(1) have "lex_string_loop opn (out @ [char_of_byte (lx_peek 0 b)]) (lx_step b) = Inl e"
        by (subst (asm) lex_string_loop.simps) auto
      with "1.IH"(1) "1.prems" False no step show ?thesis by auto
    qed
  qed
qed

lemma token_fails:
  assumes "lex_token lx = Inl e" and r: "lx_reaches lx lx"
  shows "lex_fails lx e"
proof -
  consider "lex_ident_or_keyword lx = Inl e" | "lex_number lx = Inl e" | "lex_string lx = Inl e" "\<not> lx_at_end lx"
    | c where "lex_operator c (token_new (lx_pos lx)) lx = Inl e"
    using assms(1) by (auto simp: lex_token_def Let_def split: if_splits)
  then show ?thesis
  proof cases
    case 1
    then show ?thesis by (simp add: lex_ident_or_keyword_def Let_def)
  next
    case 2
    then show ?thesis
      using r by (auto simp: lex_number_def Let_def lx_error_def lex_fails_def lx_reaches_def
          split: if_splits prod.splits option.splits)
  next
    case 3
    then have "lex_string_loop (lx_pos lx) [] (lx_step lx) = Inl e"
      by (auto simp: lex_string_def Let_def bindE_eq_Inl)
    then show ?thesis by (rule string_loop_fails) (use r 3 in \<open>auto intro: reaches_step\<close>)
  next
    case 4
    then show ?thesis
      using r by (auto simp: lex_operator_def Let_def lx_error_def lex_fails_def lx_reaches_def
          split: option.splits prod.splits)
  qed
qed

lemma next_fails:
  assumes "lexer_next lx = Inl e" and "lx_pos lx \<le> length (lx_data lx)"
  shows "lex_fails lx e"
proof -
  have r: "lx_reaches lx lx" using assms(2) by (simp add: lx_reaches_def)
  consider "skip_trivia lx = Inl e" | b where "skip_trivia lx = Inr b" "lex_token b = Inl e"
    using assms(1) by (auto simp: lexer_next_def bindE_eq_Inl)
  then show ?thesis
  proof cases
    case 1
    then show ?thesis by (rule trivia_fails) (rule r)
  next
    case (2 b)
    have b: "lx_reaches lx b" by (rule reaches_trivia [OF 2(1) r])
    from token_fails [OF 2(2) reaches_refl [OF b]] b show ?thesis by (auto simp: lex_fails_def lx_reaches_def)
  qed
qed

end
