(* ===== verification/Cs_Streams.thy ===== *)
theory Cs_Streams
  imports Cs_Lex_Laws
begin

text \<open>
  The tokenizer as a function of the text still to be read: \<open>lx_rest\<close> is that text, \<open>stream lx ts\<close> says
  that the tokens up to the end of input are \<open>ts\<close> (up to their offsets), and \<open>yields bs ts\<close> that they are
  whenever the text is \<open>bs\<close>. The rules for \<open>yields\<close> read one token each off the front of a text.
\<close>

section \<open>The text still to be read\<close>

definition lx_rest :: "lexer \<Rightarrow> bytes" where
  "lx_rest lx = drop (lx_pos lx) (lx_data lx)"

lemma rest_step [simp]: "lx_rest (lx_step lx) = tl (lx_rest lx)"
  by (simp add: lx_rest_def tl_drop drop_Suc)

lemma rest_peek: "lx_peek n lx = (if n < length (lx_rest lx) then lx_rest lx ! n else 0)"
  by (auto simp: lx_peek_def lx_rest_def Let_def)

lemma rest_at_end: "lx_at_end lx \<longleftrightarrow> lx_rest lx = []"
  by (simp add: lx_at_end_def lx_rest_def)

lemma rest_new [simp]: "lx_rest (lexer_new data) = data"
  by (simp add: lx_rest_def lexer_new_def)

lemma rest_skip_while: "lx_rest (lx_skip_while P lx) = dropWhile P (lx_rest lx)"
proof (induction P lx rule: lx_skip_while.induct)
  case (1 P lx)
  show ?case
    by (subst lx_skip_while.simps) (cases "lx_rest lx"; auto simp: 1 rest_at_end rest_peek)
qed

lemma pos_skip_while: "lx_pos (lx_skip_while P lx) = lx_pos lx + length (takeWhile P (lx_rest lx))"
proof (induction P lx rule: lx_skip_while.induct)
  case (1 P lx)
  show ?case
    by (subst lx_skip_while.simps) (cases "lx_rest lx"; auto simp: 1 rest_at_end rest_peek)
qed

lemma lexeme_skip_while:
  "lexeme (lx_pos lx) (lx_skip_while P lx) = string_of_bytes (takeWhile P (lx_rest lx))"
  using lx_skip_while_ge [of P lx]
  by (simp add: lexeme_def pos_skip_while flip: lx_rest_def) (metis takeWhile_eq_take)

section \<open>Streams of tokens\<close>

definition tok_view :: "token \<Rightarrow> token" where
  "tok_view tok = tok\<lparr>tk_offset := 0\<rparr>"

lemma tok_view_fields [simp]:
  "tk_kind (tok_view t) = tk_kind t" "tk_text (tok_view t) = tk_text t"
  "tk_int_value (tok_view t) = tk_int_value t" "tk_float_value (tok_view t) = tk_float_value t"
  "tk_offset (tok_view t) = 0"
  by (simp_all add: tok_view_def)

inductive stream :: "lexer \<Rightarrow> token list \<Rightarrow> bool" where
  stream_end: "lexer_next lx = Inr (tok, lx') \<Longrightarrow> tk_kind tok = TkEof \<Longrightarrow> stream lx []"
| stream_token: "lexer_next lx = Inr (tok, lx') \<Longrightarrow> tk_kind tok \<noteq> TkEof \<Longrightarrow> stream lx' ts \<Longrightarrow>
    stream lx (tok_view tok # ts)"

inductive_cases stream_NilE: "stream lx []"
inductive_cases stream_ConsE: "stream lx (t # ts)"

definition yields :: "bytes \<Rightarrow> token list \<Rightarrow> bool" where
  "yields bs ts \<longleftrightarrow> (\<forall>lx. lx_rest lx = bs \<longrightarrow> stream lx ts)"

lemma yieldsD: "yields bs ts \<Longrightarrow> lx_rest lx = bs \<Longrightarrow> stream lx ts"
  by (simp add: yields_def)

text \<open>The head of the text is the start of no trivia.\<close>

definition no_trivia :: "bytes \<Rightarrow> bool" where
  "no_trivia bs \<longleftrightarrow> (case bs of [] \<Rightarrow> True | b # _ \<Rightarrow> \<not> is_space b \<and> b \<noteq> 0x23 \<and> b \<noteq> 0x2F)"

lemma skip_trivia_none: "no_trivia (lx_rest lx) \<Longrightarrow> skip_trivia lx = Inr lx"
  by (subst skip_trivia.simps) (auto simp: no_trivia_def rest_at_end rest_peek split: list.splits)

text \<open>The token \<open>t\<close> stands at the front of the text \<open>bs\<close>, and \<open>bs'\<close> is left behind it.\<close>

definition lexes :: "bytes \<Rightarrow> token \<Rightarrow> bytes \<Rightarrow> bool" where
  "lexes bs t bs' \<longleftrightarrow> (\<forall>lx. lx_rest lx = bs \<longrightarrow>
     (\<exists>tok lx'. lexer_next lx = Inr (tok, lx') \<and> tk_kind tok \<noteq> TkEof \<and> tok_view tok = t \<and> lx_rest lx' = bs'))"

lemma lexesD:
  assumes "lexes bs t bs'" "lx_rest lx = bs"
  obtains tok lx' where "lexer_next lx = Inr (tok, lx')" "tk_kind tok \<noteq> TkEof" "tok_view tok = t" "lx_rest lx' = bs'"
  using assms unfolding lexes_def by blast

lemma lexesI:
  assumes "no_trivia bs"
    and "\<And>lx. lx_rest lx = bs \<Longrightarrow>
      \<exists>tok lx'. lex_token lx = Inr (tok, lx') \<and> tk_kind tok \<noteq> TkEof \<and> tok_view tok = t \<and> lx_rest lx' = bs'"
  shows "lexes bs t bs'"
  unfolding lexes_def using assms by (auto simp: lexer_next_def skip_trivia_none)

lemma yields_lexes:
  assumes "lexes bs t bs'" and "yields bs' ts"
  shows "yields bs (t # ts)"
  unfolding yields_def
proof (intro allI impI)
  fix lx assume "lx_rest lx = bs"
  with assms(1) obtain tok lx' where tok: "lexer_next lx = Inr (tok, lx')" "tk_kind tok \<noteq> TkEof" "tok_view tok = t"
    and rest: "lx_rest lx' = bs'" by (rule lexesD)
  from stream_token [OF tok(1,2) yieldsD [OF assms(2) rest]] tok(3) show "stream lx (t # ts)" by simp
qed

lemma yields_end: "yields [] []"
  unfolding yields_def
proof (intro allI impI)
  fix lx assume "lx_rest lx = []"
  then have "lexer_next lx = Inr ((token_new (lx_pos lx))\<lparr>tk_kind := TkEof\<rparr>, lx)"
    by (simp add: lexer_next_def skip_trivia_none no_trivia_def lex_token_def rest_at_end Let_def)
  then show "stream lx []" by (rule stream_end) simp
qed

lemma next_step: "\<not> lx_at_end lx \<Longrightarrow> is_space (lx_peek 0 lx) \<Longrightarrow> lexer_next lx = lexer_next (lx_step lx)"
  unfolding lexer_next_def by (subst skip_trivia.simps) simp

lemma stream_next: "lexer_next lx = lexer_next lx' \<Longrightarrow> stream lx' ts \<Longrightarrow> stream lx ts"
  by (erule stream.cases) (simp_all add: stream.intros)

lemma lexes_space:
  assumes "is_space b" "lexes bs t bs'"
  shows "lexes (b # bs) t bs'"
  unfolding lexes_def
proof (intro allI impI)
  fix lx assume lx: "lx_rest lx = b # bs"
  have "lexer_next lx = lexer_next (lx_step lx)"
    by (rule next_step) (use lx assms(1) in \<open>simp_all add: rest_at_end rest_peek\<close>)
  with assms(2) lx show "\<exists>tok lx'. lexer_next lx = Inr (tok, lx') \<and> tk_kind tok \<noteq> TkEof \<and> tok_view tok = t \<and> lx_rest lx' = bs'"
    by (simp add: lexes_def)
qed

lemma yields_space:
  assumes "is_space b" and "yields bs ts"
  shows "yields (b # bs) ts"
  unfolding yields_def
proof (intro allI impI)
  fix lx assume lx: "lx_rest lx = b # bs"
  have "lexer_next lx = lexer_next (lx_step lx)"
    by (rule next_step) (use lx assms(1) in \<open>simp_all add: rest_at_end rest_peek\<close>)
  moreover have "stream (lx_step lx) ts" using assms(2) lx by (intro yieldsD) simp_all
  ultimately show "stream lx ts" by (rule stream_next)
qed

lemma yields_spaces: "list_all is_space cs \<Longrightarrow> yields bs ts \<Longrightarrow> yields (cs @ bs) ts"
  by (induction cs) (simp_all add: yields_space)

definition plain_token :: "token_kind \<Rightarrow> token" where
  "plain_token kind = (token_new 0)\<lparr>tk_kind := kind\<rparr>"

definition text_token :: "token_kind \<Rightarrow> string \<Rightarrow> token" where
  "text_token kind text = (token_new 0)\<lparr>tk_kind := kind, tk_text := text\<rparr>"

definition int_token :: "i64 \<Rightarrow> token" where
  "int_token i = (token_new 0)\<lparr>tk_kind := TkInt, tk_int_value := i\<rparr>"

lemma token_kinds [simp]:
  "tk_kind (plain_token kind) = kind" "tk_kind (text_token kind text) = kind" "tk_kind (int_token i) = TkInt"
  "tk_text (text_token kind text) = text" "tk_int_value (int_token i) = i"
  by (simp_all add: plain_token_def text_token_def int_token_def)

lemma simple_token_start:
  assumes "simple_token c = Some kind" "c \<noteq> 0x2F"
  shows "no_trivia (c # bs)" "\<not> is_ident_start c" "\<not> is_digit c" "c \<noteq> 0x22" "kind \<noteq> TkEof"
  using assms
  by (auto simp: simple_token_def no_trivia_def is_space_def is_ident_start_def is_digit_def split: if_splits)

lemma lexes_simple:
  assumes "simple_token c = Some kind" "c \<noteq> 0x2F"
  shows "lexes (c # bs) (plain_token kind) bs"
proof (rule lexesI)
  note start = simple_token_start [OF assms(1,2)]
  show "no_trivia (c # bs)" by (rule start)
  fix lx assume lx: "lx_rest lx = c # bs"
  have "lex_token lx = Inr ((token_new (lx_pos lx))\<lparr>tk_kind := kind\<rparr>, lx_step lx)"
    using start assms(1) lx by (simp add: lex_token_def rest_at_end rest_peek Let_def lex_operator_def)
  then show "\<exists>tok lx'. lex_token lx = Inr (tok, lx') \<and> tk_kind tok \<noteq> TkEof \<and> tok_view tok = plain_token kind \<and>
      lx_rest lx' = bs"
    using start(5) lx by (simp add: tok_view_def plain_token_def token_new_def)
qed

lemmas yields_simple = yields_lexes [OF lexes_simple]


lemma lexes_assign:
  assumes "bs = [] \<or> hd bs \<noteq> 0x3D"
  shows "lexes (0x3D # bs) (plain_token TkAssign) bs"
proof (rule lexesI)
  show "no_trivia (0x3D # bs)" by (simp add: no_trivia_def is_space_def)
  fix lx assume lx: "lx_rest lx = 0x3D # bs"
  have "lex_token lx = Inr ((token_new (lx_pos lx))\<lparr>tk_kind := TkAssign\<rparr>, lx_step lx)"
    using assms lx
    by (cases bs) (simp_all add: lex_token_def rest_at_end rest_peek Let_def lex_operator_def simple_token_def
        longer_token_def is_ident_start_def is_digit_def)
  then show "\<exists>tok lx'. lex_token lx = Inr (tok, lx') \<and> tk_kind tok \<noteq> TkEof \<and> tok_view tok = plain_token TkAssign \<and>
      lx_rest lx' = bs"
    using lx by (simp add: tok_view_def plain_token_def token_new_def)
qed

lemmas yields_assign = yields_lexes [OF lexes_assign]


section \<open>Words\<close>

text \<open>The strings the lexer reads as one identifier or keyword.\<close>

definition is_word :: "string \<Rightarrow> bool" where
  "is_word w \<longleftrightarrow> w \<noteq> [] \<and> is_ident_start (byte_of_char (hd w)) \<and> list_all (\<lambda>c. is_ident_part (byte_of_char c)) w"

definition ends_word :: "bytes \<Rightarrow> bool" where
  "ends_word bs \<longleftrightarrow> bs = [] \<or> \<not> is_ident_part (hd bs)"

lemma word_taken:
  assumes "is_word w" "ends_word bs"
  shows "takeWhile is_ident_part (bytes_of_string w @ bs) = bytes_of_string w"
    and "dropWhile is_ident_part (bytes_of_string w @ bs) = bs"
proof -
  have all: "\<forall>b \<in> set (bytes_of_string w). is_ident_part b"
    using assms(1) by (auto simp: is_word_def bytes_of_string_def list_all_iff)
  have bs: "takeWhile is_ident_part bs = []" "dropWhile is_ident_part bs = bs"
    using assms(2) by (cases bs; simp add: ends_word_def)+
  show "takeWhile is_ident_part (bytes_of_string w @ bs) = bytes_of_string w"
    "dropWhile is_ident_part (bytes_of_string w @ bs) = bs"
    using all bs by (simp_all add: takeWhile_append2 dropWhile_append2)
qed

lemma ident_start_no_trivia: "is_ident_start b \<Longrightarrow> no_trivia (b # bs)"
  by (auto simp: no_trivia_def is_ident_start_def is_space_def)

lemma lexes_word:
  assumes w: "is_word w" and ends: "ends_word bs"
  shows "lexes (bytes_of_string w @ bs) (text_token (keyword_kind w) w) bs"
proof (rule lexesI)
  obtain c w' where cw: "w = c # w'" and c: "is_ident_start (byte_of_char c)"
    using w by (cases w) (auto simp: is_word_def)
  show "no_trivia (bytes_of_string w @ bs)"
    using c by (simp add: cw bytes_of_string_def ident_start_no_trivia)
  fix lx assume lx: "lx_rest lx = bytes_of_string w @ bs"
  let ?lx = "lx_skip_while is_ident_part lx"
  have "lex_token lx = lex_ident_or_keyword lx"
    using c lx by (simp add: lex_token_def cw bytes_of_string_def rest_at_end rest_peek Let_def)
  also have "\<dots> = Inr ((token_new (lx_pos lx))\<lparr>tk_kind := keyword_kind w, tk_text := w\<rparr>, ?lx)"
    by (simp add: lex_ident_or_keyword_def Let_def lexeme_skip_while lx word_taken [OF w ends])
  finally show "\<exists>tok lx'. lex_token lx = Inr (tok, lx') \<and> tk_kind tok \<noteq> TkEof \<and>
      tok_view tok = text_token (keyword_kind w) w \<and> lx_rest lx' = bs"
    by (simp add: tok_view_def text_token_def token_new_def rest_skip_while lx word_taken [OF w ends])
qed

lemmas yields_word = yields_lexes [OF lexes_word]


section \<open>Decimal integers\<close>

definition ends_number :: "bytes \<Rightarrow> bool" where
  "ends_number bs \<longleftrightarrow>
     bs = [] \<or> (\<not> is_digit (hd bs) \<and> hd bs \<notin> {0x2E, 0x65, 0x45, 0x78, 0x58})"

lemma digit_of_digit_char: "d < 10 \<Longrightarrow> is_digit (byte_of_char (digit_char d))"
  by (simp add: is_digit_def word_le_nat_alt unat_byte_of_char of_char_digit_char)

lemma dec_of_nat_digits: "\<forall>c \<in> set (dec_of_nat n). is_digit (byte_of_char c)"
proof (induction n rule: dec_of_nat.induct)
  case (1 n)
  then show ?case by (subst dec_of_nat.simps) (auto simp: digit_of_digit_char)
qed

lemma dec_of_nat_zero: "hd (dec_of_nat n) = CHR ''0'' \<Longrightarrow> n = 0"
proof (induction n rule: dec_of_nat.induct)
  case (1 n)
  show ?case
  proof (cases "n < 10")
    case True
    with "1.prems" have "digit_char n = digit_char 0" by (subst (asm) dec_of_nat.simps) simp
    with True have "48 + n = 48 + 0" using of_char_digit_char [of n] of_char_digit_char [of 0] by simp
    then show ?thesis by simp
  next
    case False
    with "1.prems" have "hd (dec_of_nat (n div 10)) = CHR ''0''" by (subst (asm) dec_of_nat.simps) simp
    with "1.IH" False show ?thesis by auto
  qed
qed

lemma digits_taken:
  assumes "ends_number bs"
  shows "takeWhile is_digit (bytes_of_string (dec_of_nat n) @ bs) = bytes_of_string (dec_of_nat n)"
    and "dropWhile is_digit (bytes_of_string (dec_of_nat n) @ bs) = bs"
proof -
  have all: "\<forall>b \<in> set (bytes_of_string (dec_of_nat n)). is_digit b"
    using dec_of_nat_digits by (auto simp: bytes_of_string_def)
  have bs: "takeWhile is_digit bs = []" "dropWhile is_digit bs = bs"
    using assms by (cases bs; auto simp: ends_number_def)+
  show "takeWhile is_digit (bytes_of_string (dec_of_nat n) @ bs) = bytes_of_string (dec_of_nat n)"
    "dropWhile is_digit (bytes_of_string (dec_of_nat n) @ bs) = bs"
    using all bs by (simp_all add: takeWhile_append2 dropWhile_append2)
qed

lemma digit_not_ident: "is_digit b \<Longrightarrow> \<not> is_ident_start b"
  by (auto simp: is_digit_def is_ident_start_def word_le_nat_alt)

lemma not_fraction: "ends_number (lx_rest lx) \<Longrightarrow> lex_fraction (fl, lx) = (fl, lx)"
  by (cases "lx_rest lx") (auto simp: lex_fraction_def ends_number_def rest_at_end rest_peek)

lemma not_exponent: "ends_number (lx_rest lx) \<Longrightarrow> lex_exponent (fl, lx) = (fl, lx)"
  by (cases "lx_rest lx") (auto simp: lex_exponent_def ends_number_def rest_at_end rest_peek)

lemma not_hex:
  assumes "lx_rest lx = bytes_of_string (dec_of_nat n) @ bs" "ends_number bs"
  shows "\<not> (lx_peek 0 lx = 0x30 \<and> (lx_peek 1 lx = 0x78 \<or> lx_peek 1 lx = 0x58))"
proof
  assume hex: "lx_peek 0 lx = 0x30 \<and> (lx_peek 1 lx = 0x78 \<or> lx_peek 1 lx = 0x58)"
  have "byte_of_char (hd (dec_of_nat n)) = 0x30"
    using hex assms(1) by (cases "dec_of_nat n") (simp_all add: rest_peek bytes_of_string_def)
  then have "char_of_byte (byte_of_char (hd (dec_of_nat n))) = char_of_byte 0x30" by (simp only:)
  moreover have "char_of_byte 0x30 = CHR ''0''" by code_simp
  ultimately have "hd (dec_of_nat n) = CHR ''0''" by (simp only: char_of_byte_of_char)
  then have "dec_of_nat n = [CHR ''0'']" using dec_of_nat_zero [of n] by (simp add: dec_of_nat.simps)
  with hex assms show False by (cases bs) (auto simp: rest_peek bytes_of_string_def ends_number_def)
qed

lemma lexes_int:
  assumes n: "n < 2 ^ 63" and ends: "ends_number bs"
  shows "lexes (bytes_of_string (dec_of_nat n) @ bs) (int_token (of_nat n)) bs"
proof (rule lexesI)
  obtain c w where cw: "dec_of_nat n = c # w" by (cases "dec_of_nat n") simp_all
  then have c: "is_digit (byte_of_char c)" using dec_of_nat_digits [of n] by simp
  show "no_trivia (bytes_of_string (dec_of_nat n) @ bs)"
    using c by (auto simp: cw bytes_of_string_def no_trivia_def is_space_def is_digit_def)
  fix lx assume lx: "lx_rest lx = bytes_of_string (dec_of_nat n) @ bs"
  let ?lx = "lx_skip_while is_digit lx"
  have rest: "lx_rest ?lx = bs" by (simp add: rest_skip_while lx digits_taken [OF ends])
  have "lex_token lx = lex_number lx"
    using c lx digit_not_ident [OF c]
    by (simp add: lex_token_def cw bytes_of_string_def rest_at_end rest_peek Let_def)
  also have "\<dots> = Inr ((token_new (lx_pos lx))\<lparr>tk_kind := TkInt, tk_int_value := of_nat n\<rparr>, ?lx)"
    unfolding lex_number_def Let_def if_not_P [OF not_hex [OF lx ends]]
    using n ends by (simp add: not_fraction not_exponent rest lexeme_skip_while lx digits_taken [OF ends] stoll_def)
  finally show "\<exists>tok lx'. lex_token lx = Inr (tok, lx') \<and> tk_kind tok \<noteq> TkEof \<and>
      tok_view tok = int_token (of_nat n) \<and> lx_rest lx' = bs"
    using rest by (simp add: tok_view_def int_token_def token_new_def)
qed

lemmas yields_int = yields_lexes [OF lexes_int]


section \<open>Strings\<close>

lemma string_loop_end:
  "lx_rest lx = 0x22 # bs \<Longrightarrow> lex_string_loop at out lx = Inr (out, lx_step lx)"
  by (subst lex_string_loop.simps) (simp add: rest_at_end rest_peek)

lemma string_loop_char:
  assumes "lx_rest lx = b # bs" "b \<notin> {0x22, 0x0A, 0x5C}"
  shows "lex_string_loop at out lx = lex_string_loop at (out @ [char_of_byte b]) (lx_step lx)"
  using assms by (subst lex_string_loop.simps) (simp add: rest_at_end rest_peek)

lemma string_loop_escape:
  assumes "lx_rest lx = 0x5C # bs" and "lex_escape (lx_pos lx) out (lx_step lx) = Inr (out', lx')"
  shows "lex_string_loop at out lx = lex_string_loop at out' lx'"
  using assms by (subst lex_string_loop.simps) (simp add: rest_at_end rest_peek)

lemma lexes_string:
  assumes "\<And>at lx. lx_rest lx = cs @ 0x22 # bs \<Longrightarrow>
      \<exists>lx'. lex_string_loop at [] lx = Inr (text, lx') \<and> lx_rest lx' = bs"
  shows "lexes (0x22 # cs @ 0x22 # bs) (text_token TkString text) bs"
proof (rule lexesI)
  show "no_trivia (0x22 # cs @ 0x22 # bs)" by (simp add: no_trivia_def is_space_def)
  fix lx assume lx: "lx_rest lx = 0x22 # cs @ 0x22 # bs"
  from assms(1) [of "lx_step lx" "lx_pos lx"] lx obtain lx' where
    loop: "lex_string_loop (lx_pos lx) [] (lx_step lx) = Inr (text, lx')" "lx_rest lx' = bs" by auto
  have "lex_token lx = lex_string lx"
    using lx by (simp add: lex_token_def rest_at_end rest_peek Let_def is_ident_start_def is_digit_def)
  also have "\<dots> = Inr ((token_new (lx_pos lx))\<lparr>tk_kind := TkString, tk_text := text\<rparr>, lx')"
    by (simp add: lex_string_def Let_def loop)
  finally show "\<exists>tok lx'. lex_token lx = Inr (tok, lx') \<and> tk_kind tok \<noteq> TkEof \<and>
      tok_view tok = text_token TkString text \<and> lx_rest lx' = bs"
    using loop(2) by (simp add: tok_view_def text_token_def token_new_def)
qed

lemmas yields_string = yields_lexes [OF lexes_string]


section \<open>Integers out of range\<close>

lemma int_out_of_range:
  assumes n: "2 ^ 63 \<le> n" and ends: "ends_number bs" and lx: "lx_rest lx = bytes_of_string (dec_of_nat n) @ bs"
  shows "lexer_next lx = Inl (ParseError kBadLength (lx_pos lx) ''numeric literal out of range'')"
proof -
  obtain c w where cw: "dec_of_nat n = c # w" by (cases "dec_of_nat n") simp_all
  then have c: "is_digit (byte_of_char c)" using dec_of_nat_digits [of n] by simp
  have "no_trivia (lx_rest lx)"
    using c by (auto simp: lx cw bytes_of_string_def no_trivia_def is_space_def is_digit_def)
  then have "lexer_next lx = lex_token lx" by (simp add: lexer_next_def skip_trivia_none)
  also have "\<dots> = lex_number lx"
    using c lx digit_not_ident [OF c]
    by (simp add: lex_token_def cw bytes_of_string_def rest_at_end rest_peek Let_def)
  also have "\<dots> = Inl (ParseError kBadLength (lx_pos lx) ''numeric literal out of range'')"
    unfolding lex_number_def Let_def if_not_P [OF not_hex [OF lx ends]]
    using n ends
    by (simp add: not_fraction not_exponent rest_skip_while lexeme_skip_while lx digits_taken [OF ends] stoll_def)
  finally show ?thesis .
qed

end
