(* ===== verification/Cs_Serialize_Laws.thy ===== *)
theory Cs_Serialize_Laws
  imports Cs_Serialize Cs_Streams
begin

text \<open>
  The tokenizer applied to what the serializer printed. \<open>value_tokens\<close> and \<open>node_tokens\<close> are the tokens
  of a value and of a list of nodes; the printed text, whatever the options, yields exactly these.
\<close>

section \<open>String literals\<close>

lemma hex_digit_table:
  "list_all (\<lambda>n. is_hex_digit (byte_of_char (kHexDigits ! n)) \<and>
     hex_digit_int (byte_of_char (kHexDigits ! n)) = int n) [0..<16]"
  by code_simp

lemma hex_digit_read:
  "n < 16 \<Longrightarrow> is_hex_digit (byte_of_char (kHexDigits ! n))"
  "n < 16 \<Longrightarrow> hex_digit_int (byte_of_char (kHexDigits ! n)) = int n"
  using hex_digit_table by (auto simp: list_all_iff)

lemma nibble_less: "unat (c AND 0xF :: u8) < 16"
proof -
  have "c AND 0xF = take_bit 4 c" by (simp add: take_bit_eq_mask mask_eq_exp_minus_1)
  then have "unat (c AND 0xF) = take_bit 4 (unat c)" by (simp add: unsigned_take_bit_eq)
  then show ?thesis by (simp add: take_bit_eq_mod)
qed

lemma nibbles_join:
  "(ucast (push_bit 4 (of_nat (unat (drop_bit 4 c AND 0xF))) OR of_nat (unat (c AND 0xF)) :: u32) :: u8) = c"
proof -
  have f: "(0xF :: u8) = mask 4" by (simp add: mask_eq_exp_minus_1)
  have w: "of_nat (unat w) = (ucast w :: u32)" for w :: u8 by (simp add: unsigned_ucast_eq)
  show ?thesis
    unfolding f w by (rule bit_word_eqI) (auto simp: bit_simps not_less)
qed

lemma escape_simple:
  assumes rest: "lx_rest lx = 0x5C # e # bs"
    and e: "(e, r) \<in> {(0x6E, CHR 0x0A), (0x74, CHR 0x09), (0x72, CHR 0x0D), (0x5C, CHR 0x5C), (0x22, CHR 0x22)}"
  shows "lex_string_loop at out lx = lex_string_loop at (out @ [r]) (lx_step (lx_step lx))"
proof (rule string_loop_escape [OF rest])
  have at: "lx_peek (Suc 0) lx = e" "\<not> lx_at_end (lx_step lx)"
    by (simp_all add: rest_peek rest_at_end rest)
  consider "e = 0x6E" "r = CHR 0x0A" | "e = 0x74" "r = CHR 0x09" | "e = 0x72" "r = CHR 0x0D"
    | "e = 0x5C" "r = CHR 0x5C" | "e = 0x22" "r = CHR 0x22" using e by blast
  then show "lex_escape (lx_pos lx) out (lx_step lx) = Inr (out @ [r], lx_step (lx_step lx))"
    by cases (use at in \<open>simp_all add: lex_escape_def Let_def\<close>)
qed

lemma escape_hex:
  assumes rest: "lx_rest lx = 0x5C # 0x78 # byte_of_char (kHexDigits ! hi) # byte_of_char (kHexDigits ! lo) # bs"
    and digits: "hi < 16" "lo < 16"
  shows "lex_string_loop at out lx =
    lex_string_loop at (out @ [char_of_byte (ucast (push_bit 4 (of_nat hi :: u32) OR of_nat lo))])
      (lx_step (lx_step (lx_step (lx_step lx))))"
proof (rule string_loop_escape [OF rest])
  have peeks: "lx_peek (Suc 0) lx = 0x78" "lx_peek (Suc (Suc 0)) lx = byte_of_char (kHexDigits ! hi)"
    "lx_peek (Suc (Suc (Suc 0))) lx = byte_of_char (kHexDigits ! lo)"
    by (simp_all add: rest_peek rest)
  have "\<not> lx_at_end (lx_step lx)" by (simp add: rest_at_end rest)
  then show "lex_escape (lx_pos lx) out (lx_step lx) =
      Inr (out @ [char_of_byte (ucast (push_bit 4 (of_nat hi :: u32) OR of_nat lo))],
        lx_step (lx_step (lx_step (lx_step lx))))"
    using peeks unfolding lex_escape_def Let_def
    by (simp add: hex_digit_read digits push_byte_def del: push_bit_of_nat)
qed

lemma loop_escape_char:
  assumes "lx_rest lx = bytes_of_string (escape_char ch) @ bs"
  shows "\<exists>lx'. lex_string_loop at out lx = lex_string_loop at (out @ [ch]) lx' \<and> lx_rest lx' = bs"
proof -
  let ?c = "byte_of_char ch"
  have bytes: "byte_of_char (CHR 0x5C) = 0x5C" "byte_of_char (CHR 0x22) = 0x22" "byte_of_char (CHR ''n'') = 0x6E"
    "byte_of_char (CHR ''r'') = 0x72" "byte_of_char (CHR ''t'') = 0x74" "byte_of_char (CHR ''x'') = 0x78"
    by code_simp+
  have "ch = char_of_byte b" if "?c = b" for b by (simp flip: that)
  moreover have "char_of_byte 0x5C = CHR 0x5C" "char_of_byte 0x22 = CHR 0x22" "char_of_byte 0x0A = CHR 0x0A"
    "char_of_byte 0x0D = CHR 0x0D" "char_of_byte 0x09 = CHR 0x09" by code_simp+
  ultimately have chars: "?c = 0x5C \<Longrightarrow> ch = CHR 0x5C" "?c = 0x22 \<Longrightarrow> ch = CHR 0x22" "?c = 0x0A \<Longrightarrow> ch = CHR 0x0A"
    "?c = 0x0D \<Longrightarrow> ch = CHR 0x0D" "?c = 0x09 \<Longrightarrow> ch = CHR 0x09" by metis+
  consider (simple) e where "lx_rest lx = 0x5C # e # bs"
      "(e, ch) \<in> {(0x6E, CHR 0x0A), (0x74, CHR 0x09), (0x72, CHR 0x0D), (0x5C, CHR 0x5C), (0x22, CHR 0x22)}"
    | (hex) "escape_char ch = ser_hex_byte ?c" | (plain) "escape_char ch = [ch]" "?c \<notin> {0x22, 0x0A, 0x5C}"
    using assms chars
    by (cases "?c = 0x5C \<or> ?c = 0x22 \<or> ?c = 0x0A \<or> ?c = 0x0D \<or> ?c = 0x09")
      (auto simp: escape_char_def Let_def bytes bytes_of_string_def split: if_splits)
  then show ?thesis
  proof cases
    case (simple e)
    from escape_simple [OF this] simple(1) show ?thesis by (metis list.sel(3) rest_step)
  next
    case hex
    then have rest: "lx_rest lx = 0x5C # 0x78 # byte_of_char (kHexDigits ! unat (drop_bit 4 ?c AND 0xF)) #
        byte_of_char (kHexDigits ! unat (?c AND 0xF)) # bs"
      using assms by (simp add: ser_hex_byte_def bytes_of_string_def bytes)
    from escape_hex [OF rest nibble_less nibble_less, of at out] have
      "lex_string_loop at out lx = lex_string_loop at (out @ [ch]) (lx_step (lx_step (lx_step (lx_step lx))))"
      by (simp only: nibbles_join char_of_byte_of_char)
    then show ?thesis using rest by auto
  next
    case plain
    then have "lx_rest lx = ?c # bs" using assms by (simp add: bytes_of_string_def)
    from string_loop_char [OF this plain(2), of at out] this show ?thesis by auto
  qed
qed

lemma loop_escape_string:
  "lx_rest lx = bytes_of_string (escape_string s) @ 0x22 # bs \<Longrightarrow>
     \<exists>lx'. lex_string_loop at out lx = Inr (out @ s, lx') \<and> lx_rest lx' = bs"
proof (induction s arbitrary: lx out)
  case Nil
  then have "lx_rest lx = 0x22 # bs" by (simp add: bytes_of_string_def)
  from string_loop_end [OF this, of at out] this show ?case by simp
next
  case (Cons ch s)
  then have "lx_rest lx = bytes_of_string (escape_char ch) @ (bytes_of_string (escape_string s) @ 0x22 # bs)"
    by (simp add: bytes_of_string_def)
  from loop_escape_char [OF this, of at out] obtain lx1 where
    "lex_string_loop at out lx = lex_string_loop at (out @ [ch]) lx1"
    "lx_rest lx1 = bytes_of_string (escape_string s) @ 0x22 # bs" by blast
  with Cons.IH [of lx1 "out @ [ch]"] show ?case by simp
qed

lemma escape_string_inject: "escape_string s = escape_string t \<longleftrightarrow> s = t"
proof
  assume eq: "escape_string s = escape_string t"
  let ?lx = "lexer_new (bytes_of_string (escape_string s) @ [0x22])"
  have "lex_string_loop 0 [] ?lx = Inr (s, lx') \<Longrightarrow> lex_string_loop 0 [] ?lx = Inr (t, lx'') \<Longrightarrow> s = t" for lx' lx''
    by simp
  moreover have "\<exists>lx'. lex_string_loop 0 [] ?lx = Inr (s, lx')"
    using loop_escape_string [of ?lx s "[]" 0 "[]"] by auto
  moreover have "\<exists>lx'. lex_string_loop 0 [] ?lx = Inr (t, lx')"
    using loop_escape_string [of ?lx t "[]" 0 "[]"] eq by auto
  ultimately show "s = t" by blast
qed simp

lemma yields_quoted:
  "yields bs ts \<Longrightarrow> yields (bytes_of_string (ser_quoted s) @ bs) (text_token TkString s # ts)"
proof -
  assume bs: "yields bs ts"
  have "byte_of_char (CHR 0x22) = 0x22" by code_simp
  then have "bytes_of_string (ser_quoted s) @ bs = 0x22 # bytes_of_string (escape_string s) @ 0x22 # bs"
    by (simp add: ser_quoted_def bytes_of_string_def)
  moreover have "yields (0x22 # bytes_of_string (escape_string s) @ 0x22 # bs) (text_token TkString s # ts)"
    using bs loop_escape_string [where out = "[]"] by (intro yields_string) simp_all
  ultimately show ?thesis by simp
qed

lemma next_quoted:
  assumes "lx_rest lx = bytes_of_string (ser_quoted s) @ bs"
  shows "\<exists>tok lx'. lexer_next lx = Inr (tok, lx') \<and> tk_kind tok = TkString \<and> tk_text tok = s \<and> lx_rest lx' = bs"
proof -
  have q: "byte_of_char (CHR 0x22) = 0x22" by code_simp
  then have rest: "lx_rest lx = 0x22 # bytes_of_string (escape_string s) @ 0x22 # bs"
    using assms by (simp add: ser_quoted_def bytes_of_string_def)
  then obtain lx' where loop: "lex_string_loop (lx_pos lx) [] (lx_step lx) = Inr (s, lx')" "lx_rest lx' = bs"
    using loop_escape_string [of "lx_step lx" s bs "lx_pos lx" "[]"] by auto
  have "lexer_next lx = lex_token lx"
    by (simp add: lexer_next_def skip_trivia_none no_trivia_def is_space_def rest)
  also have "\<dots> = lex_string lx"
    using rest by (simp add: lex_token_def rest_at_end rest_peek Let_def is_ident_start_def is_digit_def)
  finally show ?thesis using loop by (simp add: lex_string_def Let_def)
qed

end
