(* ===== verification/Cs_Parser.thy ===== *)
theory Cs_Parser
  imports Cs_Lex_Laws
begin

text \<open>
  The recursive-descent parser (\<^verbatim>\<open>include/cfgscript/parser.hpp\<close>, \<^verbatim>\<open>src/cfgscript/parser.cpp\<close>). The
  parser object is its lexer and the token of lookahead; a production is a function from it to an error
  or a tree with the object behind it. The productions recurse with a growing depth, which the limit
  bounds; their loops are functions of the production they repeat, indexed by the weight of the object,
  which every iteration decreases (theory \<open>Cs_Parse_Laws\<close> has the laws of the loops).
\<close>

section \<open>The parser object\<close>

record parser =
  ps_lexer :: lexer
  ps_cur :: token

type_synonym 'a ps = "parser \<Rightarrow> (parse_error + 'a \<times> parser)"

definition ps_return :: "'a \<Rightarrow> 'a ps" where
  "ps_return x st = Inr (x, st)"

definition ps_bind :: "'a ps \<Rightarrow> ('a \<Rightarrow> 'b ps) \<Rightarrow> 'b ps" where
  "ps_bind m f st = bindE (m st) (\<lambda>(x, st'). f x st')"

definition ps_error :: "nat \<Rightarrow> string \<Rightarrow> 'a ps" where
  "ps_error at msg st = Inl (ParseError kBadType at msg)"

definition kMaxDepth :: nat where
  "kMaxDepth = 64"

definition ps_too_deep :: "nat \<Rightarrow> 'a ps" where
  "ps_too_deep at st = Inl (ParseError kDepthExceeded at ''nesting too deep'')"

definition parser_new :: "bytes \<Rightarrow> parser result" where
  "parser_new data =
     bindE (lexer_next (lexer_new data)) (\<lambda>(tok, lx). Inr \<lparr>ps_lexer = lx, ps_cur = tok\<rparr>)"

definition ps_take :: "token ps" where
  "ps_take st =
     bindE (lexer_next (ps_lexer st)) (\<lambda>(tok, lx). Inr (ps_cur st, \<lparr>ps_lexer = lx, ps_cur = tok\<rparr>))"

definition ps_check :: "token_kind \<Rightarrow> parser \<Rightarrow> bool" where
  "ps_check kind st \<longleftrightarrow> tk_kind (ps_cur st) = kind"

definition ps_accept :: "token_kind \<Rightarrow> bool ps" where
  "ps_accept kind st =
     (if ps_check kind st then ps_bind ps_take (\<lambda>t. ps_return True) st else Inr (False, st))"

definition ps_expect :: "token_kind \<Rightarrow> string \<Rightarrow> token ps" where
  "ps_expect kind what st =
     (if tk_kind (ps_cur st) \<noteq> kind
      then ps_error (tk_offset (ps_cur st))
             (''expected '' @ what @ '', found '' @ token_kind_name (tk_kind (ps_cur st))) st
      else ps_take st)"

text \<open>What is left to read: the bytes behind the lookahead, and the lookahead itself.\<close>

definition ps_weight :: "parser \<Rightarrow> nat" where
  "ps_weight st =
     length (lx_data (ps_lexer st)) - lx_pos (ps_lexer st) + (if tk_kind (ps_cur st) = TkEof then 0 else 1)"

definition cs_quoted :: "string \<Rightarrow> string" where
  "cs_quoted s = [CHR 0x27] @ s @ [CHR 0x27]"

section \<open>Expressions\<close>

fun binary_precedence :: "token_kind \<Rightarrow> int" where
  "binary_precedence TkStar = 11"
| "binary_precedence TkSlash = 11"
| "binary_precedence TkPercent = 11"
| "binary_precedence TkPlus = 10"
| "binary_precedence TkMinus = 10"
| "binary_precedence TkShl = 9"
| "binary_precedence TkShr = 9"
| "binary_precedence TkLt = 8"
| "binary_precedence TkLe = 8"
| "binary_precedence TkGt = 8"
| "binary_precedence TkGe = 8"
| "binary_precedence TkEq = 7"
| "binary_precedence TkNe = 7"
| "binary_precedence TkAmp = 6"
| "binary_precedence TkCaret = 5"
| "binary_precedence TkPipe = 4"
| "binary_precedence TkAndAnd = 3"
| "binary_precedence TkOrOr = 2"
| "binary_precedence _ = - 1"

text \<open>The loop of \<^verbatim>\<open>parse_binary\<close>; \<open>child prec\<close> parses a right operand behind an operator of that precedence.\<close>

fun binary_loop :: "nat \<Rightarrow> (int \<Rightarrow> expr ps) \<Rightarrow> int \<Rightarrow> expr \<Rightarrow> expr ps" where
  "binary_loop 0 child min_prec lhs st = Inr (lhs, st)"
| "binary_loop (Suc n) child min_prec lhs st =
     (let prec = binary_precedence (tk_kind (ps_cur st))
      in if prec < min_prec then Inr (lhs, st)
         else ps_bind ps_take (\<lambda>opr. ps_bind (child prec) (\<lambda>rhs.
                binary_loop n child min_prec (EBinary (tk_offset opr) (tk_kind opr) lhs rhs))) st)"

text \<open>The elements of an array literal that has at least one, up to the closing bracket.\<close>

fun array_loop :: "nat \<Rightarrow> expr ps \<Rightarrow> expr list ps" where
  "array_loop 0 child st = ps_bind child (\<lambda>x. ps_return [x]) st"
| "array_loop (Suc n) child st =
     ps_bind child (\<lambda>x. ps_bind (ps_accept TkComma) (\<lambda>comma st.
       if comma
       then (if ps_check TkRBracket st then Inr ([x], st)
             else ps_bind (array_loop n child) (\<lambda>xs. ps_return (x # xs)) st)
       else Inr ([x], st))) st"

definition parse_array :: "expr ps \<Rightarrow> nat \<Rightarrow> nat \<Rightarrow> expr ps" where
  "parse_array child off depth =
     (if kMaxDepth < depth then ps_too_deep off
      else ps_bind (ps_expect TkLBracket (cs_quoted ''['')) (\<lambda>_.
        ps_bind (\<lambda>st. if \<not> ps_check TkRBracket st then array_loop (ps_weight st) child st else Inr ([], st)) (\<lambda>xs.
        ps_bind (ps_expect TkRBracket (cs_quoted '']'' @ '' to close array literal'')) (\<lambda>_.
        ps_return (EArray off xs)))))"

fun object_loop :: "nat \<Rightarrow> expr ps \<Rightarrow> nat \<Rightarrow> (string \<times> expr) list ps" where
  "object_loop 0 child off st =
     ps_error off (''unterminated object literal (missing '' @ cs_quoted ''}'' @ '')'') st"
| "object_loop (Suc n) child off st =
     (if ps_check TkRBrace st then Inr ([], st)
      else if ps_check TkEof st
      then ps_error off (''unterminated object literal (missing '' @ cs_quoted ''}'' @ '')'') st
      else ps_bind (ps_accept TkSemicolon) (\<lambda>semicolon.
        if semicolon then object_loop n child off
        else ps_bind (ps_expect TkIdent ''key identifier in object literal'') (\<lambda>key.
          ps_bind (ps_expect TkAssign (cs_quoted ''='' @ '' after object key'')) (\<lambda>_.
          ps_bind child (\<lambda>v.
          ps_bind (ps_expect TkSemicolon (cs_quoted '';'' @ '' after object field'')) (\<lambda>_.
          ps_bind (object_loop n child off) (\<lambda>fields. ps_return ((tk_text key, v) # fields))))))) st)"

definition parse_object :: "expr ps \<Rightarrow> nat \<Rightarrow> nat \<Rightarrow> expr ps" where
  "parse_object child off depth =
     (if kMaxDepth < depth then ps_too_deep off
      else ps_bind (ps_expect TkLBrace (cs_quoted ''{'')) (\<lambda>_.
        ps_bind (\<lambda>st. object_loop (ps_weight st) child off st) (\<lambda>fields.
        ps_bind (ps_expect TkRBrace (cs_quoted ''}'' @ '' to close object literal'')) (\<lambda>_.
        ps_return (EObject off fields)))))"

text \<open>\<^verbatim>\<open>parse_primary\<close>, with the production of a nested expression as an argument.\<close>

definition primary_of :: "expr ps \<Rightarrow> nat \<Rightarrow> expr ps" where
  "primary_of child depth st =
     (let t = ps_cur st; off = tk_offset t; leaf = (\<lambda>e. ps_bind ps_take (\<lambda>_. ps_return e) st)
      in case tk_kind t of
           TkInt \<Rightarrow> leaf (EInt off (tk_int_value t))
         | TkFloat \<Rightarrow> leaf (EFloat off (tk_float_value t))
         | TkString \<Rightarrow> leaf (EStr off (tk_text t))
         | TkTrue \<Rightarrow> leaf (EBool off True)
         | TkFalse \<Rightarrow> leaf (EBool off False)
         | TkNull \<Rightarrow> leaf (ENull off)
         | TkIdent \<Rightarrow> leaf (EIdent off (tk_text t))
         | TkLParen \<Rightarrow> ps_bind ps_take (\<lambda>_. ps_bind child (\<lambda>inner.
             ps_bind (ps_expect TkRParen (cs_quoted '')'' @ '' to close parenthesized expression'')) (\<lambda>_.
             ps_return inner))) st
         | TkLBracket \<Rightarrow> parse_array child off depth st
         | TkLBrace \<Rightarrow> parse_object child off depth st
         | _ \<Rightarrow> ps_error off (''expected an expression, found '' @ token_kind_name (tk_kind t)) st)"

function parse_ternary :: "nat \<Rightarrow> expr ps"
  and parse_binary :: "int \<Rightarrow> nat \<Rightarrow> expr ps"
  and parse_unary :: "nat \<Rightarrow> expr ps"
  and parse_primary :: "nat \<Rightarrow> expr ps" where
  "parse_ternary depth =
     (if kMaxDepth < depth then (\<lambda>st. ps_too_deep (tk_offset (ps_cur st)) st)
      else ps_bind (parse_binary 1 depth) (\<lambda>cond st.
        if ps_check TkQuestion st
        then ps_bind ps_take (\<lambda>q. ps_bind (parse_ternary (depth + 1)) (\<lambda>then_branch.
               ps_bind (ps_expect TkColon (cs_quoted '':'' @ '' in ternary expression'')) (\<lambda>_.
               ps_bind (parse_ternary (depth + 1)) (\<lambda>else_branch.
               ps_return (ETernary (tk_offset q) cond then_branch else_branch))))) st
        else Inr (cond, st)))"
| "parse_binary min_prec depth =
     (if kMaxDepth < depth then (\<lambda>st. ps_too_deep (tk_offset (ps_cur st)) st)
      else ps_bind (parse_unary (depth + 1)) (\<lambda>lhs st.
        binary_loop (ps_weight st) (\<lambda>prec. parse_binary (prec + 1) (depth + 1)) min_prec lhs st))"
| "parse_unary depth =
     (if kMaxDepth < depth then (\<lambda>st. ps_too_deep (tk_offset (ps_cur st)) st)
      else (\<lambda>st. if ps_check TkMinus st \<or> ps_check TkBang st \<or> ps_check TkTilde st
        then ps_bind ps_take (\<lambda>opr. ps_bind (parse_unary (depth + 1)) (\<lambda>operand.
               ps_return (EUnary (tk_offset opr) (tk_kind opr) operand))) st
        else parse_primary depth st))"
| "parse_primary depth =
     (if kMaxDepth < depth then (\<lambda>st. ps_too_deep (tk_offset (ps_cur st)) st)
      else primary_of (parse_ternary (depth + 1)) depth)"
  by pat_completeness auto
termination
  by (relation "measure (\<lambda>x. case x of
       Inl (Inl d) \<Rightarrow> 4 * (Suc kMaxDepth - d) + 3
     | Inl (Inr (m, d)) \<Rightarrow> 4 * (Suc kMaxDepth - d) + 2
     | Inr (Inl d) \<Rightarrow> 4 * (Suc kMaxDepth - d) + 1
     | Inr (Inr d) \<Rightarrow> 4 * (Suc kMaxDepth - d))") auto

declare parse_ternary.simps [simp del] parse_binary.simps [simp del]
  parse_unary.simps [simp del] parse_primary.simps [simp del]

definition parse_expr :: "nat \<Rightarrow> expr ps" where
  "parse_expr depth = parse_ternary depth"

section \<open>Statements\<close>

definition parse_assignment :: "string list \<Rightarrow> nat \<Rightarrow> statement ps" where
  "parse_assignment path off =
     ps_bind (ps_expect TkAssign (cs_quoted ''='' @ '' in assignment'')) (\<lambda>_.
     ps_bind (parse_expr 1) (\<lambda>e.
     ps_bind (ps_expect TkSemicolon (cs_quoted '';'' @ '' after assignment'')) (\<lambda>_.
     ps_return (StAssignment off path e))))"

text \<open>The components of a dotted path behind the first.\<close>

fun path_loop :: "nat \<Rightarrow> string list ps" where
  "path_loop 0 st = Inr ([], st)"
| "path_loop (Suc n) st =
     ps_bind (ps_accept TkDot) (\<lambda>dot.
       if dot then ps_bind (ps_expect TkIdent (''identifier after '' @ cs_quoted ''.'')) (\<lambda>part.
                     ps_bind (path_loop n) (\<lambda>path. ps_return (tk_text part # path)))
       else ps_return []) st"

fun block_loop :: "nat \<Rightarrow> statement ps \<Rightarrow> nat \<Rightarrow> statement list ps" where
  "block_loop 0 child off st = ps_error off (''unterminated block (missing '' @ cs_quoted ''}'' @ '')'') st"
| "block_loop (Suc n) child off st =
     (if ps_check TkRBrace st then Inr ([], st)
      else if ps_check TkEof st then ps_error off (''unterminated block (missing '' @ cs_quoted ''}'' @ '')'') st
      else ps_bind (ps_accept TkSemicolon) (\<lambda>semicolon.
        if semicolon then block_loop n child off
        else ps_bind child (\<lambda>s. ps_bind (block_loop n child off) (\<lambda>ss. ps_return (s # ss)))) st)"

text \<open>\<^verbatim>\<open>parse_block\<close>; the caller sets the label, \<open>child\<close> parses a statement one level deeper.\<close>

definition parse_block :: "statement ps \<Rightarrow> string \<Rightarrow> string option \<Rightarrow> nat \<Rightarrow> statement ps" where
  "parse_block child name label off =
     ps_bind (ps_expect TkLBrace (cs_quoted ''{'' @ '' to open block'')) (\<lambda>_.
     ps_bind (\<lambda>st. block_loop (ps_weight st) child off st) (\<lambda>children.
     ps_bind (ps_expect TkRBrace (cs_quoted ''}'' @ '' to close block'')) (\<lambda>_.
     ps_return (StBlock off name label children))))"

definition parse_include :: "nat \<Rightarrow> statement ps" where
  "parse_include off =
     ps_bind ps_take (\<lambda>_.
     ps_bind (ps_expect TkString (''string path after '' @ cs_quoted ''include'')) (\<lambda>path.
     ps_bind (ps_expect TkSemicolon (cs_quoted '';'' @ '' after include path'')) (\<lambda>_.
     ps_return (StInclude off (tk_text path)))))"

text \<open>A statement that starts with an identifier.\<close>

definition parse_named :: "statement ps \<Rightarrow> nat \<Rightarrow> statement ps" where
  "parse_named child off =
     ps_bind (ps_expect TkIdent ''identifier at start of statement'') (\<lambda>first st.
       if ps_check TkString st
       then ps_bind ps_take (\<lambda>label st.
              if \<not> ps_check TkLBrace st
              then ps_error (tk_offset (ps_cur st)) (''expected '' @ cs_quoted ''{'' @ '' after block label'') st
              else parse_block child (tk_text first) (Some (tk_text label)) off st) st
       else if ps_check TkLBrace st then parse_block child (tk_text first) None off st
       else ps_bind (\<lambda>st. path_loop (ps_weight st) st) (\<lambda>path. parse_assignment (tk_text first # path) off) st)"

function parse_statement :: "nat \<Rightarrow> statement ps" where
  "parse_statement depth =
     (if kMaxDepth < depth then (\<lambda>st. ps_too_deep (tk_offset (ps_cur st)) st)
      else (\<lambda>st. let off = tk_offset (ps_cur st)
        in if ps_check TkInclude st then parse_include off st
           else parse_named (parse_statement (depth + 1)) off st))"
  by pat_completeness auto
termination
  by (relation "measure (\<lambda>d. Suc kMaxDepth - d)") auto

declare parse_statement.simps [simp del]

fun document_loop :: "nat \<Rightarrow> statement ps \<Rightarrow> statement list ps" where
  "document_loop 0 child st = Inr ([], st)"
| "document_loop (Suc n) child st =
     (if ps_check TkEof st then Inr ([], st)
      else ps_bind (ps_accept TkSemicolon) (\<lambda>semicolon.
        if semicolon then document_loop n child
        else ps_bind child (\<lambda>s. ps_bind (document_loop n child) (\<lambda>ss. ps_return (s # ss)))) st)"

definition parse_document :: "statement list ps" where
  "parse_document st = document_loop (ps_weight st) (parse_statement 1) st"

end
