(* ===== verification/Cs_Parse_Laws.thy ===== *)
theory Cs_Parse_Laws
  imports Cs_Parser
begin

text \<open>
  What every production of the parser promises: it keeps the parser object well-formed, it never gains
  weight, a production of an expression or a statement consumes a token, and errors are of three codes
  at offsets inside the input. The contract is the locale \<open>production\<close>, with \<open>consuming\<close> for the
  productions that consume; the laws of the loops are proved once inside \<open>consuming\<close>.
\<close>

section \<open>Contracts\<close>

text \<open>The parser object over an input of \<open>n\<close> bytes.\<close>

definition ps_ok :: "nat \<Rightarrow> parser \<Rightarrow> bool" where
  "ps_ok n st \<longleftrightarrow>
     length (lx_data (ps_lexer st)) = n \<and> lx_pos (ps_lexer st) \<le> n \<and> tk_offset (ps_cur st) \<le> n \<and>
     (tk_kind (ps_cur st) = TkEof \<longrightarrow> lx_pos (ps_lexer st) = n)"

definition parse_codes :: "error_code set" where
  "parse_codes = {kBadType, kBadLength, kDepthExceeded}"

lemma in_parse_codes [simp]: "kBadType \<in> parse_codes" "kBadLength \<in> parse_codes" "kDepthExceeded \<in> parse_codes"
  by (simp_all add: parse_codes_def)

locale production =
  fixes p :: "'a ps" and n :: nat
  assumes keeps: "ps_ok n st \<Longrightarrow> p st = Inr (x, st') \<Longrightarrow> ps_ok n st' \<and> ps_weight st' \<le> ps_weight st"
    and fails: "ps_ok n st \<Longrightarrow> p st = Inl e \<Longrightarrow> err_code e \<in> parse_codes \<and> err_offset e \<le> n"

locale consuming = production +
  assumes consumes: "ps_ok n st \<Longrightarrow> p st = Inr (x, st') \<Longrightarrow> ps_weight st' < ps_weight st"

lemma consumingI:
  assumes "\<And>st x st'. ps_ok n st \<Longrightarrow> p st = Inr (x, st') \<Longrightarrow> ps_ok n st' \<and> ps_weight st' < ps_weight st"
    and "\<And>st e. ps_ok n st \<Longrightarrow> p st = Inl e \<Longrightarrow> err_code e \<in> parse_codes \<and> err_offset e \<le> n"
  shows "consuming p n"
  by standard (use assms in \<open>auto dest: less_imp_le\<close>)

lemma consuming_production: "consuming p n \<Longrightarrow> production p n"
  by (rule consuming.axioms)

lemma production_return: "production (ps_return x) n"
  by standard (auto simp: ps_return_def)

lemma ps_ok_weight_0: "ps_ok n st \<Longrightarrow> ps_weight st = 0 \<longleftrightarrow> ps_check TkEof st"
  by (auto simp: ps_ok_def ps_weight_def ps_check_def)

lemma production_bind:
  assumes "production m n" and "\<And>x. production (f x) n"
  shows "production (ps_bind m f) n"
proof
  fix st x st' assume ok: "ps_ok n st" and r: "ps_bind m f st = Inr (x, st')"
  then obtain y st1 where "m st = Inr (y, st1)" "f y st1 = Inr (x, st')"
    by (auto simp: ps_bind_def bindE_eq_Inr)
  with ok assms show "ps_ok n st' \<and> ps_weight st' \<le> ps_weight st"
    by (meson production.keeps order_trans)
next
  fix st e assume ok: "ps_ok n st" and r: "ps_bind m f st = Inl e"
  then consider "m st = Inl e" | y st1 where "m st = Inr (y, st1)" "f y st1 = Inl e"
    by (auto simp: ps_bind_def bindE_eq_Inl)
  then show "err_code e \<in> parse_codes \<and> err_offset e \<le> n"
    by cases (use ok assms in \<open>meson production.keeps production.fails\<close>)+
qed

lemma consuming_bind:
  assumes "consuming m n" and "\<And>x. production (f x) n"
  shows "consuming (ps_bind m f) n"
proof (rule consumingI)
  fix st x st' assume ok: "ps_ok n st" and r: "ps_bind m f st = Inr (x, st')"
  then obtain y st1 where 1: "m st = Inr (y, st1)" "f y st1 = Inr (x, st')"
    by (auto simp: ps_bind_def bindE_eq_Inr)
  have "ps_ok n st1" "ps_weight st1 < ps_weight st"
    using ok 1 assms(1) by (auto dest: consuming.consumes production.keeps [OF consuming_production])
  with production.keeps [OF assms(2) _ 1(2)] show "ps_ok n st' \<and> ps_weight st' < ps_weight st" by force
qed (erule (1) production.fails [OF production_bind [OF consuming_production [OF assms(1)] assms(2)]])

lemma consuming_after:
  assumes "production m n" and "\<And>x. consuming (f x) n"
  shows "consuming (ps_bind m f) n"
proof (rule consumingI)
  fix st x st' assume ok: "ps_ok n st" and r: "ps_bind m f st = Inr (x, st')"
  then obtain y st1 where 1: "m st = Inr (y, st1)" "f y st1 = Inr (x, st')"
    by (auto simp: ps_bind_def bindE_eq_Inr)
  have st1: "ps_ok n st1" "ps_weight st1 \<le> ps_weight st" using production.keeps [OF assms(1) ok 1(1)] by auto
  show "ps_ok n st' \<and> ps_weight st' < ps_weight st"
    using production.keeps [OF consuming_production [OF assms(2)] st1(1) 1(2)]
      consuming.consumes [OF assms(2) st1(1) 1(2)] st1(2) by simp
qed (erule (1) production.fails [OF production_bind [OF assms(1) consuming_production [OF assms(2)]]])

lemma production_state:
  "(\<And>st. ps_ok n st \<Longrightarrow> production (p st) n) \<Longrightarrow> production (\<lambda>st. p st st) n"
  by (rule production.intro) (meson production.keeps production.fails)+

lemma consuming_state:
  "(\<And>st. ps_ok n st \<Longrightarrow> consuming (p st) n) \<Longrightarrow> consuming (\<lambda>st. p st st) n"
  by (rule consumingI)
    (meson consuming.consumes production.keeps production.fails consuming_production)+

lemma error_consuming: "at \<le> n \<Longrightarrow> consuming (ps_error at msg) n"
  by (rule consumingI) (auto simp: ps_error_def)

lemma too_deep_consuming: "at \<le> n \<Longrightarrow> consuming (ps_too_deep at) n"
  by (rule consumingI) (auto simp: ps_too_deep_def)

lemma current_offset: "ps_ok n st \<Longrightarrow> tk_offset (ps_cur st) \<le> n"
  by (simp add: ps_ok_def)

section \<open>Tokens\<close>

lemma take_ok:
  assumes ok: "ps_ok n st" and t: "ps_take st = Inr (tok, st')"
  shows "tok = ps_cur st" and "ps_ok n st'" and "ps_weight st' \<le> ps_weight st"
    and "tk_kind (ps_cur st) \<noteq> TkEof \<Longrightarrow> ps_weight st' < ps_weight st"
proof -
  let ?lx = "ps_lexer st"
  obtain cur lx where lex: "lexer_next ?lx = Inr (cur, lx)" and st': "st' = \<lparr>ps_lexer = lx, ps_cur = cur\<rparr>"
    and tok: "tok = ps_cur st"
    using t by (auto simp: ps_take_def bindE_eq_Inr)
  have pos: "lx_pos ?lx \<le> length (lx_data ?lx)" using ok by (simp add: ps_ok_def)
  note inside = next_inside [OF lex pos]
  show "tok = ps_cur st" by (rule tok)
  show "ps_ok n st'" using inside ok by (auto simp: ps_ok_def st' lx_reaches_def lx_at_end_def)
  show "ps_weight st' \<le> ps_weight st" "tk_kind (ps_cur st) \<noteq> TkEof \<Longrightarrow> ps_weight st' < ps_weight st"
    using inside ok by (auto simp: ps_ok_def ps_weight_def st' lx_reaches_def)
qed

lemma take_fails: "ps_ok n st \<Longrightarrow> ps_take st = Inl e \<Longrightarrow> err_code e \<in> parse_codes \<and> err_offset e \<le> n"
  using next_fails [of "ps_lexer st" e] by (auto simp: ps_take_def bindE_eq_Inl ps_ok_def lex_fails_def)

interpretation take_token: production ps_take n for n
  by standard (auto dest: take_ok take_fails)

lemma expect_consuming: "kind \<noteq> TkEof \<Longrightarrow> consuming (ps_expect kind what) n"
  by (rule consumingI)
    (auto simp: ps_expect_def ps_error_def current_offset split: if_splits dest: take_ok take_fails)

lemma accept_production: "production (ps_accept kind) n"
proof (rule production.intro)
  fix st x st' assume "ps_ok n st" "ps_accept kind st = Inr (x, st')"
  then show "ps_ok n st' \<and> ps_weight st' \<le> ps_weight st"
    by (auto simp: ps_accept_def ps_bind_def bindE_eq_Inr ps_return_def split: if_splits dest: take_ok)
next
  fix st e assume "ps_ok n st" "ps_accept kind st = Inl e"
  then show "err_code e \<in> parse_codes \<and> err_offset e \<le> n"
    by (auto simp: ps_accept_def ps_bind_def bindE_eq_Inl ps_return_def split: if_splits dest: take_fails)
qed

lemma accept_True:
  assumes "ps_accept kind st = Inr (True, st')" and "ps_ok n st" "kind \<noteq> TkEof"
  shows "ps_ok n st'" and "ps_weight st' < ps_weight st"
  using assms take_ok [OF assms(2)]
  by (auto simp: ps_accept_def ps_bind_def bindE_eq_Inr ps_return_def ps_check_def split: if_splits)

lemma accept_False: "ps_accept kind st = Inr (False, st') \<Longrightarrow> st' = st"
  by (auto simp: ps_accept_def ps_bind_def bindE_eq_Inr ps_return_def split: if_splits)

lemma take_consuming_if:
  assumes ok: "ps_ok n st" and k: "tk_kind (ps_cur st) \<noteq> TkEof" and f: "\<And>x. production (f x) n"
    and r: "ps_bind ps_take f st = Inr (x, st')"
  shows "ps_ok n st' \<and> ps_weight st' < ps_weight st"
proof -
  obtain t st1 where 1: "ps_take st = Inr (t, st1)" and 2: "f t st1 = Inr (x, st')"
    using r by (auto simp: ps_bind_def bindE_eq_Inr)
  from take_ok(2,4) [OF ok 1] k production.keeps [OF f _ 2] show ?thesis by force
qed

lemma consuming_take:
  assumes f: "\<And>x. production (f x) n" and P: "\<And>st. P st \<Longrightarrow> tk_kind (ps_cur st) \<noteq> TkEof"
    and q: "consuming q n"
  shows "consuming (\<lambda>st. if P st then ps_bind ps_take f st else q st) n"
proof (rule consumingI)
  fix st x st' assume ok: "ps_ok n st" and r: "(if P st then ps_bind ps_take f st else q st) = Inr (x, st')"
  show "ps_ok n st' \<and> ps_weight st' < ps_weight st"
  proof (cases "P st")
    case True
    with r show ?thesis using take_consuming_if [OF ok P f] by simp
  next
    case False
    with r have "q st = Inr (x, st')" by simp
    with production.keeps [OF consuming_production [OF q] ok] consuming.consumes [OF q ok] show ?thesis by blast
  qed
next
  fix st e assume ok: "ps_ok n st" and r: "(if P st then ps_bind ps_take f st else q st) = Inl e"
  show "err_code e \<in> parse_codes \<and> err_offset e \<le> n"
  proof (cases "P st")
    case True
    with r have "ps_bind ps_take f st = Inl e" by simp
    with ok show ?thesis by (rule production.fails [OF production_bind [OF take_token.production_axioms f]])
  next
    case False
    with r have "q st = Inl e" by simp
    with ok show ?thesis by (rule production.fails [OF consuming_production [OF q]])
  qed
qed

lemma production_if:
  "production a n \<Longrightarrow> production b n \<Longrightarrow> production (\<lambda>st. if P st then a st else b st) n"
  by (rule production.intro) (auto split: if_splits dest: production.keeps production.fails)

lemma consuming_if:
  "consuming a n \<Longrightarrow> consuming b n \<Longrightarrow> consuming (\<lambda>st. if P st then a st else b st) n"
  by (rule consumingI)
    (auto split: if_splits dest: consuming.consumes production.keeps [OF consuming_production]
      production.fails [OF consuming_production])

lemma production_Inr: "production (\<lambda>st. Inr (x, st)) n"
  by standard auto

lemma production_expect: "kind \<noteq> TkEof \<Longrightarrow> production (ps_expect kind what) n"
  by (rule consuming_production) (rule expect_consuming)

lemma production_error: "at \<le> n \<Longrightarrow> production (ps_error at msg) n"
  by (rule consuming_production) (rule error_consuming)

lemmas production_intros = production_bind production_if production_Inr production_return production_expect
  accept_production production_error take_token.production_axioms

section \<open>Equal continuations\<close>

lemma bind_cong_ok:
  assumes "production m n" "ps_ok n st"
    and "\<And>x st'. ps_ok n st' \<Longrightarrow> ps_weight st' \<le> ps_weight st \<Longrightarrow> f x st' = f' x st'"
  shows "ps_bind m f st = ps_bind m f' st"
  using assms(3) production.keeps [OF assms(1,2)] by (auto simp: ps_bind_def intro!: bindE_cong)

lemma bind_cong_less:
  assumes "consuming m n" "ps_ok n st"
    and "\<And>x st'. ps_ok n st' \<Longrightarrow> ps_weight st' < ps_weight st \<Longrightarrow> f x st' = f' x st'"
  shows "ps_bind m f st = ps_bind m f' st"
  using assms(3) production.keeps [OF consuming_production [OF assms(1)] assms(2)]
    consuming.consumes [OF assms(1,2)] by (auto simp: ps_bind_def intro!: bindE_cong)

lemma accept_cong:
  assumes "ps_ok n st" "kind \<noteq> TkEof"
    and "\<And>st'. ps_ok n st' \<Longrightarrow> ps_weight st' < ps_weight st \<Longrightarrow> f True st' = f' True st'"
    and "f False st = f' False st"
  shows "ps_bind (ps_accept kind) f st = ps_bind (ps_accept kind) f' st"
proof -
  have "f b st' = f' b st'" if "ps_accept kind st = Inr (b, st')" for b st'
    using that assms accept_True [of kind st st' n] accept_False [of kind st st'] by (cases b) auto
  then show ?thesis by (auto simp: ps_bind_def intro!: bindE_cong)
qed

section \<open>Loops over expressions\<close>

locale expression = consuming child n for child :: "expr ps" and n :: nat
begin

lemma array_consuming: "consuming (array_loop k child) n"
proof (induction k)
  case 0
  have "consuming (ps_bind child (\<lambda>x. ps_return [x])) n"
    by (rule consuming_bind [OF consuming_axioms production_return])
  then show ?case by (simp add: array_loop.simps(1) [abs_def])
next
  case (Suc k)
  show ?case
    unfolding array_loop.simps(2) [abs_def]
    by (intro consuming_bind [OF consuming_axioms] production_intros consuming_production [OF Suc])
qed

lemma array_fuel: "ps_ok n st \<Longrightarrow> ps_weight st \<le> k \<Longrightarrow> array_loop k child st = array_loop (ps_weight st) child st"
proof (induction k arbitrary: st rule: less_induct)
  case (less k)
  show ?case
  proof (cases "ps_weight st")
    case 0
    have "ps_bind child f st = ps_bind child f' st" for f f' :: "expr \<Rightarrow> expr list ps"
      by (rule bind_cong_less [OF consuming_axioms less.prems(1)]) (simp add: 0)
    then show ?thesis by (cases k) (simp_all add: 0)
  next
    case (Suc w)
    with less.prems obtain k' where k: "k = Suc k'" "w \<le> k'" by (cases k) auto
    have tail: "array_loop k' child st2 = array_loop w child st2" if "ps_ok n st2" "ps_weight st2 < ps_weight st" for st2
      using that Suc k less.IH [of k' st2] less.IH [of w st2] by simp
    show ?thesis
      unfolding k(1) Suc array_loop.simps(2)
      by (intro bind_cong_less [OF consuming_axioms less.prems(1)] accept_cong)
        (auto simp: ps_bind_def tail)
  qed
qed

lemma object_production: "off \<le> n \<Longrightarrow> production (object_loop k child off) n"
proof (induction k)
  case 0
  then show ?case by (simp add: object_loop.simps(1) [abs_def] production_error)
next
  case (Suc k)
  show ?case
    unfolding object_loop.simps(2) [abs_def]
    using Suc by (intro production_intros production_axioms) (auto intro!: production_intros production_axioms)
qed

lemma object_fuel:
  "ps_ok n st \<Longrightarrow> ps_weight st \<le> k \<Longrightarrow> object_loop k child off st = object_loop (ps_weight st) child off st"
proof (induction k arbitrary: st rule: less_induct)
  case (less k)
  show ?case
  proof (cases "ps_weight st")
    case 0
    with ps_ok_weight_0 [OF less.prems(1)] show ?thesis by (cases k) (auto simp: ps_check_def)
  next
    case (Suc w)
    with less.prems obtain k' where k: "k = Suc k'" "w \<le> k'" by (cases k) auto
    have tail: "object_loop k' child off st2 = object_loop w child off st2"
      if "ps_ok n st2" "ps_weight st2 < ps_weight st" for st2
      using that Suc k less.IH [of k' st2] less.IH [of w st2] by simp
    show ?thesis
      unfolding k(1) Suc object_loop.simps(2)
      by (intro if_cong refl accept_cong [OF less.prems(1)])
        (auto simp: tail intro!: bind_cong_less [OF expect_consuming less.prems(1)] bind_cong_less [OF expect_consuming]
          bind_cong_less [OF consuming_axioms] simp: ps_bind_def [of "object_loop j child off" for j])
  qed
qed

end

locale operands =
  fixes child :: "int \<Rightarrow> expr ps" and n :: nat
  assumes operand: "consuming (child prec) n"
begin

lemma loop_production: "production (binary_loop k child min_prec lhs) n"
proof (induction k arbitrary: lhs)
  case 0
  then show ?case by (simp add: binary_loop.simps(1) [abs_def] production_Inr)
next
  case (Suc k)
  show ?case
    unfolding binary_loop.simps(2) [abs_def] Let_def
    by (rule production_state) (intro production_intros consuming_production [OF operand] Suc)
qed

lemma loop_fuel:
  "ps_ok n st \<Longrightarrow> ps_weight st \<le> k \<Longrightarrow>
     0 < min_prec \<Longrightarrow> binary_loop k child min_prec lhs st = binary_loop (ps_weight st) child min_prec lhs st"
proof (induction k arbitrary: st lhs rule: less_induct)
  case (less k)
  show ?case
  proof (cases "ps_weight st")
    case 0
    with ps_ok_weight_0 [OF less.prems(1)] less.prems(3) show ?thesis by (cases k) (auto simp: ps_check_def)
  next
    case (Suc w)
    with less.prems obtain k' where k: "k = Suc k'" "w \<le> k'" by (cases k) auto
    have tail: "binary_loop k' child min_prec l st2 = binary_loop w child min_prec l st2"
      if "ps_ok n st2" "ps_weight st2 < ps_weight st" for st2 l
      using that Suc k less.prems(3) less.IH [of k' st2] less.IH [of w st2] by simp
    show ?thesis
      unfolding k(1) Suc binary_loop.simps(2) Let_def
      by (intro if_cong refl bind_cong_ok [OF take_token.production_axioms less.prems(1)]
          bind_cong_less [OF operand]) (auto intro: tail)
  qed
qed

end

section \<open>Expressions\<close>

lemma current_kind_not_eof: "ps_check k st \<Longrightarrow> k \<noteq> TkEof \<Longrightarrow> tk_kind (ps_cur st) \<noteq> TkEof"
  by (simp add: ps_check_def)

lemma production_fuel_state:
  "(\<And>k. production (f k) n) \<Longrightarrow> production (\<lambda>st. f (ps_weight st) st) n"
  by (rule production.intro) (auto dest: production.keeps production.fails)

lemma array_literal_consuming:
  assumes "consuming child n" "off \<le> n"
  shows "consuming (parse_array child off depth) n"
proof -
  note elements = consuming_production [OF expression.array_consuming [OF expression.intro [OF assms(1)]]]
  have "production (\<lambda>st. if \<not> ps_check TkRBracket st then array_loop (ps_weight st) child st else Inr ([], st)) n"
    by (intro production_if production_Inr production_fuel_state [where f = "\<lambda>k. array_loop k child"] elements)
  then show ?thesis
    unfolding parse_array_def
    by (cases "kMaxDepth < depth")
      (simp_all add: too_deep_consuming [OF assms(2)] consuming_bind expect_consuming production_bind
        production_expect production_return)
qed

lemma object_literal_consuming:
  assumes "consuming child n" "off \<le> n"
  shows "consuming (parse_object child off depth) n"
proof -
  note fields = expression.object_production [OF expression.intro [OF assms(1)] assms(2)]
  have "production (\<lambda>st. object_loop (ps_weight st) child off st) n"
    by (rule production_fuel_state [where f = "\<lambda>k. object_loop k child off"]) (rule fields)
  then show ?thesis
    unfolding parse_object_def
    by (cases "kMaxDepth < depth")
      (simp_all add: too_deep_consuming [OF assms(2)] consuming_bind expect_consuming production_bind
        production_expect production_return)
qed

definition outcome_ok :: "nat \<Rightarrow> parser \<Rightarrow> (parse_error + 'a \<times> parser) \<Rightarrow> bool" where
  "outcome_ok n st r \<longleftrightarrow>
     (case r of Inr (x, st') \<Rightarrow> ps_ok n st' \<and> ps_weight st' < ps_weight st
      | Inl e \<Rightarrow> err_code e \<in> parse_codes \<and> err_offset e \<le> n)"

lemma consuming_outcome: "consuming p n \<longleftrightarrow> (\<forall>st. ps_ok n st \<longrightarrow> outcome_ok n st (p st))"
proof
  assume p: "consuming p n"
  show "\<forall>st. ps_ok n st \<longrightarrow> outcome_ok n st (p st)"
  proof (intro allI impI)
    fix st assume ok: "ps_ok n st"
    show "outcome_ok n st (p st)"
      using consuming.consumes [OF p ok] production.keeps [OF consuming_production [OF p] ok]
        production.fails [OF consuming_production [OF p] ok]
      by (auto simp: outcome_ok_def split: sum.split prod.split)
  qed
next
  assume "\<forall>st. ps_ok n st \<longrightarrow> outcome_ok n st (p st)"
  then show "consuming p n" by (intro consumingI) (auto simp: outcome_ok_def dest: spec)
qed

lemma take_outcome:
  assumes ok: "ps_ok n st" and k: "tk_kind (ps_cur st) \<noteq> TkEof" and f: "\<And>t. production (f t) n"
  shows "outcome_ok n st (ps_bind ps_take f st)"
proof (cases "ps_bind ps_take f st")
  case (Inl e)
  with production.fails [OF production_bind [OF take_token.production_axioms f] ok Inl] show ?thesis
    by (simp add: outcome_ok_def)
next
  case (Inr r)
  then obtain x st' where "ps_bind ps_take f st = Inr (x, st')" by (cases r) auto
  with take_consuming_if [OF ok k f this] show ?thesis by (simp add: outcome_ok_def)
qed

lemma primary_consuming:
  assumes "consuming child n"
  shows "consuming (primary_of child depth) n"
  unfolding consuming_outcome
proof (intro allI impI)
  fix st assume ok: "ps_ok n st"
  note off = current_offset [OF ok]
  have paren: "production (ps_bind child (\<lambda>inner. ps_bind (ps_expect TkRParen what) (\<lambda>_. ps_return inner))) n" for what
    by (intro production_bind production_return production_expect consuming_production [OF assms]) simp
  have lits: "outcome_ok n st (parse_array child (tk_offset (ps_cur st)) depth st)"
    "outcome_ok n st (parse_object child (tk_offset (ps_cur st)) depth st)"
    using array_literal_consuming [OF assms off] object_literal_consuming [OF assms off] ok
    by (simp_all add: consuming_outcome)
  have err: "outcome_ok n st ((ps_error (tk_offset (ps_cur st)) msg :: expr ps) st)" for msg
  proof -
    have "consuming (ps_error (tk_offset (ps_cur st)) msg :: expr ps) n" by (rule error_consuming [OF off])
    with ok show ?thesis by (simp add: consuming_outcome)
  qed
  show "outcome_ok n st (primary_of child depth st)"
    by (cases "tk_kind (ps_cur st)")
      (simp_all add: primary_of_def Let_def lits err take_outcome [OF ok] production_return paren)
qed

lemma too_deep_production: "consuming (\<lambda>st. ps_too_deep (tk_offset (ps_cur st)) st :: parse_error + 'a \<times> parser) n"
  by (rule consuming_state) (rule too_deep_consuming, rule current_offset)

lemma productions_too_deep:
  assumes "kMaxDepth < d"
  shows "consuming (parse_ternary d) n \<and> consuming (parse_binary prec d) n \<and> consuming (parse_unary d) n \<and>
     consuming (parse_primary d) n"
  unfolding parse_ternary.simps [of d] parse_binary.simps [of _ d] parse_unary.simps [of d] parse_primary.simps [of d]
    if_P [OF assms]
  by (intro conjI too_deep_production)

lemma productions_consume:
  "Suc kMaxDepth - d \<le> k \<Longrightarrow>
     consuming (parse_ternary d) n \<and> consuming (parse_binary prec d) n \<and> consuming (parse_unary d) n \<and>
     consuming (parse_primary d) n"
proof (induction k arbitrary: d prec)
  case 0
  then show ?case by (intro productions_too_deep) simp
next
  case (Suc k)
  show ?case
  proof (cases "kMaxDepth < d")
    case True
    then show ?thesis by (rule productions_too_deep)
  next
    case False
    with Suc.prems have le: "Suc kMaxDepth - (d + 1) \<le> k" by simp
    note inner = Suc.IH [OF le, THEN conjunct1] Suc.IH [OF le, THEN conjunct2, THEN conjunct1]
      Suc.IH [OF le, THEN conjunct2, THEN conjunct2, THEN conjunct1]
    have primary: "consuming (parse_primary d) n"
      using False primary_consuming [OF inner(1)] by (simp add: parse_primary.simps [of d])
    have unary: "consuming (parse_unary d) n"
      unfolding parse_unary.simps [of d] if_not_P [OF False]
      by (intro consuming_take production_bind production_return primary consuming_production [OF inner(3)])
        (auto dest: current_kind_not_eof)
    have binary: "consuming (parse_binary prec d) n" for prec
      unfolding parse_binary.simps [of prec d] if_not_P [OF False]
      by (intro consuming_bind inner(3)
          production_fuel_state [where f = "\<lambda>k. binary_loop k (\<lambda>p. parse_binary (p + 1) (d + 1)) prec lhs" for lhs]
          operands.loop_production operands.intro inner(2))
    have "consuming (parse_ternary d) n"
      unfolding parse_ternary.simps [of d] if_not_P [OF False]
      by (intro consuming_bind binary production_if production_bind production_Inr production_return
          production_expect take_token.production_axioms consuming_production [OF inner(1)]) simp
    with primary unary binary show ?thesis by blast
  qed
qed

interpretation ternary: expression "parse_ternary d" n for d n
  by (rule expression.intro) (use productions_consume in blast)

interpretation binary: operands "\<lambda>prec. parse_binary (prec + 1) d" n for d n
  by (rule operands.intro) (use productions_consume in blast)

section \<open>Statements\<close>

locale statements = consuming child n for child :: "statement ps" and n :: nat
begin

lemma block_production: "off \<le> n \<Longrightarrow> production (block_loop k child off) n"
proof (induction k)
  case 0
  then show ?case by (simp add: block_loop.simps(1) [abs_def] production_error)
next
  case (Suc k)
  show ?case
    unfolding block_loop.simps(2) [abs_def]
    using Suc by (intro production_intros production_axioms) (auto intro!: production_intros production_axioms)
qed

lemma block_fuel:
  "ps_ok n st \<Longrightarrow> ps_weight st \<le> k \<Longrightarrow> block_loop k child off st = block_loop (ps_weight st) child off st"
proof (induction k arbitrary: st rule: less_induct)
  case (less k)
  show ?case
  proof (cases "ps_weight st")
    case 0
    with ps_ok_weight_0 [OF less.prems(1)] show ?thesis by (cases k) (auto simp: ps_check_def)
  next
    case (Suc w)
    with less.prems obtain k' where k: "k = Suc k'" "w \<le> k'" by (cases k) auto
    have tail: "block_loop k' child off st2 = block_loop w child off st2"
      if "ps_ok n st2" "ps_weight st2 < ps_weight st" for st2
      using that Suc k less.IH [of k' st2] less.IH [of w st2] by simp
    show ?thesis
      unfolding k(1) Suc block_loop.simps(2)
      by (intro if_cong refl accept_cong [OF less.prems(1)])
        (auto simp: tail intro!: bind_cong_less [OF consuming_axioms less.prems(1)]
          simp: ps_bind_def [of "block_loop j child off" for j])
  qed
qed

lemma document_loop_production: "production (document_loop k child) n"
proof (induction k)
  case 0
  show ?case by (simp add: document_loop.simps(1) [abs_def] production_Inr)
next
  case (Suc k)
  show ?case
    unfolding document_loop.simps(2) [abs_def]
    using Suc by (intro production_intros production_axioms) (auto intro!: production_intros production_axioms)
qed

lemma document_fuel:
  "ps_ok n st \<Longrightarrow> ps_weight st \<le> k \<Longrightarrow> document_loop k child st = document_loop (ps_weight st) child st"
proof (induction k arbitrary: st rule: less_induct)
  case (less k)
  show ?case
  proof (cases "ps_weight st")
    case 0
    with ps_ok_weight_0 [OF less.prems(1)] show ?thesis by (cases k) (auto simp: ps_check_def)
  next
    case (Suc w)
    with less.prems obtain k' where k: "k = Suc k'" "w \<le> k'" by (cases k) auto
    have tail: "document_loop k' child st2 = document_loop w child st2"
      if "ps_ok n st2" "ps_weight st2 < ps_weight st" for st2
      using that Suc k less.IH [of k' st2] less.IH [of w st2] by simp
    show ?thesis
      unfolding k(1) Suc document_loop.simps(2)
      by (intro if_cong refl accept_cong [OF less.prems(1)])
        (auto simp: tail intro!: bind_cong_less [OF consuming_axioms less.prems(1)]
          simp: ps_bind_def [of "document_loop j child" for j])
  qed
qed

end

lemma path_production: "production (path_loop k) n"
proof (induction k)
  case 0
  show ?case by (simp add: path_loop.simps(1) [abs_def] production_Inr)
next
  case (Suc k)
  show ?case
    unfolding path_loop.simps(2) [abs_def] using Suc by (auto intro!: production_intros)
qed

lemma path_fuel: "ps_ok n st \<Longrightarrow> ps_weight st \<le> k \<Longrightarrow> path_loop k st = path_loop (ps_weight st) st"
proof (induction k arbitrary: st rule: less_induct)
  case (less k)
  show ?case
  proof (cases "ps_weight st")
    case 0
    with ps_ok_weight_0 [OF less.prems(1)] show ?thesis
      by (cases k) (auto simp: ps_check_def ps_accept_def ps_bind_def ps_return_def)
  next
    case (Suc w)
    with less.prems obtain k' where k: "k = Suc k'" "w \<le> k'" by (cases k) auto
    have tail: "path_loop k' st2 = path_loop w st2"
      if "ps_ok n st2" "ps_weight st2 < ps_weight st" for st2
      using that Suc k less.IH [of k' st2] less.IH [of w st2] by simp
    show ?thesis
      unfolding k(1) Suc path_loop.simps(2)
      by (intro accept_cong [OF less.prems(1)])
        (auto simp: tail intro!: bind_cong_less [OF expect_consuming] simp: ps_bind_def [of "path_loop j" for j])
  qed
qed

lemma assignment_consuming: "consuming (parse_assignment path off) n"
  unfolding parse_assignment_def parse_expr_def
  by (intro consuming_bind expect_consuming production_bind production_expect production_return
      ternary.production_axioms) simp_all

lemma block_consuming:
  assumes "consuming child n" "off \<le> n"
  shows "consuming (parse_block child name label off) n"
proof -
  have "production (\<lambda>st. block_loop (ps_weight st) child off st) n"
    by (rule production_fuel_state [where f = "\<lambda>k. block_loop k child off"])
      (rule statements.block_production [OF statements.intro [OF assms(1)] assms(2)])
  then show ?thesis
    unfolding parse_block_def
    by (intro consuming_bind expect_consuming production_bind production_expect production_return) simp_all
qed

lemma named_consuming:
  assumes "consuming child n" "off \<le> n"
  shows "consuming (parse_named child off) n"
proof -
  note block = consuming_production [OF block_consuming [OF assms]]
  have path: "production (\<lambda>st. path_loop (ps_weight st) st) n"
    by (rule production_fuel_state [where f = path_loop]) (rule path_production)
  have labelled: "production (\<lambda>st. if \<not> ps_check TkLBrace st
      then ps_error (tk_offset (ps_cur st)) msg st else parse_block child name label off st) n" for msg name label
    by (intro production_if block production_state [where p = "\<lambda>st. ps_error (tk_offset (ps_cur st)) msg"]
        production_error current_offset)
  show ?thesis
    unfolding parse_named_def
    by (intro consuming_bind expect_consuming production_if production_bind take_token.production_axioms labelled
        block path consuming_production [OF assignment_consuming]) simp
qed

lemma include_outcome:
  assumes "ps_ok n st" "ps_check TkInclude st"
  shows "outcome_ok n st (parse_include off st)"
  unfolding parse_include_def
  by (intro take_outcome [OF assms(1)] production_bind production_expect production_return)
    (use assms(2) in \<open>auto simp: ps_check_def\<close>)

lemma statement_consuming: "Suc kMaxDepth - d \<le> k \<Longrightarrow> consuming (parse_statement d) n"
proof (induction k arbitrary: d)
  case 0
  then have "kMaxDepth < d" by simp
  then show ?case unfolding parse_statement.simps [of d] by (simp only: if_P too_deep_production)
next
  case (Suc k)
  show ?case
  proof (cases "kMaxDepth < d")
    case True
    then show ?thesis unfolding parse_statement.simps [of d] by (simp only: if_P too_deep_production)
  next
    case False
    with Suc have child: "consuming (parse_statement (d + 1)) n" by simp
    show ?thesis
      unfolding parse_statement.simps [of d] if_not_P [OF False] Let_def consuming_outcome
      using named_consuming [OF child current_offset]
      by (auto simp: include_outcome consuming_outcome split: if_splits)
  qed
qed

interpretation statement: statements "parse_statement d" n for d n
  by (rule statements.intro) (rule statement_consuming [OF order_refl])

lemma parser_new_ok: "parser_new data = Inr st \<Longrightarrow> ps_ok (length data) st"
  using next_inside [of "lexer_new data"]
  by (auto simp: parser_new_def bindE_eq_Inr lexer_new_def ps_ok_def lx_reaches_def lx_at_end_def)

lemma parser_new_fails:
  "parser_new data = Inl e \<Longrightarrow> err_code e \<in> parse_codes \<and> err_offset e \<le> length data"
  using next_fails [of "lexer_new data" e]
  by (auto simp: parser_new_def bindE_eq_Inl lexer_new_def lex_fails_def)

lemma document_production: "production parse_document n"
  unfolding parse_document_def [abs_def]
  by (rule production_fuel_state [where f = "\<lambda>k. document_loop k (parse_statement 1)"])
    (rule statement.document_loop_production)

lemma syntax_errors:
  "bindE (parser_new data) parse_document = Inl e \<Longrightarrow> err_code e \<in> parse_codes \<and> err_offset e \<le> length data"
  by (auto simp: bindE_eq_Inl dest: parser_new_fails parser_new_ok production.fails [OF document_production])

end
