(* ===== verification/Cs_Eval.thy ===== *)
theory Cs_Eval
  imports Cs_Parser "HOL-Library.Signed_Division"
begin

text \<open>
  Scopes and evaluation (\<^verbatim>\<open>include/cfgscript/environment.hpp\<close>, \<^verbatim>\<open>src/cfgscript/evaluator.cpp\<close>). An
  environment is the list of the tables from the innermost scope outwards: the head is the table of the
  object, the tail the chain of its parents.
\<close>

unbundle bit_operations_syntax

section \<open>Environments\<close>

type_synonym environment = "(string \<rightharpoonup> cvalue) list"

definition env_root :: environment where
  "env_root = [Map.empty]"

definition env_child :: "environment \<Rightarrow> environment" where
  "env_child parent = Map.empty # parent"

fun env_define :: "string \<Rightarrow> cvalue \<Rightarrow> environment \<Rightarrow> environment" where
  "env_define name v [] = []"
| "env_define name v (table # parents) = table(name \<mapsto> v) # parents"

fun env_lookup :: "string \<Rightarrow> environment \<Rightarrow> cvalue option" where
  "env_lookup name [] = None"
| "env_lookup name (table # parents) =
     (case table name of Some v \<Rightarrow> Some v | None \<Rightarrow> env_lookup name parents)"

section \<open>Operations on values\<close>

definition eval_error :: "error_code \<Rightarrow> nat \<Rightarrow> string \<Rightarrow> 'a result" where
  "eval_error code at msg = Inl (ParseError code at msg)"

definition require_depth :: "nat \<Rightarrow> nat \<Rightarrow> unit result" where
  "require_depth depth at =
     (if kMaxDepth < depth then eval_error kDepthExceeded at ''expression nested too deep'' else Inr ())"

definition compare_numbers :: "cvalue \<Rightarrow> cvalue \<Rightarrow> int" where
  "compare_numbers a b =
     (case (a, b) of
        (VInt i, VInt j) \<Rightarrow> if sint i < sint j then - 1 else if sint j < sint i then 1 else 0
      | _ \<Rightarrow> let x = as_double a; y = as_double b
             in if dbl_less x y then - 1 else if dbl_less y x then 1 else 0)"

fun values_equal :: "cvalue \<Rightarrow> cvalue \<Rightarrow> bool"
  and arrays_equal :: "cvalue list \<Rightarrow> cvalue list \<Rightarrow> bool"
  and objects_equal :: "(string \<times> cvalue) list \<Rightarrow> (string \<times> cvalue) list \<Rightarrow> bool" where
  "values_equal (VArray xs) b = (case b of VArray ys \<Rightarrow> arrays_equal xs ys | _ \<Rightarrow> False)"
| "values_equal (VObject xs) b = (case b of VObject ys \<Rightarrow> objects_equal xs ys | _ \<Rightarrow> False)"
| "values_equal a b =
     (if is_number a \<and> is_number b then compare_numbers a b = 0
      else case (a, b) of
             (VNull, VNull) \<Rightarrow> True
           | (VBool x, VBool y) \<Rightarrow> x = y
           | (VStr x, VStr y) \<Rightarrow> x = y
           | _ \<Rightarrow> False)"
| "arrays_equal [] ys \<longleftrightarrow> ys = []"
| "arrays_equal (x # xs) ys = (case ys of y # ys' \<Rightarrow> values_equal x y \<and> arrays_equal xs ys' | [] \<Rightarrow> False)"
| "objects_equal [] ys \<longleftrightarrow> ys = []"
| "objects_equal ((k, x) # xs) ys =
     (case ys of (l, y) # ys' \<Rightarrow> k = l \<and> values_equal x y \<and> objects_equal xs ys' | [] \<Rightarrow> False)"

fun to_concat_string :: "cvalue \<Rightarrow> string" where
  "to_concat_string (VStr s) = s"
| "to_concat_string (VInt i) = dec_of_int (sint i)"
| "to_concat_string (VFloat f) = dbl_to_text f"
| "to_concat_string (VBool b) = (if b then ''true'' else ''false'')"
| "to_concat_string VNull = ''null''"
| "to_concat_string _ = []"

definition require_int :: "cvalue \<Rightarrow> nat \<Rightarrow> string \<Rightarrow> i64 result" where
  "require_int v at opr =
     (case v of VInt i \<Rightarrow> Inr i
      | _ \<Rightarrow> eval_error kBadType at (''operator '' @ cs_quoted opr @ '' requires integer operands''))"

definition eval_arith :: "token_kind \<Rightarrow> cvalue \<Rightarrow> cvalue \<Rightarrow> nat \<Rightarrow> cvalue result" where
  "eval_arith opr l r at =
     (if opr = TkPlus \<and> (value_type_of l = TyStr \<or> value_type_of r = TyStr)
      then Inr (VStr (to_concat_string l @ to_concat_string r))
      else if \<not> is_number l \<or> \<not> is_number r
      then eval_error kBadType at ''arithmetic requires numeric operands''
      else case (l, r) of
             (VInt x, VInt y) \<Rightarrow>
               (case opr of
                  TkPlus \<Rightarrow> Inr (VInt (x + y))
                | TkMinus \<Rightarrow> Inr (VInt (x - y))
                | TkStar \<Rightarrow> Inr (VInt (x * y))
                | _ \<Rightarrow> eval_error kBadType at ''unsupported arithmetic operator'')
           | _ \<Rightarrow>
               (let x = as_double l; y = as_double r
                in case opr of
                     TkPlus \<Rightarrow> Inr (VFloat (dbl_add x y))
                   | TkMinus \<Rightarrow> Inr (VFloat (dbl_sub x y))
                   | TkStar \<Rightarrow> Inr (VFloat (dbl_mul x y))
                   | _ \<Rightarrow> eval_error kBadType at ''unsupported arithmetic operator''))"

definition int64_min :: i64 where
  "int64_min = push_bit 63 1"

definition eval_div_mod :: "token_kind \<Rightarrow> cvalue \<Rightarrow> cvalue \<Rightarrow> nat \<Rightarrow> cvalue result" where
  "eval_div_mod opr l r at =
     (if \<not> is_number l \<or> \<not> is_number r then eval_error kBadType at ''division requires numeric operands''
      else case (l, r) of
             (VInt x, VInt y) \<Rightarrow>
               (if y = 0
                then eval_error kStateViolation at (if opr = TkSlash then ''division by zero'' else ''modulo by zero'')
                else if y = - 1 \<and> x = int64_min
                then Inr (VInt (if opr = TkSlash then int64_min else 0))
                else if opr = TkSlash then Inr (VInt (word_of_int (sint x sdiv sint y)))
                else Inr (VInt (word_of_int (sint x smod sint y))))
           | _ \<Rightarrow>
               (let y = as_double r
                in if dbl_is_zero y then eval_error kStateViolation at ''division by zero''
                   else if opr = TkSlash then Inr (VFloat (dbl_div (as_double l) y))
                   else eval_error kBadType at (cs_quoted ''%'' @ '' requires integer operands'')))"

definition eval_shift :: "token_kind \<Rightarrow> cvalue \<Rightarrow> cvalue \<Rightarrow> nat \<Rightarrow> cvalue result" where
  "eval_shift opr l r at =
     bindE (require_int l at ''shift'') (\<lambda>a.
     bindE (require_int r at ''shift'') (\<lambda>b.
       if sint b < 0 \<or> 63 < sint b then eval_error kStateViolation at ''shift amount out of range''
       else if opr = TkShl then Inr (VInt (push_bit (unat b) a))
       else Inr (VInt (signed_drop_bit (unat b) a))))"

definition eval_bitwise :: "(i64 \<Rightarrow> i64 \<Rightarrow> i64) \<Rightarrow> string \<Rightarrow> cvalue \<Rightarrow> cvalue \<Rightarrow> nat \<Rightarrow> cvalue result" where
  "eval_bitwise f opr l r at =
     bindE (require_int l at opr) (\<lambda>a. bindE (require_int r at opr) (\<lambda>b. Inr (VInt (f a b))))"

text \<open>\<^verbatim>\<open>std::string::compare\<close>: bytes as unsigned numbers, then the lengths.\<close>

fun string_compare :: "string \<Rightarrow> string \<Rightarrow> int" where
  "string_compare [] [] = 0"
| "string_compare [] (d # t) = - 1"
| "string_compare (c # s) [] = 1"
| "string_compare (c # s) (d # t) =
     (if (of_char c :: nat) < of_char d then - 1
      else if (of_char d :: nat) < of_char c then 1 else string_compare s t)"

definition eval_compare :: "token_kind \<Rightarrow> cvalue \<Rightarrow> cvalue \<Rightarrow> nat \<Rightarrow> cvalue result" where
  "eval_compare opr l r at =
     bindE (if is_number l \<and> is_number r then Inr (compare_numbers l r)
            else case (l, r) of
                   (VStr s, VStr t) \<Rightarrow> Inr (string_compare s t)
                 | _ \<Rightarrow> eval_error kBadType at ''comparison requires two numbers or two strings'') (\<lambda>cmp.
       case opr of
         TkLt \<Rightarrow> Inr (VBool (cmp < 0))
       | TkLe \<Rightarrow> Inr (VBool (cmp \<le> 0))
       | TkGt \<Rightarrow> Inr (VBool (cmp > 0))
       | TkGe \<Rightarrow> Inr (VBool (cmp \<ge> 0))
       | _ \<Rightarrow> eval_error kBadType at ''bad comparison'')"

text \<open>The operators that evaluate both sides.\<close>

definition eval_binary :: "token_kind \<Rightarrow> cvalue \<Rightarrow> cvalue \<Rightarrow> nat \<Rightarrow> cvalue result" where
  "eval_binary opr l r at =
     (case opr of
        TkPlus \<Rightarrow> eval_arith TkPlus l r at
      | TkMinus \<Rightarrow> eval_arith TkMinus l r at
      | TkStar \<Rightarrow> eval_arith TkStar l r at
      | TkSlash \<Rightarrow> eval_div_mod TkSlash l r at
      | TkPercent \<Rightarrow> eval_div_mod TkPercent l r at
      | TkShl \<Rightarrow> eval_shift TkShl l r at
      | TkShr \<Rightarrow> eval_shift TkShr l r at
      | TkAmp \<Rightarrow> eval_bitwise (AND) ''&'' l r at
      | TkCaret \<Rightarrow> eval_bitwise (XOR) ''^'' l r at
      | TkPipe \<Rightarrow> eval_bitwise (OR) ''|'' l r at
      | TkEq \<Rightarrow> Inr (VBool (values_equal l r))
      | TkNe \<Rightarrow> Inr (VBool (\<not> values_equal l r))
      | TkLt \<Rightarrow> eval_compare TkLt l r at
      | TkLe \<Rightarrow> eval_compare TkLe l r at
      | TkGt \<Rightarrow> eval_compare TkGt l r at
      | TkGe \<Rightarrow> eval_compare TkGe l r at
      | _ \<Rightarrow> eval_error kBadType at ''unsupported binary operator'')"

definition eval_unary :: "token_kind \<Rightarrow> cvalue \<Rightarrow> nat \<Rightarrow> cvalue result" where
  "eval_unary opr v at =
     (case opr of
        TkMinus \<Rightarrow>
          (case v of VInt i \<Rightarrow> Inr (VInt (0 - i))
           | VFloat f \<Rightarrow> Inr (VFloat (dbl_negate f))
           | _ \<Rightarrow> eval_error kBadType at (''unary '' @ cs_quoted ''-'' @ '' requires a number''))
      | TkBang \<Rightarrow> Inr (VBool (\<not> truthy v))
      | TkTilde \<Rightarrow> bindE (require_int v at ''~'') (\<lambda>i. Inr (VInt (NOT i)))
      | _ \<Rightarrow> eval_error kBadType at ''unsupported unary operator'')"

section \<open>Evaluation\<close>

fun evaluate :: "expr \<Rightarrow> environment \<Rightarrow> nat \<Rightarrow> cvalue result"
  and evaluate_elements :: "expr list \<Rightarrow> environment \<Rightarrow> nat \<Rightarrow> cvalue list result"
  and evaluate_fields :: "(string \<times> expr) list \<Rightarrow> environment \<Rightarrow> nat \<Rightarrow> (string \<times> cvalue) list result" where
  "evaluate (ENull off) env depth = bindE (require_depth depth off) (\<lambda>_. Inr VNull)"
| "evaluate (EBool off b) env depth = bindE (require_depth depth off) (\<lambda>_. Inr (VBool b))"
| "evaluate (EInt off i) env depth = bindE (require_depth depth off) (\<lambda>_. Inr (VInt i))"
| "evaluate (EFloat off f) env depth = bindE (require_depth depth off) (\<lambda>_. Inr (VFloat f))"
| "evaluate (EStr off s) env depth = bindE (require_depth depth off) (\<lambda>_. Inr (VStr s))"
| "evaluate (EIdent off name) env depth = bindE (require_depth depth off) (\<lambda>_.
     case env_lookup name env of
       None \<Rightarrow> eval_error kStateViolation off (''unknown identifier '' @ cs_quoted name)
     | Some v \<Rightarrow> Inr v)"
| "evaluate (EArray off es) env depth = bindE (require_depth depth off) (\<lambda>_.
     bindE (evaluate_elements es env (depth + 1)) (\<lambda>items. Inr (VArray items)))"
| "evaluate (EObject off fs) env depth = bindE (require_depth depth off) (\<lambda>_.
     bindE (evaluate_fields fs env (depth + 1)) (\<lambda>fields. Inr (VObject fields)))"
| "evaluate (EUnary off opr e) env depth = bindE (require_depth depth off) (\<lambda>_.
     bindE (evaluate e env (depth + 1)) (\<lambda>v. eval_unary opr v off))"
| "evaluate (ETernary off c a b) env depth = bindE (require_depth depth off) (\<lambda>_.
     bindE (evaluate c env (depth + 1)) (\<lambda>cond.
       if truthy cond then evaluate a env (depth + 1) else evaluate b env (depth + 1)))"
| "evaluate (EBinary off opr a b) env depth = bindE (require_depth depth off) (\<lambda>_.
     if opr = TkAndAnd
     then bindE (evaluate a env (depth + 1)) (\<lambda>l.
            if \<not> truthy l then Inr (VBool False)
            else bindE (evaluate b env (depth + 1)) (\<lambda>r. Inr (VBool (truthy r))))
     else if opr = TkOrOr
     then bindE (evaluate a env (depth + 1)) (\<lambda>l.
            if truthy l then Inr (VBool True)
            else bindE (evaluate b env (depth + 1)) (\<lambda>r. Inr (VBool (truthy r))))
     else bindE (evaluate a env (depth + 1)) (\<lambda>l. bindE (evaluate b env (depth + 1)) (\<lambda>r. eval_binary opr l r off)))"
| "evaluate_elements [] env depth = Inr []"
| "evaluate_elements (e # es) env depth =
     bindE (evaluate e env depth) (\<lambda>v. bindE (evaluate_elements es env depth) (\<lambda>vs. Inr (v # vs)))"
| "evaluate_fields [] env depth = Inr []"
| "evaluate_fields ((k, e) # fs) env depth =
     bindE (evaluate e env depth) (\<lambda>v. bindE (evaluate_fields fs env depth) (\<lambda>vs. Inr ((k, v) # vs)))"

end
