(* ===== verification/Cs_Document.thy ===== *)
theory Cs_Document
  imports Cs_Parse_Laws Cs_Eval Hexdump
begin

text \<open>
  From source text to a document (\<^verbatim>\<open>src/cfgscript/document.cpp\<close>): parsed statements are evaluated in
  order, every assignment binding the last component of its path in the scope it stands in, every block
  opening a child scope. \<^verbatim>\<open>summarize\<close> renders a document for reading.
\<close>

section \<open>Building nodes\<close>

fun build_nodes :: "statement list \<Rightarrow> environment \<Rightarrow> cnode list result" where
  "build_nodes [] env = Inr []"
| "build_nodes (StAssignment off path e # sts) env =
     bindE (evaluate e env 1) (\<lambda>v.
     bindE (build_nodes sts (if path \<noteq> [] then env_define (last path) v env else env)) (\<lambda>nodes.
     Inr (NdAssignment path v # nodes)))"
| "build_nodes (StBlock off name label children # sts) env =
     bindE (build_nodes children (env_child env)) (\<lambda>inner.
     bindE (build_nodes sts env) (\<lambda>nodes. Inr (NdBlock name label inner # nodes)))"
| "build_nodes (StInclude off path # sts) env =
     bindE (build_nodes sts env) (\<lambda>nodes. Inr (NdInclude path # nodes))"

definition cs_parse :: "bytes \<Rightarrow> document result" where
  "cs_parse data =
     bindE (parser_new data) (\<lambda>parser.
     bindE (parse_document parser) (\<lambda>(stmts, _). build_nodes stmts env_root))"

section \<open>Summaries\<close>

definition sum_indent :: "nat \<Rightarrow> string" where
  "sum_indent depth = concat (replicate depth ''  '')"

text \<open>The index of an item decides whether a separator stands before it.\<close>

fun sum_value :: "cvalue \<Rightarrow> string"
  and sum_array :: "nat \<Rightarrow> cvalue list \<Rightarrow> string"
  and sum_object :: "nat \<Rightarrow> (string \<times> cvalue) list \<Rightarrow> string" where
  "sum_value VNull = ''null''"
| "sum_value (VBool b) = (if b then ''true'' else ''false'')"
| "sum_value (VInt i) = dec_of_int (sint i)"
| "sum_value (VFloat f) = dbl_to_text f"
| "sum_value (VStr s) = [CHR 0x22] @ escape s @ [CHR 0x22]"
| "sum_value (VArray vs) = ''['' @ sum_array 0 vs @ '']''"
| "sum_value (VObject fs) = ''{'' @ sum_object 0 fs @ ''}''"
| "sum_array k [] = []"
| "sum_array k (v # vs) = (if k \<noteq> 0 then '', '' else []) @ sum_value v @ sum_array (Suc k) vs"
| "sum_object k [] = []"
| "sum_object k ((key, v) # fs) =
     (if k \<noteq> 0 then '', '' else []) @ key @ '' = '' @ sum_value v @ sum_object (Suc k) fs"

fun sum_path :: "nat \<Rightarrow> string list \<Rightarrow> string" where
  "sum_path k [] = []"
| "sum_path k (c # cs) = (if k \<noteq> 0 then ''.'' else []) @ c @ sum_path (Suc k) cs"

fun sum_nodes :: "cnode list \<Rightarrow> nat \<Rightarrow> string" where
  "sum_nodes [] depth = []"
| "sum_nodes (NdAssignment path v # ns) depth =
     sum_indent depth @ sum_path 0 path @ '' = '' @ sum_value v @ [CHR 0x0A] @ sum_nodes ns depth"
| "sum_nodes (NdBlock name label children # ns) depth =
     sum_indent depth @ name @
     (case label of Some l \<Rightarrow> '' '' @ [CHR 0x22] @ escape l @ [CHR 0x22] | None \<Rightarrow> []) @
     '' {'' @ [CHR 0x0A] @ sum_nodes children (depth + 1) @ sum_indent depth @ ''}'' @ [CHR 0x0A] @
     sum_nodes ns depth"
| "sum_nodes (NdInclude path # ns) depth =
     sum_indent depth @ ''include '' @ [CHR 0x22] @ escape path @ [CHR 0x22] @ [CHR 0x0A] @ sum_nodes ns depth"

definition summarize :: "document \<Rightarrow> string" where
  "summarize doc =
     ''cfgscript document: '' @ dec_of_nat (length doc) @
     (if length doc = 1 then '' top-level node'' @ [CHR 0x0A] else '' top-level nodes'' @ [CHR 0x0A]) @
     sum_nodes doc 0"

end
