(* ===== verification/Cs_Text.thy ===== *)
theory Cs_Text
  imports Cs_Serialize_Laws Cs_Document
begin

text \<open>
  The tokens of a serialized value and of serialized nodes: whatever the options, the printed text yields
  exactly these. The layout differs in blanks, and in the comma behind the last element of an array that
  is split over lines.
\<close>

section \<open>Characters as bytes\<close>

lemma bytes_of_string_simps [simp]:
  "bytes_of_string [] = []" "bytes_of_string (c # s) = byte_of_char c # bytes_of_string s"
  "bytes_of_string (s @ t) = bytes_of_string s @ bytes_of_string t"
  by (simp_all add: bytes_of_string_def)

lemma punctuation_bytes:
  "byte_of_char (CHR ''['') = 0x5B" "byte_of_char (CHR '']'') = 0x5D" "byte_of_char (CHR ''{'') = 0x7B"
  "byte_of_char (CHR ''}'') = 0x7D" "byte_of_char (CHR '','') = 0x2C" "byte_of_char (CHR '';'') = 0x3B"
  "byte_of_char (CHR '' '') = 0x20" "byte_of_char (CHR ''='') = 0x3D" "byte_of_char (CHR 0x0A) = 0x0A"
  "byte_of_char (CHR ''.'') = 0x2E" "byte_of_char (CHR ''-'') = 0x2D"
  by code_simp+

lemma ends_at [simp]:
  "ends_word (0x2C # bs)" "ends_word (0x5D # bs)" "ends_word (0x3B # bs)" "ends_word (0x20 # bs)" "ends_word (0x2E # bs)"
  "ends_number (0x2C # bs)" "ends_number (0x5D # bs)" "ends_number (0x3B # bs)"
  by (simp_all add: ends_word_def ends_number_def is_ident_part_def is_ident_start_def is_digit_def)

lemma yields_blank: "yields bs ts \<Longrightarrow> yields (0x20 # bs) ts" "yields bs ts \<Longrightarrow> yields (0x0A # bs) ts"
  by (simp_all add: yields_space is_space_def)

lemma yields_indent: "yields bs ts \<Longrightarrow> yields (bytes_of_string (ser_indent depth width) @ bs) ts"
  by (rule yields_spaces) (auto simp: ser_indent_def bytes_of_string_def list_all_iff is_space_def punctuation_bytes)

lemma yields_punctuation:
  assumes "yields bs ts"
  shows "yields (0x5B # bs) (plain_token TkLBracket # ts)" "yields (0x5D # bs) (plain_token TkRBracket # ts)"
    "yields (0x7B # bs) (plain_token TkLBrace # ts)" "yields (0x7D # bs) (plain_token TkRBrace # ts)"
    "yields (0x2C # bs) (plain_token TkComma # ts)" "yields (0x3B # bs) (plain_token TkSemicolon # ts)"
    "yields (0x2E # bs) (plain_token TkDot # ts)" "yields (0x2D # bs) (plain_token TkMinus # ts)"
  by (rule yields_simple [OF _ _ assms]; simp add: simple_token_def)+

lemma yields_equals: "yields bs ts \<Longrightarrow> yields (0x3D # 0x20 # bs) (plain_token TkAssign # ts)"
  by (intro yields_blank yields_assign) simp_all

text \<open>The names a document may use: identifiers that are no keywords.\<close>

definition is_name :: "string \<Rightarrow> bool" where
  "is_name s \<longleftrightarrow> is_word s \<and> keyword_kind s = TkIdent"

lemma yields_name:
  "is_name s \<Longrightarrow> ends_word bs \<Longrightarrow> yields bs ts \<Longrightarrow> yields (bytes_of_string s @ bs) (text_token TkIdent s # ts)"
  using yields_word [of s bs ts] by (simp add: is_name_def)

section \<open>Values\<close>

fun value_tokens :: "ser_options \<Rightarrow> cvalue \<Rightarrow> token list"
  and tail_tokens :: "ser_options \<Rightarrow> cvalue list \<Rightarrow> token list"
  and line_tokens :: "ser_options \<Rightarrow> cvalue list \<Rightarrow> token list"
  and field_tokens :: "ser_options \<Rightarrow> (string \<times> cvalue) list \<Rightarrow> token list" where
  "value_tokens opts VNull = [text_token TkNull ''null'']"
| "value_tokens opts (VBool b) = [if b then text_token TkTrue ''true'' else text_token TkFalse ''false'']"
| "value_tokens opts (VInt i) = (if sint i < 0 then [plain_token TkMinus, int_token (- i)] else [int_token i])"
| "value_tokens opts (VFloat f) = []"
| "value_tokens opts (VStr s) = [text_token TkString s]"
| "value_tokens opts (VArray vs) =
     plain_token TkLBracket # (if render_inline (length vs) opts then tl (tail_tokens opts vs) else line_tokens opts vs) @
     [plain_token TkRBracket]"
| "value_tokens opts (VObject fs) = plain_token TkLBrace # field_tokens opts fs @ [plain_token TkRBrace]"
| "tail_tokens opts [] = []"
| "tail_tokens opts (v # vs) = plain_token TkComma # value_tokens opts v @ tail_tokens opts vs"
| "line_tokens opts [] = []"
| "line_tokens opts (v # vs) = value_tokens opts v @ plain_token TkComma # line_tokens opts vs"
| "field_tokens opts [] = []"
| "field_tokens opts ((k, v) # fs) =
     text_token TkIdent k # plain_token TkAssign # value_tokens opts v @ plain_token TkSemicolon # field_tokens opts fs"

text \<open>Values the serializer prints without loss: no floats, no \<open>- 2 ^ 63\<close>, and keys that are names.\<close>

fun plain_value :: "cvalue \<Rightarrow> bool" where
  "plain_value (VInt i) \<longleftrightarrow> i \<noteq> int64_min"
| "plain_value (VFloat f) \<longleftrightarrow> False"
| "plain_value (VArray vs) \<longleftrightarrow> (\<forall>v \<in> set vs. plain_value v)"
| "plain_value (VObject fs) \<longleftrightarrow> (\<forall>(k, v) \<in> set fs. is_name k \<and> plain_value v)"
| "plain_value v \<longleftrightarrow> True"

definition stops :: "bytes \<Rightarrow> bool" where
  "stops bs \<longleftrightarrow> bs \<noteq> [] \<and> hd bs \<in> {0x2C, 0x5D, 0x3B}"

lemma stops_ends: "stops bs \<Longrightarrow> ends_word bs" "stops bs \<Longrightarrow> ends_number bs"
  by (cases bs; auto simp: stops_def)+

lemma stops_at [simp]: "stops (0x2C # bs)" "stops (0x5D # bs)" "stops (0x3B # bs)"
  by (simp_all add: stops_def)

lemma yields_keywords:
  assumes "ends_word bs" "yields bs ts"
  shows "yields (bytes_of_string ''null'' @ bs) (text_token TkNull ''null'' # ts)"
    "yields (bytes_of_string ''true'' @ bs) (text_token TkTrue ''true'' # ts)"
    "yields (bytes_of_string ''false'' @ bs) (text_token TkFalse ''false'' # ts)"
    "yields (bytes_of_string ''include'' @ bs) (text_token TkInclude ''include'' # ts)"
proof -
  have w: "is_word ''null''" "is_word ''true''" "is_word ''false''" "is_word ''include''" by code_simp+
  show "yields (bytes_of_string ''null'' @ bs) (text_token TkNull ''null'' # ts)"
    "yields (bytes_of_string ''true'' @ bs) (text_token TkTrue ''true'' # ts)"
    "yields (bytes_of_string ''false'' @ bs) (text_token TkFalse ''false'' # ts)"
    "yields (bytes_of_string ''include'' @ bs) (text_token TkInclude ''include'' # ts)"
    using w [THEN yields_word, OF assms] by (simp_all add: keyword_kind_def del: bytes_of_string_simps)
qed

lemma sint_bounds: "- (2 ^ 63) \<le> sint (i :: i64)" "sint (i :: i64) < 2 ^ 63"
  using sint_range_size [of i] by (simp_all add: size_word_def word_size)

lemma yields_integer:
  assumes i: "i \<noteq> int64_min" and bs: "ends_number bs" "yields bs ts"
  shows "yields (bytes_of_string (dec_of_int (sint i)) @ bs) (value_tokens opts (VInt i) @ ts)"
proof (cases "sint i < 0")
  case True
  have "sint int64_min = - (2 ^ 63)" by (simp add: int64_min_def)
  then have "sint i \<noteq> - (2 ^ 63)" using i signed_word_eqI [of i int64_min] by metis
  then have n: "nat (- sint i) < 2 ^ 63" using sint_bounds [of i] True by (simp add: nat_less_iff)
  have "(of_nat (nat (- sint i)) :: i64) = - i" using True by simp
  with yields_punctuation(8) [OF yields_int [OF n bs]] True show ?thesis
    by (simp add: dec_of_int_def punctuation_bytes)
next
  case False
  then have n: "nat (sint i) < 2 ^ 63" using sint_bounds [of i] False by (simp add: nat_less_iff)
  have "(of_nat (nat (sint i)) :: i64) = i" using False by simp
  with yields_int [OF n bs] False show ?thesis by (simp add: dec_of_int_def)
qed

declare value_tokens.simps(3) [simp del]

lemma yields_value:
  "plain_value v \<Longrightarrow> stops bs \<Longrightarrow> yields bs ts \<Longrightarrow>
     yields (bytes_of_string (ser_value opts depth v) @ bs) (value_tokens opts v @ ts)"
  and "\<forall>v \<in> set vs. plain_value v \<Longrightarrow> yields bs ts \<Longrightarrow> stops bs \<Longrightarrow>
     yields (bytes_of_string (ser_inline_array opts depth k vs) @ bs)
       ((if k = 0 then tl (tail_tokens opts vs) else tail_tokens opts vs) @ ts) \<and>
     (0 < k \<longrightarrow> stops (bytes_of_string (ser_inline_array opts depth k vs) @ bs))"
  and "\<forall>v \<in> set vs. plain_value v \<Longrightarrow> yields bs ts \<Longrightarrow>
     yields (bytes_of_string (ser_split_array opts depth vs) @ bs) (line_tokens opts vs @ ts)"
  and "\<forall>(key, v) \<in> set fs. is_name key \<and> plain_value v \<Longrightarrow> yields bs ts \<Longrightarrow>
     yields (bytes_of_string (ser_inline_object opts depth k fs) @ bs) (field_tokens opts fs @ ts)"
  and "\<forall>(key, v) \<in> set fs. is_name key \<and> plain_value v \<Longrightarrow> yields bs ts \<Longrightarrow>
     yields (bytes_of_string (ser_split_object opts depth fs) @ bs) (field_tokens opts fs @ ts)"
proof (induction opts depth v and opts depth k vs and opts depth vs and opts depth k fs and opts depth fs
    arbitrary: bs ts and bs ts and bs ts and bs ts and bs ts
    rule: ser_value_ser_inline_array_ser_split_array_ser_inline_object_ser_split_object.induct)
  case (1 opts depth)
  then show ?case using yields_keywords(1) [OF stops_ends(1)] by simp
next
  case (2 opts depth b)
  then show ?case using yields_keywords(2,3) [OF stops_ends(1)] by simp
next
  case (3 opts depth i)
  then show ?case by (simp add: yields_integer stops_ends del: bytes_of_string_simps)
next
  case (4 opts depth f)
  then show ?case by simp
next
  case (5 opts depth s)
  then show ?case using yields_quoted by simp
next
  case (6 opts depth arr)
  have close: "yields (0x5D # bs) (plain_token TkRBracket # ts)" using "6.prems" by (simp add: yields_punctuation)
  show ?case
  proof (cases "arr = []")
    case True
    with close show ?thesis by (simp add: punctuation_bytes yields_punctuation)
  next
    case False
    let ?tail = "bytes_of_string (ser_indent depth (so_indent_width opts)) @ 0x5D # bs"
    have "yields ?tail (plain_token TkRBracket # ts)" using close by (rule yields_indent)
    then have "yields (bytes_of_string (ser_split_array opts depth arr) @ ?tail)
        (line_tokens opts arr @ plain_token TkRBracket # ts)" if "\<not> render_inline (length arr) opts"
      using "6.IH"(2) [OF False that] "6.prems"(1) by simp
    moreover have "yields (bytes_of_string (ser_inline_array opts depth 0 arr) @ 0x5D # bs)
        (tl (tail_tokens opts arr) @ plain_token TkRBracket # ts)" if "render_inline (length arr) opts"
      using "6.IH"(1) [OF False that _ close] "6.prems"(1) by simp
    ultimately show ?thesis
      using False by (auto simp: punctuation_bytes intro!: yields_punctuation(1) yields_blank)
  qed
next
  case (7 opts depth obj)
  have close: "yields (0x7D # bs) (plain_token TkRBrace # ts)" using "7.prems" by (simp add: yields_punctuation)
  show ?case
  proof (cases "obj = []")
    case True
    with close show ?thesis by (simp add: punctuation_bytes yields_punctuation)
  next
    case False
    let ?tail = "bytes_of_string (ser_indent depth (so_indent_width opts)) @ 0x7D # bs"
    have "yields ?tail (plain_token TkRBrace # ts)" using close by (rule yields_indent)
    then have "yields (bytes_of_string (ser_split_object opts depth obj) @ ?tail)
        (field_tokens opts obj @ plain_token TkRBrace # ts)" if "\<not> render_inline (length obj) opts"
      using "7.IH"(2) [OF False that] "7.prems"(1) by simp
    moreover have "yields (bytes_of_string (ser_inline_object opts depth 0 obj) @ 0x20 # 0x7D # bs)
        (field_tokens opts obj @ plain_token TkRBrace # ts)" if "render_inline (length obj) opts"
      using "7.IH"(1) [OF False that _ yields_blank(1) [OF close]] "7.prems"(1) by simp
    ultimately show ?thesis
      using False by (auto simp: punctuation_bytes intro!: yields_punctuation(3) yields_blank)
  qed
next
  case (8 opts depth k)
  then show ?case by simp
next
  case (9 opts depth k v vs)
  let ?rest = "bytes_of_string (ser_inline_array opts depth (Suc k) vs) @ bs"
  have rest: "yields ?rest (tail_tokens opts vs @ ts)" "stops ?rest" using "9.IH"(2) "9.prems" by auto
  have "yields (bytes_of_string (ser_value opts depth v) @ ?rest) (value_tokens opts v @ tail_tokens opts vs @ ts)"
    using "9.IH"(1) "9.prems" rest by simp
  then show ?case by (auto simp: punctuation_bytes intro!: yields_punctuation yields_blank)
next
  case (10 opts depth)
  then show ?case by simp
next
  case (11 opts depth v vs)
  have "yields (0x2C # 0x0A # bytes_of_string (ser_split_array opts depth vs) @ bs)
      (plain_token TkComma # line_tokens opts vs @ ts)"
    using "11.IH"(2) "11.prems" by (intro yields_punctuation yields_blank) simp
  with "11.IH"(1) "11.prems" show ?case by (simp add: punctuation_bytes yields_indent)
next
  case (12 opts depth k)
  then show ?case by simp
next
  case (13 opts depth k key v fs)
  have "yields (0x3B # bytes_of_string (ser_inline_object opts depth (Suc k) fs) @ bs)
      (plain_token TkSemicolon # field_tokens opts fs @ ts)"
    using "13.IH"(2) "13.prems" by (intro yields_punctuation) simp
  with "13.IH"(1) "13.prems" have "yields (bytes_of_string (ser_value opts depth v) @ 0x3B #
      bytes_of_string (ser_inline_object opts depth (Suc k) fs) @ bs)
      (value_tokens opts v @ plain_token TkSemicolon # field_tokens opts fs @ ts)" by simp
  with "13.prems" show ?case
    by (auto simp: punctuation_bytes intro!: yields_name yields_equals yields_punctuation yields_blank)
next
  case (14 opts depth)
  then show ?case by simp
next
  case (15 opts depth key v fs)
  have "yields (0x3B # 0x0A # bytes_of_string (ser_split_object opts depth fs) @ bs)
      (plain_token TkSemicolon # field_tokens opts fs @ ts)"
    using "15.IH"(2) "15.prems" by (intro yields_punctuation yields_blank) simp
  with "15.IH"(1) "15.prems" have "yields (bytes_of_string (ser_value opts (depth + 1) v) @ 0x3B # 0x0A #
      bytes_of_string (ser_split_object opts depth fs) @ bs)
      (value_tokens opts v @ plain_token TkSemicolon # field_tokens opts fs @ ts)" by simp
  with "15.prems" show ?case
    by (auto simp: punctuation_bytes intro!: yields_indent yields_name yields_equals yields_punctuation yields_blank)
qed

section \<open>Nodes\<close>

definition path_tokens :: "string list \<Rightarrow> token list" where
  "path_tokens cs = concat (map (\<lambda>c. [plain_token TkDot, text_token TkIdent c]) cs)"

lemma path_tokens_simps [simp]:
  "path_tokens [] = []" "path_tokens (c # cs) = plain_token TkDot # text_token TkIdent c # path_tokens cs"
  by (simp_all add: path_tokens_def)

fun node_tokens :: "ser_options \<Rightarrow> cnode list \<Rightarrow> token list" where
  "node_tokens opts [] = []"
| "node_tokens opts (NdAssignment path v # ns) =
     text_token TkIdent (hd path) # path_tokens (tl path) @
     plain_token TkAssign # value_tokens opts v @ plain_token TkSemicolon # node_tokens opts ns"
| "node_tokens opts (NdBlock name label children # ns) =
     text_token TkIdent name # (case label of Some l \<Rightarrow> [text_token TkString l] | None \<Rightarrow> []) @
     plain_token TkLBrace # node_tokens opts children @ plain_token TkRBrace # node_tokens opts ns"
| "node_tokens opts (NdInclude path # ns) =
     text_token TkInclude ''include'' # text_token TkString path # plain_token TkSemicolon # node_tokens opts ns"

text \<open>The nodes that print without loss.\<close>

fun plain_nodes :: "cnode list \<Rightarrow> bool" where
  "plain_nodes [] \<longleftrightarrow> True"
| "plain_nodes (NdAssignment path v # ns) \<longleftrightarrow>
     path \<noteq> [] \<and> list_all is_name path \<and> plain_value v \<and> plain_nodes ns"
| "plain_nodes (NdBlock name label children # ns) \<longleftrightarrow>
     is_name name \<and> plain_nodes children \<and> plain_nodes ns"
| "plain_nodes (NdInclude path # ns) \<longleftrightarrow> plain_nodes ns"

lemma yields_path_tail:
  assumes "list_all is_name cs" "ends_word bs" "yields bs ts" "0 < k"
  shows "yields (bytes_of_string (ser_path k cs) @ bs) (path_tokens cs @ ts) \<and>
    ends_word (bytes_of_string (ser_path k cs) @ bs)"
  using assms
proof (induction cs arbitrary: k)
  case (Cons c cs)
  then show ?case by (auto simp: punctuation_bytes intro!: yields_punctuation yields_name)
qed simp

lemma yields_path:
  assumes "path \<noteq> []" "list_all is_name path" "ends_word bs" "yields bs ts"
  shows "yields (bytes_of_string (ser_path 0 path) @ bs) (text_token TkIdent (hd path) # path_tokens (tl path) @ ts)"
  using assms yields_path_tail [of "tl path" bs ts "Suc 0"] by (cases path) (auto intro!: yields_name)

lemma yields_nodes:
  "plain_nodes ns \<Longrightarrow> yields bs ts \<Longrightarrow>
     yields (bytes_of_string (ser_nodes opts depth ns) @ bs) (node_tokens opts ns @ ts)"
proof (induction opts depth ns arbitrary: bs ts rule: ser_nodes.induct)
  case (2 opts depth path v ns)
  then show ?case
    by (auto simp: punctuation_bytes intro!: yields_indent yields_path yields_equals yields_value(1) yields_punctuation(6)
        yields_blank)
next
  case (3 opts depth name label children ns)
  let ?close = "bytes_of_string (ser_indent depth (so_indent_width opts)) @ 0x7D # 0x0A #
    bytes_of_string (ser_nodes opts depth ns) @ bs"
  have rest: "yields (bytes_of_string (ser_nodes opts depth ns) @ bs) (node_tokens opts ns @ ts)"
    using "3.IH"(2) "3.prems" by simp
  have body: "yields (if children = [] then 0x20 # 0x7B # 0x7D # 0x0A # bytes_of_string (ser_nodes opts depth ns) @ bs
        else 0x20 # 0x7B # 0x0A # bytes_of_string (ser_nodes opts (depth + 1) children) @ ?close)
      (plain_token TkLBrace # node_tokens opts children @ plain_token TkRBrace # node_tokens opts ns @ ts)"
  proof (cases "children = []")
    case True
    with rest show ?thesis by (auto intro!: yields_blank yields_punctuation)
  next
    case False
    have "yields ?close (plain_token TkRBrace # node_tokens opts ns @ ts)"
      using rest by (intro yields_indent yields_punctuation yields_blank)
    with "3.IH"(1) [OF False] "3.prems" have
      "yields (bytes_of_string (ser_nodes opts (depth + 1) children) @ ?close)
        (node_tokens opts children @ plain_token TkRBrace # node_tokens opts ns @ ts)" by simp
    with False show ?thesis by (auto intro!: yields_blank yields_punctuation)
  qed
  show ?case
  proof (cases label)
    case None
    with body "3.prems" show ?thesis
      by (auto simp: punctuation_bytes intro!: yields_indent yields_name split: if_splits)
  next
    case (Some l)
    with body "3.prems" show ?thesis
      by (auto simp: punctuation_bytes intro!: yields_indent yields_name yields_blank(1) yields_quoted split: if_splits)
  qed
next
  case (4 opts depth path ns)
  then have "yields (bytes_of_string (ser_quoted path) @ 0x3B # 0x0A # bytes_of_string (ser_nodes opts depth ns) @ bs)
      (text_token TkString path # plain_token TkSemicolon # node_tokens opts ns @ ts)"
    by (auto intro!: yields_quoted yields_punctuation yields_blank)
  then have "yields (bytes_of_string ''include'' @ 0x20 # bytes_of_string (ser_quoted path) @ 0x3B # 0x0A #
        bytes_of_string (ser_nodes opts depth ns) @ bs) (node_tokens opts (NdInclude path # ns) @ ts)"
    using yields_keywords(4) yields_blank(1) by simp
  then show ?case by (auto simp: punctuation_bytes intro!: yields_indent)
qed simp

lemma serialized_tokens:
  "plain_nodes doc \<Longrightarrow> yields (bytes_of_string (serialize doc opts)) (node_tokens opts doc)"
  using yields_nodes [of doc "[]" "[]" opts 0] by (simp add: serialize_def yields_end)

end
