(* ===== verification/Cs_Runs.thy ===== *)
theory Cs_Runs
  imports Cs_Parse_Laws Cs_Streams
begin

text \<open>
  Total-correctness triples over the token stream: \<open>runs n p ts Q ts'\<close> says that on a parser object in
  front of the tokens \<open>ts\<close> the production \<open>p\<close> returns, with a result that satisfies \<open>Q\<close>, in front of
  \<open>ts'\<close>. One rule for each construct of the productions.
\<close>

definition ps_at :: "parser \<Rightarrow> token list \<Rightarrow> bool" where
  "ps_at st ts \<longleftrightarrow>
     (case ts of
        [] \<Rightarrow> tk_kind (ps_cur st) = TkEof
      | t # ts' \<Rightarrow> tok_view (ps_cur st) = t \<and> tk_kind t \<noteq> TkEof \<and> stream (ps_lexer st) ts')"

definition next_kind :: "token list \<Rightarrow> token_kind" where
  "next_kind ts = (case ts of [] \<Rightarrow> TkEof | t # _ \<Rightarrow> tk_kind t)"

lemma next_kind_simps [simp]: "next_kind [] = TkEof" "next_kind (t # ts) = tk_kind t"
  by (simp_all add: next_kind_def)

lemma at_kind: "ps_at st ts \<Longrightarrow> tk_kind (ps_cur st) = next_kind ts"
  by (auto simp: ps_at_def next_kind_def split: list.splits)

lemma at_check: "ps_at st ts \<Longrightarrow> ps_check kind st \<longleftrightarrow> next_kind ts = kind"
  by (simp add: ps_check_def at_kind)

definition runs :: "nat \<Rightarrow> 'a ps \<Rightarrow> token list \<Rightarrow> ('a \<Rightarrow> bool) \<Rightarrow> token list \<Rightarrow> bool" where
  "runs n p ts Q ts' \<longleftrightarrow>
     (\<forall>st. ps_ok n st \<and> ps_at st ts \<longrightarrow>
        (\<exists>x st'. p st = Inr (x, st') \<and> Q x \<and> ps_ok n st' \<and> ps_at st' ts'))"

lemma runsD:
  assumes "runs n p ts Q ts'" "ps_ok n st" "ps_at st ts"
  obtains x st' where "p st = Inr (x, st')" "Q x" "ps_ok n st'" "ps_at st' ts'"
  using assms unfolding runs_def by blast

lemma runs_return: "Q x \<Longrightarrow> runs n (ps_return x) ts Q ts"
  by (simp add: runs_def ps_return_def)

lemma runs_Inr: "Q x \<Longrightarrow> runs n (\<lambda>st. Inr (x, st)) ts Q ts"
  by (simp add: runs_def)

lemma runs_bind:
  assumes "runs n m ts P ts1" and "\<And>x. P x \<Longrightarrow> runs n (f x) ts1 Q ts2"
  shows "runs n (ps_bind m f) ts Q ts2"
  unfolding runs_def
proof (intro allI impI, elim conjE)
  fix st assume "ps_ok n st" "ps_at st ts"
  with assms(1) obtain x st1 where 1: "m st = Inr (x, st1)" "P x" "ps_ok n st1" "ps_at st1 ts1" by (rule runsD)
  from assms(2) [OF this(2)] this(3,4) obtain y st2 where "f x st1 = Inr (y, st2)" "Q y" "ps_ok n st2" "ps_at st2 ts2"
    by (rule runsD)
  with 1 show "\<exists>x st'. ps_bind m f st = Inr (x, st') \<and> Q x \<and> ps_ok n st' \<and> ps_at st' ts2"
    by (simp add: ps_bind_def)
qed

lemma runs_weaken: "runs n p ts P ts' \<Longrightarrow> (\<And>x. P x \<Longrightarrow> Q x) \<Longrightarrow> runs n p ts Q ts'"
  unfolding runs_def by blast

lemma runs_state:
  "(\<And>st. ps_ok n st \<Longrightarrow> ps_at st ts \<Longrightarrow> runs n (p st) ts Q ts') \<Longrightarrow> runs n (\<lambda>st. p st st) ts Q ts'"
  unfolding runs_def by blast

text \<open>A production that looks at the kind of the next token only.\<close>

lemma runs_check:
  "(next_kind ts = kind \<Longrightarrow> runs n p ts Q ts') \<Longrightarrow> (next_kind ts \<noteq> kind \<Longrightarrow> runs n q ts Q ts') \<Longrightarrow>
     runs n (\<lambda>st. if ps_check kind st then p st else q st) ts Q ts'"
  unfolding runs_def by (auto simp: at_check)

lemma runs_check_not:
  "(next_kind ts \<noteq> kind \<Longrightarrow> runs n p ts Q ts') \<Longrightarrow> (next_kind ts = kind \<Longrightarrow> runs n q ts Q ts') \<Longrightarrow>
     runs n (\<lambda>st. if \<not> ps_check kind st then p st else q st) ts Q ts'"
  unfolding runs_def by (auto simp: at_check)

lemma runs_take: "runs n ps_take (t # ts) (\<lambda>x. tok_view x = t) ts"
  unfolding runs_def
proof (intro allI impI, elim conjE)
  fix st assume ok: "ps_ok n st" and at: "ps_at st (t # ts)"
  then have stream: "stream (ps_lexer st) ts" and t: "tok_view (ps_cur st) = t" by (simp_all add: ps_at_def)
  from stream obtain tok lx where next_tok: "lexer_next (ps_lexer st) = Inr (tok, lx)"
    and at': "ps_at \<lparr>ps_lexer = lx, ps_cur = tok\<rparr> ts"
    by (cases rule: stream.cases) (auto simp: ps_at_def)
  then have take: "ps_take st = Inr (ps_cur st, \<lparr>ps_lexer = lx, ps_cur = tok\<rparr>)" by (simp add: ps_take_def)
  with take_ok(2) [OF ok take] at' t show
    "\<exists>x st'. ps_take st = Inr (x, st') \<and> tok_view x = t \<and> ps_ok n st' \<and> ps_at st' ts" by blast
qed

lemma runs_cong:
  "(\<And>st. ps_ok n st \<Longrightarrow> ps_at st ts \<Longrightarrow> p st = q st) \<Longrightarrow> runs n q ts Q ts' \<Longrightarrow> runs n p ts Q ts'"
  unfolding runs_def by simp

lemma runs_expect: "tk_kind t = kind \<Longrightarrow> runs n (ps_expect kind what) (t # ts) (\<lambda>x. tok_view x = t) ts"
  by (rule runs_cong [OF _ runs_take]) (simp add: ps_expect_def at_kind)

lemma runs_accept: "tk_kind t = kind \<Longrightarrow> runs n (ps_accept kind) (t # ts) (\<lambda>b. b) ts"
  by (rule runs_cong [OF _ runs_bind [OF runs_take runs_return]]) (auto simp: ps_accept_def at_check)

lemma runs_accept_no: "next_kind ts \<noteq> kind \<Longrightarrow> runs n (ps_accept kind) ts (\<lambda>b. \<not> b) ts"
  by (rule runs_cong [OF _ runs_Inr]) (auto simp: ps_accept_def at_check)

text \<open>A loop indexed by the weight of the object may be run with any larger index.\<close>

lemma runs_fuel:
  assumes "\<And>k. K \<le> k \<Longrightarrow> runs n (f k) ts Q ts'"
    and fuel: "\<And>st k. ps_ok n st \<Longrightarrow> ps_weight st \<le> k \<Longrightarrow> f k st = f (ps_weight st) st"
  shows "runs n (\<lambda>st. f (ps_weight st) st) ts Q ts'"
  unfolding runs_def
proof (intro allI impI, elim conjE)
  fix st assume st: "ps_ok n st" "ps_at st ts"
  let ?k = "max K (ps_weight st)"
  have "runs n (f ?k) ts Q ts'" by (rule assms(1)) simp
  then obtain x st' where "f ?k st = Inr (x, st')" "Q x" "ps_ok n st'" "ps_at st' ts'" using st by (rule runsD)
  moreover have "f ?k st = f (ps_weight st) st" by (rule fuel [OF st(1)]) simp
  ultimately show "\<exists>x st'. f (ps_weight st) st = Inr (x, st') \<and> Q x \<and> ps_ok n st' \<and> ps_at st' ts'" by auto
qed

text \<open>The whole input.\<close>

lemma parser_new_at:
  assumes "yields data ts"
  obtains st where "parser_new data = Inr st" "ps_ok (length data) st" "ps_at st ts"
proof -
  have "stream (lexer_new data) ts" using assms by (rule yieldsD) simp
  then obtain tok lx where "lexer_next (lexer_new data) = Inr (tok, lx)" "ps_at \<lparr>ps_lexer = lx, ps_cur = tok\<rparr> ts"
    by (cases rule: stream.cases) (auto simp: ps_at_def)
  then show thesis using that parser_new_ok [of data] by (simp add: parser_new_def)
qed

end
