(* ===== verification/Cs_Round_Trip.thy ===== *)
theory Cs_Round_Trip
  imports Cs_Text Cs_Runs
begin

text \<open>
  Parsing what the serializer printed gives the document back. The limits come from the code: a value
  costs two levels of the parser for each array or object around it, a block one level.
\<close>

section \<open>Depths\<close>

text \<open>The levels below the one at which \<^verbatim>\<open>parse_expr\<close> is called for the value.\<close>

fun value_depth :: "cvalue \<Rightarrow> nat"
  and values_depth :: "cvalue list \<Rightarrow> nat"
  and fields_depth :: "(string \<times> cvalue) list \<Rightarrow> nat" where
  "value_depth (VInt i) = (if sint i < 0 then 2 else 1)"
| "value_depth (VArray vs) = values_depth vs"
| "value_depth (VObject fs) = fields_depth fs"
| "value_depth v = 1"
| "values_depth [] = 1"
| "values_depth (v # vs) = max (2 + value_depth v) (values_depth vs)"
| "fields_depth [] = 1"
| "fields_depth ((k, v) # fs) = max (2 + value_depth v) (fields_depth fs)"

lemma values_depth_ge: "1 \<le> values_depth vs" "v \<in> set vs \<Longrightarrow> 2 + value_depth v \<le> values_depth vs"
  by (induction vs) auto

lemma fields_depth_ge: "1 \<le> fields_depth fs" "(k, v) \<in> set fs \<Longrightarrow> 2 + value_depth v \<le> fields_depth fs"
  by (induction fs) auto

section \<open>Expressions\<close>

text \<open>An expression that evaluates to \<open>v\<close> in every scope.\<close>

definition denotes :: "cvalue \<Rightarrow> expr \<Rightarrow> bool" where
  "denotes v e \<longleftrightarrow> (\<forall>env depth. depth + value_depth v \<le> kMaxDepth \<longrightarrow> evaluate e env depth = Inr v)"

lemma denotes_leaf:
  "denotes VNull (ENull off)" "denotes (VBool b) (EBool off b)" "0 \<le> sint i \<Longrightarrow> denotes (VInt i) (EInt off i)"
  "denotes (VStr s) (EStr off s)"
  by (simp_all add: denotes_def require_depth_def)

lemma denotes_negative: "sint i < 0 \<Longrightarrow> denotes (VInt i) (EUnary off TkMinus (EInt off' (- i)))"
  by (simp add: denotes_def require_depth_def eval_unary_def)

lemma denotes_array:
  assumes "list_all2 denotes vs es"
  shows "denotes (VArray vs) (EArray off es)"
proof -
  have "evaluate_elements es env depth = Inr vs" if "\<forall>v \<in> set vs. depth + value_depth v \<le> kMaxDepth" for env depth
    using assms that by (induction) (auto simp: denotes_def)
  moreover have "\<forall>v \<in> set vs. depth + 1 + value_depth v \<le> kMaxDepth" if "depth + values_depth vs \<le> kMaxDepth" for depth
    using that values_depth_ge(2) [of _ vs] by fastforce
  moreover have "depth \<le> kMaxDepth" if "depth + values_depth vs \<le> kMaxDepth" for depth
    using that by simp
  ultimately show ?thesis by (simp add: denotes_def require_depth_def)
qed

lemma denotes_object:
  assumes "list_all2 (\<lambda>(k, v) (l, e). k = l \<and> denotes v e) fs es"
  shows "denotes (VObject fs) (EObject off es)"
proof -
  have "evaluate_fields es env depth = Inr fs" if "\<forall>(k, v) \<in> set fs. depth + value_depth v \<le> kMaxDepth" for env depth
    using assms that by (induction) (auto simp: denotes_def)
  moreover have "\<forall>(k, v) \<in> set fs. depth + 1 + value_depth v \<le> kMaxDepth" if "depth + fields_depth fs \<le> kMaxDepth" for depth
    using that fields_depth_ge(2) [of _ _ fs] by fastforce
  moreover have "depth \<le> kMaxDepth" if "depth + fields_depth fs \<le> kMaxDepth" for depth
    using that by simp
  ultimately show ?thesis by (simp add: denotes_def require_depth_def)
qed

text \<open>What may follow an expression: no operator and no question mark.\<close>

definition ends_expr :: "token list \<Rightarrow> bool" where
  "ends_expr ts \<longleftrightarrow> binary_precedence (next_kind ts) < 1 \<and> next_kind ts \<noteq> TkQuestion"

lemma ends_expr_at [simp]:
  "ends_expr (plain_token TkComma # ts)" "ends_expr (plain_token TkRBracket # ts)"
  "ends_expr (plain_token TkSemicolon # ts)"
  by (simp_all add: ends_expr_def)

lemma binary_loop_stops: "binary_precedence (tk_kind (ps_cur st)) < prec \<Longrightarrow> binary_loop k child prec lhs st = Inr (lhs, st)"
  by (cases k) simp_all

lemma ternary_of_unary:
  assumes "d \<le> kMaxDepth" "runs n (parse_unary (d + 1)) ts0 Q ts" "ends_expr ts"
  shows "runs n (parse_ternary d) ts0 Q ts"
proof -
  have d: "\<not> kMaxDepth < d" using assms(1) by simp
  have binary: "runs n (parse_binary 1 d) ts0 Q ts"
    unfolding parse_binary.simps [of 1 d] if_not_P [OF d]
    by (rule runs_bind [OF assms(2)], rule runs_cong [OF _ runs_Inr])
      (use assms(3) in \<open>auto simp: ends_expr_def at_kind binary_loop_stops\<close>)
  show ?thesis
    unfolding parse_ternary.simps [of d] if_not_P [OF d]
    by (rule runs_bind [OF binary], rule runs_check) (use assms(3) in \<open>simp_all add: ends_expr_def runs_Inr\<close>)
qed

lemma unary_of_primary:
  assumes "d \<le> kMaxDepth" "runs n (parse_primary d) ts0 Q ts"
    and "next_kind ts0 \<notin> {TkMinus, TkBang, TkTilde}"
  shows "runs n (parse_unary d) ts0 Q ts"
  using assms by (intro runs_cong [OF _ assms(2)]) (simp add: parse_unary.simps [of d] at_check)

lemma ternary_of_primary:
  assumes "d < kMaxDepth" "runs n (parse_primary (d + 1)) ts0 Q ts"
    and "next_kind ts0 \<notin> {TkMinus, TkBang, TkTilde}" "ends_expr ts"
  shows "runs n (parse_ternary d) ts0 Q ts"
  using assms by (intro ternary_of_unary unary_of_primary) simp_all

lemma runs_leaf:
  assumes "d \<le> kMaxDepth" and "tk_kind t \<in> {TkInt, TkString, TkTrue, TkFalse, TkNull}"
    and "\<And>off. Q (case tk_kind t of TkInt \<Rightarrow> EInt off (tk_int_value t) | TkString \<Rightarrow> EStr off (tk_text t)
      | TkTrue \<Rightarrow> EBool off True | TkFalse \<Rightarrow> EBool off False | _ \<Rightarrow> ENull off)"
  shows "runs n (parse_primary d) (t # ts) Q ts"
proof (rule runs_cong)
  let ?leaf = "\<lambda>off. case tk_kind t of TkInt \<Rightarrow> EInt off (tk_int_value t) | TkString \<Rightarrow> EStr off (tk_text t)
      | TkTrue \<Rightarrow> EBool off True | TkFalse \<Rightarrow> EBool off False | _ \<Rightarrow> ENull off"
  let ?p = "\<lambda>st. ps_bind ps_take (\<lambda>_. ps_return (?leaf (tk_offset (ps_cur st)))) st"
  show "runs n ?p (t # ts) Q ts"
    by (rule runs_state [where p = "\<lambda>st. ps_bind ps_take (\<lambda>_. ps_return (?leaf (tk_offset (ps_cur st))))"])
      (rule runs_bind [OF runs_take runs_return], rule assms(3))
  fix st assume at: "ps_at st (t # ts)"
  then have "tk_kind (ps_cur st) = tk_kind t" "tk_int_value (ps_cur st) = tk_int_value t" "tk_text (ps_cur st) = tk_text t"
    by (auto simp: ps_at_def)
  with assms(1,2) show "parse_primary d st = ?p st"
    by (auto simp: parse_primary.simps [of d] primary_of_def Let_def)
qed

section \<open>Arrays and objects\<close>

lemma value_start:
  "plain_value v \<Longrightarrow> next_kind (value_tokens opts v @ ts) \<notin> {TkRBracket, TkRBrace, TkEof, TkSemicolon, TkComma}"
  by (cases v) (auto simp: value_tokens.simps)

text \<open>\<open>child\<close> parses each of the values \<open>V\<close>.\<close>

locale value_parser =
  fixes child :: "expr ps" and n :: nat and opts :: ser_options and V :: "cvalue set"
  assumes child: "v \<in> V \<Longrightarrow> ends_expr ts \<Longrightarrow> runs n child (value_tokens opts v @ ts) (denotes v) ts"
    and plain: "v \<in> V \<Longrightarrow> plain_value v"
begin

lemma last_element:
  "denotes v x \<Longrightarrow> runs n (ps_bind (ps_accept TkComma) (\<lambda>comma st.
     if comma
     then (if ps_check TkRBracket st then Inr ([x], st)
           else ps_bind (array_loop k child) (\<lambda>xs. ps_return (x # xs)) st)
     else Inr ([x], st))) (plain_token TkRBracket # ts) (list_all2 denotes [v]) (plain_token TkRBracket # ts)"
  by (rule runs_bind [OF runs_accept_no]) (simp_all add: runs_Inr)

lemma comma_element:
  assumes "denotes v x"
    and more: "next_kind ts0 \<noteq> TkRBracket \<Longrightarrow> runs n (array_loop k child) ts0 (list_all2 denotes vs) ts"
    and stop: "next_kind ts0 = TkRBracket \<Longrightarrow> vs = [] \<and> ts0 = ts"
  shows "runs n (ps_bind (ps_accept TkComma) (\<lambda>comma st.
     if comma
     then (if ps_check TkRBracket st then Inr ([x], st)
           else ps_bind (array_loop k child) (\<lambda>xs. ps_return (x # xs)) st)
     else Inr ([x], st))) (plain_token TkComma # ts0) (list_all2 denotes (v # vs)) ts"
proof (rule runs_bind [OF runs_accept])
  fix comma :: bool assume comma: comma
  have "runs n (\<lambda>st. if ps_check TkRBracket st then Inr ([x], st)
      else ps_bind (array_loop k child) (\<lambda>xs. ps_return (x # xs)) st) ts0 (list_all2 denotes (v # vs)) ts"
  proof (rule runs_check)
    assume "next_kind ts0 = TkRBracket"
    with stop assms(1) show "runs n (\<lambda>st. Inr ([x], st)) ts0 (list_all2 denotes (v # vs)) ts"
      by (auto intro: runs_Inr)
  next
    assume "next_kind ts0 \<noteq> TkRBracket"
    with more have "runs n (array_loop k child) ts0 (list_all2 denotes vs) ts" .
    then show "runs n (ps_bind (array_loop k child) (\<lambda>xs. ps_return (x # xs))) ts0 (list_all2 denotes (v # vs)) ts"
      by (rule runs_bind) (use assms(1) in \<open>auto intro: runs_return\<close>)
  qed
  with comma show "runs n (\<lambda>st. if comma
     then (if ps_check TkRBracket st then Inr ([x], st)
           else ps_bind (array_loop k child) (\<lambda>xs. ps_return (x # xs)) st)
     else Inr ([x], st)) ts0 (list_all2 denotes (v # vs)) ts" by simp
qed simp

lemma line_loop:
  "vs \<noteq> [] \<Longrightarrow> set vs \<subseteq> V \<Longrightarrow> length vs \<le> k \<Longrightarrow>
     runs n (array_loop k child) (line_tokens opts vs @ plain_token TkRBracket # ts) (list_all2 denotes vs)
       (plain_token TkRBracket # ts)"
proof (induction vs arbitrary: k)
  case (Cons v vs)
  then obtain k' where k: "k = Suc k'" "length vs \<le> k'" by (cases k) auto
  have rest: "runs n (array_loop k' child) (line_tokens opts vs @ plain_token TkRBracket # ts) (list_all2 denotes vs)
      (plain_token TkRBracket # ts)" if "vs \<noteq> []"
    using Cons.IH [OF that] Cons.prems k(2) by simp
  have start: "next_kind (line_tokens opts vs @ plain_token TkRBracket # ts) = TkRBracket \<longleftrightarrow> vs = []"
    using Cons.prems(2) plain value_start by (cases vs) auto
  show ?case
    unfolding k(1) array_loop.simps(2) [abs_def] line_tokens.simps append_assoc append_Cons
  proof (rule runs_bind [OF child])
    fix x assume "denotes v x"
    then show "runs n (ps_bind (ps_accept TkComma) (\<lambda>comma st.
       if comma
       then (if ps_check TkRBracket st then Inr ([x], st)
             else ps_bind (array_loop k' child) (\<lambda>xs. ps_return (x # xs)) st)
       else Inr ([x], st))) (plain_token TkComma # line_tokens opts vs @ plain_token TkRBracket # ts)
       (list_all2 denotes (v # vs)) (plain_token TkRBracket # ts)"
      by (rule comma_element) (use rest start in auto)
  qed (use Cons.prems in simp_all)
qed simp

lemma tail_loop:
  "v \<in> V \<Longrightarrow> set vs \<subseteq> V \<Longrightarrow> length vs < k \<Longrightarrow>
     runs n (array_loop k child) (value_tokens opts v @ tail_tokens opts vs @ plain_token TkRBracket # ts)
       (list_all2 denotes (v # vs)) (plain_token TkRBracket # ts)"
proof (induction vs arbitrary: v k)
  case Nil
  then obtain k' where k: "k = Suc k'" by (cases k) auto
  show ?case
    unfolding k(1) array_loop.simps(2) [abs_def] tail_tokens.simps append_Nil
    by (rule runs_bind [OF child], use Nil.prems in simp_all) (rule last_element)
next
  case (Cons w vs)
  then obtain k' where k: "k = Suc k'" "length vs < k'" by (cases k) auto
  have rest: "runs n (array_loop k' child) (value_tokens opts w @ tail_tokens opts vs @ plain_token TkRBracket # ts)
      (list_all2 denotes (w # vs)) (plain_token TkRBracket # ts)"
    using Cons.IH [of w k'] Cons.prems k(2) by simp
  have start: "next_kind (value_tokens opts w @ tail_tokens opts vs @ plain_token TkRBracket # ts) \<noteq> TkRBracket"
    using Cons.prems(2) plain [of w] value_start [of w] by auto
  show ?case
    unfolding k(1) array_loop.simps(2) [abs_def] tail_tokens.simps append_assoc append_Cons
  proof (rule runs_bind [OF child])
    fix x assume "denotes v x"
    then show "runs n (ps_bind (ps_accept TkComma) (\<lambda>comma st.
       if comma
       then (if ps_check TkRBracket st then Inr ([x], st)
             else ps_bind (array_loop k' child) (\<lambda>xs. ps_return (x # xs)) st)
       else Inr ([x], st))) (plain_token TkComma # value_tokens opts w @ tail_tokens opts vs @ plain_token TkRBracket # ts)
       (list_all2 denotes (v # w # vs)) (plain_token TkRBracket # ts)"
      by (rule comma_element) (use rest start in auto)
  qed (use Cons.prems in simp_all)
qed

lemma object_loop_fields:
  "snd ` set fs \<subseteq> V \<Longrightarrow> length fs < k \<Longrightarrow>
     runs n (object_loop k child off) (field_tokens opts fs @ plain_token TkRBrace # ts)
       (list_all2 (\<lambda>(k, v) (l, e). k = l \<and> denotes v e) fs) (plain_token TkRBrace # ts)"
proof (induction fs arbitrary: k)
  case Nil
  then obtain k' where k: "k = Suc k'" by (cases k) auto
  show ?case
    unfolding k(1) object_loop.simps(2) [abs_def]
    by (rule runs_check) (simp_all add: runs_Inr)
next
  case (Cons f fs)
  obtain key v where f: "f = (key, v)" by (cases f)
  from Cons obtain k' where k: "k = Suc k'" "length fs < k'" by (cases k) auto
  have rest: "runs n (object_loop k' child off) (field_tokens opts fs @ plain_token TkRBrace # ts)
      (list_all2 (\<lambda>(k, v) (l, e). k = l \<and> denotes v e) fs) (plain_token TkRBrace # ts)"
    using Cons.IH k(2) Cons.prems by simp
  let ?Q = "list_all2 (\<lambda>(k, v) (l, e). k = l \<and> denotes v e) (f # fs)"
  have field: "runs n (ps_bind (ps_expect TkIdent msg1) (\<lambda>key.
        ps_bind (ps_expect TkAssign msg2) (\<lambda>_.
        ps_bind child (\<lambda>v.
        ps_bind (ps_expect TkSemicolon msg3) (\<lambda>_.
        ps_bind (object_loop k' child off) (\<lambda>fields. ps_return ((tk_text key, v) # fields)))))))
      (field_tokens opts (f # fs) @ plain_token TkRBrace # ts) ?Q (plain_token TkRBrace # ts)" for msg1 msg2 msg3
    unfolding f field_tokens.simps append_assoc append_Cons
    by (rule runs_bind [OF runs_expect], simp, rule runs_bind [OF runs_expect], simp,
        rule runs_bind [OF child], use Cons.prems f in simp, simp,
        rule runs_bind [OF runs_expect], simp, rule runs_bind [OF rest], rule runs_return)
      (auto simp: f dest!: arg_cong [where f = tk_text])
  show ?case
    unfolding k(1) object_loop.simps(2) [abs_def]
    by (rule runs_check, simp add: f, rule runs_check, simp add: f, rule runs_bind [OF runs_accept_no], simp add: f)
      (use field in simp)
qed

end

lemma tl_tail_tokens: "vs \<noteq> [] \<Longrightarrow> tl (tail_tokens opts vs) = value_tokens opts (hd vs) @ tail_tokens opts (tl vs)"
  by (cases vs) simp_all

lemma elements_parse:
  assumes vp: "value_parser (parse_ternary d) n opts (set vs)" and vs: "vs \<noteq> []"
  shows "runs n (\<lambda>st. array_loop (ps_weight st) (parse_ternary d) st)
     ((if render_inline (length vs) opts then tl (tail_tokens opts vs) else line_tokens opts vs) @ plain_token TkRBracket # ts)
     (list_all2 denotes vs) (plain_token TkRBracket # ts)"
proof (rule runs_fuel [where f = "\<lambda>k. array_loop k (parse_ternary d)" and K = "length vs"])
  fix k assume k: "length vs \<le> k"
  show "runs n (array_loop k (parse_ternary d))
     ((if render_inline (length vs) opts then tl (tail_tokens opts vs) else line_tokens opts vs) @ plain_token TkRBracket # ts)
     (list_all2 denotes vs) (plain_token TkRBracket # ts)"
  proof (cases "render_inline (length vs) opts")
    case True
    obtain v ws where v: "vs = v # ws" using vs by (cases vs) auto
    with k have "length ws < k" by simp
    with value_parser.tail_loop [OF vp, of v ws k ts] v True show ?thesis
      by (simp add: subset_insertI)
  next
    case False
    with value_parser.line_loop [OF vp vs _ k] show ?thesis by simp
  qed
qed (rule ternary.array_fuel)

lemma runs_parse_array:
  assumes vp: "value_parser (parse_ternary (d + 1)) n opts (set vs)" and d: "d \<le> kMaxDepth"
  shows "runs n (parse_array (parse_ternary (d + 1)) off d) (value_tokens opts (VArray vs) @ ts) (denotes (VArray vs)) ts"
proof -
  let ?ts = "(if render_inline (length vs) opts then tl (tail_tokens opts vs) else line_tokens opts vs) @
    plain_token TkRBracket # ts"
  have start: "next_kind ?ts = TkRBracket \<longleftrightarrow> vs = []"
  proof (cases vs)
    case (Cons v ws)
    have "plain_value v" using value_parser.plain [OF vp, of v] Cons by simp
    then show ?thesis using value_start [of v opts] by (auto simp: Cons)
  qed (simp add: render_inline_def)
  have elements: "runs n (\<lambda>st. if \<not> ps_check TkRBracket st
      then array_loop (ps_weight st) (parse_ternary (d + 1)) st else Inr ([], st)) ?ts
      (list_all2 denotes vs) (plain_token TkRBracket # ts)"
    by (rule runs_check_not; simp only: start)
      (use elements_parse [OF vp] in \<open>auto simp: runs_Inr\<close>)
  show ?thesis
    unfolding parse_array_def value_tokens.simps append_Cons append_assoc append_Nil if_not_P [OF d [unfolded not_less [symmetric]]]
    by (rule runs_bind [OF runs_expect], simp, rule runs_bind [OF elements], rule runs_bind [OF runs_expect], simp,
        rule runs_return, rule denotes_array)
qed

lemma runs_parse_object:
  assumes vp: "value_parser (parse_ternary (d + 1)) n opts (snd ` set fs)" and d: "d \<le> kMaxDepth"
  shows "runs n (parse_object (parse_ternary (d + 1)) off d) (value_tokens opts (VObject fs) @ ts) (denotes (VObject fs)) ts"
proof -
  have fields: "runs n (\<lambda>st. object_loop (ps_weight st) (parse_ternary (d + 1)) off st)
      (field_tokens opts fs @ plain_token TkRBrace # ts)
      (list_all2 (\<lambda>(k, v) (l, e). k = l \<and> denotes v e) fs) (plain_token TkRBrace # ts)"
    by (rule runs_fuel [where f = "\<lambda>k. object_loop k (parse_ternary (d + 1)) off" and K = "Suc (length fs)"])
      (rule value_parser.object_loop_fields [OF vp], simp, simp, erule (1) ternary.object_fuel)
  show ?thesis
    unfolding parse_object_def value_tokens.simps append_Cons append_assoc append_Nil if_not_P [OF d [unfolded not_less [symmetric]]]
    by (rule runs_bind [OF runs_expect], simp, rule runs_bind [OF fields], rule runs_bind [OF runs_expect], simp,
        rule runs_return, rule denotes_object)
qed

text \<open>The primary of a bracket is the array or object behind it, whatever its offset.\<close>

lemma runs_primary_brackets:
  assumes d: "d \<le> kMaxDepth"
  shows "(\<And>off. runs n (parse_array (parse_ternary (d + 1)) off d) (plain_token TkLBracket # ts0) Q ts) \<Longrightarrow>
      runs n (parse_primary d) (plain_token TkLBracket # ts0) Q ts"
    and "(\<And>off. runs n (parse_object (parse_ternary (d + 1)) off d) (plain_token TkLBrace # ts0) Q ts) \<Longrightarrow>
      runs n (parse_primary d) (plain_token TkLBrace # ts0) Q ts"
proof -
  assume "\<And>off. runs n (parse_array (parse_ternary (d + 1)) off d) (plain_token TkLBracket # ts0) Q ts"
  then have "runs n (\<lambda>st. parse_array (parse_ternary (d + 1)) (tk_offset (ps_cur st)) d st)
      (plain_token TkLBracket # ts0) Q ts"
    by (intro runs_state [where p = "\<lambda>st. parse_array (parse_ternary (d + 1)) (tk_offset (ps_cur st)) d"])
  then show "runs n (parse_primary d) (plain_token TkLBracket # ts0) Q ts"
    by (rule runs_cong [rotated]) (use d in \<open>simp add: parse_primary.simps [of d] primary_of_def Let_def at_kind\<close>)
next
  assume "\<And>off. runs n (parse_object (parse_ternary (d + 1)) off d) (plain_token TkLBrace # ts0) Q ts"
  then have "runs n (\<lambda>st. parse_object (parse_ternary (d + 1)) (tk_offset (ps_cur st)) d st)
      (plain_token TkLBrace # ts0) Q ts"
    by (intro runs_state [where p = "\<lambda>st. parse_object (parse_ternary (d + 1)) (tk_offset (ps_cur st)) d"])
  then show "runs n (parse_primary d) (plain_token TkLBrace # ts0) Q ts"
    by (rule runs_cong [rotated]) (use d in \<open>simp add: parse_primary.simps [of d] primary_of_def Let_def at_kind\<close>)
qed

section \<open>Values\<close>

lemma negative_parse:
  assumes "d + 2 \<le> kMaxDepth" "sint i < 0" "ends_expr ts"
  shows "runs n (parse_ternary d) (value_tokens opts (VInt i) @ ts) (denotes (VInt i)) ts"
proof (rule ternary_of_unary)
  have d: "\<not> kMaxDepth < d + 1" using assms(1) by simp
  have leaf: "runs n (parse_unary (d + 1 + 1)) (int_token (- i) # ts) (\<lambda>e. \<exists>off. e = EInt off (- i)) ts"
    by (rule unary_of_primary; (rule runs_leaf)?) (use assms(1) in auto)
  have "runs n (\<lambda>st. if ps_check TkMinus st \<or> ps_check TkBang st \<or> ps_check TkTilde st
      then ps_bind ps_take (\<lambda>opr. ps_bind (parse_unary (d + 1 + 1)) (\<lambda>operand.
             ps_return (EUnary (tk_offset opr) (tk_kind opr) operand))) st
      else parse_primary (d + 1) st) (plain_token TkMinus # int_token (- i) # ts) (denotes (VInt i)) ts"
    by (rule runs_cong [OF _ runs_bind [OF runs_take runs_bind [OF leaf runs_return]]])
      (use assms(2) in \<open>auto simp: at_check dest!: arg_cong [where f = tk_kind] intro: denotes_negative\<close>)
  with assms(2) show "runs n (parse_unary (d + 1)) (value_tokens opts (VInt i) @ ts) (denotes (VInt i)) ts"
    unfolding parse_unary.simps [of "d + 1"] if_not_P [OF d] by (simp add: value_tokens.simps)
qed (use assms in simp_all)

theorem value_parses:
  "plain_value v \<Longrightarrow> d + value_depth v \<le> kMaxDepth \<Longrightarrow> ends_expr ts \<Longrightarrow>
     runs n (parse_ternary d) (value_tokens opts v @ ts) (denotes v) ts"
proof (induction v arbitrary: d ts)
  case VNull
  then show ?case
    by (auto simp: value_tokens.simps intro!: ternary_of_primary runs_leaf denotes_leaf)
next
  case (VBool b)
  then show ?case
    by (auto simp: value_tokens.simps intro!: ternary_of_primary runs_leaf denotes_leaf)
next
  case (VInt i)
  show ?case
  proof (cases "sint i < 0")
    case True
    with VInt negative_parse show ?thesis by simp
  next
    case False
    with VInt show ?thesis
      by (auto simp: value_tokens.simps intro!: ternary_of_primary runs_leaf denotes_leaf)
  qed
next
  case (VFloat f)
  then show ?case by simp
next
  case (VStr s)
  then show ?case
    by (auto simp: value_tokens.simps intro!: ternary_of_primary runs_leaf denotes_leaf)
next
  case (VArray vs)
  have d: "d + 1 \<le> kMaxDepth" using VArray.prems(2) values_depth_ge(1) [of vs] by simp
  have "value_parser (parse_ternary (d + 1 + 1)) n opts (set vs)"
  proof
    fix v ts assume v: "v \<in> set vs" "ends_expr ts"
    have "d + 1 + 1 + value_depth v \<le> kMaxDepth"
      using VArray.prems(2) values_depth_ge(2) [OF v(1)] by simp
    with VArray.IH [OF v(1) _ this v(2)] VArray.prems(1) v(1)
    show "runs n (parse_ternary (d + 1 + 1)) (value_tokens opts v @ ts) (denotes v) ts" by simp
  qed (use VArray.prems(1) in simp)
  from runs_parse_array [OF this d]
  have "runs n (parse_array (parse_ternary (d + 1 + 1)) off (d + 1)) (value_tokens opts (VArray vs) @ ts)
      (denotes (VArray vs)) ts" for off .
  then have "runs n (parse_primary (d + 1)) (value_tokens opts (VArray vs) @ ts) (denotes (VArray vs)) ts"
    unfolding value_tokens.simps append_Cons by (rule runs_primary_brackets(1) [OF d])
  then show ?case using d VArray.prems(3) by (intro ternary_of_primary) simp_all
next
  case (VObject fs)
  have d: "d + 1 \<le> kMaxDepth" using VObject.prems(2) fields_depth_ge(1) [of fs] by simp
  have "value_parser (parse_ternary (d + 1 + 1)) n opts (snd ` set fs)"
  proof
    fix v ts assume "v \<in> snd ` set fs" and ts: "ends_expr ts"
    then obtain k where v: "(k, v) \<in> set fs" by auto
    have "d + 1 + 1 + value_depth v \<le> kMaxDepth"
      using VObject.prems(2) fields_depth_ge(2) [OF v] by simp
    with VObject.IH [OF v _ _ this ts] VObject.prems(1) v
    show "runs n (parse_ternary (d + 1 + 1)) (value_tokens opts v @ ts) (denotes v) ts" by auto
  qed (use VObject.prems(1) in auto)
  from runs_parse_object [OF this d]
  have "runs n (parse_object (parse_ternary (d + 1 + 1)) off (d + 1)) (value_tokens opts (VObject fs) @ ts)
      (denotes (VObject fs)) ts" for off .
  then have "runs n (parse_primary (d + 1)) (value_tokens opts (VObject fs) @ ts) (denotes (VObject fs)) ts"
    unfolding value_tokens.simps append_Cons by (rule runs_primary_brackets(2) [OF d])
  then show ?case using d VObject.prems(3) by (intro ternary_of_primary) simp_all
qed

interpretation printed: value_parser "parse_ternary d" n opts "{v. plain_value v \<and> d + value_depth v \<le> kMaxDepth}"
  for d n opts
  by standard (simp_all add: value_parses)

section \<open>Statements\<close>

text \<open>A statement that builds the node \<open>x\<close> in every scope.\<close>

definition builds :: "cnode \<Rightarrow> statement \<Rightarrow> bool" where
  "builds x s \<longleftrightarrow> (\<forall>env. build_nodes [s] env = Inr [x])"

lemma builds_all: "list_all2 builds ns sts \<Longrightarrow> build_nodes sts env = Inr ns"
proof (induction arbitrary: env rule: list_all2_induct)
  case (Cons n ns s sts)
  have "\<forall>env. build_nodes [s] env = Inr [n]" using Cons by (simp add: builds_def)
  with Cons show ?case by (cases s) (fastforce simp: bindE_eq_Inr)+
qed simp

text \<open>The levels the limit of the parser leaves at depth \<open>d\<close>.\<close>

fun nodes_fit :: "nat \<Rightarrow> cnode list \<Rightarrow> bool" where
  "nodes_fit d [] \<longleftrightarrow> True"
| "nodes_fit d (NdAssignment path v # ns) \<longleftrightarrow> d \<le> kMaxDepth \<and> 1 + value_depth v \<le> kMaxDepth \<and> nodes_fit d ns"
| "nodes_fit d (NdBlock name label children # ns) \<longleftrightarrow> d \<le> kMaxDepth \<and> nodes_fit (d + 1) children \<and> nodes_fit d ns"
| "nodes_fit d (NdInclude path # ns) \<longleftrightarrow> d \<le> kMaxDepth \<and> nodes_fit d ns"

lemma runs_path_loop:
  "length cs < k \<Longrightarrow> next_kind ts \<noteq> TkDot \<Longrightarrow> runs n (path_loop k) (path_tokens cs @ ts) (\<lambda>p. p = cs) ts"
proof (induction cs arbitrary: k)
  case Nil
  then obtain k' where k: "k = Suc k'" by (cases k) auto
  show ?case
    unfolding k path_loop.simps(2) [abs_def]
    by (rule runs_bind [OF runs_accept_no]) (use Nil in \<open>auto intro: runs_return\<close>)
next
  case (Cons c cs)
  then obtain k' where k: "k = Suc k'" "length cs < k'" by (cases k) auto
  have rest: "runs n (path_loop k') (path_tokens cs @ ts) (\<lambda>p. p = cs) ts"
    using Cons k by simp
  have "runs n (ps_bind (ps_expect TkIdent msg) (\<lambda>part. ps_bind (path_loop k') (\<lambda>path. ps_return (tk_text part # path))))
      (text_token TkIdent c # path_tokens cs @ ts) (\<lambda>p. p = c # cs) ts" for msg
    by (rule runs_bind [OF runs_expect], simp, rule runs_bind [OF rest], rule runs_return)
      (auto dest!: arg_cong [where f = tk_text])
  then show ?case
    unfolding k(1) path_loop.simps(2) [abs_def] path_tokens_simps append_Cons
    by (intro runs_bind [OF runs_accept]) simp_all
qed

lemma runs_assignment:
  assumes "path \<noteq> []" "plain_value v" "1 + value_depth v \<le> kMaxDepth"
  shows "runs n (parse_assignment path off) (plain_token TkAssign # value_tokens opts v @ plain_token TkSemicolon # ts)
    (builds (NdAssignment path v)) ts"
proof -
  have ends: "ends_expr (plain_token TkSemicolon # ts)" by simp
  show ?thesis
    unfolding parse_assignment_def parse_expr_def
    by (rule runs_bind [OF runs_expect], simp, rule runs_bind [OF value_parses [OF assms(2,3) ends]],
        rule runs_bind [OF runs_expect], simp, rule runs_return)
      (use assms(3) in \<open>auto simp: builds_def denotes_def\<close>)
qed

lemma node_start:
  "plain_nodes (x # ns) \<Longrightarrow> next_kind (node_tokens opts (x # ns) @ ts) \<in> {TkIdent, TkInclude}"
  by (cases x) simp_all

text \<open>\<open>child\<close> parses each of the nodes \<open>N\<close>.\<close>

locale node_parser =
  fixes child :: "statement ps" and n :: nat and opts :: ser_options and N :: "cnode set"
  assumes child: "x \<in> N \<Longrightarrow> runs n child (node_tokens opts [x] @ ts) (builds x) ts"
    and plain: "x \<in> N \<Longrightarrow> plain_nodes [x]"
begin

lemma start: "x \<in> N \<Longrightarrow> next_kind (node_tokens opts [x] @ ts) \<in> {TkIdent, TkInclude}"
  using plain [of x] node_start [of x "[]"] by simp

lemma node_tokens_Cons: "node_tokens opts (x # ns) = node_tokens opts [x] @ node_tokens opts ns"
  by (cases x) simp_all

lemma block_loop_nodes:
  "set ns \<subseteq> N \<Longrightarrow> length ns < k \<Longrightarrow>
     runs n (block_loop k child off) (node_tokens opts ns @ plain_token TkRBrace # ts)
       (list_all2 builds ns) (plain_token TkRBrace # ts)"
proof (induction ns arbitrary: k)
  case Nil
  then obtain k' where k: "k = Suc k'" by (cases k) auto
  show ?case
    unfolding k(1) block_loop.simps(2) [abs_def] by (rule runs_check) (simp_all add: runs_Inr)
next
  case (Cons x ns)
  then obtain k' where k: "k = Suc k'" "length ns < k'" by (cases k) auto
  let ?ts = "node_tokens opts [x] @ node_tokens opts ns @ plain_token TkRBrace # ts"
  have first: "next_kind ?ts \<in> {TkIdent, TkInclude}" using start [of x] Cons.prems by simp
  have rest: "runs n (block_loop k' child off) (node_tokens opts ns @ plain_token TkRBrace # ts)
      (list_all2 builds ns) (plain_token TkRBrace # ts)"
    using Cons k by simp
  have "runs n (ps_bind child (\<lambda>s. ps_bind (block_loop k' child off) (\<lambda>ss. ps_return (s # ss)))) ?ts
      (list_all2 builds (x # ns)) (plain_token TkRBrace # ts)"
    by (rule runs_bind [OF child], use Cons.prems in simp, rule runs_bind [OF rest], rule runs_return) simp
  with first show ?case
    unfolding k(1) block_loop.simps(2) [abs_def] node_tokens_Cons [of x ns] append_assoc
    by (intro runs_check runs_bind [OF runs_accept_no]) auto
qed

lemma document_loop_nodes:
  "set ns \<subseteq> N \<Longrightarrow> length ns < k \<Longrightarrow>
     runs n (document_loop k child) (node_tokens opts ns) (list_all2 builds ns) []"
proof (induction ns arbitrary: k)
  case Nil
  then obtain k' where k: "k = Suc k'" by (cases k) auto
  show ?case
    unfolding k(1) document_loop.simps(2) [abs_def] by (rule runs_check) (simp_all add: runs_Inr)
next
  case (Cons x ns)
  then obtain k' where k: "k = Suc k'" "length ns < k'" by (cases k) auto
  let ?ts = "node_tokens opts [x] @ node_tokens opts ns"
  have first: "next_kind ?ts \<in> {TkIdent, TkInclude}" using start [of x] Cons.prems by simp
  have rest: "runs n (document_loop k' child) (node_tokens opts ns) (list_all2 builds ns) []"
    using Cons k by simp
  have "runs n (ps_bind child (\<lambda>s. ps_bind (document_loop k' child) (\<lambda>ss. ps_return (s # ss)))) ?ts
      (list_all2 builds (x # ns)) []"
    by (rule runs_bind [OF child], use Cons.prems in simp, rule runs_bind [OF rest], rule runs_return) simp
  with first show ?case
    unfolding k(1) document_loop.simps(2) [abs_def] node_tokens_Cons [of x ns]
    by (intro runs_check runs_bind [OF runs_accept_no]) auto
qed

end

lemma plain_nodes_member: "plain_nodes ns \<Longrightarrow> x \<in> set ns \<Longrightarrow> plain_nodes [x]"
  by (induction ns rule: plain_nodes.induct) auto

lemma nodes_fit_member: "nodes_fit d ns \<Longrightarrow> x \<in> set ns \<Longrightarrow> nodes_fit d [x]"
  by (induction d ns rule: nodes_fit.induct) auto

lemma runs_block:
  assumes np: "node_parser (parse_statement d) n opts (set ns)"
  shows "runs n (parse_block (parse_statement d) name label off)
    (plain_token TkLBrace # node_tokens opts ns @ plain_token TkRBrace # ts) (builds (NdBlock name label ns)) ts"
proof -
  have body: "runs n (\<lambda>st. block_loop (ps_weight st) (parse_statement d) off st)
      (node_tokens opts ns @ plain_token TkRBrace # ts) (list_all2 builds ns) (plain_token TkRBrace # ts)"
    by (rule runs_fuel [where f = "\<lambda>k. block_loop k (parse_statement d) off" and K = "Suc (length ns)"])
      (rule node_parser.block_loop_nodes [OF np], simp, simp, erule (1) statement.block_fuel)
  show ?thesis
    unfolding parse_block_def
    by (rule runs_bind [OF runs_expect], simp, rule runs_bind [OF body], rule runs_bind [OF runs_expect], simp,
        rule runs_return) (simp add: builds_def builds_all)
qed

lemma runs_named_block:
  assumes np: "node_parser (parse_statement d) n opts (set ns)"
  shows "runs n (parse_named (parse_statement d) off) (node_tokens opts [NdBlock name label ns] @ ts)
    (builds (NdBlock name label ns)) ts"
proof -
  let ?body = "plain_token TkLBrace # node_tokens opts ns @ plain_token TkRBrace # ts"
  have labelled: "runs n (ps_bind ps_take (\<lambda>label st.
        if \<not> ps_check TkLBrace st then ps_error (tk_offset (ps_cur st)) msg st
        else parse_block (parse_statement d) nm (Some (tk_text label)) off st))
      (text_token TkString l # ?body) (builds (NdBlock nm (Some l) ns)) ts" for l nm msg
    by (rule runs_bind [OF runs_take], rule runs_cong [OF _ runs_block [OF np]])
      (auto simp: at_check dest!: arg_cong [where f = tk_text])
  show ?thesis
  proof (cases label)
    case None
    then show ?thesis
      unfolding parse_named_def
      by (auto dest!: arg_cong [where f = tk_text]
          intro!: runs_bind [OF runs_expect] runs_check runs_block [OF np])
  next
    case (Some l)
    then show ?thesis
      unfolding parse_named_def
      by (auto dest!: arg_cong [where f = tk_text] intro!: runs_bind [OF runs_expect] runs_check labelled)
  qed
qed

lemma runs_named_assignment:
  assumes "path \<noteq> []" "plain_value v" "1 + value_depth v \<le> kMaxDepth"
  shows "runs n (parse_named child off) (node_tokens opts [NdAssignment path v] @ ts) (builds (NdAssignment path v)) ts"
proof -
  let ?rest = "plain_token TkAssign # value_tokens opts v @ plain_token TkSemicolon # ts"
  obtain c cs where path: "path = c # cs" using assms(1) by (cases path) auto
  have names: "runs n (\<lambda>st. path_loop (ps_weight st) st) (path_tokens cs @ ?rest) (\<lambda>p. p = cs) ?rest"
    by (rule runs_fuel [where f = path_loop and K = "Suc (length cs)"])
      (rule runs_path_loop, simp, simp, erule (1) path_fuel)
  have start: "next_kind (path_tokens cs @ ?rest) \<in> {TkDot, TkAssign}" by (cases cs) simp_all
  have "runs n (ps_bind (\<lambda>st. path_loop (ps_weight st) st) (\<lambda>path. parse_assignment (c # path) off))
      (path_tokens cs @ ?rest) (builds (NdAssignment path v)) ts"
    by (rule runs_bind [OF names]) (use runs_assignment [OF assms] path in simp)
  with start show ?thesis
    unfolding parse_named_def path
    by (auto dest!: arg_cong [where f = tk_text] intro!: runs_bind [OF runs_expect] runs_check)
qed

lemma runs_include:
  "runs n (parse_include off) (node_tokens opts [NdInclude path] @ ts) (builds (NdInclude path)) ts"
  unfolding parse_include_def
  by (auto simp: builds_def dest!: arg_cong [where f = tk_text]
      intro!: runs_bind [OF runs_take] runs_bind [OF runs_expect] runs_return)

lemma statement_of:
  assumes d: "d \<le> kMaxDepth"
  shows "next_kind ts0 = TkInclude \<Longrightarrow> (\<And>off. runs n (parse_include off) ts0 Q ts) \<Longrightarrow> runs n (parse_statement d) ts0 Q ts"
    and "next_kind ts0 \<noteq> TkInclude \<Longrightarrow> (\<And>off. runs n (parse_named (parse_statement (d + 1)) off) ts0 Q ts) \<Longrightarrow>
      runs n (parse_statement d) ts0 Q ts"
proof -
  have s: "parse_statement d st = (if next_kind ts0 = TkInclude then parse_include (tk_offset (ps_cur st)) st
      else parse_named (parse_statement (d + 1)) (tk_offset (ps_cur st)) st)" if "ps_at st ts0" for st
    using d that by (simp add: parse_statement.simps [of d] Let_def at_check)
  show "next_kind ts0 = TkInclude \<Longrightarrow> (\<And>off. runs n (parse_include off) ts0 Q ts) \<Longrightarrow> runs n (parse_statement d) ts0 Q ts"
    by (rule runs_cong [OF _ runs_state [where p = "\<lambda>st. parse_include (tk_offset (ps_cur st))"]]) (simp_all add: s)
  show "next_kind ts0 \<noteq> TkInclude \<Longrightarrow> (\<And>off. runs n (parse_named (parse_statement (d + 1)) off) ts0 Q ts) \<Longrightarrow>
      runs n (parse_statement d) ts0 Q ts"
    by (rule runs_cong [OF _ runs_state [where p = "\<lambda>st. parse_named (parse_statement (d + 1)) (tk_offset (ps_cur st))"]])
      (simp_all add: s)
qed

theorem statement_parses:
  "plain_nodes [x] \<Longrightarrow> nodes_fit d [x] \<Longrightarrow> runs n (parse_statement d) (node_tokens opts [x] @ ts) (builds x) ts"
proof (induction x arbitrary: d ts)
  case (NdAssignment path v)
  then show ?case by (intro statement_of(2) runs_named_assignment) simp_all
next
  case (NdBlock name label children)
  have "node_parser (parse_statement (d + 1)) n opts (set children)"
  proof
    fix x ts assume x: "x \<in> set children"
    with NdBlock.prems have "plain_nodes [x]" "nodes_fit (d + 1) [x]"
      by (auto intro: plain_nodes_member nodes_fit_member)
    with NdBlock.IH [OF x] show "runs n (parse_statement (d + 1)) (node_tokens opts [x] @ ts) (builds x) ts" .
  next
    fix x assume "x \<in> set children"
    with NdBlock.prems show "plain_nodes [x]" by (auto intro: plain_nodes_member)
  qed
  with NdBlock.prems show ?case by (intro statement_of(2) runs_named_block) (auto split: option.split)
next
  case (NdInclude path)
  then show ?case by (intro statement_of(1) runs_include) simp_all
qed

interpretation printed_nodes: node_parser "parse_statement d" n opts "{x. plain_nodes [x] \<and> nodes_fit d [x]}" for d n opts
  by standard (simp_all add: statement_parses)

theorem serialize_parse:
  assumes "plain_nodes doc" "nodes_fit 1 doc"
  shows "cs_parse (bytes_of_string (serialize doc opts)) = Inr doc"
proof -
  let ?data = "bytes_of_string (serialize doc opts)"
  obtain st where st: "parser_new ?data = Inr st" "ps_ok (length ?data) st" "ps_at st (node_tokens opts doc)"
    by (rule parser_new_at [OF serialized_tokens [OF assms(1)]])
  have members: "set doc \<subseteq> {x. plain_nodes [x] \<and> nodes_fit 1 [x]}"
    using assms by (auto intro: plain_nodes_member nodes_fit_member)
  have "runs (length ?data) parse_document (node_tokens opts doc) (list_all2 builds doc) []"
    unfolding parse_document_def [abs_def]
    by (rule runs_fuel [where f = "\<lambda>k. document_loop k (parse_statement 1)" and K = "Suc (length doc)"])
      (rule printed_nodes.document_loop_nodes [OF members], simp, erule (1) statement.document_fuel)
  then obtain sts st' where "parse_document st = Inr (sts, st')" "list_all2 builds doc sts"
    using st(2,3) by (rule runsD)
  with st(1) show ?thesis by (simp add: cs_parse_def builds_all)
qed

end
