(* ===== verification/Cs_Limits.thy ===== *)
theory Cs_Limits
  imports Cs_Round_Trip
begin

text \<open>
  Where the promises of the language end: the integer \<open>- 2 ^ 63\<close> prints as text that does not parse, and
  a flat chain of operators that the parser accepts is too deep for the evaluator.
\<close>

section \<open>The smallest integer\<close>

text \<open>A minus sign in front of something the tokenizer rejects.\<close>

lemma assignment_breaks:
  assumes 1: "lexer_next (lexer_new data) = Inr (t1, lx1)" "tk_kind t1 = TkIdent"
    and 2: "lexer_next lx1 = Inr (t2, lx2)" "tk_kind t2 = TkAssign"
    and 3: "lexer_next lx2 = Inr (t3, lx3)" "tk_kind t3 = TkMinus"
    and 4: "lexer_next lx3 = Inl e"
  shows "cs_parse data = Inl e"
proof -
  let ?st1 = "\<lparr>ps_lexer = lx1, ps_cur = t1\<rparr>" and ?st2 = "\<lparr>ps_lexer = lx2, ps_cur = t2\<rparr>"
    and ?st3 = "\<lparr>ps_lexer = lx3, ps_cur = t3\<rparr>"
  have take: "ps_take ?st1 = Inr (t1, ?st2)" "ps_take ?st2 = Inr (t2, ?st3)" "ps_take ?st3 = Inl e"
    using 2 3 4 by (simp_all add: ps_take_def)
  have "parse_unary 2 ?st3 = Inl e"
    using 3 take(3) by (simp add: parse_unary.simps [of 2] kMaxDepth_def ps_check_def ps_bind_def)
  then have "parse_ternary 1 ?st3 = Inl e"
    by (simp add: parse_ternary.simps [of "Suc 0"] parse_binary.simps [of _ "Suc 0"] kMaxDepth_def ps_bind_def
        numeral_2_eq_2)
  then have assignment: "parse_assignment path off ?st2 = Inl e" for path off
    using 2 take(2) by (simp add: parse_assignment_def parse_expr_def ps_bind_def ps_expect_def)
  have "path_loop k ?st2 = Inr ([], ?st2)" for k
    using 2 by (cases k) (simp_all add: ps_bind_def ps_accept_def ps_check_def ps_return_def)
  with assignment have "parse_statement 1 ?st1 = Inl e"
    using 1 2 take(1)
    by (simp add: parse_statement.simps [of "Suc 0"] kMaxDepth_def ps_check_def Let_def parse_named_def ps_bind_def
        ps_expect_def)
  moreover obtain k where "ps_weight ?st1 = Suc k" using 1 by (cases "ps_weight ?st1") (simp_all add: ps_weight_def)
  ultimately have "parse_document ?st1 = Inl e"
    using 1 by (simp add: parse_document_def ps_bind_def ps_accept_def ps_check_def)
  with 1 show ?thesis by (simp add: cs_parse_def parser_new_def)
qed

lemma smallest_integer_breaks:
  assumes c: "is_name c"
  shows "\<exists>off. cs_parse (bytes_of_string (serialize [NdAssignment [c] (VInt int64_min)] opts)) =
    Inl (ParseError kBadLength off ''numeric literal out of range'')"
proof -
  let ?data = "bytes_of_string (serialize [NdAssignment [c] (VInt int64_min)] opts)"
  let ?digits = "bytes_of_string (dec_of_nat (2 ^ 63)) @ 0x3B # 0x0A # []"
  have min: "sint int64_min = - (2 ^ 63)" by (simp add: int64_min_def)
  have data: "?data = bytes_of_string c @ 0x20 # 0x3D # 0x20 # 0x2D # ?digits"
    by (simp add: serialize_def ser_indent_def min dec_of_int_def punctuation_bytes)
  have word: "lexes ?data (text_token TkIdent c) (0x20 # 0x3D # 0x20 # 0x2D # ?digits)"
    unfolding data using lexes_word [of c "0x20 # 0x3D # 0x20 # 0x2D # ?digits"] c by (simp add: is_name_def)
  obtain t1 lx1 where 1: "lexer_next (lexer_new ?data) = Inr (t1, lx1)" "tok_view t1 = text_token TkIdent c"
    "lx_rest lx1 = 0x20 # 0x3D # 0x20 # 0x2D # ?digits"
    by (rule lexesD [OF word rest_new])
  have "lexes (0x20 # 0x3D # 0x20 # 0x2D # ?digits) (plain_token TkAssign) (0x20 # 0x2D # ?digits)"
    by (intro lexes_space lexes_assign) (simp_all add: is_space_def)
  from lexesD [OF this 1(3)] obtain t2 lx2 where 2: "lexer_next lx1 = Inr (t2, lx2)" "tok_view t2 = plain_token TkAssign"
    "lx_rest lx2 = 0x20 # 0x2D # ?digits" by blast
  have "lexes (0x20 # 0x2D # ?digits) (plain_token TkMinus) ?digits"
    by (intro lexes_space lexes_simple) (simp_all add: is_space_def simple_token_def)
  from lexesD [OF this 2(3)] obtain t3 lx3 where 3: "lexer_next lx2 = Inr (t3, lx3)" "tok_view t3 = plain_token TkMinus"
    "lx_rest lx3 = ?digits" by blast
  have "ends_number (0x3B # 0x0A # [])" by simp
  from int_out_of_range [OF order_refl this 3(3)]
  have 4: "lexer_next lx3 = Inl (ParseError kBadLength (lx_pos lx3) ''numeric literal out of range'')" .
  have "tk_kind t1 = TkIdent" "tk_kind t2 = TkAssign" "tk_kind t3 = TkMinus"
    using 1(2) 2(2) 3(2) by (auto dest: arg_cong [where f = tk_kind])
  from assignment_breaks [OF 1(1) this(1) 2(1) this(2) 3(1) this(3) 4] show ?thesis by blast
qed

section \<open>One assignment\<close>

text \<open>A text that is the assignment of an expression to a name.\<close>

lemma document_loop_single:
  assumes "runs n child ts Q []" "next_kind ts \<notin> {TkEof, TkSemicolon}" "2 \<le> k"
  shows "runs n (document_loop k child) ts (\<lambda>ss. \<exists>s. ss = [s] \<and> Q s) []"
proof -
  obtain j where k: "k = Suc (Suc j)" using assms(3) by (metis add_2_eq_Suc le_Suc_ex)
  have rest: "runs n (document_loop (Suc j) child) [] (\<lambda>ss. ss = []) []"
    unfolding document_loop.simps(2) [abs_def] by (rule runs_check) (simp_all add: runs_Inr)
  have "runs n (ps_bind child (\<lambda>s. ps_bind (document_loop (Suc j) child) (\<lambda>ss. ps_return (s # ss))))
      ts (\<lambda>ss. \<exists>s. ss = [s] \<and> Q s) []"
    by (rule runs_bind [OF assms(1)], rule runs_bind [OF rest], rule runs_return) simp
  with assms(2) show ?thesis
    unfolding k document_loop.simps(2) [abs_def, of "Suc j"]
    by (intro runs_check runs_bind [OF runs_accept_no]) auto
qed

lemma single_assignment:
  assumes source: "yields data (text_token TkIdent c # plain_token TkAssign # rhs @ [plain_token TkSemicolon])"
    and rhs: "\<And>n. runs n (parse_ternary 1) (rhs @ [plain_token TkSemicolon]) Q [plain_token TkSemicolon]"
  obtains st off e st' where "parser_new data = Inr st"
    "parse_document st = Inr ([StAssignment off [c] e], st')" "Q e"
proof -
  let ?rhs = "rhs @ [plain_token TkSemicolon]"
  let ?ts = "text_token TkIdent c # plain_token TkAssign # ?rhs"
  let ?Q = "\<lambda>s. \<exists>off e. s = StAssignment off [c] e \<and> Q e" and ?m = "length data"
  obtain st where st: "parser_new data = Inr st" "ps_ok ?m st" "ps_at st ?ts"
    by (rule parser_new_at [OF source])
  have assignment: "runs ?m (parse_assignment [c] off) (plain_token TkAssign # ?rhs) ?Q []" for off
    unfolding parse_assignment_def parse_expr_def
    by (rule runs_bind [OF runs_expect], simp, rule runs_bind [OF rhs],
        rule runs_bind [OF runs_expect], simp, rule runs_return) blast
  have names: "runs ?m (\<lambda>st. path_loop (ps_weight st) st) (plain_token TkAssign # ?rhs) (\<lambda>p. p = [])
      (plain_token TkAssign # ?rhs)"
    by (rule runs_fuel [where f = path_loop and K = 1])
      (use runs_path_loop [of "[]" _ "plain_token TkAssign # ?rhs"] in \<open>simp add: path_tokens_def\<close>, erule (1) path_fuel)
  have "runs ?m (ps_bind (\<lambda>st. path_loop (ps_weight st) st) (\<lambda>path. parse_assignment (c # path) off))
      (plain_token TkAssign # ?rhs) ?Q []" for off
    by (rule runs_bind [OF names]) (use assignment in simp)
  then have "runs ?m (parse_named (parse_statement (1 + 1)) off) ?ts ?Q []" for off
    unfolding parse_named_def
    by (auto dest!: arg_cong [where f = tk_text] intro!: runs_bind [OF runs_expect] runs_check)
  then have statement: "runs ?m (parse_statement 1) ?ts ?Q []"
    by (intro statement_of(2)) (simp_all add: kMaxDepth_def)
  have "runs ?m (document_loop k (parse_statement 1)) ?ts (\<lambda>ss. \<exists>s. ss = [s] \<and> ?Q s) []" if "2 \<le> k" for k
    by (rule document_loop_single [OF statement _ that]) simp
  then have "runs ?m parse_document ?ts (\<lambda>ss. \<exists>s. ss = [s] \<and> ?Q s) []"
    unfolding parse_document_def [abs_def]
    by (rule runs_fuel [where f = "\<lambda>k. document_loop k (parse_statement 1)" and K = 2])
      (assumption, erule (1) statement.document_fuel)
  then obtain ss st' where "parse_document st = Inr (ss, st')" "\<exists>s. ss = [s] \<and> ?Q s"
    using st(2,3) by (rule runsD)
  with st(1) that show thesis by blast
qed

section \<open>Infinities\<close>

text \<open>An infinity prints as a word, which reads as the name of a variable.\<close>

lemma infinity_text: "dbl_to_text (dbl_inf False) = ''inf''"
  by (simp add: dbl_to_text_def dbl_inf_def dbl_bits_def dbl_is_nan_def dbl_is_inf_def dbl_biased_def
      dbl_fraction_def dbl_sign_def)

lemma ident_runs: "runs n (parse_primary d) (text_token TkIdent name # ts) (\<lambda>e. \<exists>off. e = EIdent off name) ts"
  if "d \<le> kMaxDepth"
proof (rule runs_cong)
  let ?p = "\<lambda>st. ps_bind ps_take (\<lambda>_. ps_return (EIdent (tk_offset (ps_cur st)) name))"
  show "runs n (\<lambda>st. ?p st st) (text_token TkIdent name # ts) (\<lambda>e. \<exists>off. e = EIdent off name) ts"
    by (rule runs_state [where p = ?p]) (rule runs_bind [OF runs_take runs_return], blast)
  fix st assume at: "ps_at st (text_token TkIdent name # ts)"
  then have "tok_view (ps_cur st) = text_token TkIdent name" by (simp add: ps_at_def)
  then have "tk_kind (ps_cur st) = TkIdent" "tk_text (ps_cur st) = name"
    by (auto dest: arg_cong [where f = tk_kind] arg_cong [where f = tk_text])
  with that show "parse_primary d st = ?p st st"
    by (simp add: parse_primary.simps [of d] primary_of_def Let_def)
qed

theorem infinity_breaks:
  assumes c: "is_name c"
  shows "\<exists>off. cs_parse (bytes_of_string (serialize [NdAssignment [c] (VFloat (dbl_inf False))] opts)) =
    Inl (ParseError kStateViolation off (''unknown identifier '' @ cs_quoted ''inf''))"
proof -
  let ?data = "bytes_of_string (serialize [NdAssignment [c] (VFloat (dbl_inf False))] opts)"
  have inf: "is_name ''inf''" by code_simp
  have data: "?data = bytes_of_string c @ 0x20 # 0x3D # 0x20 # bytes_of_string ''inf'' @ 0x3B # 0x0A # []"
    by (simp add: serialize_def ser_indent_def infinity_text punctuation_bytes)
  have "yields (bytes_of_string ''inf'' @ 0x3B # 0x0A # []) [text_token TkIdent ''inf'', plain_token TkSemicolon]"
    by (rule yields_name [OF inf]) (auto intro!: yields_punctuation yields_blank yields_end)
  then have "yields ?data (text_token TkIdent c # plain_token TkAssign # [text_token TkIdent ''inf''] @ [plain_token TkSemicolon])"
    unfolding data by (intro yields_name [OF c] yields_blank yields_equals) (simp_all add: yields_blank)
  moreover have "runs n (parse_ternary 1) ([text_token TkIdent ''inf''] @ [plain_token TkSemicolon])
      (\<lambda>e. \<exists>off. e = EIdent off ''inf'') [plain_token TkSemicolon]" for n
    by (rule ternary_of_primary) (use ident_runs in \<open>auto simp: kMaxDepth_def\<close>)
  ultimately obtain st off e st' where st: "parser_new ?data = Inr st"
    "parse_document st = Inr ([StAssignment off [c] e], st')" "\<exists>off. e = EIdent off ''inf''"
    by (rule single_assignment)
  then show ?thesis
    by (auto simp: cs_parse_def require_depth_def kMaxDepth_def env_root_def eval_error_def)
qed

section \<open>Flat chains\<close>

text \<open>The source \<open>c = 1+1+...+1;\<close> with \<open>n\<close> plus signs, and the left-leaning tree of its right side.\<close>

definition chain_text :: "string \<Rightarrow> nat \<Rightarrow> string" where
  "chain_text c n = c @ '' = 1'' @ concat (replicate n ''+1'') @ '';''"

fun left_chain :: "nat \<Rightarrow> expr \<Rightarrow> bool" where
  "left_chain 0 e \<longleftrightarrow> (\<exists>off. e = EInt off 1)"
| "left_chain (Suc n) e \<longleftrightarrow> (\<exists>off off' l. e = EBinary off TkPlus l (EInt off' 1) \<and> left_chain n l)"

definition chain_tokens :: "nat \<Rightarrow> token list" where
  "chain_tokens n = concat (replicate n [plain_token TkPlus, int_token 1])"

lemma chain_tokens_simps [simp]:
  "chain_tokens 0 = []" "chain_tokens (Suc n) = plain_token TkPlus # int_token 1 # chain_tokens n"
  by (simp_all add: chain_tokens_def)

lemma yields_one: "ends_number bs \<Longrightarrow> yields bs ts \<Longrightarrow> yields (0x31 # bs) (int_token 1 # ts)"
proof -
  have "bytes_of_string (dec_of_nat 1) = [0x31]" by code_simp
  then show "ends_number bs \<Longrightarrow> yields bs ts \<Longrightarrow> yields (0x31 # bs) (int_token 1 # ts)"
    using yields_int [of 1 bs ts] by simp
qed

lemma chain_bytes: "byte_of_char (CHR ''1'') = 0x31" "byte_of_char (CHR ''+'') = 0x2B"
  by code_simp+

lemma yields_chain_tail:
  "yields (bytes_of_string (concat (replicate n ''+1'') @ '';'')) (chain_tokens n @ [plain_token TkSemicolon]) \<and>
   ends_number (bytes_of_string (concat (replicate n ''+1'') @ '';''))"
proof (induction n)
  case 0
  then show ?case by (simp add: punctuation_bytes yields_punctuation yields_end)
next
  case (Suc n)
  then show ?case
    by (auto simp: chain_bytes ends_number_def is_digit_def simple_token_def intro!: yields_simple yields_one)
qed

lemma yields_chain:
  assumes "is_name c"
  shows "yields (bytes_of_string (chain_text c n))
    (text_token TkIdent c # plain_token TkAssign # int_token 1 # chain_tokens n @ [plain_token TkSemicolon])"
  using assms yields_chain_tail [of n]
  by (auto simp: chain_text_def punctuation_bytes chain_bytes intro!: yields_name yields_blank yields_equals yields_one)

lemma operand_runs:
  assumes "d + 1 \<le> kMaxDepth" "binary_precedence (next_kind ts) < prec"
  shows "runs n (parse_binary prec d) (int_token 1 # ts) (\<lambda>e. \<exists>off. e = EInt off 1) ts"
proof -
  have d: "\<not> kMaxDepth < d" using assms(1) by simp
  have leaf: "runs n (parse_unary (d + 1)) (int_token 1 # ts) (\<lambda>e. \<exists>off. e = EInt off 1) ts"
    by (rule unary_of_primary; (rule runs_leaf)?) (use assms(1) in auto)
  show ?thesis
    unfolding parse_binary.simps [of prec d] if_not_P [OF d]
    by (rule runs_bind [OF leaf], rule runs_cong [OF _ runs_Inr])
      (use assms(2) in \<open>auto simp: at_kind binary_loop_stops\<close>)
qed

lemma chain_loop:
  assumes d: "d + 1 \<le> kMaxDepth"
  shows "left_chain m lhs \<Longrightarrow> k \<le> j \<Longrightarrow>
    runs n (binary_loop j (\<lambda>prec. parse_binary (prec + 1) d) 1 lhs) (chain_tokens k @ plain_token TkSemicolon # ts)
      (left_chain (m + k)) (plain_token TkSemicolon # ts)"
proof (induction k arbitrary: m lhs j)
  case 0
  have stops: "binary_loop j (\<lambda>prec. parse_binary (prec + 1) d) 1 lhs st = Inr (lhs, st)"
    if "ps_at st (plain_token TkSemicolon # ts)" for st
    by (rule binary_loop_stops) (simp add: at_kind [OF that])
  show ?case
    unfolding chain_tokens_simps append_Nil add_0_right
    by (rule runs_cong [OF _ runs_Inr]) (rule stops, assumption, rule 0(1))
next
  case (Suc k)
  then obtain i where j: "j = Suc i" "k \<le> i" by (cases j) auto
  have operand: "runs n (parse_binary (10 + 1) d) (int_token 1 # chain_tokens k @ plain_token TkSemicolon # ts)
      (\<lambda>e. \<exists>off. e = EInt off 1) (chain_tokens k @ plain_token TkSemicolon # ts)"
    by (rule operand_runs [OF d]) (cases k; simp)
  have "runs n (ps_bind ps_take (\<lambda>opr. ps_bind (parse_binary (10 + 1) d) (\<lambda>rhs.
        binary_loop i (\<lambda>prec. parse_binary (prec + 1) d) 1 (EBinary (tk_offset opr) (tk_kind opr) lhs rhs))))
      (plain_token TkPlus # int_token 1 # chain_tokens k @ plain_token TkSemicolon # ts)
      (left_chain (Suc m + k)) (plain_token TkSemicolon # ts)"
  proof (rule runs_bind [OF runs_take], rule runs_bind [OF operand])
    fix opr rhs assume "tok_view opr = plain_token TkPlus" "\<exists>off. rhs = EInt off 1"
    then have "left_chain (Suc m) (EBinary (tk_offset opr) (tk_kind opr) lhs rhs)"
      using Suc.prems(1) by (auto dest: arg_cong [where f = tk_kind])
    from Suc.IH [OF this j(2)] show "runs n (binary_loop i (\<lambda>prec. parse_binary (prec + 1) d) 1
        (EBinary (tk_offset opr) (tk_kind opr) lhs rhs)) (chain_tokens k @ plain_token TkSemicolon # ts)
        (left_chain (Suc m + k)) (plain_token TkSemicolon # ts)" .
  qed
  moreover have "binary_precedence (tk_kind (ps_cur st)) = 10"
    if "ps_at st (plain_token TkPlus # int_token 1 # chain_tokens k @ plain_token TkSemicolon # ts)" for st
    using at_kind [OF that] by simp
  ultimately show ?case
    unfolding j(1) binary_loop.simps(2) [abs_def] chain_tokens_simps append_Cons add_Suc_shift
    by (elim runs_cong [rotated]) (simp only: Let_def, simp)
qed

lemma ternary_chain: "runs m (parse_ternary 1) (int_token 1 # chain_tokens n @ plain_token TkSemicolon # ts)
    (left_chain n) (plain_token TkSemicolon # ts)"
proof -
  let ?after = "chain_tokens n @ plain_token TkSemicolon # ts"
  have d: "\<not> kMaxDepth < 1" "1 + 1 + 1 \<le> kMaxDepth" by (simp_all add: kMaxDepth_def)
  have loop: "runs m (\<lambda>st. binary_loop (ps_weight st) (\<lambda>prec. parse_binary (prec + 1) (1 + 1)) 1 lhs st)
      ?after (left_chain n) (plain_token TkSemicolon # ts)" if "\<exists>off. lhs = EInt off 1" for lhs
  proof (rule runs_fuel [where f = "\<lambda>k. binary_loop k (\<lambda>prec. parse_binary (prec + 1) (1 + 1)) 1 lhs" and K = n])
    fix k assume "n \<le> k"
    moreover have "left_chain 0 lhs" using that by simp
    ultimately show "runs m (binary_loop k (\<lambda>prec. parse_binary (prec + 1) (1 + 1)) 1 lhs) ?after (left_chain n)
        (plain_token TkSemicolon # ts)"
      using chain_loop [OF d(2), of 0 lhs n k] by simp
  qed (rule binary.loop_fuel, simp_all)
  have leaf: "runs m (parse_unary (1 + 1)) (int_token 1 # ?after) (\<lambda>e. \<exists>off. e = EInt off 1) ?after"
    by (rule unary_of_primary; (rule runs_leaf)?) (auto simp: kMaxDepth_def)
  have binary: "runs m (parse_binary 1 1) (int_token 1 # ?after) (left_chain n) (plain_token TkSemicolon # ts)"
    unfolding parse_binary.simps [of 1 1] if_not_P [OF d(1)] by (rule runs_bind [OF leaf loop])
  show ?thesis
    unfolding parse_ternary.simps [of 1] if_not_P [OF d(1)]
    by (rule runs_bind [OF binary], rule runs_check) (simp_all add: runs_Inr)
qed

lemma chain_parses:
  assumes c: "is_name c"
  obtains st off e st' where "parser_new (bytes_of_string (chain_text c n)) = Inr st"
    "parse_document st = Inr ([StAssignment off [c] e], st')" "left_chain n e"
  by (rule single_assignment [where rhs = "int_token 1 # chain_tokens n" and Q = "left_chain n"])
    (use yields_chain [OF c, of n] ternary_chain [where ts = "[]"] in \<open>simp_all\<close>)

text \<open>The evaluator walks down the left spine: every plus sign is one level.\<close>

lemma left_chain_value:
  "left_chain n e \<Longrightarrow> d + n \<le> kMaxDepth \<Longrightarrow> evaluate e env d = Inr (VInt (of_nat (Suc n)))"
proof (induction n arbitrary: e d)
  case 0
  then show ?case by (auto simp: require_depth_def)
next
  case (Suc n)
  then obtain off off' l where e: "e = EBinary off TkPlus l (EInt off' 1)" "left_chain n l" by auto
  have "evaluate l env (d + 1) = Inr (VInt (of_nat (Suc n)))" using Suc.IH [OF e(2)] Suc.prems(2) by simp
  with Suc.prems(2) show ?case by (simp add: e(1) require_depth_def eval_binary_def eval_arith_def is_number_def add.commute)
qed

lemma left_chain_too_deep:
  "left_chain n e \<Longrightarrow> d \<le> kMaxDepth \<Longrightarrow> kMaxDepth < d + n \<Longrightarrow>
     \<exists>off msg. evaluate e env d = Inl (ParseError kDepthExceeded off msg)"
proof (induction n arbitrary: e d)
  case (Suc n)
  then obtain off off' l where e: "e = EBinary off TkPlus l (EInt off' 1)" "left_chain n l" by auto
  have "\<exists>off msg. evaluate l env (d + 1) = Inl (ParseError kDepthExceeded off msg)"
  proof (cases "d + 1 \<le> kMaxDepth")
    case True
    with Suc.IH [OF e(2)] Suc.prems(3) show ?thesis by simp
  next
    case False
    then show ?thesis using e(2) by (cases n) (auto simp: require_depth_def eval_error_def)
  qed
  with Suc.prems(2) show ?case by (auto simp: e(1) require_depth_def)
qed simp

theorem chain_limit:
  assumes "is_name c"
  shows "(\<exists>st r. parser_new (bytes_of_string (chain_text c n)) = Inr st \<and> parse_document st = Inr r) \<and>
    (if n < kMaxDepth then cs_parse (bytes_of_string (chain_text c n)) = Inr [NdAssignment [c] (VInt (of_nat (Suc n)))]
     else \<exists>off msg. cs_parse (bytes_of_string (chain_text c n)) = Inl (ParseError kDepthExceeded off msg))"
proof -
  obtain st off e st' where st: "parser_new (bytes_of_string (chain_text c n)) = Inr st"
    "parse_document st = Inr ([StAssignment off [c] e], st')" and e: "left_chain n e" by (rule chain_parses [OF assms])
  let ?s = "StAssignment off [c] e"
  have "cs_parse (bytes_of_string (chain_text c n)) = build_nodes [?s] env_root" using st by (simp add: cs_parse_def)
  moreover have "\<exists>off msg. build_nodes [?s] env_root = Inl (ParseError kDepthExceeded off msg)" if "\<not> n < kMaxDepth"
    using left_chain_too_deep [OF e, of 1 env_root] that by (auto simp: kMaxDepth_def)
  ultimately show ?thesis
    using st(1,2) left_chain_value [OF e, of 1 env_root] by auto
qed

end
