(* ===== verification/Cs_Wellformed.thy ===== *)
theory Cs_Wellformed
  imports Cs_Round_Trip
begin

text \<open>
  What a parsed document looks like. Every production promises its result: the trees use identifiers for
  names and keys, the operators of their table and offsets inside the input; the contract is the locale
  \<open>producing\<close>, the laws of the loops are proved inside it. The evaluator keeps the promise for values,
  and fails only where the tree came from, with the codes of its own.
\<close>

section \<open>Names\<close>

definition word_token :: "token \<Rightarrow> bool" where
  "word_token t \<longleftrightarrow> (tk_kind t = TkIdent \<longrightarrow> is_name (tk_text t))"

lemma word_token_other: "tk_kind t \<noteq> TkIdent \<Longrightarrow> word_token t"
  by (simp add: word_token_def)

lemma ident_is_word:
  assumes "\<not> lx_at_end lx" "is_ident_start (lx_peek 0 lx)"
  shows "is_word (lexeme (lx_pos lx) (lx_skip_while is_ident_part lx))"
proof -
  obtain b bs where lx: "lx_rest lx = b # bs" using assms(1) by (cases "lx_rest lx") (auto simp: rest_at_end)
  then have b: "is_ident_start b" using assms(2) by (simp add: rest_peek)
  then have "is_ident_part b" by (auto simp: is_ident_part_def)
  with b show ?thesis
    by (auto simp: lexeme_skip_while lx is_word_def string_of_bytes_def list_all_iff dest: set_takeWhileD)
qed

lemma token_word:
  assumes "lex_token lx = Inr (t, lx')"
  shows "word_token t"
proof (cases "\<not> lx_at_end lx \<and> is_ident_start (lx_peek 0 lx)")
  case True
  with ident_is_word [of lx] assms show ?thesis
    by (auto simp: lex_token_def lex_ident_or_keyword_def Let_def word_token_def is_name_def)
next
  case False
  have "tk_kind t \<noteq> TkIdent"
    using assms False
    by (auto simp: lex_token_def Let_def lex_number_def lex_string_def lex_operator_def lx_error_def bindE_eq_Inr
        simple_token_def longer_token_def split: if_splits prod.splits option.splits)
  then show ?thesis by (rule word_token_other)
qed

lemma next_word: "lexer_next lx = Inr (t, lx') \<Longrightarrow> word_token t"
  by (auto simp: lexer_next_def bindE_eq_Inr dest: token_word)

section \<open>Contracts\<close>

definition ps_wf :: "nat \<Rightarrow> parser \<Rightarrow> bool" where
  "ps_wf n st \<longleftrightarrow> ps_ok n st \<and> word_token (ps_cur st)"

text \<open>A token the parser took.\<close>

definition token_wf :: "nat \<Rightarrow> token \<Rightarrow> bool" where
  "token_wf n t \<longleftrightarrow> tk_offset t \<le> n \<and> word_token t"

definition delivers :: "nat \<Rightarrow> ('a \<times> parser) result \<Rightarrow> ('a \<Rightarrow> bool) \<Rightarrow> bool" where
  "delivers n r Q \<longleftrightarrow> (\<forall>x st. r = Inr (x, st) \<longrightarrow> Q x \<and> ps_wf n st)"

lemma deliversI: "(\<And>x st. r = Inr (x, st) \<Longrightarrow> Q x \<and> ps_wf n st) \<Longrightarrow> delivers n r Q"
  by (simp add: delivers_def)

lemma deliversD: "delivers n (Inr (x, st)) Q \<Longrightarrow> Q x \<and> ps_wf n st"
  by (simp add: delivers_def)

lemma delivers_Inr: "Q x \<Longrightarrow> ps_wf n st \<Longrightarrow> delivers n (Inr (x, st)) Q"
  by (simp add: delivers_def)

lemma delivers_return: "Q x \<Longrightarrow> ps_wf n st \<Longrightarrow> delivers n (ps_return x st) Q"
  by (simp add: ps_return_def delivers_Inr)

lemma delivers_fails [simp]: "delivers n (Inl e) Q" "delivers n (ps_error at msg st) Q" "delivers n (ps_too_deep at st) Q"
  by (simp_all add: delivers_def ps_error_def ps_too_deep_def)

lemma delivers_bind:
  assumes "delivers n (m st) P" and "\<And>x st'. P x \<Longrightarrow> ps_wf n st' \<Longrightarrow> delivers n (f x st') Q"
  shows "delivers n (ps_bind m f st) Q"
  using assms by (fastforce simp: delivers_def ps_bind_def bindE_eq_Inr)

lemma delivers_if: "(c \<Longrightarrow> delivers n a Q) \<Longrightarrow> (\<not> c \<Longrightarrow> delivers n b Q) \<Longrightarrow> delivers n (if c then a else b) Q"
  by simp

lemma wf_current: "ps_wf n st \<Longrightarrow> token_wf n (ps_cur st)"
  by (simp add: ps_wf_def token_wf_def ps_ok_def)

lemma delivers_take: "ps_wf n st \<Longrightarrow> delivers n (ps_take st) (\<lambda>t. t = ps_cur st \<and> token_wf n t)"
proof (rule deliversI)
  fix t st' assume st: "ps_wf n st" and t: "ps_take st = Inr (t, st')"
  then have "word_token (ps_cur st')" by (auto simp: ps_take_def bindE_eq_Inr dest: next_word)
  with take_ok [OF _ t] st wf_current [OF st] show "(t = ps_cur st \<and> token_wf n t) \<and> ps_wf n st'"
    by (auto simp: ps_wf_def)
qed

lemma delivers_expect:
  "ps_wf n st \<Longrightarrow> delivers n (ps_expect kind what st) (\<lambda>t. tk_kind t = kind \<and> token_wf n t)"
  using delivers_take [of n st] by (auto simp: ps_expect_def delivers_def ps_error_def)

lemma delivers_accept: "ps_wf n st \<Longrightarrow> delivers n (ps_accept kind st) (\<lambda>_. True)"
  using delivers_take [of n st]
  by (auto simp: ps_accept_def delivers_def ps_bind_def ps_return_def bindE_eq_Inr)

text \<open>The rules for a production in front of another.\<close>

lemma bind_take:
  assumes "ps_wf n st" "\<And>st'. token_wf n (ps_cur st) \<Longrightarrow> ps_wf n st' \<Longrightarrow> delivers n (f (ps_cur st) st') Q"
  shows "delivers n (ps_bind ps_take f st) Q"
  by (rule delivers_bind, rule delivers_take) (use assms in auto)

lemma bind_expect:
  assumes "ps_wf n st"
    and "\<And>t st'. tk_kind t = kind \<Longrightarrow> token_wf n t \<Longrightarrow> ps_wf n st' \<Longrightarrow> delivers n (f t st') Q"
  shows "delivers n (ps_bind (ps_expect kind what) f st) Q"
  by (rule delivers_bind, rule delivers_expect) (use assms in auto)

lemma bind_accept:
  assumes "ps_wf n st" "\<And>b st'. ps_wf n st' \<Longrightarrow> delivers n (f b st') Q"
  shows "delivers n (ps_bind (ps_accept kind) f st) Q"
  by (rule delivers_bind, rule delivers_accept) (use assms in auto)

lemma ident_text: "tk_kind t = TkIdent \<Longrightarrow> token_wf n t \<Longrightarrow> is_name (tk_text t)"
  by (simp add: token_wf_def word_token_def)

locale producing =
  fixes p :: "'a ps" and n :: nat and Q :: "'a \<Rightarrow> bool"
  assumes produces: "ps_wf n st \<Longrightarrow> delivers n (p st) Q"
begin

lemma bind_child:
  assumes "ps_wf n st" "\<And>x st'. Q x \<Longrightarrow> ps_wf n st' \<Longrightarrow> delivers n (f x st') R"
  shows "delivers n (ps_bind p f st) R"
  by (rule delivers_bind, rule produces) (use assms in auto)

end

section \<open>Well-formed trees\<close>

fun wf_expr :: "nat \<Rightarrow> expr \<Rightarrow> bool" where
  "wf_expr n (EIdent off name) \<longleftrightarrow> off \<le> n \<and> is_name name"
| "wf_expr n (EArray off es) \<longleftrightarrow> off \<le> n \<and> (\<forall>e \<in> set es. wf_expr n e)"
| "wf_expr n (EObject off fs) \<longleftrightarrow> off \<le> n \<and> (\<forall>(k, e) \<in> set fs. is_name k \<and> wf_expr n e)"
| "wf_expr n (EUnary off opr e) \<longleftrightarrow> off \<le> n \<and> opr \<in> {TkMinus, TkBang, TkTilde} \<and> wf_expr n e"
| "wf_expr n (EBinary off opr a b) \<longleftrightarrow> off \<le> n \<and> 1 \<le> binary_precedence opr \<and> wf_expr n a \<and> wf_expr n b"
| "wf_expr n (ETernary off c a b) \<longleftrightarrow> off \<le> n \<and> wf_expr n c \<and> wf_expr n a \<and> wf_expr n b"
| "wf_expr n e \<longleftrightarrow> expr_offset e \<le> n"

text \<open>A statement at depth \<open>d\<close>.\<close>

fun wf_statement :: "nat \<Rightarrow> nat \<Rightarrow> statement \<Rightarrow> bool" where
  "wf_statement n d (StAssignment off path e) \<longleftrightarrow>
     d \<le> kMaxDepth \<and> off \<le> n \<and> path \<noteq> [] \<and> list_all is_name path \<and> wf_expr n e"
| "wf_statement n d (StBlock off name label children) \<longleftrightarrow>
     d \<le> kMaxDepth \<and> off \<le> n \<and> is_name name \<and> (\<forall>s \<in> set children. wf_statement n (d + 1) s)"
| "wf_statement n d (StInclude off path) \<longleftrightarrow> d \<le> kMaxDepth \<and> off \<le> n"

section \<open>Loops over expressions\<close>

locale producing_expressions = producing child n "wf_expr n" for child :: "expr ps" and n :: nat
begin

lemma array_producing: "producing (array_loop k child) n (list_all (wf_expr n))"
proof (induction k)
  case 0
  show ?case
    by (rule producing.intro) (auto intro!: bind_child delivers_return)
next
  case (Suc k)
  show ?case
    by (rule producing.intro) (auto intro!: bind_child bind_accept producing.bind_child [OF Suc] delivers_return delivers_Inr)
qed

lemma object_producing: "producing (object_loop k child off) n (list_all (\<lambda>(key, e). is_name key \<and> wf_expr n e))"
proof (induction k)
  case 0
  show ?case by (rule producing.intro) simp
next
  case (Suc k)
  have field: "delivers n (ps_bind (ps_expect TkIdent what) (\<lambda>key.
      ps_bind (ps_expect TkAssign what') (\<lambda>_. ps_bind child (\<lambda>v. ps_bind (ps_expect TkSemicolon what'') (\<lambda>_.
      ps_bind (object_loop k child off) (\<lambda>fields. ps_return ((tk_text key, v) # fields)))))) st)
      (list_all (\<lambda>(key, e). is_name key \<and> wf_expr n e))" if "ps_wf n st" for st what what' what''
    by (auto intro!: bind_expect [OF that] bind_expect bind_child producing.bind_child [OF Suc] delivers_return
        dest: ident_text)
  show ?case
    by (rule producing.intro) (auto intro!: delivers_Inr bind_accept field producing.produces [OF Suc])
qed

lemma array_literal_delivers: "ps_wf n st \<Longrightarrow> off \<le> n \<Longrightarrow> delivers n (parse_array child off depth st) (wf_expr n)"
proof -
  assume st: "ps_wf n st" and off: "off \<le> n"
  have "producing (\<lambda>st. if \<not> ps_check TkRBracket st then array_loop (ps_weight st) child st else Inr ([], st)) n
      (list_all (wf_expr n))"
    by (rule producing.intro) (simp add: producing.produces [OF array_producing] delivers_Inr)
  note elements = producing.bind_child [OF this]
  show ?thesis
    unfolding parse_array_def using st off
    by (auto simp: list_all_iff intro!: bind_expect elements delivers_return)
qed

lemma object_literal_delivers:
  "ps_wf n st \<Longrightarrow> off \<le> n \<Longrightarrow> delivers n (parse_object child off depth st) (wf_expr n)"
proof -
  assume st: "ps_wf n st" and off: "off \<le> n"
  have "producing (\<lambda>st. object_loop (ps_weight st) child off st) n (list_all (\<lambda>(key, e). is_name key \<and> wf_expr n e))"
    by (rule producing.intro) (rule producing.produces [OF object_producing])
  note fields = producing.bind_child [OF this]
  show ?thesis
    unfolding parse_object_def using st off
    by (auto simp: list_all_iff intro!: bind_expect fields delivers_return)
qed

lemma primary_delivers: "ps_wf n st \<Longrightarrow> delivers n (primary_of child depth st) (wf_expr n)"
proof -
  assume st: "ps_wf n st"
  then have off: "tk_offset (ps_cur st) \<le> n" and word: "tk_kind (ps_cur st) = TkIdent \<Longrightarrow> is_name (tk_text (ps_cur st))"
    using wf_current [OF st] by (auto simp: token_wf_def word_token_def)
  have leaf: "delivers n (ps_bind ps_take (\<lambda>_. ps_return e) st) (wf_expr n)" if "wf_expr n e" for e
    by (rule bind_take [OF st]) (simp add: that delivers_return)
  have paren: "delivers n (ps_bind ps_take (\<lambda>_. ps_bind child (\<lambda>inner.
      ps_bind (ps_expect TkRParen what) (\<lambda>_. ps_return inner))) st) (wf_expr n)" for what
    by (rule bind_take [OF st], rule bind_child, assumption,
        rule bind_expect, assumption, rule delivers_return)
  show "delivers n (primary_of child depth st) (wf_expr n)"
    by (cases "tk_kind (ps_cur st)")
      (simp_all add: primary_of_def Let_def leaf off word paren array_literal_delivers [OF st off]
        object_literal_delivers [OF st off])
qed

end

lemma binary_loop_delivers:
  assumes child: "\<And>prec. 1 \<le> prec \<Longrightarrow> producing (child prec) n (wf_expr n)" and min: "1 \<le> min_prec"
  shows "ps_wf n st \<Longrightarrow> wf_expr n lhs \<Longrightarrow> delivers n (binary_loop k child min_prec lhs st) (wf_expr n)"
proof (induction k arbitrary: lhs st)
  case 0
  then show ?case by (simp add: delivers_Inr)
next
  case (Suc k)
  let ?prec = "binary_precedence (tk_kind (ps_cur st))"
  have "delivers n (ps_bind ps_take (\<lambda>opr. ps_bind (child ?prec) (\<lambda>rhs.
      binary_loop k child min_prec (EBinary (tk_offset opr) (tk_kind opr) lhs rhs))) st) (wf_expr n)"
    if "\<not> ?prec < min_prec"
  proof (rule bind_take [OF Suc.prems(1)], rule producing.bind_child [OF child], use that min in simp, assumption)
    let ?opr = "ps_cur st"
    fix st1 rhs st2 assume "token_wf n ?opr" "wf_expr n rhs" "ps_wf n st2"
    then show "delivers n (binary_loop k child min_prec (EBinary (tk_offset ?opr) (tk_kind ?opr) lhs rhs) st2) (wf_expr n)"
      using Suc.prems that min by (intro Suc.IH) (auto simp: token_wf_def)
  qed
  with Suc.prems show ?case by (simp add: Let_def delivers_Inr)
qed

section \<open>Expressions\<close>

lemma productions_deliver:
  "Suc kMaxDepth - d \<le> k \<Longrightarrow>
     producing (parse_ternary d) n (wf_expr n) \<and> (\<forall>prec \<ge> 1. producing (parse_binary prec d) n (wf_expr n)) \<and>
     producing (parse_unary d) n (wf_expr n)"
proof (induction k arbitrary: d)
  case 0
  then show ?case
    by (auto simp: parse_ternary.simps [of d] parse_binary.simps [of _ d] parse_unary.simps [of d] intro!: producing.intro)
next
  case (Suc k)
  show ?case
  proof (cases "kMaxDepth < d")
    case True
    then show ?thesis
      by (auto simp: parse_ternary.simps [of d] parse_binary.simps [of _ d] parse_unary.simps [of d] intro!: producing.intro)
  next
    case False
    with Suc have inner: "producing (parse_ternary (d + 1)) n (wf_expr n)"
      "1 \<le> prec \<Longrightarrow> producing (parse_binary prec (d + 1)) n (wf_expr n)"
      "producing (parse_unary (d + 1)) n (wf_expr n)" for prec
      by simp_all
    note ternary_child = producing.bind_child [OF inner(1)] producing.bind_child [OF inner(1), simplified]
      and unary_child = producing.bind_child [OF inner(3)] producing.bind_child [OF inner(3), simplified]
    have primary: "delivers n (parse_primary d st) (wf_expr n)" if "ps_wf n st" for st
      unfolding parse_primary.simps [of d] if_not_P [OF False]
      by (rule producing_expressions.primary_delivers [OF producing_expressions.intro [OF inner(1)] that])
    have unary: "producing (parse_unary d) n (wf_expr n)"
      unfolding parse_unary.simps [of d] if_not_P [OF False]
      by (rule producing.intro)
        (auto simp: token_wf_def ps_check_def intro!: primary bind_take unary_child delivers_return)
    have binary: "producing (parse_binary prec d) n (wf_expr n)" if "1 \<le> prec" for prec
      unfolding parse_binary.simps [of prec d] if_not_P [OF False]
      by (rule producing.intro, erule unary_child, rule binary_loop_delivers [OF inner(2)]) (use that in auto)
    have "producing (parse_ternary d) n (wf_expr n)"
      unfolding parse_ternary.simps [of d] if_not_P [OF False]
      by (rule producing.intro, rule producing.bind_child [OF binary])
        (auto simp: token_wf_def intro!: bind_take ternary_child bind_expect delivers_return delivers_Inr)
    with unary binary show ?thesis by blast
  qed
qed

interpretation ternary_tree: producing "parse_ternary d" n "wf_expr n" for d n
  by (rule productions_deliver [OF order_refl, THEN conjunct1])

interpretation expression_tree: producing_expressions "parse_ternary d" n for d n
  by (rule producing_expressions.intro) (rule ternary_tree.producing_axioms)

section \<open>Statements\<close>

locale producing_statements = producing child n "wf_statement n d" for child :: "statement ps" and n :: nat and d :: nat
begin

lemma block_producing: "producing (block_loop k child off) n (list_all (wf_statement n d))"
proof (induction k)
  case (Suc k)
  then show ?case
    by (intro producing.intro)
      (auto intro!: delivers_Inr bind_accept bind_child producing.bind_child [OF Suc] producing.produces [OF Suc]
        delivers_return)
qed (simp add: producing.intro)

lemma document_producing: "producing (document_loop k child) n (list_all (wf_statement n d))"
proof (induction k)
  case (Suc k)
  then show ?case
    by (intro producing.intro)
      (auto intro!: delivers_Inr bind_accept bind_child producing.bind_child [OF Suc] producing.produces [OF Suc]
        delivers_return)
qed (simp add: producing.intro delivers_Inr)

end

lemma path_producing: "producing (path_loop k) n (list_all is_name)"
proof (induction k)
  case (Suc k)
  have "delivers n (ps_bind (ps_expect TkIdent what) (\<lambda>part.
      ps_bind (path_loop k) (\<lambda>path. ps_return (tk_text part # path))) st) (list_all is_name)" if "ps_wf n st" for what st
    by (auto intro!: bind_expect [OF that] producing.bind_child [OF Suc] delivers_return dest: ident_text)
  then show ?case by (intro producing.intro) (auto intro!: bind_accept delivers_return)
qed (simp add: producing.intro delivers_Inr)

lemma assignment_delivers:
  assumes "ps_wf n st" "path \<noteq> []" "list_all is_name path" "off \<le> n" "d \<le> kMaxDepth"
  shows "delivers n (parse_assignment path off st) (wf_statement n d)"
  unfolding parse_assignment_def parse_expr_def
  by (rule bind_expect [OF assms(1)], rule ternary_tree.bind_child, assumption,
      rule bind_expect, assumption, rule delivers_return) (use assms in auto)

lemma named_delivers:
  assumes child: "producing_statements child n (d + 1)" and d: "d \<le> kMaxDepth" and off: "off \<le> n" and st: "ps_wf n st"
  shows "delivers n (parse_named child off st) (wf_statement n d)"
proof -
  have "producing (\<lambda>st. block_loop (ps_weight st) child off st) n (list_all (wf_statement n (d + 1)))"
    by (rule producing.intro) (rule producing.produces [OF producing_statements.block_producing [OF child]])
  note children = producing.bind_child [OF this]
  have block: "delivers n (parse_block child name label off st) (wf_statement n d)" if "ps_wf n st" "is_name name" for name label st
    unfolding parse_block_def
    using that d off by (auto simp: list_all_iff intro!: bind_expect children delivers_return)
  have "producing (\<lambda>st. path_loop (ps_weight st) st) n (list_all is_name)"
    by (rule producing.intro) (rule producing.produces [OF path_producing])
  note path = producing.bind_child [OF this]
  have assignment: "delivers n (ps_bind (\<lambda>st. path_loop (ps_weight st) st) (\<lambda>path. parse_assignment (name # path) off) st)
      (wf_statement n d)" if "ps_wf n st" "is_name name" for name st
    by (rule path [OF that(1)], rule assignment_delivers) (use that d off in auto)
  show ?thesis
    unfolding parse_named_def
    by (rule bind_expect [OF st], drule (1) ident_text) (auto intro!: block assignment bind_take)
qed

lemma include_delivers:
  assumes "ps_wf n st" "off \<le> n" "d \<le> kMaxDepth"
  shows "delivers n (parse_include off st) (wf_statement n d)"
  unfolding parse_include_def
  by (auto simp: assms intro!: bind_take bind_expect delivers_return)

lemma statement_delivers: "Suc kMaxDepth - d \<le> k \<Longrightarrow> producing_statements (parse_statement d) n d"
proof (induction k arbitrary: d)
  case 0
  then show ?case by (auto simp: parse_statement.simps [of d] intro!: producing_statements.intro producing.intro)
next
  case (Suc k)
  show ?case
  proof (cases "kMaxDepth < d")
    case True
    then show ?thesis by (auto simp: parse_statement.simps [of d] intro!: producing_statements.intro producing.intro)
  next
    case False
    with Suc have child: "producing_statements (parse_statement (d + 1)) n (d + 1)" by simp
    have "delivers n (parse_statement d st) (wf_statement n d)" if st: "ps_wf n st" for st
      unfolding parse_statement.simps [of d] if_not_P [OF False] Let_def
      using False wf_current [OF st]
      by (intro delivers_if include_delivers named_delivers [OF child]) (simp_all add: st token_wf_def)
    then show ?thesis by (intro producing_statements.intro producing.intro)
  qed
qed

interpretation statement_tree: producing_statements "parse_statement d" n d for d n
  by (rule statement_delivers [OF order_refl])

lemma parser_new_wf: "parser_new data = Inr st \<Longrightarrow> ps_wf (length data) st"
  using parser_new_ok [of data st] by (auto simp: ps_wf_def parser_new_def bindE_eq_Inr dest: next_word)

theorem document_wf:
  assumes "bindE (parser_new data) parse_document = Inr (sts, st)"
  shows "list_all (wf_statement (length data) 1) sts"
proof -
  obtain st0 where "parser_new data = Inr st0" "document_loop (ps_weight st0) (parse_statement 1) st0 = Inr (sts, st)"
    using assms by (auto simp: bindE_eq_Inr parse_document_def)
  with producing.produces [OF statement_tree.document_producing parser_new_wf] show ?thesis by (fastforce simp: delivers_def)
qed

end
