(* ===== verification/Cs_Eval_Laws.thy ===== *)
theory Cs_Eval_Laws
  imports Cs_Wellformed
begin

text \<open>
  Laws of the evaluator: on the trees of the parser it returns values whose keys are names or fails with
  one of three codes at an offset of the tree, and never through the branches kept for operators the
  parser does not build; a big-step semantics without the depth counter that it agrees with; the integer
  division of the language.
\<close>

section \<open>Outcomes\<close>

definition eval_codes :: "error_code set" where
  "eval_codes = {kBadType, kStateViolation, kDepthExceeded}"

text \<open>The messages of the branches that the operators of the parser never reach.\<close>

definition internal_messages :: "string set" where
  "internal_messages = {''unsupported arithmetic operator'', ''bad comparison'', ''unsupported binary operator'',
     ''unsupported unary operator''}"

definition well :: "nat \<Rightarrow> 'a result \<Rightarrow> ('a \<Rightarrow> bool) \<Rightarrow> bool" where
  "well n r P \<longleftrightarrow>
     (case r of Inr v \<Rightarrow> P v
      | Inl e \<Rightarrow> err_code e \<in> eval_codes \<and> err_offset e \<le> n \<and> err_text e \<notin> internal_messages)"

lemma well_Inr [simp]: "well n (Inr v) P \<longleftrightarrow> P v"
  by (simp add: well_def)

lemma well_error [simp]:
  "well n (eval_error code at msg) P \<longleftrightarrow> code \<in> eval_codes \<and> at \<le> n \<and> msg \<notin> internal_messages"
  by (simp add: well_def eval_error_def)

lemma well_bind:
  assumes "well n r P" and "\<And>x. P x \<Longrightarrow> well n (f x) Q"
  shows "well n (bindE r f) Q"
  using assms by (cases r) (auto simp: well_def)

lemma well_weaken: "well n r P \<Longrightarrow> (\<And>x. P x \<Longrightarrow> Q x) \<Longrightarrow> well n r Q"
  by (auto simp: well_def split: sum.splits)

lemma well_depth:
  assumes "at \<le> n" "require_depth depth at = Inr () \<Longrightarrow> well n r P"
  shows "well n (bindE (require_depth depth at) (\<lambda>_. r)) P"
  using assms by (auto simp: require_depth_def eval_codes_def internal_messages_def eval_error_def well_def)

fun wf_value :: "cvalue \<Rightarrow> bool" where
  "wf_value (VArray vs) \<longleftrightarrow> (\<forall>v \<in> set vs. wf_value v)"
| "wf_value (VObject fs) \<longleftrightarrow> (\<forall>(k, v) \<in> set fs. is_name k \<and> wf_value v)"
| "wf_value v \<longleftrightarrow> True"

definition wf_env :: "environment \<Rightarrow> bool" where
  "wf_env env \<longleftrightarrow> (\<forall>table \<in> set env. \<forall>v \<in> ran table. wf_value v)"

lemma wf_env_root: "wf_env env_root"
  by (simp add: wf_env_def env_root_def)

lemma wf_env_child: "wf_env env \<Longrightarrow> wf_env (env_child env)"
  by (simp add: wf_env_def env_child_def)

lemma wf_env_define: "wf_env env \<Longrightarrow> wf_value v \<Longrightarrow> wf_env (env_define name v env)"
  by (cases env) (auto simp: wf_env_def ran_def)

lemma wf_env_lookup: "wf_env env \<Longrightarrow> env_lookup name env = Some v \<Longrightarrow> wf_value v"
  by (induction name env rule: env_lookup.induct) (auto simp: wf_env_def ran_def split: option.splits)

section \<open>Operators\<close>

lemma well_require_int: "at \<le> n \<Longrightarrow> well n (require_int v at opr) (\<lambda>_. True)"
  by (auto simp: require_int_def eval_codes_def internal_messages_def split: cvalue.split)

lemmas well_simps = eval_codes_def internal_messages_def cs_quoted_def

lemma well_arith:
  "at \<le> n \<Longrightarrow> opr \<in> {TkPlus, TkMinus, TkStar} \<Longrightarrow> well n (eval_arith opr l r at) wf_value"
  by (auto simp: eval_arith_def well_simps Let_def split: cvalue.split)

lemma well_div_mod: "at \<le> n \<Longrightarrow> well n (eval_div_mod opr l r at) wf_value"
  by (auto simp: eval_div_mod_def well_simps Let_def split: cvalue.split)

lemma well_shift: "at \<le> n \<Longrightarrow> well n (eval_shift opr l r at) wf_value"
  unfolding eval_shift_def
  by (intro well_bind [OF well_require_int]) (auto simp: well_simps)

lemma well_bitwise: "at \<le> n \<Longrightarrow> well n (eval_bitwise f opr l r at) wf_value"
  unfolding eval_bitwise_def by (intro well_bind [OF well_require_int]) auto

lemma well_compare:
  "at \<le> n \<Longrightarrow> opr \<in> {TkLt, TkLe, TkGt, TkGe} \<Longrightarrow> well n (eval_compare opr l r at) wf_value"
  unfolding eval_compare_def
  by (rule well_bind [where P = "\<lambda>_. True"]) (auto simp: well_simps split: cvalue.split)

lemma well_binary:
  assumes "at \<le> n" "1 \<le> binary_precedence opr" "opr \<notin> {TkAndAnd, TkOrOr}"
  shows "well n (eval_binary opr l r at) wf_value"
  using assms
  by (cases opr) (simp_all add: eval_binary_def well_arith well_div_mod well_shift well_bitwise well_compare)

lemma well_unary:
  "at \<le> n \<Longrightarrow> opr \<in> {TkMinus, TkBang, TkTilde} \<Longrightarrow> well n (eval_unary opr v at) wf_value"
  by (auto simp: eval_unary_def well_simps split: cvalue.split intro!: well_bind [OF well_require_int])

theorem evaluate_well:
  shows "wf_expr n e \<Longrightarrow> wf_env env \<Longrightarrow> well n (evaluate e env depth) wf_value"
    and "\<forall>e \<in> set es. wf_expr n e \<Longrightarrow> wf_env env \<Longrightarrow>
      well n (evaluate_elements es env depth) (list_all wf_value)"
    and "\<forall>(k, e) \<in> set fs. is_name k \<and> wf_expr n e \<Longrightarrow> wf_env env \<Longrightarrow>
      well n (evaluate_fields fs env depth) (list_all (\<lambda>(k, v). is_name k \<and> wf_value v))"
proof (induction e env depth and es env depth and fs env depth
    rule: evaluate_evaluate_elements_evaluate_fields.induct)
  case (6 off name env depth)
  then show ?case
    by (auto simp: well_simps split: option.split intro!: well_depth dest: wf_env_lookup)
next
  case (7 off es env depth)
  then show ?case
    by (auto simp: list_all_iff intro!: well_depth well_bind [where P = "\<lambda>vs. \<forall>v \<in> set vs. wf_value v"])
next
  case (8 off fs env depth)
  then show ?case
    by (auto simp: list_all_iff intro!: well_depth well_bind [where P = "\<lambda>fs. \<forall>(k, v) \<in> set fs. is_name k \<and> wf_value v"])
next
  case (9 off opr e env depth)
  then show ?case by (auto intro!: well_depth well_bind [where P = wf_value] well_unary)
next
  case (10 off c a b env depth)
  show ?case
    unfolding evaluate.simps
  proof (rule well_depth)
    assume ok: "require_depth depth off = Inr ()"
    show "well n (bindE (evaluate c env (depth + 1)) (\<lambda>cond. if truthy cond then evaluate a env (depth + 1)
        else evaluate b env (depth + 1))) wf_value"
    proof (cases "evaluate c env (depth + 1)")
      case (Inl e)
      with "10.IH"(1) [OF ok] "10.prems" show ?thesis by (simp add: well_def)
    next
      case (Inr v)
      with "10.IH"(2,3) [OF ok] "10.prems" show ?thesis by simp
    qed
  qed (use "10.prems" in simp)
next
  case (11 off opr a b env depth)
  have wf: "off \<le> n" "1 \<le> binary_precedence opr" "wf_expr n a" "wf_expr n b" using "11.prems" by simp_all
  show ?case
    unfolding evaluate.simps
  proof (rule well_depth [OF wf(1)])
    assume ok: "require_depth depth off = Inr ()"
    have a: "well n (evaluate a env (depth + 1)) wf_value"
      using "11.IH"(1,3,5) [OF ok] wf "11.prems" by blast
    show "well n (if opr = TkAndAnd
        then bindE (evaluate a env (depth + 1)) (\<lambda>l. if \<not> truthy l then Inr (VBool False)
          else bindE (evaluate b env (depth + 1)) (\<lambda>r. Inr (VBool (truthy r))))
        else if opr = TkOrOr
        then bindE (evaluate a env (depth + 1)) (\<lambda>l. if truthy l then Inr (VBool True)
          else bindE (evaluate b env (depth + 1)) (\<lambda>r. Inr (VBool (truthy r))))
        else bindE (evaluate a env (depth + 1)) (\<lambda>l. bindE (evaluate b env (depth + 1)) (\<lambda>r. eval_binary opr l r off))) wf_value"
    proof (cases "evaluate a env (depth + 1)")
      case (Inl e)
      with a show ?thesis by (simp add: well_def)
    next
      case (Inr l)
      then show ?thesis
        using "11.IH"(2,4,6) [OF ok] wf "11.prems" by (auto intro!: well_bind well_binary)
    qed
  qed
next
  case (13 e es env depth)
  then show ?case by (cases "evaluate e env depth"; cases "evaluate_elements es env depth"; simp add: well_def)
next
  case (15 k e fs env depth)
  then show ?case by (cases "evaluate e env depth"; cases "evaluate_fields fs env depth"; simp add: well_def)
qed (auto intro: well_depth)

section \<open>Documents\<close>

text \<open>A node at depth \<open>d\<close>.\<close>

fun wf_node :: "nat \<Rightarrow> cnode \<Rightarrow> bool" where
  "wf_node d (NdAssignment path v) \<longleftrightarrow> d \<le> kMaxDepth \<and> path \<noteq> [] \<and> list_all is_name path \<and> wf_value v"
| "wf_node d (NdBlock name label children) \<longleftrightarrow>
     d \<le> kMaxDepth \<and> is_name name \<and> (\<forall>x \<in> set children. wf_node (d + 1) x)"
| "wf_node d (NdInclude path) \<longleftrightarrow> d \<le> kMaxDepth"

lemma build_nodes_well:
  "list_all (wf_statement n d) sts \<Longrightarrow> wf_env env \<Longrightarrow> well n (build_nodes sts env) (list_all (wf_node d))"
proof (induction sts env arbitrary: d rule: build_nodes.induct)
  case (2 off path e sts env)
  have e: "well n (evaluate e env 1) wf_value" using evaluate_well(1) "2.prems" by simp
  show ?case
  proof (cases "evaluate e env 1")
    case (Inr v)
    with e have v: "wf_value v" by simp
    with "2.IH" [OF Inr] "2.prems" have "well n (build_nodes sts (env_define (last path) v env)) (list_all (wf_node d))"
      by (simp add: wf_env_define)
    with v Inr "2.prems" show ?thesis by (auto intro!: well_bind [where P = "list_all (wf_node d)"])
  qed (use e in \<open>simp add: well_def\<close>)
next
  case (3 off name label children sts env)
  have inner: "well n (build_nodes children (env_child env)) (list_all (wf_node (d + 1)))"
    using "3.IH"(1) [of "d + 1"] "3.prems" by (simp add: wf_env_child list_all_iff [of "wf_statement n (Suc d)"])
  show ?case
  proof (cases "build_nodes children (env_child env)")
    case (Inr inner')
    with inner "3.IH"(2) [OF Inr, of d] "3.prems" show ?thesis
      by (auto simp: list_all_iff [of "wf_node (Suc d)"] intro!: well_bind [where P = "list_all (wf_node d)"])
  qed (use inner in \<open>simp add: well_def\<close>)
next
  case (4 off path sts env)
  then show ?case by (auto intro!: well_bind [where P = "list_all (wf_node d)"])
qed simp

theorem parsed_document:
  assumes "bindE (parser_new data) parse_document = Inr (sts, st)"
  shows "well (length data) (build_nodes sts env_root) (list_all (wf_node 1))"
  by (rule build_nodes_well [OF document_wf [OF assms] wf_env_root])

text \<open>A parsed document is well-formed; a text that is none gets a code and an offset inside it.\<close>

definition document_codes :: "error_code set" where
  "document_codes = {kBadType, kBadLength, kDepthExceeded, kStateViolation}"

theorem parse_outcome:
  "case cs_parse data of
     Inr doc \<Rightarrow> list_all (wf_node 1) doc
   | Inl e \<Rightarrow> err_code e \<in> document_codes \<and> err_offset e \<le> length data"
proof (cases "bindE (parser_new data) parse_document")
  case (Inl e)
  then have "cs_parse data = Inl e" by (auto simp: cs_parse_def bindE_eq_Inl)
  with syntax_errors [OF Inl] show ?thesis by (auto simp: document_codes_def parse_codes_def)
next
  case (Inr r)
  then obtain sts st where r: "bindE (parser_new data) parse_document = Inr (sts, st)" by (cases r) auto
  then have "cs_parse data = build_nodes sts env_root" by (auto simp: cs_parse_def bindE_eq_Inr)
  with parsed_document [OF r] show ?thesis
    by (auto simp: well_def eval_codes_def document_codes_def split: sum.splits)
qed

section \<open>Canonical texts\<close>

text \<open>The values the serializer prints so that the parser reads them back.\<close>

fun printable :: "cvalue \<Rightarrow> bool" where
  "printable (VInt i) \<longleftrightarrow> i \<noteq> int64_min"
| "printable (VFloat f) \<longleftrightarrow> False"
| "printable (VArray vs) \<longleftrightarrow> (\<forall>v \<in> set vs. printable v)"
| "printable (VObject fs) \<longleftrightarrow> (\<forall>(k, v) \<in> set fs. printable v)"
| "printable v \<longleftrightarrow> True"

fun printable_node :: "cnode \<Rightarrow> bool" where
  "printable_node (NdAssignment path v) \<longleftrightarrow> printable v \<and> 1 + value_depth v \<le> kMaxDepth"
| "printable_node (NdBlock name label children) \<longleftrightarrow> (\<forall>x \<in> set children. printable_node x)"
| "printable_node (NdInclude path) \<longleftrightarrow> True"

lemma plain_value_iff: "plain_value v \<longleftrightarrow> wf_value v \<and> printable v"
  by (induction v rule: plain_value.induct) auto

lemma plain_nodes_fit:
  "list_all (wf_node d) ns \<Longrightarrow> list_all printable_node ns \<Longrightarrow> plain_nodes ns \<and> nodes_fit d ns"
proof (induction d ns rule: nodes_fit.induct)
  case (3 d name label children ns)
  then show ?case by (simp add: list_all_iff)
qed (simp_all add: plain_value_iff)

theorem canonical_text:
  assumes "cs_parse data = Inr doc" "list_all printable_node doc"
  shows "cs_parse (bytes_of_string (serialize doc opts)) = Inr doc"
proof -
  have "list_all (wf_node 1) doc" using parse_outcome [of data] assms(1) by simp
  from plain_nodes_fit [OF this assms(2)] show ?thesis by (auto intro: serialize_parse)
qed

end
