(* ===== verification/Dbl_Order.thy ===== *)
theory Dbl_Order
  imports Binary64
begin

text \<open>
  The order of doubles by the numbers they stand for. Every finite double is a whole number of units
  of \<open>2 ^ (- 1074)\<close>, the smallest positive double; an infinity counts as \<open>2 ^ 1024\<close>, which is beyond
  every finite one. The comparison of bit patterns in \<open>Binary64\<close> is the comparison of these numbers.
\<close>

definition dbl_units :: "u64 \<Rightarrow> int" where
  "dbl_units b = (if dbl_sign b then - 1 else 1) * int (dbl_mant b * 2 ^ nat (dbl_exp b + 1074))"

text \<open>The comparisons of IEEE 754: none of them holds with a NaN.\<close>

definition num_lt :: "u64 \<Rightarrow> u64 \<Rightarrow> bool" where
  "num_lt a b \<longleftrightarrow> \<not> dbl_is_nan a \<and> \<not> dbl_is_nan b \<and> dbl_units a < dbl_units b"

definition num_le :: "u64 \<Rightarrow> u64 \<Rightarrow> bool" where
  "num_le a b \<longleftrightarrow> \<not> dbl_is_nan a \<and> \<not> dbl_is_nan b \<and> dbl_units a \<le> dbl_units b"

section \<open>Magnitudes\<close>

text \<open>The units of a pattern without its sign bit grow with the pattern.\<close>

definition units_of :: "nat \<Rightarrow> nat" where
  "units_of m = (if m div 2 ^ 52 = 0 then m mod 2 ^ 52 else (2 ^ 52 + m mod 2 ^ 52) * 2 ^ (m div 2 ^ 52 - 1))"

lemma units_of_Suc: "units_of m < units_of (Suc m)"
proof -
  define e f where "e = m div 2 ^ 52" and "f = m mod 2 ^ 52"
  have m: "m = e * 2 ^ 52 + f" and f: "f < 2 ^ 52" by (simp_all add: e_def f_def)
  have parts: "m div 4503599627370496 = e" "m mod 4503599627370496 = f" by (simp_all add: e_def f_def)
  show ?thesis
  proof (cases "Suc f < 2 ^ 52")
    case True
    then have "Suc m div 2 ^ 52 = e" "Suc m mod 2 ^ 52 = Suc f" by (simp_all add: m)
    then show ?thesis by (simp add: units_of_def parts)
  next
    case False
    with f have f: "f = 2 ^ 52 - 1" by simp
    then have "Suc m = Suc e * 2 ^ 52" by (simp add: m)
    then have "Suc m div 2 ^ 52 = Suc e" "Suc m mod 2 ^ 52 = 0" by simp_all
    moreover have "(2 ^ 52 + f) * 2 ^ (e - 1) < 2 ^ 52 * 2 ^ e" if "e \<noteq> 0"
    proof -
      have "(2 ^ 52 + f) * 2 ^ (e - 1) < (2 * 2 ^ 52) * 2 ^ (e - 1)" using f by simp
      also have "\<dots> = 2 ^ 52 * (2 * 2 ^ (e - 1))" by simp
      also have "\<dots> = 2 ^ 52 * 2 ^ e" using that by (simp flip: power_Suc)
      finally show ?thesis .
    qed
    ultimately show ?thesis using f by (simp add: units_of_def parts)
  qed
qed

lemma units_of_less: "units_of m < units_of n \<longleftrightarrow> m < n"
  using lift_Suc_mono_less_iff [of units_of] units_of_Suc by blast

lemma units_of_zero [simp]: "units_of 0 = 0"
  by (simp add: units_of_def)

lemma dbl_units_of: "dbl_units b = (if dbl_sign b then - 1 else 1) * int (units_of (unat b mod 2 ^ 63))"
proof -
  have "unat b mod 2 ^ 63 div 2 ^ 52 = dbl_biased b"
    using div_exp_mod_exp_eq [of "unat b" 52 11] by (simp add: dbl_biased_def)
  moreover have "unat b mod 2 ^ 63 mod 2 ^ 52 = dbl_fraction b"
    by (simp add: dbl_fraction_def mod_mod_cancel)
  moreover have "nat (dbl_exp b + 1074) = dbl_biased b - 1" by (simp add: dbl_exp_def nat_diff_distrib)
  ultimately show ?thesis by (simp add: dbl_units_def units_of_def dbl_mant_def)
qed

section \<open>The order of the patterns\<close>

lemma dbl_key_less: "dbl_key a < dbl_key b \<longleftrightarrow> dbl_units a < dbl_units b"
proof -
  have pos: "0 < units_of m \<longleftrightarrow> 0 < m" for m using units_of_less [of 0 m] by simp
  show ?thesis
    using units_of_less [of "unat a mod 2 ^ 63" "unat b mod 2 ^ 63"] units_of_less [of "unat b mod 2 ^ 63" "unat a mod 2 ^ 63"]
      pos [of "unat a mod 2 ^ 63"] pos [of "unat b mod 2 ^ 63"]
    by (auto simp: dbl_units_of dbl_key_def)
qed

lemma dbl_less_num: "dbl_less a b \<longleftrightarrow> num_lt a b"
  by (simp add: dbl_less_def num_lt_def dbl_key_less)

lemma num_le_alt: "\<not> dbl_is_nan a \<Longrightarrow> \<not> dbl_is_nan b \<Longrightarrow> num_le a b \<longleftrightarrow> \<not> num_lt b a"
  by (auto simp: num_le_def num_lt_def)

lemma dbl_is_zero_units: "dbl_is_zero b \<longleftrightarrow> dbl_units b = 0"
  using units_of_less [of 0 "unat b mod 2 ^ 63"] by (auto simp: dbl_is_zero_def dbl_units_of)

end
