(* ===== verification/Cs_Numbers.thy ===== *)
theory Cs_Numbers
  imports Cs_Model Dbl_Order
begin

text \<open>
  The numbers among the values, as the reference descriptions of schemas and operators read them: the
  double of an integer or a float, and no double for anything else.
\<close>

definition number_of :: "cvalue \<Rightarrow> u64 option" where
  "number_of v = (case v of VInt i \<Rightarrow> Some (dbl_of_int i) | VFloat f \<Rightarrow> Some f | _ \<Rightarrow> None)"

lemma number_of_simps [simp]:
  "number_of (VInt i) = Some (dbl_of_int i)" "number_of (VFloat f) = Some f" "number_of VNull = None"
  "number_of (VBool b) = None" "number_of (VStr s) = None" "number_of (VArray vs) = None"
  "number_of (VObject fs) = None"
  by (simp_all add: number_of_def)

lemma number_of_iff: "number_of v = Some n \<longleftrightarrow> is_number v \<and> as_double v = n"
  by (cases v) (auto simp: is_number_def)

end
