(* ===== verification/Cs_Meaning.thy ===== *)
theory Cs_Meaning
  imports Cs_Eval Cs_Numbers "HOL-Library.List_Lexorder"
begin

text \<open>
  What the operators of the language mean, apart from how the evaluator computes them: integers are
  mathematical integers, wrapped to 64 bits at the end; a quotient and a remainder are given by the
  division equation; shifts multiply and divide by powers of two; doubles compare as the numbers they
  stand for; strings compare as their bytes. The evaluator is shown to agree with each of them.
\<close>

unbundle bit_operations_syntax

section \<open>Truth and names\<close>

text \<open>
  The values that count as false. The comment in \<^verbatim>\<open>include/cfgscript/value.hpp\<close> lists them without the
  empty array and the empty object, which \<^verbatim>\<open>truthy\<close> in \<^verbatim>\<open>src/cfgscript/value.cpp\<close> adds.
\<close>

definition documented_false :: "cvalue set" where
  "documented_false = {VNull, VBool False, VInt 0, VFloat (dbl_zero False), VFloat (dbl_zero True), VStr []}"

definition false_values :: "cvalue set" where
  "false_values = documented_false \<union> {VArray [], VObject []}"

lemma dbl_is_zero_iff: "dbl_is_zero f \<longleftrightarrow> f = dbl_zero False \<or> f = dbl_zero True"
proof -
  have "unat f < 2 ^ 64" using unsigned_less [of f, where ?'a = nat] by simp
  then have "unat f mod 2 ^ 63 = 0 \<longleftrightarrow> unat f = 0 \<or> unat f = 2 ^ 63" by auto
  also have "unat f = 2 ^ 63 \<longleftrightarrow> f = 0x8000000000000000" by (auto simp: word_unat_eq_iff)
  finally show ?thesis by (auto simp: dbl_is_zero_def dbl_zero_def dbl_bits_def word_unat_eq_iff)
qed

lemma truthy_iff: "truthy v \<longleftrightarrow> v \<notin> false_values"
  by (cases v) (auto simp: false_values_def documented_false_def dbl_is_zero_iff)

lemma truthy_departs: "(truthy v \<longleftrightarrow> v \<notin> documented_false) \<longleftrightarrow> v \<noteq> VArray [] \<and> v \<noteq> VObject []"
  by (auto simp: truthy_iff false_values_def documented_false_def)

text \<open>A name denotes its value in the innermost scope that defines it.\<close>

definition denotes :: "environment \<Rightarrow> string \<Rightarrow> cvalue \<Rightarrow> bool" where
  "denotes env name v \<longleftrightarrow>
     (\<exists>i < length env. (env ! i) name = Some v \<and> (\<forall>j < i. (env ! j) name = None))"

lemma env_lookup_iff: "env_lookup name env = Some v \<longleftrightarrow> denotes env name v"
proof (induction env)
  case (Cons table parents)
  show ?case
  proof (cases "table name")
    case None
    have "denotes (table # parents) name v \<longleftrightarrow> denotes parents name v"
    proof
      assume "denotes (table # parents) name v"
      then obtain i where i: "i < length (table # parents)" "((table # parents) ! i) name = Some v"
        "\<forall>j < i. ((table # parents) ! j) name = None" by (auto simp: denotes_def)
      with None obtain k where "i = Suc k" by (cases i) auto
      with i show "denotes parents name v" unfolding denotes_def by (intro exI [of _ k]) force
    next
      assume "denotes parents name v"
      then obtain i where i: "i < length parents" "(parents ! i) name = Some v" "\<forall>j < i. (parents ! j) name = None"
        by (auto simp: denotes_def)
      with None show "denotes (table # parents) name v"
        unfolding denotes_def by (intro exI [of _ "Suc i"]) (auto simp: nth_Cons' split: if_splits)
    qed
    with None Cons show ?thesis by simp
  next
    case (Some w)
    have "denotes (table # parents) name v \<longleftrightarrow> w = v"
      using Some by (fastforce simp: denotes_def nth_Cons' split: if_splits)
    with Some show ?thesis by simp
  qed
qed (simp add: denotes_def)

section \<open>Comparing values\<close>

text \<open>Numbers one of which is a float, as doubles.\<close>

definition as_doubles :: "cvalue \<Rightarrow> cvalue \<Rightarrow> u64 \<Rightarrow> u64 \<Rightarrow> bool" where
  "as_doubles l r a b \<longleftrightarrow>
     number_of l = Some a \<and> number_of r = Some b \<and> ((\<exists>f. l = VFloat f) \<or> (\<exists>f. r = VFloat f))"

datatype outcome = Less | Same | Greater | Unordered

definition outcome :: "'a::linorder \<Rightarrow> 'a \<Rightarrow> outcome" where
  "outcome x y = (if x < y then Less else if x = y then Same else Greater)"

inductive compares :: "cvalue \<Rightarrow> cvalue \<Rightarrow> outcome \<Rightarrow> bool" where
  ints: "compares (VInt x) (VInt y) (outcome (sint x) (sint y))"
| doubles: "as_doubles l r a b \<Longrightarrow> \<not> dbl_is_nan a \<Longrightarrow> \<not> dbl_is_nan b \<Longrightarrow>
    compares l r (outcome (dbl_units a) (dbl_units b))"
| nans: "as_doubles l r a b \<Longrightarrow> dbl_is_nan a \<or> dbl_is_nan b \<Longrightarrow> compares l r Unordered"
| strings: "compares (VStr s) (VStr t) (outcome (bytes_of_string s) (bytes_of_string t))"

text \<open>
  Equality. Numbers that do not compare count as equal: this is what the evaluator does with a NaN, and
  not what IEEE 754 says.
\<close>

inductive same :: "cvalue \<Rightarrow> cvalue \<Rightarrow> bool" where
  nulls: "same VNull VNull"
| bools: "same (VBool b) (VBool b)"
| strs: "same (VStr s) (VStr s)"
| numbers: "number_of l \<noteq> None \<Longrightarrow> number_of r \<noteq> None \<Longrightarrow> compares l r c \<Longrightarrow> c = Same \<or> c = Unordered \<Longrightarrow> same l r"
| arrays: "list_all2 same vs ws \<Longrightarrow> same (VArray vs) (VArray ws)"
| objects: "map fst fs = map fst gs \<Longrightarrow> list_all2 same (map snd fs) (map snd gs) \<Longrightarrow> same (VObject fs) (VObject gs)"

section \<open>Operators\<close>

text \<open>The text an operand contributes to a concatenation.\<close>

inductive shown :: "cvalue \<Rightarrow> string \<Rightarrow> bool" where
  "shown (VStr s) s"
| "shown (VInt i) (dec_of_int (sint i))"
| "shown (VFloat f) (dbl_to_text f)"
| "shown (VBool True) ''true''"
| "shown (VBool False) ''false''"
| "shown VNull ''null''"
| "shown (VArray vs) []"
| "shown (VObject fs) []"

text \<open>Truncating division: the quotient and the remainder of the equation with the sign of the dividend.\<close>

definition divides_into :: "int \<Rightarrow> int \<Rightarrow> int \<Rightarrow> int \<Rightarrow> bool" where
  "divides_into x y q r \<longleftrightarrow> y \<noteq> 0 \<and> x = q * y + r \<and> \<bar>r\<bar> < \<bar>y\<bar> \<and> (r = 0 \<or> sgn r = sgn x)"

inductive binary_means :: "token_kind \<Rightarrow> cvalue \<Rightarrow> cvalue \<Rightarrow> cvalue \<Rightarrow> bool" where
  add_ints: "binary_means TkPlus (VInt x) (VInt y) (VInt (word_of_int (sint x + sint y)))"
| add_doubles: "as_doubles l r a b \<Longrightarrow> binary_means TkPlus l r (VFloat (dbl_add a b))"
| join: "(\<exists>s. l = VStr s) \<or> (\<exists>s. r = VStr s) \<Longrightarrow> shown l s \<Longrightarrow> shown r t \<Longrightarrow> binary_means TkPlus l r (VStr (s @ t))"
| sub_ints: "binary_means TkMinus (VInt x) (VInt y) (VInt (word_of_int (sint x - sint y)))"
| sub_doubles: "as_doubles l r a b \<Longrightarrow> binary_means TkMinus l r (VFloat (dbl_sub a b))"
| mul_ints: "binary_means TkStar (VInt x) (VInt y) (VInt (word_of_int (sint x * sint y)))"
| mul_doubles: "as_doubles l r a b \<Longrightarrow> binary_means TkStar l r (VFloat (dbl_mul a b))"
| div_ints: "divides_into (sint x) (sint y) q r \<Longrightarrow> binary_means TkSlash (VInt x) (VInt y) (VInt (word_of_int q))"
| div_doubles: "as_doubles l r a b \<Longrightarrow> dbl_units b \<noteq> 0 \<Longrightarrow> binary_means TkSlash l r (VFloat (dbl_div a b))"
| mod_ints: "divides_into (sint x) (sint y) q r \<Longrightarrow> binary_means TkPercent (VInt x) (VInt y) (VInt (word_of_int r))"
| shl: "0 \<le> sint y \<Longrightarrow> sint y \<le> 63 \<Longrightarrow>
    binary_means TkShl (VInt x) (VInt y) (VInt (word_of_int (sint x * 2 ^ nat (sint y))))"
| shr: "0 \<le> sint y \<Longrightarrow> sint y \<le> 63 \<Longrightarrow>
    binary_means TkShr (VInt x) (VInt y) (VInt (word_of_int (sint x div 2 ^ nat (sint y))))"
| bit_and: "\<forall>n < 64. bit z n \<longleftrightarrow> bit x n \<and> bit y n \<Longrightarrow> binary_means TkAmp (VInt x) (VInt y) (VInt z)"
| bit_xor: "\<forall>n < 64. bit z n \<longleftrightarrow> bit x n \<noteq> bit y n \<Longrightarrow> binary_means TkCaret (VInt x) (VInt y) (VInt z)"
| bit_or: "\<forall>n < 64. bit z n \<longleftrightarrow> bit x n \<or> bit y n \<Longrightarrow> binary_means TkPipe (VInt x) (VInt y) (VInt z)"
| eq: "binary_means TkEq l r (VBool (same l r))"
| ne: "binary_means TkNe l r (VBool (\<not> same l r))"
| lt: "compares l r c \<Longrightarrow> binary_means TkLt l r (VBool (c = Less))"
| le: "compares l r c \<Longrightarrow> binary_means TkLe l r (VBool (c \<noteq> Greater))"
| gt: "compares l r c \<Longrightarrow> binary_means TkGt l r (VBool (c = Greater))"
| ge: "compares l r c \<Longrightarrow> binary_means TkGe l r (VBool (c \<noteq> Less))"

inductive unary_means :: "token_kind \<Rightarrow> cvalue \<Rightarrow> cvalue \<Rightarrow> bool" where
  minus_int: "unary_means TkMinus (VInt x) (VInt (word_of_int (- sint x)))"
| minus_float: "(dbl_sign g \<longleftrightarrow> \<not> dbl_sign f) \<Longrightarrow> unat g mod 2 ^ 63 = unat f mod 2 ^ 63 \<Longrightarrow>
    unary_means TkMinus (VFloat f) (VFloat g)"
| not: "unary_means TkBang v (VBool (v \<in> false_values))"
| complement: "unary_means TkTilde (VInt x) (VInt (word_of_int (- sint x - 1)))"

section \<open>The evaluator agrees\<close>

inductive_simps compares_simps: "compares l r c"
inductive_simps same_simps [simp]:
  "same VNull w" "same (VBool b) w" "same (VStr s) w" "same (VArray vs) w" "same (VObject fs) w"
inductive_simps shown_simps [simp]:
  "shown (VStr s) t" "shown (VInt i) t" "shown (VFloat f) t" "shown (VBool b) t" "shown VNull t"
  "shown (VArray vs) t" "shown (VObject fs) t"

lemma shown_iff: "shown v t \<longleftrightarrow> t = to_concat_string v"
  by (cases v) auto

lemma as_doubles_iff:
  "as_doubles l r a b \<longleftrightarrow> is_number l \<and> is_number r \<and> a = as_double l \<and> b = as_double r \<and>
     (value_type_of l = TyFloat \<or> value_type_of r = TyFloat)"
  by (cases l; cases r) (auto simp: as_doubles_def is_number_def)

lemma compares_numbers:
  assumes "is_number l" and "is_number r"
  shows "compares l r c \<longleftrightarrow>
    c = (if value_type_of l = TyInt \<and> value_type_of r = TyInt then outcome (compare_numbers l r) 0
         else if dbl_is_nan (as_double l) \<or> dbl_is_nan (as_double r) then Unordered
         else outcome (compare_numbers l r) 0)"
  using assms
  by (cases l; cases r) (auto simp: compares_simps as_doubles_def is_number_def compare_numbers_def outcome_def
      dbl_less_num num_lt_def Let_def)

text \<open>The sign of the evaluator's comparison is the outcome, with a NaN as no difference.\<close>

definition sign_of :: "outcome \<Rightarrow> int" where
  "sign_of c = (case c of Less \<Rightarrow> - 1 | Same \<Rightarrow> 0 | Greater \<Rightarrow> 1 | Unordered \<Rightarrow> 0)"

lemma compare_numbers_sign:
  assumes "is_number l" and "is_number r"
  obtains c where "compares l r c" and "compare_numbers l r = sign_of c" and "\<forall>d. compares l r d \<longrightarrow> d = c"
proof -
  have cmp: "compare_numbers l r = - 1 \<or> compare_numbers l r = 0 \<or> compare_numbers l r = 1"
    by (auto simp: compare_numbers_def Let_def split: cvalue.splits)
  have nan: "compare_numbers l r = 0"
    if "dbl_is_nan (as_double l) \<or> dbl_is_nan (as_double r)" "\<not> (value_type_of l = TyInt \<and> value_type_of r = TyInt)"
    using that assms by (cases l; cases r) (auto simp: compare_numbers_def dbl_less_def Let_def)
  show thesis
    using compares_numbers [OF assms] cmp nan
    by (intro that [of "if value_type_of l = TyInt \<and> value_type_of r = TyInt then outcome (compare_numbers l r) 0
         else if dbl_is_nan (as_double l) \<or> dbl_is_nan (as_double r) then Unordered
         else outcome (compare_numbers l r) 0"])
      (auto simp: sign_of_def outcome_def split: if_splits)
qed

lemma byte_of_char_less: "byte_of_char c < byte_of_char d \<longleftrightarrow> (of_char c :: nat) < of_char d"
  by (simp add: word_less_nat_alt unat_byte_of_char)

lemma string_compare_sign: "string_compare s t = sign_of (outcome (bytes_of_string s) (bytes_of_string t))"
proof (induction s t rule: string_compare.induct)
  case (4 c s d t)
  then show ?case
    using byte_of_char_less [of c d] byte_of_char_less [of d c]
    by (auto simp: bytes_of_string_def outcome_def sign_of_def split: if_splits)
qed (simp_all add: bytes_of_string_def outcome_def sign_of_def)

text \<open>Equality.\<close>

lemma same_numbers:
  assumes "is_number l" and "is_number r"
  shows "same l r \<longleftrightarrow> compare_numbers l r = 0"
proof -
  obtain c where c: "compares l r c" "compare_numbers l r = sign_of c" "\<forall>d. compares l r d \<longrightarrow> d = c"
    using compare_numbers_sign [OF assms] by blast
  have "number_of l \<noteq> None" "number_of r \<noteq> None"
    using assms number_of_iff [of l "as_double l"] number_of_iff [of r "as_double r"] by auto
  moreover have "\<not> same l r" if "\<not> (\<exists>d. compares l r d \<and> (d = Same \<or> d = Unordered))"
    using that assms by (auto simp: is_number_def elim: same.cases)
  ultimately have "same l r \<longleftrightarrow> c = Same \<or> c = Unordered"
    using c(1,3) same.numbers [of l r c] by blast
  then show ?thesis using c(2) by (cases c) (simp_all add: sign_of_def)
qed

lemma same_number_left: "is_number l \<Longrightarrow> \<not> is_number r \<Longrightarrow> \<not> same l r"
  by (cases r) (auto simp: is_number_def elim!: same.cases)

lemma values_equal_iff:
  "values_equal l r \<longleftrightarrow> same l r"
  "arrays_equal vs ws \<longleftrightarrow> list_all2 same vs ws"
  "objects_equal fs gs \<longleftrightarrow> map fst fs = map fst gs \<and> list_all2 same (map snd fs) (map snd gs)"
proof (induction l r and vs ws and fs gs rule: values_equal_arrays_equal_objects_equal.induct)
qed (auto simp: same_numbers same_number_left is_number_def split: cvalue.splits list.splits prod.splits)

text \<open>Arithmetic.\<close>

lemma smod_magnitude: "l \<noteq> 0 \<Longrightarrow> \<bar>k smod l\<bar> < \<bar>l\<bar>" for k l :: int
  using smod_int_range [of l k] by (simp add: smod_int_alt_def abs_mult)

lemma smod_sign: "k smod l = 0 \<or> sgn (k smod l) = sgn k" for k l :: int
proof (cases "l = 0")
  case False
  then have "0 \<le> \<bar>k\<bar> mod \<bar>l\<bar>" by simp
  then have "\<bar>k\<bar> mod \<bar>l\<bar> = 0 \<or> sgn (\<bar>k\<bar> mod \<bar>l\<bar>) = 1" by (simp add: sgn_if)
  then show ?thesis by (auto simp: smod_int_alt_def sgn_mult)
qed simp

lemma divides_into_iff: "divides_into x y q r \<longleftrightarrow> y \<noteq> 0 \<and> q = x sdiv y \<and> r = x smod y"
proof
  assume d: "divides_into x y q r"
  then have y: "y \<noteq> 0" and x: "x = q * y + r" and r: "\<bar>r\<bar> < \<bar>y\<bar>" "r = 0 \<or> sgn r = sgn x"
    unfolding divides_into_def by blast+
  have x': "x = (x sdiv y) * y + x smod y" by (simp add: sdiv_mult_smod_eq)
  have "\<bar>r - x smod y\<bar> < \<bar>y\<bar>"
    using r smod_magnitude [OF y, of x] smod_sign [of x y] by (auto simp: sgn_if split: if_splits)
  moreover have "y dvd r - x smod y"
  proof
    show "r - x smod y = y * (x sdiv y - q)" using x x' by (simp add: algebra_simps)
  qed
  ultimately have same: "r = x smod y" using zdvd_not_zless [of "\<bar>r - x smod y\<bar>" "\<bar>y\<bar>"] by fastforce
  then have "q * y = (x sdiv y) * y" using x x' by linarith
  with y same show "y \<noteq> 0 \<and> q = x sdiv y \<and> r = x smod y" by simp
next
  assume "y \<noteq> 0 \<and> q = x sdiv y \<and> r = x smod y"
  then show "divides_into x y q r"
    using smod_magnitude [of y x] smod_sign [of x y] by (simp add: divides_into_def sdiv_mult_smod_eq)
qed

lemma sint_eq_0: "sint y = 0 \<longleftrightarrow> y = 0" for y :: i64
  by (metis signed_word_eqI sint_0)

lemma eval_div_mod_ints:
  "eval_div_mod TkSlash (VInt x) (VInt y) off = Inr v \<longleftrightarrow> sint y \<noteq> 0 \<and> v = VInt (word_of_int (sint x sdiv sint y))"
  "eval_div_mod TkPercent (VInt x) (VInt y) off = Inr v \<longleftrightarrow> sint y \<noteq> 0 \<and> v = VInt (word_of_int (sint x smod sint y))"
proof -
  have lowest: "sint int64_min = - (2 ^ 63)" "word_of_int (2 ^ 63) = int64_min" "sint (- 1 :: i64) = - 1"
    by (simp_all add: int64_min_def)
  have one: "k smod 1 = 0" for k :: int by (simp add: smod_int_alt_def)
  show "eval_div_mod TkSlash (VInt x) (VInt y) off = Inr v \<longleftrightarrow> sint y \<noteq> 0 \<and> v = VInt (word_of_int (sint x sdiv sint y))"
    "eval_div_mod TkPercent (VInt x) (VInt y) off = Inr v \<longleftrightarrow> sint y \<noteq> 0 \<and> v = VInt (word_of_int (sint x smod sint y))"
    using lowest by (auto simp: eval_div_mod_def is_number_def eval_error_def sint_eq_0 one)
qed

text \<open>Shifts and bitwise operators.\<close>

lemma shift_left: "push_bit n x = (word_of_int (sint x * 2 ^ n) :: i64)"
  by (simp add: push_bit_eq_mult flip: wi_hom_mult)

lemma shift_right: "signed_drop_bit n x = (word_of_int (sint x div 2 ^ n) :: i64)"
proof -
  have "sint (signed_drop_bit n x) = sint x div 2 ^ n" by (simp add: sint_signed_drop_bit_eq drop_bit_eq_div)
  from arg_cong [OF this, where f = "word_of_int :: int \<Rightarrow> i64"] show ?thesis by simp
qed

lemma bitwise_iff:
  "(\<forall>n < 64. bit z n \<longleftrightarrow> bit x n \<and> bit y n) \<longleftrightarrow> z = x AND y"
  "(\<forall>n < 64. bit z n \<longleftrightarrow> (bit x n \<longleftrightarrow> \<not> bit y n)) \<longleftrightarrow> z = x XOR y"
  "(\<forall>n < 64. bit z n \<longleftrightarrow> bit x n \<or> bit y n) \<longleftrightarrow> z = x OR y" for x y z :: i64
  by (auto intro!: bit_word_eqI simp: bit_simps)

text \<open>All operators.\<close>

lemmas operator_defs = eval_binary_def eval_arith_def eval_shift_def eval_bitwise_def eval_compare_def require_int_def
  eval_error_def

inductive_simps plus_simps: "binary_means TkPlus l r v"
inductive_simps minus_simps: "binary_means TkMinus l r v"
inductive_simps star_simps: "binary_means TkStar l r v"
inductive_simps slash_simps: "binary_means TkSlash l r v"
inductive_simps percent_simps: "binary_means TkPercent l r v"
inductive_simps shift_simps: "binary_means TkShl l r v" "binary_means TkShr l r v"
inductive_simps bitwise_simps: "binary_means TkAmp l r v" "binary_means TkCaret l r v" "binary_means TkPipe l r v"
inductive_simps equality_simps: "binary_means TkEq l r v" "binary_means TkNe l r v"
inductive_simps order_simps: "binary_means TkLt l r v" "binary_means TkLe l r v" "binary_means TkGt l r v" "binary_means TkGe l r v"

lemma arith_means:
  "eval_binary TkPlus l r off = Inr v \<longleftrightarrow> binary_means TkPlus l r v"
  "eval_binary TkMinus l r off = Inr v \<longleftrightarrow> binary_means TkMinus l r v"
  "eval_binary TkStar l r off = Inr v \<longleftrightarrow> binary_means TkStar l r v"
  by (cases l; cases r; auto simp: operator_defs is_number_def plus_simps as_doubles_def shown_iff wi_hom_syms Let_def;
      auto simp flip: wi_hom_syms)
    (cases l; cases r; auto simp: operator_defs is_number_def minus_simps star_simps as_doubles_def wi_hom_syms Let_def)+

lemma divides_into_ex:
  "Ex (divides_into x y q) \<longleftrightarrow> y \<noteq> 0 \<and> q = x sdiv y" "(\<exists>q. divides_into x y q r) \<longleftrightarrow> y \<noteq> 0 \<and> r = x smod y"
  by (auto simp: divides_into_iff)

lemma division_means:
  "eval_binary TkSlash l r off = Inr v \<longleftrightarrow> binary_means TkSlash l r v"
  "eval_binary TkPercent l r off = Inr v \<longleftrightarrow> binary_means TkPercent l r v"
proof -
  show "eval_binary TkSlash l r off = Inr v \<longleftrightarrow> binary_means TkSlash l r v"
    by (cases l; cases r; auto simp: eval_binary_def slash_simps as_doubles_def divides_into_ex eval_div_mod_ints)
      (auto simp: eval_div_mod_def eval_error_def is_number_def dbl_is_zero_units Let_def split: if_splits)
  show "eval_binary TkPercent l r off = Inr v \<longleftrightarrow> binary_means TkPercent l r v"
    by (cases l; cases r; auto simp: eval_binary_def percent_simps as_doubles_def divides_into_iff eval_div_mod_ints)
      (auto simp: eval_div_mod_def eval_error_def is_number_def dbl_is_zero_units Let_def split: if_splits)
qed

lemma sint_amount: "0 \<le> sint y \<Longrightarrow> sint y \<le> 63 \<Longrightarrow> nat (sint y) = unat y" for y :: i64
proof -
  assume y: "0 \<le> sint y" "sint y \<le> 63"
  then have "uint (word_of_int (sint y) :: i64) = sint y"
    by (simp only: uint_word_of_int_eq) (simp add: take_bit_int_eq_self)
  then have "uint y = sint y" by simp
  then show ?thesis by (metis nat_uint_eq)
qed

lemma eval_shift_iff:
  "eval_shift opr l r off = Inr v \<longleftrightarrow> (\<exists>x y. l = VInt x \<and> r = VInt y \<and> 0 \<le> sint y \<and> sint y \<le> 63 \<and>
     v = VInt (if opr = TkShl then push_bit (unat y) x else signed_drop_bit (unat y) x))"
  by (cases l; cases r) (auto simp: eval_shift_def require_int_def eval_error_def not_less)

lemma shift_means:
  "eval_binary TkShl l r off = Inr v \<longleftrightarrow> binary_means TkShl l r v"
  "eval_binary TkShr l r off = Inr v \<longleftrightarrow> binary_means TkShr l r v"
proof -
  have "eval_binary TkShl l r off = eval_shift TkShl l r off" "eval_binary TkShr l r off = eval_shift TkShr l r off"
    by (simp_all add: eval_binary_def)
  then show "eval_binary TkShl l r off = Inr v \<longleftrightarrow> binary_means TkShl l r v"
    "eval_binary TkShr l r off = Inr v \<longleftrightarrow> binary_means TkShr l r v"
    by (auto simp: eval_shift_iff shift_simps sint_amount push_bit_eq_mult shift_right)
qed

lemma eval_bitwise_iff:
  "eval_bitwise f name l r off = Inr v \<longleftrightarrow> (\<exists>x y. l = VInt x \<and> r = VInt y \<and> v = VInt (f x y))"
  by (cases l; cases r) (auto simp: eval_bitwise_def require_int_def eval_error_def)

lemma bitwise_means:
  "eval_binary TkAmp l r off = Inr v \<longleftrightarrow> binary_means TkAmp l r v"
  "eval_binary TkCaret l r off = Inr v \<longleftrightarrow> binary_means TkCaret l r v"
  "eval_binary TkPipe l r off = Inr v \<longleftrightarrow> binary_means TkPipe l r v"
proof -
  have e: "eval_binary TkAmp l r off = eval_bitwise (AND) ''&'' l r off"
    "eval_binary TkCaret l r off = eval_bitwise (XOR) ''^'' l r off"
    "eval_binary TkPipe l r off = eval_bitwise (OR) ''|'' l r off"
    by (simp_all add: eval_binary_def)
  show "eval_binary TkAmp l r off = Inr v \<longleftrightarrow> binary_means TkAmp l r v"
    "eval_binary TkCaret l r off = Inr v \<longleftrightarrow> binary_means TkCaret l r v"
    "eval_binary TkPipe l r off = Inr v \<longleftrightarrow> binary_means TkPipe l r v"
    unfolding e eval_bitwise_iff bitwise_simps bitwise_iff by blast+
qed

lemma equality_means:
  "eval_binary TkEq l r off = Inr v \<longleftrightarrow> binary_means TkEq l r v"
  "eval_binary TkNe l r off = Inr v \<longleftrightarrow> binary_means TkNe l r v"
  by (auto simp: eval_binary_def equality_simps values_equal_iff)

lemma eval_compare_sign:
  assumes "compares l r c"
  shows "eval_compare opr l r off =
    (case opr of TkLt \<Rightarrow> Inr (VBool (sign_of c < 0)) | TkLe \<Rightarrow> Inr (VBool (sign_of c \<le> 0))
     | TkGt \<Rightarrow> Inr (VBool (sign_of c > 0)) | TkGe \<Rightarrow> Inr (VBool (sign_of c \<ge> 0))
     | _ \<Rightarrow> eval_error kBadType off ''bad comparison'')"
proof (cases "is_number l \<and> is_number r")
  case True
  then obtain d where "compares l r d" "compare_numbers l r = sign_of d" "\<forall>c. compares l r c \<longrightarrow> c = d"
    using compare_numbers_sign [of l r] by blast
  with assms have "compare_numbers l r = sign_of c" by auto
  with True show ?thesis by (simp add: eval_compare_def)
next
  case False
  then obtain s t where "l = VStr s" "r = VStr t" "c = outcome (bytes_of_string s) (bytes_of_string t)"
    by (insert assms, cases l; cases r) (auto simp: compares_simps is_number_def as_doubles_def)
  then show ?thesis by (cases opr) (simp_all add: eval_compare_def is_number_def string_compare_sign)
qed

lemma eval_compare_defined:
  "eval_compare opr l r off = Inr v \<Longrightarrow> \<exists>c. compares l r c"
proof (cases "is_number l \<and> is_number r")
  case True
  then show ?thesis using compare_numbers_sign [of l r] by blast
next
  case False
  moreover assume "eval_compare opr l r off = Inr v"
  ultimately obtain s t where "l = VStr s" "r = VStr t"
    by (cases l; cases r) (auto simp: eval_compare_def eval_error_def is_number_def)
  then show ?thesis using compares.strings by blast
qed

lemma sign_of_simps:
  "sign_of c < 0 \<longleftrightarrow> c = Less" "sign_of c \<le> 0 \<longleftrightarrow> c \<noteq> Greater" "0 < sign_of c \<longleftrightarrow> c = Greater" "0 \<le> sign_of c \<longleftrightarrow> c \<noteq> Less"
  by (cases c; simp add: sign_of_def)+

lemma order_means:
  "eval_binary TkLt l r off = Inr v \<longleftrightarrow> binary_means TkLt l r v"
  "eval_binary TkLe l r off = Inr v \<longleftrightarrow> binary_means TkLe l r v"
  "eval_binary TkGt l r off = Inr v \<longleftrightarrow> binary_means TkGt l r v"
  "eval_binary TkGe l r off = Inr v \<longleftrightarrow> binary_means TkGe l r v"
  using eval_compare_defined [of _ l r off v] eval_compare_sign [of l r _ _ off]
  by (fastforce simp: eval_binary_def order_simps sign_of_simps)+

definition plain_operators :: "token_kind set" where
  "plain_operators = {TkPlus, TkMinus, TkStar, TkSlash, TkPercent, TkShl, TkShr, TkAmp, TkCaret, TkPipe, TkEq, TkNe,
     TkLt, TkLe, TkGt, TkGe}"

lemma binary_means_plain: "binary_means opr l r v \<Longrightarrow> opr \<in> plain_operators"
  by (auto simp: plain_operators_def elim: binary_means.cases)

lemma eval_binary_plain: "eval_binary opr l r off = Inr v \<Longrightarrow> opr \<in> plain_operators"
  by (cases opr) (simp_all add: plain_operators_def eval_binary_def eval_error_def)

theorem eval_binary_means: "eval_binary opr l r off = Inr v \<longleftrightarrow> binary_means opr l r v"
proof (cases "opr \<in> plain_operators")
  case True
  then show ?thesis
    unfolding plain_operators_def
    by (elim insertE emptyE)
      (simp_all add: arith_means division_means shift_means bitwise_means equality_means order_means)
next
  case False
  then show ?thesis using binary_means_plain eval_binary_plain by blast
qed

text \<open>The sign bit of a double is changed and nothing else.\<close>

lemma dbl_sign_bit: "dbl_sign b \<longleftrightarrow> bit b 63"
proof -
  have "unat b < 2 * 2 ^ 63" using unsigned_less [of b, where ?'a = nat] by simp
  then have "unat b div 2 ^ 63 = (if 2 ^ 63 \<le> unat b then 1 else 0)" by (simp add: div_nat_eqI)
  then have "odd (unat b div 2 ^ 63) \<longleftrightarrow> dbl_sign b" by (simp add: dbl_sign_def)
  moreover have "odd (unat b div 2 ^ 63) \<longleftrightarrow> bit (unat b) 63" by (simp add: bit_iff_odd)
  ultimately show ?thesis by (simp add: bit_unsigned_iff)
qed

lemma low_bits_eq: "unat g mod 2 ^ 63 = unat f mod 2 ^ 63 \<longleftrightarrow> take_bit 63 g = take_bit 63 f" for f g :: u64
  by (simp only: word_unat_eq_iff unsigned_take_bit_eq take_bit_eq_mod [where ?'a = nat])

lemma bit_negate: "n < 64 \<Longrightarrow> bit (dbl_negate f) n \<longleftrightarrow> bit f n \<noteq> (n = 63)"
  unfolding dbl_negate_def bit_xor_iff bit_push_bit_iff bit_1_iff by auto

lemma negate_iff: "g = dbl_negate f \<longleftrightarrow> (dbl_sign g \<longleftrightarrow> \<not> dbl_sign f) \<and> unat g mod 2 ^ 63 = unat f mod 2 ^ 63"
proof -
  have "g = dbl_negate f \<longleftrightarrow> (\<forall>n < 64. bit g n \<longleftrightarrow> bit f n \<noteq> (n = 63))"
    by (auto simp: bit_negate intro!: bit_word_eqI)
  also have "\<dots> \<longleftrightarrow> (bit g 63 \<longleftrightarrow> \<not> bit f 63) \<and> (\<forall>n < 63. bit g n = bit f n)"
  proof -
    have "n < 64 \<longleftrightarrow> n < 63 \<or> n = 63" for n :: nat by arith
    then show ?thesis by auto
  qed
  also have "(\<forall>n < 63. bit g n = bit f n) \<longleftrightarrow> take_bit 63 g = take_bit 63 f"
  proof
    assume "take_bit 63 g = take_bit 63 f"
    then show "\<forall>n < 63. bit g n = bit f n" by (metis bit_take_bit_iff)
  qed (auto intro!: bit_word_eqI simp: bit_take_bit_iff)
  finally show ?thesis unfolding low_bits_eq dbl_sign_bit .
qed

inductive_simps unary_simps:
  "unary_means TkMinus v w" "unary_means TkBang v w" "unary_means TkTilde v w"

lemma unary_operators:
  "eval_unary TkMinus v off = Inr w \<longleftrightarrow> unary_means TkMinus v w"
  "eval_unary TkBang v off = Inr w \<longleftrightarrow> unary_means TkBang v w"
  "eval_unary TkTilde v off = Inr w \<longleftrightarrow> unary_means TkTilde v w"
proof -
  show "eval_unary TkMinus v off = Inr w \<longleftrightarrow> unary_means TkMinus v w"
  proof (cases "\<exists>f. v = VFloat f")
    case True
    then obtain f where "v = VFloat f" by blast
    have "unary_means TkMinus (VFloat f) w \<longleftrightarrow>
        (\<exists>g. w = VFloat g \<and> (dbl_sign g \<longleftrightarrow> \<not> dbl_sign f) \<and> unat g mod 2 ^ 63 = unat f mod 2 ^ 63)"
      unfolding unary_simps by auto
    also have "\<dots> \<longleftrightarrow> w = VFloat (dbl_negate f)" unfolding negate_iff [symmetric] by blast
    finally show ?thesis using \<open>v = VFloat f\<close> by (auto simp: eval_unary_def)
  next
    case False
    then show ?thesis by (cases v) (auto simp: eval_unary_def eval_error_def unary_simps)
  qed
  show "eval_unary TkBang v off = Inr w \<longleftrightarrow> unary_means TkBang v w"
    by (auto simp: eval_unary_def unary_simps truthy_iff)
  show "eval_unary TkTilde v off = Inr w \<longleftrightarrow> unary_means TkTilde v w"
    by (cases v) (auto simp: eval_unary_def eval_error_def require_int_def unary_simps not_eq_complement)
qed

theorem eval_unary_means: "eval_unary opr v off = Inr w \<longleftrightarrow> unary_means opr v w"
proof (cases "opr \<in> {TkMinus, TkBang, TkTilde}")
  case True
  then show ?thesis by (elim insertE emptyE) (simp_all add: unary_operators)
next
  case False
  then have "\<not> unary_means opr v w" by (auto elim: unary_means.cases)
  moreover have "eval_unary opr v off \<noteq> Inr w" using False by (cases opr) (simp_all add: eval_unary_def eval_error_def)
  ultimately show ?thesis by blast
qed

end
