(* ===== verification/Cs_Semantics.thy ===== *)
theory Cs_Semantics
  imports Cs_Eval_Laws Cs_Meaning
begin

text \<open>
  A reference semantics of expressions: a big-step relation over the meanings of \<open>Cs_Meaning\<close>, without a
  depth counter, which records how many levels an evaluation needs (branches that are skipped need none).
  It uses none of the evaluator's functions. The evaluator returns a value exactly when the relation gives
  it within the levels that are left. Then the arithmetic of the language: truncating division at 64 bits,
  and the comparisons of a NaN.
\<close>

section \<open>Big-step semantics\<close>

inductive evals :: "environment \<Rightarrow> expr \<Rightarrow> cvalue \<Rightarrow> nat \<Rightarrow> bool"
  and evals_list :: "environment \<Rightarrow> expr list \<Rightarrow> cvalue list \<Rightarrow> nat \<Rightarrow> bool"
  and evals_fields :: "environment \<Rightarrow> (string \<times> expr) list \<Rightarrow> (string \<times> cvalue) list \<Rightarrow> nat \<Rightarrow> bool"
  for env :: environment where
  EvNull: "evals env (ENull off) VNull 0"
| EvBool: "evals env (EBool off b) (VBool b) 0"
| EvInt: "evals env (EInt off i) (VInt i) 0"
| EvFloat: "evals env (EFloat off f) (VFloat f) 0"
| EvStr: "evals env (EStr off s) (VStr s) 0"
| EvIdent: "denotes env name v \<Longrightarrow> evals env (EIdent off name) v 0"
| EvArray: "evals_list env es vs k \<Longrightarrow> evals env (EArray off es) (VArray vs) k"
| EvObject: "evals_fields env es fs k \<Longrightarrow> evals env (EObject off es) (VObject fs) k"
| EvUnary: "evals env e v k \<Longrightarrow> unary_means opr v w \<Longrightarrow> evals env (EUnary off opr e) w (Suc k)"
| EvTrue: "evals env c v k \<Longrightarrow> v \<notin> false_values \<Longrightarrow> evals env a w j \<Longrightarrow>
    evals env (ETernary off c a b) w (Suc (max k j))"
| EvFalse: "evals env c v k \<Longrightarrow> v \<in> false_values \<Longrightarrow> evals env b w j \<Longrightarrow>
    evals env (ETernary off c a b) w (Suc (max k j))"
| EvAndSkip: "evals env a l k \<Longrightarrow> l \<in> false_values \<Longrightarrow> evals env (EBinary off TkAndAnd a b) (VBool False) (Suc k)"
| EvAnd: "evals env a l k \<Longrightarrow> l \<notin> false_values \<Longrightarrow> evals env b r j \<Longrightarrow>
    evals env (EBinary off TkAndAnd a b) (VBool (r \<notin> false_values)) (Suc (max k j))"
| EvOrSkip: "evals env a l k \<Longrightarrow> l \<notin> false_values \<Longrightarrow> evals env (EBinary off TkOrOr a b) (VBool True) (Suc k)"
| EvOr: "evals env a l k \<Longrightarrow> l \<in> false_values \<Longrightarrow> evals env b r j \<Longrightarrow>
    evals env (EBinary off TkOrOr a b) (VBool (r \<notin> false_values)) (Suc (max k j))"
| EvBinary: "evals env a l k \<Longrightarrow> evals env b r j \<Longrightarrow> binary_means opr l r v \<Longrightarrow>
    evals env (EBinary off opr a b) v (Suc (max k j))"
| EvNil: "evals_list env [] [] 0"
| EvCons: "evals env e v k \<Longrightarrow> evals_list env es vs j \<Longrightarrow> evals_list env (e # es) (v # vs) (max (Suc k) j)"
| EvNoField: "evals_fields env [] [] 0"
| EvField: "evals env e v k \<Longrightarrow> evals_fields env es fs j \<Longrightarrow>
    evals_fields env ((key, e) # es) ((key, v) # fs) (max (Suc k) j)"

inductive_simps evals_simps [simp]:
  "evals env (ENull off) v k" "evals env (EBool off b) v k" "evals env (EInt off i) v k" "evals env (EFloat off f) v k"
  "evals env (EStr off s) v k" "evals env (EIdent off name) v k" "evals env (EArray off es) v k"
  "evals env (EObject off fs) v k" "evals env (EUnary off opr e) v k" "evals env (ETernary off c a b) v k"
  "evals env (EBinary off opr a b) v k" "evals_list env [] vs k" "evals_list env (e # es) vs k"
  "evals_fields env [] fs k" "evals_fields env ((key, e) # es) fs k"

lemma require_depth_Inr: "require_depth depth at = Inr x \<longleftrightarrow> depth \<le> kMaxDepth"
  by (auto simp: require_depth_def eval_error_def)

text \<open>The functions of the evaluator, read as their meanings.\<close>

lemmas meanings = eval_binary_means eval_unary_means env_lookup_iff truthy_iff

lemma binary_means_strict: "binary_means opr l r v \<Longrightarrow> opr \<noteq> TkAndAnd \<and> opr \<noteq> TkOrOr"
  using binary_means_plain by (fastforce simp: plain_operators_def)

text \<open>The relation is sound for the evaluator within the levels that are left.\<close>

lemma evals_evaluate:
  "evals env e v k \<Longrightarrow> depth + k \<le> kMaxDepth \<Longrightarrow> evaluate e env depth = Inr v"
  "evals_list env es vs k \<Longrightarrow> (es \<noteq> [] \<longrightarrow> depth + k \<le> kMaxDepth) \<Longrightarrow> evaluate_elements es env (depth + 1) = Inr vs"
  "evals_fields env fes fs k \<Longrightarrow> (fes \<noteq> [] \<longrightarrow> depth + k \<le> kMaxDepth) \<Longrightarrow> evaluate_fields fes env (depth + 1) = Inr fs"
proof (induction arbitrary: depth and depth and depth rule: evals_evals_list_evals_fields.inducts)
qed (auto simp: require_depth_def max_def meanings env_lookup_iff [THEN iffD2] dest: binary_means_strict split: if_splits)

text \<open>Every value the evaluator returns is derivable.\<close>

lemma evaluate_evals:
  "evaluate e env depth = Inr v \<Longrightarrow> \<exists>k. evals env e v k \<and> depth + k \<le> kMaxDepth"
  "evaluate_elements es env depth = Inr vs \<Longrightarrow> \<exists>k. evals_list env es vs k \<and> (k = 0 \<or> depth + k \<le> kMaxDepth + 1)"
  "evaluate_fields fes env depth = Inr fs \<Longrightarrow> \<exists>k. evals_fields env fes fs k \<and> (k = 0 \<or> depth + k \<le> kMaxDepth + 1)"
proof (induction e env depth and es env depth and fes env depth arbitrary: v and vs and fs
    rule: evaluate_evaluate_elements_evaluate_fields.induct)
  case (6 off name env depth)
  then show ?case
    by (auto simp: require_depth_Inr bindE_eq_Inr eval_error_def env_lookup_iff [symmetric] split: option.splits)
next
  case (9 off opr e env depth)
  from "9.prems" obtain w where ok: "require_depth depth off = Inr ()" and w: "evaluate e env (depth + 1) = Inr w"
    and v: "eval_unary opr w off = Inr v" by (auto simp: bindE_eq_Inr)
  with "9.IH" obtain k where "evals env e w k" "depth + 1 + k \<le> kMaxDepth" by blast
  with v show ?case by (intro exI [of _ "Suc k"] conjI EvUnary) (simp_all add: meanings)
next
  case (10 off c a b env depth)
  from "10.prems" obtain w where ok: "require_depth depth off = Inr ()" and w: "evaluate c env (depth + 1) = Inr w"
    and v: "(if truthy w then evaluate a env (depth + 1) else evaluate b env (depth + 1)) = Inr v"
    by (auto simp: bindE_eq_Inr)
  from "10.IH"(1) [OF ok w] obtain k where k: "evals env c w k" "depth + 1 + k \<le> kMaxDepth" by blast
  show ?case
  proof (cases "truthy w")
    case True
    with "10.IH"(2) [OF ok w] v obtain j where "evals env a v j" "depth + 1 + j \<le> kMaxDepth" by auto
    with k True show ?thesis by (intro exI [of _ "Suc (max k j)"] conjI EvTrue) (auto simp: truthy_iff)
  next
    case False
    with "10.IH"(3) [OF ok w] v obtain j where "evals env b v j" "depth + 1 + j \<le> kMaxDepth" by auto
    with k False show ?thesis by (intro exI [of _ "Suc (max k j)"] conjI EvFalse) (auto simp: truthy_iff)
  qed
next
  case (11 off opr a b env depth)
  from "11.prems" have ok: "require_depth depth off = Inr ()" by (auto simp: bindE_eq_Inr)
  with "11.prems" obtain l where l: "evaluate a env (depth + 1) = Inr l"
    by (auto simp: bindE_eq_Inr split: if_splits)
  from "11.IH"(1,3,5) [OF ok] l obtain k where k: "evals env a l k" "depth + 1 + k \<le> kMaxDepth" by blast
  have right: "\<exists>j. evals env b r j \<and> depth + 1 + j \<le> kMaxDepth"
    if "evaluate b env (depth + 1) = Inr r" "opr = TkAndAnd \<longrightarrow> truthy l" "opr = TkOrOr \<longrightarrow> \<not> truthy l" for r
    using "11.IH"(2,4,6) [OF ok] l that by (cases "opr = TkAndAnd"; cases "opr = TkOrOr") auto
  consider (skip_and) "opr = TkAndAnd" "\<not> truthy l" "v = VBool False"
    | (skip_or) "opr = TkOrOr" "truthy l" "v = VBool True"
    | (both) r where "evaluate b env (depth + 1) = Inr r" "opr = TkAndAnd \<longrightarrow> truthy l" "opr = TkOrOr \<longrightarrow> \<not> truthy l"
        "opr \<in> {TkAndAnd, TkOrOr} \<longrightarrow> v = VBool (truthy r)"
        "opr \<notin> {TkAndAnd, TkOrOr} \<longrightarrow> eval_binary opr l r off = Inr v"
    using "11.prems" ok l by (fastforce simp: bindE_eq_Inr split: if_splits)
  then show ?case
  proof cases
    case skip_and
    with k show ?thesis by (intro exI [of _ "Suc k"]) (auto simp: truthy_iff intro: EvAndSkip)
  next
    case skip_or
    with k show ?thesis by (intro exI [of _ "Suc k"]) (auto simp: truthy_iff intro: EvOrSkip)
  next
    case both
    from right [OF both(1-3)] obtain j where "evals env b r j" "depth + 1 + j \<le> kMaxDepth" by blast
    with k both show ?thesis
      by (cases "opr = TkAndAnd"; cases "opr = TkOrOr"; intro exI [of _ "Suc (max k j)"])
        (auto simp: meanings simp del: evals_simps intro: EvAnd EvOr EvBinary)
  qed
next
  case (13 e es env depth)
  from "13.prems" obtain w ws where r: "evaluate e env depth = Inr w" "evaluate_elements es env depth = Inr ws"
    and vs: "vs = w # ws" by (auto simp: bindE_eq_Inr)
  from "13.IH"(1) [OF r(1)] "13.IH"(2) [OF r] obtain k j where "evals env e w k" "evals_list env es ws j"
    "depth + k \<le> kMaxDepth" "j = 0 \<or> depth + j \<le> kMaxDepth + 1" by blast
  with vs show ?case by (intro exI [of _ "max (Suc k) j"] conjI) (auto intro: EvCons)
next
  case (15 key e es env depth)
  from "15.prems" obtain w ws where r: "evaluate e env depth = Inr w" "evaluate_fields es env depth = Inr ws"
    and fs: "fs = (key, w) # ws" by (auto simp: bindE_eq_Inr)
  from "15.IH"(1) [OF r(1)] "15.IH"(2) [OF r] obtain k j where "evals env e w k" "evals_fields env es ws j"
    "depth + k \<le> kMaxDepth" "j = 0 \<or> depth + j \<le> kMaxDepth + 1" by blast
  with fs show ?case by (intro exI [of _ "max (Suc k) j"] conjI) (auto intro: EvField)
next
  case (7 off es env depth)
  from "7.prems" obtain vs where ok: "require_depth depth off = Inr ()" and es: "evaluate_elements es env (depth + 1) = Inr vs"
    and v: "v = VArray vs" by (auto simp: bindE_eq_Inr)
  from "7.IH" [OF ok es] obtain k where "evals_list env es vs k" "k = 0 \<or> depth + 1 + k \<le> kMaxDepth + 1" by blast
  with ok v show ?case by (intro exI [of _ k] conjI) (auto simp: require_depth_Inr)
next
  case (8 off es env depth)
  from "8.prems" obtain fs where ok: "require_depth depth off = Inr ()" and es: "evaluate_fields es env (depth + 1) = Inr fs"
    and v: "v = VObject fs" by (auto simp: bindE_eq_Inr)
  from "8.IH" [OF ok es] obtain k where "evals_fields env es fs k" "k = 0 \<or> depth + 1 + k \<le> kMaxDepth + 1" by blast
  with ok v show ?case by (intro exI [of _ k] conjI) (auto simp: require_depth_Inr)
qed (auto simp: require_depth_Inr bindE_eq_Inr)

theorem evaluate_iff: "evaluate e env depth = Inr v \<longleftrightarrow> (\<exists>k. evals env e v k \<and> depth + k \<le> kMaxDepth)"
  using evaluate_evals(1) evals_evaluate(1) by blast

section \<open>Integer arithmetic\<close>

text \<open>Both operators truncate towards zero and wrap; only a zero divisor is an error.\<close>

lemma sint_trunc: "- (2 ^ 63) \<le> k \<Longrightarrow> k < 2 ^ 63 \<Longrightarrow> sint (word_of_int k :: i64) = k"
  by (simp add: sint_sbintrunc' take_bit_int_eq_self_iff signed_take_bit_int_eq_self_iff)

lemma sdiv_in_range:
  assumes x: "- (2 ^ 63) \<le> x" "x < 2 ^ 63" and y: "y \<noteq> 0" and ok: "\<not> (x = - (2 ^ 63) \<and> y = - 1)"
  shows "- (2 ^ 63) \<le> x sdiv y \<and> x sdiv y < (2 ^ 63 :: int)"
proof -
  consider "y = 1" | "y = - 1" | "2 \<le> \<bar>y\<bar>" using y by linarith
  then show ?thesis
  proof cases
    case 3
    have "\<bar>x\<bar> div \<bar>y\<bar> \<le> \<bar>x\<bar> div 2" by (rule zdiv_mono2) (use 3 in auto)
    moreover have "\<bar>x\<bar> div 2 < 2 ^ 63" using x by linarith
    ultimately have "\<bar>x\<bar> div \<bar>y\<bar> < 2 ^ 63" by simp
    moreover have "0 \<le> \<bar>x\<bar> div \<bar>y\<bar>" by (simp add: pos_imp_zdiv_nonneg_iff y)
    ultimately show ?thesis by (auto simp: signed_divide_int_def sgn_if)
  qed (use x ok in auto)
qed

lemma sint_min: "sint (x :: i64) = - (2 ^ 63) \<longleftrightarrow> x = int64_min"
proof -
  have "sint int64_min = - (2 ^ 63)" by (simp add: int64_min_def)
  then show ?thesis by (metis signed_word_eqI)
qed

theorem division_exact:
  assumes y: "y \<noteq> 0"
  obtains q r where "eval_div_mod TkSlash (VInt x) (VInt y) off = Inr (VInt q)"
    "eval_div_mod TkPercent (VInt x) (VInt y) off = Inr (VInt r)"
    "x = q * y + r" "\<bar>sint r\<bar> < \<bar>sint y\<bar>" "sint r = 0 \<or> sgn (sint r) = sgn (sint x)"
    "sint q = sint x sdiv sint y \<or> x = int64_min \<and> y = - 1 \<and> q = int64_min"
proof (cases "y = - 1 \<and> x = int64_min")
  case True
  have "int64_min = int64_min * - 1" by code_simp
  with True show thesis by (intro that [of int64_min 0]) (simp_all add: eval_div_mod_def is_number_def)
next
  case False
  let ?q = "sint x sdiv sint y" and ?r = "sint x smod sint y"
  have y0: "sint y \<noteq> 0" using y by (metis signed_word_eqI sint_0)
  have r: "\<bar>?r\<bar> < \<bar>sint y\<bar>" by (rule smod_magnitude [OF y0])
  have "\<bar>sint y\<bar> \<le> 2 ^ 63" using sint_bounds [of y] by auto
  with r have sr: "sint (word_of_int ?r :: i64) = ?r" by (intro sint_trunc) auto
  have "sint y = - 1 \<longleftrightarrow> y = - 1" by (metis signed_word_eqI sint_n1)
  with False sdiv_in_range [OF sint_bounds [of x] y0] sint_min [of x] have sq: "sint (word_of_int ?q :: i64) = ?q"
    by (intro sint_trunc) auto
  have "word_of_int (?q * sint y + ?r) = (word_of_int (sint x) :: i64)" by (simp add: sdiv_mult_smod_eq)
  then have "x = word_of_int ?q * y + word_of_int ?r" by (simp add: wi_hom_syms)
  with False y sq sr r smod_sign [of "sint x" "sint y"] show thesis
    by (intro that [of "word_of_int ?q" "word_of_int ?r"]) (auto simp: eval_div_mod_def is_number_def)
qed

section \<open>Comparisons\<close>

lemma nan_less: "dbl_is_nan f \<Longrightarrow> \<not> dbl_less f g" "dbl_is_nan f \<Longrightarrow> \<not> dbl_less g f"
  by (simp_all add: dbl_less_def)

lemma number_cases:
  assumes "is_number v"
  obtains i where "v = VInt i" | f where "v = VFloat f"
  using assms by (cases v) (auto simp: is_number_def)

text \<open>A NaN compares as equal to every number, and passes every range of a schema.\<close>

theorem nan_compares:
  assumes nan: "dbl_is_nan f" and v: "is_number v"
  shows "compare_numbers (VFloat f) v = 0" "compare_numbers v (VFloat f) = 0"
  using v by (cases rule: number_cases; simp add: compare_numbers_def Let_def nan_less [OF nan])+

theorem nan_operators:
  assumes nan: "dbl_is_nan f" and v: "is_number v"
  shows "eval_binary TkEq (VFloat f) v off = Inr (VBool True)" "eval_binary TkEq v (VFloat f) off = Inr (VBool True)"
    "eval_binary TkLe (VFloat f) v off = Inr (VBool True)" "eval_binary TkGe (VFloat f) v off = Inr (VBool True)"
    "eval_binary TkNe (VFloat f) v off = Inr (VBool False)" "eval_binary TkLt (VFloat f) v off = Inr (VBool False)"
proof -
  have f: "is_number (VFloat f)" by (simp add: is_number_def)
  have "values_equal (VFloat f) v" "values_equal v (VFloat f)"
    using v f nan_compares [OF nan v] by (cases rule: number_cases; simp)+
  with f v nan_compares [OF nan v] show "eval_binary TkEq (VFloat f) v off = Inr (VBool True)"
    "eval_binary TkEq v (VFloat f) off = Inr (VBool True)"
    "eval_binary TkLe (VFloat f) v off = Inr (VBool True)" "eval_binary TkGe (VFloat f) v off = Inr (VBool True)"
    "eval_binary TkNe (VFloat f) v off = Inr (VBool False)" "eval_binary TkLt (VFloat f) v off = Inr (VBool False)"
    by (simp_all add: eval_binary_def eval_compare_def)
qed

section \<open>A NaN can be written\<close>

text \<open>There is no literal for a NaN, but finite literals reach one: the product of two large numbers overflows.\<close>

lemma bit_length_pow: "bit_length (2 ^ k) = Suc k"
  by (induction k) (simp_all add: bit_length.simps [of "2 * 2 ^ k" for k] bit_length.simps [of "Suc 0"] bit_length.simps [of 0])

lemma round_overflow:
  assumes "1025 \<le> k"
  shows "dbl_round neg (2 ^ k) 1 = dbl_inf neg"
proof -
  have "ratio_log2 (2 ^ k) 1 = int k"
    using bit_length_pow [of 0] by (simp add: ratio_log2_def bit_length_pow ratio_shift_def)
  moreover have "2047 * 2 ^ 52 \<le> nat (int k - 52 + 1074) * 2 ^ 52 + m" for m
    by (rule trans_le_add1, rule mult_le_mono1) (use assms in simp)
  ultimately show ?thesis using assms by (simp add: dbl_round_def Let_def)
qed

definition huge :: u64 where
  "huge = 0x7FE0000000000000"

lemma huge_fields: "dbl_biased huge = 2046" "dbl_fraction huge = 0" "\<not> dbl_sign huge"
  by (simp_all add: huge_def dbl_biased_def dbl_fraction_def dbl_sign_def)

lemma huge_times_huge: "dbl_mul huge huge = dbl_inf False"
proof -
  have mant: "dbl_mant huge = 2 ^ 52" and exp: "dbl_exp huge = 971"
    by (simp_all add: dbl_mant_def dbl_exp_def huge_fields)
  have "dbl_mul huge huge = dbl_scale False (2 ^ 52 * 2 ^ 52) (971 + 971)"
    by (simp add: dbl_mul_def Let_def dbl_is_nan_def dbl_is_inf_def huge_fields mant exp)
  also have "\<dots> = dbl_round False (2 ^ (52 + 52 + nat (971 + 971))) 1"
    by (simp add: dbl_scale_def flip: power_add)
  also have "\<dots> = dbl_inf False" by (rule round_overflow) simp
  finally show ?thesis .
qed

lemma inf_fields:
  "\<not> dbl_is_nan (dbl_inf neg)" "dbl_is_inf (dbl_inf neg)" "dbl_sign (dbl_inf neg) \<longleftrightarrow> neg"
  "dbl_negate (dbl_inf False) = dbl_inf True"
proof -
  have inf: "dbl_inf False = 0x7FF0000000000000" "dbl_inf True = 0xFFF0000000000000"
    by (simp_all add: dbl_inf_def dbl_bits_def)
  show "\<not> dbl_is_nan (dbl_inf neg)" "dbl_is_inf (dbl_inf neg)" "dbl_sign (dbl_inf neg) \<longleftrightarrow> neg"
    by (cases neg; simp add: inf dbl_is_nan_def dbl_is_inf_def dbl_biased_def dbl_fraction_def dbl_sign_def)+
  show "dbl_negate (dbl_inf False) = dbl_inf True"
    unfolding inf dbl_negate_def by code_simp
qed

lemma inf_minus_inf: "dbl_sub (dbl_inf False) (dbl_inf False) = dbl_nan"
  by (simp add: dbl_sub_def dbl_add_def inf_fields)

text \<open>The value of \<open>x * x - x * x\<close> for \<open>x = 2 ^ 1023\<close>.\<close>

theorem nan_written:
  "evaluate (EBinary a TkMinus (EBinary b TkStar (EFloat c huge) (EFloat d huge))
      (EBinary e TkStar (EFloat f huge) (EFloat g huge))) env 1 = Inr (VFloat dbl_nan)"
  by (simp add: require_depth_def kMaxDepth_def eval_binary_def eval_arith_def is_number_def Let_def huge_times_huge
      inf_minus_inf)

end
