(* ===== verification/Cs_Query.thy ===== *)
theory Cs_Query
  imports Cs_Model Hexdump
begin

text \<open>
  Path queries (\<^verbatim>\<open>include/cfgscript/query.hpp\<close>, \<^verbatim>\<open>src/cfgscript/query.cpp\<close>). An index is a
  \<^verbatim>\<open>std::size_t\<close> computed from the digits of the path, so it wraps.
\<close>

datatype query_step = QName string | QIndex u64

section \<open>Tokenizing a path\<close>

text \<open>The digits of an index, and whether there was one.\<close>

fun index_digits :: "u64 \<Rightarrow> bool \<Rightarrow> string \<Rightarrow> u64 \<times> bool \<times> string" where
  "index_digits v any [] = (v, any, [])"
| "index_digits v any (c # cs) =
     (if is_digit_char c then index_digits (v * 10 + of_nat (of_char c - 48)) True cs else (v, any, c # cs))"

lemma index_digits_le: "index_digits v any cs = (v', any', cs') \<Longrightarrow> length cs' \<le> length cs"
  by (induction v any cs rule: index_digits.induct) (auto split: if_splits)

definition name_char :: "char \<Rightarrow> bool" where
  "name_char c \<longleftrightarrow> c \<noteq> CHR ''.'' \<and> c \<noteq> CHR ''[''"

text \<open>One step off the front of a path: an index in brackets, or a name.\<close>

definition query_step_of :: "query_step list \<Rightarrow> string \<Rightarrow> (query_step \<times> string) option" where
  "query_step_of out path =
     (case path of
        [] \<Rightarrow> None
      | c # cs \<Rightarrow>
          if c = CHR ''[''
          then (if out = [] then None
                else case index_digits 0 False cs of (v, any, rest) \<Rightarrow>
                  if \<not> any then None
                  else case rest of
                         [] \<Rightarrow> None
                       | d # ds \<Rightarrow> if d = CHR '']'' then Some (QIndex v, ds) else None)
          else if c = CHR ''.'' then None
          else Some (QName (takeWhile name_char path), dropWhile name_char path))"

lemma query_step_of_less: "query_step_of out path = Some (s, rest) \<Longrightarrow> length rest < length path"
  by (auto simp: query_step_of_def name_char_def split: list.splits if_splits prod.splits
      dest!: index_digits_le intro: le_less_trans [OF length_dropWhile_le])

text \<open>The loop; \<open>out\<close> are the steps so far, and the result is \<open>None\<close> for \<^verbatim>\<open>false\<close>.\<close>

function query_tokenize :: "query_step list \<Rightarrow> string \<Rightarrow> query_step list option" where
  "query_tokenize out path =
     (if path = [] then Some out
      else if hd path = CHR ''.'' \<and> out = [] then None
      else (case query_step_of out (if hd path = CHR ''.'' then tl path else path) of
              None \<Rightarrow> None
            | Some (s, rest) \<Rightarrow> query_tokenize (out @ [s]) rest))"
  by pat_completeness auto
termination
  by (relation "measure (\<lambda>(out, path). length path)")
    (auto split: if_splits dest!: query_step_of_less)

declare query_tokenize.simps [simp del]

section \<open>Resolution\<close>

definition object_member :: "string \<Rightarrow> (string \<times> cvalue) list \<Rightarrow> cvalue option" where
  "object_member name fs = map_option snd (find (\<lambda>kv. fst kv = name) fs)"

fun walk_value :: "cvalue \<Rightarrow> query_step list \<Rightarrow> cvalue option" where
  "walk_value v [] = Some v"
| "walk_value v (QIndex i # steps) =
     (case v of
        VArray vs \<Rightarrow> if unat i \<ge> length vs then None else walk_value (vs ! unat i) steps
      | _ \<Rightarrow> None)"
| "walk_value v (QName name # steps) =
     (case v of
        VObject fs \<Rightarrow> (case object_member name fs of None \<Rightarrow> None | Some w \<Rightarrow> walk_value w steps)
      | _ \<Rightarrow> None)"

text \<open>
  The number of steps the path of an assignment consumes, 0 on a mismatch; \<open>steps\<close> are the steps from
  the position on, and \<open>n\<close> those consumed so far.
\<close>

fun match_path :: "nat \<Rightarrow> string list \<Rightarrow> query_step list \<Rightarrow> nat" where
  "match_path n [] steps = n"
| "match_path n (component # cs) [] = 0"
| "match_path n (component # cs) (step # steps) =
     (case step of
        QIndex i \<Rightarrow> 0
      | QName name \<Rightarrow> if name \<noteq> component then 0 else match_path (Suc n) cs steps)"

fun walk_assignments :: "cnode list \<Rightarrow> query_step list \<Rightarrow> cvalue option" where
  "walk_assignments [] steps = None"
| "walk_assignments (n # ns) steps =
     (case n of
        NdAssignment path v \<Rightarrow>
          if path = [] \<or> match_path 0 path steps \<noteq> length path then walk_assignments ns steps
          else walk_value v (drop (match_path 0 path steps) steps)
      | _ \<Rightarrow> walk_assignments ns steps)"

function walk_nodes :: "cnode list \<Rightarrow> query_step list \<Rightarrow> cvalue option"
  and walk_blocks :: "cnode list \<Rightarrow> string \<Rightarrow> query_step list \<Rightarrow> cvalue option" where
  "walk_nodes nodes steps =
     (case steps of
        [] \<Rightarrow> None
      | QIndex i # _ \<Rightarrow> None
      | QName name # rest \<Rightarrow>
          (case walk_blocks nodes name rest of
             Some v \<Rightarrow> Some v
           | None \<Rightarrow> walk_assignments nodes steps))"
| "walk_blocks [] name rest = None"
| "walk_blocks (n # ns) name rest =
     (case n of
        NdBlock nm label children \<Rightarrow>
          if nm = name
          then (case walk_nodes children rest of Some v \<Rightarrow> Some v | None \<Rightarrow> walk_blocks ns name rest)
          else walk_blocks ns name rest
      | _ \<Rightarrow> walk_blocks ns name rest)"
  by pat_completeness auto
termination
  by (relation "measure (\<lambda>x. case x of
       Inl (ns, steps) \<Rightarrow> 2 * size_list size ns + 1 | Inr (ns, name, steps) \<Rightarrow> 2 * size_list size ns)") auto

definition cs_query :: "document \<Rightarrow> string \<Rightarrow> cvalue option" where
  "cs_query doc path =
     (case query_tokenize [] path of
        None \<Rightarrow> None
      | Some steps \<Rightarrow> if steps = [] then None else walk_nodes doc steps)"

section \<open>Typed access\<close>

text \<open>A \<^verbatim>\<open>QueryResult\<close> is the value found, if any.\<close>

type_synonym query_result = "cvalue option"

definition cs_find :: "document \<Rightarrow> string \<Rightarrow> query_result" where
  "cs_find doc path = (case cs_query doc path of None \<Rightarrow> None | Some v \<Rightarrow> Some v)"

text \<open>The conversion of a float is undefined when its integer part is out of range (\<open>None\<close>).\<close>

definition result_as_int :: "i64 \<Rightarrow> query_result \<Rightarrow> i64 option" where
  "result_as_int fallback r =
     (case r of
        Some (VInt i) \<Rightarrow> Some i
      | Some (VFloat f) \<Rightarrow> dbl_truncate f
      | _ \<Rightarrow> Some fallback)"

definition result_as_double :: "u64 \<Rightarrow> query_result \<Rightarrow> u64" where
  "result_as_double fallback r =
     (case r of Some (VFloat f) \<Rightarrow> f | Some (VInt i) \<Rightarrow> dbl_of_int i | _ \<Rightarrow> fallback)"

definition result_as_bool :: "bool \<Rightarrow> query_result \<Rightarrow> bool" where
  "result_as_bool fallback r = (case r of Some (VBool b) \<Rightarrow> b | _ \<Rightarrow> fallback)"

definition result_as_string :: "string \<Rightarrow> query_result \<Rightarrow> string" where
  "result_as_string fallback r = (case r of Some (VStr s) \<Rightarrow> s | _ \<Rightarrow> fallback)"

definition result_as_array :: "query_result \<Rightarrow> cvalue list" where
  "result_as_array r = (case r of Some (VArray vs) \<Rightarrow> vs | _ \<Rightarrow> [])"

definition result_as_object :: "query_result \<Rightarrow> (string \<times> cvalue) list" where
  "result_as_object r = (case r of Some (VObject fs) \<Rightarrow> fs | _ \<Rightarrow> [])"

end
