(* ===== verification/Cs_Flatten.thy ===== *)
theory Cs_Flatten
  imports Cs_Serialize_Laws
begin

text \<open>
  Flattened documents and their differences (\<^verbatim>\<open>include/cfgscript/flatten.hpp\<close>,
  \<^verbatim>\<open>src/cfgscript/flatten.cpp\<close>). The last write of a path is what \<open>flat_view\<close> maps it to; a diff is
  exactly the difference of two views.
\<close>

section \<open>Flattening\<close>

record flat_entry =
  fe_path :: string
  fe_value :: string

definition join_path :: "string \<Rightarrow> string \<Rightarrow> string" where
  "join_path prefix leaf = (if prefix = [] then leaf else (prefix @ ''.'') @ leaf)"

definition join_index :: "string \<Rightarrow> nat \<Rightarrow> string" where
  "join_index prefix index = ((prefix @ ''['') @ dec_of_nat index) @ '']''"

fun render_scalar :: "cvalue \<Rightarrow> string" where
  "render_scalar VNull = ''null''"
| "render_scalar (VBool b) = (if b then ''true'' else ''false'')"
| "render_scalar (VInt i) = dec_of_int (sint i)"
| "render_scalar (VFloat f) = dbl_to_text f"
| "render_scalar (VStr s) = ([CHR 0x22] @ escape_string s) @ [CHR 0x22]"
| "render_scalar (VArray vs) = ''[]''"
| "render_scalar (VObject fs) = ''{}''"

fun flatten_into :: "string \<Rightarrow> cvalue \<Rightarrow> flat_entry list"
  and flatten_array :: "string \<Rightarrow> nat \<Rightarrow> cvalue list \<Rightarrow> flat_entry list"
  and flatten_object :: "string \<Rightarrow> (string \<times> cvalue) list \<Rightarrow> flat_entry list" where
  "flatten_into prefix (VArray vs) =
     (if vs = [] then [\<lparr>fe_path = prefix, fe_value = ''[]''\<rparr>] else flatten_array prefix 0 vs)"
| "flatten_into prefix (VObject fs) =
     (if fs = [] then [\<lparr>fe_path = prefix, fe_value = ''{}''\<rparr>] else flatten_object prefix fs)"
| "flatten_into prefix v = [\<lparr>fe_path = prefix, fe_value = render_scalar v\<rparr>]"
| "flatten_array prefix k [] = []"
| "flatten_array prefix k (v # vs) = flatten_into (join_index prefix k) v @ flatten_array prefix (Suc k) vs"
| "flatten_object prefix [] = []"
| "flatten_object prefix ((key, v) # fs) = flatten_into (join_path prefix key) v @ flatten_object prefix fs"

definition block_prefix :: "string \<Rightarrow> string \<Rightarrow> string option \<Rightarrow> string" where
  "block_prefix prefix name label =
     join_path prefix (case label of Some l \<Rightarrow> ((name @ ''['') @ l) @ '']'' | None \<Rightarrow> name)"

fun flatten_nodes :: "string \<Rightarrow> cnode list \<Rightarrow> flat_entry list" where
  "flatten_nodes prefix [] = []"
| "flatten_nodes prefix (NdAssignment path v # ns) =
     flatten_into (foldl join_path prefix path) v @ flatten_nodes prefix ns"
| "flatten_nodes prefix (NdBlock name label children # ns) =
     flatten_nodes (block_prefix prefix name label) children @ flatten_nodes prefix ns"
| "flatten_nodes prefix (NdInclude path # ns) =
     \<lparr>fe_path = join_path prefix ''include'', fe_value = path\<rparr> # flatten_nodes prefix ns"

definition flatten_value :: "string \<Rightarrow> cvalue \<Rightarrow> flat_entry list" where
  "flatten_value prefix v = flatten_into prefix v"

definition flatten_doc :: "document \<Rightarrow> flat_entry list" where
  "flatten_doc doc = flatten_nodes [] doc"

section \<open>Differences\<close>

datatype diff_kind = DkAdded | DkRemoved | DkChanged

record diff_entry =
  de_kind :: diff_kind
  de_path :: string
  de_old_value :: string
  de_new_value :: string

definition flat_index :: "flat_entry list \<Rightarrow> (string \<rightharpoonup> string)" where
  "flat_index es = foldl (\<lambda>index e. index(fe_path e \<mapsto> fe_value e)) Map.empty es"

text \<open>\<^verbatim>\<open>index[path]\<close>, which gives the empty string for a path that is not there.\<close>

definition index_at :: "(string \<rightharpoonup> string) \<Rightarrow> string \<Rightarrow> string" where
  "index_at index path = (case index path of Some v \<Rightarrow> v | None \<Rightarrow> [])"

fun removed_loop :: "(string \<rightharpoonup> string) \<Rightarrow> (string \<rightharpoonup> string) \<Rightarrow> string set \<Rightarrow> flat_entry list \<Rightarrow> diff_entry list" where
  "removed_loop a_index b_index seen [] = []"
| "removed_loop a_index b_index seen (e # es) =
     (if fe_path e \<in> seen then removed_loop a_index b_index seen es
      else (if b_index (fe_path e) = None
            then [\<lparr>de_kind = DkRemoved, de_path = fe_path e, de_old_value = index_at a_index (fe_path e),
                   de_new_value = []\<rparr>]
            else []) @ removed_loop a_index b_index (insert (fe_path e) seen) es)"

fun changed_loop :: "(string \<rightharpoonup> string) \<Rightarrow> (string \<rightharpoonup> string) \<Rightarrow> string set \<Rightarrow> flat_entry list \<Rightarrow> diff_entry list" where
  "changed_loop a_index b_index seen [] = []"
| "changed_loop a_index b_index seen (e # es) =
     (if fe_path e \<in> seen then changed_loop a_index b_index seen es
      else (case a_index (fe_path e) of
              None \<Rightarrow> [\<lparr>de_kind = DkAdded, de_path = fe_path e, de_old_value = [],
                        de_new_value = index_at b_index (fe_path e)\<rparr>]
            | Some old \<Rightarrow>
                if old \<noteq> index_at b_index (fe_path e)
                then [\<lparr>de_kind = DkChanged, de_path = fe_path e, de_old_value = old,
                       de_new_value = index_at b_index (fe_path e)\<rparr>]
                else []) @ changed_loop a_index b_index (insert (fe_path e) seen) es)"

definition diff_flat :: "flat_entry list \<Rightarrow> flat_entry list \<Rightarrow> diff_entry list" where
  "diff_flat a b =
     removed_loop (flat_index a) (flat_index b) {} a @ changed_loop (flat_index a) (flat_index b) {} b"

definition diff_docs :: "document \<Rightarrow> document \<Rightarrow> diff_entry list" where
  "diff_docs a b = diff_flat (flatten_doc a) (flatten_doc b)"

section \<open>A diff is the difference of the views\<close>

lemma flat_index_map_of: "flat_index es = map_of (rev (map (\<lambda>e. (fe_path e, fe_value e)) es))"
  by (induction es rule: rev_induct) (simp_all add: flat_index_def)

lemma dom_flat_index: "dom (flat_index es) = fe_path ` set es"
  by (auto simp: flat_index_map_of dom_map_of_conv_image_fst image_image)

text \<open>Both loops visit every path once, at its first occurrence.\<close>

fun fresh_paths :: "string set \<Rightarrow> string list \<Rightarrow> string list" where
  "fresh_paths seen [] = []"
| "fresh_paths seen (p # ps) =
     (if p \<in> seen then fresh_paths seen ps else p # fresh_paths (insert p seen) ps)"

lemma fresh_paths: "set (fresh_paths seen ps) = set ps - seen" "distinct (fresh_paths seen ps)"
  by (induction seen ps rule: fresh_paths.induct) auto

definition removed_at :: "(string \<rightharpoonup> string) \<Rightarrow> (string \<rightharpoonup> string) \<Rightarrow> string \<Rightarrow> diff_entry list" where
  "removed_at a b p =
     (if b p = None
      then [\<lparr>de_kind = DkRemoved, de_path = p, de_old_value = index_at a p, de_new_value = []\<rparr>] else [])"

definition changed_at :: "(string \<rightharpoonup> string) \<Rightarrow> (string \<rightharpoonup> string) \<Rightarrow> string \<Rightarrow> diff_entry list" where
  "changed_at a b p =
     (case a p of
        None \<Rightarrow> [\<lparr>de_kind = DkAdded, de_path = p, de_old_value = [], de_new_value = index_at b p\<rparr>]
      | Some old \<Rightarrow>
          if old \<noteq> index_at b p
          then [\<lparr>de_kind = DkChanged, de_path = p, de_old_value = old, de_new_value = index_at b p\<rparr>] else [])"

lemma removed_loop_paths:
  "removed_loop a b seen es = concat (map (removed_at a b) (fresh_paths seen (map fe_path es)))"
  by (induction es arbitrary: seen) (simp_all add: removed_at_def)

lemma changed_loop_paths:
  "changed_loop a b seen es = concat (map (changed_at a b) (fresh_paths seen (map fe_path es)))"
  by (induction es arbitrary: seen) (simp_all add: changed_at_def)

lemma entries_at:
  "d \<in> set (removed_at a b p) \<longleftrightarrow>
     b p = None \<and> d = \<lparr>de_kind = DkRemoved, de_path = p, de_old_value = index_at a p, de_new_value = []\<rparr>"
  "d \<in> set (changed_at a b p) \<longleftrightarrow>
     (case a p of
        None \<Rightarrow> d = \<lparr>de_kind = DkAdded, de_path = p, de_old_value = [], de_new_value = index_at b p\<rparr>
      | Some old \<Rightarrow> old \<noteq> index_at b p \<and>
          d = \<lparr>de_kind = DkChanged, de_path = p, de_old_value = old, de_new_value = index_at b p\<rparr>)"
  by (auto simp: removed_at_def changed_at_def split: option.split)

lemma distinct_concat_keyed:
  "distinct ps \<Longrightarrow> (\<And>p. distinct (map key (f p))) \<Longrightarrow> (\<And>p d. d \<in> set (f p) \<Longrightarrow> key d = p) \<Longrightarrow>
     distinct (map key (concat (map f ps)))"
  by (induction ps) (fastforce simp: image_iff)+

lemma diff_flat_distinct: "distinct (map de_path (diff_flat a b))"
proof -
  let ?A = "flat_index a" and ?B = "flat_index b"
  have "distinct (map de_path (removed_loop ?A ?B {} a))" "distinct (map de_path (changed_loop ?A ?B {} b))"
    unfolding removed_loop_paths changed_loop_paths
    by (rule distinct_concat_keyed;
        auto simp: fresh_paths removed_at_def changed_at_def split: option.splits if_splits)+
  moreover have "?B (de_path d) = None" if "d \<in> set (removed_loop ?A ?B {} a)" for d
    using that by (auto simp: removed_loop_paths entries_at)
  moreover have "?B (de_path d) \<noteq> None" if "d \<in> set (changed_loop ?A ?B {} b)" for d
  proof -
    have "de_path d \<in> fe_path ` set b"
      using that by (auto simp: changed_loop_paths entries_at fresh_paths split: option.splits)
    then show ?thesis by (simp flip: dom_flat_index add: domIff)
  qed
  ultimately show ?thesis by (fastforce simp: diff_flat_def)
qed

lemma entry_path:
  "d \<in> set (removed_at a b p) \<Longrightarrow> de_path d = p" "d \<in> set (changed_at a b p) \<Longrightarrow> de_path d = p"
  by (auto simp: removed_at_def changed_at_def split: option.splits if_splits)

lemma in_diff_flat:
  "d \<in> set (diff_flat a b) \<longleftrightarrow>
     flat_index a (de_path d) \<noteq> None \<and> d \<in> set (removed_at (flat_index a) (flat_index b) (de_path d)) \<or>
     flat_index b (de_path d) \<noteq> None \<and> d \<in> set (changed_at (flat_index a) (flat_index b) (de_path d))"
proof -
  have "d \<in> set (diff_flat a b) \<longleftrightarrow>
     (\<exists>p \<in> dom (flat_index a). d \<in> set (removed_at (flat_index a) (flat_index b) p)) \<or>
     (\<exists>p \<in> dom (flat_index b). d \<in> set (changed_at (flat_index a) (flat_index b) p))"
    by (simp add: diff_flat_def removed_loop_paths changed_loop_paths fresh_paths dom_flat_index)
  then show ?thesis by (auto dest: entry_path)
qed

lemma diff_flat_set:
  "\<lparr>de_kind = k, de_path = p, de_old_value = old, de_new_value = new\<rparr> \<in> set (diff_flat a b) \<longleftrightarrow>
     (case (flat_index a p, flat_index b p) of
        (Some v, None) \<Rightarrow> k = DkRemoved \<and> old = v \<and> new = []
      | (None, Some w) \<Rightarrow> k = DkAdded \<and> old = [] \<and> new = w
      | (Some v, Some w) \<Rightarrow> v \<noteq> w \<and> k = DkChanged \<and> old = v \<and> new = w
      | (None, None) \<Rightarrow> False)"
  by (cases "flat_index a p"; cases "flat_index b p")
    (auto simp: in_diff_flat entries_at index_at_def)

text \<open>Applying a diff entry to a view.\<close>

definition apply_entry :: "diff_entry \<Rightarrow> (string \<rightharpoonup> string) \<Rightarrow> (string \<rightharpoonup> string)" where
  "apply_entry d view =
     view(de_path d := if de_kind d = DkRemoved then None else Some (de_new_value d))"

lemma fold_apply_other: "p \<notin> de_path ` set ds \<Longrightarrow> fold apply_entry ds view p = view p"
  by (induction ds arbitrary: view) (auto simp: apply_entry_def)

lemma fold_apply_entry:
  "distinct (map de_path ds) \<Longrightarrow> d \<in> set ds \<Longrightarrow>
     fold apply_entry ds view (de_path d) = (if de_kind d = DkRemoved then None else Some (de_new_value d))"
  by (induction ds arbitrary: view) (auto simp: fold_apply_other apply_entry_def)

lemma diff_flat_patches: "fold apply_entry (diff_flat a b) (flat_index a) = flat_index b"
proof
  fix p
  show "fold apply_entry (diff_flat a b) (flat_index a) p = flat_index b p"
  proof (cases "p \<in> de_path ` set (diff_flat a b)")
    case False
    then have no: "\<lparr>de_kind = k, de_path = p, de_old_value = old, de_new_value = new\<rparr> \<notin> set (diff_flat a b)" for k old new
      by force
    have "flat_index a p = flat_index b p"
      using no [of DkRemoved "the (flat_index a p)" "[]"] no [of DkAdded "[]" "the (flat_index b p)"]
        no [of DkChanged "the (flat_index a p)" "the (flat_index b p)"]
      unfolding diff_flat_set by (cases "flat_index a p"; cases "flat_index b p") auto
    with False show ?thesis by (simp add: fold_apply_other)
  next
    case True
    then obtain d where d: "d \<in> set (diff_flat a b)" "p = de_path d" by auto
    have "\<lparr>de_kind = de_kind d, de_path = de_path d, de_old_value = de_old_value d, de_new_value = de_new_value d\<rparr> = d"
      by simp
    then have "\<lparr>de_kind = de_kind d, de_path = p, de_old_value = de_old_value d, de_new_value = de_new_value d\<rparr>
        \<in> set (diff_flat a b)" using d by (simp only:)
    with fold_apply_entry [OF diff_flat_distinct d(1)] show ?thesis
      unfolding diff_flat_set d(2) [symmetric] by (auto split: option.splits)
  qed
qed

end
