(* ===== verification/Cs_Query_Laws.thy ===== *)
theory Cs_Query_Laws
  imports Cs_Query Cs_Flatten
begin

text \<open>
  Paths as text: the steps a well-formed path tokenizes to, and that the paths of a flattened document
  lead a query back to the leaves they were made from.
\<close>

section \<open>Rendered paths\<close>

definition path_name :: "string \<Rightarrow> bool" where
  "path_name s \<longleftrightarrow> s \<noteq> [] \<and> list_all name_char s"

fun step_ok :: "query_step \<Rightarrow> bool" where
  "step_ok (QName s) \<longleftrightarrow> path_name s"
| "step_ok (QIndex i) \<longleftrightarrow> True"

fun step_text :: "query_step \<Rightarrow> string" where
  "step_text (QName s) = CHR ''.'' # s"
| "step_text (QIndex i) = CHR ''['' # dec_of_nat (unat i) @ '']''"

definition steps_text :: "query_step list \<Rightarrow> string" where
  "steps_text steps = concat (map step_text steps)"

lemma steps_text_simps [simp]:
  "steps_text [] = []" "steps_text (s # ss) = step_text s @ steps_text ss"
  "steps_text (ss @ ts) = steps_text ss @ steps_text ts"
  by (simp_all add: steps_text_def)

definition starts_step :: "string \<Rightarrow> bool" where
  "starts_step cs \<longleftrightarrow> cs = [] \<or> hd cs = CHR ''.'' \<or> hd cs = CHR ''[''"

lemma starts_steps_text [simp]: "starts_step (steps_text steps)"
proof (cases steps)
  case (Cons s ss)
  then show ?thesis by (cases s) (simp_all add: starts_step_def)
qed (simp add: starts_step_def)

lemma name_taken:
  assumes "path_name s" "starts_step cs"
  shows "takeWhile name_char (s @ cs) = s" "dropWhile name_char (s @ cs) = cs"
proof -
  have cs: "takeWhile name_char cs = []" "dropWhile name_char cs = cs"
    using assms(2) by (cases cs; auto simp: starts_step_def name_char_def)+
  have "\<forall>c \<in> set s. name_char c" using assms(1) by (simp add: path_name_def list_all_iff)
  with cs show "takeWhile name_char (s @ cs) = s" "dropWhile name_char (s @ cs) = cs"
    by (simp_all add: takeWhile_append2 dropWhile_append2)
qed

lemma name_step:
  assumes "path_name s" "starts_step cs"
  shows "query_step_of out (s @ cs) = Some (QName s, cs)"
proof -
  obtain c t where s: "s = c # t" "name_char c" using assms(1) by (cases s) (auto simp: path_name_def)
  then show ?thesis
    using name_taken [OF assms] by (simp add: query_step_of_def name_char_def)
qed

lemma index_digits_read:
  "list_all is_digit_char ds \<Longrightarrow> cs = [] \<or> \<not> is_digit_char (hd cs) \<Longrightarrow>
     index_digits (of_nat m) any (ds @ cs) =
       (of_nat (foldl (\<lambda>n c. 10 * n + (of_char c - 48)) m ds), any \<or> ds \<noteq> [], cs)"
proof (induction ds arbitrary: m any)
  case Nil
  then show ?case by (cases cs) auto
next
  case (Cons d ds)
  have "of_nat m * 10 + of_nat (of_char d - 48) = (of_nat (10 * m + (of_char d - 48)) :: u64)"
    by (simp add: mult.commute)
  with Cons show ?case by (simp del: of_nat_add of_nat_mult)
qed

lemma dec_of_nat_digit_chars: "list_all is_digit_char (dec_of_nat n)"
proof (induction n rule: dec_of_nat.induct)
  case (1 n)
  have "is_digit_char (digit_char d)" if "d < 10" for d
    using of_char_digit_char [OF that] that by (simp add: is_digit_char_def)
  with 1 show ?case by (subst dec_of_nat.simps) simp
qed

lemma index_step:
  assumes "out \<noteq> []"
  shows "query_step_of out (CHR ''['' # dec_of_nat n @ CHR '']'' # cs) = Some (QIndex (of_nat n), cs)"
proof -
  have "index_digits (of_nat 0) False (dec_of_nat n @ CHR '']'' # cs) = (of_nat n, True, CHR '']'' # cs)"
    by (subst index_digits_read [OF dec_of_nat_digit_chars])
      (simp_all add: is_digit_char_def flip: nat_of_dec_def)
  with assms show ?thesis by (simp add: query_step_of_def)
qed

lemma tokenize_steps:
  "out \<noteq> [] \<Longrightarrow> list_all step_ok steps \<Longrightarrow> query_tokenize out (steps_text steps) = Some (out @ steps)"
proof (induction steps arbitrary: out)
  case Nil
  then show ?case by (subst query_tokenize.simps) simp
next
  case (Cons s steps)
  have rest: "query_tokenize (out @ [s]) (steps_text steps) = Some (out @ s # steps)"
    using Cons by simp
  show ?case
  proof (cases s)
    case (QName nm)
    with Cons.prems have "query_step_of out (nm @ steps_text steps) = Some (QName nm, steps_text steps)"
      by (intro name_step) simp_all
    with Cons.prems rest QName show ?thesis by (subst query_tokenize.simps) simp
  next
    case (QIndex i)
    have "query_step_of out (CHR ''['' # dec_of_nat (unat i) @ CHR '']'' # steps_text steps) = Some (QIndex i, steps_text steps)"
      using index_step [OF Cons.prems(1), of "unat i"] by simp
    with Cons.prems rest QIndex show ?thesis by (subst query_tokenize.simps) simp
  qed
qed

lemma tokenize_path:
  assumes "path_name s" "list_all step_ok steps"
  shows "query_tokenize [] (s @ steps_text steps) = Some (QName s # steps)"
proof -
  have "s \<noteq> []" "hd s \<noteq> CHR ''.''" using assms(1) by (cases s; simp add: path_name_def name_char_def)+
  with name_step [OF assms(1), of "steps_text steps" "[]"] tokenize_steps [of "[QName s]" steps] assms(2)
  show ?thesis by (subst query_tokenize.simps) simp
qed

section \<open>Queries for flattened paths\<close>

fun keys_ok :: "cvalue \<Rightarrow> bool" where
  "keys_ok (VArray vs) \<longleftrightarrow> length vs \<le> 2 ^ 64 \<and> (\<forall>v \<in> set vs. keys_ok v)"
| "keys_ok (VObject fs) \<longleftrightarrow>
     distinct (map fst fs) \<and> (\<forall>(k, v) \<in> set fs. path_name k \<and> keys_ok v)"
| "keys_ok v \<longleftrightarrow> True"

text \<open>An entry that stands for the leaf of \<open>v\<close> at some steps behind a prefix.\<close>

definition leads_to :: "string \<Rightarrow> cvalue \<Rightarrow> flat_entry \<Rightarrow> bool" where
  "leads_to prefix v e \<longleftrightarrow> (\<exists>steps leaf. list_all step_ok steps \<and> fe_path e = prefix @ steps_text steps \<and>
     walk_value v steps = Some leaf \<and> fe_value e = render_scalar leaf)"

lemma leads_to_here: "fe_path e = prefix \<Longrightarrow> fe_value e = render_scalar v \<Longrightarrow> leads_to prefix v e"
  unfolding leads_to_def by (rule exI [of _ "[]"]) simp

lemma leads_to_element:
  assumes "leads_to (join_index prefix k) (vs ! k) e" "k < length vs" "length vs \<le> 2 ^ 64"
  shows "leads_to prefix (VArray vs) e"
proof -
  obtain steps leaf where st: "list_all step_ok steps" "fe_path e = join_index prefix k @ steps_text steps"
    "walk_value (vs ! k) steps = Some leaf" "fe_value e = render_scalar leaf"
    using assms(1) by (auto simp: leads_to_def)
  have k: "unat (of_nat k :: u64) = k" using assms(2,3) by (simp add: unat_of_nat)
  show ?thesis
    unfolding leads_to_def
    by (rule exI [of _ "QIndex (of_nat k) # steps"]) (use st assms(2) k in \<open>simp add: join_index_def\<close>)
qed

lemma leads_to_member:
  assumes "leads_to (join_path prefix key) v e" "prefix \<noteq> []" "path_name key" "object_member key fs = Some v"
  shows "leads_to prefix (VObject fs) e"
proof -
  obtain steps leaf where st: "list_all step_ok steps" "fe_path e = join_path prefix key @ steps_text steps"
    "walk_value v steps = Some leaf" "fe_value e = render_scalar leaf"
    using assms(1) by (auto simp: leads_to_def)
  show ?thesis
    unfolding leads_to_def
    by (rule exI [of _ "QName key # steps"]) (use st assms(2-) in \<open>simp add: join_path_def\<close>)
qed

lemma object_member_distinct:
  "distinct (map fst fs) \<Longrightarrow> (key, v) \<in> set fs \<Longrightarrow> object_member key fs = Some v"
  by (induction fs) (auto simp: object_member_def image_iff)

lemma flatten_leads_to:
  "keys_ok v \<Longrightarrow> prefix \<noteq> [] \<Longrightarrow> e \<in> set (flatten_into prefix v) \<Longrightarrow> leads_to prefix v e"
  and "(\<forall>j < length vs. keys_ok (vs ! j)) \<Longrightarrow> prefix \<noteq> [] \<Longrightarrow> e \<in> set (flatten_array prefix k vs) \<Longrightarrow>
     \<exists>j < length vs. leads_to (join_index prefix (k + j)) (vs ! j) e"
  and "(\<forall>(key, v) \<in> set fs. keys_ok v) \<Longrightarrow> prefix \<noteq> [] \<Longrightarrow> e \<in> set (flatten_object prefix fs) \<Longrightarrow>
     \<exists>(key, v) \<in> set fs. leads_to (join_path prefix key) v e"
proof (induction prefix v and prefix k vs and prefix fs rule: flatten_into_flatten_array_flatten_object.induct)
  case (1 prefix vs)
  show ?case
  proof (cases "vs = []")
    case True
    with "1.prems" leads_to_here [of e prefix "VArray []"] show ?thesis by simp
  next
    case False
    with "1.prems" have "e \<in> set (flatten_array prefix 0 vs)" by simp
    with "1.IH" False "1.prems" obtain j where "j < length vs" "leads_to (join_index prefix j) (vs ! j) e" by auto
    with "1.prems" show ?thesis by (auto intro: leads_to_element)
  qed
next
  case (2 prefix fs)
  show ?case
  proof (cases "fs = []")
    case True
    with "2.prems" leads_to_here [of e prefix "VObject []"] show ?thesis by simp
  next
    case False
    with "2.prems" have "e \<in> set (flatten_object prefix fs)" by simp
    with "2.IH" False "2.prems" obtain key v where "(key, v) \<in> set fs" "leads_to (join_path prefix key) v e" by fastforce
    with "2.prems" show ?thesis by (auto intro: leads_to_member object_member_distinct)
  qed
next
  case (5 prefix k v vs)
  have join: "join_index prefix k \<noteq> []" by (simp add: join_index_def)
  from "5.prems"(3) consider "e \<in> set (flatten_into (join_index prefix k) v)" | "e \<in> set (flatten_array prefix (Suc k) vs)"
    by auto
  then show ?case
  proof cases
    case 1
    with "5.IH"(1) "5.prems" join show ?thesis by (intro exI [of _ 0]) force
  next
    case 2
    have "\<forall>j < length vs. keys_ok (vs ! j)" using "5.prems"(1) by auto
    with "5.IH"(2) "5.prems"(2) 2 obtain j where "j < length vs" "leads_to (join_index prefix (Suc k + j)) (vs ! j) e" by blast
    then show ?thesis by (intro exI [of _ "Suc j"]) simp
  qed
next
  case (7 prefix key v fs)
  have "join_path prefix key \<noteq> []" using "7.prems" by (simp add: join_path_def)
  with 7 show ?case by auto
qed (auto intro: leads_to_here)

section \<open>Documents\<close>

fun head_name :: "cnode \<Rightarrow> string" where
  "head_name (NdAssignment path v) = hd path"
| "head_name (NdBlock name label children) = name"
| "head_name (NdInclude path) = []"

text \<open>
  No two siblings start with the same name, names are free of the separators of paths, blocks have no
  label, and nothing is included.
\<close>

fun queryable :: "cnode list \<Rightarrow> bool" where
  "queryable [] \<longleftrightarrow> True"
| "queryable (NdAssignment path v # ns) \<longleftrightarrow>
     path \<noteq> [] \<and> list_all path_name path \<and> keys_ok v \<and> hd path \<notin> head_name ` set ns \<and> queryable ns"
| "queryable (NdBlock name label children # ns) \<longleftrightarrow>
     label = None \<and> path_name name \<and> queryable children \<and> name \<notin> head_name ` set ns \<and> queryable ns"
| "queryable (NdInclude path # ns) \<longleftrightarrow> False"

lemma match_path_names:
  "match_path n cs (map QName cs @ steps) = n + length cs"
  by (induction cs arbitrary: n) simp_all

lemma walk_assignments_other:
  "name \<notin> head_name ` set ns \<Longrightarrow> queryable ns \<Longrightarrow> walk_assignments ns (QName name # steps) = None"
proof (induction ns rule: queryable.induct)
  case (2 path v ns)
  then show ?case by (cases path) auto
qed simp_all

lemma walk_blocks_other: "name \<notin> head_name ` set ns \<Longrightarrow> walk_blocks ns name steps = None"
proof (induction ns)
  case (Cons n ns)
  then show ?case by (cases n) auto
qed simp

declare walk_nodes.simps [simp del]

text \<open>\<open>e\<close> stands for what a query finds among the nodes \<open>ns\<close>.\<close>

definition node_entry :: "string \<Rightarrow> cnode list \<Rightarrow> flat_entry \<Rightarrow> bool" where
  "node_entry prefix ns e \<longleftrightarrow> (\<exists>name steps leaf. path_name name \<and> list_all step_ok steps \<and>
     name \<in> head_name ` set ns \<and> fe_path e = join_path prefix (name @ steps_text steps) \<and>
     walk_nodes ns (QName name # steps) = Some leaf \<and> fe_value e = render_scalar leaf)"

lemma node_entryI:
  assumes "path_name name" "list_all step_ok steps" "name \<in> head_name ` set ns"
    and "fe_path e = join_path prefix (name @ steps_text steps)"
    and "walk_nodes ns (QName name # steps) = Some leaf" "fe_value e = render_scalar leaf"
  shows "node_entry prefix ns e"
  unfolding node_entry_def using assms by blast

lemma node_entry_later:
  assumes "node_entry prefix ns e" "head_name n \<notin> head_name ` set ns"
  shows "node_entry prefix (n # ns) e"
proof -
  obtain name steps leaf where e: "path_name name" "list_all step_ok steps" "name \<in> head_name ` set ns"
    "fe_path e = join_path prefix (name @ steps_text steps)"
    "walk_nodes ns (QName name # steps) = Some leaf" "fe_value e = render_scalar leaf"
    using assms(1) by (auto simp: node_entry_def)
  have ne: "head_name n \<noteq> name" using e(3) assms(2) by auto
  have "walk_blocks (n # ns) name steps = walk_blocks ns name steps"
    using ne by (cases n) simp_all
  moreover have "walk_assignments (n # ns) (QName name # steps) = walk_assignments ns (QName name # steps)"
  proof (cases n)
    case (NdAssignment path v)
    with ne show ?thesis by (cases path) simp_all
  qed simp_all
  ultimately have "walk_nodes (n # ns) (QName name # steps) = walk_nodes ns (QName name # steps)"
    by (simp only: walk_nodes.simps list.case query_step.case)
  with e show ?thesis by (intro node_entryI) auto
qed

lemma join_path_append: "join_path prefix x @ y = join_path prefix (x @ y)"
  by (simp add: join_path_def)

lemma fold_join_path:
  "prefix \<noteq> [] \<Longrightarrow> foldl join_path prefix cs = prefix @ steps_text (map QName cs)"
  by (induction cs arbitrary: prefix) (simp_all add: join_path_def)

lemma assignment_entry:
  assumes q: "queryable (NdAssignment path v # ns)" and e: "e \<in> set (flatten_into (foldl join_path prefix path) v)"
  shows "node_entry prefix (NdAssignment path v # ns) e"
proof -
  obtain c cs where path: "path = c # cs" using q by (cases path) auto
  with q have c: "path_name c" "list_all path_name cs" "keys_ok v" "c \<notin> head_name ` set ns" "queryable ns" by simp_all
  have jc: "join_path prefix c \<noteq> []" using c(1) by (simp add: join_path_def path_name_def)
  have whole: "foldl join_path prefix path = join_path prefix c @ steps_text (map QName cs)"
    using fold_join_path [OF jc] by (simp add: path)
  with e jc whole have "leads_to (join_path prefix c @ steps_text (map QName cs)) v e"
    by (intro flatten_leads_to(1)) (use c in \<open>simp_all\<close>)
  then obtain steps leaf where st: "list_all step_ok steps"
    "fe_path e = (join_path prefix c @ steps_text (map QName cs)) @ steps_text steps"
    "walk_value v steps = Some leaf" "fe_value e = render_scalar leaf"
    by (auto simp: leads_to_def)
  have ok: "list_all step_ok (map QName cs)" using c(2) by (simp add: list_all_iff)
  show ?thesis
  proof (rule node_entryI [where name = c and steps = "map QName cs @ steps"])
    show "fe_path e = join_path prefix (c @ steps_text (map QName cs @ steps))"
      using st(2) by (simp add: join_path_append)
    show "walk_nodes (NdAssignment path v # ns) (QName c # map QName cs @ steps) = Some leaf"
      using c(4) st(3) match_path_names [of "Suc 0" cs steps]
      by (simp add: walk_nodes.simps walk_blocks_other path)
  qed (use c st ok path in auto)
qed

lemma block_entry:
  assumes q: "queryable (NdBlock name None children # ns)" and e: "node_entry (join_path prefix name) children e"
  shows "node_entry prefix (NdBlock name None children # ns) e"
proof -
  obtain nm steps leaf where st: "path_name nm" "list_all step_ok steps"
    "fe_path e = join_path (join_path prefix name) (nm @ steps_text steps)"
    "walk_nodes children (QName nm # steps) = Some leaf" "fe_value e = render_scalar leaf"
    using e by (auto simp: node_entry_def)
  have name: "path_name name" "name \<noteq> []" using q by (simp_all add: path_name_def)
  have "join_path (join_path prefix name) (nm @ steps_text steps) =
      join_path prefix (name @ steps_text (QName nm # steps))"
    using name(2) by (simp add: join_path_def)
  with st name show ?thesis
    by (intro node_entryI [where name = name and steps = "QName nm # steps"])
      (simp_all add: walk_nodes.simps [of "_ # _"])
qed

lemma flatten_nodes_entry:
  "queryable ns \<Longrightarrow> e \<in> set (flatten_nodes prefix ns) \<Longrightarrow> node_entry prefix ns e"
proof (induction prefix ns rule: flatten_nodes.induct)
  case (2 prefix path v ns)
  then show ?case by (auto intro: assignment_entry node_entry_later)
next
  case (3 prefix name label children ns)
  have q: "label = None" "queryable children" "name \<notin> head_name ` set ns" "queryable ns" using "3.prems"(1) by simp_all
  from "3.prems"(2) consider "e \<in> set (flatten_nodes (block_prefix prefix name label) children)"
    | "e \<in> set (flatten_nodes prefix ns)" by auto
  then show ?case
  proof cases
    case 1
    with "3.IH"(1) q have "node_entry (join_path prefix name) children e" by (simp add: block_prefix_def)
    with "3.prems"(1) q(1) show ?thesis by (simp add: block_entry)
  next
    case 2
    with "3.IH"(2) q show ?thesis by (simp add: node_entry_later)
  qed
qed simp_all

lemma flatten_query:
  assumes "queryable doc" "e \<in> set (flatten_doc doc)"
  shows "\<exists>leaf. cs_query doc (fe_path e) = Some leaf \<and> render_scalar leaf = fe_value e"
proof -
  obtain name steps leaf where e: "path_name name" "list_all step_ok steps"
    "fe_path e = name @ steps_text steps" "walk_nodes doc (QName name # steps) = Some leaf"
    "fe_value e = render_scalar leaf"
    using flatten_nodes_entry [OF assms(1), of e "[]"] assms(2)
    by (auto simp: flatten_doc_def node_entry_def join_path_def)
  with tokenize_path [OF e(1,2)] show ?thesis by (simp add: cs_query_def)
qed

section \<open>A path that is assigned twice\<close>

lemma flatten_scalar:
  "value_type_of v \<notin> {TyArray, TyObject} \<Longrightarrow>
     flatten_into prefix v = [\<lparr>fe_path = prefix, fe_value = render_scalar v\<rparr>]"
  by (cases v) simp_all

lemma query_first_write:
  assumes "path_name x" "value_type_of v \<notin> {TyArray, TyObject}" "value_type_of w \<notin> {TyArray, TyObject}"
  shows "let doc = [NdAssignment [x] v, NdAssignment [x] w] in
    cs_query doc x = Some v \<and> flat_index (flatten_doc doc) x = Some (render_scalar w)"
  using tokenize_path [OF assms(1), of "[]"]
  by (simp add: Let_def cs_query_def walk_nodes.simps flatten_doc_def flatten_scalar [OF assms(2)]
      flatten_scalar [OF assms(3)] join_path_def flat_index_def)

end
