(* ===== verification/Cs_Schema.thy ===== *)
theory Cs_Schema
  imports Cs_Query Cs_Numbers
begin

text \<open>
  Schemas (\<^verbatim>\<open>include/cfgscript/schema.hpp\<close>, \<^verbatim>\<open>src/cfgscript/schema.cpp\<close>): rules on the values at
  given paths, with a report of every violation.
\<close>

section \<open>Rules and the builder\<close>

record field_rule =
  fr_path :: string
  fr_type :: value_type
  fr_required :: bool
  fr_has_min :: bool
  fr_min_value :: u64
  fr_has_max :: bool
  fr_max_value :: u64
  fr_allowed :: "string list"

definition field_rule_new :: field_rule where
  "field_rule_new = \<lparr>fr_path = [], fr_type = TyStr, fr_required = True, fr_has_min = False,
     fr_min_value = dbl_zero False, fr_has_max = False, fr_max_value = dbl_zero False, fr_allowed = []\<rparr>"

type_synonym schema = "field_rule list"

definition schema_require :: "string \<Rightarrow> value_type \<Rightarrow> schema \<Rightarrow> schema" where
  "schema_require path ty rules =
     rules @ [field_rule_new\<lparr>fr_path := path, fr_type := ty, fr_required := True\<rparr>]"

definition schema_optional :: "string \<Rightarrow> value_type \<Rightarrow> schema \<Rightarrow> schema" where
  "schema_optional path ty rules =
     rules @ [field_rule_new\<lparr>fr_path := path, fr_type := ty, fr_required := False\<rparr>]"

text \<open>A change to the rule added last, if there is one.\<close>

definition on_last :: "(field_rule \<Rightarrow> field_rule) \<Rightarrow> schema \<Rightarrow> schema" where
  "on_last f rules = (if rules = [] then [] else butlast rules @ [f (last rules)])"

definition schema_min :: "u64 \<Rightarrow> schema \<Rightarrow> schema" where
  "schema_min lo = on_last (\<lambda>r. r\<lparr>fr_has_min := True, fr_min_value := lo\<rparr>)"

definition schema_max :: "u64 \<Rightarrow> schema \<Rightarrow> schema" where
  "schema_max hi = on_last (\<lambda>r. r\<lparr>fr_has_max := True, fr_max_value := hi\<rparr>)"

definition schema_range :: "u64 \<Rightarrow> u64 \<Rightarrow> schema \<Rightarrow> schema" where
  "schema_range lo hi =
     on_last (\<lambda>r. r\<lparr>fr_has_min := True, fr_min_value := lo, fr_has_max := True, fr_max_value := hi\<rparr>)"

definition schema_enum_values :: "string list \<Rightarrow> schema \<Rightarrow> schema" where
  "schema_enum_values vs = on_last (\<lambda>r. r\<lparr>fr_allowed := vs\<rparr>)"

definition schema_add :: "field_rule \<Rightarrow> schema \<Rightarrow> schema" where
  "schema_add rule rules = rules @ [rule]"

section \<open>Violations\<close>

datatype violation_kind = VkMissingRequired | VkTypeMismatch | VkBelowMinimum | VkAboveMaximum | VkNotAllowed

record violation =
  vi_kind :: violation_kind
  vi_path :: string
  vi_message :: string

fun violation_kind_name :: "violation_kind \<Rightarrow> string" where
  "violation_kind_name VkMissingRequired = ''missing-required''"
| "violation_kind_name VkTypeMismatch = ''type-mismatch''"
| "violation_kind_name VkBelowMinimum = ''below-minimum''"
| "violation_kind_name VkAboveMaximum = ''above-maximum''"
| "violation_kind_name VkNotAllowed = ''not-allowed''"

definition type_matches :: "cvalue \<Rightarrow> value_type \<Rightarrow> bool" where
  "type_matches v expected \<longleftrightarrow>
     (if value_type_of v = expected then True
      else if expected = TyFloat \<and> value_type_of v = TyInt then True else False)"

definition numeric_value :: "cvalue \<Rightarrow> u64" where
  "numeric_value v = as_double v"

definition check_range :: "field_rule \<Rightarrow> cvalue \<Rightarrow> violation list" where
  "check_range rule v =
     (if \<not> is_number v then []
      else let n = numeric_value v
           in (if fr_has_min rule \<and> dbl_less n (fr_min_value rule)
               then [\<lparr>vi_kind = VkBelowMinimum, vi_path = fr_path rule,
                      vi_message = ''value '' @ dbl_to_text n @ '' is below minimum '' @ dbl_to_text (fr_min_value rule)\<rparr>]
               else []) @
              (if fr_has_max rule \<and> dbl_less (fr_max_value rule) n
               then [\<lparr>vi_kind = VkAboveMaximum, vi_path = fr_path rule,
                      vi_message = ''value '' @ dbl_to_text n @ '' is above maximum '' @ dbl_to_text (fr_max_value rule)\<rparr>]
               else []))"

definition check_allowed :: "field_rule \<Rightarrow> cvalue \<Rightarrow> violation list" where
  "check_allowed rule v =
     (case v of
        VStr s \<Rightarrow>
          if fr_allowed rule = [] \<or> list_ex (\<lambda>candidate. candidate = s) (fr_allowed rule) then []
          else [\<lparr>vi_kind = VkNotAllowed, vi_path = fr_path rule,
                 vi_message = ''value '' @ [CHR 0x22] @ s @ [CHR 0x22] @ '' is not an allowed option''\<rparr>]
      | _ \<Rightarrow> [])"

definition check_rule :: "document \<Rightarrow> field_rule \<Rightarrow> violation list" where
  "check_rule doc rule =
     (case cs_query doc (fr_path rule) of
        None \<Rightarrow>
          if fr_required rule
          then [\<lparr>vi_kind = VkMissingRequired, vi_path = fr_path rule,
                 vi_message = ''required path is absent''\<rparr>]
          else []
      | Some v \<Rightarrow>
          if \<not> type_matches v (fr_type rule)
          then [\<lparr>vi_kind = VkTypeMismatch, vi_path = fr_path rule,
                 vi_message = ''expected '' @ value_type_name (fr_type rule) @ '' but found '' @
                   value_type_name (value_type_of v)\<rparr>]
          else check_range rule v @ check_allowed rule v)"

fun schema_validate :: "document \<Rightarrow> schema \<Rightarrow> violation list" where
  "schema_validate doc [] = []"
| "schema_validate doc (rule # rules) = check_rule doc rule @ schema_validate doc rules"

section \<open>What a report says\<close>

text \<open>
  The ways to break a rule, stated without the checker: each kind with its own condition on the value at
  the path. Bounds are inclusive and compare the numbers that the doubles stand for (\<open>num_lt\<close>), so a
  NaN is neither below nor above a bound.
\<close>

definition has_type :: "value_type \<Rightarrow> cvalue \<Rightarrow> bool" where
  "has_type ty v \<longleftrightarrow> value_type_of v = ty \<or> (ty = TyFloat \<and> (\<exists>i. v = VInt i))"

inductive breaks :: "document \<Rightarrow> field_rule \<Rightarrow> violation_kind \<Rightarrow> bool" for doc rule where
  missing: "cs_query doc (fr_path rule) = None \<Longrightarrow> fr_required rule \<Longrightarrow> breaks doc rule VkMissingRequired"
| mistyped: "cs_query doc (fr_path rule) = Some v \<Longrightarrow> \<not> has_type (fr_type rule) v \<Longrightarrow> breaks doc rule VkTypeMismatch"
| below: "cs_query doc (fr_path rule) = Some v \<Longrightarrow> has_type (fr_type rule) v \<Longrightarrow> number_of v = Some n \<Longrightarrow>
    fr_has_min rule \<Longrightarrow> num_lt n (fr_min_value rule) \<Longrightarrow> breaks doc rule VkBelowMinimum"
| above: "cs_query doc (fr_path rule) = Some v \<Longrightarrow> has_type (fr_type rule) v \<Longrightarrow> number_of v = Some n \<Longrightarrow>
    fr_has_max rule \<Longrightarrow> num_lt (fr_max_value rule) n \<Longrightarrow> breaks doc rule VkAboveMaximum"
| barred: "cs_query doc (fr_path rule) = Some (VStr s) \<Longrightarrow> has_type (fr_type rule) (VStr s) \<Longrightarrow>
    fr_allowed rule \<noteq> [] \<Longrightarrow> s \<notin> set (fr_allowed rule) \<Longrightarrow> breaks doc rule VkNotAllowed"

inductive_simps breaks_kinds:
  "breaks doc rule VkMissingRequired" "breaks doc rule VkTypeMismatch" "breaks doc rule VkBelowMinimum"
  "breaks doc rule VkAboveMaximum" "breaks doc rule VkNotAllowed"

definition violation_order :: "violation_kind list" where
  "violation_order = [VkMissingRequired, VkTypeMismatch, VkBelowMinimum, VkAboveMaximum, VkNotAllowed]"

text \<open>
  The promise of a rule: a value of the type, a number within the inclusive bounds (which a NaN never is)
  and a string from the set. A NaN in the value or in a bound is the only way to pass without it.
\<close>

definition satisfies_rule :: "document \<Rightarrow> field_rule \<Rightarrow> bool" where
  "satisfies_rule doc rule \<longleftrightarrow>
     (case cs_query doc (fr_path rule) of
        None \<Rightarrow> \<not> fr_required rule
      | Some v \<Rightarrow>
          has_type (fr_type rule) v \<and>
          (\<forall>n. number_of v = Some n \<longrightarrow>
             (fr_has_min rule \<longrightarrow> num_le (fr_min_value rule) n) \<and> (fr_has_max rule \<longrightarrow> num_le n (fr_max_value rule))) \<and>
          (\<forall>s. v = VStr s \<longrightarrow> fr_allowed rule = [] \<or> s \<in> set (fr_allowed rule)))"

definition compares_nan :: "document \<Rightarrow> field_rule \<Rightarrow> bool" where
  "compares_nan doc rule \<longleftrightarrow>
     (\<exists>v n. cs_query doc (fr_path rule) = Some v \<and> number_of v = Some n \<and>
        (fr_has_min rule \<and> (dbl_is_nan n \<or> dbl_is_nan (fr_min_value rule)) \<or>
         fr_has_max rule \<and> (dbl_is_nan n \<or> dbl_is_nan (fr_max_value rule))))"

lemma type_matches_iff: "type_matches v ty \<longleftrightarrow> has_type ty v"
  by (cases v) (auto simp: type_matches_def has_type_def)

lemma check_rule_kinds:
  "map (\<lambda>x. (vi_path x, vi_kind x)) (check_rule doc rule) =
     map (Pair (fr_path rule)) (filter (breaks doc rule) violation_order)"
proof (cases "cs_query doc (fr_path rule)")
  case None
  then show ?thesis by (simp add: check_rule_def violation_order_def breaks_kinds)
next
  case (Some v)
  then show ?thesis
    by (cases v) (auto simp: check_rule_def check_range_def check_allowed_def violation_order_def breaks_kinds
        type_matches_iff number_of_iff numeric_value_def is_number_def dbl_less_num list_ex_iff Let_def)
qed

lemma schema_validate_concat: "schema_validate doc rules = concat (map (check_rule doc) rules)"
  by (induction rules) simp_all

lemma schema_validate_kinds:
  "map (\<lambda>x. (vi_path x, vi_kind x)) (schema_validate doc rules) =
     concat (map (\<lambda>rule. map (Pair (fr_path rule)) (filter (breaks doc rule) violation_order)) rules)"
  by (induction rules) (simp_all add: check_rule_kinds)

lemma violation_order_all: "k \<in> set violation_order"
  by (cases k) (simp_all add: violation_order_def)

lemma check_rule_empty: "check_rule doc rule = [] \<longleftrightarrow> (\<forall>k. \<not> breaks doc rule k)"
proof -
  have "check_rule doc rule = [] \<longleftrightarrow> filter (breaks doc rule) violation_order = []"
    using check_rule_kinds [of doc rule] by (metis map_is_Nil_conv)
  then show ?thesis using violation_order_all by (auto simp: filter_empty_conv)
qed

lemma no_break_iff: "(\<forall>k. \<not> breaks doc rule k) \<longleftrightarrow>
   \<not> breaks doc rule VkMissingRequired \<and> \<not> breaks doc rule VkTypeMismatch \<and> \<not> breaks doc rule VkBelowMinimum \<and>
   \<not> breaks doc rule VkAboveMaximum \<and> \<not> breaks doc rule VkNotAllowed"
  by (metis violation_kind.exhaust)

lemma satisfies_unbroken: "satisfies_rule doc rule \<Longrightarrow> \<not> breaks doc rule k"
  by (cases k; cases "cs_query doc (fr_path rule)")
    (auto simp: satisfies_rule_def breaks_kinds num_le_def num_lt_def)

lemma unbroken_satisfies:
  assumes "\<forall>k. \<not> breaks doc rule k" and "\<not> compares_nan doc rule"
  shows "satisfies_rule doc rule"
proof (cases "cs_query doc (fr_path rule)")
  case None
  with assms(1) show ?thesis by (auto simp: no_break_iff satisfies_rule_def breaks_kinds)
next
  case (Some v)
  with assms show ?thesis
    by (auto simp: no_break_iff satisfies_rule_def breaks_kinds compares_nan_def num_le_alt)
qed

lemma schema_validate_empty: "schema_validate doc rules = [] \<longleftrightarrow> (\<forall>rule \<in> set rules. \<forall>k. \<not> breaks doc rule k)"
  by (simp add: schema_validate_concat concat_eq_Nil_conv check_rule_empty)

text \<open>A NaN passes every range, although it lies in none.\<close>

lemma nan_passes_range:
  assumes "cs_query doc (fr_path rule) = Some (VFloat f)" and "dbl_is_nan f" and "fr_type rule = TyFloat"
    and "fr_has_min rule \<or> fr_has_max rule"
  shows "check_rule doc rule = []" and "\<not> satisfies_rule doc rule"
proof -
  show "check_rule doc rule = []"
    using assms by (auto simp: check_rule_empty no_break_iff breaks_kinds has_type_def num_lt_def)
  show "\<not> satisfies_rule doc rule"
    using assms by (auto simp: satisfies_rule_def num_le_def)
qed

text \<open>One rule gives at most two violations.\<close>

lemma check_rule_length: "length (check_rule doc rule) \<le> 2"
  by (auto simp: check_rule_def check_range_def check_allowed_def is_number_def Let_def
      split: option.splits if_splits cvalue.splits)

lemma schema_validate_length:
  "length (schema_validate doc rules) \<le> 2 * length (filter (\<lambda>rule. \<exists>k. breaks doc rule k) rules)"
proof (induction rules)
  case (Cons rule rules)
  then show ?case
    using check_rule_empty [of doc rule] check_rule_length [of doc rule] by auto
qed simp

end
