(* ===== verification/Bwdump.thy ===== *)
theory Bwdump
  imports Stream_Decoder Minidb Bp_Build Bp_Summary Cs_Round_Trip
begin

text \<open>
  The command-line tool (\<^verbatim>\<open>tools/bwdump.cpp\<close>), which puts the four decoders behind one entry point. Its
  world is a function from paths to the bytes a successful \<^verbatim>\<open>fopen\<close> and the reads after it deliver, the
  bytes of the standard input, and the arguments; a run is its exit status with the texts on the two
  output streams. A run inside which the stream decoder leaves its store has no outcome (\<open>None\<close>).
\<close>

record tool_run =
  tr_status :: nat
  tr_out :: string
  tr_err :: string

definition usage :: tool_run where
  "usage = \<lparr>tr_status = 2, tr_out = [],
     tr_err = ''usage: bwdump <binpack|minidb|cfgscript|streamcodec> <file|->'' @ [CHR 0x0A]\<rparr>"

text \<open>\<^verbatim>\<open>e.what()\<close>.\<close>

definition error_what :: "parse_error \<Rightarrow> string" where
  "error_what e = build_message (err_code e) (err_offset e) (err_text e)"

text \<open>The body of the try block for one format, with its handler.\<close>

definition decode_and_print :: "('a \<Rightarrow> string) \<Rightarrow> 'a result \<Rightarrow> tool_run" where
  "decode_and_print print r =
     (case r of
        Inl e \<Rightarrow> \<lparr>tr_status = 1, tr_out = [], tr_err = ''decode error: '' @ error_what e @ [CHR 0x0A]\<rparr>
      | Inr x \<Rightarrow> \<lparr>tr_status = 0, tr_out = print x, tr_err = []\<rparr>)"

definition read_input :: "(string \<Rightarrow> bytes option) \<Rightarrow> bytes \<Rightarrow> string \<Rightarrow> bytes option" where
  "read_input files stdin path = (if path = ''-'' then Some stdin else files path)"

definition bwdump_main ::
  "(u64 \<Rightarrow> string) \<Rightarrow> (string \<Rightarrow> bytes option) \<Rightarrow> bytes \<Rightarrow> string list \<Rightarrow> tool_run option" where
  "bwdump_main fmt_g files stdin args =
     (case args of
        [format, path] \<Rightarrow>
          (case read_input files stdin path of
             None \<Rightarrow>
               Some \<lparr>tr_status = 1, tr_out = [], tr_err = ''error: cannot open '' @ path @ [CHR 0x0A]\<rparr>
           | Some data \<Rightarrow>
               if format = ''binpack''
               then Some (decode_and_print (bp_summarize fmt_g) (bp_parse bp_default_options data))
               else if format = ''minidb'' then Some (decode_and_print (summarize_db fmt_g) (open_db data False))
               else if format = ''cfgscript'' then Some (decode_and_print summarize (cs_parse data))
               else if format = ''streamcodec'' then map_option (decode_and_print summarize_decode) (decode data)
               else Some usage)
      | _ \<Rightarrow> Some usage)"

section \<open>Exit status\<close>

text \<open>A run that ends well writes to the output only, any other to the error stream only.\<close>

definition run_ok :: "tool_run \<Rightarrow> bool" where
  "run_ok t \<longleftrightarrow>
     (if tr_status t = 0 then tr_err t = [] else tr_status t \<in> {1, 2} \<and> tr_out t = [] \<and> tr_err t \<noteq> [])"

lemma run_ok_usage: "run_ok usage" "tr_status usage = 2"
  by (simp_all add: run_ok_def usage_def)

lemma run_ok_decode: "run_ok (decode_and_print print r)" "tr_status (decode_and_print print r) \<noteq> 2"
  by (simp_all add: run_ok_def decode_and_print_def split: sum.split)

lemma main_usage: "length args \<noteq> 2 \<Longrightarrow> bwdump_main fmt_g files stdin args = Some usage"
  by (cases args; cases "tl args"; cases "tl (tl args)") (simp_all add: bwdump_main_def)

lemma main_unreadable:
  "read_input files stdin path = None \<Longrightarrow> bwdump_main fmt_g files stdin [format, path] =
     Some \<lparr>tr_status = 1, tr_out = [], tr_err = ''error: cannot open '' @ path @ [CHR 0x0A]\<rparr>"
  by (simp add: bwdump_main_def)

lemma main_decodes:
  assumes "read_input files stdin path = Some data"
  obtains (decoded) t where "bwdump_main fmt_g files stdin [format, path] = Some t" "run_ok t" "tr_status t \<noteq> 2"
      "format \<in> {''binpack'', ''minidb'', ''cfgscript'', ''streamcodec''}"
    | (undefined) "bwdump_main fmt_g files stdin [format, path] = None" "format = ''streamcodec''" "decode data = None"
    | (unknown) "bwdump_main fmt_g files stdin [format, path] = Some usage"
      "format \<notin> {''binpack'', ''minidb'', ''cfgscript'', ''streamcodec''}"
proof -
  have main: "bwdump_main fmt_g files stdin [format, path] =
      (if format = ''binpack'' then Some (decode_and_print (bp_summarize fmt_g) (bp_parse bp_default_options data))
       else if format = ''minidb'' then Some (decode_and_print (summarize_db fmt_g) (open_db data False))
       else if format = ''cfgscript'' then Some (decode_and_print summarize (cs_parse data))
       else if format = ''streamcodec'' then map_option (decode_and_print summarize_decode) (decode data)
       else Some usage)"
    using assms by (simp only: bwdump_main_def list.case option.case)
  consider "format = ''binpack''" | "format = ''minidb''" | "format = ''cfgscript''"
    | (stream) "format = ''streamcodec''" | (other) "format \<notin> {''binpack'', ''minidb'', ''cfgscript'', ''streamcodec''}"
    by blast
  then show thesis
  proof cases
    case stream
    show thesis
    proof (cases "decode data")
      case None
      with stream main show thesis by (intro undefined) simp_all
    next
      case (Some r)
      with stream main show thesis by (intro decoded [of "decode_and_print summarize_decode r"]) (simp_all add: run_ok_decode)
    qed
  next
    case other
    with main show thesis by (intro unknown) simp_all
  qed (use main in \<open>auto intro!: decoded simp: run_ok_decode\<close>)
qed

lemma two_args: "length args = 2 \<Longrightarrow> \<exists>format path. args = [format, path]"
  by (auto simp: numeral_2_eq_2 length_Suc_conv)

theorem main_outcome:
  "case bwdump_main fmt_g files stdin args of
     Some t \<Rightarrow> run_ok t
   | None \<Rightarrow> \<exists>path data. args = [''streamcodec'', path] \<and> read_input files stdin path = Some data \<and>
       (\<exists>f \<in> set (frames_of True (byte_reader_new data)). f_type f = kReset)"
proof (cases "length args = 2")
  case False
  then show ?thesis by (simp add: main_usage run_ok_usage)
next
  case True
  then obtain format path where args: "args = [format, path]" using two_args by blast
  show ?thesis
  proof (cases "read_input files stdin path")
    case None
    then show ?thesis by (simp add: args main_unreadable run_ok_def)
  next
    case (Some data)
    then show ?thesis
    proof (cases rule: main_decodes [where fmt_g = fmt_g and format = format])
      case undefined
      moreover have "\<exists>f \<in> set (frames_of True (byte_reader_new data)). f_type f = kReset"
        using undefined(3) decode_defined [of data] by blast
      ultimately show ?thesis using Some by (simp add: args)
    qed (simp_all add: args run_ok_usage)
  qed
qed

text \<open>The status is 2 exactly for a wrong number of arguments, or a readable input of an unknown format.\<close>

theorem usage_status:
  "(\<exists>t. bwdump_main fmt_g files stdin args = Some t \<and> tr_status t = 2) \<longleftrightarrow>
     (case args of
        [format, path] \<Rightarrow> read_input files stdin path \<noteq> None \<and>
          format \<notin> {''binpack'', ''minidb'', ''cfgscript'', ''streamcodec''}
      | _ \<Rightarrow> True)"
proof (cases "length args = 2")
  case False
  then show ?thesis
    by (cases args; cases "tl args"; cases "tl (tl args)") (simp_all add: main_usage run_ok_usage)
next
  case True
  then obtain format path where args: "args = [format, path]" using two_args by blast
  show ?thesis
  proof (cases "read_input files stdin path")
    case None
    then show ?thesis by (simp add: args main_unreadable)
  next
    case (Some data)
    then show ?thesis
      by (cases rule: main_decodes [where fmt_g = fmt_g and format = format])
        (use Some in \<open>simp_all add: args run_ok_usage\<close>)
  qed
qed

section \<open>Written files\<close>

theorem dump_config:
  assumes "plain_nodes doc" "nodes_fit 1 doc" "read_input files stdin path = Some (bytes_of_string (serialize doc opts))"
  shows "bwdump_main fmt_g files stdin [''cfgscript'', path] = Some \<lparr>tr_status = 0, tr_out = summarize doc, tr_err = []\<rparr>"
  using serialize_parse [OF assms(1,2), of opts] assms(3) by (simp add: bwdump_main_def decode_and_print_def)

theorem dump_container:
  assumes "build b = Some data" "bp_parse bp_default_options data = Inr c" "read_input files stdin path = Some data"
  shows "bwdump_main fmt_g files stdin [''binpack'', path] =
    Some \<lparr>tr_status = 0, tr_out = bp_summarize fmt_g c, tr_err = []\<rparr>"
  using assms by (simp add: bwdump_main_def decode_and_print_def)

end
