(* ===== verification/Stream_Pipeline.thy ===== *)
theory Stream_Pipeline
  imports Stream_Decoder Delivery_Progress
begin

text \<open>
  From the sender to the application. A session is a list of messages for one encoder; the network may
  reorder its frames in any way, across fragments, messages and streams. The decoder then returns every
  message exactly once, with its payload, and ordered delivery hands them on in the order of their ids.
\<close>

section \<open>Sessions\<close>

text \<open>The arguments of one call of \<^verbatim>\<open>encode_message\<close>.\<close>

record outgoing =
  og_stream :: u16
  og_msg :: u32
  og_payload :: bytes
  og_max_fragment :: nat
  og_first_seq :: u16
  og_packed :: bool
  og_crc :: bool

definition og_key :: "outgoing \<Rightarrow> msg_key" where
  "og_key x = (og_stream x, og_msg x)"

definition og_message :: "outgoing \<Rightarrow> message" where
  "og_message x =
     \<lparr>m_stream_id = og_stream x, m_msg_id = og_msg x, m_compressed = og_packed x, m_data = og_payload x\<rparr>"

text \<open>What the encoder appends to its buffer, call after call.\<close>

definition send_message :: "outgoing \<Rightarrow> byte_writer \<Rightarrow> byte_writer" where
  "send_message x w =
     snd (encode_message w (og_stream x) (og_msg x) (og_payload x) (og_max_fragment x) (og_first_seq x)
       (og_packed x) (og_crc x))"

definition og_count :: "outgoing \<Rightarrow> nat" where
  "og_count x = fragment_count (og_max_fragment x) (og_payload x)"

definition og_spec :: "outgoing \<Rightarrow> nat \<Rightarrow> frame_spec" where
  "og_spec x = fragment_spec (og_stream x) (og_msg x) (og_payload x) (fragment_size (og_max_fragment x))
     (og_first_seq x) (og_packed x) (og_crc x) (og_count x)"

definition og_specs :: "outgoing \<Rightarrow> frame_spec list" where
  "og_specs x = map (og_spec x) [0..<og_count x]"

definition og_frame :: "outgoing \<Rightarrow> nat \<Rightarrow> frame" where
  "og_frame x i = frame_of_spec 0 (og_spec x i)"

definition og_frames :: "outgoing \<Rightarrow> frame list" where
  "og_frames x = map (og_frame x) [0..<og_count x]"

lemma og_frames_specs: "map (frame_of_spec 0) (og_specs x) = og_frames x"
  by (simp add: og_specs_def og_frames_def og_frame_def)

lemma send_message_specs: "send_message x w = w @ concat (map (encode_frame []) (og_specs x))"
  by (simp add: send_message_def encode_message_alt og_specs_def og_spec_def og_count_def o_def)

lemma send_all_specs: "fold send_message xs w = w @ concat (map (encode_frame []) (concat (map og_specs xs)))"
  by (induction xs arbitrary: w) (simp_all add: send_message_specs)

section \<open>The fragments of a message\<close>

lemma og_frame_enc:
  "og_frame x i = enc_frame (og_stream x) (og_msg x) (og_payload x) (og_max_fragment x) (og_first_seq x)
     (og_packed x) (og_crc x) i"
  by (simp add: og_frame_def og_spec_def enc_frame_def og_count_def)

lemma og_count_pos [simp]: "0 < og_count x"
  by (simp add: og_count_def)

lemma og_frame_fields:
  "f_type (og_frame x i) = kData" "frame_key (og_frame x i) = og_key x" "f_stream_id (og_frame x i) = og_stream x"
  "f_msg_id (og_frame x i) = og_msg x" "f_has_crc (og_frame x i) = og_crc x" "f_crc_ok (og_frame x i) = og_crc x"
  "fin (og_frame x i) \<longleftrightarrow> i + 1 = og_count x" "compressed (og_frame x i) \<longleftrightarrow> og_packed x"
  using enc_frame_fields(2) [of "og_stream x" "og_msg x" "og_payload x" "og_max_fragment x" "og_first_seq x"
    "og_packed x" "og_crc x" i]
  by (simp_all add: og_frame_enc enc_frame_fields enc_frame_flags og_key_def og_count_def frame_key_def)

lemma og_frames_key: "f \<in> set (og_frames x) \<Longrightarrow> f_type f = kData \<and> frame_key f = og_key x"
  by (auto simp: og_frames_def og_frame_fields)

definition sendable :: "outgoing \<Rightarrow> bool" where
  "sendable x \<longleftrightarrow> length (og_payload x) \<le> 0xFFFFFFFF"

lemma og_frame_slice: "sendable x \<Longrightarrow> i < og_count x \<Longrightarrow> slice_of (og_payload x) (og_frame x i)"
  unfolding og_frame_enc og_count_def sendable_def by (rule enc_frame_slice)

lemma og_frame_begin:
  "sendable x \<Longrightarrow> i < og_count x \<Longrightarrow> frag_begin (og_frame x i) = i * fragment_size (og_max_fragment x)"
  "length (f_payload (og_frame x i)) \<le> fragment_size (og_max_fragment x)"
  by (simp_all add: og_frame_enc og_count_def sendable_def enc_frame_begin enc_frame_payload)

lemma og_frames_distinct:
  assumes "sendable x"
  shows "distinct (og_frames x)"
proof -
  have "inj_on (og_frame x) {0..<og_count x}"
  proof (rule inj_onI)
    fix i j assume ij: "i \<in> {0..<og_count x}" "j \<in> {0..<og_count x}" "og_frame x i = og_frame x j"
    then have "i * fragment_size (og_max_fragment x) = j * fragment_size (og_max_fragment x)"
      using og_frame_begin(1) [OF assms] by (metis atLeastLessThan_iff)
    then show "i = j" by (metis fragment_size_pos less_irrefl mult_cancel2)
  qed
  then show ?thesis by (simp add: og_frames_def distinct_map)
qed

lemma distinct_sub_mset:
  assumes "mset as \<subseteq># mset bs" "distinct bs"
  shows "distinct as"
  unfolding distinct_count_atmost_1
proof
  fix a
  have "count (mset as) a \<le> count (mset bs) a" by (rule mset_subset_eq_count [OF assms(1)])
  also have "\<dots> = (if a \<in> set bs then 1 else 0)" using assms(2) by (simp add: distinct_count_atmost_1)
  finally show "count (mset as) a = (if a \<in> set as then 1 else 0)"
    by (cases "a \<in> set as") (simp_all add: count_mset_0_iff le_antisym Suc_leI split: if_splits)
qed

text \<open>Some of the fragments, in any order, make the message exactly when they are all there.\<close>

definition partial_of :: "outgoing \<Rightarrow> frame list \<Rightarrow> partial_message" where
  "partial_of x fs = fold accept_fragment fs (fresh_partial (og_key x))"

lemma fragments_state:
  assumes x: "sendable x" and set: "set fs \<subseteq> set (og_frames x)"
  shows "agrees (og_payload x) (partial_of x fs)"
    and "p_have_fin (partial_of x fs) \<longleftrightarrow> (\<exists>f \<in> set fs. fin f)"
    and "cover (p_ranges (partial_of x fs)) = (\<Union>f \<in> set fs. {frag_begin f..<frag_begin f + length (f_payload f)})"
proof -
  have slice: "\<forall>f \<in> set fs. slice_of (og_payload x) f"
    using set og_frame_slice [OF x] by (auto simp: og_frames_def)
  have len: "length (og_payload x) \<le> 0xFFFFFFFF" using x by (simp add: sendable_def)
  note fold = agrees_fold [OF agrees_fresh slice len, of "og_key x"]
  show "agrees (og_payload x) (partial_of x fs)" unfolding partial_of_def by (rule fold(1))
  show "p_have_fin (partial_of x fs) \<longleftrightarrow> (\<exists>f \<in> set fs. fin f)"
    unfolding partial_of_def fold(3) by (simp add: fresh_partial_def)
  show "cover (p_ranges (partial_of x fs)) = (\<Union>f \<in> set fs. {frag_begin f..<frag_begin f + length (f_payload f)})"
    unfolding partial_of_def fold(2) by (simp add: fresh_partial_def)
qed

lemma all_fragments:
  assumes x: "sendable x" and eq: "set fs = set (og_frames x)"
  shows "is_complete (partial_of x fs)"
proof -
  note st = fragments_state [OF x, of fs, unfolded eq, OF subset_refl]
  have "og_frame x (og_count x - 1) \<in> set (og_frames x)" by (simp add: og_frames_def)
  then have "p_have_fin (partial_of x fs)" unfolding st(2) by (intro bexI) (simp_all add: og_frame_fields)
  moreover have "{0..<length (og_payload x)} \<subseteq> cover (p_ranges (partial_of x fs))"
    unfolding st(3) using enc_frames_cover [of "og_payload x" "og_stream x" "og_msg x" "og_max_fragment x"
      "og_first_seq x" "og_packed x" "og_crc x"] x
    by (simp add: og_frames_def og_frame_enc og_count_def image_image sendable_def)
  ultimately show ?thesis by (simp add: agrees_complete [OF st(1)])
qed

lemma missing_fragment:
  assumes x: "sendable x" and set: "set fs \<subseteq> set (og_frames x)" and i: "i < og_count x" "og_frame x i \<notin> set fs"
  shows "\<not> is_complete (partial_of x fs)"
proof
  assume complete: "is_complete (partial_of x fs)"
  let ?m = "fragment_size (og_max_fragment x)"
  note st = fragments_state [OF x set]
  show False
  proof (cases "og_payload x = []")
    case True
    then have "og_count x = 1" by (simp add: og_count_def fragment_count_def)
    then have "set (og_frames x) = {og_frame x i}" using i by (simp add: og_frames_def)
    then have "\<not> p_have_fin (partial_of x fs)" unfolding st(2) using set i(2) by auto
    with complete show False by (simp add: agrees_complete [OF st(1)])
  next
    case False
    have "i * ?m \<le> (og_count x - 1) * ?m" using i(1) by (intro mult_le_mono1) simp
    with fragment_count_bounds(2) [OF False, of "og_max_fragment x"] have "i * ?m < length (og_payload x)"
      unfolding og_count_def by linarith
    then have "i * ?m \<in> cover (p_ranges (partial_of x fs))" using complete by (auto simp: agrees_complete [OF st(1)])
    then obtain g where g: "g \<in> set fs" "frag_begin g \<le> i * ?m" "i * ?m < frag_begin g + length (f_payload g)"
      by (auto simp: st(3))
    then obtain j where j: "j < og_count x" "g = og_frame x j" using set by (auto simp: og_frames_def)
    have "j * ?m \<le> i * ?m" "i * ?m < j * ?m + ?m"
      using g og_frame_begin(1) [OF x j(1)] og_frame_begin(2) [of x j] by (simp_all add: j(2))
    then have "j \<le> i" "i < Suc j" by (simp_all add: mult_less_cancel2 flip: mult_Suc add.commute)
    then have "j = i" by simp
    then show False using g(1) i(2) j by simp
  qed
qed

lemma some_fragments:
  assumes x: "sendable x" and sub: "mset fs \<subseteq># mset (og_frames x)"
  shows "is_complete (partial_of x fs) \<longleftrightarrow> length fs = og_count x"
    and "is_complete (partial_of x fs) \<Longrightarrow>
      take (p_total_len (partial_of x fs)) (p_buffer (partial_of x fs)) = og_payload x \<and>
      p_compressed (partial_of x fs) = og_packed x"
proof -
  have set: "set fs \<subseteq> set (og_frames x)" using sub by (metis set_mset_mono set_mset_mset)
  have d: "distinct (og_frames x)" "distinct fs"
    using og_frames_distinct [OF x] distinct_sub_mset [OF sub] by simp_all
  have n: "length fs = og_count x \<longleftrightarrow> set fs = set (og_frames x)"
  proof -
    have "length fs = card (set fs)" "og_count x = card (set (og_frames x))"
      using d by (simp_all add: distinct_card) (simp add: og_frames_def)
    then show ?thesis using set by (metis List.finite_set card_subset_eq)
  qed
  show "is_complete (partial_of x fs) \<longleftrightarrow> length fs = og_count x"
  proof (cases "set fs = set (og_frames x)")
    case True
    then show ?thesis using n all_fragments [OF x] by simp
  next
    case False
    then obtain f where "f \<in> set (og_frames x)" "f \<notin> set fs" using set by blast
    then obtain i where "i < og_count x" "og_frame x i \<notin> set fs" by (auto simp: og_frames_def)
    then show ?thesis using False n missing_fragment [OF x set] by blast
  qed
  assume complete: "is_complete (partial_of x fs)"
  note st = fragments_state [OF x set]
  have "\<exists>f. f \<in> set fs" using complete st(2) by (auto simp: agrees_complete [OF st(1)])
  moreover have "\<forall>f \<in> set fs. compressed f \<longleftrightarrow> og_packed x" using set by (auto simp: og_frames_def og_frame_fields)
  ultimately have "p_compressed (partial_of x fs) = og_packed x"
    unfolding partial_of_def fold_compressed by (auto simp: fresh_partial_def)
  with agrees_data [OF st(1) complete] show
    "take (p_total_len (partial_of x fs)) (p_buffer (partial_of x fs)) = og_payload x \<and>
      p_compressed (partial_of x fs) = og_packed x" by simp
qed

section \<open>A session in any order\<close>

text \<open>The frames of a message among those that have arrived, and whether they are all there.\<close>

definition own :: "frame list \<Rightarrow> outgoing \<Rightarrow> frame list" where
  "own fs x = filter (\<lambda>f. frame_key f = og_key x) fs"

definition arrived :: "frame list \<Rightarrow> outgoing \<Rightarrow> bool" where
  "arrived fs x \<longleftrightarrow> length (own fs x) = og_count x"

text \<open>The decoder keeps the fragments of every message that has begun and not ended, and has returned the others.\<close>

definition tracks :: "outgoing list \<Rightarrow> frame list \<Rightarrow> decoder_state \<Rightarrow> bool" where
  "tracks xs fs st \<longleftrightarrow>
     ra_inv (ds_reassembler st) \<and>
     (\<forall>x \<in> set xs. ra_abs (ds_reassembler st) (og_key x) =
        (if own fs x = [] \<or> arrived fs x then None
         else Some (partial_of x (own fs x)))) \<and>
     mset (dr_messages (ds_result st)) = mset (map og_message (filter (arrived fs) xs))"

definition session :: "outgoing list \<Rightarrow> bool" where
  "session xs \<longleftrightarrow> distinct (map og_key xs) \<and> (\<forall>x \<in> set xs. sendable x)"

lemma own_frames:
  "distinct (map og_key xs) \<Longrightarrow> x \<in> set xs \<Longrightarrow> own (concat (map og_frames xs)) x = og_frames x"
proof (induction xs)
  case (Cons y xs)
  have none: "own (concat (map og_frames ys)) x = []" if "og_key x \<notin> og_key ` set ys" for ys
  proof -
    have "frame_key f \<noteq> og_key x" if "y \<in> set ys" "f \<in> set (og_frames y)" for y f
      using that \<open>og_key x \<notin> og_key ` set ys\<close> og_frames_key [OF that(2)] by force
    then show ?thesis by (auto simp: own_def filter_empty_conv)
  qed
  have mine: "own (og_frames x) x = og_frames x" using og_frames_key unfolding own_def by (simp add: filter_id_conv)
  have app: "own (fs @ gs) x = own fs x @ own gs x" for fs gs by (simp add: own_def)
  show ?case
  proof (cases "x = y")
    case True
    then show ?thesis using Cons.prems none [of xs] mine app by simp
  next
    case False
    then have "og_key x \<noteq> og_key y" "x \<in> set xs" using Cons.prems by (auto simp: image_iff)
    then show ?thesis using Cons.IH Cons.prems none [of "[y]"] app by simp
  qed
qed simp

lemma own_fragments:
  assumes "session xs" "x \<in> set xs" "mset fs \<subseteq># mset (concat (map og_frames xs))"
  shows "mset (own fs x) \<subseteq># mset (og_frames x)"
proof -
  have "mset (own fs x) \<subseteq># mset (own (concat (map og_frames xs)) x)"
    unfolding own_def mset_filter by (rule multiset_filter_mono [OF assms(3)])
  then show ?thesis using own_frames [of xs x] assms by (simp add: session_def)
qed

lemma tracks_new: "tracks xs [] decoder_state_new"
proof -
  have "filter (arrived []) xs = []"
    using og_count_pos by (simp add: filter_empty_conv arrived_def own_def neq0_conv)
  then show ?thesis by (simp add: tracks_def decoder_state_new_def decode_result_new_def own_def)
qed

lemma mset_update_one:
  assumes "distinct (map k xs)" "x \<in> set xs" "\<not> P x" "\<And>y. y \<in> set xs \<Longrightarrow> k y \<noteq> k x \<Longrightarrow> Q y = P y"
  shows "mset (filter Q xs) = mset (filter P xs) + (if Q x then {#x#} else {#})"
proof -
  obtain as bs where xs: "xs = as @ x # bs" using split_list [OF assms(2)] by blast
  have "k x \<notin> k ` (set as \<union> set bs)" using assms(1) by (auto simp: xs)
  then have "k y \<noteq> k x" if "y \<in> set as \<union> set bs" for y using that by (metis image_eqI)
  then have "filter Q as = filter P as" "filter Q bs = filter P bs"
    using assms(4) by (auto simp: xs intro!: filter_cong)
  then show ?thesis using assms(3) by (simp add: xs)
qed

lemma own_snoc: "own (fs @ [f]) x = (if frame_key f = og_key x then own fs x @ [f] else own fs x)"
  by (simp add: own_def)

lemma tracks_step:
  assumes s: "session xs" and t: "tracks xs fs st" and sub: "mset (fs @ [f]) \<subseteq># mset (concat (map og_frames xs))"
  obtains st' where "decode_frame f st = Some st'" "tracks xs (fs @ [f]) st'"
proof -
  have "f \<in> set (concat (map og_frames xs))" using mset_subset_eqD [OF sub, of f] by simp
  then obtain x where x: "x \<in> set xs" "f \<in> set (og_frames x)" by auto
  have f: "f_type f = kData" "(f_stream_id f, f_msg_id f) = og_key x" "frame_key f = og_key x"
    using og_frames_key [OF x(2)] by (simp_all add: frame_key_def)
  have ids: "f_stream_id f = og_stream x" "f_msg_id f = og_msg x" using f(2) by (simp_all add: og_key_def)
  have mine: "own (fs @ [f]) x = own fs x @ [f]" using f(3) by (simp add: own_snoc)
  have frags: "mset (own (fs @ [f]) x) \<subseteq># mset (og_frames x)" by (rule own_fragments [OF s x(1) sub])
  have not_yet: "\<not> arrived fs x"
    using size_mset_mono [OF frags] by (simp add: mine arrived_def og_frames_def)
  let ?p = "partial_of x (own (fs @ [f]) x)"
  have send: "sendable x" using s x(1) by (simp add: session_def)
  have complete: "is_complete ?p \<longleftrightarrow> arrived (fs @ [f]) x"
    using some_fragments(1) [OF send frags] by (simp add: arrived_def)
  have msg: "\<lparr>m_stream_id = f_stream_id f, m_msg_id = f_msg_id f, m_compressed = p_compressed ?p,
      m_data = take (p_total_len ?p) (p_buffer ?p)\<rparr> = og_message x" if "is_complete ?p"
    using some_fragments(2) [OF send frags that] by (simp add: ids og_message_def)
  obtain out ra' where r: "accept_data f (ds_reassembler st) = Some (out, ra')" "ra_inv ra'"
    "accept_abs f (ra_abs (ds_reassembler st)) = (out, ra_abs ra')"
    using accept_data_refines [of "ds_reassembler st" f] t by (auto simp: tracks_def)
  have cur: "accept_fragment f (case ra_abs (ds_reassembler st) (og_key x) of
      None \<Rightarrow> fresh_partial (og_key x) | Some p \<Rightarrow> p) = ?p"
    using t x(1) not_yet by (auto simp: tracks_def mine partial_of_def)
  have out: "out = (if is_complete ?p then Some (og_message x) else None)"
    and ra': "ra_abs ra' = (ra_abs (ds_reassembler st)) (og_key x := (if is_complete ?p then None else Some ?p))"
    using r(3) msg unfolding accept_abs_def Let_def f(2) cur by (auto split: if_splits)
  have others: "y \<in> set xs \<Longrightarrow> og_key y \<noteq> og_key x \<Longrightarrow> arrived (fs @ [f]) y = arrived fs y" for y
    by (simp add: arrived_def own_snoc f(3))
  obtain st' where st': "decode_frame f st = Some st'" "ds_reassembler st' = ra'"
    "mset (dr_messages (ds_result st')) = mset (dr_messages (ds_result st)) +
       (if is_complete ?p then {#og_message x#} else {#})"
    using r(1) f(1) out by (auto simp: decode_frame_def tally_frame_def Let_def)
  have "mset (filter (arrived (fs @ [f])) xs) =
      mset (filter (arrived fs) xs) + (if arrived (fs @ [f]) x then {#x#} else {#})"
    using mset_update_one [where k = og_key and P = "arrived fs" and Q = "arrived (fs @ [f])", OF _ x(1) not_yet] others s
    by (simp add: session_def)
  then have "mset (dr_messages (ds_result st')) = mset (map og_message (filter (arrived (fs @ [f])) xs))"
    using t st'(3) by (simp add: tracks_def complete)
  moreover have "ra_abs ra' (og_key y) = (if own (fs @ [f]) y = [] \<or> arrived (fs @ [f]) y then None
      else Some (partial_of y (own (fs @ [f]) y)))" if y: "y \<in> set xs" for y
  proof (cases "og_key y = og_key x")
    case True
    then have "y = x" using s x(1) y by (auto simp: session_def distinct_map dest: inj_onD)
    then show ?thesis using complete mine by (simp add: ra')
  next
    case False
    then show ?thesis using t y others [OF y False] by (simp add: ra' tracks_def own_snoc f(3))
  qed
  ultimately have "tracks xs (fs @ [f]) st'" using r(2) by (simp add: tracks_def st'(2))
  with st'(1) show thesis by (rule that)
qed

lemma tracks_run:
  assumes "session xs" "mset fs \<subseteq># mset (concat (map og_frames xs))"
  shows "\<exists>st. decode_frames fs decoder_state_new = Some st \<and> tracks xs fs st"
  using assms(2)
proof (induction fs rule: rev_induct)
  case Nil
  then show ?case by (simp add: tracks_new)
next
  case (snoc f fs)
  have "mset fs \<subseteq># mset (concat (map og_frames xs))"
    using snoc.prems subset_mset.order_trans [of "mset fs" "mset (fs @ [f])"] by simp
  then obtain st where st: "decode_frames fs decoder_state_new = Some st" "tracks xs fs st"
    using snoc.IH by blast
  obtain st' where "decode_frame f st = Some st'" "tracks xs (fs @ [f]) st'"
    using tracks_step [OF assms(1) st(2) snoc.prems] .
  then show ?case using st(1) by (auto simp: decode_frames_append)
qed

lemma decode_frames_messages:
  "decode_frames fs st = Some st' \<Longrightarrow> \<exists>ms. dr_messages (ds_result st') = dr_messages (ds_result st) @ ms"
proof (induction fs arbitrary: st)
  case (Cons f fs)
  then obtain st1 where 1: "decode_frame f st = Some st1" "decode_frames fs st1 = Some st'"
    by (auto split: option.splits)
  have "\<exists>ms. dr_messages (ds_result st1) = dr_messages (ds_result st) @ ms"
    using 1(1) by (auto simp: decode_frame_def tally_frame_def Let_def split: frame_type.splits option.splits)
  with Cons.IH [OF 1(2)] show ?case by auto
qed simp

text \<open>Losses and reordering: exactly the messages whose frames have all come are returned, once each.\<close>

definition got :: "frame_spec list \<Rightarrow> outgoing \<Rightarrow> bool" where
  "got specs x \<longleftrightarrow> length (filter (\<lambda>s. (s_stream_id s, s_msg_id s) = og_key x) specs) = og_count x"

lemma arrived_got: "arrived (map (frame_of_spec 0) specs) = got specs"
  by (rule ext)
    (simp add: arrived_def got_def own_def filter_map o_def frame_key_def frame_of_spec_def)

lemma specs_frames:
  "mset specs \<subseteq># mset (concat (map og_specs xs)) \<Longrightarrow>
     mset (map (frame_of_spec 0) specs) \<subseteq># mset (concat (map og_frames xs))"
proof -
  have "map (frame_of_spec 0) (concat (map og_specs xs)) = concat (map og_frames xs)"
    by (simp add: map_concat og_frames_specs o_def)
  moreover assume "mset specs \<subseteq># mset (concat (map og_specs xs))"
  then have "mset (map (frame_of_spec 0) specs) \<subseteq># mset (map (frame_of_spec 0) (concat (map og_specs xs)))"
    unfolding mset_map by (rule image_mset_subseteq_mono)
  ultimately show ?thesis by simp
qed

lemma lossy_session:
  assumes "session xs" and "mset specs \<subseteq># mset (concat (map og_specs xs))"
  obtains r where "decode (concat (map (encode_frame []) specs)) = Some (Inr r)"
    and "mset (dr_messages r) = mset (map og_message (filter (got specs) xs))"
proof -
  obtain st where "decode_frames (map (frame_of_spec 0) specs) decoder_state_new = Some st"
    "tracks xs (map (frame_of_spec 0) specs) st"
    using tracks_run [OF assms(1) specs_frames [OF assms(2)]] by blast
  then show thesis
    by (intro that [of "(ds_result st)\<lparr>dr_stats := snapshot (ds_streams st)\<rparr>"])
      (simp_all add: decode_encoded tracks_def arrived_got)
qed

lemma got_all:
  assumes "session xs" and "mset specs = mset (concat (map og_specs xs))"
  shows "filter (got specs) xs = xs"
proof -
  have "map (frame_of_spec 0) (concat (map og_specs xs)) = concat (map og_frames xs)"
    by (simp add: map_concat og_frames_specs o_def)
  moreover have "mset (map (frame_of_spec 0) specs) = mset (map (frame_of_spec 0) (concat (map og_specs xs)))"
    by (simp only: mset_map assms(2))
  ultimately have frames: "mset (map (frame_of_spec 0) specs) = mset (concat (map og_frames xs))" by simp
  have "arrived (map (frame_of_spec 0) specs) x" if x: "x \<in> set xs" for x
  proof -
    have "mset (own (map (frame_of_spec 0) specs) x) = mset (own (concat (map og_frames xs)) x)"
      unfolding own_def mset_filter frames ..
    also have "\<dots> = mset (og_frames x)" using own_frames [of xs x] assms(1) x by (simp add: session_def)
    finally show ?thesis using mset_eq_length by (fastforce simp: arrived_def og_frames_def)
  qed
  then show ?thesis by (simp add: filter_id_conv arrived_got)
qed

section \<open>Reassembly followed by ordered delivery\<close>

lemma same_by_key:
  fixes k :: "'a \<Rightarrow> 'b :: linorder"
  assumes "mset as = mset bs" "sorted_wrt (<) (map k as)" "sorted_wrt (<) (map k bs)"
  shows "as = bs"
proof -
  have set: "set as = set bs" by (rule mset_eq_setD [OF assms(1)])
  have "map k as = map k bs"
    using assms(2,3) by (intro sorted_distinct_set_unique) (simp_all add: strict_sorted_iff set)
  moreover have "inj_on k (set as \<union> set bs)" using assms(2) by (simp add: strict_sorted_iff distinct_map set)
  ultimately show ?thesis by (simp add: inj_on_map_eq_map)
qed

definition of_sid :: "u16 \<Rightarrow> outgoing list \<Rightarrow> outgoing list" where
  "of_sid sid xs = filter (\<lambda>x. og_stream x = sid) xs"

lemma of_sid_ids: "session xs \<Longrightarrow> distinct (map og_msg (of_sid sid xs))"
  by (induction xs) (auto simp: session_def of_sid_def og_key_def image_iff)

lemma filter_image_messages:
  "filter_mset (\<lambda>m. m_stream_id m = sid) (mset (map og_message xs)) = mset (map og_message (of_sid sid xs))"
  by (induction xs) (simp_all add: of_sid_def og_message_def)

lemma filter_eq_once: "distinct xs \<Longrightarrow> x \<in> set xs \<Longrightarrow> filter (\<lambda>y. y = x) xs = [x]"
proof (induction xs)
  case (Cons y xs)
  have "x \<notin> set xs \<Longrightarrow> filter (\<lambda>y. y = x) xs = []" by (auto simp: filter_empty_conv)
  with Cons show ?case by auto
qed simp

text \<open>A message all of whose frames come before any other of its stream is complete is the first returned of it.\<close>

lemma first_completed:
  assumes s: "session xs" and all: "mset (pre @ post) = mset (concat (map og_specs xs))"
    and b: "b \<in> set xs" "\<forall>x \<in> set xs. og_stream x = og_stream b \<longrightarrow> (got pre x \<longleftrightarrow> x = b)"
  obtains r ms where "decode (concat (map (encode_frame []) (pre @ post))) = Some (Inr r)"
    and "mset (dr_messages r) = mset (map og_message xs)"
    and "filter (\<lambda>m. m_stream_id m = og_stream b) (dr_messages r) = og_message b # ms"
    and "mset (og_message b # ms) = mset (map og_message (of_sid (og_stream b) xs))"
proof -
  let ?sid = "og_stream b" and ?mine = "filter (\<lambda>m. m_stream_id m = og_stream b)"
  have "mset pre \<subseteq># mset (concat (map og_specs xs))" by (simp flip: all)
  then obtain st where st: "decode_frames (map (frame_of_spec 0) pre) decoder_state_new = Some st"
    "tracks xs (map (frame_of_spec 0) pre) st"
    using tracks_run [OF s specs_frames] by blast
  obtain r where r: "decode (concat (map (encode_frame []) (pre @ post))) = Some (Inr r)"
    "mset (dr_messages r) = mset (map og_message xs)"
    using lossy_session [OF s, of "pre @ post"] all got_all [OF s all] by auto
  obtain st' where st': "decode_frames (map (frame_of_spec 0) post) st = Some st'"
    "dr_messages r = dr_messages (ds_result st')"
    using r(1) unfolding decode_encoded by (auto simp: decode_frames_append st(1))
  obtain ms where ms: "dr_messages r = dr_messages (ds_result st) @ ms"
    using decode_frames_messages [OF st'(1)] st'(2) by auto
  have "of_sid ?sid (filter (got pre) xs) = filter (\<lambda>x. x = b) xs"
    unfolding of_sid_def filter_filter using b(2) by (intro filter_cong) auto
  moreover have "distinct xs" using s by (auto simp: session_def distinct_map)
  ultimately have one: "of_sid ?sid (filter (got pre) xs) = [b]"
    using b(1) filter_eq_once [of xs b] by simp
  have "mset (?mine (dr_messages (ds_result st))) = {#og_message b#}"
    using st(2) filter_image_messages [of ?sid "filter (got pre) xs"] by (simp add: tracks_def arrived_got one)
  then have "?mine (dr_messages (ds_result st)) = [og_message b]" by (simp only: mset_single_iff)
  then have first: "?mine (dr_messages r) = og_message b # ?mine ms" by (simp add: ms)
  moreover have "mset (og_message b # ?mine ms) = mset (map og_message (of_sid ?sid xs))"
    unfolding first [symmetric] mset_filter r(2) by (rule filter_image_messages)
  ultimately show thesis using r that by blast
qed

text \<open>The two stages together: the application gets the messages of a stream in the order of their ids.\<close>

lemma session_delivered:
  assumes s: "session xs" and max: "\<forall>x \<in> set xs. og_msg x < 0xFFFFFFFF"
    and all: "mset (pre @ post) = mset (concat (map og_specs xs))"
    and b: "b \<in> set xs" "\<forall>x \<in> set xs. og_stream x = og_stream b \<longrightarrow> (got pre x \<longleftrightarrow> x = b)"
    and ids: "og_msg ` set (of_sid (og_stream b) xs) = {og_msg b..<e}"
    and w: "length (of_sid (og_stream b) xs) \<le> Suc w"
  obtains r out q where "decode (concat (map (encode_frame []) (pre @ post))) = Some (Inr r)"
    and "offers (dr_messages r) (delivery_queue_new w) = (out, q)"
    and "filter (\<lambda>m. m_stream_id m = og_stream b) out = map og_message (sort_key og_msg (of_sid (og_stream b) xs))"
    and "so_pending (dq_slot (og_stream b) q) = []"
proof -
  let ?xs = "of_sid (og_stream b) xs"
  obtain r ms where r: "decode (concat (map (encode_frame []) (pre @ post))) = Some (Inr r)"
    "mset (dr_messages r) = mset (map og_message xs)"
    "filter (\<lambda>m. m_stream_id m = og_stream b) (dr_messages r) = og_message b # ms"
    "mset (og_message b # ms) = mset (map og_message ?xs)"
    using first_completed [OF s all b] .
  obtain out q where q: "offers (dr_messages r) (delivery_queue_new w) = (out, q)"
    by (cases "offers (dr_messages r) (delivery_queue_new w)")
  have idmap: "map m_msg_id (map og_message ys) = map og_msg ys" for ys by (simp add: og_message_def)
  have "mset (map m_msg_id (og_message b # ms)) = mset (map og_msg ?xs)"
    unfolding idmap [symmetric] mset_map [of _ "og_message b # _"] r(4) by (simp only: mset_map)
  then have d: "distinct (map m_msg_id (og_message b # ms))" "m_msg_id ` set (og_message b # ms) = og_msg ` set ?xs"
    using of_sid_ids [OF s] mset_eq_imp_distinct_iff mset_eq_setD by (metis, metis set_map)
  have below: "\<forall>m \<in> set (dr_messages r). m_msg_id m < 0xFFFFFFFF"
    using max mset_eq_setD [OF r(2)] by (auto simp: og_message_def)
  have len: "length ms \<le> w" using mset_eq_length [OF r(4)] w by simp
  have e: "m_msg_id ` set (og_message b # ms) = {m_msg_id (og_message b)..<e}"
    unfolding d(2) ids by (simp add: og_message_def)
  note del = complete_stream_delivered [OF q below r(3) d(1) e len]
  have "filter (\<lambda>m. m_stream_id m = og_stream b) out = map og_message (sort_key og_msg ?xs)"
  proof (rule same_by_key [OF _ del(2)])
    show "mset (filter (\<lambda>m. m_stream_id m = og_stream b) out) = mset (map og_message (sort_key og_msg ?xs))"
      using del(1) r(4) by simp
    show "sorted_wrt (<) (map m_msg_id (map og_message (sort_key og_msg ?xs)))"
      unfolding idmap strict_sorted_iff using of_sid_ids [OF s] by (simp add: distinct_map)
  qed
  with r(1) q del(3) show thesis by (intro that)
qed

end
