(* ===== verification/Fuzz_Drivers.thy ===== *)
theory Fuzz_Drivers
  imports Complex_Main Bwdump Bp_Container Bp_Visit Binary64
begin

text \<open>
  The four fuzzing entry points (\<^verbatim>\<open>fuzz/*.cc\<close>). Each decodes its input, touches what was decoded and
  returns 0; a \<^verbatim>\<open>ParseError\<close> is caught. They promise never to fail on any input, so the question is
  when a driver has no defined outcome (\<open>None\<close>): the driver of \<^verbatim>\<open>binpack\<close> adds up the values of a
  record tree and converts a double to \<^verbatim>\<open>std::size_t\<close>, and the driver of \<^verbatim>\<open>streamcodec\<close> depends on the
  decoder. A \<^verbatim>\<open>std::size_t\<close> has 64 bits here, and its sums wrap.
\<close>

section \<open>The drivers\<close>

text \<open>
  \<^verbatim>\<open>static_cast<std::size_t>\<close> of a double drops the fraction; it is undefined for a NaN and for a value
  whose integer part a \<^verbatim>\<open>std::size_t\<close> cannot hold.
\<close>

definition dbl_integer_part :: "u64 \<Rightarrow> nat" where
  "dbl_integer_part b =
     (if 0 \<le> dbl_exp b then dbl_mant b * 2 ^ nat (dbl_exp b) else dbl_mant b div 2 ^ nat (- dbl_exp b))"

definition dbl_to_size :: "u64 \<Rightarrow> u64 option" where
  "dbl_to_size b =
     (if dbl_is_nan b \<or> dbl_is_inf b then None
      else let n = dbl_integer_part b
           in if (dbl_sign b \<and> n \<noteq> 0) \<or> 2 ^ 64 \<le> n then None else Some (of_nat n))"

text \<open>A loop that adds the value of every element.\<close>

fun accumulate :: "('a \<Rightarrow> u64 option) \<Rightarrow> 'a list \<Rightarrow> u64 \<Rightarrow> u64 option" where
  "accumulate f [] acc = Some acc"
| "accumulate f (x # xs) acc = (case f x of None \<Rightarrow> None | Some v \<Rightarrow> accumulate f xs (acc + v))"

lemma accumulate_cong [fundef_cong]:
  "xs = ys \<Longrightarrow> acc = acc' \<Longrightarrow> (\<And>x. x \<in> set ys \<Longrightarrow> f x = g x) \<Longrightarrow> accumulate f xs acc = accumulate g ys acc'"
  by (induction ys arbitrary: xs acc acc') (auto split: option.split)

function fuzz_walk_record :: "bp_record \<Rightarrow> u64 option" where
  "fuzz_walk_record rec =
     (let acc = ucast (record_tag_byte (rc_tag rec)) + (if rc_group rec then 1 else 0)
      in case rc_tag rec of
           TagInt \<Rightarrow> Some (acc + rc_i64 rec)
         | TagUint \<Rightarrow> Some (acc + rc_u64 rec)
         | TagFloat \<Rightarrow> map_option (\<lambda>v. acc + v) (dbl_to_size (rc_f64 rec))
         | TagString \<Rightarrow> Some (acc + of_nat (length (rc_str rec)))
         | TagBlob \<Rightarrow> Some (acc + of_nat (length (rc_blob rec)))
         | TagKeyval \<Rightarrow> accumulate fuzz_walk_record (rc_children rec) (acc + of_nat (length (rc_key rec)))
         | TagArray \<Rightarrow> accumulate fuzz_walk_record (rc_children rec) acc
         | TagGroup \<Rightarrow> accumulate fuzz_walk_record (rc_children rec) acc)"
  by pat_completeness auto
termination
  by (relation "measure size") (auto dest: size_child)

declare fuzz_walk_record.simps [simp del]

definition fuzz_touch :: "bp_container \<Rightarrow> u64 option" where
  "fuzz_touch c =
     (let acc = (if bc_checksum_ok c then 1 else 0)
      in case accumulate (\<lambda>s. accumulate fuzz_walk_record (bs_records s) (of_nat (length (bs_records s))))
                (bc_sections c) acc of
           None \<Rightarrow> None
         | Some acc \<Rightarrow>
             accumulate (\<lambda>kv. map_option (\<lambda>v. of_nat (length (fst kv)) + v) (fuzz_walk_record (snd kv)))
               (bc_metadata c) acc)"

text \<open>The text of the summary has no effect but its length, which is thrown away.\<close>

definition fuzz_binpack :: "(u64 \<Rightarrow> string) \<Rightarrow> bytes \<Rightarrow> int option" where
  "fuzz_binpack fmt_g data =
     (case bp_parse bp_default_options data of
        Inl e \<Rightarrow> Some 0
      | Inr c \<Rightarrow>
          (case fuzz_touch c of
             None \<Rightarrow> None
           | Some acc \<Rightarrow> let sink = length (bp_summarize fmt_g c) in Some 0))"

definition fuzz_minidb :: "(u64 \<Rightarrow> string) \<Rightarrow> bytes \<Rightarrow> int option" where
  "fuzz_minidb fmt_g data =
     (case open_db data False of
        Inl e \<Rightarrow> Some 0
      | Inr db \<Rightarrow> let sink = length (summarize_db fmt_g db) in Some 0)"

definition fuzz_cfgscript :: "bytes \<Rightarrow> int option" where
  "fuzz_cfgscript data =
     (case cs_parse data of
        Inl e \<Rightarrow> Some 0
      | Inr doc \<Rightarrow> let sink = length (summarize doc) in Some 0)"

definition fuzz_streamcodec :: "bytes \<Rightarrow> int option" where
  "fuzz_streamcodec data =
     (case decode data of
        None \<Rightarrow> None
      | Some (Inl e) \<Rightarrow> Some 0
      | Some (Inr r) \<Rightarrow> let sink = length (summarize_decode r) in Some 0)"

section \<open>When they have an outcome\<close>

lemma accumulate_None: "accumulate f xs acc = None \<longleftrightarrow> (\<exists>x \<in> set xs. f x = None)"
  by (induction xs arbitrary: acc) (auto split: option.split)

lemma accumulate_twice_None:
  "(case accumulate f xs acc of None \<Rightarrow> None | Some acc' \<Rightarrow> accumulate g ys acc') = None \<longleftrightarrow>
     (\<exists>x \<in> set xs. f x = None) \<or> (\<exists>y \<in> set ys. g y = None)"
proof (cases "\<exists>x \<in> set xs. f x = None")
  case True
  then have "accumulate f xs acc = None" by (simp only: accumulate_None)
  then show ?thesis using True by simp
next
  case False
  then have "accumulate f xs acc \<noteq> None" by (simp only: accumulate_None not_False_eq_True)
  then obtain acc' where "accumulate f xs acc = Some acc'" by blast
  then show ?thesis using False by (simp only: option.case accumulate_None) blast
qed

definition bad_float :: "bp_record \<Rightarrow> bool" where
  "bad_float rec \<longleftrightarrow> rc_tag rec = TagFloat \<and> dbl_to_size (rc_f64 rec) = None"

lemma walk_record_None:
  "rec_ok n rec \<Longrightarrow> fuzz_walk_record rec = None \<longleftrightarrow> (\<exists>r \<in> set (preorder rec). bad_float r)"
proof (induction rec arbitrary: n rule: preorder.induct)
  case (1 rec)
  have children: "(\<exists>c \<in> set (rc_children rec). fuzz_walk_record c = None) \<longleftrightarrow>
      (\<exists>r \<in> set (concat (map preorder (rc_children rec))). bad_float r)"
    using "1.IH" rec_ok_children(2) [OF "1.prems"] by fastforce
  show ?case
    using rec_ok_children(1) [OF "1.prems"] children
    by (cases "rc_tag rec")
      (simp_all add: fuzz_walk_record.simps [of rec] preorder.simps [of rec] bad_float_def accumulate_None Let_def)
qed

text \<open>A metadata value is the child of a key/value record of some section, so the sections decide.\<close>

lemma metadata_below:
  assumes "kv \<in> set (metadata_of ss)"
  shows "\<exists>s \<in> set ss. \<exists>rec \<in> set (bs_records s). snd kv \<in> set (rc_children rec)"
proof -
  obtain s where s: "s \<in> set ss" "kv \<in> set (collect_metadata (bs_records s))"
    using assms by (auto simp: metadata_of_def split: if_splits)
  then obtain rec where "rec \<in> set (bs_records s)" "kv = (rc_key rec, hd (rc_children rec))" "rc_children rec \<noteq> []"
    by (auto simp: collect_metadata_def)
  with s(1) show ?thesis by force
qed

lemma preorder_child: "c \<in> set (rc_children rec) \<Longrightarrow> set (preorder c) \<subseteq> set (preorder rec)"
  by (subst preorder.simps [of rec]) auto

lemma touch_None:
  assumes ok: "\<forall>s \<in> set (bc_sections c). \<forall>rec \<in> set (bs_records s). rec_ok n rec"
    and meta: "bc_metadata c = metadata_of (bc_sections c)"
  shows "fuzz_touch c = None \<longleftrightarrow> (\<exists>rec \<in> set (collect_records c TagFloat True). dbl_to_size (rc_f64 rec) = None)"
proof -
  have all: "(\<exists>rec \<in> set (collect_records c TagFloat True). dbl_to_size (rc_f64 rec) = None) \<longleftrightarrow>
      (\<exists>s \<in> set (bc_sections c). \<exists>rec \<in> set (bs_records s). \<exists>r \<in> set (preorder rec). bad_float r)"
    by (auto simp: collect_records_spec bad_float_def)
  have secs: "(\<exists>s \<in> set (bc_sections c). \<exists>rec \<in> set (bs_records s). fuzz_walk_record rec = None) \<longleftrightarrow>
      (\<exists>s \<in> set (bc_sections c). \<exists>rec \<in> set (bs_records s). \<exists>r \<in> set (preorder rec). bad_float r)"
    using walk_record_None ok by blast
  have "\<exists>s \<in> set (bc_sections c). \<exists>rec \<in> set (bs_records s). \<exists>r \<in> set (preorder rec). bad_float r"
    if kv: "kv \<in> set (bc_metadata c)" "fuzz_walk_record (snd kv) = None" for kv
  proof -
    obtain s rec where s: "s \<in> set (bc_sections c)" "rec \<in> set (bs_records s)" "snd kv \<in> set (rc_children rec)"
      using metadata_below [of kv "bc_sections c"] kv(1) meta by auto
    then have "rec_ok (n - 1) (snd kv)" using ok rec_ok_children(2) by blast
    then show ?thesis using walk_record_None kv(2) s preorder_child [OF s(3)] by blast
  qed
  then show ?thesis
    using secs unfolding all fuzz_touch_def Let_def accumulate_twice_None
    by (simp only: accumulate_None option.map_disc_iff) blast
qed

theorem fuzz_binpack_undefined:
  "fuzz_binpack fmt_g data = None \<longleftrightarrow>
     (\<exists>c. bp_parse bp_default_options data = Inr c \<and>
       (\<exists>rec \<in> set (collect_records c TagFloat True). dbl_to_size (rc_f64 rec) = None))"
proof (cases "bp_parse bp_default_options data")
  case (Inr c)
  have "\<forall>s \<in> set (bc_sections c). \<forall>rec \<in> set (bs_records s). rec_ok (bo_max_depth bp_default_options) rec"
    using bp_parse_facts(3) [OF Inr] by (auto simp: section_ok_def)
  from touch_None [OF this bp_parse_facts(4) [OF Inr]] show ?thesis
    by (cases "fuzz_touch c") (simp_all add: fuzz_binpack_def Inr)
qed (simp add: fuzz_binpack_def)

text \<open>The conversion on finite values: defined exactly between \<open>-1\<close> and \<open>2 ^ 64\<close>, and then it truncates.\<close>

definition dbl_value :: "u64 \<Rightarrow> real" where
  "dbl_value b = (if dbl_sign b then -1 else 1) * (real (dbl_mant b) * 2 powi dbl_exp b)"

lemma integer_part_floor: "int (dbl_integer_part b) = \<lfloor>real (dbl_mant b) * 2 powi dbl_exp b\<rfloor>"
proof (cases "0 \<le> dbl_exp b")
  case True
  then have "real (dbl_mant b) * 2 powi dbl_exp b = of_int (int (dbl_mant b * 2 ^ nat (dbl_exp b)))"
    by (simp add: power_int_def)
  then show ?thesis using True unfolding dbl_integer_part_def by (simp only: floor_of_int if_True)
next
  case False
  then have "real (dbl_mant b) * 2 powi dbl_exp b = real (dbl_mant b) / real (2 ^ nat (- dbl_exp b))"
    by (simp add: power_int_def field_simps)
  then show ?thesis
    using False unfolding dbl_integer_part_def by (simp only: floor_divide_of_nat_eq if_False of_nat_id)
qed

lemma dbl_to_size_exact:
  assumes "\<not> dbl_is_nan b" "\<not> dbl_is_inf b"
  shows "dbl_to_size b =
    (if -1 < dbl_value b \<and> dbl_value b < 2 ^ 64 then Some (word_of_int \<lfloor>\<bar>dbl_value b\<bar>\<rfloor>) else None)"
proof -
  define m where "m = real (dbl_mant b) * 2 powi dbl_exp b"
  have m: "0 \<le> m" by (simp add: m_def)
  have v: "dbl_value b = (if dbl_sign b then - m else m)" by (simp add: dbl_value_def m_def)
  have n: "dbl_integer_part b = nat \<lfloor>m\<rfloor>" unfolding m_def by (simp flip: integer_part_floor)
  have "dbl_integer_part b \<noteq> 0 \<longleftrightarrow> 1 \<le> m" "2 ^ 64 \<le> dbl_integer_part b \<longleftrightarrow> 2 ^ 64 \<le> m"
    using m by (simp_all add: n le_nat_iff le_floor_iff) linarith+
  moreover have "of_nat (dbl_integer_part b) = (word_of_int \<lfloor>m\<rfloor> :: u64)"
    unfolding m_def by (simp flip: integer_part_floor)
  ultimately show ?thesis
    using assms m unfolding dbl_to_size_def Let_def v by (cases "dbl_sign b") auto
qed

lemma dbl_to_size_None:
  "dbl_to_size b = None \<longleftrightarrow>
     dbl_is_nan b \<or> dbl_is_inf b \<or> dbl_value b \<le> -1 \<or> 2 ^ 64 \<le> dbl_value b"
  using dbl_to_size_exact [of b]
  by (cases "dbl_is_nan b \<or> dbl_is_inf b") (auto simp: dbl_to_size_def not_less)

section \<open>A valid file without an outcome\<close>

text \<open>A container with one negative number, made by the library's own builder.\<close>

definition negative_file :: builder where
  "negative_file = add_record (spec_Float 0xBFF0000000000000) (add_section SecData 1 0 builder_new)"

lemma minus_one: "dbl_to_size 0xBFF0000000000000 = None"
  by (simp add: dbl_to_size_def dbl_integer_part_def dbl_is_nan_def dbl_is_inf_def dbl_sign_def dbl_biased_def
      dbl_fraction_def dbl_mant_def dbl_exp_def)

lemma negative_file_fits: "builder_fits (bo_max_depth bp_default_options) negative_file"
  by (simp add: builder_fits_def negative_file_def builder_ok_def add_record_def add_section_def builder_new_def
      spec_Float_def encode_record_payload_def section_body_def put_record_def put_bytes_def put_u8_def
      put_varint.simps put_f64_def upt_rec Let_def bp_default_options_def)

theorem fuzz_binpack_fails_on_valid_file:
  obtains data c where "build negative_file = Some data" "bp_parse bp_default_options data = Inr c"
    "bc_checksum_ok c" "fuzz_binpack fmt_g data = None"
proof -
  obtain data c where p: "build negative_file = Some data" "bp_parse bp_default_options data = Inr c" "bc_checksum_ok c"
    and secs: "map (\<lambda>s. (bs_type s, bs_id s, bs_flags s, bs_records s)) (bc_sections c) =
      map (\<lambda>s. (sc_type s, sc_id s, sc_flags s, decoded_records s)) (bb_sections negative_file)"
    by (rule build_parse_content [OF negative_file_fits])
  let ?rec = "BpRecord TagFloat False 0 0 0xBFF0000000000000 [] [] [] []"
  have "map bs_records (bc_sections c) = [[?rec]]"
    using arg_cong [OF secs, where f = "map (\<lambda>(a, b, c, d). d)"]
    by (simp add: comp_def negative_file_def builder_new_def add_record_def add_section_def decoded_records_def
        spec_Float_def Let_def)
  then obtain s where s: "bc_sections c = [s]" "bs_records s = [?rec]" by (auto simp: map_eq_Cons_conv)
  have "?rec \<in> set (collect_records c TagFloat True)"
    by (simp add: collect_records_spec s preorder.simps [of ?rec])
  then have "fuzz_binpack fmt_g data = None"
    using p(2) minus_one by (auto simp: fuzz_binpack_undefined intro!: bexI [of _ ?rec])
  with p show thesis by (rule that)
qed

text \<open>The other drivers return on every input, the one of \<^verbatim>\<open>streamcodec\<close> when no frame is a RESET.\<close>

theorem fuzz_others_return:
  "fuzz_minidb fmt_g data = Some 0" "fuzz_cfgscript data = Some 0"
  "fuzz_streamcodec data = (if decode data = None then None else Some 0)"
  by (simp_all add: fuzz_minidb_def fuzz_cfgscript_def fuzz_streamcodec_def Let_def split: sum.split option.split)

lemma fuzz_binpack_zero: "fuzz_binpack fmt_g data = None \<or> fuzz_binpack fmt_g data = Some 0"
  by (simp add: fuzz_binpack_def Let_def split: sum.split option.split)

end
