(* ===== verification/Test_Common.thy ===== *)
theory Test_Common
  imports Byte_Writer Bit_Reader Checksum Utf8 Hexdump
begin

text \<open>
  The unit tests of the shared utilities (\<^verbatim>\<open>tests/common/test_common.cpp\<close>), run on the model: a test is
  the conjunction of its checks, an exception that a check does not expect makes it fail, and every
  test passes. The expected values are the ones in the source, so these theorems compare the
  definitions of this library with what the program is tested for.
\<close>

text \<open>The harness of \<^verbatim>\<open>tests/bw_test.hpp\<close>: a check that expects an exception, and a test that reads.\<close>

definition check_throws :: "'a result \<Rightarrow> bool" where
  "check_throws r \<longleftrightarrow> (case r of Inl _ \<Rightarrow> True | Inr _ \<Rightarrow> False)"

definition no_throw :: "bool result \<Rightarrow> bool" where
  "no_throw r \<longleftrightarrow> (case r of Inl _ \<Rightarrow> False | Inr b \<Rightarrow> b)"

section \<open>Readers and writers\<close>

definition byte_reader_roundtrips_fixed_and_varint :: bool where
  "byte_reader_roundtrips_fixed_and_varint \<longleftrightarrow>
     (let w = put_u16le [] 0x1234;
          w = put_u32be w 0xDEADBEEF;
          w = put_varint w 300;
          w = put_svarint w (- 5);
          w = put_u64le w 0x0102030405060708
      in no_throw
           (bindE (read_u16le (byte_reader_new w)) (\<lambda>(a, r).
            bindE (read_u32be r) (\<lambda>(b, r).
            bindE (read_varint r) (\<lambda>(c, r).
            bindE (read_svarint r) (\<lambda>(d, r).
            bindE (read_u64le r) (\<lambda>(e, r).
              Inr (a = 0x1234 \<and> b = 0xDEADBEEF \<and> c = 300 \<and> d = - 5 \<and> e = 0x0102030405060708 \<and> rd_eof r))))))))"

definition byte_reader_short_read_throws :: bool where
  "byte_reader_short_read_throws \<longleftrightarrow> check_throws (read_u32le (byte_reader_new [0x01, 0x02]))"

definition varint_overlong_rejected :: bool where
  "varint_overlong_rejected \<longleftrightarrow> check_throws (read_varint (byte_reader_new (replicate 11 0x80)))"

definition bit_reader_msb_first :: bool where
  "bit_reader_msb_first \<longleftrightarrow>
     no_throw
       (bindE (read_bits 1 (bit_reader_new [0xB2, 0xC0])) (\<lambda>(a, br).
        bindE (read_bits 3 br) (\<lambda>(b, br).
        bindE (read_bits 4 br) (\<lambda>(c, br).
        bindE (read_bits 2 br) (\<lambda>(d, br).
          Inr (a = 1 \<and> b = 0x3 \<and> c = 0x2 \<and> d = 0x3 \<and> bits_remaining br = 6))))))"

definition bit_reader_align_and_byte_fastpath :: bool where
  "bit_reader_align_and_byte_fastpath \<longleftrightarrow>
     no_throw
       (bindE (read_bits 4 (bit_reader_new [0xAB, 0xCD, 0xEF])) (\<lambda>(a, br).
          let br = align br; off = br_pos br
          in bindE (read_bits 16 br) (\<lambda>(b, br). Inr (a = 0xA \<and> off = 8 \<and> b = 0xCDEF \<and> br_eof br))))"

definition bit_reader_overrun_throws :: bool where
  "bit_reader_overrun_throws \<longleftrightarrow> check_throws (read_bits 9 (bit_reader_new [0xFF]))"

section \<open>Checksums and hashing\<close>

definition crc32_known_vector :: bool where
  "crc32_known_vector \<longleftrightarrow> crc32 (bytes_of_string ''123456789'') = 0xCBF43926"

definition adler32_known_vector :: bool where
  "adler32_known_vector \<longleftrightarrow> adler32 (bytes_of_string ''Wikipedia'') = 0x11E60398"

definition fnv1a_known_vector_and_incremental :: bool where
  "fnv1a_known_vector_and_incremental \<longleftrightarrow>
     fnv1a_32_string '''' = 0x811C9DC5 \<and> fnv1a_32_string ''a'' = 0xE40C292C \<and>
     (let s = ''foobar''; whole = fnv1a_32_string s; st = fnv1a_32_init;
          st = fnv1a_32_update st (take 3 (bytes_of_string s));
          st = fnv1a_32_update st (take 3 (drop 3 (bytes_of_string s)))
      in st = whole)"

definition mix64_is_a_bijonline_distinct :: bool where
  "mix64_is_a_bijonline_distinct \<longleftrightarrow>
     mix64 0 \<noteq> mix64 1 \<and> mix64 1 \<noteq> mix64 2 \<and> hash_combine 0x1234 0x5678 \<noteq> hash_combine 0x5678 0x1234"

section \<open>UTF-8 and text\<close>

definition utf8_validates_good_and_rejects_bad :: bool where
  "utf8_validates_good_and_rejects_bad \<longleftrightarrow>
     (let (ok1, good) = utf8_encode 0x68 [];
          (ok2, good) = utf8_encode 0xE9 good;
          (ok3, good) = utf8_encode 0x20AC good;
          (ok4, good) = utf8_encode 0x1F600 good
      in ok1 \<and> ok2 \<and> ok3 \<and> ok4 \<and> utf8_validate_string good \<and>
         count_codepoints (bytes_of_string good) = Some 4) \<and>
     \<not> utf8_validate_string (string_of_bytes [0xC0, 0xAF]) \<and>
     \<not> utf8_validate_string (string_of_bytes [0x80]) \<and>
     \<not> utf8_validate_string (string_of_bytes [0xE0, 0xA4])"

definition utf8_surrogates_rejected :: bool where
  "utf8_surrogates_rejected \<longleftrightarrow>
     (let (ok1, out) = utf8_encode 0xD800 []; (ok2, out) = utf8_encode 0x110000 out
      in \<not> ok1 \<and> \<not> ok2 \<and> out = [])"

definition hexdump_and_escape_nonempty :: bool where
  "hexdump_and_escape_nonempty \<longleftrightarrow>
     0 < length (hexdump [0x00, 0x41, 0x7F, 0xFF]) \<and>
     escape (''a'' @ [CHR 0x0A] @ ''b'') = ''a'' @ [CHR 0x5C] @ ''x0ab'' \<and>
     to_hex 0xABCD 4 = ''0xabcd''"

section \<open>Every test passes\<close>

lemma common_reader_tests:
  "byte_reader_roundtrips_fixed_and_varint" "byte_reader_short_read_throws" "varint_overlong_rejected"
  "bit_reader_msb_first" "bit_reader_align_and_byte_fastpath" "bit_reader_overrun_throws"
  by code_simp+

lemma crc32_bitwise: "crc32 data = crc32_final (foldl crc_byte crc32_init data)"
  by (simp add: crc32_def crc32_update_bitwise)

lemma crc_entry_steps:
  "crc_entry n = crc_shift (crc_shift (crc_shift (crc_shift (crc_shift (crc_shift (crc_shift (crc_shift n)))))))"
  by (simp add: crc_entry_def numeral_eq_Suc)

lemmas crc_eval = crc32_bitwise crc32_final_def crc32_init_def crc_byte_def crc_entry_steps crc_shift_def

lemma crc_test: "crc32_known_vector"
proof -
  have "bytes_of_string ''123456789'' = [0x31, 0x32, 0x33, 0x34, 0x35, 0x36, 0x37, 0x38, 0x39]" by code_simp
  then show ?thesis by (simp add: crc32_known_vector_def crc_eval)
qed

lemma common_checksum_tests:
  "adler32_known_vector" "fnv1a_known_vector_and_incremental" "mix64_is_a_bijonline_distinct"
  by code_simp+

lemma common_text_tests:
  "utf8_validates_good_and_rejects_bad" "utf8_surrogates_rejected" "hexdump_and_escape_nonempty"
  by code_simp+

end
