(* ===== verification/Test_Stream.thy ===== *)
theory Test_Stream
  imports Test_Common Stream_Decoder
begin

text \<open>
  The unit tests of the stream decoder (\<^verbatim>\<open>tests/streamcodec/test_streamcodec.cpp\<close>), run on the model.
  The frames are built byte by byte as the helper of the tests does it, not by the encoder.
\<close>

unbundle bit_operations_syntax

text \<open>The helper of the tests; \<^verbatim>\<open>crc_override\<close> replaces the checksum when it is given.\<close>

definition build_frame ::
  "byte_writer \<Rightarrow> frame_type \<Rightarrow> u8 \<Rightarrow> u16 \<Rightarrow> u32 \<Rightarrow> u16 \<Rightarrow> u32 \<Rightarrow> bytes \<Rightarrow> bool \<Rightarrow> u16 option \<Rightarrow>
     byte_writer" where
  "build_frame w type flags stream_id msg_id seq frag_offset payload with_crc crc_override =
     (let flags = (if with_crc then flags OR kFlagHasCrc else flags);
          hdr = put_u16be [] kSync;
          hdr = put_u8 hdr kVersion;
          hdr = put_u8 hdr (frame_type_byte type);
          hdr = put_u8 hdr flags;
          hdr = put_u16be hdr stream_id;
          hdr = put_u32be hdr msg_id;
          hdr = put_u16be hdr seq;
          hdr = put_u32be hdr frag_offset;
          hdr = put_u16be hdr (of_nat (length payload));
          w = put_bytes w hdr;
          w = (if with_crc
               then put_u16be w (case crc_override of None \<Rightarrow> crc16 hdr | Some crc \<Rightarrow> crc)
               else w)
      in put_bytes w payload)"

text \<open>A check on the result of a decode that is expected to return.\<close>

definition decoded :: "bytes \<Rightarrow> (decode_result \<Rightarrow> bool) \<Rightarrow> bool" where
  "decoded data P \<longleftrightarrow> (case decode data of Some (Inr r) \<Rightarrow> P r | _ \<Rightarrow> False)"

definition decode_throws :: "bytes \<Rightarrow> (error_code \<Rightarrow> bool) \<Rightarrow> bool" where
  "decode_throws data P \<longleftrightarrow> (case decode data of Some (Inl e) \<Rightarrow> P (err_code e) | _ \<Rightarrow> False)"

definition single_shot_data_decodes :: bool where
  "single_shot_data_decodes \<longleftrightarrow>
     (let payload = [0xDE, 0xAD, 0xBE, 0xEF]
      in decoded (build_frame [] kData kFlagFin 7 100 0 0 payload False None) (\<lambda>r.
           dr_frames_seen r = 1 \<and> length (dr_messages r) = 1 \<and> m_stream_id (dr_messages r ! 0) = 7 \<and>
           m_msg_id (dr_messages r ! 0) = 100 \<and> m_data (dr_messages r ! 0) = payload \<and>
           \<not> m_compressed (dr_messages r ! 0)))"

definition multi_fragment_out_of_order_reassembles :: bool where
  "multi_fragment_out_of_order_reassembles \<longleftrightarrow>
     (let f0 = bytes_of_string ''ABC''; f1 = bytes_of_string ''DEF''; f2 = bytes_of_string ''GH'';
          w = build_frame [] kData kFlagFrag 1 5 0 0 f0 False None;
          w = build_frame w kData (kFlagFrag OR kFlagFin) 1 5 2 6 f2 False None;
          w = build_frame w kData kFlagFrag 1 5 1 3 f1 False None
      in decoded w (\<lambda>r. dr_frames_seen r = 3 \<and> length (dr_messages r) = 1 \<and>
           m_data (dr_messages r ! 0) = bytes_of_string ''ABCDEFGH''))"

definition fin_completes_message :: bool where
  "fin_completes_message \<longleftrightarrow>
     (let w = build_frame [] kData kFlagFrag 2 9 0 0 [1, 2, 3] False None;
          w2 = build_frame w kData (kFlagFrag OR kFlagFin) 2 9 1 3 [4, 5] False None
      in decoded w (\<lambda>r. length (dr_messages r) = 0) \<and>
         decoded w2 (\<lambda>r. length (dr_messages r) = 1 \<and> m_data (dr_messages r ! 0) = [1, 2, 3, 4, 5]))"

definition compressed_flag_recorded_but_bytes_untouched :: bool where
  "compressed_flag_recorded_but_bytes_untouched \<longleftrightarrow>
     (let payload = [0x01, 0x02, 0x03, 0x04, 0x05];
          w = build_frame [] kData (kFlagFin OR kFlagCompressed) 3 11 0 0 payload False None
      in decoded w (\<lambda>r. length (dr_messages r) = 1 \<and> m_compressed (dr_messages r ! 0) \<and>
           m_data (dr_messages r ! 0) = payload))"

definition bad_crc_still_decodes_with_flag :: bool where
  "bad_crc_still_decodes_with_flag \<longleftrightarrow>
     (let payload = [0xAA, 0xBB];
          w = build_frame [] kData kFlagFin 4 12 0 0 payload True (Some 0x0000)
      in decoded w (\<lambda>r. length (dr_messages r) = 1 \<and> m_data (dr_messages r ! 0) = payload \<and>
           dr_header_crc_bad r = 1 \<and> dr_header_crc_ok r = 0))"

definition good_crc_validates :: bool where
  "good_crc_validates \<longleftrightarrow>
     decoded (build_frame [] kData kFlagFin 4 13 0 0 [0x10] True None)
       (\<lambda>r. dr_header_crc_ok r = 1 \<and> dr_header_crc_bad r = 0)"

definition reset_drops_partial_reassembly :: bool where
  "reset_drops_partial_reassembly \<longleftrightarrow>
     (let w = build_frame [] kData kFlagFrag 6 20 0 0 [9, 9, 9] False None;
          w = build_frame w kReset 0 6 0 1 0 [] False None;
          w = build_frame w kData (kFlagFrag OR kFlagFin) 6 20 2 3 [1, 1] False None
      in decoded w (\<lambda>r. length (dr_messages r) = 0 \<and> dr_reset_frames r = 1 \<and>
           list_all (\<lambda>s. ss_stream_id s = 6 \<longrightarrow> ss_resets s = 1) (dr_stats r) \<and>
           list_ex (\<lambda>s. ss_stream_id s = 6) (dr_stats r)))"

definition reset_compacts_store_but_survivor_completes :: bool where
  "reset_compacts_store_but_survivor_completes \<longleftrightarrow>
     (let w = build_frame [] kData kFlagFrag 10 1 0 0 (bytes_of_string ''Y'') False None;
          w = build_frame w kData kFlagFrag 20 1 0 0 (bytes_of_string ''M'') False None;
          w = build_frame w kReset 0 10 0 1 0 [] False None;
          w = build_frame w kData (kFlagFrag OR kFlagFin) 20 1 1 1 (bytes_of_string ''N'') False None
      in decoded w (\<lambda>r. dr_reset_frames r = 1 \<and> length (dr_messages r) = 1 \<and>
           m_stream_id (dr_messages r ! 0) = 20 \<and> m_data (dr_messages r ! 0) = bytes_of_string ''MN''))"

definition seq_gap_and_duplicate_counted :: bool where
  "seq_gap_and_duplicate_counted \<longleftrightarrow>
     (let w = build_frame [] kData kFlagFin 8 1 0 0 [1] False None;
          w = build_frame w kData kFlagFin 8 2 1 0 [2] False None;
          w = build_frame w kData kFlagFin 8 3 5 0 [3] False None;
          w = build_frame w kData kFlagFin 8 4 5 0 [4] False None
      in decoded w (\<lambda>r.
           list_all (\<lambda>s. ss_stream_id s = 8 \<longrightarrow> ss_frames s = 4 \<and> ss_gaps s = 1 \<and> ss_duplicates s = 1)
             (dr_stats r) \<and>
           list_ex (\<lambda>s. ss_stream_id s = 8) (dr_stats r)))"

definition control_and_ack_recorded :: bool where
  "control_and_ack_recorded \<longleftrightarrow>
     (let cp = put_u32be [] 42;
          cp = put_u32be cp 1024;
          w = build_frame [] kControl 0 3 0 0 0 cp False None;
          w = build_frame w kAck 0 3 77 1 0 [] False None
      in decoded w (\<lambda>r. dr_control_frames r = 1 \<and> dr_ack_frames r = 1 \<and> length (dr_controls r) = 1 \<and>
           cr_ref_msg_id (dr_controls r ! 0) = 42 \<and> cr_window (dr_controls r ! 0) = 1024 \<and>
           length (dr_acks r) = 1 \<and> ar_msg_id (dr_acks r ! 0) = 77))"

definition first_frame_bad_sync_throws_bad_magic :: bool where
  "first_frame_bad_sync_throws_bad_magic \<longleftrightarrow>
     decode_throws [0x00, 0x11, 0x22, 0x33, 0x44, 0x55] (\<lambda>code. code = kBadMagic)"

definition truncated_payload_throws_short_read :: bool where
  "truncated_payload_throws_short_read \<longleftrightarrow>
     (let w = build_frame [] kData kFlagFin 1 1 0 0 [1, 2, 3, 4, 5, 6] False None
      in decode_throws (take (length w - 3) w) (\<lambda>code. code = kShortRead))"

definition truncated_header_throws_short_read :: bool where
  "truncated_header_throws_short_read \<longleftrightarrow>
     (let w = build_frame [] kData kFlagFin 1 1 0 0 [1] False None
      in decode_throws (take (kHeaderFixedBytes - 4) w) (\<lambda>code. True))"

definition multi_stream_interleaving :: bool where
  "multi_stream_interleaving \<longleftrightarrow>
     (let w = build_frame [] kData kFlagFin 10 1 0 0 [0xA0] False None;
          w = build_frame w kData kFlagFin 20 1 0 0 [0xB0] False None
      in decoded w (\<lambda>r. length (dr_messages r) = 2 \<and> length (dr_stats r) = 2))"

definition empty_input_is_empty_stream :: bool where
  "empty_input_is_empty_stream \<longleftrightarrow> decoded [] (\<lambda>r. dr_frames_seen r = 0 \<and> length (dr_messages r) = 0)"

definition summarize_is_nonempty :: bool where
  "summarize_is_nonempty \<longleftrightarrow>
     decoded (build_frame [] kData kFlagFin 1 1 0 0 [1, 2, 3] False None) (\<lambda>r. 0 < length (summarize_decode r))"

section \<open>Every test passes\<close>

lemmas reader_eval =
  rd_bind_def rd_return_def rd_throw_def bindE_def byte_reader_new_def rd_eof_def rd_size_def rd_remaining_def
  require_def seek_def rd_byte_def rd_advance_def skip_def read_u8_def read_u16be_def read_u32be_def rd_take_def
  read_bytes_def read_raw_def put_u8_def put_u16be_def put_u32be_def put_bytes_def

lemmas flag_values = kFlagFin_def kFlagFrag_def kFlagCompressed_def kFlagHasCrc_def

lemmas frame_eval =
  reader_eval flag_values build_frame_def decoded_def decode_throws_def decode_def decode_loop.simps frame_next_def
  align_to_sync_def at_sync_def kSync_def kVersion_def read_frame_aligned_def read_fixed_header_def
  read_frame_tail_def frame_type_of_byte_def kHeaderFixedBytes_def parse_error_default_def

lemmas decoder_eval =
  decoder_state_new_def decode_result_new_def decode_frame_def tally_frame_def st_observe_def st_slot_def
  observe_rolling_def rolling_default_def note_reset_def reset_rolling_def snapshot_def om_lookup_def

lemmas reassembler_eval =
  accept_data_def slot_for_def reassembler_new_def fresh_partial_def accept_fragment_def place_payload_def
  add_range_def merge_span_def frag_begin_def frag_end_def fin_def frag_def compressed_def is_complete_def
  remove_slot_def partial_key_def reset_stream_def reset_step_def slide_index_def

lemma stream_error_tests:
  "first_frame_bad_sync_throws_bad_magic" "truncated_payload_throws_short_read" "truncated_header_throws_short_read"
  by (simp_all add: first_frame_bad_sync_throws_bad_magic_def truncated_payload_throws_short_read_def
      truncated_header_throws_short_read_def frame_eval Let_def cong: let_weak_cong)

lemma stream_single_tests:
  "single_shot_data_decodes" "compressed_flag_recorded_but_bytes_untouched" "empty_input_is_empty_stream"
  by (simp_all add: single_shot_data_decodes_def compressed_flag_recorded_but_bytes_untouched_def
      empty_input_is_empty_stream_def frame_eval decoder_eval reassembler_eval Let_def cong: let_weak_cong)

lemma stream_fragment_tests: "multi_fragment_out_of_order_reassembles" "fin_completes_message"
  by (simp_all add: multi_fragment_out_of_order_reassembles_def fin_completes_message_def frame_eval decoder_eval
      reassembler_eval Let_def bytes_of_string_def byte_of_char_def cong: let_weak_cong)

lemma crc16_bitwise: "crc16 data = foldl crc16_step 0xFFFF data"
  unfolding crc16_def crc16_step_def by (rule refl)

lemma crc16_steps:
  "crc16_step crc b = crc16_bit (crc16_bit (crc16_bit (crc16_bit (crc16_bit (crc16_bit (crc16_bit (crc16_bit
     (crc XOR push_bit 8 (ucast b)))))))))"
  by (simp add: crc16_step_def numeral_eq_Suc)

lemmas crc16_eval = crc16_bitwise crc16_steps crc16_bit_def

lemma stream_crc_tests: "bad_crc_still_decodes_with_flag" "good_crc_validates"
proof -
  have bad: "crc16 [0x53, 0xC7, 1, 0, 9, 0, 4, 0, 0, 0, 12, 0, 0, 0, 0, 0, 0, 0, 2] = 0xD5B9"
    and good: "crc16 [0x53, 0xC7, 1, 0, 9, 0, 4, 0, 0, 0, 13, 0, 0, 0, 0, 0, 0, 0, 1] = 0xEF9"
    by (simp_all add: crc16_eval)
  show "bad_crc_still_decodes_with_flag" "good_crc_validates"
    by (simp_all add: bad_crc_still_decodes_with_flag_def good_crc_validates_def frame_eval decoder_eval
        reassembler_eval bad good Let_def cong: let_weak_cong)
qed

lemma stream_reset_tests: "reset_drops_partial_reassembly" "reset_compacts_store_but_survivor_completes"
  by (simp_all add: reset_drops_partial_reassembly_def reset_compacts_store_but_survivor_completes_def frame_eval
      decoder_eval reassembler_eval Let_def bytes_of_string_def byte_of_char_def cong: let_weak_cong)

lemma stream_statistics_tests: "seq_gap_and_duplicate_counted" "multi_stream_interleaving" "control_and_ack_recorded"
  by (simp_all add: seq_gap_and_duplicate_counted_def multi_stream_interleaving_def control_and_ack_recorded_def
      frame_eval decoder_eval reassembler_eval parse_control_def read_if4_def Let_def cong: let_weak_cong)

lemma stream_summary_test: "summarize_is_nonempty"
  by (simp add: summarize_is_nonempty_def frame_eval decoder_eval reassembler_eval summarize_decode_def Let_def cong: let_weak_cong)

end
