(* ===== verification/Test_Stream_Ext.thy ===== *)
theory Test_Stream_Ext
  imports Test_Stream Flow_Control Rle_Transform Delivery
begin

text \<open>
  The unit tests of the encoder, the run-length transform, ordered delivery and flow control
  (\<^verbatim>\<open>tests/streamcodec/test_streamcodec_ext.cpp\<close>), run on the model.
\<close>

unbundle bit_operations_syntax

definition make_message :: "u16 \<Rightarrow> u32 \<Rightarrow> message" where
  "make_message stream_id msg_id =
     \<lparr>m_stream_id = stream_id, m_msg_id = msg_id, m_compressed = False, m_data = [ucast msg_id]\<rparr>"

section \<open>Encoder\<close>

definition encoder_single_shot_roundtrips :: bool where
  "encoder_single_shot_roundtrips \<longleftrightarrow>
     (let spec = \<lparr>s_type = kData, s_flags = kFlagFin, s_stream_id = 7, s_msg_id = 100, s_seq = 0,
                  s_frag_offset = 0, s_payload = [0xDE, 0xAD, 0xBE, 0xEF], s_with_crc = True\<rparr>
      in decoded (encode_frame [] spec) (\<lambda>r.
           dr_frames_seen r = 1 \<and> length (dr_messages r) = 1 \<and> m_stream_id (dr_messages r ! 0) = 7 \<and>
           m_msg_id (dr_messages r ! 0) = 100 \<and> m_data (dr_messages r ! 0) = s_payload spec \<and>
           dr_header_crc_ok r = 1 \<and> dr_header_crc_bad r = 0))"

definition encoder_fragmented_message_roundtrips :: bool where
  "encoder_fragmented_message_roundtrips \<longleftrightarrow>
     (let payload = map (\<lambda>i. of_nat (i * 7 + 3) AND 0xFF) [0..<1000];
          (frames, w) = encode_message [] 3 55 payload 64 0 False False
      in frames = 16 \<and>
         decoded w (\<lambda>r. dr_frames_seen r = 16 \<and> length (dr_messages r) = 1 \<and>
           m_stream_id (dr_messages r ! 0) = 3 \<and> m_msg_id (dr_messages r ! 0) = 55 \<and>
           m_data (dr_messages r ! 0) = payload))"

definition encoder_empty_message_completes :: bool where
  "encoder_empty_message_completes \<longleftrightarrow>
     (let (frames, w) = encode_message [] 1 1 [] 64 0 False False
      in frames = 1 \<and> decoded w (\<lambda>r. length (dr_messages r) = 1 \<and> length (m_data (dr_messages r ! 0)) = 0))"

section \<open>Run-length transform\<close>

definition rle_roundtrips_runs_and_literals :: bool where
  "rle_roundtrips_runs_and_literals \<longleftrightarrow>
     (let input = replicate 300 0xAB @ [0x01, 0x02, 0x03] @ replicate 5 0x7F;
          packed = rle_compress input
      in length packed < length input \<and> rle_decompress packed 4096 [] = (kRleOk, input))"

definition rle_roundtrips_all_literals :: bool where
  "rle_roundtrips_all_literals \<longleftrightarrow>
     (let input = map (\<lambda>i. of_nat (i * 3 + 1)) [0..<200]
      in rle_decompress (rle_compress input) 4096 [] = (kRleOk, input))"

definition rle_oversized_decompress_is_capped :: bool where
  "rle_oversized_decompress_is_capped \<longleftrightarrow>
     (let (st, out) = rle_decompress (rle_compress (replicate 256 0xCC)) 100 []
      in st = kCapExceeded \<and> length out \<le> 100)"

definition rle_malformed_literal_rejected :: bool where
  "rle_malformed_literal_rejected \<longleftrightarrow>
     fst (rle_decompress [0x7F] 4096 []) = kMalformed \<and> fst (rle_decompress [0x80] 4096 []) = kMalformed"

section \<open>Ordered delivery\<close>

definition delivery_reorders_out_of_order :: bool where
  "delivery_reorders_out_of_order \<longleftrightarrow>
     (let (out1, q) = offer (make_message 1 0) (delivery_queue_new 16);
          (out2, q) = offer (make_message 1 2) q;
          buffered2 = buffered q;
          (out3, q) = offer (make_message 1 1) q
      in length out1 = 1 \<and> m_msg_id (out1 ! 0) = 0 \<and> length out2 = 0 \<and> buffered2 = 1 \<and>
         length out3 = 2 \<and> m_msg_id (out3 ! 0) = 1 \<and> m_msg_id (out3 ! 1) = 2 \<and> buffered q = 0)"

definition delivery_drops_duplicate :: bool where
  "delivery_drops_duplicate \<longleftrightarrow>
     (let q = delivery_queue_new 64;
          q = snd (offer (make_message 5 10) q);
          q = snd (offer (make_message 5 11) q);
          (out, q) = offer (make_message 5 10) q
      in length out = 0 \<and> dq_duplicates q = 1)"

definition delivery_window_full_reports_gap :: bool where
  "delivery_window_full_reports_gap \<longleftrightarrow>
     (let (out1, q) = offer (make_message 2 0) (delivery_queue_new 2);
          (out2, q) = offer (make_message 2 2) q;
          (out3, q) = offer (make_message 2 3) q;
          buffered3 = buffered q;
          (out4, q) = offer (make_message 2 5) q
      in length out1 = 1 \<and> length out2 = 0 \<and> length out3 = 0 \<and> buffered3 = 2 \<and> 1 \<le> dq_gaps q \<and>
         list_ex (\<lambda>m. m_msg_id m = 2) out4 \<and> list_ex (\<lambda>m. m_msg_id m = 3) out4 \<and> buffered q = 1)"

section \<open>Flow control\<close>

definition control_blocks_when_window_exhausted :: bool where
  "control_blocks_when_window_exhausted \<longleftrightarrow>
     (let fc = [];
          blocked0 = fl_is_blocked 1 fc;
          (st1, fc) = on_window_update 1 0 100 fc;
          (sent1, fc) = try_send 1 60 fc;
          blocked1 = fl_is_blocked 1 fc;
          (sent2, fc) = try_send 1 60 fc;
          blocked2 = fl_is_blocked 1 fc;
          in_flight2 = fl_in_flight (fl_get_state 1 fc);
          (st2, fc) = on_window_update 1 0 150 fc;
          (st3, fc) = on_ack 1 100 fc
      in blocked0 \<and> fl_advertised st1 = 100 \<and> \<not> fl_blocked st1 \<and> fl_available st1 = 100 \<and>
         sent1 = 60 \<and> \<not> blocked1 \<and> sent2 = 40 \<and> blocked2 \<and> in_flight2 = 100 \<and>
         fl_advertised st2 = 150 \<and> \<not> fl_blocked st2 \<and> fl_available st2 = 50 \<and>
         fl_acked st3 = 100 \<and> fl_in_flight st3 = 0 \<and> \<not> fl_blocked st3)"

definition control_ignores_stale_window_update :: bool where
  "control_ignores_stale_window_update \<longleftrightarrow>
     (let fc = snd (on_window_update 9 0 500 []); (st, fc) = on_window_update 9 0 100 fc
      in fl_advertised st = 500)"

section \<open>Every test passes\<close>

lemma encoder_single_test: "encoder_single_shot_roundtrips"
  unfolding encoder_single_shot_roundtrips_def Let_def
  using decode_encoded [of "[\<lparr>s_type = kData, s_flags = kFlagFin, s_stream_id = 7, s_msg_id = 100, s_seq = 0,
    s_frag_offset = 0, s_payload = [0xDE, 0xAD, 0xBE, 0xEF], s_with_crc = True\<rparr>]"]
  by (simp add: decoded_def frame_of_spec_def spec_flags_def spec_payload_def kMaxFramePayload_def flag_values
      decoder_eval reassembler_eval Let_def)

lemma encoder_message_tests: "encoder_fragmented_message_roundtrips" "encoder_empty_message_completes"
proof -
  have frames: "fst (encode_message [] sid mid payload mx seq packed crc) = fragment_count mx payload"
    for sid mid payload mx seq packed crc by (simp add: encode_message_alt)
  show "encoder_fragmented_message_roundtrips"
    unfolding encoder_fragmented_message_roundtrips_def Let_def case_prod_unfold frames decoded_def
    by (subst decode_encoded_message) (simp_all add: fragment_count_def fragment_size_def kMaxFramePayload_def del: upt_rec_numeral)
  show "encoder_empty_message_completes"
    unfolding encoder_empty_message_completes_def Let_def case_prod_unfold frames decoded_def
    by (subst decode_encoded_message) (simp_all add: fragment_count_def)
qed

text \<open>The compressor on long runs, without unrolling them.\<close>

lemma run_length_from_exact:
  assumes "n \<le> m" "m \<le> kRleMaxTokenLen" "i + m \<le> length input" "\<forall>k < m. input ! (i + k) = input ! i"
    and "m = kRleMaxTokenLen \<or> i + m = length input \<or> input ! (i + m) \<noteq> input ! i"
  shows "run_length_from input i n = m"
  using assms(1)
proof (induction "m - n" arbitrary: n)
  case 0
  then have "n = m" by simp
  then show ?case using assms by (subst run_length_from.simps) auto
next
  case (Suc d)
  then have "run_length_from input i (n + 1) = m" by simp
  moreover have "n < m" using Suc.hyps(2) by simp
  ultimately show ?case using assms(2-4) by (subst run_length_from.simps) simp
qed

lemma run_length_exact:
  "0 < m \<Longrightarrow> m \<le> 128 \<Longrightarrow> i + m \<le> length input \<Longrightarrow> \<forall>k < m. input ! (i + k) = input ! i \<Longrightarrow>
     m = 128 \<or> i + m = length input \<or> input ! (i + m) \<noteq> input ! i \<Longrightarrow> run_length input i = m"
  unfolding run_length_def by (rule run_length_from_exact) (auto simp: kRleMaxTokenLen_def)

lemma compress_run:
  "i < length input \<Longrightarrow> run_length input i = m \<Longrightarrow> 2 \<le> m \<Longrightarrow>
     rle_compress_loop input out i i 0 = rle_compress_loop input (emit_run out (input ! i) m) (i + m) (i + m) 0"
  by (subst rle_compress_loop.simps) (simp add: flush_literal.simps Let_def)

lemma compress_literal:
  "i < length input \<Longrightarrow> run_length input i = 1 \<Longrightarrow> n < 128 \<Longrightarrow>
     rle_compress_loop input out i j n = rle_compress_loop input out (i + 1) j (n + 1)"
  by (subst rle_compress_loop.simps) (simp add: Let_def kRleMaxTokenLen_def)

lemma compress_end: "rle_compress_loop input out (length input) (length input) 0 = out"
  by (simp add: rle_compress_loop.simps flush_literal.simps)

lemma rle_cap_test: "rle_oversized_decompress_is_capped"
proof -
  let ?input = "replicate 256 (0xCC :: u8)"
  have "rle_compress_loop ?input [] 0 0 0 = rle_compress_loop ?input (emit_run [] 0xCC 128) 128 128 0"
    using compress_run [of 0 ?input 128 "[]"] run_length_exact [of 128 0 ?input] by simp
  also have "\<dots> = rle_compress_loop ?input (emit_run (emit_run [] 0xCC 128) 0xCC 128) 256 256 0"
    using compress_run [of 128 ?input 128] run_length_exact [of 128 128 ?input] by simp
  also have "\<dots> = [0xFF, 0xCC, 0xFF, 0xCC]"
    using compress_end [of ?input] by (simp add: emit_run_def)
  finally have "rle_compress ?input = [0xFF, 0xCC, 0xFF, 0xCC]" by (simp only: rle_compress_def)
  then show ?thesis unfolding rle_oversized_decompress_is_capped_def by simp
qed

lemma rle_runs_test: "rle_roundtrips_runs_and_literals"
proof -
  define input where "input = replicate 300 (0xAB :: u8) @ [0x01, 0x02, 0x03] @ replicate 5 0x7F"
  have len: "length input = 308" by (simp add: input_def)
  have low: "k < 300 \<Longrightarrow> input ! k = 0xAB" for k by (simp add: input_def nth_append)
  have lits: "input ! 300 = 0x01" "input ! 301 = 0x02" "input ! 302 = 0x03" by (simp_all add: input_def nth_append)
  have high: "k < 5 \<Longrightarrow> input ! (303 + k) = 0x7F" for k
    unfolding input_def by (simp add: nth_append nth_Cons')
  have runs: "run_length input 0 = 128" "run_length input 128 = 128" "run_length input 256 = 44"
    "run_length input 303 = 5"
    using high [of 0] by (auto intro!: run_length_exact simp: len low lits high)
  have ones: "run_length input 300 = 1" "run_length input 301 = 1" "run_length input 302 = 1"
    using high [of 0] by (auto intro!: run_length_exact simp: len lits)
  have "rle_compress_loop input [] 0 0 0 = rle_compress_loop input [0xFF, 0xAB, 0xFF, 0xAB, 0xAB, 0xAB] 300 300 0"
    using compress_run [OF _ runs(1), of "[]"] compress_run [OF _ runs(2)] compress_run [OF _ runs(3)]
    by (simp add: len low emit_run_def)
  also have "\<dots> = rle_compress_loop input [0xFF, 0xAB, 0xFF, 0xAB, 0xAB, 0xAB] 303 300 3"
    using compress_literal [OF _ ones(1)] compress_literal [OF _ ones(2)] compress_literal [OF _ ones(3)]
    by (simp add: len numeral_3_eq_3)
  also have "\<dots> = rle_compress_loop input (emit_run (flush_literal [0xFF, 0xAB, 0xFF, 0xAB, 0xAB, 0xAB] input 300 3) 0x7F 5) 308 308 0"
    using high [of 0] by (subst rle_compress_loop.simps) (simp add: len runs(4) Let_def)
  also have "\<dots> = [0xFF, 0xAB, 0xFF, 0xAB, 0xAB, 0xAB, 2, 1, 2, 3, 0x84, 0x7F]"
    using compress_end [of input]
    by (simp add: len emit_run_def flush_literal.simps emit_literal_def lits Let_def kRleMaxTokenLen_def upt_rec)
  finally have "length (rle_compress input) < length input" by (simp only: rle_compress_def len) simp
  then show ?thesis
    using rle_round_trip [of "[]" input 4096]
    by (simp add: rle_roundtrips_runs_and_literals_def len flip: input_def append_Cons)
qed

lemma rle_tests: "rle_roundtrips_all_literals" "rle_malformed_literal_rejected"
  using rle_round_trip [of "[]" "map (\<lambda>i. of_nat (i * 3 + 1)) [0..<200]" 4096]
  by (simp_all add: rle_roundtrips_all_literals_def rle_malformed_literal_rejected_def Let_def del: upt_rec_numeral)

lemmas delivery_eval =
  make_message_def delivery_queue_new_def offer_def offer_stream_def dq_slot_def stream_order_new_def
  enforce_window.simps om_lookup_def buffered_def

lemma delivery_tests:
  "delivery_reorders_out_of_order" "delivery_drops_duplicate" "delivery_window_full_reports_gap"
  by (simp_all add: delivery_reorders_out_of_order_def delivery_drops_duplicate_def
      delivery_window_full_reports_gap_def delivery_eval Let_def cong: let_weak_cong)

lemmas control_eval =
  fl_is_blocked_def on_window_update_def fl_slot_def flow_state_new_def window_ceiling_def kUint64Max_def
  fl_refresh_def try_send_def fl_get_state_def fl_in_flight_def fl_available_def on_ack_def om_lookup_def

lemma control_tests: "control_blocks_when_window_exhausted" "control_ignores_stale_window_update"
proof -
  define st where "st adv sent acked blocked = \<lparr>fl_advertised = adv, fl_sent = sent, fl_acked = acked, fl_blocked = blocked\<rparr>"
    for adv sent acked blocked
  have "on_window_update 1 0 100 [] = (st 100 0 0 False, [(1, st 100 0 0 False)])"
    "try_send 1 60 [(1, st 100 0 0 False)] = (60, [(1, st 100 60 0 False)])"
    "try_send 1 60 [(1, st 100 60 0 False)] = (40, [(1, st 100 100 0 True)])"
    "on_window_update 1 0 150 [(1, st 100 100 0 True)] = (st 150 100 0 False, [(1, st 150 100 0 False)])"
    "on_ack 1 100 [(1, st 150 100 0 False)] = (st 150 100 100 False, [(1, st 150 100 100 False)])"
    by (simp_all add: control_eval st_def Let_def)
  then show "control_blocks_when_window_exhausted"
    by (simp add: control_blocks_when_window_exhausted_def fl_is_blocked_def fl_get_state_def fl_in_flight_def
        fl_available_def om_lookup_def st_def)
  show "control_ignores_stale_window_update"
    by (simp add: control_ignores_stale_window_update_def control_eval Let_def)
qed

end
