(* ===== verification/Test_Minidb.thy ===== *)
theory Test_Minidb
  imports Test_Stream Minidb
begin

text \<open>
  The unit tests of \<^verbatim>\<open>minidb\<close> (\<^verbatim>\<open>tests/minidb/test_minidb.cpp\<close>), run on the model, with the builders of
  headers, pages, records and journals the tests use.
\<close>

unbundle bit_operations_syntax

section \<open>Builders\<close>

definition make_header ::
  "u16 \<Rightarrow> u32 \<Rightarrow> u32 \<Rightarrow> u32 \<Rightarrow> u32 \<Rightarrow> u32 \<Rightarrow> u32 option \<Rightarrow> bytes" where
  "make_header page_size page_count root_page string_table_page journal_offset flags override_crc =
     (let w = put_u8 [] (byte_of_char CHR ''M'');
          w = put_u8 w (byte_of_char CHR ''D'');
          w = put_u8 w (byte_of_char CHR ''B'');
          w = put_u8 w (byte_of_char CHR ''1'');
          w = put_u16le w 1;
          w = put_u16le w page_size;
          w = put_u32le w page_count;
          w = put_u32le w root_page;
          w = put_u32le w string_table_page;
          w = put_u32le w journal_offset;
          w = put_u32le w flags;
          crc = (case override_crc of Some crc \<Rightarrow> crc | None \<Rightarrow> crc32 (take 28 w))
      in put_u32le w crc)"

definition make_record :: "u64 \<Rightarrow> bytes \<Rightarrow> bytes" where
  "make_record field_count flds = put_bytes (put_varint [] field_count) flds"

text \<open>The body of the loop over the records, on the page and the cursor.\<close>

definition place_record :: "bytes \<times> nat \<Rightarrow> nat \<times> bytes \<Rightarrow> bytes \<times> nat" where
  "place_record = (\<lambda>(page, cursor) (s, rec).
     let off = (of_nat cursor :: u16);
         len = (of_nat (length rec) :: u16);
         dir = kPageHeaderSize + s * kSlotEntrySize;
         page = page[dir := ucast (off AND 0xFF)];
         page = page[dir + 1 := ucast (drop_bit 8 off AND 0xFF)];
         page = page[dir + 2 := ucast (len AND 0xFF)];
         page = page[dir + 3 := ucast (drop_bit 8 len AND 0xFF)];
         page = foldl (\<lambda>page (b, v). page[cursor + b := v]) page (enumerate 0 rec)
     in (page, cursor + length rec))"

definition make_page :: "page_type \<Rightarrow> u16 \<Rightarrow> u16 \<Rightarrow> bytes list \<Rightarrow> bytes" where
  "make_page type page_size overflow_next records =
     (let slot_count = (of_nat (length records) :: u16);
          page = replicate (unat page_size) 0;
          cursor = kPageHeaderSize + unat slot_count * kSlotEntrySize;
          page = page[0 := page_type_byte type];
          page = page[1 := 0];
          page = page[2 := ucast (slot_count AND 0xFF)];
          page = page[3 := ucast (drop_bit 8 slot_count AND 0xFF)];
          page = page[6 := ucast (overflow_next AND 0xFF)];
          page = page[7 := ucast (drop_bit 8 overflow_next AND 0xFF)];
          (page, cursor) = foldl place_record (page, cursor) (enumerate 0 records);
          free_start = (of_nat cursor :: u16);
          page = page[4 := ucast (free_start AND 0xFF)]
      in page[5 := ucast (drop_bit 8 free_start AND 0xFF)])"

definition make_strings_record :: "string list \<Rightarrow> bytes" where
  "make_strings_record entries =
     foldl (\<lambda>w e. put_string (put_varint w (of_nat (length e))) e) (put_varint [] (of_nat (length entries))) entries"

definition put_journal_set :: "byte_writer \<Rightarrow> journal_op \<Rightarrow> u32 \<Rightarrow> u16 \<Rightarrow> bytes \<Rightarrow> byte_writer" where
  "put_journal_set w op page slot rec =
     (let w = put_u8 w (journal_op_byte op);
          w = put_u32le w page;
          w = put_u16le w slot;
          w = put_varint w (of_nat (length rec))
      in put_bytes w rec)"

definition put_journal_delete :: "byte_writer \<Rightarrow> u32 \<Rightarrow> u16 \<Rightarrow> byte_writer" where
  "put_journal_delete w page slot =
     (let w = put_u8 w (journal_op_byte JDelete); w = put_u32le w page in put_u16le w slot)"

definition put_journal_op :: "byte_writer \<Rightarrow> journal_op \<Rightarrow> byte_writer" where
  "put_journal_op w op = put_u8 w (journal_op_byte op)"

definition opened :: "bytes \<Rightarrow> (database \<Rightarrow> bool) \<Rightarrow> bool" where
  "opened data P \<longleftrightarrow> (case open_db data False of Inl _ \<Rightarrow> False | Inr db \<Rightarrow> P db)"

definition open_throws :: "bytes \<Rightarrow> error_code \<Rightarrow> bool" where
  "open_throws data code \<longleftrightarrow> (case open_db data False of Inl e \<Rightarrow> err_code e = code | Inr _ \<Rightarrow> False)"

section \<open>Tests\<close>

definition valid_db_with_stringref_int_float_blob :: bool where
  "valid_db_with_stringref_int_float_blob \<longleftrightarrow>
     (let page_size = 128;
          strings = make_strings_record [''hello'', ''world''];
          page0 = make_page PtStrings page_size 0xFFFF [strings];
          page1 = make_page PtData page_size 0xFFFF [];
          flds = put_u8 [] (field_type_byte FtStringRef);
          flds = put_varint flds 1;
          flds = put_u8 flds (field_type_byte FtInt);
          flds = put_svarint flds (- 7);
          flds = put_u8 flds (field_type_byte FtFloat);
          flds = put_u64le flds 0x4004000000000000;
          flds = put_u8 flds (field_type_byte FtBlob);
          flds = put_varint flds 2;
          flds = put_u8 flds 0xDE;
          flds = put_u8 flds 0xAD;
          rec = make_record 4 flds;
          jw = put_journal_op [] JBegin;
          jw = put_journal_set jw JInsert 1 0 rec;
          jw = put_journal_op jw JCommit;
          journal_offset = of_nat (kHeaderSize + length page0 + length page1);
          hdr = make_header page_size 2 1 0 journal_offset 0 None
      in opened (hdr @ page0 @ page1 @ jw) (\<lambda>db.
           db_checksum_ok db \<and> length (db_string_table db) = 2 \<and> db_string_table db ! 1 = ''world'' \<and>
           length (db_records db) = 1 \<and>
           (case om_lookup (db_records db) (1, 0) of
              None \<Rightarrow> False
            | Some got \<Rightarrow>
                (let fs = r_fields got
                 in length fs = 4 \<and> fd_type (fs ! 0) = FtStringRef \<and> fd_ref_resolved (fs ! 0) \<and>
                    fd_str (fs ! 0) = ''world'' \<and> fd_type (fs ! 1) = FtInt \<and> fd_i64 (fs ! 1) = - 7 \<and>
                    fd_type (fs ! 2) = FtFloat \<and> fd_f64 (fs ! 2) = 0x4004000000000000 \<and>
                    fd_type (fs ! 3) = FtBlob \<and> length (fd_blob (fs ! 3)) = 2 \<and> fd_blob (fs ! 3) ! 0 = 0xDE))))"

definition journal_commit_adds_rollback_discards :: bool where
  "journal_commit_adds_rollback_discards \<longleftrightarrow>
     (let page_size = 64;
          page0 = make_page PtData page_size 0xFFFF [];
          f1 = put_varint (put_u8 [] (field_type_byte FtUint)) 111;
          rec1 = make_record 1 f1;
          f2 = put_varint (put_u8 [] (field_type_byte FtUint)) 222;
          rec2 = make_record 1 f2;
          jw = put_journal_op [] JBegin;
          jw = put_journal_set jw JInsert 0 0 rec1;
          jw = put_journal_op jw JCommit;
          jw = put_journal_op jw JBegin;
          jw = put_journal_set jw JInsert 0 1 rec2;
          jw = put_journal_op jw JRollback;
          journal_offset = of_nat (kHeaderSize + length page0);
          hdr = make_header page_size 1 0 kNoStringTable journal_offset 0 None
      in opened (hdr @ page0 @ jw) (\<lambda>db.
           length (db_records db) = 1 \<and> om_lookup (db_records db) (0, 1) = None \<and>
           (case om_lookup (db_records db) (0, 0) of
              None \<Rightarrow> False | Some got \<Rightarrow> fd_u64 (r_fields got ! 0) = 111) \<and>
           db_rolled_back_ops db = 1))"

definition journal_delete_removes_record :: bool where
  "journal_delete_removes_record \<longleftrightarrow>
     (let page_size = 64;
          page0 = make_page PtData page_size 0xFFFF [];
          f1 = put_u8 (put_u8 [] (field_type_byte FtBool)) 1;
          rec1 = make_record 1 f1;
          jw = put_journal_op [] JBegin;
          jw = put_journal_set jw JInsert 0 5 rec1;
          jw = put_journal_op jw JCommit;
          jw = put_journal_op jw JBegin;
          jw = put_journal_delete jw 0 5;
          jw = put_journal_op jw JCommit;
          journal_offset = of_nat (kHeaderSize + length page0);
          hdr = make_header page_size 1 0 kNoStringTable journal_offset 0 None
      in opened (hdr @ page0 @ jw) (\<lambda>db. length (db_records db) = 0))"

definition bad_header_crc_is_lenient :: bool where
  "bad_header_crc_is_lenient \<longleftrightarrow>
     (let page_size = 64;
          page0 = make_page PtData page_size 0xFFFF [];
          hdr = make_header page_size 1 0 kNoStringTable 0 0 (Some 0xDEADBEEF);
          buf = hdr @ page0
      in opened buf (\<lambda>db. \<not> db_checksum_ok db \<and> length (db_pages db) = 1) \<and>
         check_throws (open_db buf True))"

definition truncated_header_short_read :: bool where
  "truncated_header_short_read \<longleftrightarrow>
     open_throws (take 20 (make_header 64 1 0 kNoStringTable 0 0 None)) kShortRead"

definition bad_page_size_bad_length :: bool where
  "bad_page_size_bad_length \<longleftrightarrow>
     open_throws (make_header 100 1 0 kNoStringTable 0 0 None) kBadLength \<and>
     open_throws (make_header 32 1 0 kNoStringTable 0 0 None) kBadLength"

definition unknown_field_type_bad_type :: bool where
  "unknown_field_type_bad_type \<longleftrightarrow>
     (let page_size = 64;
          page0 = make_page PtData page_size 0xFFFF [];
          rec = make_record 1 (put_u8 [] 99);
          jw = put_journal_op [] JBegin;
          jw = put_journal_set jw JInsert 0 0 rec;
          jw = put_journal_op jw JCommit;
          journal_offset = of_nat (kHeaderSize + length page0);
          hdr = make_header page_size 1 0 kNoStringTable journal_offset 0 None
      in open_throws (hdr @ page0 @ jw) kBadType)"

definition multi_page_overflow_summary :: bool where
  "multi_page_overflow_summary \<longleftrightarrow>
     (let page_size = 64;
          page0 = make_page PtData page_size 1 [];
          page1 = make_page PtOverflow page_size 0xFFFF [];
          hdr = make_header page_size 2 0 kNoStringTable 0 0 None
      in opened (hdr @ page0 @ page1) (\<lambda>db.
           length (db_pages db) = 2 \<and> pg_overflow_next (db_pages db ! 0) = 1 \<and>
           pg_type (db_pages db ! 1) = PtOverflow \<and> 0 < length (summarize_db (\<lambda>_. []) db)))"

section \<open>Every test passes\<close>

lemmas wide_reader_eval =
  reader_eval read_u16le_def read_u32le_def read_u64le_def shift_in_def read_varint_def read_svarint_def
  read_string_def rd_match_def put_u16le_def put_u32le_def put_u64le_def put_varint.simps put_svarint_def
  put_string_def

text \<open>One round of the varint loop, only at a known position.\<close>

lemma varint_round:
  "read_varint_loop (numeral k) start shift acc \<lparr>rd_data = d, rd_pos = p\<rparr> =
     bindE (read_u8 \<lparr>rd_data = d, rd_pos = p\<rparr>) (\<lambda>(b, r').
       let acc' = acc OR push_bit shift (ucast (b AND 0x7F)) in
       if b AND 0x80 = 0 then Inr (acc', r') else read_varint_loop (pred_numeral k) start (shift + 7) acc' r')"
  by (simp only: numeral_eq_Suc read_varint_loop.simps)

lemma one_byte: "\<not> (0x80 :: u64) \<le> 1" "\<not> (0x80 :: u64) \<le> 0"
  by (simp_all add: word_le_nat_alt)

lemmas db_header_eval = make_header_def parse_header_def kMagic_def kSupportedVersion_def kHeaderSize_def
  kHeaderCrcCovered_def kMinPageSize_def kMaxPageSize_def kPageSizeAlign_def byte_of_char_def

lemma minidb_header_tests: "truncated_header_short_read" "bad_page_size_bad_length"
  by (simp_all add: truncated_header_short_read_def bad_page_size_bad_length_def open_throws_def open_db_def
      db_header_eval wide_reader_eval parse_error_default_def Let_def)

lemmas db_builder_eval = make_record_def make_page_def place_record_def make_strings_record_def put_journal_set_def
  put_journal_delete_def put_journal_op_def enumerate_eq_zip

lemmas db_open_eval =
  opened_def open_throws_def check_throws_def open_db_def set_header_def database_new_def parse_pages_def
  parse_pages_loop.simps parse_page_def page_new_def read_page_header_def fit_entries_def make_slot_def
  kPageHeaderSize_def kSlotEntrySize_def parse_string_table_def kNoStringTable_def replay_journal_def
  seed_from_pages_def seed_page_def seed_slot_def end_of_journal_def

lemma zeros64: "replicate 64 (0 :: u8) = [0, 0, 0, 0, 0, 0, 0, 0, 0, 0, 0, 0, 0, 0, 0, 0, 0, 0, 0, 0, 0, 0, 0, 0, 0, 0, 0, 0, 0, 0, 0, 0, 0, 0, 0, 0, 0, 0, 0, 0, 0, 0, 0, 0, 0, 0, 0, 0, 0, 0, 0, 0, 0, 0, 0, 0, 0, 0, 0, 0, 0, 0, 0, 0]"
  by (simp add: numeral_eq_Suc)

lemma bad_crc_test: "bad_header_crc_is_lenient"
proof -
  have crc: "crc32 [0x4D, 0x44, 0x42, 0x31, 1, 0, 64, 0, 1, 0, 0, 0, 0, 0, 0, 0, 0xFF, 0xFF, 0xFF, 0xFF, 0, 0, 0, 0, 0, 0, 0, 0] = 0x122480BE"
    by (simp add: crc_eval)
  show ?thesis
    by (simp add: bad_header_crc_is_lenient_def db_header_eval wide_reader_eval db_builder_eval db_open_eval zeros64 crc Let_def cong: let_weak_cong)
qed

lemmas db_journal_eval =
  journal_loop.simps journal_step_def journal_switch_def read_put_def read_key_def route_def begin_txn_def
  commit_txn_def commit_staged_def rollback_txn_def apply_committed_def om_erase_def om_emplace_def om_lookup_def
  decode_record_def read_record_def read_field_def read_field_value_def field_new_def read_lenprefixed_def
  resolve_ref_def field_type_of_byte_def

lemmas db_eval = varint_round one_byte db_header_eval wide_reader_eval db_builder_eval db_open_eval db_journal_eval

lemma overflow_page_test: "multi_page_overflow_summary"
proof -
  have crc: "crc32 [77, 68, 66, 49, 1, 0, 64, 0, 2, 0, 0, 0, 0, 0, 0, 0, 255, 255, 255, 255, 0, 0, 0, 0, 0, 0, 0, 0] = 0xBD8DCD74"
    by (simp add: crc_eval)
  show ?thesis
    by (simp add: multi_page_overflow_summary_def db_eval zeros64 crc summarize_db_def summary_header_def Let_def cong: let_weak_cong)
qed

lemma journal_tests:
  "journal_commit_adds_rollback_discards" "journal_delete_removes_record" "unknown_field_type_bad_type"
proof -
  have crc: "crc32 [77, 68, 66, 49, 1, 0, 64, 0, 1, 0, 0, 0, 0, 0, 0, 0, 255, 255, 255, 255, 96, 0, 0, 0, 0, 0, 0, 0] = 0xC2CF2005"
    by (simp add: crc_eval)
  show "journal_commit_adds_rollback_discards"
    by (simp add: journal_commit_adds_rollback_discards_def db_eval zeros64 crc Let_def cong: let_weak_cong)
  show "journal_delete_removes_record"
    by (simp add: journal_delete_removes_record_def db_eval zeros64 crc Let_def cong: let_weak_cong)
  show "unknown_field_type_bad_type"
    by (simp add: unknown_field_type_bad_type_def db_eval zeros64 crc Let_def cong: let_weak_cong)
qed

lemma zeros128: "replicate 128 (0 :: u8) = replicate 64 0 @ replicate 64 0"
  by (simp flip: replicate_add)

text \<open>One entry of the string table, only at a known position.\<close>

lemma string_round:
  "read_string_entries (numeral k) table \<lparr>rd_data = d, rd_pos = p\<rparr> =
     (case read_string_entry \<lparr>rd_data = d, rd_pos = p\<rparr> of
        Inl e \<Rightarrow> table
      | Inr (s, r') \<Rightarrow> read_string_entries (pred_numeral k) (table @ [s]) r')"
  by (simp only: numeral_eq_Suc read_string_entries.simps)

lemma fields_round:
  "read_fields table (numeral k) = rd_bind (read_field table) (\<lambda>fd.
     rd_bind (read_fields table (pred_numeral k)) (\<lambda>fds. rd_return (fd # fds)))"
  by (simp only: numeral_eq_Suc read_fields.simps)

lemma valid_db_test: "\<not> valid_db_with_stringref_int_float_blob"
proof -
  have crc: "crc32 [77, 68, 66, 49, 1, 0, 128, 0, 2, 0, 0, 0, 1, 0, 0, 0, 0, 0, 0, 0, 32, 1, 0, 0, 0, 0, 0, 0] = 0x4D6D6E9F"
    by (simp add: crc_eval)
  have zz: "zigzag (- 7) = 13" "unzigzag 13 = - 7" by code_simp+
  have page0: "make_page PtStrings 128 0xFFFF [make_strings_record [''hello'', ''world'']] =
      [2, 0, 1, 0, 25, 0, 255, 255, 12, 0, 13, 0, 2, 5, 104, 101, 108, 108, 111, 5, 119, 111, 114, 108, 100, 0, 0, 0, 0, 0, 0, 0, 0, 0, 0, 0, 0, 0, 0, 0, 0, 0, 0, 0, 0, 0, 0, 0, 0, 0, 0, 0, 0, 0, 0, 0, 0, 0, 0, 0, 0, 0, 0, 0, 0, 0, 0, 0, 0, 0, 0, 0, 0, 0, 0, 0, 0, 0, 0, 0, 0, 0, 0, 0, 0, 0, 0, 0, 0, 0, 0, 0, 0, 0, 0, 0, 0, 0, 0, 0, 0, 0, 0, 0, 0, 0, 0, 0, 0, 0, 0, 0, 0, 0, 0, 0, 0, 0, 0, 0, 0, 0, 0, 0, 0, 0, 0, 0]"
    by (simp add: db_builder_eval wide_reader_eval zeros64 zeros128 kPageHeaderSize_def kSlotEntrySize_def
        bytes_of_string_def byte_of_char_def one_byte Let_def)
  have page1: "make_page PtData 128 0xFFFF [] =
      [1, 0, 0, 0, 8, 0, 255, 255, 0, 0, 0, 0, 0, 0, 0, 0, 0, 0, 0, 0, 0, 0, 0, 0, 0, 0, 0, 0, 0, 0, 0, 0, 0, 0, 0, 0, 0, 0, 0, 0, 0, 0, 0, 0, 0, 0, 0, 0, 0, 0, 0, 0, 0, 0, 0, 0, 0, 0, 0, 0, 0, 0, 0, 0, 0, 0, 0, 0, 0, 0, 0, 0, 0, 0, 0, 0, 0, 0, 0, 0, 0, 0, 0, 0, 0, 0, 0, 0, 0, 0, 0, 0, 0, 0, 0, 0, 0, 0, 0, 0, 0, 0, 0, 0, 0, 0, 0, 0, 0, 0, 0, 0, 0, 0, 0, 0, 0, 0, 0, 0, 0, 0, 0, 0, 0, 0, 0, 0]"
    by (simp add: make_page_def zeros64 zeros128 kPageHeaderSize_def kSlotEntrySize_def Let_def)
  have jw: "put_journal_op (put_journal_set (put_journal_op [] JBegin) JInsert 1 0
      (make_record 4 (put_u8 (put_u8 (put_varint (put_u8 (put_u64le (put_u8 (put_svarint (put_u8 (put_varint
        (put_u8 [] 5) 1) 2) (- 7)) 4) 0x4004000000000000) 7) 2) 0xDE) 0xAD))) JCommit = [1, 2, 1, 0, 0, 0, 0, 0, 18, 4, 5, 1, 2, 13, 4, 0, 0, 0, 0, 0, 0, 4, 64, 7, 2, 222, 173, 5]"
    by (simp add: db_builder_eval wide_reader_eval zz one_byte Let_def)
  have hdr: "make_header 128 2 1 0 288 0 None = [77, 68, 66, 49, 1, 0, 128, 0, 2, 0, 0, 0, 1, 0, 0, 0, 0, 0, 0, 0, 32, 1, 0, 0, 0, 0, 0, 0, 159, 110, 109, 77]"
    by (simp add: make_header_def wide_reader_eval byte_of_char_def crc Let_def cong: let_weak_cong)
  let ?buf = "[77, 68, 66, 49, 1, 0, 128, 0, 2, 0, 0, 0, 1, 0, 0, 0, 0, 0, 0, 0, 32, 1, 0, 0, 0, 0, 0, 0, 159, 110, 109, 77, 2, 0, 1, 0, 25, 0, 255, 255, 12, 0, 13, 0, 2, 5, 104, 101, 108, 108, 111, 5, 119, 111, 114, 108, 100, 0, 0, 0, 0, 0, 0, 0, 0, 0, 0, 0, 0, 0, 0, 0, 0, 0, 0, 0, 0, 0, 0, 0, 0, 0, 0, 0, 0, 0, 0, 0, 0, 0, 0, 0, 0, 0, 0, 0, 0, 0, 0, 0, 0, 0, 0, 0, 0, 0, 0, 0, 0, 0, 0, 0, 0, 0, 0, 0, 0, 0, 0, 0, 0, 0, 0, 0, 0, 0, 0, 0, 0, 0, 0, 0, 0, 0, 0, 0, 0, 0, 0, 0, 0, 0, 0, 0, 0, 0, 0, 0, 0, 0, 0, 0, 0, 0, 0, 0, 0, 0, 0, 0, 1, 0, 0, 0, 8, 0, 255, 255, 0, 0, 0, 0, 0, 0, 0, 0, 0, 0, 0, 0, 0, 0, 0, 0, 0, 0, 0, 0, 0, 0, 0, 0, 0, 0, 0, 0, 0, 0, 0, 0, 0, 0, 0, 0, 0, 0, 0, 0, 0, 0, 0, 0, 0, 0, 0, 0, 0, 0, 0, 0, 0, 0, 0, 0, 0, 0, 0, 0, 0, 0, 0, 0, 0, 0, 0, 0, 0, 0, 0, 0, 0, 0, 0, 0, 0, 0, 0, 0, 0, 0, 0, 0, 0, 0, 0, 0, 0, 0, 0, 0, 0, 0, 0, 0, 0, 0, 0, 0, 0, 0, 0, 0, 0, 0, 0, 0, 0, 0, 0, 0, 0, 0, 0, 0, 0, 0, 0, 0, 1, 2, 1, 0, 0, 0, 0, 0, 18, 4, 5, 1, 2, 13, 4, 0, 0, 0, 0, 0, 0, 4, 64, 7, 2, 222, 173, 5]"
  have table: "length (read_string_table [] \<lparr>rd_data = [12, 0, 13, 0, 2, 5, 104, 101, 108, 108, 111, 5, 119, 111, 114, 108, 100, 0, 0, 0, 0, 0, 0, 0, 0, 0, 0, 0, 0, 0, 0, 0, 0, 0, 0, 0, 0, 0, 0, 0, 0, 0, 0, 0, 0, 0, 0, 0, 0, 0, 0, 0, 0, 0, 0, 0, 0, 0, 0, 0, 0, 0, 0, 0, 0, 0, 0, 0, 0, 0, 0, 0, 0, 0, 0, 0, 0, 0, 0, 0, 0, 0, 0, 0, 0, 0, 0, 0, 0, 0, 0, 0, 0, 0, 0, 0, 0, 0, 0, 0, 0, 0, 0, 0, 0, 0, 0, 0, 0, 0, 0, 0, 0, 0, 0, 0, 0, 0, 0, 0], rd_pos = 0\<rparr>) = 6"
    by (simp add: read_string_table_def read_string_entry_def string_round wide_reader_eval varint_round one_byte
        parse_error_default_def Let_def)
  have "case open_db ?buf False of Inl _ \<Rightarrow> False | Inr db \<Rightarrow> length (db_string_table db) = 6"
    using table
    by (simp add: db_eval crc fields_round zz Let_def cong: let_weak_cong)
  then show ?thesis
    by (auto simp: valid_db_with_stringref_int_float_blob_def page0 page1 jw hdr opened_def kHeaderSize_def Let_def
        split: sum.splits)
qed

end
