(* ===== verification/Test_Minidb_Ext.thy ===== *)
theory Test_Minidb_Ext
  imports Test_Minidb Db_Btree Db_Cursor Db_Overflow Db_Catalog
begin

text \<open>
  The unit tests of the read-side views of \<^verbatim>\<open>minidb\<close> (\<^verbatim>\<open>tests/minidb/test_minidb_ext.cpp\<close>), run on the
  model. The file repeats the builders of \<^verbatim>\<open>test_minidb.cpp\<close>; they are shared here.
\<close>

unbundle bit_operations_syntax

section \<open>Builders\<close>

text \<open>The copy of a payload behind the page header, cut at the end of the page, and the links.\<close>

definition fill_page :: "page_type \<Rightarrow> u16 \<Rightarrow> u16 \<Rightarrow> bytes \<Rightarrow> bytes" where
  "fill_page type page_size overflow_next payload =
     (let page = replicate (unat page_size) 0;
          page = page[0 := page_type_byte type];
          page = page[6 := ucast (overflow_next AND 0xFF)];
          page = page[7 := ucast (drop_bit 8 overflow_next AND 0xFF)];
          page = foldl (\<lambda>page (i, v). if kPageHeaderSize + i < length page then page[kPageHeaderSize + i := v] else page)
                   page (enumerate 0 payload);
          free_start = (of_nat (kPageHeaderSize + length payload) :: u16);
          page = page[4 := ucast (free_start AND 0xFF)]
      in page[5 := ucast (drop_bit 8 free_start AND 0xFF)])"

definition make_index_page :: "u16 \<Rightarrow> u16 \<Rightarrow> index_entry list \<Rightarrow> bytes" where
  "make_index_page page_size overflow_next entries =
     (let body = put_varint [] (of_nat (length entries));
          body = foldl (\<lambda>w e. put_u16le (put_u32le (put_string (put_varint w (of_nat (length (ie_key e)))) (ie_key e))
                   (ie_page e)) (ie_slot e)) body entries
      in fill_page PtIndex page_size overflow_next body)"

definition make_overflow_page :: "u16 \<Rightarrow> u16 \<Rightarrow> bytes \<Rightarrow> bytes" where
  "make_overflow_page page_size overflow_next payload = fill_page PtOverflow page_size overflow_next payload"

definition uint_record :: "u64 \<Rightarrow> bytes" where
  "uint_record v = make_record 1 (put_varint (put_u8 [] (field_type_byte FtUint)) v)"

section \<open>Tests\<close>

definition index_page_decode_lookup_and_range :: bool where
  "index_page_decode_lookup_and_range \<longleftrightarrow>
     (let entries = [\<lparr>ie_key = ''mango'', ie_page = 4, ie_slot = 1\<rparr>, \<lparr>ie_key = ''apple'', ie_page = 2, ie_slot = 0\<rparr>,
                     \<lparr>ie_key = ''cherry'', ie_page = 3, ie_slot = 7\<rparr>, \<lparr>ie_key = ''banana'', ie_page = 9, ie_slot = 2\<rparr>];
          idx = decode_index_page (make_index_page 256 kNoOverflow entries) 0;
          win = ix_range idx ''banana'' ''mango''
      in \<not> ix_truncated idx \<and> length (ix_entries idx) = 4 \<and> ie_key (ix_entries idx ! 0) = ''apple'' \<and>
         ie_key (ix_entries idx ! 1) = ''banana'' \<and> ie_key (ix_entries idx ! 2) = ''cherry'' \<and>
         ie_key (ix_entries idx ! 3) = ''mango'' \<and>
         (case ix_lookup idx ''cherry'' of None \<Rightarrow> False
          | Some i \<Rightarrow> ie_page (ix_entries idx ! i) = 3 \<and> ie_slot (ix_entries idx ! i) = 7) \<and>
         (case ix_lookup idx ''apple'' of None \<Rightarrow> False | Some i \<Rightarrow> ie_page (ix_entries idx ! i) = 2) \<and>
         ix_lookup idx ''durian'' = None \<and> ix_lookup idx ''zucchini'' = None \<and>
         length win = 3 \<and> ie_key (hd win) = ''banana'' \<and> ie_key (last win) = ''mango'' \<and>
         length (ix_range idx ''mango'' ''apple'') = 0)"

definition index_page_non_index_and_truncated :: bool where
  "index_page_non_index_and_truncated \<longleftrightarrow>
     (let not_idx = decode_index_page (make_page PtData 128 kNoOverflow []) 0;
          entries = [\<lparr>ie_key = ''aa'', ie_page = 1, ie_slot = 0\<rparr>, \<lparr>ie_key = ''bb'', ie_page = 2, ie_slot = 0\<rparr>,
                     \<lparr>ie_key = ''cc'', ie_page = 3, ie_slot = 0\<rparr>];
          page = make_index_page 128 kNoOverflow entries;
          free_start = unat (page ! 4) OR push_bit 8 (unat (page ! 5));
          idx = decode_index_page (take (free_start - 9) page) 0
      in length (ix_entries not_idx) = 0 \<and> \<not> ix_truncated not_idx \<and> ix_truncated idx \<and>
         length (ix_entries idx) = 2 \<and> ix_lookup idx ''aa'' \<noteq> None \<and> ix_lookup idx ''cc'' = None)"

definition cursor_iterates_committed_records :: bool where
  "cursor_iterates_committed_records \<longleftrightarrow>
     (let page0 = make_page PtData 128 kNoOverflow [uint_record 10, uint_record 20];
          page1 = make_page PtData 128 kNoOverflow [uint_record 30];
          hdr = make_header 128 2 0 kNoStringTable 0 0 None
      in opened (hdr @ page0 @ page1) (\<lambda>db.
           let cur = cursor_new db;
               (ok1, cur1) = cu_next cur;
               (ok2, cur2) = cu_next cur1;
               (ok3, cur3) = cu_next cur2;
               (ok4, cur4) = cu_next cur3;
               (found, s) = cu_seek 1 0 (cursor_new db);
               (beyond, past) = cu_seek 99 0 (cursor_new db)
           in length (db_records db) = 3 \<and> \<not> cu_valid cur \<and>
              ok1 \<and> cu_valid cur1 \<and> cu_page cur1 = 0 \<and> cu_slot cur1 = 0 \<and>
              map_option fd_u64 (cu_field 0 cur1) = Some 10 \<and> cu_field 5 cur1 = None \<and>
              ok2 \<and> cu_key cur2 = (0, 1) \<and> map_option fd_u64 (cu_field 0 cur2) = Some 20 \<and>
              ok3 \<and> cu_page cur3 = 1 \<and> map_option fd_u64 (cu_field 0 cur3) = Some 30 \<and>
              \<not> ok4 \<and> \<not> cu_valid cur4 \<and>
              found \<and> cu_valid s \<and> cu_key s = (1, 0) \<and> map_option fd_u64 (cu_field 0 s) = Some 30 \<and>
              \<not> beyond \<and> \<not> cu_valid past \<and>
              map_option (project_row (\<lambda>_. [])) (om_lookup (db_records db) (0, 1)) = Some [''20'']))"

definition overflow_chain_reconstruct_and_cycle_guard :: bool where
  "overflow_chain_reconstruct_and_cycle_guard \<longleftrightarrow>
     (let p0 = [0x01, 0x02, 0x03]; p1 = [0x04, 0x05]; p2 = [0x06, 0x07, 0x08, 0x09];
          page0 = make_overflow_page 64 1 p0;
          page1 = make_overflow_page 64 2 p1;
          page2 = make_overflow_page 64 kNoOverflow p2;
          buf = make_header 64 3 0 kNoStringTable 0 0 None @ page0 @ page1 @ page2;
          c0 = make_overflow_page 64 1 p0;
          c1 = make_overflow_page 64 0 p1;
          cbuf = make_header 64 2 0 kNoStringTable 0 0 None @ c0 @ c1
      in opened buf (\<lambda>db.
           let res = reconstruct_overflow_db_default buf db 0;
               capped = reconstruct_overflow_db buf db 0 (default_limits\<lparr>ol_max_bytes := 4\<rparr>)
           in length (db_pages db) = 3 \<and> or_status res = kComplete \<and> length (or_visited res) = 3 \<and>
              length (or_bytes res) = 9 \<and> or_bytes res ! 0 = 0x01 \<and> or_bytes res ! 3 = 0x04 \<and>
              or_bytes res ! 5 = 0x06 \<and> or_bytes res ! 8 = 0x09 \<and> or_status capped = kLengthLimit \<and>
              or_status (reconstruct_overflow_db_default buf db 99) = kBadStart) \<and>
         opened cbuf (\<lambda>cdb.
           let cyc = reconstruct_overflow_db_default cbuf cdb 0
           in or_status cyc = kCycle \<and> length (or_visited cyc) = 2))"

definition catalog_histogram_and_stats :: bool where
  "catalog_histogram_and_stats \<longleftrightarrow>
     (let strs = [''alpha'', '''', ''gamma''];
          page0 = make_page PtStrings 256 kNoOverflow [make_strings_record strs];
          page1 = make_page PtData 256 kNoOverflow [uint_record 1, uint_record 2];
          page2 = make_page PtData 256 kNoOverflow [uint_record 3];
          page3 = make_index_page 256 kNoOverflow [\<lparr>ie_key = ''k'', ie_page = 1, ie_slot = 0\<rparr>];
          hdr = make_header 256 4 0 0 0 0 None
      in opened (hdr @ page0 @ page1 @ page2 @ page3) (\<lambda>db.
           let cat = build_catalog db
           in length (db_records db) = 3 \<and> length (db_string_table db) = 3 \<and> cat_total_pages cat = 4 \<and>
              count_of cat PtStrings = 1 \<and> count_of cat PtData = 2 \<and> count_of cat PtIndex = 1 \<and>
              count_of cat PtOverflow = 0 \<and> cat_total_live_records cat = 3 \<and> cat_total_used_slots cat = 4 \<and>
              ss_count (cat_strings cat) = 3 \<and> ss_total_bytes (cat_strings cat) = 10 \<and>
              ss_max_bytes (cat_strings cat) = 5 \<and> ss_empty_count (cat_strings cat) = 1 \<and>
              0 < length (format_catalog cat)))"

section \<open>Outcomes\<close>

lemma replicate_round: "replicate (numeral k) x = x # replicate (pred_numeral k) x"
  by (simp add: numeral_eq_Suc)

text \<open>The page the copy loop yields.\<close>

lemma fill_loop:
  "8 + n + length payload \<le> length page \<Longrightarrow>
     foldl (\<lambda>page (i, v). if kPageHeaderSize + i < length page then page[kPageHeaderSize + i := v] else page)
         page (enumerate n payload) =
       take (8 + n) page @ payload @ drop (8 + n + length payload) page"
proof (induction payload arbitrary: n page)
  case (Cons v payload)
  then show ?case
    by (simp add: take_Suc_conv_app_nth nth_list_update upd_conv_take_nth_drop kPageHeaderSize_def ac_simps)
qed simp

lemma fill_page_bytes:
  assumes "8 + length payload \<le> unat page_size"
  shows "fill_page type page_size next payload =
    [page_type_byte type, 0, 0, 0, ucast ((of_nat (8 + length payload) :: u16) AND 0xFF),
     ucast (drop_bit 8 (of_nat (8 + length payload) :: u16) AND 0xFF), ucast (next AND 0xFF), ucast (drop_bit 8 next AND 0xFF)] @
    payload @ replicate (unat page_size - 8 - length payload) 0"
proof -
  have zeros: "replicate (unat page_size) (0 :: u8) = [0, 0, 0, 0, 0, 0, 0, 0] @ replicate (unat page_size - 8) 0"
  proof -
    have "replicate (8 + (unat page_size - 8)) (0 :: u8) = [0, 0, 0, 0, 0, 0, 0, 0] @ replicate (unat page_size - 8) 0"
      by (simp only: replicate_add) (simp add: numeral_eq_Suc)
    with assms show ?thesis by simp
  qed
  show ?thesis
    using assms
    by (simp add: fill_page_def zeros fill_loop [of 0, simplified] Let_def) (simp add: kPageHeaderSize_def drop_Cons')
qed

lemmas view_builder_eval = make_overflow_page_def fill_page_bytes uint_record_def kNoOverflow_def

lemmas cursor_eval = cursor_new_def cu_next_def cu_end_def cu_seek_def cu_valid_def cu_page_def cu_slot_def cu_key_def
  cu_field_def cu_record_def project_row_def field_to_string_def

lemma dec_20: "dec_of_nat 20 = ''20''"
  by code_simp

definition uint_field :: "u64 \<Rightarrow> field" where
  "uint_field v = (field_new FtUint)\<lparr>fd_u64 := v\<rparr>"

lemma slots_round:
  "read_slots page_size (numeral k) = rd_bind read_u16le (\<lambda>off. rd_bind read_u16le (\<lambda>len.
     rd_bind (read_slots page_size (pred_numeral k)) (\<lambda>slots. rd_return (make_slot page_size off len # slots))))"
  by (simp only: numeral_eq_Suc read_slots.simps)

lemma cursor_records:
  "opened (make_header 128 2 0 kNoStringTable 0 0 None @ make_page PtData 128 kNoOverflow [uint_record 10, uint_record 20] @
           make_page PtData 128 kNoOverflow [uint_record 30])
     (\<lambda>db. db_records db = [((0, 0), \<lparr>r_fields = [uint_field 10]\<rparr>), ((0, 1), \<lparr>r_fields = [uint_field 20]\<rparr>),
                         ((1, 0), \<lparr>r_fields = [uint_field 30]\<rparr>)])"
proof -
  have crc: "crc32 [77, 68, 66, 49, 1, 0, 128, 0, 2, 0, 0, 0, 0, 0, 0, 0, 255, 255, 255, 255, 0, 0, 0, 0, 0, 0, 0, 0] = 0x382EAF7C"
    by (simp add: crc_eval)
  have page0: "make_page PtData 128 kNoOverflow [uint_record 10, uint_record 20] =
      [1, 0, 2, 0, 22, 0, 255, 255, 16, 0, 3, 0, 19, 0, 3, 0, 1, 3, 10, 1, 3, 20, 0, 0, 0, 0, 0, 0, 0, 0, 0, 0, 0, 0, 0, 0, 0, 0, 0, 0, 0, 0, 0, 0, 0, 0, 0, 0, 0, 0, 0, 0, 0, 0, 0, 0, 0, 0, 0, 0, 0, 0, 0, 0, 0, 0, 0, 0, 0, 0, 0, 0, 0, 0, 0, 0, 0, 0, 0, 0, 0, 0, 0, 0, 0, 0, 0, 0, 0, 0, 0, 0, 0, 0, 0, 0, 0, 0, 0, 0, 0, 0, 0, 0, 0, 0, 0, 0, 0, 0, 0, 0, 0, 0, 0, 0, 0, 0, 0, 0, 0, 0, 0, 0, 0, 0, 0, 0]"
    by (simp add: db_builder_eval wide_reader_eval view_builder_eval zeros64 zeros128 kPageHeaderSize_def kSlotEntrySize_def
        one_byte Let_def)
  have page1: "make_page PtData 128 kNoOverflow [uint_record 30] =
      [1, 0, 1, 0, 15, 0, 255, 255, 12, 0, 3, 0, 1, 3, 30, 0, 0, 0, 0, 0, 0, 0, 0, 0, 0, 0, 0, 0, 0, 0, 0, 0, 0, 0, 0, 0, 0, 0, 0, 0, 0, 0, 0, 0, 0, 0, 0, 0, 0, 0, 0, 0, 0, 0, 0, 0, 0, 0, 0, 0, 0, 0, 0, 0, 0, 0, 0, 0, 0, 0, 0, 0, 0, 0, 0, 0, 0, 0, 0, 0, 0, 0, 0, 0, 0, 0, 0, 0, 0, 0, 0, 0, 0, 0, 0, 0, 0, 0, 0, 0, 0, 0, 0, 0, 0, 0, 0, 0, 0, 0, 0, 0, 0, 0, 0, 0, 0, 0, 0, 0, 0, 0, 0, 0, 0, 0, 0, 0]"
    by (simp add: db_builder_eval wide_reader_eval view_builder_eval zeros64 zeros128 kPageHeaderSize_def kSlotEntrySize_def
        one_byte Let_def)
  have hdr: "make_header 128 2 0 kNoStringTable 0 0 None = [77, 68, 66, 49, 1, 0, 128, 0, 2, 0, 0, 0, 0, 0, 0, 0, 255, 255, 255, 255, 0, 0, 0, 0, 0, 0, 0, 0, 124, 175, 46, 56]"
    by (simp add: make_header_def kNoStringTable_def wide_reader_eval byte_of_char_def crc Let_def cong: let_weak_cong)
  let ?buf = "[77, 68, 66, 49, 1, 0, 128, 0, 2, 0, 0, 0, 0, 0, 0, 0, 255, 255, 255, 255, 0, 0, 0, 0, 0, 0, 0, 0, 124, 175, 46, 56, 1, 0, 2, 0, 22, 0, 255, 255, 16, 0, 3, 0, 19, 0, 3, 0, 1, 3, 10, 1, 3, 20, 0, 0, 0, 0, 0, 0, 0, 0, 0, 0, 0, 0, 0, 0, 0, 0, 0, 0, 0, 0, 0, 0, 0, 0, 0, 0, 0, 0, 0, 0, 0, 0, 0, 0, 0, 0, 0, 0, 0, 0, 0, 0, 0, 0, 0, 0, 0, 0, 0, 0, 0, 0, 0, 0, 0, 0, 0, 0, 0, 0, 0, 0, 0, 0, 0, 0, 0, 0, 0, 0, 0, 0, 0, 0, 0, 0, 0, 0, 0, 0, 0, 0, 0, 0, 0, 0, 0, 0, 0, 0, 0, 0, 0, 0, 0, 0, 0, 0, 0, 0, 0, 0, 0, 0, 0, 0, 1, 0, 1, 0, 15, 0, 255, 255, 12, 0, 3, 0, 1, 3, 30, 0, 0, 0, 0, 0, 0, 0, 0, 0, 0, 0, 0, 0, 0, 0, 0, 0, 0, 0, 0, 0, 0, 0, 0, 0, 0, 0, 0, 0, 0, 0, 0, 0, 0, 0, 0, 0, 0, 0, 0, 0, 0, 0, 0, 0, 0, 0, 0, 0, 0, 0, 0, 0, 0, 0, 0, 0, 0, 0, 0, 0, 0, 0, 0, 0, 0, 0, 0, 0, 0, 0, 0, 0, 0, 0, 0, 0, 0, 0, 0, 0, 0, 0, 0, 0, 0, 0, 0, 0, 0, 0, 0, 0, 0, 0, 0, 0, 0, 0, 0, 0, 0, 0, 0, 0, 0, 0, 0, 0, 0, 0, 0, 0]"
  let ?spans = "[\<lparr>ps_file_offset = 32, ps_length = 128\<rparr>, \<lparr>ps_file_offset = 160, ps_length = 128\<rparr>]"
  let ?pg0 = "(page_new 0)\<lparr>pg_type := PtData, pg_slot_count := 2, pg_free_start := 22, pg_overflow_next := 65535,
    pg_slots := [\<lparr>sl_rec_offset = 16, sl_rec_length = 3, sl_in_bounds = True\<rparr>, \<lparr>sl_rec_offset = 19, sl_rec_length = 3, sl_in_bounds = True\<rparr>]\<rparr>"
  let ?pg1 = "(page_new 1)\<lparr>pg_type := PtData, pg_slot_count := 1, pg_free_start := 15, pg_overflow_next := 65535,
    pg_slots := [\<lparr>sl_rec_offset = 12, sl_rec_length = 3, sl_in_bounds = True\<rparr>]\<rparr>"
  have pg0: "parse_page ?buf 128 0 = Inr (\<lparr>ps_file_offset = 32, ps_length = 128\<rparr>, ?pg0)"
    by (simp add: parse_page_def page_new_def read_page_header_def fit_entries_def make_slot_def kHeaderSize_def
        kPageHeaderSize_def kSlotEntrySize_def wide_reader_eval slots_round Let_def cong: let_weak_cong)
  have pg1: "parse_page ?buf 128 1 = Inr (\<lparr>ps_file_offset = 160, ps_length = 128\<rparr>, ?pg1)"
    by (simp add: parse_page_def page_new_def read_page_header_def fit_entries_def make_slot_def kHeaderSize_def
        kPageHeaderSize_def kSlotEntrySize_def wide_reader_eval Let_def cong: let_weak_cong)
  have pages: "parse_pages_loop ?buf 128 2 0 [] [] = Inr (?spans, [?pg0, ?pg1])"
    by (simp add: parse_pages_loop.simps pg0 pg1 [unfolded One_nat_def] kHeaderSize_def)
  have seed: "seed_from_pages ?buf ?spans db [] = [((0, 0), [1, 3, 10]), ((0, 1), [1, 3, 20]), ((1, 0), [1, 3, 30])]"
    if "db_pages db = [?pg0, ?pg1]" for db
    by (simp add: seed_from_pages_def that seed_page_def seed_slot_def page_new_def enumerate_eq_zip Let_def)
  have records: "decode_record [1, 3, 10] table = Inr \<lparr>r_fields = [uint_field 10]\<rparr>"
    "decode_record [1, 3, 20] table = Inr \<lparr>r_fields = [uint_field 20]\<rparr>"
    "decode_record [1, 3, 30] table = Inr \<lparr>r_fields = [uint_field 30]\<rparr>" for table
    by (simp_all add: decode_record_def read_record_def read_field_def read_field_value_def uint_field_def
        field_type_of_byte_def wide_reader_eval varint_round one_byte Let_def)
  show ?thesis
    unfolding page0 page1 hdr
    by (simp add: opened_def open_db_def db_header_eval wide_reader_eval crc set_header_def database_new_def parse_pages_def pages
        parse_string_table_def kNoStringTable_def replay_journal_def seed end_of_journal_def records om_emplace_def
        om_lookup_def Let_def cong: let_weak_cong)
qed

lemma cursor_test: "cursor_iterates_committed_records"
proof -
  let ?buf = "make_header 128 2 0 kNoStringTable 0 0 None @ make_page PtData 128 kNoOverflow [uint_record 10, uint_record 20] @
    make_page PtData 128 kNoOverflow [uint_record 30]"
  obtain db where db: "open_db ?buf False = Inr db" and records: "db_records db =
      [((0, 0), \<lparr>r_fields = [uint_field 10]\<rparr>), ((0, 1), \<lparr>r_fields = [uint_field 20]\<rparr>), ((1, 0), \<lparr>r_fields = [uint_field 30]\<rparr>)]"
    using cursor_records by (auto simp: opened_def split: sum.splits)
  show ?thesis
    by (simp add: cursor_iterates_committed_records_def db opened_def records cursor_eval om_lookup_def uint_field_def
        field_new_def dec_20 less_prod_def)
qed

lemmas index_eval = read_index_body_def read_index_entry_def kPageHeaderSize_def rd_match_def
  string_of_bytes_def char_of_byte_def

lemmas compare_eval = bytes_of_string_def byte_of_char_def

text \<open>One entry of the index, only at a known position.\<close>

lemma entries_round:
  "read_index_entries (numeral k) entries \<lparr>rd_data = d, rd_pos = p\<rparr> =
     (case read_index_entry \<lparr>rd_data = d, rd_pos = p\<rparr> of
        Inl e \<Rightarrow> (entries, True)
      | Inr (e, r') \<Rightarrow> read_index_entries (pred_numeral k) (entries @ [e]) r')"
  by (simp only: numeral_eq_Suc read_index_entries.simps)

lemma index_lookup_test: "index_page_decode_lookup_and_range"
proof -
  let ?entries = "[\<lparr>ie_key = ''mango'', ie_page = 4, ie_slot = 1\<rparr>, \<lparr>ie_key = ''apple'', ie_page = 2, ie_slot = 0\<rparr>,
    \<lparr>ie_key = ''cherry'', ie_page = 3, ie_slot = 7\<rparr>, \<lparr>ie_key = ''banana'', ie_page = 9, ie_slot = 2\<rparr>]"
  have body: "\<exists>rest. make_index_page 256 kNoOverflow ?entries = [3, 0, 0, 0, 59, 0, 255, 255, 4, 5, 109, 97, 110, 103, 111, 4, 0, 0, 0, 1, 0, 5, 97, 112, 112, 108, 101, 2, 0, 0, 0, 0, 0, 6, 99, 104, 101, 114, 114, 121, 3, 0, 0, 0, 7, 0, 6, 98, 97, 110, 97, 110, 97, 9, 0, 0, 0, 2, 0] @ rest"
    by (simp add: make_index_page_def view_builder_eval wide_reader_eval bytes_of_string_def
        byte_of_char_def one_byte Let_def)
  have entries: "read_index_body (byte_reader_new ([4, 5, 109, 97, 110, 103, 111, 4, 0, 0, 0, 1, 0, 5, 97, 112, 112, 108, 101, 2, 0, 0, 0, 0, 0, 6, 99, 104, 101, 114, 114, 121, 3, 0, 0, 0, 7, 0, 6, 98, 97, 110, 97, 110, 97, 9, 0, 0, 0, 2, 0] @ rest)) = (?entries, False)" for rest
    by (simp add: index_eval entries_round wide_reader_eval varint_round one_byte Let_def) code_simp
  have sorted: "stable_sort ?entries =
      [\<lparr>ie_key = ''apple'', ie_page = 2, ie_slot = 0\<rparr>, \<lparr>ie_key = ''banana'', ie_page = 9, ie_slot = 2\<rparr>,
       \<lparr>ie_key = ''cherry'', ie_page = 3, ie_slot = 7\<rparr>, \<lparr>ie_key = ''mango'', ie_page = 4, ie_slot = 1\<rparr>]"
    by (simp add: stable_sort_def compare_eval)
  have idx: "decode_index_page ([3, 0, 0, 0, 59, 0, 255, 255, 4, 5, 109, 97, 110, 103, 111, 4, 0, 0, 0, 1, 0, 5, 97, 112, 112, 108, 101, 2, 0, 0, 0, 0, 0, 6, 99, 104, 101, 114, 114, 121, 3, 0, 0, 0, 7, 0, 6, 98, 97, 110, 97, 110, 97, 9, 0, 0, 0, 2, 0] @ rest) 0 = \<lparr>ix_page_index = 0, ix_truncated = False, ix_entries = stable_sort ?entries\<rparr>" for rest
    using entries by (simp add: decode_index_page_def kPageHeaderSize_def page_type_of_byte_def)
  obtain rest where page: "make_index_page 256 kNoOverflow ?entries = [3, 0, 0, 0, 59, 0, 255, 255, 4, 5, 109, 97, 110, 103, 111, 4, 0, 0, 0, 1, 0, 5, 97, 112, 112, 108, 101, 2, 0, 0, 0, 0, 0, 6, 99, 104, 101, 114, 114, 121, 3, 0, 0, 0, 7, 0, 6, 98, 97, 110, 97, 110, 97, 9, 0, 0, 0, 2, 0] @ rest"
    using body by blast
  show ?thesis
    unfolding index_page_decode_lookup_and_range_def Let_def page idx sorted
    by (simp add: ix_lookup_def lower_bound.simps ix_range_def compare_eval)
qed

lemma index_truncated_test: "index_page_non_index_and_truncated"
proof -
  let ?entries = "[\<lparr>ie_key = ''aa'', ie_page = 1, ie_slot = 0\<rparr>, \<lparr>ie_key = ''bb'', ie_page = 2, ie_slot = 0\<rparr>,
    \<lparr>ie_key = ''cc'', ie_page = 3, ie_slot = 0\<rparr>]"
  have page: "\<exists>rest. make_index_page 128 kNoOverflow ?entries = [3, 0, 0, 0, 36, 0, 255, 255, 3, 2, 97, 97, 1, 0, 0, 0, 0, 0, 2, 98, 98, 2, 0, 0, 0, 0, 0, 2, 99, 99, 3, 0, 0, 0, 0, 0] @ rest"
    by (simp add: make_index_page_def view_builder_eval wide_reader_eval bytes_of_string_def
        byte_of_char_def one_byte Let_def)
  have not_idx: "decode_index_page (make_page PtData 128 kNoOverflow []) 0 = \<lparr>ix_page_index = 0, ix_truncated = False, ix_entries = []\<rparr>"
    by (simp add: decode_index_page_def make_page_def zeros64 zeros128 kPageHeaderSize_def kSlotEntrySize_def
        page_type_of_byte_def kNoOverflow_def Let_def)
  have entries: "read_index_body (byte_reader_new [3, 2, 97, 97, 1, 0, 0, 0, 0, 0, 2, 98, 98, 2, 0, 0, 0, 0, 0]) = ([\<lparr>ie_key = ''aa'', ie_page = 1, ie_slot = 0\<rparr>, \<lparr>ie_key = ''bb'', ie_page = 2, ie_slot = 0\<rparr>], True)"
    by (simp add: index_eval entries_round wide_reader_eval varint_round one_byte parse_error_default_def Let_def) code_simp
  have sorted: "stable_sort [\<lparr>ie_key = ''aa'', ie_page = 1, ie_slot = 0\<rparr>, \<lparr>ie_key = ''bb'', ie_page = 2, ie_slot = 0\<rparr>] = [\<lparr>ie_key = ''aa'', ie_page = 1, ie_slot = 0\<rparr>, \<lparr>ie_key = ''bb'', ie_page = 2, ie_slot = 0\<rparr>]"
    by (simp add: stable_sort_def compare_eval)
  have idx: "decode_index_page [3, 0, 0, 0, 36, 0, 255, 255, 3, 2, 97, 97, 1, 0, 0, 0, 0, 0, 2, 98, 98, 2, 0, 0, 0, 0, 0] 0 = \<lparr>ix_page_index = 0, ix_truncated = True, ix_entries = [\<lparr>ie_key = ''aa'', ie_page = 1, ie_slot = 0\<rparr>, \<lparr>ie_key = ''bb'', ie_page = 2, ie_slot = 0\<rparr>]\<rparr>"
    using entries sorted by (simp add: decode_index_page_def kPageHeaderSize_def page_type_of_byte_def)
  obtain rest where page: "make_index_page 128 kNoOverflow ?entries = [3, 0, 0, 0, 36, 0, 255, 255, 3, 2, 97, 97, 1, 0, 0, 0, 0, 0, 2, 98, 98, 2, 0, 0, 0, 0, 0, 2, 99, 99, 3, 0, 0, 0, 0, 0] @ rest"
    using page by blast
  show ?thesis
    unfolding index_page_non_index_and_truncated_def Let_def page not_idx
    by (simp add: idx ix_lookup_def lower_bound.simps compare_eval)
qed

lemmas overflow_page_eval = parse_page_def page_new_def read_page_header_def fit_entries_def kHeaderSize_def
  kPageHeaderSize_def kSlotEntrySize_def page_type_of_byte_def wide_reader_eval

lemmas overflow_open_eval = open_db_def set_header_def database_new_def parse_pages_def decode_committed.simps
  parse_string_table_def kNoStringTable_def replay_journal_def seed_from_pages_def seed_page_def end_of_journal_def

lemmas overflow_eval = reconstruct_overflow_db_default_def reconstruct_overflow_db_def reconstruct_overflow_def
  default_limits_def overflow_walk.simps overflow_payload_def derive_spans_def derive_span_def kHeaderSize_def
  kPageHeaderSize_def kNoOverflow_def

definition chain_file :: bytes where
  "chain_file = [77, 68, 66, 49, 1, 0, 64, 0, 3, 0, 0, 0, 0, 0, 0, 0, 255, 255, 255, 255, 0, 0, 0, 0, 0, 0, 0, 0, 50, 246, 234, 216, 4, 0, 0, 0, 11, 0, 1, 0, 1, 2, 3, 0, 0, 0, 0, 0, 0, 0, 0, 0, 0, 0, 0, 0, 0, 0, 0, 0, 0, 0, 0, 0, 0, 0, 0, 0, 0, 0, 0, 0, 0, 0, 0, 0, 0, 0, 0, 0, 0, 0, 0, 0, 0, 0, 0, 0, 0, 0, 0, 0, 0, 0, 0, 0, 4, 0, 0, 0, 10, 0, 2, 0, 4, 5, 0, 0, 0, 0, 0, 0, 0, 0, 0, 0, 0, 0, 0, 0, 0, 0, 0, 0, 0, 0, 0, 0, 0, 0, 0, 0, 0, 0, 0, 0, 0, 0, 0, 0, 0, 0, 0, 0, 0, 0, 0, 0, 0, 0, 0, 0, 0, 0, 0, 0, 0, 0, 0, 0, 4, 0, 0, 0, 12, 0, 255, 255, 6, 7, 8, 9, 0, 0, 0, 0, 0, 0, 0, 0, 0, 0, 0, 0, 0, 0, 0, 0, 0, 0, 0, 0, 0, 0, 0, 0, 0, 0, 0, 0, 0, 0, 0, 0, 0, 0, 0, 0, 0, 0, 0, 0, 0, 0, 0, 0, 0, 0, 0, 0, 0, 0, 0, 0]"

definition chain_pages :: "page list" where
  "chain_pages = [(page_new 0)\<lparr>pg_type := PtOverflow, pg_free_start := 11, pg_overflow_next := 1\<rparr>,
    (page_new 1)\<lparr>pg_type := PtOverflow, pg_free_start := 10, pg_overflow_next := 2\<rparr>,
    (page_new 2)\<lparr>pg_type := PtOverflow, pg_free_start := 12, pg_overflow_next := 65535\<rparr>]"

lemma chain_crc: "crc32 [77, 68, 66, 49, 1, 0, 64, 0, 3, 0, 0, 0, 0, 0, 0, 0, 255, 255, 255, 255, 0, 0, 0, 0, 0, 0, 0, 0] = 0xD8EAF632"
  by (simp add: crc_eval)

lemma chain_opens: "\<exists>db. open_db chain_file False = Inr db \<and> db_page_size db = 64 \<and> db_pages db = chain_pages"
proof -
  have pg0: "parse_page chain_file 64 0 = Inr (\<lparr>ps_file_offset = 32, ps_length = 64\<rparr>, (page_new 0)\<lparr>pg_type := PtOverflow, pg_free_start := 11, pg_overflow_next := 1\<rparr>)"
    by (simp add: chain_file_def overflow_page_eval Let_def cong: let_weak_cong)
  have pg1: "parse_page chain_file 64 1 = Inr (\<lparr>ps_file_offset = 96, ps_length = 64\<rparr>, (page_new 1)\<lparr>pg_type := PtOverflow, pg_free_start := 10, pg_overflow_next := 2\<rparr>)"
    by (simp add: chain_file_def overflow_page_eval Let_def cong: let_weak_cong)
  have pg2: "parse_page chain_file 64 2 = Inr (\<lparr>ps_file_offset = 160, ps_length = 64\<rparr>, (page_new 2)\<lparr>pg_type := PtOverflow, pg_free_start := 12, pg_overflow_next := 65535\<rparr>)"
    by (simp add: chain_file_def overflow_page_eval Let_def cong: let_weak_cong)
  have len: "length chain_file = 224"
    by (simp add: chain_file_def)
  have pages: "parse_pages_loop chain_file 64 3 0 [] [] = Inr ([\<lparr>ps_file_offset = 32, ps_length = 64\<rparr>, \<lparr>ps_file_offset = 96, ps_length = 64\<rparr>, \<lparr>ps_file_offset = 160, ps_length = 64\<rparr>], [(page_new 0)\<lparr>pg_type := PtOverflow, pg_free_start := 11, pg_overflow_next := 1\<rparr>, (page_new 1)\<lparr>pg_type := PtOverflow, pg_free_start := 10, pg_overflow_next := 2\<rparr>, (page_new 2)\<lparr>pg_type := PtOverflow, pg_free_start := 12, pg_overflow_next := 65535\<rparr>])"
    by (simp add: parse_pages_loop.simps pg0 pg1 [unfolded One_nat_def] pg2 [unfolded numeral_2_eq_2] len kHeaderSize_def)
  have hdr: "\<exists>r. parse_header False (byte_reader_new chain_file) = Inr (\<lparr>h_version = 1, h_page_size = 64, h_page_count = 3,
      h_root_page = 0, h_string_table_page = 0xFFFFFFFF, h_journal_offset = 0, h_flags = 0, h_header_crc32 = 0xD8EAF632,
      h_checksum_ok = True\<rparr>, r)"
    by (simp add: chain_file_def db_header_eval wide_reader_eval chain_crc Let_def cong: let_weak_cong)
  show ?thesis
    using hdr by (auto simp: overflow_open_eval chain_pages_def pages page_new_def Let_def)
qed

definition cycle_file :: bytes where
  "cycle_file = [77, 68, 66, 49, 1, 0, 64, 0, 2, 0, 0, 0, 0, 0, 0, 0, 255, 255, 255, 255, 0, 0, 0, 0, 0, 0, 0, 0, 116, 205, 141, 189, 4, 0, 0, 0, 11, 0, 1, 0, 1, 2, 3, 0, 0, 0, 0, 0, 0, 0, 0, 0, 0, 0, 0, 0, 0, 0, 0, 0, 0, 0, 0, 0, 0, 0, 0, 0, 0, 0, 0, 0, 0, 0, 0, 0, 0, 0, 0, 0, 0, 0, 0, 0, 0, 0, 0, 0, 0, 0, 0, 0, 0, 0, 0, 0, 4, 0, 0, 0, 10, 0, 0, 0, 4, 5, 0, 0, 0, 0, 0, 0, 0, 0, 0, 0, 0, 0, 0, 0, 0, 0, 0, 0, 0, 0, 0, 0, 0, 0, 0, 0, 0, 0, 0, 0, 0, 0, 0, 0, 0, 0, 0, 0, 0, 0, 0, 0, 0, 0, 0, 0, 0, 0, 0, 0, 0, 0, 0, 0]"

definition cycle_pages :: "page list" where
  "cycle_pages = [(page_new 0)\<lparr>pg_type := PtOverflow, pg_free_start := 11, pg_overflow_next := 1\<rparr>,
    (page_new 1)\<lparr>pg_type := PtOverflow, pg_free_start := 10, pg_overflow_next := 0\<rparr>]"

lemma cycle_crc: "crc32 [77, 68, 66, 49, 1, 0, 64, 0, 2, 0, 0, 0, 0, 0, 0, 0, 255, 255, 255, 255, 0, 0, 0, 0, 0, 0, 0, 0] = 0xBD8DCD74"
  by (simp add: crc_eval)

lemma cycle_opens: "\<exists>db. open_db cycle_file False = Inr db \<and> db_page_size db = 64 \<and> db_pages db = cycle_pages"
proof -
  have pg0: "parse_page cycle_file 64 0 = Inr (\<lparr>ps_file_offset = 32, ps_length = 64\<rparr>, (page_new 0)\<lparr>pg_type := PtOverflow, pg_free_start := 11, pg_overflow_next := 1\<rparr>)"
    by (simp add: cycle_file_def overflow_page_eval Let_def cong: let_weak_cong)
  have pg1: "parse_page cycle_file 64 1 = Inr (\<lparr>ps_file_offset = 96, ps_length = 64\<rparr>, (page_new 1)\<lparr>pg_type := PtOverflow, pg_free_start := 10, pg_overflow_next := 0\<rparr>)"
    by (simp add: cycle_file_def overflow_page_eval Let_def cong: let_weak_cong)
  have len: "length cycle_file = 160"
    by (simp add: cycle_file_def)
  have pages: "parse_pages_loop cycle_file 64 2 0 [] [] = Inr ([\<lparr>ps_file_offset = 32, ps_length = 64\<rparr>, \<lparr>ps_file_offset = 96, ps_length = 64\<rparr>], [(page_new 0)\<lparr>pg_type := PtOverflow, pg_free_start := 11, pg_overflow_next := 1\<rparr>, (page_new 1)\<lparr>pg_type := PtOverflow, pg_free_start := 10, pg_overflow_next := 0\<rparr>])"
    by (simp add: parse_pages_loop.simps pg0 pg1 [unfolded One_nat_def] len kHeaderSize_def)
  have hdr: "\<exists>r. parse_header False (byte_reader_new cycle_file) = Inr (\<lparr>h_version = 1, h_page_size = 64, h_page_count = 2,
      h_root_page = 0, h_string_table_page = 0xFFFFFFFF, h_journal_offset = 0, h_flags = 0, h_header_crc32 = 0xBD8DCD74,
      h_checksum_ok = True\<rparr>, r)"
    by (simp add: cycle_file_def db_header_eval wide_reader_eval cycle_crc Let_def cong: let_weak_cong)
  show ?thesis
    using hdr by (auto simp: overflow_open_eval cycle_pages_def pages page_new_def Let_def)
qed

lemma overflow_test: "overflow_chain_reconstruct_and_cycle_guard"
proof -
  have file_bytes: "make_header 64 3 0 kNoStringTable 0 0 None @ make_overflow_page 64 1 [1, 2, 3] @ make_overflow_page 64 2 [4, 5] @
      make_overflow_page 64 kNoOverflow [6, 7, 8, 9] = chain_file"
    "make_header 64 2 0 kNoStringTable 0 0 None @ make_overflow_page 64 1 [1, 2, 3] @ make_overflow_page 64 0 [4, 5] = cycle_file"
    by (simp_all add: make_header_def kNoStringTable_def wide_reader_eval byte_of_char_def chain_crc cycle_crc
        view_builder_eval chain_file_def cycle_file_def replicate_round Let_def cong: let_weak_cong)
  obtain db where db: "open_db chain_file False = Inr db" "db_page_size db = 64" "db_pages db = chain_pages"
    using chain_opens by (auto simp: chain_pages_def)
  obtain cdb where cdb: "open_db cycle_file False = Inr cdb" "db_page_size cdb = 64" "db_pages cdb = cycle_pages"
    using cycle_opens by (auto simp: cycle_pages_def)
  have "reconstruct_overflow_db_default chain_file db 0 =
      \<lparr>or_status = kComplete, or_bytes = [1, 2, 3, 4, 5, 6, 7, 8, 9], or_visited = [0, 1, 2]\<rparr>"
    by (simp add: overflow_eval db chain_pages_def chain_file_def page_new_def Let_def)
  moreover have "reconstruct_overflow_db_default chain_file db 99 = \<lparr>or_status = kBadStart, or_bytes = [], or_visited = []\<rparr>"
    by (simp add: overflow_eval db chain_pages_def)
  moreover have "or_status (reconstruct_overflow_db chain_file db 0 (default_limits\<lparr>ol_max_bytes := 4\<rparr>)) = kLengthLimit"
    by (simp add: overflow_eval db chain_pages_def chain_file_def page_new_def Let_def)
  moreover have "reconstruct_overflow_db_default cycle_file cdb 0 =
      \<lparr>or_status = kCycle, or_bytes = [1, 2, 3, 4, 5], or_visited = [0, 1]\<rparr>"
    by (simp add: overflow_eval cdb cycle_pages_def cycle_file_def page_new_def Let_def)
  ultimately show ?thesis
    unfolding overflow_chain_reconstruct_and_cycle_guard_def Let_def file_bytes opened_def db(1) cdb(1)
    by (simp add: db chain_pages_def)
qed

text \<open>A page has the size asked for, whatever is put on it.\<close>

lemma length_copied: "length (foldl (\<lambda>page (b, v). page[cursor + b := v]) page (enumerate n rec)) = length page"
  by (induction rec arbitrary: n page) auto

lemma length_placed_records: "length (fst (foldl place_record page_cursor (enumerate n records))) = length (fst page_cursor)"
  by (induction records arbitrary: n page_cursor)
    (auto simp: place_record_def length_copied Let_def split: prod.splits)

lemma length_make_page: "length (make_page type page_size overflow_next records) = unat page_size"
  by (simp add: make_page_def Let_def case_prod_beta length_placed_records)

lemma length_filled:
  "length (foldl (\<lambda>page (i, v). if kPageHeaderSize + i < length page then page[kPageHeaderSize + i := v] else page)
     page (enumerate n payload)) = length page"
  by (induction payload arbitrary: n page) auto

lemma length_fill_page: "length (fill_page type page_size overflow_next payload) = unat page_size"
  by (simp add: fill_page_def Let_def length_filled)

lemma zeros256: "replicate 256 (0 :: u8) = replicate 64 0 @ replicate 64 0 @ replicate 64 0 @ replicate 64 0"
  by (simp flip: replicate_add)

text \<open>The string table of an opened store is the one its page yields.\<close>

lemma opened_string_table:
  assumes "parse_header False (byte_reader_new data) = Inr (hdr, r)" and "open_db data False = Inr db"
  shows "db_string_table db = db_string_table (open_static data hdr)"
  using assms by (auto simp: open_db_alt replay_open bindE_eq_Inr)

lemma catalog_table:
  "length (read_string_table [] (byte_reader_new ([12, 0, 14, 0, 3, 5, 97, 108, 112, 104, 97, 0, 5, 103, 97, 109, 109, 97] @ replicate 230 0))) = 12"
  by (simp add: read_string_table_def read_string_entry_def string_round wide_reader_eval varint_round one_byte
      replicate_round parse_error_default_def Let_def)

lemma catalog_page:
  "make_page PtStrings 256 kNoOverflow [make_strings_record [''alpha'', '''', ''gamma'']] =
     [2, 0, 1, 0, 26, 0, 255, 255, 12, 0, 14, 0, 3, 5, 97, 108, 112, 104, 97, 0, 5, 103, 97, 109, 109, 97] @ replicate 230 0"
  by (simp add: db_builder_eval wide_reader_eval zeros64 zeros256 kPageHeaderSize_def kSlotEntrySize_def
      bytes_of_string_def byte_of_char_def one_byte replicate_round kNoOverflow_def Let_def)

lemma catalog_crc: "crc32 [77, 68, 66, 49, 1, 0, 0, 1, 4, 0, 0, 0, 0, 0, 0, 0, 0, 0, 0, 0, 0, 0, 0, 0, 0, 0, 0, 0] = 0xE810C968"
  by (simp add: crc_eval)

text \<open>The slot directory is read as the start of the string table: twelve entries instead of three.\<close>

lemma catalog_test: "\<not> catalog_histogram_and_stats"
proof -
  let ?page0 = "[2, 0, 1, 0, 26, 0, 255, 255, 12, 0, 14, 0, 3, 5, 97, 108, 112, 104, 97, 0, 5, 103, 97, 109, 109, 97] @ replicate 230 (0 :: u8)"
  let ?file = "\<lambda>rest. make_header 256 4 0 0 0 0 None @ ?page0 @ rest"
  have twelve: "length (db_string_table db) = 12" if "length rest = 768" "open_db (?file rest) False = Inr db" for rest db
  proof -
    have hdr: "make_header 256 4 0 0 0 0 None = [77, 68, 66, 49, 1, 0, 0, 1, 4, 0, 0, 0, 0, 0, 0, 0, 0, 0, 0, 0, 0, 0, 0, 0, 0, 0, 0, 0, 104, 201, 16, 232]"
      by (simp add: make_header_def wide_reader_eval byte_of_char_def catalog_crc Let_def cong: let_weak_cong)
    obtain h r where h: "parse_header False (byte_reader_new (?file rest)) = Inr (h, r)"
      and fields: "h_page_size h = 256" "h_page_count h = 4" "h_string_table_page h = 0"
      by (simp add: hdr db_header_eval wide_reader_eval catalog_crc Let_def cong: let_weak_cong)
    have present: "pages_present (?file rest) 256 4 = 4"
      using that(1) by (simp add: pages_present_def hdr kHeaderSize_def upt_conv_Cons)
    have page: "pg_type (page_at (?file rest) 256 0) = PtStrings"
      using that(1) by (simp add: page_at_def overflow_page_eval hdr Let_def cong: let_weak_cong)
    have "db_string_table (open_static (?file rest) h) =
        read_string_table [] (byte_reader_new ([12, 0, 14, 0, 3, 5, 97, 108, 112, 104, 97, 0, 5, 103, 97, 109, 109, 97] @ replicate 230 0))"
      using that(1) fields page present
      by (simp add: open_static_def parse_string_table_def open_spans_def open_pages_def upt_conv_Cons
          derive_span_def set_header_def database_new_def kNoStringTable_def kPageHeaderSize_def kHeaderSize_def hdr Let_def)
    then show ?thesis
      using opened_string_table [OF h that(2)] catalog_table by simp
  qed
  have "length (db_string_table db) = 12"
    if "open_db (?file (make_page PtData 256 kNoOverflow [uint_record 1, uint_record 2] @
          make_page PtData 256 kNoOverflow [uint_record 3] @
          make_index_page 256 kNoOverflow [\<lparr>ie_key = ''k'', ie_page = 1, ie_slot = 0\<rparr>])) False = Inr db" for db
    by (rule twelve [OF _ that])
      (simp add: length_make_page make_index_page_def length_fill_page Let_def)
  then show ?thesis
    unfolding catalog_histogram_and_stats_def Let_def catalog_page opened_def
    by (fastforce split: sum.splits)
qed

end
