(* ===== verification/Spec2Isabelle.thy ===== *)
theory Spec2Isabelle
  imports Stream_Decoder Flow_Control Rle_Transform Delivery_Progress Bit_Reader Utf8 Hexdump
    Db_Btree Db_Cursor Db_Overflow Db_Catalog
    Bp_Build Bp_Validate Bp_Summary
    Cs_Limits Cs_Semantics Cs_Query_Laws Cs_Schema Bwdump
    Stream_Pipeline Fuzz_Drivers
    Test_Common Test_Stream_Ext Test_Minidb_Ext
begin

text \<open>
Verification library for bytewright, a C++ collection of binary and text
decoders (namespace bw) with an encoder side for some formats.

The program. All decoders read untrusted bytes through one bounded reader
(src/common/byte_reader.cpp) and report failures as ParseError with a code, an
offset and a message.  streamcodec pulls frames off a buffer, reassembles
messages from fragments, keeps statistics per stream, and offers flow control,
ordered delivery and a run-length transform.  minidb opens a paged store: a
header, an array of pages with slot directories, a string table and a
write-ahead journal that is replayed over the records found in the pages; index
pages, cursors, overflow chains and a catalog are read-side views of it.
binpack reads and writes a container of sections, each a stream of tagged
records that nest; a builder, queries, a visitor, a validator and a text dump
work on the decoded tree.  cfgscript is a configuration language: a lexer, a
recursive-descent parser, an evaluator with nested scopes, a serializer back to
source text, and path queries, flattened views with their diff, and schemas over
the evaluated document.

How the model reads.  A struct is a record, an enum a datatype (with a
constructor for the unnamed values where the code casts a byte to the enum), an
integer a word of its width where the code computes with it, and a natural
number where it is a size_t that is an index or a length of data in memory.  A
function that may throw returns a sum whose left side is the error.  The reader
is passed explicitly: an operation is a function from a reader to an error or a
value with the reader behind it (type rd, bind rd_bind).  An std::map is a list
of pairs in key order (Ordered_Map).  Loops are recursive functions; every one
of them has a proved measure or is structural.  Fuel is used in two places: the
ten rounds of read_varint_loop, which are the ten iterations of the loop in the
code, and the loops of the cfgscript parser, which repeat a production.  They are
indexed by ps_weight, the bytes behind the lookahead plus the lookahead itself;
every round decreases it, and Cs_Parse_Laws shows that any larger index gives the
same result, so the index never cuts a loop short.

Theories and sources.

  Bw_Prelude      types of the integers, bytes and strings, shared lemmas
  Status          src/common/status.cpp: error codes, messages
  Byte_Reader     src/common/byte_reader.cpp; the locales cursor_op and
                  progress_op state what every read promises, with an
                  interpretation for each operation
  Byte_Writer     src/common/byte_writer.cpp; the locale codec relates a put to
                  its get
  Bit_Reader      src/common/bit_reader.cpp
  Checksum        src/common/checksum.cpp, hashing.cpp
  Utf8, Hexdump   src/common/utf8.cpp, hexdump.cpp; the encoding itself is given
                  in arithmetic, apart from the encoder
  Frame           src/streamcodec/frame.cpp, frame_reader.cpp, encoder.cpp
  Reassembler     src/streamcodec/reassembler.cpp: the store is a list, an
                  access outside of it is None
  Stream_State    src/streamcodec/stream_state.cpp
  Stream_Decoder  src/streamcodec/decoder.cpp, summarize.cpp
  Flow_Control    src/streamcodec/control.cpp
  Rle_Transform   src/streamcodec/transform.cpp
  Delivery        src/streamcodec/delivery.cpp
  Delivery_Progress  every stream on its own, and complete delivery
  Stream_Pipeline a session of messages through encoder, decoder and delivery,
                  with frames lost and reordered
  Reader_Laws     laws of readers at a known position, the errors an operation
                  can throw (shared by minidb and binpack)
  Db_Model        include/minidb/model.hpp, format.hpp, src/minidb/names.cpp
  Db_Header       src/minidb/header.cpp
  Db_Pages        src/minidb/pages.cpp, derive_spans of overflow.cpp
  Db_Record       src/minidb/strings.cpp, record.cpp
  Db_Journal      src/minidb/journal.cpp: each lambda and switch case of the
                  replay loop is one definition over the journal state
  Minidb          src/minidb/minidb.cpp
  Db_Btree, Db_Cursor, Db_Overflow, Db_Catalog
                  src/minidb/btree.cpp, cursor.cpp, overflow.cpp, catalog.cpp
  Bp_Model        include/binpack/model.hpp, src/binpack/names.cpp
  Bp_Record       src/binpack/record_parser.cpp; the locale advancing_op states
                  what the loop over a stream needs of the parser it repeats
  Bp_Shape        shape, depth and errors of decoded records
  Bp_Builder      include/binpack/builder.hpp, src/binpack/builder.cpp
  Bp_Codec        record encodings and what they decode to, the depth limit
  Bp_Parser       src/binpack/parser.cpp
  Bp_Container    strict mode, guarantees and errors of parsed containers
  Bp_Build        layout of a built container and its round trip
  Bp_Visit        src/binpack/visitor.cpp, query.cpp
  Bp_Validate     src/binpack/validate.cpp
  Bp_Summary      src/binpack/summarize.cpp
  Binary64        IEEE 754 doubles on their 64 bits, std::stod, std::to_string
  Dbl_Order       comparison of doubles as the order of the numbers they stand for
  Cs_Model        include/cfgscript/token.hpp, ast.hpp, value.hpp, model.hpp,
                  src/cfgscript/token.cpp, value.cpp
  Cs_Lexer        src/cfgscript/lexer.cpp
  Cs_Lex_Laws     the lexer stays inside its buffer, consumes, and its errors
  Cs_Parser       src/cfgscript/parser.cpp
  Cs_Parse_Laws   the locales production and consuming state what a production
                  promises; expression, operands and statements hold the laws of
                  the loops over them, interpreted on the productions of the code
  Cs_Eval         include/cfgscript/environment.hpp, src/cfgscript/evaluator.cpp
  Cs_Document     src/cfgscript/document.cpp
  Cs_Serialize    src/cfgscript/serializer.cpp
  Cs_Streams      the token list of a text
  Cs_Serialize_Laws  what the lexer makes of serialized text
  Cs_Text         the tokens of a serialized value and of serialized nodes
  Cs_Runs         total-correctness triples over the token stream
  Cs_Round_Trip   parsing serialized text; the locales value_parser and
                  node_parser state what a loop needs of the production it repeats
  Cs_Limits       where the promises end: the smallest integer,
                  infinities, flat chains
  Cs_Wellformed   every production keeps names, operators and offsets (locale
                  producing and its loops)
  Cs_Eval_Laws    outcomes of the evaluator on such trees, parsed documents,
                  canonical texts
  Cs_Numbers      the number a value stands for in a comparison
  Cs_Meaning      what operators, names and truth mean, stated without the
                  evaluator, and that the evaluator's helpers compute it
  Cs_Semantics    a big-step semantics over these meanings that the evaluator
                  agrees with, integer division, comparisons of a NaN
  Cs_Flatten      src/cfgscript/flatten.cpp, and that a diff is exact
  Cs_Query        src/cfgscript/query.cpp
  Cs_Query_Laws   paths as text, queries for flattened paths
  Cs_Schema       include/cfgscript/schema.hpp, src/cfgscript/schema.cpp, and what a
                  rule promises, stated apart from the checker
  Bwdump          tools/bwdump.cpp: the four decoders behind one main
  Fuzz_Drivers    fuzz/*.cc: the fuzzing entry points, and the inputs on which the
                  one of binpack has no defined outcome
  Test_Common, Test_Stream, Test_Stream_Ext, Test_Minidb, Test_Minidb_Ext
                  tests/common, tests/streamcodec, tests/minidb: every unit test is
                  a bool definition over the model, with its outcome proved by
                  evaluation; two tests of minidb contradict the code and fail

What the lemmas show.  Readers never leave their buffer and never move back;
every write is undone by its read.  Frames round-trip and the frame loop ends;
fragments complete a message exactly when they cover it, in any order; the slot
store implements a map from keys to partial messages, with the exact condition
under which a RESET keeps that true, and what becomes of the next fragment where
it does not; statistics, delivery and flow control keep
their invariants over every sequence of calls; encoder, decoder and delivery
together hand on every message of a session whatever the order of its frames.
For minidb: which headers are
accepted, what the page walk yields, that records, string tables, index pages
and journals decode to what was encoded, that the replay is a transactional map,
and what the views compute from the model.  For binpack: that a built container
parses back to what was put in, the exact nesting limit, what strict mode
enforces, the guarantees and errors of parsing arbitrary bytes, when a report is
clean, and that all traversals visit the same records.  For cfgscript: that the
lexer and the parser end on every input with a well-formed tree or an error
inside it, that canonical text parses back, what a diff, a query and a schema
report say, and where the limits lie.  Two of these differ from the documentation
of the code: the empty array and the empty object are false (value.hpp names
only null, false, zero and the empty string), and a NaN passes every range of a
schema although the bounds are documented as inclusive.

Not modelled, and why.  The text of a double printed by minidb and binpack
(snprintf with %g) is a parameter of the functions that print one, and a double
is its 64-bit pattern; the payload of a NaN produced by arithmetic is fixed to
one of those the standard allows.  Memory
exhaustion and the limits of size_t beyond 2^64 are outside the model.
The file system of the command-line tool is a parameter.  Of the unit
tests those of binpack and cfgscript are not run, and the harness (registration
and printing, tests/bw_test.hpp) is represented by its checks only.
\<close>

section \<open>Sample data\<close>

text \<open>Concrete inputs at which the properties below are instantiated.\<close>

definition sample_frame :: "nat \<Rightarrow> bytes \<Rightarrow> bool \<Rightarrow> frame" where
  "sample_frame off payload is_last =
     \<lparr>f_type = kData, f_version = 1, f_flags = (if is_last then 0x03 else 0x02), f_stream_id = 1,
      f_msg_id = 7, f_seq = 0, f_frag_offset = of_nat off, f_payload_len = of_nat (length payload),
      f_has_crc = False, f_header_crc = 0, f_crc_ok = False, f_header_offset = 0, f_payload = payload\<rparr>"

definition sample_partials :: reassembler where
  "sample_partials =
     \<lparr>ra_store = [fresh_partial (1, 1), fresh_partial (1, 2), fresh_partial (2, 1)],
      ra_index = [(1, 1) \<mapsto> 0, (1, 2) \<mapsto> 1, (2, 1) \<mapsto> 2]\<rparr>"

lemma sample_partials_inv: "ra_inv sample_partials"
proof -
  have three: "i < 3 \<longleftrightarrow> i = 0 \<or> i = 1 \<or> i = 2" for i :: nat by auto
  have "ra_index sample_partials k = Some i \<longleftrightarrow>
      i < length (ra_store sample_partials) \<and> partial_key (ra_store sample_partials ! i) = k" for k i
    by (cases "i < 3") (auto simp: sample_partials_def three dest!: map_upd_Some_unfold [THEN iffD1])
  then show ?thesis by (auto simp: ra_inv_def) (auto simp: sample_partials_def)
qed

lemma sample_partials_reset: "\<not> reset_safe 1 sample_partials" "reset_safe 2 sample_partials"
proof -
  have "dropped_before 1 (ra_store sample_partials) 2 = 2" "\<not> of_stream 1 (ra_store sample_partials ! 2)"
    "length (ra_store sample_partials) = 3" "length (filter (of_stream 2) (ra_store sample_partials)) = 1"
    by (simp_all add: dropped_before_def of_stream_def sample_partials_def fresh_partial_def)
  then show "\<not> reset_safe 1 sample_partials" "reset_safe 2 sample_partials"
    using reset_safe_single [of 2 sample_partials] by (auto simp: reset_safe_def intro!: exI [of _ 2])
qed

definition sample_message :: "u32 \<Rightarrow> message" where
  "sample_message mid = \<lparr>m_stream_id = 1, m_msg_id = mid, m_compressed = False, m_data = []\<rparr>"

definition sample_header :: file_header where
  "sample_header =
     (let h = \<lparr>h_version = 1, h_page_size = 64, h_page_count = 0, h_root_page = 0,
               h_string_table_page = 0xFFFFFFFF, h_journal_offset = 32, h_flags = 0,
               h_header_crc32 = 0, h_checksum_ok = True\<rparr>
      in h\<lparr>h_header_crc32 := crc32 (header_prefix h)\<rparr>)"

definition sample_store :: "journal_entry list \<Rightarrow> bytes" where
  "sample_store es = header_bytes sample_header @ concat (map entry_bytes es)"

lemma sample_store_header:
  "parse_header strict (byte_reader_new (sample_store es)) =
     Inr (sample_header, rd_at (header_bytes sample_header) (concat (map entry_bytes es)))"
proof -
  have "parse_header strict (rd_at [] (header_bytes sample_header @ concat (map entry_bytes es))) =
      Inr (sample_header, rd_at ([] @ header_bytes sample_header) (concat (map entry_bytes es)))"
    by (rule parse_header_round_trip) (simp_all add: sample_header_def page_size_ok_def header_prefix_def Let_def)
  then show ?thesis by (simp add: sample_store_def rd_at_new)
qed

lemma sample_store_journal:
  "drop (unat (h_journal_offset sample_header)) (sample_store es) = concat (map entry_bytes es)"
  by (simp add: sample_store_def sample_header_def Let_def)

lemma sample_store_long: "es \<noteq> [] \<Longrightarrow> unat (h_journal_offset sample_header) < length (sample_store es)"
  by (cases es) (simp_all add: sample_store_def sample_header_def Let_def)

lemma sample_store_pages: "open_pages (sample_store es) sample_header = []"
  by (simp add: open_pages_def pages_present_def sample_header_def Let_def)

definition sample_builder :: builder where
  "sample_builder = add_record (spec_Keyval ''k'' (spec_Array [spec_Int (-1), spec_Uint 7]))
     (add_section SecMetadata 5 0 (set_has_trailer_crc True builder_new))"

lemma sample_builder_fits: "2 \<le> m \<Longrightarrow> builder_fits m sample_builder"
  by (simp add: builder_fits_def sample_builder_def builder_ok_def add_record_def add_section_def
      set_has_trailer_crc_def builder_new_def spec_Keyval_def spec_Array_def spec_Int_def spec_Uint_def
      encode_record_payload_def section_body_def put_record_def put_bytes_def put_u8_def put_string_def
      put_varint.simps put_svarint_def Let_def zigzag_def)

definition sample_record :: bp_record where
  "sample_record = BpRecord TagKeyval False 0 0 0 [] [] [BpRecord TagArray False 0 0 0 [] []
     [BpRecord TagInt False (-1) 0 0 [] [] [] [], BpRecord TagUint False 0 7 0 [] [] [] []] []] ''k''"

lemma sample_container:
  obtains data c where "build sample_builder = Some data" "bp_parse bp_default_options data = Inr c"
    "bc_checksum_ok c" "bc_has_trailer_crc c" "map bs_type (bc_sections c) = [SecMetadata]"
    "map bs_item_count (bc_sections c) = [1]" "map bs_records (bc_sections c) = [[sample_record]]"
proof -
  have fits: "builder_fits (bo_max_depth bp_default_options) sample_builder"
    using sample_builder_fits [of 32] by (simp add: bp_default_options_def)
  obtain data c where p: "build sample_builder = Some data" "bp_parse bp_default_options data = Inr c"
      "bc_checksum_ok c" "bc_has_trailer_crc c = bb_has_trailer_crc sample_builder"
    and secs: "map (\<lambda>s. (bs_type s, bs_id s, bs_flags s, bs_records s)) (bc_sections c) =
      map (\<lambda>s. (sc_type s, sc_id s, sc_flags s, decoded_records s)) (bb_sections sample_builder)"
    and counts: "map bs_item_count (bc_sections c) =
      map (\<lambda>(s, explicit). if explicit then sc_item_count s else of_nat (length (sc_records s)))
        (zip (bb_sections sample_builder) (bb_item_count_explicit sample_builder))"
    by (rule build_parse_content [OF fits])
  note sample = sample_builder_def builder_new_def add_record_def add_section_def decoded_records_def
    set_has_trailer_crc_def spec_Keyval_def spec_Array_def spec_Int_def spec_Uint_def Let_def
  show ?thesis
    using p that [of data c] arg_cong [OF secs, where f = "map (\<lambda>(a, b, c, d). d)"] arg_cong [OF secs, where f = "map (\<lambda>(a, b, c, d). a)"]
      counts
    by (simp add: comp_def sample sample_record_def)
qed

lemma preorder_sample:
  "length (preorder sample_record) = 4"
  "length (filter (\<lambda>r. rc_tag r = TagInt) (preorder sample_record)) = 1"
proof -
  have "preorder (BpRecord t g i u f s bs cs k) = BpRecord t g i u f s bs cs k # concat (map preorder cs)"
    for t g i u f s bs cs k
    by (subst preorder.simps) simp
  then show "length (preorder sample_record) = 4"
    "length (filter (\<lambda>r. rc_tag r = TagInt) (preorder sample_record)) = 1"
    by (simp_all add: sample_record_def)
qed

definition sample_config :: document where
  "sample_config =
     [NdInclude ''base.cfg'',
      NdAssignment [''limits'', ''max''] (VInt (- 5)),
      NdBlock ''server'' (Some [CHR 0x22, CHR 0x00, CHR 0x0A])
        [NdAssignment [''ports''] (VArray [VInt 1, VInt 2, VInt 3, VInt 4, VArray []]),
         NdAssignment [''tls''] (VObject [(''on'', VBool True), (''key'', VNull), (''name'', VStr ''a b'')]),
         NdBlock ''inner'' None []]]"

lemma sample_config_plain: "plain_nodes sample_config"
proof -
  have names: "is_name ''limits''" "is_name ''max''" "is_name ''server''" "is_name ''ports''" "is_name ''tls''"
    "is_name ''on''" "is_name ''key''" "is_name ''name''" "is_name ''inner''" by code_simp+
  have "- 5 \<noteq> int64_min" "1 \<noteq> int64_min" "2 \<noteq> int64_min" "3 \<noteq> int64_min" "4 \<noteq> int64_min" by code_simp+
  with names show ?thesis by (simp add: sample_config_def)
qed

lemma sample_config_fits: "nodes_fit 1 sample_config"
  by (simp add: sample_config_def kMaxDepth_def)

definition sample_outgoing :: "u32 \<Rightarrow> bytes \<Rightarrow> outgoing" where
  "sample_outgoing mid payload =
     \<lparr>og_stream = 1, og_msg = mid, og_payload = payload, og_max_fragment = 2, og_first_seq = 0,
      og_packed = False, og_crc = True\<rparr>"

lemma sample_count: "og_count (sample_outgoing mid payload) = fragment_count 2 payload"
  by (simp add: og_count_def sample_outgoing_def)

lemma sample_fields:
  "og_stream (sample_outgoing mid payload) = 1" "og_msg (sample_outgoing mid payload) = mid"
  "og_key (sample_outgoing mid payload) = (1, mid)" "sendable (sample_outgoing mid payload) \<longleftrightarrow> length payload \<le> 0xFFFFFFFF"
  "s_stream_id (og_spec (sample_outgoing mid payload) i) = 1" "s_msg_id (og_spec (sample_outgoing mid payload) i) = mid"
  by (simp_all add: sample_outgoing_def og_key_def sendable_def og_spec_def fragment_spec_def)

lemma sample_fragments:
  "fragment_count 2 [] = 1" "fragment_count 2 [a] = 1" "fragment_count 2 [a, b, c] = 2"
  by (simp_all add: fragment_count_def fragment_size_def kMaxFramePayload_def)

section \<open>Properties\<close>

text \<open>
  C1. For every payload of at most \<open>2 ^ 32 - 1\<close> bytes, whatever the fragment size, the sequence start and the flags, decoding what the encoder emits yields the message itself, one statistics entry without gaps or duplicates, and counters that match the frames emitted.
\<close>

theorem stream_message_round_trip:
  "length P \<le> 0xFFFFFFFF \<Longrightarrow>
     decode (snd (encode_message [] sid mid P mx seq packed crc)) =
       Some (Inr \<lparr>dr_messages = [\<lparr>m_stream_id = sid, m_msg_id = mid, m_compressed = packed, m_data = P\<rparr>],
         dr_stats = [\<lparr>ss_stream_id = sid, ss_frames = fragment_count mx P, ss_gaps = 0, ss_duplicates = 0,
           ss_resets = 0\<rparr>],
         dr_controls = [], dr_acks = [], dr_frames_seen = fragment_count mx P, dr_control_frames = 0,
         dr_ack_frames = 0, dr_reset_frames = 0,
         dr_header_crc_ok = (if crc then fragment_count mx P else 0), dr_header_crc_bad = 0\<rparr>)"
  by (rule decode_encoded_message)

theorem stream_message_round_trip_witness:
  "map_option (map_sum (\<lambda>e. e) (\<lambda>r. (dr_messages r, dr_frames_seen r)))
     (decode (snd (encode_message [] 7 9 [1, 2, 3] 2 0xFFFF False True))) =
     Some (Inr ([\<lparr>m_stream_id = 7, m_msg_id = 9, m_compressed = False, m_data = [1, 2, 3]\<rparr>], 2))"
  using stream_message_round_trip [of "[1, 2, 3]" 7 9 2 "0xFFFF" False True]
  by (simp add: fragment_count_def fragment_size_def kMaxFramePayload_def)

text \<open>
  C2. A network that loses and reorders frames: for a session of messages with distinct keys, decode of any selection of the encoded frames in any order succeeds, and returns, once each, exactly the messages all of whose frames are in the selection.
\<close>

theorem stream_lossy_reordered:
  "session xs \<Longrightarrow> mset specs \<subseteq># mset (concat (map og_specs xs)) \<Longrightarrow>
     \<exists>r. decode (concat (map (encode_frame []) specs)) = Some (Inr r) \<and>
         mset (dr_messages r) = mset (map og_message (filter (got specs) xs))"
  by (erule (1) lossy_session) (intro exI conjI)

theorem stream_lossy_reordered_witness:
  "let b = sample_outgoing 5 [1, 2, 3]; c = sample_outgoing 6 [9] in
     \<exists>r. decode (concat (map (encode_frame []) [og_spec c 0, og_spec b 1])) = Some (Inr r) \<and>
         dr_messages r = [og_message c]"
proof -
  let ?b = "sample_outgoing 5 [1, 2, 3]" and ?c = "sample_outgoing 6 [9]"
  have "mset [og_spec ?c 0, og_spec ?b 1] \<subseteq># mset (concat (map og_specs [?b, ?c]))"
    by (simp add: og_specs_def sample_count sample_fragments upt_rec)
  then have "\<exists>r. decode (concat (map (encode_frame []) [og_spec ?c 0, og_spec ?b 1])) = Some (Inr r) \<and>
      mset (dr_messages r) = mset (map og_message (filter (got [og_spec ?c 0, og_spec ?b 1]) [?b, ?c]))"
    by (intro stream_lossy_reordered) (simp_all add: session_def sample_fields)
  moreover have "filter (got [og_spec ?c 0, og_spec ?b 1]) [?b, ?c] = [?c]"
    by (simp add: got_def sample_fields sample_count sample_fragments)
  ultimately show ?thesis by (simp only: Let_def list.map mset_single_iff mset.simps add_mset_eq_single)
qed

text \<open>
  C3. From sender to application: the frames of a session arrive in any order, and decode and ordered delivery run one after the other. For a stream with consecutive ids, whose lowest message b is the first of the stream to be complete and whose messages behind it fit the window, the queue releases exactly the messages of the stream, in the order of their ids, and keeps none.
\<close>

theorem stream_session_delivered:
  "session xs \<Longrightarrow> \<forall>x \<in> set xs. og_msg x < 0xFFFFFFFF \<Longrightarrow>
     mset (pre @ post) = mset (concat (map og_specs xs)) \<Longrightarrow> b \<in> set xs \<Longrightarrow>
     \<forall>x \<in> set xs. og_stream x = og_stream b \<longrightarrow> (got pre x \<longleftrightarrow> x = b) \<Longrightarrow>
     og_msg ` set (of_sid (og_stream b) xs) = {og_msg b..<e} \<Longrightarrow> length (of_sid (og_stream b) xs) \<le> Suc w \<Longrightarrow>
     \<exists>r out q. decode (concat (map (encode_frame []) (pre @ post))) = Some (Inr r) \<and>
       offers (dr_messages r) (delivery_queue_new w) = (out, q) \<and>
       filter (\<lambda>m. m_stream_id m = og_stream b) out = map og_message (sort_key og_msg (of_sid (og_stream b) xs)) \<and>
       so_pending (dq_slot (og_stream b) q) = []"
  by (erule (6) session_delivered) (intro exI conjI)

theorem stream_session_delivered_witness:
  "let b = sample_outgoing 5 [1, 2, 3]; c = sample_outgoing 6 [9]; d = sample_outgoing 7 [] in
     \<exists>r out q. decode (concat (map (encode_frame []) [og_spec b 1, og_spec b 0, og_spec d 0, og_spec c 0])) = Some (Inr r) \<and>
       offers (dr_messages r) (delivery_queue_new 4) = (out, q) \<and>
       filter (\<lambda>m. m_stream_id m = 1) out = [og_message b, og_message c, og_message d]"
proof -
  let ?b = "sample_outgoing 5 [1, 2, 3]" and ?c = "sample_outgoing 6 [9]" and ?d = "sample_outgoing 7 []"
  let ?pre = "[og_spec ?b 1, og_spec ?b 0]" and ?post = "[og_spec ?d 0, og_spec ?c 0]"
  have all: "mset (?pre @ ?post) = mset (concat (map og_specs [?d, ?b, ?c]))"
    by (simp add: og_specs_def sample_count sample_fragments upt_rec)
  have "{5..<8} = {5, 6, 7 :: u32}"
    using atLeastLessThan_succ [of 5 8] atLeastLessThan_succ [of 6 8] atLeastLessThan_succ [of 7 8] by simp
  then have ids: "{7, 5, 6} = {5..<8 :: u32}" by auto
  have ne: "?c \<noteq> ?b" "?d \<noteq> ?b" by (simp_all add: sample_outgoing_def)
  have "\<exists>r out q. decode (concat (map (encode_frame []) (?pre @ ?post))) = Some (Inr r) \<and>
      offers (dr_messages r) (delivery_queue_new 4) = (out, q) \<and>
      filter (\<lambda>m. m_stream_id m = og_stream ?b) out =
        map og_message (sort_key og_msg (of_sid (og_stream ?b) [?d, ?b, ?c])) \<and>
      so_pending (dq_slot (og_stream ?b) q) = []"
    by (rule stream_session_delivered [OF _ _ all])
      (simp_all add: session_def got_def of_sid_def sample_fields sample_count sample_fragments ids ne)
  then show ?thesis by (simp add: Let_def of_sid_def sample_fields) blast
qed

text \<open>
  C4. Fragments cut from one payload may be accepted in any order and any number of times. The partial message is complete exactly when a FIN fragment was among them and together they cover the payload, and its data is then the payload.
\<close>

theorem reassembly_any_order:
  "\<forall>f \<in> set fs. slice_of P f \<Longrightarrow> length P \<le> 0xFFFFFFFF \<Longrightarrow>
     (let p = fold accept_fragment fs (fresh_partial key) in
       (is_complete p \<longleftrightarrow> (\<exists>f \<in> set fs. fin f) \<and>
          {0..<length P} \<subseteq> (\<Union>f \<in> set fs. {frag_begin f..<frag_begin f + length (f_payload f)})) \<and>
       (is_complete p \<longrightarrow> take (p_total_len p) (p_buffer p) = P))"
proof -
  assume slices: "\<forall>f \<in> set fs. slice_of P f" and len: "length P \<le> 0xFFFFFFFF"
  let ?p = "fold accept_fragment fs (fresh_partial key)"
  note run = agrees_fold [OF agrees_fresh [of P key] slices len]
  have start: "cover (p_ranges (fresh_partial key)) = {}" "\<not> p_have_fin (fresh_partial key)"
    by (simp_all add: fresh_partial_def)
  show ?thesis
    using agrees_complete [OF run(1)] agrees_data [OF run(1)] run(2,3) start by (simp add: Let_def)
qed

theorem reassembly_any_order_witness:
  "let p = fold accept_fragment
       [sample_frame 2 [3] True, sample_frame 0 [1, 2] False, sample_frame 2 [3] True] (fresh_partial (1, 7))
     in is_complete p \<and> take (p_total_len p) (p_buffer p) = [1, 2, 3]"
  using reassembly_any_order [of "[sample_frame 2 [3] True, sample_frame 0 [1, 2] False, sample_frame 2 [3] True]"
      "[1, 2, 3]" "(1, 7)"]
  by (simp add: slice_of_def sample_frame_def frag_begin_def frag_def fin_def kFlagFrag_def kFlagFin_def Let_def)
    (auto simp: less_Suc_eq numeral_3_eq_3)

text \<open>
  C5. The store of slots with its index implements a map from keys to partial messages: from a consistent state accepting a fragment stays within the store, keeps it consistent, and does what the abstract map does.
\<close>

theorem reassembler_refines_map:
  "ra_inv ra \<Longrightarrow>
     (case accept_data f ra of
        None \<Rightarrow> False
      | Some (out, ra') \<Rightarrow> ra_inv ra' \<and> accept_abs f (ra_abs ra) = (out, ra_abs ra'))"
proof -
  assume "ra_inv ra"
  then obtain out ra' where "accept_data f ra = Some (out, ra')" and "ra_inv ra'"
    and "accept_abs f (ra_abs ra) = (out, ra_abs ra')"
    by (rule accept_data_refines)
  then show ?thesis by simp
qed

theorem reassembler_refines_map_witness:
  "case accept_data (sample_frame 0 [1, 2] True) reassembler_new of
       None \<Rightarrow> False
     | Some (out, ra') \<Rightarrow> ra_inv ra' \<and>
         accept_abs (sample_frame 0 [1, 2] True) (ra_abs reassembler_new) = (out, ra_abs ra')"
  by (rule reassembler_refines_map [of reassembler_new]) simp

text \<open>
  C6. A RESET keeps the index consistent exactly when no surviving slot is behind more than one dropped slot. In that case it removes the messages of the stream and no others.
\<close>

theorem reset_invariant_exact:
  "ra_inv ra \<Longrightarrow>
     (ra_inv (snd (reset_stream sid ra)) \<longleftrightarrow> reset_safe sid ra) \<and>
     (reset_safe sid ra \<longrightarrow>
        ra_abs (snd (reset_stream sid ra)) = (\<lambda>k. if fst k = sid then None else ra_abs ra k))"
  using reset_inv_iff [of ra sid] reset_abs [of ra sid] by blast

theorem reset_invariant_exact_witness:
  "\<not> ra_inv (snd (reset_stream 1 sample_partials)) \<and> ra_inv (snd (reset_stream 2 sample_partials)) \<and>
   ra_abs (snd (reset_stream 2 sample_partials)) (2, 1) = None \<and>
   ra_abs (snd (reset_stream 2 sample_partials)) (1, 2) = Some (fresh_partial (1, 2))"
proof -
  have "ra_abs sample_partials (1, 2) = Some (fresh_partial (1, 2))" by (simp add: ra_abs_def sample_partials_def)
  with sample_partials_reset reset_invariant_exact [OF sample_partials_inv, of 1]
    reset_invariant_exact [OF sample_partials_inv, of 2] show ?thesis by simp
qed

text \<open>
  C7. A RESET that drops two or more slots in front of a surviving message breaks that message, whatever the store. The survivor moves down by all of them, its index by one. If the index is then past the end of the store, the next fragment for the message leaves the store (the access is undefined); otherwise the fragment goes into the slot of a different message, and what completes there is delivered under the key of the fragment with the bytes of the other message.
\<close>

theorem stale_index_after_reset:
  "ra_inv ra \<Longrightarrow> j < length (ra_store ra) \<Longrightarrow> p_stream_id (ra_store ra ! j) \<noteq> sid \<Longrightarrow>
   2 \<le> dropped_before sid (ra_store ra) j \<Longrightarrow> (f_stream_id f, f_msg_id f) = partial_key (ra_store ra ! j) \<Longrightarrow>
     (let ra' = snd (reset_stream sid ra) in
      ra_store ra' ! (j - dropped_before sid (ra_store ra) j) = ra_store ra ! j \<and>
      ra_index ra' (f_stream_id f, f_msg_id f) = Some (j - 1) \<and>
      (if length (ra_store ra') \<le> j - 1 then accept_data f ra' = None
       else partial_key (ra_store ra' ! (j - 1)) \<noteq> (f_stream_id f, f_msg_id f) \<and>
         (case accept_data f ra' of
            None \<Rightarrow> False
          | Some (out, ra'') \<Rightarrow>
              (let q = accept_fragment f (ra_store ra' ! (j - 1)) in
               case out of
                 None \<Rightarrow> ra_store ra'' = (ra_store ra')[j - 1 := q]
               | Some m \<Rightarrow> m_stream_id m = f_stream_id f \<and> m_msg_id m = f_msg_id f \<and>
                   m_data m = take (p_total_len q) (p_buffer q)))))"
  using reset_misdirects [of ra j sid f] by (simp only: Let_def not_le split: if_split) blast

theorem stale_index_after_reset_witness:
  "accept_data ((sample_frame 0 [1, 2] True)\<lparr>f_stream_id := 2, f_msg_id := 1\<rparr>)
     (snd (reset_stream 1 sample_partials)) = None"
proof -
  have "reset_stream 1 sample_partials = (2, \<lparr>ra_store = [fresh_partial (2, 1)], ra_index = ra_index (snd (reset_stream 1 sample_partials))\<rparr>)"
    by (simp add: reset_stream_def reset_step_def sample_partials_def fresh_partial_def)
  then have "length (ra_store (snd (reset_stream 1 sample_partials))) = 1" by (metis length_Cons list.size(3) One_nat_def
      reassembler.select_convs(1) snd_conv)
  then show ?thesis
    using stale_index_after_reset [OF sample_partials_inv, of 2 1 "(sample_frame 0 [1, 2] True)\<lparr>f_stream_id := 2, f_msg_id := 1\<rparr>"]
    by (simp add: sample_partials_def sample_frame_def dropped_before_def of_stream_def fresh_partial_def partial_key_def
        numeral_2_eq_2 Let_def)
qed

text \<open>
  C8. On every buffer whose frames include no RESET, decoding has a defined outcome, a result or a thrown error.
\<close>

theorem decode_defined_without_reset:
  "\<forall>f \<in> set (frames_of True (byte_reader_new bs)). f_type f \<noteq> kReset \<Longrightarrow> decode bs \<noteq> None"
  by (rule decode_defined) blast

theorem decode_defined_without_reset_witness:
  "decode (encode_frame [] \<lparr>s_type = kData, s_flags = 0x02, s_stream_id = 1, s_msg_id = 7, s_seq = 0,
     s_frag_offset = 3, s_payload = [1, 2], s_with_crc = True\<rparr>) \<noteq> None"
proof (rule decode_defined_without_reset)
  let ?spec = "\<lparr>s_type = kData, s_flags = 0x02, s_stream_id = 1, s_msg_id = 7, s_seq = 0,
     s_frag_offset = 3, s_payload = [1, 2], s_with_crc = True\<rparr> :: frame_spec"
  have stop: "frames_of False (rd_at pre []) = []" for pre
    by (subst frames_of.simps) (simp add: rd_eof_def rd_at_def rd_size_def)
  have "frame_next True (rd_at [] (encode_frame [] ?spec)) = Inr (frame_of_spec 0 ?spec, rd_at (encode_frame [] ?spec) [])"
    using frame_next_encoded [of True "[]" ?spec "[]"] by simp
  then have "set (frames_of True (rd_at [] (encode_frame [] ?spec))) \<subseteq> {frame_of_spec 0 ?spec}"
    by (subst frames_of.simps) (simp add: stop)
  moreover have "f_type (frame_of_spec 0 ?spec) \<noteq> kReset" by (simp add: frame_of_spec_def)
  ultimately show "\<forall>f \<in> set (frames_of True (byte_reader_new (encode_frame [] ?spec))). f_type f \<noteq> kReset"
    unfolding rd_at_new by fastforce
qed

text \<open>
  C9. Whatever the interleaving of frames and resets, the rolling statistics of a stream are the ones computed from the history of that stream alone.
\<close>

theorem stream_statistics:
  "map_option ro_stats (om_lookup (fold st_apply es []) sid) =
     (let h = filter (\<lambda>e. st_event_id e = sid) es in if h = [] then None else Some (stats_of_history sid h))"
  by (rule stats_history)

text \<open>
  C10. While no message has the last id, the messages released for one stream over any sequence of offers have strictly ascending ids, none below the cursor the stream had at the start.
\<close>

theorem delivery_in_order:
  "dq_ok q \<Longrightarrow> dq_own q \<Longrightarrow> \<forall>m \<in> set ms. m_msg_id m < 0xFFFFFFFF \<Longrightarrow> offers ms q = (out, q') \<Longrightarrow>
     sorted_wrt (<) (map m_msg_id (filter (\<lambda>m. m_stream_id m = sid) out)) \<and>
     (so_started (dq_slot sid q) \<longrightarrow>
       (\<forall>m \<in> set out. m_stream_id m = sid \<longrightarrow> so_next_expected (dq_slot sid q) \<le> m_msg_id m))"
  by (rule offers_ascend) blast+

theorem delivery_in_order_witness:
  "sorted_wrt (<) (map m_msg_id (filter (\<lambda>m. m_stream_id m = 1)
     (fst (offers [sample_message 1, sample_message 3, sample_message 2] (delivery_queue_new 4)))))"
proof -
  obtain out q' where run: "offers [sample_message 1, sample_message 3, sample_message 2] (delivery_queue_new 4) = (out, q')"
    by (cases "offers [sample_message 1, sample_message 3, sample_message 2] (delivery_queue_new 4)")
  show ?thesis
    unfolding run fst_conv
    using delivery_in_order [OF dq_ok_new dq_own_new _ run, of 1] by (simp add: sample_message_def)
qed

text \<open>
  C11. A send is admitted up to the remaining credit and added to \<open>sent\<close> without wrapping, a partial admission leaves the stream blocked, and the ceiling of a window update saturates at \<open>2 ^ 64 - 1\<close>.
\<close>

theorem flow_send_admits_credit:
  "controller_ok c \<Longrightarrow>
     fst (try_send sid n c) = min n (fl_available (fl_slot sid c)) \<and>
     unat (fl_sent (fl_slot sid (snd (try_send sid n c)))) =
       unat (fl_sent (fl_slot sid c)) + unat (fst (try_send sid n c)) \<and>
     (fst (try_send sid n c) < n \<longrightarrow> fl_is_blocked sid (snd (try_send sid n c))) \<and>
     unat (window_ceiling a w) = min (unat a + unat w) (2 ^ 64 - 1)"
  using try_send_spec [of c sid n] window_ceiling_saturates [of a w] by blast

theorem flow_send_admits_credit_witness:
  "fst (try_send 1 5 [(1, \<lparr>fl_advertised = 10, fl_sent = 7, fl_acked = 2, fl_blocked = False\<rparr>)]) = 3 \<and>
   fl_is_blocked 1 (snd (try_send 1 5 [(1, \<lparr>fl_advertised = 10, fl_sent = 7, fl_acked = 2, fl_blocked = False\<rparr>)]))"
proof -
  let ?c = "[(1, \<lparr>fl_advertised = 10, fl_sent = 7, fl_acked = 2, fl_blocked = False\<rparr>)] :: flow_controller"
  have "controller_ok ?c" by (auto simp: controller_ok_def om_ok_def om.all_values_def flow_ok_def counters_ok_def om_lookup_def split: if_splits)
  from flow_send_admits_credit [OF this, of 1 5 0 0] show ?thesis
    by (simp add: fl_slot_def fl_available_def om_lookup_def)
qed

text \<open>
  C12. Decompressing what the compressor emits gives back the input, behind whatever the output already holds, whenever the cap leaves room for it. The compressed form of \<open>n\<close> bytes has at most \<open>(4 * n + 2) div 3\<close> bytes, and no input makes the decompressor exceed its cap.
\<close>

theorem rle_inverse:
  "length out + length input \<le> cap \<Longrightarrow>
     rle_decompress (rle_compress input) cap out = (kRleOk, out @ input) \<and>
     3 * length (rle_compress input) \<le> 4 * length input + 2 \<and>
     length (snd (rle_decompress data cap out)) \<le> cap"
  using rle_round_trip [of out input cap] rle_compress_ok(2) [of input] rle_decompress_cap [of out cap data] by simp

theorem rle_inverse_witness:
  "rle_decompress (rle_compress [5, 5, 5, 1]) 4 [] = (kRleOk, [5, 5, 5, 1])"
  using rle_inverse [of "[]" "[5, 5, 5, 1]" 4 "[]"] by simp

text \<open>
  C13. Reading a written varint gives back every 64-bit value and stops right behind it. The encoding has at most ten bytes, and any number of bytes that can hold the value is at least its length. Signed values round-trip as well.
\<close>

theorem varint_codec_exact:
  "read_varint (rd_at pre (put_varint [] v @ rest)) = Inr (v, rd_at (pre @ put_varint [] v) rest) \<and>
   read_svarint (rd_at pre (put_svarint [] i @ rest)) = Inr (i, rd_at (pre @ put_svarint [] i) rest) \<and>
   length (put_varint [] v) \<le> 10 \<and> unat v < 2 ^ (7 * length (put_varint [] v)) \<and>
   (0 < n \<and> unat v < 2 ^ (7 * n) \<longrightarrow> length (put_varint [] v) \<le> n)"
  by (simp add: varint_codec.get_put svarint_codec.get_put varint_length_max varint_length_minimal
      varint_length_le)

theorem varint_codec_exact_witness:
  "length (put_varint [] 300) \<le> 2"
  using varint_codec_exact [of "[]" 300 "[]" 0 2] by simp

text \<open>
  C14. The table-driven CRC-32 is the bit-serial one, it may be fed in chunks, and the checksums of two buffers that differ in one byte differ. The CRC-16 of a frame header detects such a change as well.
\<close>

theorem crc32_table_equivalence:
  "crc32_update s data = foldl crc_byte s data \<and>
   crc32_update s (xs @ ys) = crc32_update (crc32_update s xs) ys \<and>
   (crc32 (xs @ [a] @ ys) = crc32 (xs @ [b] @ ys) \<longleftrightarrow> a = b) \<and>
   (crc16 (xs @ [a] @ ys) = crc16 (xs @ [b] @ ys) \<longleftrightarrow> a = b)"
  using crc.detects_byte [of xs a ys b] crc16.detects_byte [of xs a ys b] crc.update_append [of s xs ys]
  by (simp only: crc32_update_bitwise simp_thms)

text \<open>
  C15. Against an encoding stated in arithmetic (the digits of the value in base 64 behind the lead byte, one to four bytes by range, independent of the encoder): the validator accepts exactly the concatenations of the encodings of Unicode scalar values, the encoder appends the encoding of a scalar value and appends nothing for any other code point, and decoding or counting an encoded sequence gives the sequence or its length.
\<close>

theorem utf8_validation_exact:
  "(utf8_validate bs \<longleftrightarrow> (\<exists>cps. list_all scalar_value cps \<and> bs = concat (map utf8_bytes cps))) \<and>
   utf8_encode cp out =
     (scalar_value cp, if scalar_value cp then out @ string_of_bytes (utf8_bytes cp) else out) \<and>
   (list_all scalar_value points \<longrightarrow>
      to_codepoints (string_of_bytes (concat (map utf8_bytes points))) out' = (True, out' @ points) \<and>
      count_codepoints (concat (map utf8_bytes points)) = Some (length points))"
  using utf8_validate_iff [of bs] utf8_encode_appends [of cp out] loops_on_encoding(1,2) [of points]
  by (simp add: to_codepoints_def count_codepoints_def)

theorem utf8_validation_exact_witness:
  "utf8_validate [0x41, 0xE2, 0x82, 0xAC, 0xF0, 0x9F, 0x98, 0x80] \<and>
   utf8_encode 0x1F600 [] = (True, string_of_bytes [0xF0, 0x9F, 0x98, 0x80]) \<and>
   to_codepoints (string_of_bytes [0x41, 0xE2, 0x82, 0xAC, 0xF0, 0x9F, 0x98, 0x80]) [] = (True, [0x41, 0x20AC, 0x1F600])"
proof -
  let ?cps = "[0x41, 0x20AC, 0x1F600] :: u32 list"
  have bytes: "concat (map utf8_bytes ?cps) = [0x41, 0xE2, 0x82, 0xAC, 0xF0, 0x9F, 0x98, 0x80]"
    "utf8_bytes 0x1F600 = [0xF0, 0x9F, 0x98, 0x80]"
    by (simp_all add: utf8_bytes_def Let_def)
  have ok: "list_all scalar_value ?cps" "scalar_value 0x1F600" by (simp_all add: scalar_value_def kMaxCodepoint_def)
  have "utf8_validate (concat (map utf8_bytes ?cps))"
    using utf8_validation_exact [of "concat (map utf8_bytes ?cps)" 0 "[]" "[]" "[]"] ok(1) by blast
  moreover have "utf8_encode 0x1F600 [] = (True, string_of_bytes [0xF0, 0x9F, 0x98, 0x80])"
    using utf8_validation_exact [of "[]" "0x1F600" "[]" "[]" "[]"] ok(2) by (simp add: bytes(2))
  moreover have "to_codepoints (string_of_bytes (concat (map utf8_bytes ?cps))) [] = (True, ?cps)"
    using utf8_validation_exact [of "[]" 0 "[]" ?cps "[]"] ok(1) by simp
  ultimately show ?thesis unfolding bytes by blast
qed

text \<open>
  C16. Opening a store with a journal of complete entries yields the records of the abstract transactional map started from the page-resident records, key by key; it throws only when one of these records does not decode.
\<close>

theorem db_open_refines_transactions:
  "parse_header strict (byte_reader_new data) = Inr (hdr, r) \<Longrightarrow>
   h_journal_offset hdr \<noteq> 0 \<Longrightarrow> unat (h_journal_offset hdr) < length data \<Longrightarrow>
   drop (unat (h_journal_offset hdr)) data = concat (map entry_bytes es) \<Longrightarrow>
   \<forall>e \<in> set es. entry_fits e \<Longrightarrow>
   (let final = tm_durable (fold tm_apply es
       (txn_start (resident data (open_spans data hdr) (open_pages data hdr)))) in
    case open_db data strict of
      Inl e \<Rightarrow> \<exists>key bs e'. final key = Some bs \<and>
        decode_record bs (db_string_table (open_static data hdr)) = Inl e'
    | Inr db \<Rightarrow> \<forall>key. om_lookup (db_records db) key =
        (case final key of
           None \<Rightarrow> None
         | Some bs \<Rightarrow> (case decode_record bs (db_string_table db) of Inr rec \<Rightarrow> Some rec | Inl e \<Rightarrow> None)))"
  unfolding Let_def by (rule open_db_replay)

theorem db_open_refines_transactions_witness:
  "case open_db (sample_store [EBegin, EInsert (0, 1) [0], ECommit]) False of
       Inl e \<Rightarrow> False
     | Inr db \<Rightarrow> om_lookup (db_records db) (0, 1) = Some \<lparr>r_fields = []\<rparr> \<and> om_lookup (db_records db) (0, 2) = None"
proof -
  let ?es = "[EBegin, EInsert (0, 1) [0], ECommit]"
  have empty: "decode_record [0] table = Inr \<lparr>r_fields = []\<rparr>" for table
    using decode_record_round_trip [of "\<lparr>r_fields = []\<rparr>" table "[]"]
    by (simp add: record_bytes_def put_varint_small)
  have final: "tm_durable (fold tm_apply ?es (txn_start (resident (sample_store ?es)
      (open_spans (sample_store ?es) sample_header) (open_pages (sample_store ?es) sample_header)))) =
      [(0, 1) \<mapsto> [0]]"
    by (rule ext) (simp add: txn_start_def tm_write_def resident_def sample_store_pages)
  have off: "h_journal_offset sample_header \<noteq> 0" by (simp add: sample_header_def Let_def)
  have fits: "\<forall>e \<in> set ?es. entry_fits e" by simp
  show ?thesis
    using db_open_refines_transactions [OF sample_store_header off sample_store_long sample_store_journal fits,
        of False]
    unfolding Let_def final by (auto simp: empty split: sum.split_asm if_split_asm)
qed

text \<open>
  C17. A transaction is atomic: committed, it applies all its mutations in order; rolled back or cut off by the end of the journal, it leaves the committed store as it was.
\<close>

theorem db_transactions_atomic:
  "js_inv js \<Longrightarrow> \<forall>e \<in> set es. mutation e \<Longrightarrow>
     om_lookup (js_committed (fold journal_apply (EBegin # es @ [ECommit]) js)) =
       fold mutate es (om_lookup (js_committed js)) \<and>
     om_lookup (js_committed (fold journal_apply (EBegin # es @ [ERollback]) js)) =
       om_lookup (js_committed js) \<and>
     om_lookup (js_committed (end_of_journal (fold journal_apply (EBegin # es) js))) =
       om_lookup (js_committed js)"
proof -
  assume inv: "js_inv js" and mut: "\<forall>e \<in> set es. mutation e"
  then have ends: "ECommit \<notin> set es" "ERollback \<notin> set es" by auto
  have "js_committed (end_of_journal s) = js_committed s" for s by (simp add: end_of_journal_def)
  then show ?thesis
    using transaction_commits [OF inv mut] transaction_aborts [OF inv ends, of "[ERollback]"]
      transaction_aborts [OF inv ends, of "[]"] by simp
qed

theorem db_transactions_atomic_witness:
  "om_lookup (js_committed (fold journal_apply
       (EBegin # [EInsert (0, 1) [7], EDelete (0, 2)] @ [ECommit]) (journal_start [((0, 2), [5])]))) =
     [(0, 1) \<mapsto> [7]]"
  using db_transactions_atomic [of "journal_start [((0, 2), [5])]" "[EInsert (0, 1) [7], EDelete (0, 2)]"]
  by (auto simp: js_inv_def journal_start_def om_ok_def om_lookup_def fun_eq_iff)



text \<open>
  C19. Decoding the layout of a record gives back its fields, with string references resolved against the table; and every record that decodes consists of such fields.
\<close>

theorem db_record_codec:
  "\<forall>fd \<in> set (r_fields rec). field_ok table fd \<and> field_fits fd \<Longrightarrow> length (r_fields rec) < 2 ^ 64 \<Longrightarrow>
     decode_record (record_bytes rec @ rest) table = Inr rec \<and>
     (\<forall>bs rec'. decode_record bs table = Inr rec' \<longrightarrow> (\<forall>fd \<in> set (r_fields rec'). field_ok table fd))"
  using decode_record_round_trip [of rec table rest] decode_record_ok by blast

theorem db_record_codec_witness:
  "decode_record (record_bytes \<lparr>r_fields = [(field_new FtUint)\<lparr>fd_u64 := 300\<rparr>, resolve_ref [''a''] 0]\<rparr> @ []) [''a''] =
     Inr \<lparr>r_fields = [(field_new FtUint)\<lparr>fd_u64 := 300\<rparr>, resolve_ref [''a''] 0]\<rparr>"
  using db_record_codec [of "\<lparr>r_fields = [(field_new FtUint)\<lparr>fd_u64 := 300\<rparr>, resolve_ref [''a''] 0]\<rparr>" "[''a'']" "[]"]
  by (simp add: field_ok_def field_fits_def field_new_def resolve_ref_def Let_def)



text \<open>
  C21. On every decoded index page the binary search finds the first entry with the key, or nothing when there is none, and the range scan selects exactly the entries in the window.
\<close>

theorem index_lookup_and_range:
  "let ix = decode_index_page bs page in
     (ix_lookup ix key = Some i \<longleftrightarrow>
        i < length (ix_entries ix) \<and> ie_key (ix_entries ix ! i) = key \<and>
        (\<forall>j < i. ie_key (ix_entries ix ! j) \<noteq> key)) \<and>
     (ix_lookup ix key = None \<longleftrightarrow> key \<notin> ie_key ` set (ix_entries ix)) \<and>
     ix_range ix lo hi =
       filter (\<lambda>e. bytes_of_string lo \<le> bytes_of_string (ie_key e) \<and>
         bytes_of_string (ie_key e) \<le> bytes_of_string hi) (ix_entries ix) \<and>
     sorted (map (\<lambda>e. bytes_of_string (ie_key e)) (ix_entries ix))"
  unfolding Let_def by (intro conjI ix_lookup_first ix_lookup_none ix_range_spec decode_index_page_sorted)

theorem index_lookup_and_range_witness:
  "ix_lookup (decode_index_page [3] 0) ''k'' = None"
  using index_lookup_and_range [of "[3]" 0 "''k''"] by (simp add: Let_def decode_index_page_def kPageHeaderSize_def)

text \<open>
  C22. From a valid start the overflow walk always ends, with a status that says why. It visits distinct linked pages that begin with the start page, within the page cap, and returns their payloads in order, within the byte cap.
\<close>

theorem overflow_walk_bounded:
  "length spans = length (db_pages db) \<Longrightarrow> unat start < length (db_pages db) \<Longrightarrow>
     (let r = reconstruct_overflow data spans db start limits in
       chain (db_pages db) (or_visited r) \<and> length (or_visited r) \<le> ol_max_pages limits \<and>
       length (or_bytes r) \<le> ol_max_bytes limits \<and> stop_reason data spans (db_pages db) limits r \<and>
       or_bytes r = concat (map (payload_bytes data spans (db_pages db))
         (if or_status r = kLengthLimit then butlast (or_visited r) else or_visited r)) \<and>
       (0 < ol_max_pages limits \<longrightarrow> or_visited r \<noteq> [] \<and> hd (or_visited r) = start))"
  unfolding Let_def using reconstruct_overflow_ok [of spans db start _ data limits] by blast

theorem overflow_walk_bounded_witness:
  "length (or_visited (reconstruct_overflow [] [\<lparr>ps_file_offset = 32, ps_length = 0\<rparr>]
       (database_new\<lparr>db_pages := [(page_new 0)\<lparr>pg_overflow_next := 0\<rparr>]\<rparr>) 0 default_limits)) \<le> 1024"
  using overflow_walk_bounded [of "[\<lparr>ps_file_offset = 32, ps_length = 0\<rparr>]"
      "database_new\<lparr>db_pages := [(page_new 0)\<lparr>pg_overflow_next := 0\<rparr>]\<rparr>" 0 "[]" default_limits]
  by (simp add: Let_def default_limits_def)

text \<open>
  C23. Round trip of whole containers: for every builder whose content the format can hold, the bytes that are built parse, all checksums hold, and the sections carry the types, ids, flags, item counts and records that went in.
\<close>

theorem bp_build_parse_round_trip:
  "builder_fits (bo_max_depth opts) b \<Longrightarrow>
     (\<exists>data c. build b = Some data \<and> bp_parse opts data = Inr c \<and> bc_checksum_ok c \<and>
        bc_has_metadata c = bb_has_metadata b \<and> bc_has_trailer_crc c = bb_has_trailer_crc b \<and>
        map (\<lambda>s. (bs_type s, bs_id s, bs_flags s, bs_records s)) (bc_sections c) =
          map (\<lambda>s. (sc_type s, sc_id s, sc_flags s, decoded_records s)) (bb_sections b) \<and>
        map bs_item_count (bc_sections c) =
          map (\<lambda>(s, explicit). if explicit then sc_item_count s else of_nat (length (sc_records s)))
            (zip (bb_sections b) (bb_item_count_explicit b)))"
  by (erule build_parse_content) blast

theorem bp_build_parse_round_trip_witness:
  "\<exists>data c. build sample_builder = Some data \<and> bp_parse bp_default_options data = Inr c \<and> bc_checksum_ok c"
  using bp_build_parse_round_trip [of bp_default_options sample_builder] sample_builder_fits [of 32]
  by (auto simp: bp_default_options_def)

text \<open>
  C24. The nesting limit is exact: an encoded record decodes to the record itself when its height fits below the limit, and is refused as too deep when it does not.
\<close>

theorem bp_record_depth_limit:
  "spec_ok spec \<Longrightarrow>
     (d + spec_height spec \<le> m \<longrightarrow> bp_parse_record m base d (rd_at pre (encode_record spec @ rest)) =
        Inr (record_of_spec spec, rd_at (pre @ encode_record spec) rest)) \<and>
     (m < d + spec_height spec \<longrightarrow> (\<exists>off. bp_parse_record m base d (rd_at pre (encode_record spec @ rest)) =
        Inl (ParseError kDepthExceeded off ''record nesting exceeded max depth'')))"
  using record_decodes [of spec d m base] record_too_deep [of spec m d base]
  by (simp add: decodes_def too_deep_def fails_deep_def)

theorem bp_record_depth_limit_witness:
  "\<exists>off. bp_parse_record 0 9 0 (rd_at [] (encode_record (spec_Group [spec_Uint 1]) @ [])) =
     Inl (ParseError kDepthExceeded off ''record nesting exceeded max depth'')"
  using bp_record_depth_limit [of "spec_Group [spec_Uint 1]" 0 0 9 "[]" "[]"]
  by (simp add: spec_Group_def spec_Uint_def encode_record_payload_def put_record_def put_bytes_def put_u8_def
      put_varint.simps)

text \<open>
  C25. The report on a parsed container, when the advisory depth is at least the one used for parsing: it is clean exactly when the declared item counts are right and the metadata keys are distinct, and the error count is the number of wrong counts plus the repeated key occurrences.
\<close>

theorem bp_validate_report:
  "bp_parse opts data = Inr c \<Longrightarrow> bo_max_depth opts \<le> vo_max_depth vopts \<Longrightarrow>
     (report_ok (validate c vopts) \<longleftrightarrow>
       (vo_check_item_count vopts \<longrightarrow> (\<forall>s \<in> set (bc_sections c). \<not> count_mismatch s)) \<and>
       distinct (map fst (bc_metadata c))) \<and>
     error_count (validate c vopts) + card (set (map fst (bc_metadata c))) =
       (if vo_check_item_count vopts then length (filter count_mismatch (bc_sections c)) else 0) +
       length (bc_metadata c)"
  using validate_ok_iff [of c "bo_max_depth opts" vopts] validate_errors [of c "bo_max_depth opts" vopts]
    bp_parse_facts(3) [of opts data c] by (simp add: section_ok_def)

theorem bp_validate_report_witness:
  "\<exists>data c. bp_parse bp_default_options data = Inr c \<and> report_ok (validate_default c)"
proof -
  obtain data c where c: "bp_parse bp_default_options data = Inr c" "map bs_type (bc_sections c) = [SecMetadata]"
      "map bs_item_count (bc_sections c) = [1]" "map bs_records (bc_sections c) = [[sample_record]]"
    by (rule sample_container)
  then obtain s where s: "bc_sections c = [s]" by (auto simp: length_Suc_conv map_eq_Cons_conv)
  with c bp_parse_facts(4) [OF c(1)] have "distinct (map fst (bc_metadata c))" "\<not> count_mismatch s"
    by (simp_all add: metadata_of_def collect_metadata_def count_mismatch_def sample_record_def)
  with bp_validate_report [OF c(1), of default_validate_options] s c(1) show ?thesis
    by (auto simp: validate_default_def default_validate_options_def bp_default_options_def)
qed

text \<open>
  C26. The visitor, the recursive query and the text dump agree: all three go over the same records in preorder, and the dump has one line for each of them besides its fixed lines, whatever the strings and keys contain.
\<close>

theorem bp_traversals_agree:
  "bp_parse opts data = Inr c \<Longrightarrow> \<forall>d. line_count (fmt_g d) = 0 \<Longrightarrow>
     (let records = concat (map (\<lambda>s. concat (map preorder (bs_records s))) (bc_sections c)) in
       walk (entering_visitor f) c st = fold f records st \<and>
       collect_records c tag True = filter (\<lambda>r. rc_tag r = tag) records \<and>
       line_count (bp_summarize fmt_g c) = 6 + of_bool (bc_has_trailer_crc c) + 2 * length (bc_sections c) +
         length records + (if bc_metadata c = [] then 0 else 2 + length (bc_metadata c)))"
  using walk_entering [of c "bo_max_depth opts" f st] line_count_summary [of fmt_g c "bo_max_depth opts"]
    bp_parse_facts(3) [of opts data c] by (simp add: section_ok_def collect_records_spec)

theorem bp_traversals_agree_witness:
  "\<exists>data c. bp_parse bp_default_options data = Inr c \<and>
     length (collect_records c TagInt True) = 1 \<and> walk (entering_visitor (\<lambda>r n. Suc n)) c 0 = 4"
proof -
  obtain data c where c: "bp_parse bp_default_options data = Inr c" "map bs_type (bc_sections c) = [SecMetadata]"
      "map bs_records (bc_sections c) = [[sample_record]]"
    by (rule sample_container)
  then obtain s where s: "bc_sections c = [s]" by (auto simp: length_Suc_conv map_eq_Cons_conv)
  have "fold (\<lambda>r n. Suc n) rs n = length rs + n" for rs :: "bp_record list" and n
    by (induction rs arbitrary: n) simp_all
  with s c bp_traversals_agree [OF c(1), of "\<lambda>d. ''0''" "\<lambda>r n. Suc n" 0 TagInt]
  have "length (collect_records c TagInt True) = 1" "walk (entering_visitor (\<lambda>r n. Suc n)) c 0 = 4"
    by (simp_all add: preorder_sample Let_def)
  with c(1) show ?thesis by blast
qed

text \<open>
  C27. Parsing what the serializer prints gives the document back, whatever the indentation and the inline threshold: for every document whose names are identifiers and no keywords, with no floats and no integer \<open>- 2 ^ 63\<close>, and whose nesting is within the limit of the parser (a value costs two levels for each array or object around it, a block one).
\<close>

theorem cs_serialize_parse_round_trip:
  "plain_nodes doc \<Longrightarrow> nodes_fit 1 doc \<Longrightarrow> cs_parse (bytes_of_string (serialize doc opts)) = Inr doc"
  by (rule serialize_parse)

theorem cs_serialize_parse_round_trip_witness:
  "cs_parse (bytes_of_string (serialize sample_config ser_default)) = Inr sample_config"
  by (rule cs_serialize_parse_round_trip [OF sample_config_plain sample_config_fits])

text \<open>
  C28. Parsing is total and typed: on every input the result is a document whose paths are not empty, whose names and object keys are identifiers and no keywords and whose blocks are nested at most 64 deep, or an error with one of four codes at an offset inside the input or at its end.
\<close>

theorem cs_document_well_formed:
  "case cs_parse data of
     Inr doc \<Rightarrow> list_all (wf_node 1) doc
   | Inl e \<Rightarrow> err_code e \<in> {kBadType, kBadLength, kDepthExceeded, kStateViolation} \<and> err_offset e \<le> length data"
  using parse_outcome [of data] by (simp add: document_codes_def split: sum.splits)

text \<open>
  C29. The branches the evaluator keeps for unknown operators are dead: evaluating what the parser returned never throws their messages, and what it does throw has one of three codes and the offset of a token of the input.
\<close>

theorem cs_internal_errors_unreachable:
  "case bindE (parser_new data) parse_document of
     Inl e \<Rightarrow> True
   | Inr (stmts, st) \<Rightarrow>
       (case build_nodes stmts env_root of
          Inr doc \<Rightarrow> True
        | Inl e \<Rightarrow>
            err_text e \<notin> {''unsupported arithmetic operator'', ''bad comparison'',
              ''unsupported binary operator'', ''unsupported unary operator''} \<and>
            err_code e \<in> {kBadType, kStateViolation, kDepthExceeded} \<and> err_offset e \<le> length data)"
  using parsed_document [of data]
  by (auto simp: well_def internal_messages_def eval_codes_def split: sum.split)

text \<open>
  C30. The canonical text of a parsed document is a fixpoint: whatever the source, what the serializer prints for the document, under any layout, parses to that document, provided no value holds a float or \<open>- 2 ^ 63\<close> and none is nested deeper than a literal may be (a value can be: variables nest it without nesting the source).
\<close>

theorem cs_canonical_text_stable:
  "cs_parse data = Inr doc \<Longrightarrow> list_all printable_node doc \<Longrightarrow>
     cs_parse (bytes_of_string (serialize doc opts)) = Inr doc"
  by (rule canonical_text)

theorem cs_canonical_text_stable_witness:
  "cs_parse (bytes_of_string (serialize sample_config (ser_default\<lparr>so_indent_width := 7\<rparr>))) = Inr sample_config"
proof -
  have "5 \<noteq> - int64_min" "- 5 \<noteq> int64_min" "1 \<noteq> int64_min" "2 \<noteq> int64_min" "3 \<noteq> int64_min" "4 \<noteq> int64_min"
    by code_simp+
  then have "list_all printable_node sample_config" by (simp add: sample_config_def kMaxDepth_def)
  with serialize_parse [OF sample_config_plain sample_config_fits] show ?thesis
    by (rule cs_canonical_text_stable)
qed

text \<open>
  C31. The serializer does not survive every value: a document that assigns \<open>- 2 ^ 63\<close> to any name prints as text that the parser rejects with \<open>kBadLength\<close>, and one that assigns an infinity prints a word that the evaluator rejects as an unknown variable with \<open>kStateViolation\<close>, whatever the layout.
\<close>

theorem cs_unprintable_values:
  "is_name name \<Longrightarrow>
     (\<exists>off. cs_parse (bytes_of_string (serialize [NdAssignment [name] (VInt int64_min)] opts)) =
        Inl (ParseError kBadLength off ''numeric literal out of range'')) \<and>
     (\<exists>off. cs_parse (bytes_of_string (serialize [NdAssignment [name] (VFloat (dbl_inf False))] opts)) =
        Inl (ParseError kStateViolation off (''unknown identifier '' @ cs_quoted ''inf'')))"
  by (intro conjI smallest_integer_breaks infinity_breaks)

theorem cs_unprintable_values_witness:
  "\<exists>off. cs_parse (bytes_of_string (serialize [NdAssignment [''low''] (VInt int64_min)] ser_default)) =
       Inl (ParseError kBadLength off ''numeric literal out of range'')"
proof -
  have "is_name ''low''" by code_simp
  with cs_unprintable_values show ?thesis by blast
qed

text \<open>
  C32. The limit on nesting rejects flat text: the parser accepts a sum of any number of ones, but every plus sign is one level of the tree, so the assignment evaluates (to the right number) exactly when there are fewer than 64 of them and throws \<open>kDepthExceeded\<close> otherwise.
\<close>

theorem cs_flat_chain_limit:
  "is_name name \<Longrightarrow>
     (\<exists>st r. parser_new (bytes_of_string (chain_text name n)) = Inr st \<and> parse_document st = Inr r) \<and>
     (if n < 64
      then cs_parse (bytes_of_string (chain_text name n)) = Inr [NdAssignment [name] (VInt (of_nat (Suc n)))]
      else \<exists>off msg. cs_parse (bytes_of_string (chain_text name n)) = Inl (ParseError kDepthExceeded off msg))"
  using chain_limit [of name n] by (simp add: kMaxDepth_def)

theorem cs_flat_chain_limit_witness:
  "cs_parse (bytes_of_string (chain_text ''n'' 2)) = Inr [NdAssignment [''n''] (VInt 3)] \<and>
   (\<exists>off msg. cs_parse (bytes_of_string (chain_text ''n'' 1000)) = Inl (ParseError kDepthExceeded off msg))"
proof -
  have name: "is_name ''n''" by code_simp
  show ?thesis using cs_flat_chain_limit [OF name, of 2] cs_flat_chain_limit [OF name, of 1000] by simp
qed

text \<open>
  C33. The evaluator implements the big-step semantics: it returns a value at a depth exactly when the semantics, which has no depth counter, derives that value with a number of levels that the limit leaves. The semantics is stated apart from the evaluator (they share the arithmetic of doubles and the text of numbers, which are those of the standard library): operators mean arithmetic on integers wrapped to 64 bits, the division equation, multiplication and division by powers of two, single bits, and the order of the numbers that doubles stand for; a name means its value in the innermost scope that defines it. Sides that \<open>&&\<close>, \<open>||\<close> and \<open>?:\<close> skip need neither a value nor levels. Two rules describe the code where a comment says otherwise: the empty array and the empty object count as false, and numbers that do not compare (a NaN) count as equal.
\<close>

theorem cs_evaluator_big_step:
  "evaluate e env depth = Inr v \<longleftrightarrow> (\<exists>k. evals env e v k \<and> depth + k \<le> kMaxDepth)"
  by (rule evaluate_iff)

text \<open>
  C34. Division of integers is total but for zero: with a zero divisor both operators throw \<open>kStateViolation\<close>; otherwise quotient and remainder rebuild the dividend at 64 bits, the remainder is smaller than the divisor and carries the sign of the dividend, and the quotient is the one truncated towards zero, except for \<open>- 2 ^ 63 / - 1\<close>, which wraps.
\<close>

theorem cs_division_exact:
  "if y = 0
   then eval_div_mod TkSlash (VInt x) (VInt y) off = Inl (ParseError kStateViolation off ''division by zero'') \<and>
     eval_div_mod TkPercent (VInt x) (VInt y) off = Inl (ParseError kStateViolation off ''modulo by zero'')
   else \<exists>q r.
     eval_div_mod TkSlash (VInt x) (VInt y) off = Inr (VInt q) \<and>
     eval_div_mod TkPercent (VInt x) (VInt y) off = Inr (VInt r) \<and>
     x = q * y + r \<and> \<bar>sint r\<bar> < \<bar>sint y\<bar> \<and> (sint r = 0 \<or> sgn (sint r) = sgn (sint x)) \<and>
     (sint q = sint x sdiv sint y \<or> x = int64_min \<and> y = - 1 \<and> q = int64_min)"
proof (cases "y = 0")
  case True
  then show ?thesis by (simp add: eval_div_mod_def is_number_def eval_error_def)
next
  case False
  then obtain q r where "eval_div_mod TkSlash (VInt x) (VInt y) off = Inr (VInt q)"
    "eval_div_mod TkPercent (VInt x) (VInt y) off = Inr (VInt r)"
    "x = q * y + r" "\<bar>sint r\<bar> < \<bar>sint y\<bar>" "sint r = 0 \<or> sgn (sint r) = sgn (sint x)"
    "sint q = sint x sdiv sint y \<or> x = int64_min \<and> y = - 1 \<and> q = int64_min" by (rule division_exact)
  with False show ?thesis by (metis (no_types))
qed

text \<open>
  C35. The diff of two flattened documents is exact: no path occurs twice, an entry is in it exactly when the two views (the last write of every path) differ at its path, with the kind and the values that say how, and applying its entries to the first view gives the second.
\<close>

theorem cs_diff_exact:
  "distinct (map de_path (diff_flat a b)) \<and>
   (\<forall>k p old new.
     \<lparr>de_kind = k, de_path = p, de_old_value = old, de_new_value = new\<rparr> \<in> set (diff_flat a b) \<longleftrightarrow>
     (case (flat_index a p, flat_index b p) of
        (Some v, None) \<Rightarrow> k = DkRemoved \<and> old = v \<and> new = []
      | (None, Some w) \<Rightarrow> k = DkAdded \<and> old = [] \<and> new = w
      | (Some v, Some w) \<Rightarrow> v \<noteq> w \<and> k = DkChanged \<and> old = v \<and> new = w
      | (None, None) \<Rightarrow> False)) \<and>
   fold apply_entry (diff_flat a b) (flat_index a) = flat_index b"
  using diff_flat_distinct diff_flat_set diff_flat_patches by blast

text \<open>
  C36. Flattening and querying agree: in a document whose siblings start with distinct names free of path separators, whose blocks have no labels and which includes nothing, a query for the path of a flattened entry finds the very leaf whose text the entry holds, through blocks, dotted paths, members and indices.
\<close>

theorem cs_flatten_query_agree:
  "queryable doc \<Longrightarrow> e \<in> set (flatten_doc doc) \<Longrightarrow>
     \<exists>leaf. cs_query doc (fe_path e) = Some leaf \<and> render_scalar leaf = fe_value e"
  by (rule flatten_query)

theorem cs_flatten_query_agree_witness:
  "\<exists>leaf. cs_query [NdBlock ''server'' None [NdAssignment [''port''] (VArray [VInt 80, VObject [(''tls'', VBool True)]])]]
       ''server.port[1].tls'' = Some leaf \<and> render_scalar leaf = ''true''"
proof -
  have one: "dec_of_nat (Suc 0) = ''1''" by code_simp
  show ?thesis
  using cs_flatten_query_agree [of "[NdBlock ''server'' None [NdAssignment [''port''] (VArray [VInt 80, VObject [(''tls'', VBool True)]])]]"
      "\<lparr>fe_path = ''server.port[1].tls'', fe_value = ''true''\<rparr>"]
  by (simp add: path_name_def name_char_def flatten_doc_def block_prefix_def join_path_def join_index_def one)
qed



text \<open>
  C38. Every run of the tool is clean: a run that succeeds writes to the standard output only, every other to the error stream only, with status 1 or 2; the status is 2 exactly for a wrong number of arguments or a readable input of an unknown format. The only runs without a defined outcome are those of the stream decoder on a capture with a RESET frame.
\<close>

theorem bwdump_outcome:
  "(case bwdump_main fmt_g files stdin args of
      Some t \<Rightarrow>
        if tr_status t = 0 then tr_err t = []
        else tr_status t \<in> {1, 2} \<and> tr_out t = [] \<and> tr_err t \<noteq> []
    | None \<Rightarrow> \<exists>path data. args = [''streamcodec'', path] \<and> read_input files stdin path = Some data \<and>
        (\<exists>f \<in> set (frames_of True (byte_reader_new data)). f_type f = kReset)) \<and>
   ((\<exists>t. bwdump_main fmt_g files stdin args = Some t \<and> tr_status t = 2) \<longleftrightarrow>
     (case args of
        [format, path] \<Rightarrow> read_input files stdin path \<noteq> None \<and>
          format \<notin> {''binpack'', ''minidb'', ''cfgscript'', ''streamcodec''}
      | _ \<Rightarrow> True))"
  by (rule conjI [OF main_outcome [unfolded run_ok_def] usage_status])

text \<open>
  C39. From writer to tool: dumping a file that holds the canonical text of a document prints the summary of that document, and dumping what a builder built prints the summary of a container with valid checksums and the sections that went in; both runs succeed.
\<close>

theorem bwdump_prints_written:
  "plain_nodes doc \<Longrightarrow> nodes_fit 1 doc \<Longrightarrow> builder_fits (bo_max_depth bp_default_options) b \<Longrightarrow>
     conf \<noteq> ''-'' \<Longrightarrow> files conf = Some (bytes_of_string (serialize doc opts)) \<Longrightarrow>
     pack \<noteq> ''-'' \<Longrightarrow> files pack = build b \<Longrightarrow>
     bwdump_main fmt_g files stdin [''cfgscript'', conf] =
       Some \<lparr>tr_status = 0, tr_out = summarize doc, tr_err = []\<rparr> \<and>
     (\<exists>c. bwdump_main fmt_g files stdin [''binpack'', pack] =
         Some \<lparr>tr_status = 0, tr_out = bp_summarize fmt_g c, tr_err = []\<rparr> \<and> bc_checksum_ok c \<and>
       map (\<lambda>s. (bs_type s, bs_id s, bs_flags s, bs_records s)) (bc_sections c) =
         map (\<lambda>s. (sc_type s, sc_id s, sc_flags s, decoded_records s)) (bb_sections b))"
proof (rule conjI)
  assume conf: "plain_nodes doc" "nodes_fit 1 doc" "conf \<noteq> ''-''" "files conf = Some (bytes_of_string (serialize doc opts))"
  then show "bwdump_main fmt_g files stdin [''cfgscript'', conf] =
      Some \<lparr>tr_status = 0, tr_out = summarize doc, tr_err = []\<rparr>"
    by (intro dump_config) (simp_all add: read_input_def)
next
  assume pack: "builder_fits (bo_max_depth bp_default_options) b" "pack \<noteq> ''-''" "files pack = build b"
  obtain data c where c: "build b = Some data" "bp_parse bp_default_options data = Inr c" "bc_checksum_ok c"
    "map (\<lambda>s. (bs_type s, bs_id s, bs_flags s, bs_records s)) (bc_sections c) =
      map (\<lambda>s. (sc_type s, sc_id s, sc_flags s, decoded_records s)) (bb_sections b)"
    by (rule build_parse_content [OF pack(1)])
  have "read_input files stdin pack = Some data" using pack c(1) by (simp add: read_input_def)
  from dump_container [OF c(1,2) this] c(3,4)
  show "\<exists>c. bwdump_main fmt_g files stdin [''binpack'', pack] =
      Some \<lparr>tr_status = 0, tr_out = bp_summarize fmt_g c, tr_err = []\<rparr> \<and> bc_checksum_ok c \<and>
    map (\<lambda>s. (bs_type s, bs_id s, bs_flags s, bs_records s)) (bc_sections c) =
      map (\<lambda>s. (sc_type s, sc_id s, sc_flags s, decoded_records s)) (bb_sections b)"
    by blast
qed

theorem bwdump_prints_written_witness:
  "bwdump_main (\<lambda>_. ''0'') (\<lambda>p. if p = ''a.cfg'' then Some (bytes_of_string (serialize sample_config ser_default))
       else build sample_builder) [] [''cfgscript'', ''a.cfg''] =
     Some \<lparr>tr_status = 0, tr_out = summarize sample_config, tr_err = []\<rparr>"
proof -
  let ?files = "\<lambda>p. if p = ''a.cfg'' then Some (bytes_of_string (serialize sample_config ser_default)) else build sample_builder"
  have fits: "builder_fits (bo_max_depth bp_default_options) sample_builder"
    using sample_builder_fits [of 32] by (simp add: bp_default_options_def)
  have "''a.cfg'' \<noteq> ''-''" "?files ''a.cfg'' = Some (bytes_of_string (serialize sample_config ser_default))"
    "''b.pack'' \<noteq> ''-''" "?files ''b.pack'' = build sample_builder" by simp_all
  from bwdump_prints_written [OF sample_config_plain sample_config_fits fits this] show ?thesis by blast
qed

text \<open>
  C40. The fuzz driver of binpack promises to survive every input. It does, except exactly on the inputs that parse and hold at any depth a float record that is a NaN, an infinity, at most -1 or at least 2^64; and the builder makes such an input with valid checksums.
\<close>

theorem fuzz_binpack_float_cast:
  "(fuzz_binpack fmt_g data = None \<longleftrightarrow>
      (\<exists>c. bp_parse bp_default_options data = Inr c \<and>
        (\<exists>rec \<in> set (collect_records c TagFloat True).
          dbl_is_nan (rc_f64 rec) \<or> dbl_is_inf (rc_f64 rec) \<or> dbl_value (rc_f64 rec) \<le> -1 \<or>
          2 ^ 64 \<le> dbl_value (rc_f64 rec)))) \<and>
   (\<exists>data c. build negative_file = Some data \<and> bp_parse bp_default_options data = Inr c \<and> bc_checksum_ok c \<and>
      fuzz_binpack fmt_g data = None)"
  using fuzz_binpack_undefined [of fmt_g data, unfolded dbl_to_size_None]
  by (rule conjI) (rule fuzz_binpack_fails_on_valid_file [of fmt_g], blast)

section \<open>Further theorems\<close>

text \<open>
  The decoder reaches the stale index: two partial messages on stream 1, one on stream 2, a RESET of stream 1 and another fragment for stream 2 are five well-formed frames on which decoding leaves the store.
\<close>

theorem stale_index_decoded:
  "decode (concat (map (encode_frame []) stale_index_stream)) = None"
  by (rule stale_index_undefined)

text \<open>
  Reading an encoded frame, wherever it stands and whatever follows, yields the frame its specification describes and leaves the cursor right behind it.
\<close>

theorem frame_reader_round_trip:
  "frame_next first (rd_at pre (encode_frame [] spec @ rest)) =
     Inr (frame_of_spec (length pre) spec, rd_at (pre @ encode_frame [] spec) rest)"
  by (rule frame_next_encoded)

text \<open>
  Every frame read consumes at least one byte and stays inside the buffer, so the frame loop ends; an error names an offset inside the buffer.
\<close>

theorem frame_reader_progress:
  "wf_rd r \<Longrightarrow>
     (case frame_next first r of
        Inl e \<Rightarrow> err_offset e \<le> length (rd_data r)
      | Inr (f, r') \<Rightarrow> wf_rd r' \<and> rd_data r' = rd_data r \<and> rd_pos r < rd_pos r')"
proof (cases "frame_next first r")
  case (Inl e)
  assume "wf_rd r"
  with Inl show ?thesis using frame_op.error_inside [of r first] by simp
next
  case (Inr p)
  then obtain f r' where p: "frame_next first r = Inr (f, r')" by (cases p) simp
  assume "wf_rd r"
  then show ?thesis
    unfolding p sum.case prod.case
    using frame_op.stays_inside [OF _ p] frame_op.data_kept [OF p] frame_op.advances [OF p] by blast
qed

text \<open>
  Every message of a stream is delivered in the end: when the messages of a stream are offered each once, behind the first in any order and interleaved with other streams, their ids are consecutive and no more than the window are behind the first, then all of them have been released, in the order of their ids, and none is left in the buffer.
\<close>

theorem delivery_complete:
  "offers ms (delivery_queue_new w) = (out, q) \<Longrightarrow> \<forall>m \<in> set ms. m_msg_id m < 0xFFFFFFFF \<Longrightarrow>
     filter (\<lambda>m. m_stream_id m = sid) ms = first # rest \<Longrightarrow> distinct (map m_msg_id (first # rest)) \<Longrightarrow>
     m_msg_id ` set (first # rest) = {m_msg_id first..<e} \<Longrightarrow> length rest \<le> w \<Longrightarrow>
     mset (filter (\<lambda>m. m_stream_id m = sid) out) = mset (first # rest) \<and>
     sorted_wrt (<) (map m_msg_id (filter (\<lambda>m. m_stream_id m = sid) out)) \<and> so_pending (dq_slot sid q) = []"
  by (intro conjI) (erule (5) complete_stream_delivered)+

text \<open>
  Over any sequence of offers every message is released, still buffered, or counted as a duplicate: none is lost and none is invented.
\<close>

theorem delivery_conserves_messages:
  "dq_ok q \<Longrightarrow> \<forall>m \<in> set ms. m_msg_id m < 0xFFFFFFFF \<Longrightarrow> offers ms q = (out, q') \<Longrightarrow>
     length out + buffered q' + dq_duplicates q' = buffered q + dq_duplicates q + length ms"
  by (rule offers_account) blast+

text \<open>
  The cursor wraps after the last message id: a repeated message with the id \<open>0xFFFFFFFF\<close> is buffered instead of being counted as a duplicate, and a flush delivers it a second time.
\<close>

theorem delivery_cursor_wraps:
  "(case offers [last_id_message, last_id_message] (delivery_queue_new 64) of (out, q) \<Rightarrow>
      (out, dq_duplicates q, fst (flush_stream 1 q))) = ([last_id_message], 0, [last_id_message])"
  by (rule wrapped_cursor_redelivers)

text \<open>
  Over any sequence of window updates, acks and sends, every stream keeps \<open>acked \<le> sent \<le> advertised\<close> with a correct blocked flag, and none of the three counters ever decreases.
\<close>

theorem flow_counters:
  "controller_ok c \<Longrightarrow>
     controller_ok (fold flow_step ops c) \<and>
     fl_advertised (fl_slot sid c) \<le> fl_advertised (fl_slot sid (fold flow_step ops c)) \<and>
     fl_sent (fl_slot sid c) \<le> fl_sent (fl_slot sid (fold flow_step ops c)) \<and>
     fl_acked (fl_slot sid c) \<le> fl_acked (fl_slot sid (fold flow_step ops c))"
  using run_mono [of c sid ops] flow.inv_run_from [of c ops] by blast

text \<open>
  Six bytes whose compressed form has eight bytes: the bound \<open>n + \<lceil>n / 128\<rceil>\<close> stated in the header does not hold.
\<close>

theorem rle_expands_past_documented_bound:
  "length (rle_compress [0x61, 0x62, 0x62, 0x61, 0x62, 0x62]) = 8"
  by (simp add: rle_compress_def rle_compress_loop.simps run_length_def run_length_from.simps kRleMaxTokenLen_def
      flush_literal.simps emit_literal_def emit_run_def Let_def)

text \<open>
  Reading up to 64 available bits yields the next bits of the buffer, most significant first, although the code mixes whole-byte and single-bit steps.
\<close>

theorem bit_reader_reads_stream:
  "n \<le> 64 \<Longrightarrow> n \<le> bits_remaining r \<Longrightarrow>
     read_bits n r =
       Inr (msb_value 0 (stream_bits (br_data r) (br_pos r) n), r\<lparr>br_pos := br_pos r + n\<rparr>)"
  by (rule read_bits_spec)

text \<open>
  The header gate: a buffer is accepted exactly when it has 32 bytes, the magic, version 1, a page size in range and aligned and, in strict mode, a stored CRC that matches.
\<close>

theorem db_header_gate:
  "(\<exists>h r. parse_header strict (byte_reader_new bs) = Inr (h, r)) \<longleftrightarrow>
     32 \<le> length bs \<and> take 4 bs = kMagic \<and> le16 bs 4 = 1 \<and>
     le16 bs 6 \<in> {64..8192} \<and> le16 bs 6 mod 16 = 0 \<and>
     (\<not> strict \<or> put_u32le [] (crc32 (take 28 bs)) = take 4 (drop 28 bs))"
  using parse_header_accepts [of strict bs] by (cases strict) simp_all

text \<open>
  Of two lenient headers that differ in one covered byte at most one is reported intact.
\<close>

theorem db_header_corruption_flagged:
  "parse_header False (byte_reader_new (xs @ [a] @ ys)) = Inr (h, r) \<Longrightarrow>
   parse_header False (byte_reader_new (xs @ [b] @ ys)) = Inr (h', r') \<Longrightarrow>
   a \<noteq> b \<Longrightarrow> length xs < 28 \<Longrightarrow> \<not> (h_checksum_ok h \<and> h_checksum_ok h')"
  by (rule header_crc_detects)

text \<open>
  The errors opening can throw.
\<close>

theorem db_open_errors:
  "open_db data strict = Inl e \<Longrightarrow>
     err_code e \<in> {kShortRead, kBadLength, kBadType, kBadMagic, kBadVersion, kBadChecksum}"
  by (rule open_db_errors)

text \<open>
  Decoding the layout of an index page yields its entries sorted by key; the sort permutes them and keeps entries with equal keys in their order.
\<close>

theorem index_page_codec:
  "length es < 2 ^ 64 \<Longrightarrow> \<forall>e \<in> set es. length (ie_key e) < 2 ^ 64 \<Longrightarrow>
   length header = 8 \<Longrightarrow> header ! 0 = page_type_byte PtIndex \<Longrightarrow>
     (let ix = decode_index_page (header @ index_body_bytes es @ rest) page in
       \<not> ix_truncated ix \<and> mset (ix_entries ix) = mset es \<and>
       sorted (map (\<lambda>e. bytes_of_string (ie_key e)) (ix_entries ix)) \<and>
       filter (\<lambda>e. ie_key e = k) (ix_entries ix) = filter (\<lambda>e. ie_key e = k) es)"
  using decode_index_page_round_trip [of es header rest page] stable_sort_facts(1,2) [of es] stable_sort_facts(3) [of k es]
  by (simp add: Let_def)

text \<open>
  A scan visits every record once, in key order, and then stays exhausted; a seek lands on the least key that is not smaller, or invalidates the cursor when there is none.
\<close>

theorem cursor_scans_in_order:
  "length (db_records db) < n \<Longrightarrow> om_ok (db_records db) \<Longrightarrow>
     (case cu_scan n (cursor_new db) of (rs, c) \<Rightarrow> rs = db_records db \<and> cu_next c = (False, c)) \<and>
     (case cu_seek page slot (cursor_new db) of
        (True, c) \<Rightarrow> cu_valid c \<and> (page, slot) \<le> cu_key c \<and>
          om_lookup (db_records db) (cu_key c) = Some (cu_record c) \<and>
          (\<forall>key \<in> fst ` set (db_records db). (page, slot) \<le> key \<longrightarrow> cu_key c \<le> key)
      | (False, c) \<Rightarrow> \<not> cu_valid c \<and> (\<forall>key \<in> fst ` set (db_records db). key < (page, slot)))"
proof -
  assume n: "length (db_records db) < n" and ok: "om_ok (db_records db)"
  have new: "db_records (cu_db (cursor_new db)) = db_records db" by (simp add: cursor_new_def)
  have "case cu_scan n (cursor_new db) of (rs, c) \<Rightarrow> rs = db_records db \<and> cu_next c = (False, c)"
    using cu_scan_all [OF n] by (simp add: split_beta)
  moreover have "case cu_seek page slot (cursor_new db) of
      (True, c) \<Rightarrow> cu_valid c \<and> (page, slot) \<le> cu_key c \<and>
        om_lookup (db_records db) (cu_key c) = Some (cu_record c) \<and>
        (\<forall>key \<in> fst ` set (db_records db). (page, slot) \<le> key \<longrightarrow> cu_key c \<le> key)
    | (False, c) \<Rightarrow> \<not> cu_valid c \<and> (\<forall>key \<in> fst ` set (db_records db). key < (page, slot))"
  proof (cases "cu_seek page slot (cursor_new db)")
    case (Pair b c)
    then show ?thesis
      using cu_seek_spec [of "cursor_new db" page slot c, unfolded new, OF ok] by (cases b) simp_all
  qed
  ultimately show ?thesis by blast
qed

text \<open>
  Strict mode is lenient mode with the checksums enforced: it accepts exactly the inputs whose lenient parse reports all checksums valid, and delivers the same container.
\<close>

theorem bp_strict_mode:
  "bp_parse (opts\<lparr>bo_strict := True\<rparr>) data = Inr c \<longleftrightarrow>
     bp_parse (opts\<lparr>bo_strict := False\<rparr>) data = Inr c \<and> bc_checksum_ok c"
  by (rule bp_parse_strict)

text \<open>
  What a parsed container guarantees, for any input: the table and every body lie inside the file, the checksum flags tell the truth, FREE sections have no records, every record is shaped as its tag says and nested no deeper than the limit, and the metadata view consists of the keyvals of the METADATA sections.
\<close>

theorem bp_container_facts:
  "bp_parse opts data = Inr c \<Longrightarrow>
     length (bc_sections c) = unat (bc_section_count c) \<and>
     16 + 24 * unat (bc_section_count c) \<le> length data \<and>
     (\<forall>s \<in> set (bc_sections c). section_ok (bo_max_depth opts) data s) \<and>
     bc_metadata c = metadata_of (bc_sections c) \<and>
     (bc_checksum_ok c \<longleftrightarrow> bc_header_checksum_ok c \<and> bc_trailer_checksum_ok c \<and>
        list_all bs_body_checksum_ok (bc_sections c))"
  using bp_parse_facts [of opts data c] by blast

text \<open>
  The errors parsing a container can throw.
\<close>

theorem bp_error_codes:
  "bp_parse opts data = Inl e \<Longrightarrow>
     err_code e \<in> {kShortRead, kBadLength, kBadType, kDepthExceeded, kBadMagic, kBadVersion, kBadChecksum, kTruncated}"
  using bp_parse_errors [of opts data e] by (simp add: parse_errors_def record_errors_def) blast

text \<open>
  Two malformed records at file offset \<open>base\<close>: the unknown tag is reported at its position in the file, the short read inside the body of a FLOAT record at offset 0, whatever the base.
\<close>

theorem bp_short_read_offset:
  "bp_parse_record 32 base 0 (byte_reader_new [9, 0, 0]) = Inl (ParseError kBadType base ''unknown record tag'') \<and>
   bp_parse_record 32 base 0 (byte_reader_new [3, 0, 0]) = Inl (parse_error_default kShortRead 0)"
proof -
  have len: "rd_bind read_varint k (rd_at [3, 0] [0]) = k 0 (rd_at [3, 0, 0] [])"
    for k :: "u64 \<Rightarrow> bp_record rd"
    using varint_codec.get_put [of "[3, 0]" 0 "[]"] by (simp add: rd_bind_def put_varint.simps)
  show ?thesis
    by (simp add: bp_parse_record.simps rd_at_new record_tag_of_byte_def parse_payload_def read_u8_bind_at len
        rd_throw_def Let_def) (simp add: rd_bind_def read_raw_def require_def rd_at_def rd_remaining_def rd_size_def rd_take_def)
qed

text \<open>
  What the serializer prints for a string is read back by the tokenizer as one string token with exactly that text, for every string of bytes and whatever follows it, and the tokenizer stands behind the closing quote.
\<close>

theorem cs_string_literal_round_trip:
  "\<exists>tok lx. lexer_next (lexer_new (bytes_of_string (ser_quoted s) @ rest)) = Inr (tok, lx) \<and>
     tk_kind tok = TkString \<and> tk_text tok = s \<and> lx_rest lx = rest"
  by (rule next_quoted) simp

text \<open>
  A NaN, which products and differences of finite literals reach, is equal to every number: \<open>==\<close>, \<open><=\<close> and \<open>>=\<close> hold between it and any number, and no range rule of a schema reports it.
\<close>

theorem cs_nan_equals_numbers:
  "dbl_is_nan f \<Longrightarrow> is_number v \<Longrightarrow>
     eval_binary TkEq (VFloat f) v off = Inr (VBool True) \<and> eval_binary TkLe (VFloat f) v off = Inr (VBool True) \<and>
     eval_binary TkGe (VFloat f) v off = Inr (VBool True) \<and> check_range rule (VFloat f) = []"
  by (simp add: nan_operators check_range_def numeric_value_def nan_less Let_def)

text \<open>
  On every input the parser returns a list of statements or throws, and then the code is one of \<open>kBadType\<close>, \<open>kBadLength\<close> and \<open>kDepthExceeded\<close> and the offset lies inside the input or at its end.
\<close>

theorem cs_syntax_errors:
  "case bindE (parser_new data) parse_document of
     Inr (stmts, st) \<Rightarrow> True
   | Inl e \<Rightarrow> err_code e \<in> {kBadType, kBadLength, kDepthExceeded} \<and> err_offset e \<le> length data"
  using syntax_errors [of data] by (simp add: parse_codes_def split: sum.split)

text \<open>
  When one name is assigned twice, a query for it gives the value written first, whereas the view a diff is computed from holds the value written last.
\<close>

theorem cs_query_first_write:
  "path_name x \<Longrightarrow> value_type_of v \<notin> {TyArray, TyObject} \<Longrightarrow> value_type_of w \<notin> {TyArray, TyObject} \<Longrightarrow>
     (let doc = [NdAssignment [x] v, NdAssignment [x] w] in
       cs_query doc x = Some v \<and> flat_index (flatten_doc doc) x = Some (render_scalar w))"
  by (rule query_first_write)

end
